(* ===== verification/Ham_Prelude.thy ===== *)
theory Ham_Prelude
  imports Main "HOL-Library.Word"
begin

text \<open>
  Shared vocabulary of the development: results with errors as values, the fragment of the
  C++ standard algorithms the sources call (\<^verbatim>\<open>std::copy\<close>, \<^verbatim>\<open>std::find\<close>, \<^verbatim>\<open>std::search\<close>,
  \<^verbatim>\<open>std::to_string\<close>) and the bridge between 64-bit words and naturals.

  The default build of the repository is the debug build, in which \<^verbatim>\<open>assert\<close> is active:
  a failed assertion is the error \<open>AssertFailed\<close>.  The logging macro \<^verbatim>\<open>CRITICAL\<close> logs and
  calls \<^verbatim>\<open>abort()\<close>: the error \<open>CriticalAbort\<close>.  An access outside a buffer is the error
  \<open>OutOfBounds\<close>, an escaping C++ exception is \<open>Thrown\<close>.  An exception that leaves a function which is
  \<^verbatim>\<open>noexcept\<close>, as destructors are, ends the program in \<^verbatim>\<open>std::terminate\<close>: the error \<open>Terminated\<close>.
\<close>

section \<open>Results\<close>

datatype ham_error =
    AssertFailed string
  | CriticalAbort string
  | Thrown string
  | Terminated string
  | OutOfBounds
  | NullDereference

type_synonym 'a result = "ham_error + 'a"

definition rbind :: "'a result \<Rightarrow> ('a \<Rightarrow> 'b result) \<Rightarrow> 'b result" where
  "rbind m f = (case m of Inl e \<Rightarrow> Inl e | Inr x \<Rightarrow> f x)"

definition assert_that :: "bool \<Rightarrow> string \<Rightarrow> 'a result \<Rightarrow> 'a result" where
  "assert_that b msg k = (if b then k else Inl (AssertFailed msg))"

named_theorems result_simps \<open>evaluation of results\<close>
named_theorems size_simps \<open>64-bit sizes read as naturals\<close>
named_theorems flag_simps \<open>tests and updates of epoll event masks\<close>

lemma rbind_Inl [simp, result_simps]: "rbind (Inl e) f = Inl e"
  by (simp add: rbind_def)

lemma rbind_Inr [simp, result_simps]: "rbind (Inr x) f = f x"
  by (simp add: rbind_def)

lemma rbind_eq_Inr: "rbind m f = Inr y \<longleftrightarrow> (\<exists>x. m = Inr x \<and> f x = Inr y)"
  by (cases m) simp_all

lemma rbind_eq_Inl: "rbind m f = Inl e \<longleftrightarrow> m = Inl e \<or> (\<exists>x. m = Inr x \<and> f x = Inl e)"
  by (cases m) simp_all

lemma assert_that_holds [simp, result_simps]: "b \<Longrightarrow> assert_that b msg k = k"
  by (simp add: assert_that_def)

lemma assert_that_fails [simp, result_simps]: "\<not> b \<Longrightarrow> assert_that b msg k = Inl (AssertFailed msg)"
  by (simp add: assert_that_def)

lemma assert_that_eq_Inr: "assert_that b msg k = Inr y \<longleftrightarrow> b \<and> k = Inr y"
  by (simp add: assert_that_def)

text \<open>A loop that stops at the first error.\<close>

fun rfold :: "('x \<Rightarrow> 's \<Rightarrow> 's result) \<Rightarrow> 'x list \<Rightarrow> 's \<Rightarrow> 's result" where
  "rfold f [] s = Inr s"
| "rfold f (x # xs) s = rbind (f x s) (rfold f xs)"

lemma rfold_append: "rfold f (xs @ ys) s = rbind (rfold f xs s) (rfold f ys)"
proof (induction xs arbitrary: s)
  case Nil
  then show ?case by simp
next
  case (Cons x xs)
  then show ?case by (cases "f x s") simp_all
qed

lemma rbind_assoc: "rbind (rbind m f) g = rbind m (\<lambda>x. rbind (f x) g)"
  by (cases m) simp_all

lemma rbind_Inr_right [simp]: "rbind m Inr = m"
  by (cases m) simp_all

lemma rfold_eta: "rfold f [] = Inr" "rfold f (x # xs) = (\<lambda>s. rbind (f x s) (rfold f xs))"
  by (simp_all add: fun_eq_iff)

text \<open>A loop of loops is one loop.\<close>

lemma rfold_pieces:
  "rfold (\<lambda>h b. rfold (\<lambda>d b. f b d) (pieces h) b) hs b = rfold (\<lambda>d b. f b d) (concat (map pieces hs)) b"
proof (induction hs arbitrary: b)
  case Nil
  then show ?case by simp
next
  case (Cons h hs)
  then have "rfold (\<lambda>h b. rfold (\<lambda>d b. f b d) (pieces h) b) hs = rfold (\<lambda>d b. f b d) (concat (map pieces hs))" ..
  then show ?case by (simp add: rfold_append)
qed

lemma rfold_invariant:
  assumes "rfold f xs s = Inr t" and "P s"
    and "\<And>x s t. x \<in> set xs \<Longrightarrow> P s \<Longrightarrow> f x s = Inr t \<Longrightarrow> P t"
  shows "P t"
  using assms
proof (induction xs arbitrary: s)
  case Nil
  then show ?case by simp
next
  case (Cons x xs)
  from Cons.prems(1) obtain u where u: "f x s = Inr u" "rfold f xs u = Inr t"
    by (auto simp: rbind_eq_Inr)
  have "P u" using Cons.prems(2,3) u(1) by auto
  with Cons.IH [OF u(2)] Cons.prems(3) show ?case by auto
qed

section \<open>Sizes\<close>

type_synonym size_t = "64 word"
type_synonym int64 = "64 word"

text \<open>Reading \<^verbatim>\<open>size_t\<close> arithmetic as arithmetic on naturals where it does not wrap.\<close>

lemma unat_add_size [size_simps]:
  fixes a b :: size_t
  assumes "unat a + unat b < 2 ^ 64"
  shows "unat (a + b) = unat a + unat b"
  using assms by (simp add: unat_word_ariths)

lemma unat_sub_size [size_simps]:
  fixes a b :: size_t
  assumes "unat b \<le> unat a"
  shows "unat (a - b) = unat a - unat b"
  using assms by (simp add: unat_sub word_le_nat_alt)

lemma unat_of_nat_size [size_simps]:
  assumes "n < 2 ^ 64"
  shows "unat (word_of_nat n :: size_t) = n"
  using assms by (simp add: unat_of_nat)

lemma unat_size_bound: "unat (a :: size_t) < 2 ^ 64"
  using unsigned_less [of a, where 'a = nat] by simp

section \<open>Standard algorithms on ranges\<close>

text \<open>\<^verbatim>\<open>std::copy(data, data + len, begin + i)\<close> over a vector: writing past the end of the
  vector is undefined in C++, here the error \<open>OutOfBounds\<close>.\<close>

definition std_copy :: "'a list \<Rightarrow> 'a list \<Rightarrow> nat \<Rightarrow> 'a list result" where
  "std_copy data xs i =
     (if i + length data \<le> length xs
      then Inr (take i xs @ data @ drop (i + length data) xs)
      else Inl OutOfBounds)"

text \<open>Reading \<open>n\<close> elements from offset \<open>i\<close> of a vector (\<^verbatim>\<open>memcpy\<close>, a range given by two
  pointers).\<close>

definition std_read :: "'a list \<Rightarrow> nat \<Rightarrow> nat \<Rightarrow> 'a list result" where
  "std_read xs i n = (if i + n \<le> length xs then Inr (take n (drop i xs)) else Inl OutOfBounds)"

text \<open>\<^verbatim>\<open>std::find(first, last, c)\<close> on the range held by a list: the offset of the first
  occurrence, or the length (\<^verbatim>\<open>last\<close>) when there is none.\<close>

fun std_find :: "'a list \<Rightarrow> 'a \<Rightarrow> nat" where
  "std_find [] c = 0"
| "std_find (x # xs) c = (if x = c then 0 else Suc (std_find xs c))"

text \<open>\<^verbatim>\<open>std::search(first, last, p, p + n)\<close>: the offset of the first occurrence of the
  pattern, or the length (\<^verbatim>\<open>last\<close>).\<close>

fun std_search :: "'a list \<Rightarrow> 'a list \<Rightarrow> nat" where
  "std_search [] pat = 0"
| "std_search (x # xs) pat =
     (if take (length pat) (x # xs) = pat then 0 else Suc (std_search xs pat))"

lemma std_copy_ok:
  "i + length data \<le> length xs \<Longrightarrow>
     std_copy data xs i = Inr (take i xs @ data @ drop (i + length data) xs)"
  by (simp add: std_copy_def)

lemma std_read_ok: "i + n \<le> length xs \<Longrightarrow> std_read xs i n = Inr (take n (drop i xs))"
  by (simp add: std_read_def)

lemma std_find_le: "std_find xs c \<le> length xs"
  by (induction xs) auto

lemma std_find_found: "std_find xs c < length xs \<Longrightarrow> xs ! std_find xs c = c"
  by (induction xs) (auto split: if_splits)

lemma std_find_before: "i < std_find xs c \<Longrightarrow> xs ! i \<noteq> c"
proof (induction xs arbitrary: i)
  case Nil
  then show ?case by simp
next
  case (Cons x xs)
  then show ?case by (cases i) (auto split: if_splits)
qed

lemma std_find_absent: "c \<notin> set xs \<Longrightarrow> std_find xs c = length xs"
  by (induction xs) auto

lemma std_find_append: "c \<notin> set xs \<Longrightarrow> std_find (xs @ c # ys) c = length xs"
  by (induction xs) auto

lemma std_find_eq_length: "std_find xs c = length xs \<longleftrightarrow> c \<notin> set xs"
  by (induction xs) auto

lemma std_find_split:
  assumes "c \<in> set xs"
  obtains ys zs where "xs = ys @ c # zs" "c \<notin> set ys" "std_find xs c = length ys"
proof -
  obtain ys zs where "xs = ys @ c # zs" "c \<notin> set ys" using split_list_first [OF assms] by blast
  with that [of ys zs] std_find_append [of c ys zs] show ?thesis by simp
qed

lemma first_split:
  assumes "c \<notin> set xs" and "c \<notin> set ys" and "xs @ c # us = ys @ c # vs"
  shows "xs = ys \<and> us = vs"
proof -
  have "length xs = length ys"
    using std_find_append [OF assms(1), of us] std_find_append [OF assms(2), of vs] assms(3) by simp
  then show ?thesis using assms(3) by simp
qed

lemma std_search_le: "std_search xs pat \<le> length xs"
  by (induction xs) auto

lemma std_search_found:
  "std_search xs pat < length xs \<Longrightarrow>
     take (length pat) (drop (std_search xs pat) xs) = pat"
  by (induction xs) (auto split: if_splits)

lemma std_search_first:
  "i < std_search xs pat \<Longrightarrow> take (length pat) (drop i xs) \<noteq> pat"
proof (induction xs arbitrary: i)
  case Nil
  then show ?case by simp
next
  case (Cons x xs)
  then show ?case by (cases i) (auto split: if_splits)
qed

lemma std_search_room:
  assumes "std_search xs pat < length xs"
  shows "std_search xs pat + length pat \<le> length xs"
proof -
  from assms have "take (length pat) (drop (std_search xs pat) xs) = pat"
    by (rule std_search_found)
  then have "length pat \<le> length xs - std_search xs pat"
    by (metis length_drop length_take min.cobounded1)
  with assms show ?thesis by simp
qed

lemma std_search_line:
  "c \<notin> set xs \<Longrightarrow> std_search (xs @ c # d # ys) [c, d] = length xs"
  by (induction xs) auto

text \<open>An occurrence found in a prefix is found in the whole.\<close>

lemma std_search_append:
  assumes "std_search xs pat < length xs"
  shows "std_search (xs @ ys) pat = std_search xs pat"
  using assms
proof (induction xs)
  case Nil
  then show ?case by simp
next
  case (Cons x xs)
  show ?case
  proof (cases "take (length pat) (x # xs) = pat")
    case True
    then have "length pat \<le> length (x # xs)" by (metis length_take min.cobounded1)
    with True show ?thesis by (simp add: take_Cons' split: if_splits)
  next
    case False
    with Cons.prems have lt: "std_search xs pat < length xs" by simp
    have "take (length pat) (x # xs @ ys) \<noteq> pat"
    proof
      assume eq: "take (length pat) (x # xs @ ys) = pat"
      have "length pat \<le> length (x # xs)" using std_search_room [OF lt] by simp
      with eq have "take (length pat) (x # xs) = pat" by (metis append_Cons take_append diff_is_0_eq take_0 append_Nil2)
      with False show False ..
    qed
    with False Cons.IH [OF lt] show ?thesis by simp
  qed
qed

section \<open>Decimal text\<close>

text \<open>\<^verbatim>\<open>std::to_string\<close> on a non-negative integer.\<close>

fun to_string_nat :: "nat \<Rightarrow> string" where
  "to_string_nat n =
     (if n < 10 then [char_of (48 + n)] else to_string_nat (n div 10) @ [char_of (48 + n mod 10)])"

declare to_string_nat.simps [simp del]

definition to_string_int :: "int \<Rightarrow> string" where
  "to_string_int i = (if i < 0 then CHR ''-'' # to_string_nat (nat (- i)) else to_string_nat (nat i))"

text \<open>The value a digit string denotes.\<close>

definition digits_value :: "string \<Rightarrow> nat" where
  "digits_value s = foldl (\<lambda>v c. 10 * v + (of_char c - 48)) 0 s"

lemma digits_value_snoc: "digits_value (s @ [c]) = 10 * digits_value s + (of_char c - 48)"
  by (simp add: digits_value_def)

lemma digits_value_to_string: "digits_value (to_string_nat n) = n"
proof (induction n rule: to_string_nat.induct)
  case (1 n)
  show ?case
  proof (cases "n < 10")
    case True
    then show ?thesis
      by (simp add: to_string_nat.simps [of n] digits_value_def)
  next
    case False
    with 1 have "digits_value (to_string_nat (n div 10)) = n div 10" by simp
    with False show ?thesis
      by (simp add: to_string_nat.simps [of n] digits_value_snoc)
  qed
qed

lemma to_string_nat_inj: "to_string_nat m = to_string_nat n \<Longrightarrow> m = n"
  by (metis digits_value_to_string)

lemma to_string_nat_digits: "c \<in> set (to_string_nat n) \<Longrightarrow> of_char c \<in> {48..(57::nat)}"
proof (induction n rule: to_string_nat.induct)
  case (1 n)
  show ?case
  proof (cases "n < 10")
    case True
    with "1.prems" show ?thesis by (simp add: to_string_nat.simps [of n])
  next
    case False
    have "48 + n mod 10 \<in> {48..57}" by simp
    with False 1 show ?thesis by (auto simp: to_string_nat.simps [of n])
  qed
qed

lemma to_string_nat_length: "n < 10 ^ Suc d \<Longrightarrow> length (to_string_nat n) \<le> Suc d"
proof (induction d arbitrary: n)
  case 0
  then show ?case by (simp add: to_string_nat.simps [of n])
next
  case (Suc d)
  have "n div 10 < 10 ^ Suc d" using Suc.prems by (simp add: less_mult_imp_div_less)
  then have "length (to_string_nat (n div 10)) \<le> Suc d" by (rule Suc.IH)
  then show ?case by (simp add: to_string_nat.simps [of n])
qed

end
