(* ===== verification/Std_Containers.thy ===== *)
theory Std_Containers
  imports Ham_Prelude "HOL-Library.Char_ord" "HOL-Library.List_Lexorder" "HOL-Library.Product_Lexorder"
begin

text \<open>
  The ordered containers of the C++ standard library the sources use.  A \<^verbatim>\<open>std::map\<close> is the list
  of its entries in key order, a \<^verbatim>\<open>std::set\<close> the list of its elements in order; iteration is the
  list itself, so results that depend on the iteration order are computable.  Strings are compared
  byte by byte (\<^verbatim>\<open>std::string::compare\<close>) and pairs lexicographically (\<^verbatim>\<open>std::pair\<close>).
\<close>

section \<open>std::map\<close>

type_synonym ('k, 'v) std_map = "('k \<times> 'v) list"

definition map_ok :: "('k::linorder, 'v) std_map \<Rightarrow> bool" where
  "map_ok m \<longleftrightarrow> sorted_wrt (<) (map fst m)"

text \<open>\<^verbatim>\<open>m[k] = v\<close>\<close>

fun map_set :: "'k::linorder \<Rightarrow> 'v \<Rightarrow> ('k, 'v) std_map \<Rightarrow> ('k, 'v) std_map" where
  "map_set k v [] = [(k, v)]"
| "map_set k v ((k', v') # m) =
     (if k < k' then (k, v) # (k', v') # m
      else if k = k' then (k, v) # m
      else (k', v') # map_set k v m)"

text \<open>\<^verbatim>\<open>m.erase(k)\<close>\<close>

fun map_erase :: "'k \<Rightarrow> ('k, 'v) std_map \<Rightarrow> ('k, 'v) std_map" where
  "map_erase k [] = []"
| "map_erase k ((k', v') # m) = (if k = k' then m else (k', v') # map_erase k m)"

text \<open>The contract of an ordered map: lookups after each update, and iteration in key order.\<close>

locale ordered_map =
  fixes invar :: "'m \<Rightarrow> bool"
    and look :: "'m \<Rightarrow> 'k \<Rightarrow> 'v option"
    and empty :: 'm
    and update :: "'k \<Rightarrow> 'v \<Rightarrow> 'm \<Rightarrow> 'm"
    and delete :: "'k \<Rightarrow> 'm \<Rightarrow> 'm"
  assumes invar_empty: "invar empty"
    and invar_update: "invar m \<Longrightarrow> invar (update k v m)"
    and invar_delete: "invar m \<Longrightarrow> invar (delete k m)"
    and look_empty: "look empty = Map.empty"
    and look_update: "invar m \<Longrightarrow> look (update k v m) = (look m)(k \<mapsto> v)"
    and look_delete: "invar m \<Longrightarrow> look (delete k m) = (look m)(k := None)"
begin

text \<open>Storing a sequence of entries: the last entry for a key wins.\<close>

lemma look_fold_update:
  assumes "invar m"
  shows "invar (fold (\<lambda>(k, v). update k v) kvs m)"
    and "look (fold (\<lambda>(k, v). update k v) kvs m) = look m ++ map_of (rev kvs)"
  using assms
proof (induction kvs arbitrary: m)
  case Nil
  {
    case 1
    then show ?case by simp
  next
    case 2
    then show ?case by simp
  }
next
  case (Cons kv kvs)
  obtain k v where kv: "kv = (k, v)" by (cases kv)
  {
    case 1
    then show ?case by (simp add: kv Cons.IH(1) invar_update)
  next
    case 2
    then show ?case
      by (auto simp: kv Cons.IH(2) invar_update look_update fun_eq_iff map_add_def split: option.splits)
  }
qed

end

lemma keys_map_set: "fst ` set (map_set k v m) = insert k (fst ` set m)"
  by (induction k v m rule: map_set.induct) auto

lemma map_ok_empty [simp]: "map_ok []"
  by (simp add: map_ok_def)

lemma map_ok_Cons: "map_ok ((k, v) # m) \<longleftrightarrow> (\<forall>k' \<in> fst ` set m. k < k') \<and> map_ok m"
  by (auto simp: map_ok_def)

lemma map_ok_set: "map_ok m \<Longrightarrow> map_ok (map_set k v m)"
proof (induction k v m rule: map_set.induct)
  case (1 k v)
  then show ?case by (simp add: map_ok_def)
next
  case (2 k v k' v' m)
  then show ?case
    by (force simp: map_ok_Cons keys_map_set)
qed

lemma set_map_erase_subset: "set (map_erase k m) \<subseteq> set m"
  by (induction k m rule: map_erase.induct) auto

lemma map_ok_erase: "map_ok m \<Longrightarrow> map_ok (map_erase k m)"
proof (induction k m rule: map_erase.induct)
  case (1 k)
  then show ?case by simp
next
  case (2 k k' v' m)
  then show ?case using set_map_erase_subset [of k m] by (auto simp: map_ok_Cons)
qed

lemma map_of_map_set: "map_of (map_set k v m) = (map_of m)(k \<mapsto> v)"
  by (induction k v m rule: map_set.induct) (auto simp: fun_eq_iff)

lemma map_of_map_erase: "map_ok m \<Longrightarrow> map_of (map_erase k m) = (map_of m)(k := None)"
proof (induction k m rule: map_erase.induct)
  case (1 k)
  then show ?case by (simp add: fun_eq_iff)
next
  case (2 k k' v' m)
  then have "k' \<notin> fst ` set m" by (auto simp: map_ok_Cons)
  with 2 show ?case
    by (auto simp: map_ok_Cons fun_eq_iff map_of_eq_None_iff)
qed

interpretation std_map: ordered_map map_ok map_of "[]" map_set map_erase
  by unfold_locales
    (auto simp: map_ok_set map_ok_erase map_of_map_set map_of_map_erase)

text \<open>Inserting in key order appends.\<close>

lemma map_set_last: "\<forall>k' \<in> fst ` set m. k' < k \<Longrightarrow> map_set k v m = m @ [(k, v)]"
  by (induction m) auto

lemma map_ok_append:
  "map_ok (m @ n) \<longleftrightarrow> map_ok m \<and> map_ok n \<and> (\<forall>k \<in> fst ` set m. \<forall>k' \<in> fst ` set n. k < k')"
  by (auto simp: map_ok_def sorted_wrt_append)

lemma fold_map_set_sorted: "map_ok (m @ hs) \<Longrightarrow> fold (\<lambda>(k, v). map_set k v) hs m = m @ hs"
proof (induction hs arbitrary: m)
  case Nil
  then show ?case by simp
next
  case (Cons h hs)
  obtain k v where h: "h = (k, v)" by (cases h)
  have "map_set k v m = m @ [(k, v)]"
    using Cons.prems by (intro map_set_last) (auto simp: h map_ok_append)
  moreover have "map_ok ((m @ [(k, v)]) @ hs)" using Cons.prems by (simp add: h)
  ultimately show ?case using Cons.IH by (simp add: h)
qed

lemma map_ok_distinct: "map_ok m \<Longrightarrow> distinct (map fst m)"
  by (simp add: map_ok_def strict_sorted_iff)

lemma map_of_set_iff: "map_ok m \<Longrightarrow> map_of m k = Some v \<longleftrightarrow> (k, v) \<in> set m"
  by (metis map_ok_distinct map_of_eq_Some_iff)

section \<open>std::set\<close>

abbreviation set_ok :: "'a::linorder list \<Rightarrow> bool" where
  "set_ok xs \<equiv> sorted_wrt (<) xs"

fun set_insert :: "'a::linorder \<Rightarrow> 'a list \<Rightarrow> 'a list" where
  "set_insert x [] = [x]"
| "set_insert x (y # ys) =
     (if x < y then x # y # ys else if x = y then y # ys else y # set_insert x ys)"

definition set_erase :: "'a \<Rightarrow> 'a list \<Rightarrow> 'a list" where
  "set_erase x xs = filter (\<lambda>y. y \<noteq> x) xs"

text \<open>\<^verbatim>\<open>s.lower_bound(x)\<close> splits the set: the elements before the iterator and those from it on.\<close>

definition before_lower_bound :: "'a::linorder \<Rightarrow> 'a list \<Rightarrow> 'a list" where
  "before_lower_bound x xs = takeWhile (\<lambda>y. y < x) xs"

definition from_lower_bound :: "'a::linorder \<Rightarrow> 'a list \<Rightarrow> 'a list" where
  "from_lower_bound x xs = dropWhile (\<lambda>y. y < x) xs"

lemma set_set_insert [simp]: "set (set_insert x xs) = insert x (set xs)"
  by (induction x xs rule: set_insert.induct) auto

lemma set_ok_insert: "set_ok xs \<Longrightarrow> set_ok (set_insert x xs)"
  by (induction x xs rule: set_insert.induct) force+

lemma set_set_erase [simp]: "set (set_erase x xs) = set xs - {x}"
  by (auto simp: set_erase_def)

lemma set_ok_erase: "set_ok xs \<Longrightarrow> set_ok (set_erase x xs)"
  by (simp add: set_erase_def sorted_wrt_filter)

lemma set_erase_insert: "x \<notin> set xs \<Longrightarrow> set_erase x (set_insert x xs) = xs"
  by (induction xs) (auto simp: set_erase_def filter_id_conv)

lemma lower_bound_split:
  assumes "set_ok xs"
  shows "before_lower_bound x xs = filter (\<lambda>y. y < x) xs"
    and "from_lower_bound x xs = filter (\<lambda>y. x \<le> y) xs"
proof -
  have "takeWhile (\<lambda>y. y < x) xs = filter (\<lambda>y. y < x) xs \<and>
      dropWhile (\<lambda>y. y < x) xs = filter (\<lambda>y. x \<le> y) xs"
    using assms
  proof (induction xs)
    case Nil
    then show ?case by simp
  next
    case (Cons a xs)
    show ?case
    proof (cases "a < x")
      case True
      with Cons show ?thesis by auto
    next
      case False
      with Cons.prems have "\<forall>y \<in> set xs. x < y" by auto
      then have "filter (\<lambda>y. y < x) xs = []" "filter (\<lambda>y. x \<le> y) xs = xs"
        by (force simp: filter_empty_conv filter_id_conv)+
      with False show ?thesis by auto
    qed
  qed
  then show "before_lower_bound x xs = filter (\<lambda>y. y < x) xs"
    and "from_lower_bound x xs = filter (\<lambda>y. x \<le> y) xs"
    by (simp_all add: before_lower_bound_def from_lower_bound_def)
qed

lemma set_ok_hd_least: "set_ok xs \<Longrightarrow> x \<in> set xs \<Longrightarrow> hd xs \<le> x"
  by (cases xs) (auto simp: less_imp_le)

end
