(* ===== verification/Timestamp.thy ===== *)
theory Timestamp
  imports Std_Containers "HOL-Library.Signed_Division" "HOL-Library.Log_Nat"
begin

text \<open>
  Model of \<^verbatim>\<open>ham/base/Timestamp.h\<close> and \<^verbatim>\<open>ham/base/Timestamp.cc\<close>: a point in time as a signed 64-bit
  number of microseconds since the epoch.  The wall clock is an argument of the operations that
  read it.  \<^verbatim>\<open>toFormatTime\<close> (local time zone, C locale) is not modelled.

  A \<^verbatim>\<open>double\<close> is the rational number it denotes; \<open>round_double\<close> is the rounding of the IEEE binary64
  format to 53 significant bits, ties to even.  It is used where the result is truncated to an
  integer, so the finer spacing below 1/2 is immaterial and not spelt out.
\<close>

section \<open>Doubles\<close>

type_synonym double = rat

definition round_half_even :: "rat \<Rightarrow> int" where
  "round_half_even x =
     (let f = \<lfloor>x\<rfloor>; d = x - of_int f
      in if d < 1/2 then f else if 1/2 < d then f + 1 else if even f then f else f + 1)"

definition ulp_exponent :: "rat \<Rightarrow> int" where
  "ulp_exponent x = (if \<bar>x\<bar> < 1 then - 53 else int (floorlog 2 (nat \<lfloor>\<bar>x\<bar>\<rfloor>)) - 53)"

definition round_double :: "rat \<Rightarrow> double" where
  "round_double x = (let u = 2 powi ulp_exponent x in of_int (round_half_even (x / u)) * u)"

text \<open>\<^verbatim>\<open>static_cast<int64_t>(d)\<close> drops the fraction.\<close>

definition trunc_double :: "double \<Rightarrow> int" where
  "trunc_double d = (if 0 \<le> d then \<lfloor>d\<rfloor> else \<lceil>d\<rceil>)"

section \<open>Timestamps\<close>

datatype timestamp = Timestamp (microsecondsFromEpoch: int64)

definition kMicrosecondsPerSecond :: int where
  "kMicrosecondsPerSecond = 1000 * 1000"

definition valid :: "timestamp \<Rightarrow> bool" where
  "valid t \<longleftrightarrow> 0 < sint (microsecondsFromEpoch t)"

definition invalid :: timestamp where
  "invalid = Timestamp 0"

text \<open>\<^verbatim>\<open>now\<close> casts the nanoseconds of \<^verbatim>\<open>system_clock\<close> to microseconds, truncating toward zero.\<close>

definition now_timestamp :: "int \<Rightarrow> timestamp" where
  "now_timestamp system_clock_ns = (let nowFromEpoch = system_clock_ns sdiv 1000 in Timestamp (word_of_int nowFromEpoch))"

definition secondsFromEpoch :: "timestamp \<Rightarrow> int" where
  "secondsFromEpoch t = sint (microsecondsFromEpoch t) sdiv kMicrosecondsPerSecond"

definition swap_timestamp :: "timestamp \<Rightarrow> timestamp \<Rightarrow> timestamp \<times> timestamp" where
  "swap_timestamp this src = (src, this)"

definition toString :: "timestamp \<Rightarrow> string" where
  "toString t =
     to_string_int (sint (microsecondsFromEpoch t) sdiv kMicrosecondsPerSecond) @ ''.'' @
     to_string_int (sint (microsecondsFromEpoch t) smod kMicrosecondsPerSecond)"

text \<open>\<^verbatim>\<open>operator<\<close> and \<^verbatim>\<open>operator==\<close>; \<^verbatim>\<open>boost::less_than_comparable\<close> derives the other comparisons.\<close>

definition operator_less :: "timestamp \<Rightarrow> timestamp \<Rightarrow> bool" where
  "operator_less lhs rhs \<longleftrightarrow> sint (microsecondsFromEpoch lhs) < sint (microsecondsFromEpoch rhs)"

definition operator_equal :: "timestamp \<Rightarrow> timestamp \<Rightarrow> bool" where
  "operator_equal lhs rhs \<longleftrightarrow> microsecondsFromEpoch lhs = microsecondsFromEpoch rhs"

lemma operator_equal_eq [simp]: "operator_equal lhs rhs \<longleftrightarrow> lhs = rhs"
  by (auto simp: operator_equal_def intro: timestamp.expand)

instantiation timestamp :: linorder
begin

definition less_timestamp :: "timestamp \<Rightarrow> timestamp \<Rightarrow> bool" where
  "lhs < rhs \<longleftrightarrow> operator_less lhs rhs"

definition less_eq_timestamp :: "timestamp \<Rightarrow> timestamp \<Rightarrow> bool" where
  "lhs \<le> rhs \<longleftrightarrow> sint (microsecondsFromEpoch lhs) \<le> sint (microsecondsFromEpoch rhs)"

instance
  by standard
    (auto simp: less_timestamp_def operator_less_def less_eq_timestamp_def signed.order.eq_iff word_sle_eq
      intro: timestamp.expand)

end

text \<open>The difference in seconds, as the code computes it: an integer division before the cast.\<close>

definition timeDifference :: "timestamp \<Rightarrow> timestamp \<Rightarrow> double" where
  "timeDifference lhs rhs =
     of_int (sint (microsecondsFromEpoch lhs - microsecondsFromEpoch rhs) sdiv kMicrosecondsPerSecond)"

definition addTime :: "timestamp \<Rightarrow> double \<Rightarrow> timestamp" where
  "addTime src secondsToBeAdded =
     (let microseconds = trunc_double (round_double (secondsToBeAdded * of_int kMicrosecondsPerSecond))
      in Timestamp (microsecondsFromEpoch src + word_of_int microseconds))"

section \<open>Lemmas\<close>

lemma round_half_even_int [simp]: "round_half_even (of_int k) = k"
  by (simp add: round_half_even_def)

text \<open>Integers of up to 53 bits are doubles.\<close>

lemma round_double_int:
  assumes "\<bar>k\<bar> < 2 ^ 53"
  shows "round_double (of_int k) = of_int k"
proof -
  define e where "e = - ulp_exponent (of_int k)"
  have "ulp_exponent (of_int k) \<le> 0"
  proof (cases "\<bar>k\<bar> < 1")
    case True
    then show ?thesis by (simp add: ulp_exponent_def)
  next
    case False
    have "nat \<bar>k\<bar> < 2 ^ 53" using assms by (simp add: nat_less_iff)
    then have "floorlog 2 (nat \<bar>k\<bar>) \<le> 53" by (simp add: floorlog_leI)
    with False show ?thesis by (auto simp: ulp_exponent_def simp flip: of_int_abs)
  qed
  then have e: "ulp_exponent (of_int k) = - int (nat e)" by (simp add: e_def)
  have "of_int k / (2 powi ulp_exponent (of_int k) :: rat) = of_int (k * 2 ^ nat e)"
    unfolding e power_int_minus power_int_of_nat by (simp add: divide_inverse)
  then show ?thesis
    unfolding round_double_def Let_def e power_int_minus power_int_of_nat
    by (simp del: of_int_mult) simp
qed

lemma trunc_double_int [simp]: "trunc_double (of_int k) = k"
  by (simp add: trunc_double_def)

lemma addTime_seconds:
  assumes "\<bar>n * kMicrosecondsPerSecond\<bar> < 2 ^ 53"
  shows "addTime t (of_int n) =
    Timestamp (microsecondsFromEpoch t + word_of_int (n * kMicrosecondsPerSecond))"
  using round_double_int [OF assms]
  by (simp add: addTime_def flip: of_int_mult)

end
