(* ===== verification/HttpRequest.thy ===== *)
theory HttpRequest
  imports Timestamp "HOL-Library.List_Lexorder" "HOL-Library.Char_ord"
begin

text \<open>
  Model of \<^verbatim>\<open>ham/net/http/HttpRequest.{h,cc}\<close>.  A range given by two \<^verbatim>\<open>const char*\<close> is the list of its
  bytes.  The header map is a \<^verbatim>\<open>std::map\<close> over strings, which compare byte-wise and unsigned.
\<close>

datatype http_method = kInvalid | kGet | kPost | kHead | kPut | kDelete

datatype http_version = kUnknown | kHttp10 | kHttp11

record http_request =
  req_method :: http_method
  version :: http_version
  receiveTime :: timestamp
  path :: string
  query :: string
  body :: string
  headers :: "(string, string) std_map"

definition HttpRequest_ctor :: http_request where
  "HttpRequest_ctor = \<lparr>req_method = kInvalid, version = kUnknown, receiveTime = Timestamp 0,
     path = [], query = [], body = [], headers = []\<rparr>"

definition methodToString :: "http_request \<Rightarrow> string" where
  "methodToString r = (case req_method r of
      kGet \<Rightarrow> ''GET'' | kPost \<Rightarrow> ''POST'' | kHead \<Rightarrow> ''HEAD'' | kPut \<Rightarrow> ''PUT'' | kDelete \<Rightarrow> ''DELETE''
    | kInvalid \<Rightarrow> ''UNKNOWN'')"

definition setMethod :: "http_request \<Rightarrow> string \<Rightarrow> (bool \<times> http_request) result" where
  "setMethod r m =
     assert_that (req_method r = kInvalid) ''method_ == kInvalid''
     (let r' = r\<lparr>req_method :=
        if m = ''GET'' then kGet else if m = ''POST'' then kPost else if m = ''HEAD'' then kHead
        else if m = ''PUT'' then kPut else if m = ''DELETE'' then kDelete else kInvalid\<rparr>
      in Inr (req_method r' \<noteq> kInvalid, r'))"

definition setVersion :: "http_request \<Rightarrow> http_version \<Rightarrow> http_request" where
  "setVersion r v = r\<lparr>version := v\<rparr>"

definition setReceiveTime :: "http_request \<Rightarrow> timestamp \<Rightarrow> http_request" where
  "setReceiveTime r t = r\<lparr>receiveTime := t\<rparr>"

definition setPath :: "http_request \<Rightarrow> string \<Rightarrow> http_request" where
  "setPath r s = r\<lparr>path := s\<rparr>"

definition setQuery :: "http_request \<Rightarrow> string \<Rightarrow> http_request" where
  "setQuery r s = r\<lparr>query := s\<rparr>"

definition setBody :: "http_request \<Rightarrow> string \<Rightarrow> http_request" where
  "setBody r s = r\<lparr>body := s\<rparr>"

text \<open>\<^verbatim>\<open>isspace\<close> in the C locale.\<close>

definition isspace :: "char \<Rightarrow> bool" where
  "isspace c \<longleftrightarrow> c \<in> {CHR 0x20, CHR 0x09, CHR 0x0A, CHR 0x0B, CHR 0x0C, CHR 0x0D}"

text \<open>The loop that drops trailing white space from \<open>value\<close>.\<close>

fun trim_right :: "string \<Rightarrow> string" where
  "trim_right value =
     (if value \<noteq> [] \<and> isspace (last value) then trim_right (butlast value) else value)"

declare trim_right.simps [simp del]

text \<open>\<^verbatim>\<open>addHeader(start, colon, end)\<close>: \<open>line\<close> is the range from \<^verbatim>\<open>start\<close> to \<^verbatim>\<open>end\<close>, \<open>colon\<close> an offset in it.\<close>

definition addHeader :: "http_request \<Rightarrow> string \<Rightarrow> nat \<Rightarrow> http_request" where
  "addHeader r line colon =
     (let field = take colon line;
          cur = dropWhile isspace (drop (colon + 1) line);
          value = trim_right cur
      in r\<lparr>headers := map_set field value (headers r)\<rparr>)"

definition getHeader :: "http_request \<Rightarrow> string \<Rightarrow> string" where
  "getHeader r field = (case map_of (headers r) field of None \<Rightarrow> [] | Some value \<Rightarrow> value)"

text \<open>\<^verbatim>\<open>swap\<close> exchanges all members but \<^verbatim>\<open>query_\<close> and \<^verbatim>\<open>body_\<close>.\<close>

definition swap_request :: "http_request \<Rightarrow> http_request \<Rightarrow> http_request \<times> http_request" where
  "swap_request this that =
     (this\<lparr>req_method := req_method that, version := version that, path := path that,
           receiveTime := receiveTime that, headers := headers that\<rparr>,
      that\<lparr>req_method := req_method this, version := version this, path := path this,
           receiveTime := receiveTime this, headers := headers this\<rparr>)"

section \<open>Lemmas\<close>

lemma trim_right_eq: "trim_right s = rev (dropWhile isspace (rev s))"
proof (induction s rule: trim_right.induct)
  case (1 s)
  show ?case
  proof (cases s rule: rev_cases)
    case Nil
    then show ?thesis by (subst trim_right.simps) simp
  next
    case (snoc xs x)
    with 1 show ?thesis by (subst trim_right.simps) auto
  qed
qed

text \<open>A header value without white space at its ends is stored as it is.\<close>

definition trimmed :: "string \<Rightarrow> bool" where
  "trimmed s \<longleftrightarrow> s = [] \<or> \<not> isspace (hd s) \<and> \<not> isspace (last s)"

lemma trim_right_id: "trimmed s \<Longrightarrow> trim_right s = s"
  by (subst trim_right.simps) (auto simp: trimmed_def)

lemma dropWhile_trimmed: "trimmed s \<Longrightarrow> dropWhile isspace s = s"
  by (cases s) (auto simp: trimmed_def)

lemma methodToString_inj:
  assumes "req_method r \<noteq> kInvalid" and "req_method r' = kInvalid"
  shows "setMethod r' (methodToString r) = Inr (True, r'\<lparr>req_method := req_method r\<rparr>)"
  using assms by (cases "req_method r") (simp_all add: setMethod_def methodToString_def)

lemma getHeader_addHeader:
  "getHeader (addHeader r line colon) f =
     (if f = take colon line then trim_right (dropWhile isspace (drop (colon + 1) line)) else getHeader r f)"
  by (simp add: getHeader_def addHeader_def map_of_map_set Let_def)

lemma to_string_nat_no_space: "\<forall>c \<in> set (to_string_nat n). \<not> isspace c" "to_string_nat n \<noteq> []"
proof -
  show "\<forall>c \<in> set (to_string_nat n). \<not> isspace c"
    using to_string_nat_digits [of _ n] by (fastforce simp: isspace_def)
  show "to_string_nat n \<noteq> []" by (simp add: to_string_nat.simps [of n])
qed

end
