(* ===== verification/Endian.thy ===== *)
theory Endian
  imports Ham_Prelude
begin

text \<open>
  Model of \<^verbatim>\<open>ham/net/Endian.h\<close>.  The object representation of an integer is a list of
  bytes in the byte order of the host; the flag \<open>le\<close> says whether the host is
  little-endian, so every theorem holds for both kinds of host.
  \<^verbatim>\<open>htobe*\<close> and \<^verbatim>\<open>be*toh\<close> of the C library swap the bytes exactly on a little-endian host.
\<close>

section \<open>Object representation of integers\<close>

fun le_bytes :: "nat \<Rightarrow> nat \<Rightarrow> char list" where
  "le_bytes 0 v = []"
| "le_bytes (Suc n) v = char_of v # le_bytes n (v div 256)"

fun le_value :: "char list \<Rightarrow> nat" where
  "le_value [] = 0"
| "le_value (c # cs) = of_char c + 256 * le_value cs"

lemma length_le_bytes [simp]: "length (le_bytes n v) = n"
  by (induction n arbitrary: v) auto

lemma le_value_le_bytes: "le_value (le_bytes n v) = v mod 256 ^ n"
proof (induction n arbitrary: v)
  case 0
  then show ?case by simp
next
  case (Suc n)
  then show ?case by (simp add: mod_mult2_eq)
qed

lemma le_bytes_le_value: "le_bytes (length cs) (le_value cs) = cs"
proof (induction cs)
  case Nil
  then show ?case by simp
next
  case (Cons c cs)
  have "char_of (of_char c + 256 * le_value cs) = c"
    by (simp add: char_of_eq_iff take_bit_eq_mod [of 8 "_ :: nat"])
  with Cons show ?case by simp
qed

lemma le_value_bound: "le_value cs < 256 ^ length cs"
proof (induction cs)
  case Nil
  then show ?case by simp
next
  case (Cons c cs)
  have "of_char c < (256 :: nat)" by simp
  with Cons show ?case by (simp del: nat_of_char_less_256)
qed

text \<open>\<^verbatim>\<open>memcpy\<close> of an integer to and from bytes in the host's order.\<close>

definition to_mem :: "bool \<Rightarrow> nat \<Rightarrow> 'a::len word \<Rightarrow> char list" where
  "to_mem le n w = (if le then le_bytes n (unat w) else rev (le_bytes n (unat w)))"

definition of_mem :: "bool \<Rightarrow> char list \<Rightarrow> 'a::len word" where
  "of_mem le cs = word_of_nat (le_value (if le then cs else rev cs))"

definition byte_swap :: "nat \<Rightarrow> 'a::len word \<Rightarrow> 'a word" where
  "byte_swap n w = word_of_nat (le_value (rev (le_bytes n (unat w))))"

section \<open>The conversions of Endian.h\<close>

definition hostToNetwork64 :: "bool \<Rightarrow> 64 word \<Rightarrow> 64 word" where
  "hostToNetwork64 le w = (if le then byte_swap 8 w else w)"

definition hostToNetwork32 :: "bool \<Rightarrow> 32 word \<Rightarrow> 32 word" where
  "hostToNetwork32 le w = (if le then byte_swap 4 w else w)"

definition hostToNetwork16 :: "bool \<Rightarrow> 16 word \<Rightarrow> 16 word" where
  "hostToNetwork16 le w = (if le then byte_swap 2 w else w)"

definition networkToHost64 :: "bool \<Rightarrow> 64 word \<Rightarrow> 64 word" where
  "networkToHost64 le w = (if le then byte_swap 8 w else w)"

definition networkToHost32 :: "bool \<Rightarrow> 32 word \<Rightarrow> 32 word" where
  "networkToHost32 le w = (if le then byte_swap 4 w else w)"

definition networkToHost16 :: "bool \<Rightarrow> 16 word \<Rightarrow> 16 word" where
  "networkToHost16 le w = (if le then byte_swap 2 w else w)"

lemmas endian_defs =
  hostToNetwork64_def hostToNetwork32_def hostToNetwork16_def
  networkToHost64_def networkToHost32_def networkToHost16_def

section \<open>Round trips\<close>

lemma length_to_mem [simp]: "length (to_mem le n w) = n"
  by (simp add: to_mem_def)

lemma le_value_word:
  fixes w :: "'a::len word"
  assumes "LENGTH('a) = 8 * n"
  shows "le_value (le_bytes n (unat w)) = unat w"
proof -
  have "unat w < 256 ^ n"
    using unsigned_less [of w, where 'a = nat] assms by (simp add: power_mult)
  then show ?thesis by (simp add: le_value_le_bytes)
qed

lemma of_mem_to_mem:
  fixes w :: "'a::len word"
  assumes "LENGTH('a) = 8 * n"
  shows "of_mem le (to_mem le n w) = w"
  by (simp add: of_mem_def to_mem_def le_value_word [OF assms])

lemma to_mem_byte_swap:
  fixes w :: "'a::len word"
  assumes "LENGTH('a) = 8 * n"
  shows "to_mem True n (byte_swap n w) = rev (le_bytes n (unat w))"
proof -
  let ?cs = "rev (le_bytes n (unat w))"
  have "le_value ?cs < 2 ^ LENGTH('a)"
    using le_value_bound [of ?cs] assms by (simp add: power_mult)
  then have "unat (byte_swap n w) = le_value ?cs"
    by (simp add: byte_swap_def unat_of_nat)
  then show ?thesis
    using le_bytes_le_value [of ?cs] by (simp add: to_mem_def)
qed

lemma byte_swap_byte_swap:
  fixes w :: "'a::len word"
  assumes "LENGTH('a) = 8 * n"
  shows "byte_swap n (byte_swap n w) = w"
proof -
  have "le_bytes n (unat (byte_swap n w)) = rev (le_bytes n (unat w))"
    using to_mem_byte_swap [OF assms, of w] by (simp add: to_mem_def)
  then show ?thesis
    by (simp add: byte_swap_def [of n "byte_swap n w"] le_value_word [OF assms])
qed

text \<open>What travels on the wire is the big-endian representation, whatever the host.\<close>

definition wire_bytes :: "nat \<Rightarrow> 'a::len word \<Rightarrow> char list" where
  "wire_bytes n w = rev (le_bytes n (unat w))"

lemma length_wire_bytes [simp]: "length (wire_bytes n w) = n"
  by (simp add: wire_bytes_def)

lemma to_mem_network:
  "to_mem le 8 (hostToNetwork64 le x) = wire_bytes 8 x"
  "to_mem le 4 (hostToNetwork32 le y) = wire_bytes 4 y"
  "to_mem le 2 (hostToNetwork16 le z) = wire_bytes 2 z"
  by (cases le; simp add: endian_defs wire_bytes_def to_mem_byte_swap;
      simp add: to_mem_def)+

lemma network_of_mem:
  "networkToHost64 le (of_mem le (wire_bytes 8 x)) = x"
  "networkToHost32 le (of_mem le (wire_bytes 4 y)) = y"
  "networkToHost16 le (of_mem le (wire_bytes 2 z)) = z"
proof -
  have 8: "of_mem le (wire_bytes 8 x) = hostToNetwork64 le x"
    using of_mem_to_mem [of 8 le "hostToNetwork64 le x"] by (simp add: to_mem_network)
  have 4: "of_mem le (wire_bytes 4 y) = hostToNetwork32 le y"
    using of_mem_to_mem [of 4 le "hostToNetwork32 le y"] by (simp add: to_mem_network)
  have 2: "of_mem le (wire_bytes 2 z) = hostToNetwork16 le z"
    using of_mem_to_mem [of 2 le "hostToNetwork16 le z"] by (simp add: to_mem_network)
  show "networkToHost64 le (of_mem le (wire_bytes 8 x)) = x"
    "networkToHost32 le (of_mem le (wire_bytes 4 y)) = y"
    "networkToHost16 le (of_mem le (wire_bytes 2 z)) = z"
    by (simp_all add: 8 4 2 endian_defs byte_swap_byte_swap)
qed

end
