(* ===== verification/Byte_Queue.thy ===== *)
theory Byte_Queue
  imports Ham_Prelude
begin

text \<open>
  The contract between \<^verbatim>\<open>Buffer\<close> and its clients (the HTTP parser and printer, and
  \<^verbatim>\<open>TcpConnection\<close>): a first-in first-out queue of bytes with a limited write position.
  What the clients need of a whole sequence of operations is proved here once, from the laws of
  the single operations.
\<close>

datatype 'a queue_op = Put "'a list" | Get nat

text \<open>Running a sequence of operations: what each \<open>Get\<close> returned, and the final state.\<close>

fun queue_run ::
  "('b \<Rightarrow> 'a list \<Rightarrow> 'b result) \<Rightarrow> ('b \<Rightarrow> nat \<Rightarrow> ('a list \<times> 'b) result) \<Rightarrow>
   'a queue_op list \<Rightarrow> 'b \<Rightarrow> ('a list list \<times> 'b) result" where
  "queue_run put get [] b = Inr ([], b)"
| "queue_run put get (Put d # ops) b = rbind (put b d) (queue_run put get ops)"
| "queue_run put get (Get n # ops) b =
     rbind (get b n) (\<lambda>(s, b'). rbind (queue_run put get ops b') (\<lambda>(out, b''). Inr (s # out, b'')))"

text \<open>The same operations on a list: \<open>Put\<close> appends at the end and \<open>Get n\<close> takes the first \<open>n\<close> bytes.\<close>

fun fifo_run :: "'a queue_op list \<Rightarrow> 'a list \<Rightarrow> 'a list list \<times> 'a list" where
  "fifo_run [] q = ([], q)"
| "fifo_run (Put d # ops) q = fifo_run ops (q @ d)"
| "fifo_run (Get n # ops) q = (let (out, q') = fifo_run ops (drop n q) in (take n q # out, q'))"

text \<open>A sequence is admissible when no \<open>Get\<close> asks for more than is available.\<close>

fun ops_ok :: "'a queue_op list \<Rightarrow> nat \<Rightarrow> bool" where
  "ops_ok [] k = True"
| "ops_ok (Put d # ops) k = ops_ok ops (k + length d)"
| "ops_ok (Get n # ops) k = (n \<le> k \<and> ops_ok ops (k - n))"

fun bytes_put :: "'a queue_op list \<Rightarrow> 'a list" where
  "bytes_put [] = []"
| "bytes_put (Put d # ops) = d @ bytes_put ops"
| "bytes_put (Get n # ops) = bytes_put ops"

lemma fifo_run_bytes:
  assumes "ops_ok ops (length q)" and "fifo_run ops q = (out, q')"
  shows "concat out @ q' = q @ bytes_put ops"
  using assms
proof (induction ops q arbitrary: out q' rule: fifo_run.induct)
  case (3 n ops q)
  obtain out1 where o: "fifo_run ops (drop n q) = (out1, q')" "out = take n q # out1"
    using "3.prems"(2) by (auto split: prod.splits)
  have "concat out1 @ q' = drop n q @ bytes_put ops" by (rule "3.IH" [OF _ o(1)]) (use "3.prems"(1) in simp)
  then show ?case unfolding o(2) by simp
qed auto

locale byte_queue =
  fixes invar :: "'b \<Rightarrow> bool"
    and bytes :: "'b \<Rightarrow> 'a list"
    and pos :: "'b \<Rightarrow> nat"
    and limit :: nat
    and put :: "'b \<Rightarrow> 'a list \<Rightarrow> 'b result"
    and get :: "'b \<Rightarrow> nat \<Rightarrow> ('a list \<times> 'b) result"
  assumes put_law: "\<lbrakk>invar b; pos b + length d \<le> limit\<rbrakk> \<Longrightarrow>
      \<exists>b'. put b d = Inr b' \<and> invar b' \<and> bytes b' = bytes b @ d \<and> pos b' \<le> pos b + length d"
    and get_law: "\<lbrakk>invar b; n \<le> length (bytes b)\<rbrakk> \<Longrightarrow>
      \<exists>b'. get b n = Inr (take n (bytes b), b') \<and> invar b' \<and> bytes b' = drop n (bytes b) \<and>
           pos b' \<le> pos b"
begin

text \<open>A series of writes concatenates.\<close>

lemma put_all:
  assumes "invar b" and "pos b + length (concat ds) \<le> limit"
  shows "\<exists>b'. rfold (\<lambda>d b. put b d) ds b = Inr b' \<and> invar b' \<and> bytes b' = bytes b @ concat ds \<and>
     pos b' \<le> pos b + length (concat ds)"
  using assms
proof (induction ds arbitrary: b)
  case Nil
  then show ?case by simp
next
  case (Cons d ds)
  from Cons.prems obtain c where c: "put b d = Inr c" "invar c" "bytes c = bytes b @ d"
    "pos c \<le> pos b + length d"
    using put_law [of b d] by auto
  moreover have "pos c + length (concat ds) \<le> limit" using c(4) Cons.prems(2) by simp
  ultimately show ?case using Cons.IH [of c] by fastforce
qed

text \<open>First in, first out: each \<open>Get\<close> returns what it returns on the list of the bytes, and so does the rest.\<close>

lemma run_fifo:
  assumes "invar b" and "ops_ok ops (length (bytes b))" and "pos b + length (bytes_put ops) \<le> limit"
  shows "\<exists>out b'. queue_run put get ops b = Inr (out, b') \<and> invar b' \<and> fifo_run ops (bytes b) = (out, bytes b')"
  using assms
proof (induction ops arbitrary: b)
  case Nil
  then show ?case by simp
next
  case (Cons op ops)
  show ?case
  proof (cases op)
    case (Put d)
    with Cons.prems obtain c where c: "put b d = Inr c" "invar c" "bytes c = bytes b @ d"
      "pos c \<le> pos b + length d"
      using put_law [of b d] by auto
    moreover have "pos c + length (bytes_put ops) \<le> limit" using c(4) Put Cons.prems(3) by simp
    ultimately show ?thesis using Cons.IH [of c] Cons.prems Put by fastforce
  next
    case (Get n)
    with Cons.prems obtain c where c: "get b n = Inr (take n (bytes b), c)" "invar c"
      "bytes c = drop n (bytes b)" "pos c \<le> pos b"
      using get_law [of b n] by auto
    with Cons.IH [of c] Cons.prems Get obtain out b' where
      r: "queue_run put get ops c = Inr (out, b')" "invar b'" "fifo_run ops (bytes c) = (out, bytes b')"
      by fastforce
    with c Get show ?thesis by simp
  qed
qed

end

end
