(* ===== verification/Buffer.thy ===== *)
theory Buffer
  imports Endian Byte_Queue
begin

text \<open>
  Model of \<^verbatim>\<open>ham/net/Buffer.h\<close> and \<^verbatim>\<open>ham/net/Buffer.cc\<close>: a byte vector with a read and a
  write index.  Indices and lengths are 64-bit words (\<^verbatim>\<open>size_t\<close>) and wrap as in C++.  A
  pointer into the vector is its offset from \<^verbatim>\<open>begin()\<close>; a null pointer is \<open>None\<close>.
  The abstract value of a buffer is its \<open>content\<close>, the readable bytes; the lemmas show that
  the operations refine a first-in first-out byte queue on that value, that no operation
  touches memory outside the vector, and that no assertion fails.
\<close>

section \<open>State\<close>

definition kInitialSize :: size_t where
  "kInitialSize = 1024"

definition kCheapPrepend :: size_t where
  "kCheapPrepend = 8"

definition kCRLF :: string where
  "kCRLF = [CHR 0x0D, CHR 0x0A]"

record buffer =
  buf :: "char list"
  readIndex :: size_t
  writeIndex :: size_t

section \<open>Operations\<close>

definition readableBytes :: "buffer \<Rightarrow> size_t" where
  "readableBytes b = writeIndex b - readIndex b"

definition writableBytes :: "buffer \<Rightarrow> size_t" where
  "writableBytes b = word_of_nat (length (buf b)) - writeIndex b"

definition prependableBytes :: "buffer \<Rightarrow> size_t" where
  "prependableBytes b = readIndex b"

definition peek :: "buffer \<Rightarrow> nat" where
  "peek b = unat (readIndex b)"

definition beginWrite :: "buffer \<Rightarrow> nat" where
  "beginWrite b = unat (writeIndex b)"

definition hasWritten :: "buffer \<Rightarrow> size_t \<Rightarrow> buffer" where
  "hasWritten b len = b\<lparr>writeIndex := writeIndex b + len\<rparr>"

text \<open>The constructor: a zero-filled vector and the two indices, then its three assertions.\<close>

definition new_buffer :: buffer where
  "new_buffer = \<lparr>buf = replicate (unat (kInitialSize + kCheapPrepend)) (CHR 0x00),
                 readIndex = kCheapPrepend, writeIndex = kCheapPrepend\<rparr>"

definition Buffer_ctor :: "buffer result" where
  "Buffer_ctor =
     assert_that (readableBytes new_buffer = 0) ''readableBytes() == 0''
     (assert_that (writableBytes new_buffer = kInitialSize) ''writableBytes() == kInitialSize''
     (assert_that (prependableBytes new_buffer = kCheapPrepend) ''prependableBytes() == kCheapPrepend''
     (Inr new_buffer)))"

definition swap :: "buffer \<Rightarrow> buffer \<Rightarrow> buffer \<times> buffer" where
  "swap this rhs =
     (this\<lparr>buf := buf rhs, readIndex := readIndex rhs, writeIndex := writeIndex rhs\<rparr>,
      rhs\<lparr>buf := buf this, readIndex := readIndex this, writeIndex := writeIndex this\<rparr>)"

text \<open>The line searches, from a given position and from \<^verbatim>\<open>peek()\<close>.\<close>

definition findCRLF_from :: "buffer \<Rightarrow> nat \<Rightarrow> nat option result" where
  "findCRLF_from b start =
     assert_that (peek b \<le> start) ''peek() <= start''
     (assert_that (start \<le> beginWrite b) ''start <= beginWrite()''
     (rbind (std_read (buf b) start (beginWrite b - start)) (\<lambda>range.
        let crlf = start + std_search range kCRLF
        in Inr (if crlf = beginWrite b then None else Some crlf))))"

definition findCRLF :: "buffer \<Rightarrow> nat option result" where
  "findCRLF b = findCRLF_from b (peek b)"

definition findEOL_from :: "buffer \<Rightarrow> nat \<Rightarrow> nat option result" where
  "findEOL_from b start =
     assert_that (peek b \<le> start) ''peek() <= start''
     (assert_that (start \<le> beginWrite b) ''start <= beginWrite()''
     (rbind (std_read (buf b) start (beginWrite b - start)) (\<lambda>range.
        let eol = std_find range (CHR 0x0A)
        in Inr (if eol = length range then None else Some (start + eol)))))"

definition findEOL :: "buffer \<Rightarrow> nat option result" where
  "findEOL b = findEOL_from b (peek b)"

text \<open>Reading integers in network byte order.\<close>

definition peekInt8 :: "buffer \<Rightarrow> 8 word result" where
  "peekInt8 b =
     assert_that (1 \<le> readableBytes b) ''readableBytes() >= sizeof(int8_t)''
     (rbind (std_read (buf b) (peek b) 1) (\<lambda>cs. Inr (word_of_nat (le_value cs))))"

definition peekInt16 :: "bool \<Rightarrow> buffer \<Rightarrow> 16 word result" where
  "peekInt16 le b =
     assert_that (2 \<le> readableBytes b) ''readableBytes() >= sizeof(int16_t)''
     (rbind (std_read (buf b) (peek b) 2) (\<lambda>cs. Inr (networkToHost16 le (of_mem le cs))))"

definition peekInt32 :: "bool \<Rightarrow> buffer \<Rightarrow> 32 word result" where
  "peekInt32 le b =
     assert_that (4 \<le> readableBytes b) ''readableBytes() >= sizeof(int32_t)''
     (rbind (std_read (buf b) (peek b) 4) (\<lambda>cs. Inr (networkToHost32 le (of_mem le cs))))"

definition peekInt64 :: "bool \<Rightarrow> buffer \<Rightarrow> 64 word result" where
  "peekInt64 le b =
     assert_that (8 \<le> readableBytes b) ''readableBytes() >= sizeof(int64_t)''
     (rbind (std_read (buf b) (peek b) 8) (\<lambda>cs. Inr (networkToHost64 le (of_mem le cs))))"

definition retrieveAll :: "buffer \<Rightarrow> buffer" where
  "retrieveAll b = b\<lparr>readIndex := kCheapPrepend, writeIndex := kCheapPrepend\<rparr>"

definition retrieve :: "buffer \<Rightarrow> size_t \<Rightarrow> buffer result" where
  "retrieve b len =
     assert_that (len \<le> readableBytes b) ''len <= readableBytes()''
     (if len < readableBytes b then Inr (b\<lparr>readIndex := readIndex b + len\<rparr>)
      else Inr (retrieveAll b))"

definition readInt8 :: "buffer \<Rightarrow> (8 word \<times> buffer) result" where
  "readInt8 b = rbind (peekInt8 b) (\<lambda>res. rbind (retrieve b 1) (\<lambda>b'. Inr (res, b')))"

definition readInt16 :: "bool \<Rightarrow> buffer \<Rightarrow> (16 word \<times> buffer) result" where
  "readInt16 le b = rbind (peekInt16 le b) (\<lambda>res. rbind (retrieve b 2) (\<lambda>b'. Inr (res, b')))"

definition readInt32 :: "bool \<Rightarrow> buffer \<Rightarrow> (32 word \<times> buffer) result" where
  "readInt32 le b = rbind (peekInt32 le b) (\<lambda>res. rbind (retrieve b 4) (\<lambda>b'. Inr (res, b')))"

definition readInt64 :: "bool \<Rightarrow> buffer \<Rightarrow> (64 word \<times> buffer) result" where
  "readInt64 le b = rbind (peekInt64 le b) (\<lambda>res. rbind (retrieve b 8) (\<lambda>b'. Inr (res, b')))"

definition retrieveUtil :: "buffer \<Rightarrow> nat \<Rightarrow> buffer result" where
  "retrieveUtil b stop =
     assert_that (peek b \<le> stop) ''peek() <= end''
     (assert_that (stop \<le> beginWrite b) ''end <= beginWrite()''
     (retrieve b (word_of_nat (stop - peek b))))"

definition retrieveAsString :: "buffer \<Rightarrow> size_t \<Rightarrow> (string \<times> buffer) result" where
  "retrieveAsString b len =
     assert_that (len \<le> readableBytes b) ''len <= readableBytes()''
     (rbind (std_read (buf b) (peek b) (unat len)) (\<lambda>res.
      rbind (retrieve b len) (\<lambda>b'. Inr (res, b'))))"

definition retrieveAllAsString :: "buffer \<Rightarrow> (string \<times> buffer) result" where
  "retrieveAllAsString b = retrieveAsString b (readableBytes b)"

text \<open>\<^verbatim>\<open>std::vector<char>::resize\<close>: beyond \<^verbatim>\<open>max_size()\<close>, the largest \<^verbatim>\<open>ptrdiff_t\<close>, it
  throws; otherwise the vector is cut or filled with zeros.\<close>

definition vector_max_size :: nat where
  "vector_max_size = 2 ^ 63 - 1"

definition vector_resize :: "char list \<Rightarrow> size_t \<Rightarrow> char list result" where
  "vector_resize v n =
     (if vector_max_size < unat n then Inl (Thrown ''std::length_error'')
      else Inr (take (unat n) v @ replicate (unat n - length v) (CHR 0x00)))"

definition makeSpace :: "buffer \<Rightarrow> size_t \<Rightarrow> buffer result" where
  "makeSpace b len =
     (if writableBytes b + prependableBytes b < len + kCheapPrepend
      then rbind (vector_resize (buf b) (writeIndex b + len)) (\<lambda>v. Inr (b\<lparr>buf := v\<rparr>))
      else assert_that (kCheapPrepend < readIndex b) ''kCheapPrepend < readIndex_''
       (let readable = readableBytes b in
        rbind (std_read (buf b) (peek b) (beginWrite b - peek b)) (\<lambda>range.
        rbind (std_copy range (buf b) (unat kCheapPrepend)) (\<lambda>v.
          let b' = b\<lparr>buf := v, readIndex := kCheapPrepend,
                     writeIndex := kCheapPrepend + readable\<rparr>
          in assert_that (readable = readableBytes b') ''readable == readableBytes()'' (Inr b')))))"

definition ensureWritableBytes :: "buffer \<Rightarrow> size_t \<Rightarrow> buffer result" where
  "ensureWritableBytes b len =
     rbind (if writableBytes b < len then makeSpace b len else Inr b) (\<lambda>b'.
       assert_that (len \<le> writableBytes b') ''writableBytes() >= len'' (Inr b'))"

definition append :: "buffer \<Rightarrow> char list \<Rightarrow> buffer result" where
  "append b data =
     (let len = word_of_nat (length data) in
      rbind (ensureWritableBytes b len) (\<lambda>b'.
      rbind (std_copy data (buf b') (beginWrite b')) (\<lambda>v.
        Inr (hasWritten (b'\<lparr>buf := v\<rparr>) len))))"

definition shrink :: "buffer \<Rightarrow> size_t \<Rightarrow> buffer result" where
  "shrink b reserve =
     rbind Buffer_ctor (\<lambda>other.
       let cur_readableBytes = readableBytes b in
       rbind (ensureWritableBytes other (cur_readableBytes + reserve)) (\<lambda>other'.
       rbind (std_read (buf b) (peek b) (unat cur_readableBytes)) (\<lambda>data.
       rbind (append other' data) (\<lambda>other''. Inr (fst (swap b other''))))))"

definition prepend :: "buffer \<Rightarrow> char list \<Rightarrow> buffer result" where
  "prepend b data =
     (let len = word_of_nat (length data) in
      assert_that (len \<le> prependableBytes b) ''len <= prependableBytes()''
      (let b' = b\<lparr>readIndex := readIndex b - len\<rparr> in
       rbind (std_copy data (buf b') (unat (readIndex b'))) (\<lambda>v. Inr (b'\<lparr>buf := v\<rparr>))))"

definition appendInt64 :: "bool \<Rightarrow> buffer \<Rightarrow> 64 word \<Rightarrow> buffer result" where
  "appendInt64 le b x = append b (to_mem le 8 (hostToNetwork64 le x))"

definition appendInt32 :: "bool \<Rightarrow> buffer \<Rightarrow> 32 word \<Rightarrow> buffer result" where
  "appendInt32 le b x = append b (to_mem le 4 (hostToNetwork32 le x))"

definition appendInt16 :: "bool \<Rightarrow> buffer \<Rightarrow> 16 word \<Rightarrow> buffer result" where
  "appendInt16 le b x = append b (to_mem le 2 (hostToNetwork16 le x))"

definition appendInt8 :: "bool \<Rightarrow> buffer \<Rightarrow> 8 word \<Rightarrow> buffer result" where
  "appendInt8 le b x = append b (to_mem le 1 x)"

text \<open>
  \<^verbatim>\<open>readFd\<close>.  The system call \<^verbatim>\<open>readv\<close> is the parameter \<open>readv\<close>: given the two
  \<^verbatim>\<open>iov_len\<close>s it returns the error number, or the bytes it stored in the two areas.
\<close>

type_synonym readv_fn = "nat \<Rightarrow> nat \<Rightarrow> int + char list \<times> char list"

definition extraBuf_size :: nat where
  "extraBuf_size = 65536"

definition readFd :: "readv_fn \<Rightarrow> buffer \<Rightarrow> ((int + nat) \<times> buffer) result" where
  "readFd readv b =
     (let writable = writableBytes b in
      case readv (unat writable) extraBuf_size of
        Inl savedErrno \<Rightarrow> Inr (Inl savedErrno, b)
      | Inr (area0, area1) \<Rightarrow>
          let n = length area0 + length area1 in
          rbind (std_copy area0 (buf b) (beginWrite b)) (\<lambda>v.
            let b' = b\<lparr>buf := v\<rparr> in
            if n \<le> unat writable
            then Inr (Inr n, b'\<lparr>writeIndex := writeIndex b' + word_of_nat n\<rparr>)
            else rbind (std_read area1 0 (n - unat writable)) (\<lambda>extra.
                 rbind (append (b'\<lparr>writeIndex := word_of_nat (length (buf b'))\<rparr>) extra) (\<lambda>b''.
                   Inr (Inr n, b'')))))"

section \<open>Invariant and abstraction\<close>

definition buffer_inv :: "buffer \<Rightarrow> bool" where
  "buffer_inv b \<longleftrightarrow>
     unat (readIndex b) \<le> unat (writeIndex b) \<and>
     unat kCheapPrepend \<le> unat (writeIndex b) \<and>
     unat (writeIndex b) \<le> length (buf b) \<and>
     length (buf b) \<le> vector_max_size"

definition content :: "buffer \<Rightarrow> char list" where
  "content b = take (unat (writeIndex b) - unat (readIndex b)) (drop (unat (readIndex b)) (buf b))"

text \<open>The write position bounds the space an append can still need.\<close>

definition write_pos :: "buffer \<Rightarrow> nat" where
  "write_pos b = unat (writeIndex b)"

lemmas buffer_defs =
  readableBytes_def writableBytes_def prependableBytes_def peek_def beginWrite_def
  hasWritten_def kCheapPrepend_def write_pos_def vector_max_size_def

lemma unat_kCheapPrepend [simp]: "unat kCheapPrepend = 8"
  by (simp add: kCheapPrepend_def)

lemma length_content: "buffer_inv b \<Longrightarrow> length (content b) = unat (writeIndex b) - unat (readIndex b)"
  by (auto simp: content_def buffer_inv_def)

lemma unat_readable: "buffer_inv b \<Longrightarrow> unat (readableBytes b) = length (content b)"
  by (simp add: length_content) (simp add: readableBytes_def buffer_inv_def unat_sub_size)

lemma unat_writable:
  "buffer_inv b \<Longrightarrow> unat (writableBytes b) = length (buf b) - unat (writeIndex b)"
  by (simp add: writableBytes_def buffer_inv_def unat_sub_size unat_of_nat_size vector_max_size_def)

lemma unat_prependable: "unat (prependableBytes b) = unat (readIndex b)"
  by (simp add: prependableBytes_def)

lemmas buffer_sizes = unat_readable unat_writable unat_prependable

section \<open>Every operation on the abstract value\<close>

lemma Buffer_ctor_eq: "Buffer_ctor = Inr new_buffer"
  by (simp add: Buffer_ctor_def new_buffer_def readableBytes_def writableBytes_def
      prependableBytes_def kInitialSize_def kCheapPrepend_def)

lemma buffer_inv_new [simp]: "buffer_inv new_buffer"
  by (simp add: buffer_inv_def new_buffer_def kInitialSize_def kCheapPrepend_def vector_max_size_def)

lemma content_new [simp]: "content new_buffer = []"
  by (simp add: content_def new_buffer_def)

lemma write_pos_new [simp]: "write_pos new_buffer = 8"
  by (simp add: write_pos_def new_buffer_def)

lemma buffer_inv_write_pos: "buffer_inv b \<Longrightarrow> 8 \<le> write_pos b"
  by (simp add: buffer_inv_def write_pos_def)

lemma length_content_le_write_pos: "buffer_inv b \<Longrightarrow> length (content b) \<le> write_pos b"
  by (simp add: length_content write_pos_def)

lemma read_content:
  assumes "buffer_inv b" and "n \<le> length (content b)"
  shows "std_read (buf b) (peek b) n = Inr (take n (content b))"
proof -
  have "n \<le> unat (writeIndex b) - unat (readIndex b)"
    using assms by (simp add: length_content)
  then show ?thesis
    using assms(1) by (auto simp: std_read_def content_def peek_def buffer_inv_def min_absorb1)
qed

lemma read_content_range:
  assumes "buffer_inv b" and "i \<le> length (content b)"
  shows "std_read (buf b) (peek b + i) (beginWrite b - (peek b + i)) = Inr (drop i (content b))"
  using assms
  by (auto simp: std_read_def content_def peek_def beginWrite_def buffer_inv_def drop_take
      ac_simps)

lemma beginWrite_eq: "buffer_inv b \<Longrightarrow> beginWrite b = peek b + length (content b)"
  by (simp add: length_content beginWrite_def peek_def buffer_inv_def)

lemma buffer_inv_retrieveAll [simp]: "buffer_inv b \<Longrightarrow> buffer_inv (retrieveAll b)"
  by (simp add: buffer_inv_def retrieveAll_def)

lemma content_retrieveAll [simp]: "content (retrieveAll b) = []"
  by (simp add: content_def retrieveAll_def)

lemma write_pos_retrieveAll [simp]: "write_pos (retrieveAll b) = 8"
  by (simp add: write_pos_def retrieveAll_def)

lemma retrieve_spec:
  assumes inv: "buffer_inv b" and len: "unat len \<le> length (content b)"
  obtains b' where "retrieve b len = Inr b'" "buffer_inv b'" "content b' = drop (unat len) (content b)"
    "write_pos b' \<le> write_pos b"
proof (cases "unat len < length (content b)")
  case True
  let ?b = "b\<lparr>readIndex := readIndex b + len\<rparr>"
  have sum: "unat (readIndex b + len) = unat (readIndex b) + unat len"
    using inv len True unat_size_bound [of "writeIndex b"]
    by (intro unat_add_size) (simp add: length_content buffer_inv_def)
  show ?thesis
  proof (rule that)
    show "retrieve b len = Inr ?b"
      using True len inv by (simp add: retrieve_def word_le_nat_alt word_less_nat_alt unat_readable)
    show "buffer_inv ?b"
      using inv len True by (simp add: buffer_inv_def sum length_content)
    show "content ?b = drop (unat len) (content b)"
      by (simp add: content_def sum drop_take add.commute [of "unat len"])
    show "write_pos ?b \<le> write_pos b" by (simp add: write_pos_def)
  qed
next
  case False
  with len have eq: "unat len = length (content b)" by simp
  show ?thesis
  proof (rule that)
    show "retrieve b len = Inr (retrieveAll b)"
      using eq inv by (simp add: retrieve_def word_le_nat_alt word_less_nat_alt unat_readable)
  qed (use inv eq buffer_inv_write_pos in auto)
qed

lemma retrieve_too_much:
  assumes "buffer_inv b" and "length (content b) < unat len"
  shows "retrieve b len = Inl (AssertFailed ''len <= readableBytes()'')"
  using assms by (simp add: retrieve_def word_le_nat_alt unat_readable)

lemma retrieveUtil_spec:
  assumes inv: "buffer_inv b" and k: "k \<le> length (content b)"
  obtains b' where "retrieveUtil b (peek b + k) = Inr b'" "buffer_inv b'"
    "content b' = drop k (content b)" "write_pos b' \<le> write_pos b"
proof -
  have "k < 2 ^ 64"
    using k inv unat_size_bound [of "writeIndex b"] by (simp add: length_content)
  then have u: "unat (word_of_nat k :: size_t) = k" by (rule unat_of_nat_size)
  with retrieve_spec [OF inv, of "word_of_nat k"] k
  obtain b' where "retrieve b (word_of_nat k) = Inr b'" "buffer_inv b'"
    "content b' = drop k (content b)" "write_pos b' \<le> write_pos b"
    by auto
  then show ?thesis
    using inv k by (intro that) (simp_all add: retrieveUtil_def beginWrite_eq)
qed

lemma retrieveAsString_spec:
  assumes inv: "buffer_inv b" and len: "unat len \<le> length (content b)"
  obtains b' where "retrieveAsString b len = Inr (take (unat len) (content b), b')" "buffer_inv b'"
    "content b' = drop (unat len) (content b)" "write_pos b' \<le> write_pos b"
proof -
  obtain b' where b': "retrieve b len = Inr b'" "buffer_inv b'"
    "content b' = drop (unat len) (content b)" "write_pos b' \<le> write_pos b"
    using retrieve_spec [OF inv len] .
  show ?thesis
    using b' inv len
    by (intro that [of b'])
      (simp_all add: retrieveAsString_def word_le_nat_alt unat_readable read_content)
qed

lemma retrieveAllAsString_spec:
  assumes inv: "buffer_inv b"
  shows "retrieveAllAsString b = Inr (content b, retrieveAll b)"
  using inv read_content [OF inv, of "length (content b)"]
  by (simp add: retrieveAllAsString_def retrieveAsString_def retrieve_def unat_readable)

subsection \<open>Searching\<close>

lemma findCRLF_spec:
  assumes inv: "buffer_inv b"
  shows "findCRLF b =
    Inr (if std_search (content b) kCRLF = length (content b) then None
         else Some (peek b + std_search (content b) kCRLF))"
  using inv read_content_range [OF inv, of 0]
  by (auto simp: findCRLF_def findCRLF_from_def beginWrite_eq Let_def)

lemma findCRLF_from_spec:
  assumes inv: "buffer_inv b" and i: "i \<le> length (content b)"
  shows "findCRLF_from b (peek b + i) =
    Inr (let k = std_search (drop i (content b)) kCRLF
         in if k = length (content b) - i then None else Some (peek b + (i + k)))"
  using inv i read_content_range [OF inv i]
  by (auto simp: findCRLF_from_def beginWrite_eq Let_def)

lemma findEOL_spec:
  assumes inv: "buffer_inv b"
  shows "findEOL b =
    Inr (if CHR 0x0A \<in> set (content b) then Some (peek b + std_find (content b) (CHR 0x0A)) else None)"
  using inv read_content_range [OF inv, of 0]
  by (auto simp: findEOL_def findEOL_from_def beginWrite_eq Let_def std_find_eq_length)

subsection \<open>Making room\<close>

lemma vector_resize_ok:
  "unat n \<le> vector_max_size \<Longrightarrow> length v \<le> unat n \<Longrightarrow>
     vector_resize v n = Inr (v @ replicate (unat n - length v) (CHR 0x00))"
  by (simp add: vector_resize_def)

lemma unat_free_space:
  assumes "buffer_inv b"
  shows "unat (writableBytes b + prependableBytes b) = length (buf b) - write_pos b + unat (readIndex b)"
  using assms
  by (subst unat_add_size) (auto simp: buffer_sizes write_pos_def buffer_inv_def vector_max_size_def)

lemma makeSpace_grow:
  assumes inv: "buffer_inv b"
    and small: "length (buf b) - unat (writeIndex b) < unat len"
    and fits: "write_pos b + unat len \<le> vector_max_size"
    and grow: "length (buf b) - write_pos b + unat (readIndex b) < unat len + 8"
  shows "makeSpace b len =
    Inr (b\<lparr>buf := buf b @ replicate (write_pos b + unat len - length (buf b)) (CHR 0x00)\<rparr>)"
proof -
  have w: "unat (writeIndex b + len) = write_pos b + unat len"
    using fits by (simp add: write_pos_def unat_add_size vector_max_size_def)
  have l: "unat (len + kCheapPrepend) = unat len + 8"
    using fits by (simp add: write_pos_def unat_add_size vector_max_size_def)
  note s = unat_free_space [OF inv]
  have "vector_resize (buf b) (writeIndex b + len) =
      Inr (buf b @ replicate (write_pos b + unat len - length (buf b)) (CHR 0x00))"
    using inv small fits by (subst vector_resize_ok) (auto simp: w buffer_inv_def write_pos_def)
  with grow show ?thesis
    by (simp add: makeSpace_def word_less_nat_alt l s)
qed

lemma makeSpace_move:
  assumes inv: "buffer_inv b"
    and small: "length (buf b) - write_pos b < unat len"
    and fits: "write_pos b + unat len \<le> vector_max_size"
    and room: "unat len + 8 \<le> length (buf b) - write_pos b + unat (readIndex b)"
  shows "makeSpace b len =
    Inr (b\<lparr>buf := take 8 (buf b) @ content b @ drop (8 + length (content b)) (buf b),
           readIndex := kCheapPrepend,
           writeIndex := kCheapPrepend + readableBytes b\<rparr>)"
proof -
  have l: "unat (len + kCheapPrepend) = unat len + 8"
    using fits by (simp add: write_pos_def unat_add_size vector_max_size_def)
  note s = unat_free_space [OF inv]
  have r8: "8 < unat (readIndex b)" using small room by simp
  then have "kCheapPrepend < readIndex b" by (simp add: word_less_nat_alt)
  moreover have "std_read (buf b) (peek b) (beginWrite b - peek b) = Inr (content b)"
    using read_content_range [OF inv, of 0] by simp
  moreover have "8 + length (content b) \<le> length (buf b)"
    using inv r8 unfolding length_content [OF inv] buffer_inv_def by linarith
  ultimately show ?thesis
    using room by (simp add: makeSpace_def word_less_nat_alt l s std_copy_ok Let_def
        readableBytes_def [of "buffer.writeIndex_update _ _"])
qed

lemma makeSpace_spec:
  assumes inv: "buffer_inv b"
    and small: "length (buf b) - write_pos b < unat len"
    and fits: "write_pos b + unat len \<le> vector_max_size"
  obtains b' where "makeSpace b len = Inr b'" "buffer_inv b'" "content b' = content b"
    "write_pos b' \<le> write_pos b" "unat len \<le> unat (writableBytes b')"
proof (cases "length (buf b) - write_pos b + unat (readIndex b) < unat len + 8")
  case True
  let ?b = "b\<lparr>buf := buf b @ replicate (write_pos b + unat len - length (buf b)) (CHR 0x00)\<rparr>"
  have inv': "buffer_inv ?b"
    using inv fits by (auto simp: buffer_inv_def write_pos_def)
  show ?thesis
  proof (rule that)
    show "makeSpace b len = Inr ?b"
      by (rule makeSpace_grow [OF inv _ fits True]) (use small in \<open>simp add: write_pos_def\<close>)
    show "content ?b = content b"
      using inv by (auto simp: content_def buffer_inv_def)
    show "unat len \<le> unat (writableBytes ?b)"
      using small inv by (simp add: unat_writable [OF inv']) (simp add: write_pos_def buffer_inv_def)
  qed (use inv' in \<open>simp_all add: write_pos_def\<close>)
next
  case False
  let ?b = "b\<lparr>buf := take 8 (buf b) @ content b @ drop (8 + length (content b)) (buf b),
              readIndex := kCheapPrepend, writeIndex := kCheapPrepend + readableBytes b\<rparr>"
  have r8: "8 < unat (readIndex b)" using small False by simp
  have w: "unat (kCheapPrepend + readableBytes b) = 8 + length (content b)"
    using inv r8 length_content [OF inv]
    by (subst unat_add_size) (auto simp: unat_readable buffer_inv_def vector_max_size_def)
  have len: "8 + length (content b) + (unat (readIndex b) - 8) = write_pos b"
    using inv r8 by (simp add: length_content write_pos_def buffer_inv_def)
  then have room: "8 + length (content b) \<le> length (buf b)"
    using inv by (simp add: buffer_inv_def write_pos_def)
  have inv': "buffer_inv ?b"
    using inv room by (simp add: buffer_inv_def w)
  show ?thesis
  proof (rule that)
    show "makeSpace b len = Inr ?b"
      by (rule makeSpace_move [OF inv small fits]) (use False in simp)
    show "content ?b = content b"
      using room by (subst content_def) (simp add: w)
    show "unat len \<le> unat (writableBytes ?b)"
      using False len room inv by (simp add: unat_writable [OF inv'] w) (simp add: buffer_inv_def write_pos_def)
    show "write_pos ?b \<le> write_pos b" using len by (simp add: write_pos_def w)
  qed (rule inv')
qed

lemma ensureWritableBytes_spec:
  assumes inv: "buffer_inv b" and fits: "write_pos b + unat len \<le> vector_max_size"
  obtains b' where "ensureWritableBytes b len = Inr b'" "buffer_inv b'" "content b' = content b"
    "write_pos b' \<le> write_pos b" "unat len \<le> unat (writableBytes b')"
proof (cases "length (buf b) - write_pos b < unat len")
  case True
  from makeSpace_spec [OF inv True fits] obtain b' where b': "makeSpace b len = Inr b'"
    "buffer_inv b'" "content b' = content b" "write_pos b' \<le> write_pos b"
    "unat len \<le> unat (writableBytes b')" .
  with True show ?thesis
    by (intro that [of b'])
      (simp_all add: ensureWritableBytes_def word_less_nat_alt word_le_nat_alt unat_writable [OF inv]
        write_pos_def)
next
  case False
  with inv show ?thesis
    by (intro that [of b])
      (simp_all add: ensureWritableBytes_def word_less_nat_alt word_le_nat_alt unat_writable
        write_pos_def)
qed

subsection \<open>Writing\<close>

lemma put_bytes:
  assumes inv: "buffer_inv b" and room: "length data \<le> unat (writableBytes b)"
  shows "std_copy data (buf b) (beginWrite b) =
      Inr (take (write_pos b) (buf b) @ data @ drop (write_pos b + length data) (buf b))"
    and "unat (writeIndex b + word_of_nat (length data)) = write_pos b + length data"
    and "buffer_inv (b\<lparr>buf := take (write_pos b) (buf b) @ data @ drop (write_pos b + length data) (buf b),
                      writeIndex := writeIndex b + word_of_nat (length data)\<rparr>)"
    and "content (b\<lparr>buf := take (write_pos b) (buf b) @ data @ drop (write_pos b + length data) (buf b),
                      writeIndex := writeIndex b + word_of_nat (length data)\<rparr>) = content b @ data"
proof -
  have w: "write_pos b + length data \<le> length (buf b)"
    using room inv by (auto simp: unat_writable write_pos_def buffer_inv_def)
  then show "std_copy data (buf b) (beginWrite b) =
      Inr (take (write_pos b) (buf b) @ data @ drop (write_pos b + length data) (buf b))"
    by (simp add: std_copy_def beginWrite_def write_pos_def)
  have small: "length data < 2 ^ 64"
    using w inv by (simp add: buffer_inv_def vector_max_size_def)
  show u: "unat (writeIndex b + word_of_nat (length data)) = write_pos b + length data"
    using w inv small
    by (subst unat_add_size)
      (auto simp: unat_of_nat_size buffer_inv_def vector_max_size_def write_pos_def)
  show "buffer_inv (b\<lparr>buf := take (write_pos b) (buf b) @ data @ drop (write_pos b + length data) (buf b),
                      writeIndex := writeIndex b + word_of_nat (length data)\<rparr>)"
    using inv w by (simp add: buffer_inv_def u) (simp add: write_pos_def)
  show "content (b\<lparr>buf := take (write_pos b) (buf b) @ data @ drop (write_pos b + length data) (buf b),
                      writeIndex := writeIndex b + word_of_nat (length data)\<rparr>) = content b @ data"
    using inv w by (simp add: content_def u) (simp add: write_pos_def buffer_inv_def drop_take)
qed

lemma append_spec:
  assumes inv: "buffer_inv b" and fits: "write_pos b + length data \<le> vector_max_size"
  obtains b' where "append b data = Inr b'" "buffer_inv b'" "content b' = content b @ data"
    "write_pos b' \<le> write_pos b + length data"
proof -
  have u: "unat (word_of_nat (length data) :: size_t) = length data"
    using fits by (intro unat_of_nat_size) (simp add: vector_max_size_def)
  with ensureWritableBytes_spec [OF inv, of "word_of_nat (length data)"] fits
  obtain c where c: "ensureWritableBytes b (word_of_nat (length data)) = Inr c" "buffer_inv c"
    "content c = content b" "write_pos c \<le> write_pos b" "length data \<le> unat (writableBytes c)"
    by auto
  note put = put_bytes [OF c(2,5)]
  show ?thesis
    by (rule that [OF _ put(3)])
      (use c put(1,2,4) in \<open>simp_all add: append_def hasWritten_def write_pos_def\<close>)
qed

lemma prepend_spec:
  assumes inv: "buffer_inv b" and fits: "length data \<le> unat (readIndex b)"
  obtains b' where "prepend b data = Inr b'" "buffer_inv b'" "content b' = data @ content b"
    "write_pos b' = write_pos b"
proof -
  have u: "unat (word_of_nat (length data) :: size_t) = length data"
    using fits unat_size_bound [of "readIndex b"] by (intro unat_of_nat_size) simp
  have r: "unat (readIndex b - word_of_nat (length data)) = unat (readIndex b) - length data"
    using fits u by (simp add: unat_sub_size)
  let ?r = "unat (readIndex b) - length data"
  let ?b = "b\<lparr>readIndex := readIndex b - word_of_nat (length data),
              buf := take ?r (buf b) @ data @ drop (unat (readIndex b)) (buf b)\<rparr>"
  show ?thesis
  proof (rule that)
    show "prepend b data = Inr ?b"
      using fits inv
      by (simp add: prepend_def prependableBytes_def word_le_nat_alt u r std_copy_def buffer_inv_def)
    show "buffer_inv ?b"
      using inv fits by (auto simp: buffer_inv_def r min_def)
    show "content ?b = data @ content b"
    proof -
      have "length (take ?r (buf b)) = ?r" using inv fits by (auto simp: buffer_inv_def)
      moreover have "unat (writeIndex b) - ?r - length data = unat (writeIndex b) - unat (readIndex b)"
        using fits by simp
      moreover have "length data \<le> unat (writeIndex b) - ?r"
        using inv fits by (auto simp: buffer_inv_def)
      ultimately show ?thesis by (simp add: content_def r del: length_take)
    qed
    show "write_pos ?b = write_pos b" by (simp add: write_pos_def)
  qed
qed

text \<open>\<^verbatim>\<open>shrink\<close> starts from a fresh buffer, which only ever grows in place.\<close>

lemma ensureWritableBytes_new:
  assumes fits: "8 + unat n \<le> vector_max_size"
  obtains c where "ensureWritableBytes new_buffer n = Inr c" "buffer_inv c" "content c = []"
    "write_pos c = 8" "readIndex c = kCheapPrepend" "unat n \<le> unat (writableBytes c)"
proof (cases "writableBytes new_buffer < n")
  case True
  then have lt: "length (buf new_buffer) - 8 < unat n"
    by (simp add: word_less_nat_alt unat_writable) (simp add: new_buffer_def)
  have eq: "makeSpace new_buffer n = Inr (new_buffer\<lparr>buf :=
      buf new_buffer @ replicate (8 + unat n - length (buf new_buffer)) (CHR 0x00)\<rparr>)"
    (is "_ = Inr ?c")
    using makeSpace_grow [of new_buffer n] lt fits
    by simp (simp add: new_buffer_def)
  have inv': "buffer_inv ?c"
    using fits by (simp add: buffer_inv_def new_buffer_def kInitialSize_def kCheapPrepend_def
        vector_max_size_def)
  have wr: "unat n \<le> unat (writableBytes ?c)"
    using lt by (simp add: unat_writable [OF inv']) (simp add: new_buffer_def)
  have "ensureWritableBytes new_buffer n = Inr ?c"
    using True wr by (simp add: ensureWritableBytes_def eq word_le_nat_alt)
  then show ?thesis
    by (rule that) (use inv' wr in \<open>simp_all add: content_def write_pos_def new_buffer_def\<close>)
next
  case False
  then have "unat n \<le> unat (writableBytes new_buffer)" by (simp add: word_less_nat_alt)
  with False show ?thesis
    by (intro that [of new_buffer])
      (simp_all add: ensureWritableBytes_def word_less_nat_alt word_le_nat_alt, simp add: new_buffer_def)
qed

lemma append_in_place:
  assumes "buffer_inv c" and room: "length data \<le> unat (writableBytes c)"
  shows "append c data = Inr (c\<lparr>buf := take (write_pos c) (buf c) @ data @
      drop (write_pos c + length data) (buf c), writeIndex := writeIndex c + word_of_nat (length data)\<rparr>)"
proof -
  have "unat (word_of_nat (length data) :: size_t) = length data"
    using room unat_size_bound [of "writableBytes c"] by (intro unat_of_nat_size) simp
  then have "ensureWritableBytes c (word_of_nat (length data)) = Inr c"
    using room by (simp add: ensureWritableBytes_def word_less_nat_alt word_le_nat_alt)
  then show ?thesis
    by (simp add: append_def put_bytes(1) [OF assms] hasWritten_def)
qed

lemma shrink_spec:
  assumes inv: "buffer_inv b"
    and fits: "8 + length (content b) + unat reserve \<le> vector_max_size"
  obtains b' where "shrink b reserve = Inr b'" "buffer_inv b'" "content b' = content b"
    "write_pos b' = 8 + length (content b)" "readIndex b' = kCheapPrepend"
proof -
  have sum: "unat (readableBytes b + reserve) = length (content b) + unat reserve"
    using fits by (subst unat_add_size) (simp_all add: unat_readable inv vector_max_size_def)
  with fits obtain c where c: "ensureWritableBytes new_buffer (readableBytes b + reserve) = Inr c"
    "buffer_inv c" "content c = []" "write_pos c = 8" "readIndex c = kCheapPrepend"
    "unat (readableBytes b + reserve) \<le> unat (writableBytes c)"
    by (metis ensureWritableBytes_new add.assoc)
  then have room: "length (content b) \<le> unat (writableBytes c)" by (simp add: sum)
  note put = put_bytes [OF c(2) room] and app = append_in_place [OF c(2) room]
  have "shrink b reserve = append c (content b)"
    using c(1) read_content [OF inv, of "length (content b)"]
    by (simp add: shrink_def Buffer_ctor_eq Let_def unat_readable [OF inv] app swap_def)
  then show ?thesis
    unfolding app by (rule that [OF _ put(3)]) (use c put(2,4) in \<open>simp_all add: write_pos_def\<close>)
qed

subsection \<open>Reading from a file descriptor\<close>

text \<open>What \<^verbatim>\<open>readv(2)\<close> documents: it stores at most \<^verbatim>\<open>iov_len\<close> bytes in each area and starts on
  the second area only once the first one is full.\<close>

definition readv_ok :: "readv_fn \<Rightarrow> bool" where
  "readv_ok readv \<longleftrightarrow> (\<forall>n0 n1 a0 a1. readv n0 n1 = Inr (a0, a1) \<longrightarrow>
     length a0 \<le> n0 \<and> length a1 \<le> n1 \<and> (a1 \<noteq> [] \<longrightarrow> length a0 = n0))"

lemma readFd_spec:
  assumes inv: "buffer_inv b" and ok: "readv_ok readv"
    and rd: "readv (unat (writableBytes b)) extraBuf_size = Inr (a0, a1)"
    and fits: "length (buf b) + extraBuf_size \<le> vector_max_size"
  obtains b' where "readFd readv b = Inr (Inr (length (a0 @ a1)), b')" "buffer_inv b'"
    "content b' = content b @ a0 @ a1"
proof -
  from ok rd have a0: "length a0 \<le> unat (writableBytes b)" and a1: "length a1 \<le> extraBuf_size"
    and full: "a1 \<noteq> [] \<Longrightarrow> length a0 = unat (writableBytes b)"
    unfolding readv_ok_def by blast+
  note put = put_bytes [OF inv a0]
  let ?b = "b\<lparr>buf := take (write_pos b) (buf b) @ a0 @ drop (write_pos b + length a0) (buf b),
              writeIndex := writeIndex b + word_of_nat (length a0)\<rparr>"
  show ?thesis
  proof (cases "a1 = []")
    case True
    show ?thesis
      by (rule that [OF _ put(3)]) (use a0 True rd put(1,4) in \<open>simp_all add: readFd_def Let_def\<close>)
  next
    case False
    have len: "length (buf ?b) = length (buf b)"
      using inv a0 by (auto simp: unat_writable buffer_inv_def write_pos_def)
    have "write_pos b + length a0 = length (buf b)"
      using full [OF False] inv by (simp add: unat_writable write_pos_def buffer_inv_def)
    then have w: "writeIndex b + word_of_nat (length a0) = word_of_nat (length (buf b))"
      using inv
      by (simp add: word_unat_eq_iff put(2) unat_of_nat_size buffer_inv_def vector_max_size_def)
    have fit: "write_pos ?b + length a1 \<le> vector_max_size"
      using put(2) \<open>write_pos b + length a0 = length (buf b)\<close> a1 fits
      by (simp add: write_pos_def)
    obtain b' where b': "append ?b a1 = Inr b'" "buffer_inv b'" "content b' = content ?b @ a1"
      using append_spec [OF put(3) fit] by metis
    show ?thesis
      by (rule that [OF _ b'(2)])
        (use False full [OF False] rd put(1,4) b'(1,3) len w in
          \<open>simp_all add: readFd_def Let_def std_read_def\<close>)
  qed
qed

lemma readFd_error:
  "readv (unat (writableBytes b)) extraBuf_size = Inl err \<Longrightarrow> readFd readv b = Inr (Inl err, b)"
  by (simp add: readFd_def)

subsection \<open>Integers\<close>

lemma readInt_spec:
  assumes inv: "buffer_inv b"
  shows "content b = wire_bytes 8 x8 @ rest \<Longrightarrow>
      \<exists>b'. readInt64 le b = Inr (x8, b') \<and> buffer_inv b' \<and> content b' = rest"
    and "content b = wire_bytes 4 x4 @ rest \<Longrightarrow>
      \<exists>b'. readInt32 le b = Inr (x4, b') \<and> buffer_inv b' \<and> content b' = rest"
    and "content b = wire_bytes 2 x2 @ rest \<Longrightarrow>
      \<exists>b'. readInt16 le b = Inr (x2, b') \<and> buffer_inv b' \<and> content b' = rest"
    and "content b = wire_bytes 1 x1 @ rest \<Longrightarrow>
      \<exists>b'. readInt8 b = Inr (x1, b') \<and> buffer_inv b' \<and> content b' = rest"
proof -
  have drop: "\<exists>b'. retrieve b n = Inr b' \<and> buffer_inv b' \<and> content b' = rest"
    if "content b = ws @ rest" "length ws = unat n" for ws and n :: size_t
    using retrieve_spec [OF inv, of n] that by fastforce
  have peeked: "std_read (buf b) (peek b) (length ws) = Inr ws \<and> length ws \<le> unat (readableBytes b)"
    if "content b = ws @ rest" for ws
    using read_content [OF inv, of "length ws"] that by (simp add: unat_readable [OF inv])
  show "\<exists>b'. readInt64 le b = Inr (x8, b') \<and> buffer_inv b' \<and> content b' = rest"
    if "content b = wire_bytes 8 x8 @ rest"
    using drop [OF that, of 8] peeked [OF that]
    by (auto simp: readInt64_def peekInt64_def word_le_nat_alt network_of_mem)
  show "\<exists>b'. readInt32 le b = Inr (x4, b') \<and> buffer_inv b' \<and> content b' = rest"
    if "content b = wire_bytes 4 x4 @ rest"
    using drop [OF that, of 4] peeked [OF that]
    by (auto simp: readInt32_def peekInt32_def word_le_nat_alt network_of_mem)
  show "\<exists>b'. readInt16 le b = Inr (x2, b') \<and> buffer_inv b' \<and> content b' = rest"
    if "content b = wire_bytes 2 x2 @ rest"
    using drop [OF that, of 2] peeked [OF that]
    by (auto simp: readInt16_def peekInt16_def word_le_nat_alt network_of_mem)
  have one: "word_of_nat (le_value (wire_bytes 1 x1)) = x1"
    using le_value_word [of 1 x1] by (simp add: wire_bytes_def)
  show "\<exists>b'. readInt8 b = Inr (x1, b') \<and> buffer_inv b' \<and> content b' = rest"
    if "content b = wire_bytes 1 x1 @ rest"
    using drop [OF that, of 1] peeked [OF that] one
    by (auto simp: readInt8_def peekInt8_def word_le_nat_alt)
qed

lemma appendInt_eq:
  "appendInt64 le b x8 = append b (wire_bytes 8 x8)"
  "appendInt32 le b x4 = append b (wire_bytes 4 x4)"
  "appendInt16 le b x2 = append b (wire_bytes 2 x2)"
  "appendInt8 le b x1 = append b (wire_bytes 1 x1)"
  by (simp_all add: appendInt64_def appendInt32_def appendInt16_def appendInt8_def to_mem_network)
    (simp add: to_mem_def wire_bytes_def)

section \<open>The buffer is a byte queue\<close>

definition take_string :: "buffer \<Rightarrow> nat \<Rightarrow> (char list \<times> buffer) result" where
  "take_string b n = retrieveAsString b (word_of_nat n)"

interpretation buffer_queue: byte_queue buffer_inv content write_pos vector_max_size append take_string
proof unfold_locales
  fix b :: buffer and d :: "char list"
  assume "buffer_inv b" "write_pos b + length d \<le> vector_max_size"
  then show "\<exists>b'. append b d = Inr b' \<and> buffer_inv b' \<and> content b' = content b @ d \<and>
      write_pos b' \<le> write_pos b + length d"
    by (metis append_spec)
next
  fix b :: buffer and n :: nat
  assume inv: "buffer_inv b" and n: "n \<le> length (content b)"
  then have "n < 2 ^ 64"
    using length_content_le_write_pos [OF inv] unat_size_bound [of "writeIndex b"]
    by (simp add: write_pos_def)
  then have "unat (word_of_nat n :: size_t) = n" by (rule unat_of_nat_size)
  then show "\<exists>b'. take_string b n = Inr (take n (content b), b') \<and> buffer_inv b' \<and>
      content b' = drop n (content b) \<and> write_pos b' \<le> write_pos b"
    using retrieveAsString_spec [OF inv, of "word_of_nat n"] n unfolding take_string_def by metis
qed

section \<open>Properties\<close>

text \<open>
  C11.  The buffer is a first-in first-out byte queue.  For every sequence of \<^verbatim>\<open>append\<close> and
  \<^verbatim>\<open>retrieveAsString\<close> calls on a well-formed buffer, in which no call asks for more bytes than are
  readable and the bytes fit into a vector, no assertion fails, no access leaves the vector and nothing
  is thrown; each \<^verbatim>\<open>retrieveAsString(n)\<close> returns exactly the next \<open>n\<close> bytes of the list of readable bytes,
  at whose end each \<^verbatim>\<open>append\<close> adds its bytes, and the readable bytes at the end are that list's.  In
  particular no byte is lost, repeated or reordered.
\<close>
theorem buffer_fifo:
  assumes "buffer_inv b" and "ops_ok ops (length (content b))"
    and "write_pos b + length (bytes_put ops) \<le> vector_max_size"
  shows "\<exists>out b'. queue_run append take_string ops b = Inr (out, b') \<and> buffer_inv b' \<and>
     fifo_run ops (content b) = (out, content b') \<and> concat out @ content b' = content b @ bytes_put ops"
proof -
  obtain out b' where "queue_run append take_string ops b = Inr (out, b')" "buffer_inv b'"
    "fifo_run ops (content b) = (out, content b')"
    using buffer_queue.run_fifo [OF assms] by blast
  with fifo_run_bytes [OF assms(2)] show ?thesis by blast
qed

theorem buffer_fifo_witness:
  "\<exists>b'. queue_run append take_string [Put ''HTTP'', Get 1, Put ''/1.1'', Get 5] new_buffer = Inr ([''H'', ''TTP/1''], b') \<and>
     buffer_inv b' \<and> content b' = ''.1''"
  using buffer_fifo [of new_buffer "[Put ''HTTP'', Get 1, Put ''/1.1'', Get 5]"]
  by (auto simp: vector_max_size_def)

text \<open>
  \<^verbatim>\<open>Buffer::append\<close> never overruns: on a well-formed buffer whose contents still fit into a
  vector it succeeds, keeps the buffer well-formed and adds exactly the given bytes at the end of the
  readable bytes, whether it has room, slides the readable bytes to the front or reallocates.
\<close>
theorem append_correct:
  assumes "buffer_inv b" and "write_pos b + length data \<le> vector_max_size"
  shows "\<exists>b'. append b data = Inr b' \<and> buffer_inv b' \<and> content b' = content b @ data"
  using buffer_queue.put_law [OF assms] by blast

theorem append_correct_witness:
  "\<exists>b'. append new_buffer (replicate 1400 (CHR ''z'')) = Inr b' \<and> buffer_inv b' \<and>
     content b' = replicate 1400 (CHR ''z'')"
  using append_correct [of new_buffer "replicate 1400 (CHR ''z'')"]
  by (simp add: vector_max_size_def)

text \<open>
  Making room refuses what cannot fit: when the request exceeds the free space of the vector, in
  front and behind, so that the vector would have to grow past its maximal size,
  \<^verbatim>\<open>ensureWritableBytes\<close> throws \<^verbatim>\<open>std::length_error\<close>; it neither wraps around nor hands out a buffer
  that is too small.
\<close>
theorem ensureWritableBytes_too_large:
  assumes inv: "buffer_inv b" and len: "unat len < 2 ^ 63"
    and big: "vector_max_size < write_pos b + unat len"
    and free: "length (buf b) - write_pos b + unat (readIndex b) < unat len + 8"
  shows "ensureWritableBytes b len = Inl (Thrown ''std::length_error'')"
proof -
  have wp: "write_pos b \<le> length (buf b)" "length (buf b) \<le> vector_max_size"
    using inv by (simp_all add: buffer_inv_def write_pos_def)
  have w: "unat (writeIndex b + len) = write_pos b + unat len"
    using wp len by (simp add: write_pos_def unat_add_size vector_max_size_def)
  have small: "unat (writableBytes b) < unat len"
    using big wp by (simp add: unat_writable [OF inv]) (simp add: write_pos_def)
  have "unat (writableBytes b + prependableBytes b) < unat (len + kCheapPrepend)"
    using free len by (simp add: unat_free_space [OF inv] unat_add_size)
  with small big show ?thesis
    by (simp add: ensureWritableBytes_def makeSpace_def word_less_nat_alt vector_resize_def w)
qed

theorem ensureWritableBytes_too_large_witness:
  "ensureWritableBytes new_buffer (2 ^ 63 - 1) = Inl (Thrown ''std::length_error'')"
  by (rule ensureWritableBytes_too_large) (simp_all add: vector_max_size_def,
      simp add: new_buffer_def kInitialSize_def kCheapPrepend_def)

text \<open>
  C23.  \<^verbatim>\<open>Buffer::readFd\<close> delivers exactly the bytes the system call returned: on a well-formed
  buffer, whatever way \<^verbatim>\<open>readv\<close> splits the data between the buffer's free space and the 64 KiB stack
  area, the returned count is the number of bytes read and these bytes are appended, in order, to the
  readable bytes.
\<close>
theorem readFd_correct:
  assumes "buffer_inv b" and "readv_ok readv"
    and "readv (unat (writableBytes b)) extraBuf_size = Inr (a0, a1)"
    and "length (buf b) + extraBuf_size \<le> vector_max_size"
  shows "\<exists>b'. readFd readv b = Inr (Inr (length a0 + length a1), b') \<and> buffer_inv b' \<and>
     content b' = content b @ a0 @ a1"
  using readFd_spec [OF assms] by (metis length_append)

theorem readFd_correct_witness:
  "\<exists>b'. readFd (\<lambda>n0 n1. Inr (replicate n0 (CHR ''a''), ''bc'')) new_buffer = Inr (Inr 1026, b') \<and>
     buffer_inv b' \<and> content b' = replicate 1024 (CHR ''a'') @ ''bc''"
proof -
  let ?readv = "\<lambda>n0 n1. if 2 \<le> n1 then Inr (replicate n0 (CHR ''a''), ''bc'') else Inl 22"
  have "unat (writableBytes new_buffer) = 1024"
    by (simp add: unat_writable) (simp add: new_buffer_def kInitialSize_def kCheapPrepend_def)
  moreover have "readv_ok ?readv" by (auto simp: readv_ok_def split: if_splits)
  ultimately have "\<exists>b'. readFd ?readv new_buffer = Inr (Inr 1026, b') \<and>
      buffer_inv b' \<and> content b' = replicate 1024 (CHR ''a'') @ ''bc''"
    using readFd_correct [of new_buffer ?readv "replicate 1024 (CHR ''a'')" "''bc''"]
    by (simp add: extraBuf_size_def vector_max_size_def)
      (simp add: new_buffer_def kInitialSize_def kCheapPrepend_def)
  moreover have "readFd ?readv new_buffer =
      readFd (\<lambda>n0 n1. Inr (replicate n0 (CHR ''a''), ''bc'')) new_buffer"
    by (simp add: readFd_def extraBuf_size_def)
  ultimately show ?thesis by simp
qed

text \<open>
  C24.  Integers survive the wire: on an empty well-formed buffer, appending an 8-, a 16-, a 32- and a
  64-bit integer and reading the four back in the same order returns the same four integers and leaves
  the buffer empty, on hosts of either byte order, even if writer and reader differ in byte order.
\<close>
theorem int_roundtrip:
  assumes inv: "buffer_inv b" and empty: "content b = []" and fits: "write_pos b + 15 \<le> vector_max_size"
  shows "\<exists>b4 b5. rbind (appendInt8 le b x1) (\<lambda>b1. rbind (appendInt16 le b1 x2) (\<lambda>b2.
        rbind (appendInt32 le b2 x4) (\<lambda>b3. appendInt64 le b3 x8))) = Inr b4 \<and>
      rbind (readInt8 b4) (\<lambda>(y1, c1). rbind (readInt16 le' c1) (\<lambda>(y2, c2).
        rbind (readInt32 le' c2) (\<lambda>(y4, c3). rbind (readInt64 le' c3) (\<lambda>(y8, c4).
          Inr (y1, y2, y4, y8, c4))))) = Inr (x1, x2, x4, x8, b5) \<and> content b5 = []"
proof -
  let ?ws = "[wire_bytes 1 x1, wire_bytes 2 x2, wire_bytes 4 x4, wire_bytes 8 x8]"
  obtain b4 where b4: "rfold (\<lambda>d b. append b d) ?ws b = Inr b4" "buffer_inv b4"
    "content b4 = wire_bytes 1 x1 @ wire_bytes 2 x2 @ wire_bytes 4 x4 @ wire_bytes 8 x8"
    using buffer_queue.put_all [OF inv, of ?ws] fits empty by auto
  obtain c1 where c1: "readInt8 b4 = Inr (x1, c1)" "buffer_inv c1"
    "content c1 = wire_bytes 2 x2 @ wire_bytes 4 x4 @ wire_bytes 8 x8"
    using readInt_spec(4) [OF b4(2,3)] by blast
  obtain c2 where c2: "readInt16 le' c1 = Inr (x2, c2)" "buffer_inv c2"
    "content c2 = wire_bytes 4 x4 @ wire_bytes 8 x8"
    using readInt_spec(3) [OF c1(2,3)] by blast
  obtain c3 where c3: "readInt32 le' c2 = Inr (x4, c3)" "buffer_inv c3" "content c3 = wire_bytes 8 x8 @ []"
    using readInt_spec(2) [OF c2(2,3)] by auto
  obtain c4 where c4: "readInt64 le' c3 = Inr (x8, c4)" "content c4 = []"
    using readInt_spec(1) [OF c3(2,3)] by blast
  from b4(1) have "rbind (appendInt8 le b x1) (\<lambda>b1. rbind (appendInt16 le b1 x2) (\<lambda>b2.
        rbind (appendInt32 le b2 x4) (\<lambda>b3. appendInt64 le b3 x8))) = Inr b4"
    by (simp add: appendInt_eq rbind_eq_Inr)
  with c1 c2 c3 c4 show ?thesis by auto
qed

theorem int_roundtrip_witness:
  "\<exists>b4 b5. rbind (appendInt8 True new_buffer (- 1)) (\<lambda>b1. rbind (appendInt16 True b1 (- 2)) (\<lambda>b2.
        rbind (appendInt32 True b2 (- 3)) (\<lambda>b3. appendInt64 True b3 4))) = Inr b4 \<and>
      rbind (readInt8 b4) (\<lambda>(y1, c1). rbind (readInt16 False c1) (\<lambda>(y2, c2).
        rbind (readInt32 False c2) (\<lambda>(y4, c3). rbind (readInt64 False c3) (\<lambda>(y8, c4).
          Inr (y1, y2, y4, y8, c4))))) = Inr (- 1, - 2, - 3, 4, b5) \<and> content b5 = []"
  by (rule int_roundtrip) (simp_all add: vector_max_size_def)

end
