(* ===== verification/HttpContext.thy ===== *)
theory HttpContext
  imports HttpRequest Buffer
begin

text \<open>
  Model of \<^verbatim>\<open>ham/net/http/HttpContext.{h,cc}\<close>: the request parser.  \<open>parse_iteration\<close> is the body of the
  \<^verbatim>\<open>while (hasMore)\<close> loop of \<^verbatim>\<open>parseRequest\<close>; the loop itself is a \<open>partial_function (option)\<close>, in
  which \<open>None\<close> is an execution that never leaves the loop.
\<close>

datatype parse_state = kExpectRequestLine | kExpectHeaders | kExpectBody | kGotAll

record http_context =
  request :: http_request
  parseState :: parse_state

definition HttpContext_ctor :: http_context where
  "HttpContext_ctor = \<lparr>request = HttpRequest_ctor, parseState = kExpectRequestLine\<rparr>"

definition gotAll :: "http_context \<Rightarrow> bool" where
  "gotAll c \<longleftrightarrow> parseState c = kGotAll"


text \<open>The bytes between two offsets of a line.\<close>

definition sub_range :: "string \<Rightarrow> nat \<Rightarrow> nat \<Rightarrow> string" where
  "sub_range line i j = take (j - i) (drop i line)"

text \<open>
  \<^verbatim>\<open>parseRequestLine(begin, end)\<close> on the bytes of its range; \<open>space\<close>, \<open>question\<close> and \<open>start\<close> are offsets
  from \<^verbatim>\<open>begin\<close>.  Constructing the string \<^verbatim>\<open>s(start, end - 1)\<close> with \<^verbatim>\<open>end - 1\<close> before \<^verbatim>\<open>start\<close> throws.
\<close>

definition parseRequestLine :: "http_request \<Rightarrow> string \<Rightarrow> (bool \<times> http_request) result" where
  "parseRequestLine r line =
     (let stop = length line;
          space = std_find line (CHR '' '')
      in if space = stop then Inr (False, r) else
         rbind (setMethod r (sub_range line 0 space)) (\<lambda>(ok, r1).
           if \<not> ok then Inr (False, r1) else
           let start = space + 1;
               space = start + std_find (drop start line) (CHR '' '');
               r2 = (if space \<noteq> stop then
                       let question = start + std_find (sub_range line start space) (CHR ''?'');
                           r' = (if question \<noteq> space then setQuery r1 (sub_range line (question + 1) space) else r1)
                       in setPath r' (sub_range line start question)
                     else r1);
               start = space + 1
           in if stop < start + 1 then Inl (Thrown ''std::length_error'')
              else if stop - start = 8 \<and> sub_range line start (stop - 1) = ''HTTP/1.''
              then if line ! (stop - 1) = CHR ''0'' then Inr (True, setVersion r2 kHttp10)
                   else if line ! (stop - 1) = CHR ''1'' then Inr (True, setVersion r2 kHttp11)
                   else Inr (False, r2)
              else Inr (False, r2)))"

text \<open>One turn of the loop; the first component is the value returned, if the loop is left.\<close>

definition parse_iteration ::
  "timestamp \<Rightarrow> http_context \<Rightarrow> buffer \<Rightarrow> (bool option \<times> http_context \<times> buffer) result" where
  "parse_iteration t c b =
     (case parseState c of
        kExpectRequestLine \<Rightarrow>
          rbind (findCRLF b) (\<lambda>found. case found of
            None \<Rightarrow> Inr (Some False, c, b)
          | Some crlf \<Rightarrow>
              rbind (std_read (buf b) (peek b) (crlf - peek b)) (\<lambda>line.
              rbind (parseRequestLine (request c) line) (\<lambda>(ok, r).
                if ok then rbind (retrieveUtil b (crlf + 2)) (\<lambda>b'.
                  Inr (None, c\<lparr>request := setReceiveTime r t, parseState := kExpectHeaders\<rparr>, b'))
                else Inr (Some False, c\<lparr>request := r\<rparr>, b))))
      | kExpectHeaders \<Rightarrow>
          rbind (findCRLF b) (\<lambda>found. case found of
            None \<Rightarrow> Inr (Some True, c, b)
          | Some crlf \<Rightarrow>
              rbind (std_read (buf b) (peek b) (crlf - peek b)) (\<lambda>line.
                let colon = std_find line (CHR '':'');
                    c' = (if colon \<noteq> length line then c\<lparr>request := addHeader (request c) line colon\<rparr>
                          else c\<lparr>parseState := kExpectBody\<rparr>)
                in rbind (retrieveUtil b (crlf + 2)) (\<lambda>b'. Inr (None, c', b'))))
      | kExpectBody \<Rightarrow>
          rbind (retrieveAllAsString b) (\<lambda>(s, b').
            Inr (Some True, c\<lparr>request := setBody (request c) s, parseState := kGotAll\<rparr>, b'))
      | kGotAll \<Rightarrow> Inr (None, c, b))"

partial_function (option) parseRequest ::
  "timestamp \<Rightarrow> http_context \<Rightarrow> buffer \<Rightarrow> (bool \<times> http_context \<times> buffer) result option" where
  "parseRequest t c b =
     (case parse_iteration t c b of
        Inl e \<Rightarrow> Some (Inl e)
      | Inr (res, c', b') \<Rightarrow>
          (case res of Some ok \<Rightarrow> Some (Inr (ok, c', b')) | None \<Rightarrow> parseRequest t c' b'))"

section \<open>The parser on strings\<close>

text \<open>What the parser computes, on the unread bytes alone: first the header lines up to the first line
  without a colon, then the body.  The flag says whether that line was found.\<close>

function parse_headers :: "http_request \<Rightarrow> string \<Rightarrow> http_request \<times> bool \<times> string" where
  "parse_headers r s =
     (let k = std_search s kCRLF; line = take k s; rest = drop (k + 2) s
      in if k = length s then (r, False, s)
         else if CHR '':'' \<in> set line then parse_headers (addHeader r line (std_find line (CHR '':''))) rest
         else (r, True, rest))"
  by pat_completeness auto
termination
proof (relation "measure (\<lambda>(r, s). length s)")
  fix r s k line rest
  assume "k = std_search s kCRLF" "rest = drop (k + 2) s" "k \<noteq> length s"
  then show "((addHeader r line (std_find line (CHR '':'')), rest), r, s) \<in> measure (\<lambda>(r, s). length s)"
    using std_search_le [of s kCRLF] by simp
qed simp

declare parse_headers.simps [simp del]

definition spec_body :: "http_context \<Rightarrow> string \<Rightarrow> bool \<times> http_context \<times> string" where
  "spec_body c s = (True, c\<lparr>request := setBody (request c) s, parseState := kGotAll\<rparr>, [])"

definition spec_headers :: "http_context \<Rightarrow> string \<Rightarrow> bool \<times> http_context \<times> string" where
  "spec_headers c s =
     (let (r, complete, rest) = parse_headers (request c) s in
      if complete then spec_body (c\<lparr>request := r\<rparr>) rest
      else (True, c\<lparr>request := r, parseState := kExpectHeaders\<rparr>, rest))"

definition spec_request_line ::
  "timestamp \<Rightarrow> http_context \<Rightarrow> string \<Rightarrow> (bool \<times> http_context \<times> string) result" where
  "spec_request_line t c s =
     (let k = std_search s kCRLF in
      if k = length s then Inr (False, c, s)
      else rbind (parseRequestLine (request c) (take k s)) (\<lambda>(ok, r).
        Inr (if ok then spec_headers (c\<lparr>request := setReceiveTime r t\<rparr>) (drop (k + 2) s)
             else (False, c\<lparr>request := r\<rparr>, s))))"

definition parse_spec ::
  "timestamp \<Rightarrow> http_context \<Rightarrow> string \<Rightarrow> (bool \<times> http_context \<times> string) result" where
  "parse_spec t c s = (case parseState c of
      kExpectRequestLine \<Rightarrow> spec_request_line t c s
    | kExpectHeaders \<Rightarrow> Inr (spec_headers c s)
    | kExpectBody \<Rightarrow> Inr (spec_body c s)
    | kGotAll \<Rightarrow> Inr (True, c, s))"

text \<open>A result of the parser on a buffer agrees with one on its unread bytes.\<close>

definition implements ::
  "(bool \<times> http_context \<times> buffer) result \<Rightarrow> (bool \<times> http_context \<times> string) result \<Rightarrow> bool" where
  "implements res spec \<longleftrightarrow> (case spec of
      Inl e \<Rightarrow> res = Inl e
    | Inr (ok, c, s) \<Rightarrow> \<exists>b. res = Inr (ok, c, b) \<and> buffer_inv b \<and> content b = s)"

section \<open>The buffer parser implements the string parser\<close>

lemma read_line:
  assumes inv: "buffer_inv b" and k: "std_search (content b) kCRLF \<noteq> length (content b)"
  defines "k \<equiv> std_search (content b) kCRLF"
  obtains b' where "findCRLF b = Inr (Some (peek b + k))"
    "std_read (buf b) (peek b) k = Inr (take k (content b))"
    "retrieveUtil b (peek b + k + 2) = Inr b'" "buffer_inv b'" "content b' = drop (k + 2) (content b)"
proof -
  have le: "k \<le> length (content b)" by (simp add: k_def std_search_le)
  have room: "k + 2 \<le> length (content b)"
    using std_search_room [of "content b" kCRLF] std_search_le [of "content b" kCRLF] assms(2)
    by (simp add: k_def kCRLF_def)
  obtain b' where "retrieveUtil b (peek b + (k + 2)) = Inr b'" "buffer_inv b'"
    "content b' = drop (k + 2) (content b)"
    using retrieveUtil_spec [OF inv room] by metis
  then show ?thesis
    using assms(2) findCRLF_spec [OF inv] read_content [OF inv le]
    by (intro that) (simp_all add: k_def add.assoc)
qed

lemma parse_body:
  assumes "buffer_inv b" and "parseState c = kExpectBody"
  shows "\<exists>res. parseRequest t c b = Some res \<and> implements res (Inr (spec_body c (content b)))"
  using assms retrieveAllAsString_spec [OF assms(1)]
  by (subst parseRequest.simps) (simp add: parse_iteration_def implements_def spec_body_def)


lemma spec_headers_state: "spec_headers (c\<lparr>parseState := st\<rparr>) s = spec_headers c s"
  by (simp add: spec_headers_def spec_body_def split: prod.split)

lemma spec_headers_end:
  "std_search s kCRLF = length s \<Longrightarrow> spec_headers c s = (True, c\<lparr>parseState := kExpectHeaders\<rparr>, s)"
  by (simp add: spec_headers_def parse_headers.simps [of _ s])

lemma spec_headers_field:
  assumes "std_search s kCRLF \<noteq> length s" and "CHR '':'' \<in> set (take (std_search s kCRLF) s)"
  shows "spec_headers c s =
    spec_headers (c\<lparr>request := addHeader (request c) (take (std_search s kCRLF) s)
        (std_find (take (std_search s kCRLF) s) (CHR '':''))\<rparr>) (drop (std_search s kCRLF + 2) s)"
  using assms
  by (simp add: spec_headers_def parse_headers.simps [of "request c" s] Let_def split: prod.split)

lemma spec_headers_blank:
  assumes "std_search s kCRLF \<noteq> length s" and "CHR '':'' \<notin> set (take (std_search s kCRLF) s)"
  shows "spec_headers c s = spec_body c (drop (std_search s kCRLF + 2) s)"
  using assms by (simp add: spec_headers_def parse_headers.simps [of _ s])

lemma parse_header_block:
  assumes "buffer_inv b" and "parseState c = kExpectHeaders"
  shows "\<exists>res. parseRequest t c b = Some res \<and> implements res (Inr (spec_headers c (content b)))"
  using assms
proof (induction "length (content b)" arbitrary: b c rule: less_induct)
  case less
  let ?k = "std_search (content b) kCRLF"
  show ?case
  proof (cases "?k = length (content b)")
    case True
    then show ?thesis
      using less.prems findCRLF_spec [OF less.prems(1)]
      by (subst parseRequest.simps)
        (simp add: parse_iteration_def implements_def spec_headers_end)
  next
    case False
    let ?line = "take ?k (content b)"
    let ?colon = "std_find ?line (CHR '':'')"
    obtain b' where b': "findCRLF b = Inr (Some (peek b + ?k))"
      "std_read (buf b) (peek b) ?k = Inr ?line"
      "retrieveUtil b (peek b + ?k + 2) = Inr b'" "buffer_inv b'" "content b' = drop (?k + 2) (content b)"
      using read_line [OF less.prems(1) False] .
    let ?c = "if CHR '':'' \<in> set ?line then c\<lparr>request := addHeader (request c) ?line ?colon\<rparr>
              else c\<lparr>parseState := kExpectBody\<rparr>"
    have step: "parseRequest t c b = parseRequest t ?c b'"
      using less.prems(2) b'(1-3)
      by (subst parseRequest.simps) (simp add: parse_iteration_def Let_def std_find_eq_length del: length_take)
    show ?thesis
    proof (cases "CHR '':'' \<in> set ?line")
      case True
      have "length (content b') < length (content b)"
        using b'(5) False std_search_le [of "content b" kCRLF] by simp
      with less.hyps [of b' ?c] True less.prems(2) b'(4,5) False show ?thesis
        by (simp add: step spec_headers_field del: One_nat_def)
    next
      case nocolon: False
      with parse_body [of b' ?c t] b'(4,5) False show ?thesis
        by (simp add: step spec_headers_blank spec_body_def)
    qed
  qed
qed

lemma parse_request_line:
  assumes inv: "buffer_inv b" and st: "parseState c = kExpectRequestLine"
  shows "\<exists>res. parseRequest t c b = Some res \<and> implements res (spec_request_line t c (content b))"
proof (cases "std_search (content b) kCRLF = length (content b)")
  case True
  then show ?thesis
    using st inv findCRLF_spec [OF inv]
    by (subst parseRequest.simps) (simp add: parse_iteration_def implements_def spec_request_line_def)
next
  case False
  let ?k = "std_search (content b) kCRLF"
  obtain b' where b': "findCRLF b = Inr (Some (peek b + ?k))"
    "std_read (buf b) (peek b) ?k = Inr (take ?k (content b))"
    "retrieveUtil b (peek b + ?k + 2) = Inr b'" "buffer_inv b'" "content b' = drop (?k + 2) (content b)"
    using read_line [OF inv False] .
  show ?thesis
  proof (cases "parseRequestLine (request c) (take ?k (content b))")
    case (Inl e)
    with b' st False show ?thesis
      by (subst parseRequest.simps) (simp add: parse_iteration_def implements_def spec_request_line_def)
  next
    case (Inr p)
    obtain ok r where p: "p = (ok, r)" by (cases p)
    show ?thesis
    proof (cases ok)
      case True
      let ?c = "c\<lparr>request := setReceiveTime r t, parseState := kExpectHeaders\<rparr>"
      have "parseRequest t c b = parseRequest t ?c b'"
        using b' st Inr p True by (subst parseRequest.simps) (simp add: parse_iteration_def)
      with parse_header_block [OF b'(4), of ?c t] False Inr p True b'(5) show ?thesis
        by (simp add: spec_request_line_def spec_headers_state)
    next
      case False
      with b' st Inr p inv \<open>?k \<noteq> length (content b)\<close> show ?thesis
        by (subst parseRequest.simps) (simp add: parse_iteration_def implements_def spec_request_line_def)
    qed
  qed
qed

text \<open>In state \<open>kGotAll\<close> the loop body does nothing and the loop is never left.\<close>

lemma parse_stuck: "parseRequest t c b = Some res \<Longrightarrow> parseState c \<noteq> kGotAll"
proof (erule parseRequest.raw_induct [where P = "\<lambda>t c b res. parseState c \<noteq> kGotAll", rotated])
  fix f t c b res
  assume "\<And>t c b res. f t c b = Some res \<Longrightarrow> parseState c \<noteq> kGotAll"
    and "(case parse_iteration t c b of Inl e \<Rightarrow> Some (Inl e)
      | Inr (res, c', b') \<Rightarrow> (case res of Some ok \<Rightarrow> Some (Inr (ok, c', b')) | None \<Rightarrow> f t c' b')) = Some res"
  then show "parseState c \<noteq> kGotAll" by (auto simp: parse_iteration_def)
qed

lemma parseRequest_spec:
  assumes "buffer_inv b" and "parseState c \<noteq> kGotAll"
  shows "\<exists>res. parseRequest t c b = Some res \<and> implements res (parse_spec t c (content b))"
  using assms parse_request_line parse_header_block parse_body
  by (cases "parseState c") (simp_all add: parse_spec_def)

section \<open>Requests as text\<close>

text \<open>The text a client sends for a request, and the requests that can be sent.\<close>

definition render_target :: "http_request \<Rightarrow> string" where
  "render_target r = path r @ (if query r = [] then [] else CHR ''?'' # query r)"

definition render_line :: "http_request \<Rightarrow> string" where
  "render_line r = methodToString r @ CHR '' '' # render_target r @ CHR '' '' # ''HTTP/1.'' @
     [if version r = kHttp10 then CHR ''0'' else CHR ''1'']"

definition render_headers :: "(string \<times> string) list \<Rightarrow> string" where
  "render_headers hs = concat (map (\<lambda>(f, v). f @ '': '' @ v @ kCRLF) hs)"

definition render_request :: "http_request \<Rightarrow> string" where
  "render_request r = render_line r @ kCRLF @ render_headers (headers r) @ kCRLF @ body r"

definition header_ok :: "string \<times> string \<Rightarrow> bool" where
  "header_ok h \<longleftrightarrow> {CHR '':'', CHR 0x0D} \<inter> set (fst h) = {} \<and> CHR 0x0D \<notin> set (snd h) \<and> trimmed (snd h)"

definition request_ok :: "http_request \<Rightarrow> bool" where
  "request_ok r \<longleftrightarrow> req_method r \<noteq> kInvalid \<and> version r \<noteq> kUnknown \<and>
     {CHR '' '', CHR ''?'', CHR 0x0D} \<inter> set (path r) = {} \<and> {CHR '' '', CHR 0x0D} \<inter> set (query r) = {} \<and>
     map_ok (headers r) \<and> (\<forall>h \<in> set (headers r). header_ok h)"

lemma parse_headers_line:
  assumes "CHR 0x0D \<notin> set line"
  shows "parse_headers r (line @ kCRLF @ rest) =
    (if CHR '':'' \<in> set line then parse_headers (addHeader r line (std_find line (CHR '':''))) rest
     else (r, True, rest))"
proof -
  have "std_search (line @ kCRLF @ rest) kCRLF = length line"
    using std_search_line [OF assms] by (simp add: kCRLF_def)
  then show ?thesis by (subst parse_headers.simps) (simp add: Let_def, simp add: kCRLF_def)
qed

lemma parse_rendered_headers:
  assumes "\<forall>h \<in> set hs. header_ok h"
  shows "parse_headers r (render_headers hs @ kCRLF @ s) =
    (r\<lparr>headers := fold (\<lambda>(k, v). map_set k v) hs (headers r)\<rparr>, True, s)"
  using assms
proof (induction hs arbitrary: r)
  case Nil
  show ?case using parse_headers_line [of "[]" r s] by (simp add: render_headers_def)
next
  case (Cons h hs)
  obtain f v where h: "h = (f, v)" by (cases h)
  let ?line = "f @ '': '' @ v" and ?rest = "render_headers hs @ kCRLF @ s"
  have ok: "CHR '':'' \<notin> set f" "CHR 0x0D \<notin> set ?line" "trimmed v"
    using Cons.prems by (auto simp: h header_ok_def)
  have whole: "render_headers (h # hs) @ kCRLF @ s = ?line @ kCRLF @ ?rest"
    by (simp add: render_headers_def h)
  have add: "addHeader r ?line (std_find ?line (CHR '':'')) = r\<lparr>headers := map_set f v (headers r)\<rparr>"
    using ok std_find_append [OF ok(1), of " '' '' @ v"]
    by (simp add: addHeader_def Let_def isspace_def dropWhile_trimmed trim_right_id)
  have "parse_headers r (?line @ kCRLF @ ?rest) =
      parse_headers (addHeader r ?line (std_find ?line (CHR '':''))) ?rest"
    using parse_headers_line [OF ok(2)] by simp
  then show ?case
    unfolding whole add using Cons.IH Cons.prems by (simp add: h)
qed

lemma parse_rendered_line:
  assumes ok: "request_ok r" and r0: "req_method r0 = kInvalid" "query r0 = []"
  shows "parseRequestLine r0 (render_line r) =
    Inr (True, r0\<lparr>req_method := req_method r, version := version r, path := path r, query := query r\<rparr>)"
proof -
  let ?m = "methodToString r" and ?v = "''HTTP/1.'' @ [if version r = kHttp10 then CHR ''0'' else CHR ''1'']"
  let ?line = "render_line r" and ?t = "render_target r"
  have m: "CHR '' '' \<notin> set ?m" by (simp add: methodToString_def split: http_method.split)
  have t: "CHR '' '' \<notin> set ?t" using ok by (auto simp: request_ok_def render_target_def)
  have f1: "std_find ?line (CHR '' '') = length ?m" using std_find_append [OF m] by (simp add: render_line_def)
  have d: "drop (length ?m + 1) ?line = ?t @ CHR '' '' # ?v" by (simp add: render_line_def)
  have f2: "std_find (drop (length ?m + 1) ?line) (CHR '' '') = length ?t"
    unfolding d using std_find_append [OF t] by simp
  have rt: "sub_range ?line (length ?m + 1) (length ?m + 1 + length ?t) = ?t" by (simp add: sub_range_def d del: One_nat_def)
  have "CHR ''?'' \<notin> set (path r)" using ok by (auto simp: request_ok_def)
  then have f3: "std_find ?t (CHR ''?'') = length (path r)"
    using std_find_append [of "CHR ''?''" "path r" "query r"] std_find_absent [of "CHR ''?''" "path r"]
    by (simp add: render_target_def)
  have len: "length ?line = length ?m + length ?t + 10" by (simp add: render_line_def)
  have rp: "sub_range ?line (length ?m + 1) (length ?m + 1 + length (path r)) = path r"
    by (simp add: sub_range_def d render_target_def del: One_nat_def)
  have rq: "query r \<noteq> [] \<Longrightarrow> sub_range ?line (length ?m + 1 + length (path r) + 1) (length ?m + 1 + length ?t) = query r"
    by (simp add: sub_range_def render_line_def render_target_def)
  have rv: "sub_range ?line (length ?m + 1 + length ?t + 1) (length ?line - 1) = ''HTTP/1.''"
    "?line ! (length ?line - 1) = (if version r = kHttp10 then CHR ''0'' else CHR ''1'')"
    by (simp_all add: sub_range_def render_line_def nth_append)
  have sm: "setMethod r0 (sub_range ?line 0 (length ?m)) = Inr (True, r0\<lparr>req_method := req_method r\<rparr>)"
    using methodToString_inj [of r r0] ok r0 by (simp add: request_ok_def sub_range_def render_line_def)
  have pq: "length (path r) = length ?t \<longleftrightarrow> query r = []" by (simp add: render_target_def)
  have v: "version r = kHttp10 \<or> version r = kHttp11" using ok by (cases "version r") (auto simp: request_ok_def)
  have shape: "length ?m \<noteq> length ?line" "length ?m + 1 + length ?t \<noteq> length ?line"
    "\<not> length ?line < length ?m + 1 + length ?t + 1 + 1" "length ?line - (length ?m + 1 + length ?t + 1) = 8"
    by (simp_all add: len)
  note parse = parseRequestLine_def Let_def f1 f2 rt f3 sm rbind_Inr prod.case rp rv
  show ?thesis
  proof (cases "query r = []")
    case True
    then have q: "length ?m + 1 + length (path r) = length ?m + 1 + length ?t" using pq by simp
    show ?thesis
      unfolding parse using shape q v True r0(2) by (auto simp: setPath_def setVersion_def)
  next
    case False
    then have q: "length ?m + 1 + length (path r) \<noteq> length ?m + 1 + length ?t" using pq by simp
    show ?thesis
      unfolding parse rq [OF False] using shape q v by (auto simp: setQuery_def setPath_def setVersion_def)
  qed
qed


text \<open>When the construction of \<^verbatim>\<open>s(start, end - 1)\<close> throws.\<close>

lemma setMethod_fresh:
  "setMethod HttpRequest_ctor m =
     Inr (m \<in> {''GET'', ''POST'', ''HEAD'', ''PUT'', ''DELETE''}, snd (projr (setMethod HttpRequest_ctor m)))"
  by (simp add: setMethod_def HttpRequest_ctor_def)

lemma parseRequestLine_throws:
  "parseRequestLine HttpRequest_ctor line = Inl e \<longleftrightarrow>
     e = Thrown ''std::length_error'' \<and>
     (\<exists>m target. m \<in> {''GET'', ''POST'', ''HEAD'', ''PUT'', ''DELETE''} \<and> CHR '' '' \<notin> set target \<and>
        line \<in> {m @ CHR '' '' # target, m @ CHR '' '' # target @ '' ''})"
    (is "_ \<longleftrightarrow> _ \<and> ?malformed")
proof (cases "CHR '' '' \<in> set line")
  case False
  then show ?thesis by (auto simp: parseRequestLine_def std_find_absent)
next
  case True
  then obtain m rest where m: "line = m @ CHR '' '' # rest" "CHR '' '' \<notin> set m" "std_find line (CHR '' '') = length m"
    by (rule std_find_split)
  define known where "known = (m \<in> {''GET'', ''POST'', ''HEAD'', ''PUT'', ''DELETE''})"
  let ?sp = "std_find rest (CHR '' '')"
  have "parseRequestLine HttpRequest_ctor line = Inl e \<longleftrightarrow>
      e = Thrown ''std::length_error'' \<and> known \<and> length rest \<le> ?sp + 1"
  proof -
    obtain r1 where sm: "setMethod HttpRequest_ctor (sub_range line 0 (length m)) = Inr (known, r1)"
      using setMethod_fresh [of m] by (simp add: m(1) sub_range_def known_def)
    have d: "drop (length m + 1) line = rest" "length line = length m + 1 + length rest" by (simp_all add: m(1))
    show ?thesis
      unfolding parseRequestLine_def m(3) Let_def sm rbind_Inr prod.case d by (simp add: eq_commute [of _ e])
  qed
  moreover have "length rest \<le> ?sp + 1 \<longleftrightarrow> (\<exists>target. CHR '' '' \<notin> set target \<and> rest \<in> {target, target @ '' ''})"
  proof (cases "CHR '' '' \<in> set rest")
    case True
    then obtain x y where x: "rest = x @ CHR '' '' # y" "CHR '' '' \<notin> set x" "?sp = length x" by (rule std_find_split)
    have "rest \<in> {u, u @ '' ''} \<longleftrightarrow> u = x \<and> y = []" if "CHR '' '' \<notin> set u" for u
      using that x(1,2) append_Cons_eq_iff [of "CHR '' ''" u "[]" x y] by auto
    then have "(\<exists>u. CHR '' '' \<notin> set u \<and> rest \<in> {u, u @ '' ''}) \<longleftrightarrow> y = []" using x(2) by metis
    moreover have "length rest \<le> ?sp + 1 \<longleftrightarrow> y = []" unfolding x(3) unfolding x(1) by simp
    ultimately show ?thesis by (simp only:)
  qed (auto simp: std_find_absent)
  moreover have "?malformed \<longleftrightarrow> known \<and> (\<exists>target. CHR '' '' \<notin> set target \<and> rest \<in> {target, target @ '' ''})"
  proof -
    have "m' = m \<and> rest = u" if "m' \<in> {''GET'', ''POST'', ''HEAD'', ''PUT'', ''DELETE''}" "line = m' @ CHR '' '' # u" for m' u
    proof -
      have "CHR '' '' \<notin> set m'" using that(1) by auto
      then show ?thesis using first_split [OF _ m(2), of m' u rest] that(2) m(1) by simp
    qed
    then show ?thesis unfolding m(1) known_def by blast
  qed
  ultimately show ?thesis by blast
qed

text \<open>A buffer that holds given bytes, and a request, for the concrete instances below.\<close>

definition buffer_of :: "string \<Rightarrow> buffer" where
  "buffer_of s = \<lparr>buf = replicate 8 (CHR 0x00) @ s, readIndex = 8, writeIndex = word_of_nat (8 + length s)\<rparr>"

lemma buffer_of:
  assumes "length s < 2 ^ 32"
  shows "buffer_inv (buffer_of s)" "content (buffer_of s) = s"
proof -
  have "unat (word_of_nat (8 + length s) :: size_t) = 8 + length s"
    using assms by (intro unat_of_nat_size) simp
  then show "buffer_inv (buffer_of s)" "content (buffer_of s) = s"
    using assms
    by (simp_all add: buffer_inv_def content_def buffer_of_def kCheapPrepend_def vector_max_size_def del: of_nat_add)
qed

definition sample_request :: http_request where
  "sample_request = \<lparr>req_method = kPost, version = kHttp11, receiveTime = Timestamp 0, path = ''/upload'',
     query = ''id=7'', body = ''payload'', headers = [(''Connection'', ''close''), (''Host'', ''ham'')]\<rparr>"

lemma sample_request_ok: "request_ok sample_request"
  by (simp add: request_ok_def sample_request_def header_ok_def trimmed_def isspace_def map_ok_def less_char_def)

lemma sample_request_length: "length (render_request sample_request) < 2 ^ 32"
  by (simp add: render_request_def render_line_def render_target_def render_headers_def sample_request_def
      methodToString_def kCRLF_def)

lemma parse_rendered_request:
  assumes ok: "request_ok r" and inv: "buffer_inv b" and sent: "content b = render_request r"
  shows "\<exists>b'. parseRequest t HttpContext_ctor b =
      Some (Inr (True, \<lparr>request = r\<lparr>receiveTime := t\<rparr>, parseState = kGotAll\<rparr>, b')) \<and>
    buffer_inv b' \<and> content b' = []"
proof -
  have cr: "CHR 0x0D \<notin> set (render_line r)"
    using ok by (auto simp: render_line_def render_target_def request_ok_def methodToString_def
        split: http_method.split)
  let ?tail = "render_headers (headers r) @ kCRLF @ body r"
  have k: "std_search (content b) kCRLF = length (render_line r)"
    using std_search_line [OF cr] by (simp add: sent render_request_def kCRLF_def)
  have cut: "take (length (render_line r)) (content b) = render_line r"
    "drop (length (render_line r) + 2) (content b) = ?tail" "length (render_line r) \<noteq> length (content b)"
    by (simp_all add: sent render_request_def kCRLF_def)
  let ?r0 = "HttpRequest_ctor\<lparr>req_method := req_method r, version := version r, path := path r, query := query r\<rparr>"
  have line: "parseRequestLine HttpRequest_ctor (render_line r) = Inr (True, ?r0)"
    using parse_rendered_line [OF ok] by (simp add: HttpRequest_ctor_def)
  have "map_ok (headers r)" using ok by (simp add: request_ok_def)
  then have "fold (\<lambda>(k, v). map_set k v) (headers r) [] = headers r"
    using fold_map_set_sorted [of "[]"] by simp
  then have "parse_headers (setReceiveTime ?r0 t) ?tail =
      ((setReceiveTime ?r0 t)\<lparr>headers := headers r\<rparr>, True, body r)"
    using ok parse_rendered_headers [of "headers r" "setReceiveTime ?r0 t" "body r"]
    by (simp add: request_ok_def setReceiveTime_def HttpRequest_ctor_def)
  then have "parse_spec t HttpContext_ctor (content b) =
      Inr (True, \<lparr>request = r\<lparr>receiveTime := t\<rparr>, parseState = kGotAll\<rparr>, [])"
    using line cut by (simp add: parse_spec_def HttpContext_ctor_def spec_request_line_def k spec_headers_def
        spec_body_def setBody_def setReceiveTime_def HttpRequest_ctor_def)
  then show ?thesis
    using parseRequest_spec [OF inv, of HttpContext_ctor t]
    by (auto simp: implements_def HttpContext_ctor_def)
qed

section \<open>Properties\<close>

text \<open>
  C14.  The request parser on a \<^verbatim>\<open>Buffer\<close>.  Entered in any parser state but \<open>kGotAll\<close> it leaves its loop and
  computes exactly what the string parser \<open>parse_spec\<close> computes on the unread bytes: the same answer, the
  same context and the same bytes left to read, or it throws what \<open>parse_spec\<close> throws; no assertion fails
  and no access is out of bounds.  Entered in state \<open>kGotAll\<close> it never leaves its loop.\<close>
theorem parseRequest_refines:
  assumes "buffer_inv b"
  shows "if parseState c \<noteq> kGotAll
    then \<exists>res. parseRequest t c b = Some res \<and> implements res (parse_spec t c (content b))
    else parseRequest t c b = None"
  using parseRequest_spec [OF assms] parse_stuck by (metis not_None_eq)

theorem parseRequest_refines_witness:
  "\<exists>res. parseRequest (Timestamp 5) HttpContext_ctor (buffer_of ''GET /'') = Some res \<and>
     implements res (Inr (False, HttpContext_ctor, ''GET /''))"
  using parseRequest_refines [of "buffer_of ''GET /''" HttpContext_ctor "Timestamp 5"]
  by (simp add: buffer_of HttpContext_ctor_def parse_spec_def spec_request_line_def kCRLF_def)



text \<open>
  C13.  Round trip: when the unread bytes of the buffer are the text of a well-formed request, a fresh
  context parses them to that request (with the given time of receipt), reaches \<open>kGotAll\<close> and leaves
  nothing unread.\<close>
theorem http_request_roundtrip:
  assumes ok: "request_ok r" and inv: "buffer_inv b" and sent: "content b = render_request r"
  shows "\<exists>b'. parseRequest t HttpContext_ctor b =
      Some (Inr (True, \<lparr>request = r\<lparr>receiveTime := t\<rparr>, parseState = kGotAll\<rparr>, b')) \<and>
    buffer_inv b' \<and> content b' = []"
  using assms by (rule parse_rendered_request)

theorem http_request_roundtrip_witness:
  "\<exists>b'. parseRequest (Timestamp 9) HttpContext_ctor (buffer_of (render_request sample_request)) =
      Some (Inr (True, \<lparr>request = sample_request\<lparr>receiveTime := Timestamp 9\<rparr>, parseState = kGotAll\<rparr>, b')) \<and>
    buffer_inv b' \<and> content b' = []"
  by (rule http_request_roundtrip [OF sample_request_ok])
    (simp_all only: buffer_of [OF sample_request_length])

text \<open>
  A malformed request line can throw.  From a fresh context, the parser fails exactly if the first
  line consists of a known method, a space and a target that is not followed by a version: no second
  space, or nothing behind it.  The failure is the \<^verbatim>\<open>std::length_error\<close> of the string \<^verbatim>\<open>s(start, end - 1)\<close>.\<close>
theorem request_line_throws:
  assumes inv: "buffer_inv b"
  defines "k \<equiv> std_search (content b) kCRLF"
  shows "parseRequest t HttpContext_ctor b = Some (Inl e) \<longleftrightarrow>
    e = Thrown ''std::length_error'' \<and> k < length (content b) \<and>
    (\<exists>m target. m \<in> {''GET'', ''POST'', ''HEAD'', ''PUT'', ''DELETE''} \<and> CHR '' '' \<notin> set target \<and>
       take k (content b) \<in> {m @ CHR '' '' # target, m @ CHR '' '' # target @ '' ''})"
    (is "_ \<longleftrightarrow> _ \<and> _ \<and> ?malformed (take k (content b))")
proof -
  obtain res where res: "parseRequest t HttpContext_ctor b = Some res"
    "implements res (spec_request_line t HttpContext_ctor (content b))"
    using parseRequest_spec [OF inv, of HttpContext_ctor t] by (auto simp: HttpContext_ctor_def parse_spec_def)
  have "res = Inl e \<longleftrightarrow> spec_request_line t HttpContext_ctor (content b) = Inl e"
    using res(2) by (auto simp: implements_def split: sum.splits)
  also have "\<dots> \<longleftrightarrow> k < length (content b) \<and> parseRequestLine HttpRequest_ctor (take k (content b)) = Inl e"
    using std_search_le [of "content b" kCRLF]
    by (auto simp: spec_request_line_def HttpContext_ctor_def rbind_eq_Inl Let_def split_beta simp flip: k_def)
  also have "parseRequestLine HttpRequest_ctor (take k (content b)) = Inl e \<longleftrightarrow>
      e = Thrown ''std::length_error'' \<and> ?malformed (take k (content b))"
    by (rule parseRequestLine_throws)
  finally show ?thesis using res(1) by auto
qed


theorem request_line_throws_witness:
  "parseRequest (Timestamp 9) HttpContext_ctor (buffer_of (''GET /'' @ kCRLF)) = Some (Inl (Thrown ''std::length_error''))"
proof -
  have inv: "buffer_inv (buffer_of (''GET /'' @ kCRLF))" and c: "content (buffer_of (''GET /'' @ kCRLF)) = ''GET /'' @ kCRLF"
    by (rule buffer_of, simp add: kCRLF_def)+
  have k: "std_search (''GET /'' @ kCRLF) kCRLF = 5" by (simp add: kCRLF_def)
  have "take 5 (''GET /'' @ kCRLF) \<in> {''GET'' @ CHR '' '' # ''/'', ''GET'' @ CHR '' '' # ''/'' @ '' ''}" by simp
  moreover have "CHR '' '' \<notin> set ''/''" by simp
  moreover have "5 < length (''GET /'' @ kCRLF)" by (simp add: kCRLF_def)
  ultimately show ?thesis
    using request_line_throws [OF inv, of "Timestamp 9" "Thrown ''std::length_error''"] unfolding c k by blast
qed

lemma parse_headers_incremental:
  assumes "parse_headers r s = (r', False, u)"
  shows "parse_headers r (s @ s2) = parse_headers r' (u @ s2)"
  using assms
proof (induction r s rule: parse_headers.induct)
  case (1 r s)
  let ?k = "std_search s kCRLF"
  show ?case
  proof (cases "?k = length s")
    case True
    with "1.prems" show ?thesis by (simp add: parse_headers.simps [of r s])
  next
    case False
    then have lt: "?k < length s" using std_search_le [of s kCRLF] by simp
    have room: "?k + 2 \<le> length s" using std_search_room [OF lt] by (simp add: kCRLF_def)
    have k: "std_search (s @ s2) kCRLF = ?k" by (rule std_search_append [OF lt])
    have colon: "CHR '':'' \<in> set (take ?k s)"
      using "1.prems" False by (simp add: parse_headers.simps [of r s] Let_def split: if_splits)
    let ?r = "addHeader r (take ?k s) (std_find (take ?k s) (CHR '':''))"
    have "parse_headers r (s @ s2) = parse_headers ?r (drop (?k + 2) s @ s2)"
      using colon room by (subst parse_headers.simps, unfold k) (simp add: Let_def)
    moreover have "parse_headers ?r (drop (?k + 2) s) = (r', False, u)"
      using "1.prems" False colon by (simp add: parse_headers.simps [of r s] Let_def)
    ultimately show ?thesis using "1.IH" [OF refl refl refl False colon] by simp
  qed
qed

lemma spec_headers_incremental:
  assumes "spec_headers c s = (ok, c', u)" and "\<not> gotAll c'"
  shows "ok \<and> parseState c' = kExpectHeaders \<and> spec_headers c (s @ s2) = spec_headers c' (u @ s2)"
proof -
  obtain r f x where p: "parse_headers (request c) s = (r, f, x)" by (cases "parse_headers (request c) s")
  with assms have f: "\<not> f" "ok" "c' = c\<lparr>request := r, parseState := kExpectHeaders\<rparr>" "x = u"
    by (auto simp: spec_headers_def spec_body_def gotAll_def split: if_splits)
  with p parse_headers_incremental [of "request c" s r u s2]
  have "parse_headers (request c) (s @ s2) = parse_headers (request c') (u @ s2)" by simp
  with f show ?thesis
    by (simp add: spec_headers_def spec_body_def split: prod.split)
qed

text \<open>
  Header lines may arrive in pieces, cut anywhere, even inside a line or between the two bytes of
  a line end: if the header block is incomplete after a first piece, going on from the context it left,
  with more bytes behind the unread ones, gives the same answer, the same context and the same unread
  bytes as parsing everything at once.\<close>
theorem headers_incremental:
  assumes inv: "buffer_inv b" "buffer_inv b2" "buffer_inv whole" and st: "parseState c = kExpectHeaders"
    and first: "parseRequest t c b = Some (Inr (ok, c', b1))" and part: "\<not> gotAll c'"
    and more: "content b2 = content b1 @ s2" and both: "content whole = content b @ s2"
  shows "\<exists>ok' d x y. parseRequest t c' b2 = Some (Inr (ok', d, x)) \<and>
    parseRequest t c whole = Some (Inr (ok', d, y)) \<and> content x = content y"
proof -
  have "spec_headers c (content b) = (ok, c', content b1)"
    using parse_header_block [OF inv(1) st, of t] first by (auto simp: implements_def split: prod.splits)
  then have "parseState c' = kExpectHeaders" "spec_headers c (content whole) = spec_headers c' (content b2)"
    using spec_headers_incremental part by (simp_all add: more both)
  with parse_header_block [OF inv(2), of c' t] parse_header_block [OF inv(3) st, of t] show ?thesis
    by (auto simp: implements_def split: prod.splits)
qed

definition waiting_context :: http_context where
  "waiting_context = \<lparr>request = HttpRequest_ctor, parseState = kExpectHeaders\<rparr>"

theorem headers_incremental_witness:
  "\<exists>ok' d x y. parseRequest (Timestamp 9) waiting_context (buffer_of (''Host: ham'' @ kCRLF)) = Some (Inr (ok', d, x)) \<and>
     parseRequest (Timestamp 9) waiting_context (buffer_of (''Host: ham'' @ kCRLF)) = Some (Inr (ok', d, y)) \<and> content x = content y"
proof -
  let ?s = "''Host: ham'' @ [CHR 0x0D]" and ?s2 = "[CHR 0x0A]"
  have w: "parseState waiting_context = kExpectHeaders" by (simp add: waiting_context_def)
  have inv: "buffer_inv (buffer_of ?s)" "buffer_inv (buffer_of (''Host: ham'' @ kCRLF))" by (simp_all add: buffer_of kCRLF_def)
  have c: "content (buffer_of ?s) = ?s" "content (buffer_of (''Host: ham'' @ kCRLF)) = ?s @ ?s2"
    by (simp_all add: buffer_of kCRLF_def)
  have "spec_headers waiting_context ?s = (True, waiting_context, ?s)"
    using w spec_headers_end [of ?s waiting_context] by (simp add: kCRLF_def)
  then obtain b1 where "parseRequest (Timestamp 9) waiting_context (buffer_of ?s) = Some (Inr (True, waiting_context, b1))"
    "content b1 = ?s"
    using parse_header_block [OF inv(1) w, of "Timestamp 9"] unfolding c by (auto simp: implements_def)
  with headers_incremental [OF inv(1) inv(2) inv(2) w] w show ?thesis
    unfolding c by (simp add: gotAll_def)
qed

end
