(* ===== verification/HttpResponse.thy ===== *)
theory HttpResponse
  imports HttpContext
begin

text \<open>
  Model of \<^verbatim>\<open>ham/net/http/HttpResponse.{h,cc}\<close>: the response and its text.
\<close>

datatype response_version = resp_kUnknownVersion | resp_kHttp10 | resp_kHttp11

datatype state_code = resp_kUnknown | k200_Ok | k301_MovedPermanently | k400_BadRequest | k404_NotFound

fun code_number :: "state_code \<Rightarrow> int" where
  "code_number resp_kUnknown = 0"
| "code_number k200_Ok = 200"
| "code_number k301_MovedPermanently = 301"
| "code_number k400_BadRequest = 400"
| "code_number k404_NotFound = 404"

record http_response =
  resp_version :: response_version
  stateCode :: state_code
  stateMessage :: string
  resp_body :: string
  closeConnection :: bool
  resp_headers :: "(string, string) std_map"

definition HttpResponse_ctor :: "bool \<Rightarrow> http_response" where
  "HttpResponse_ctor closeConn =
     \<lparr>resp_version = resp_kUnknownVersion, stateCode = resp_kUnknown, stateMessage = [], resp_body = [],
      closeConnection = closeConn, resp_headers = []\<rparr>"

definition setStateCode :: "http_response \<Rightarrow> state_code \<Rightarrow> http_response" where
  "setStateCode r c = r\<lparr>stateCode := c\<rparr>"

definition setStateMessage :: "http_response \<Rightarrow> string \<Rightarrow> http_response" where
  "setStateMessage r m = r\<lparr>stateMessage := m\<rparr>"

definition setResponseBody :: "http_response \<Rightarrow> string \<Rightarrow> http_response" where
  "setResponseBody r s = r\<lparr>resp_body := s\<rparr>"

definition setCloseConnection :: "http_response \<Rightarrow> bool \<Rightarrow> http_response" where
  "setCloseConnection r on = r\<lparr>closeConnection := on\<rparr>"

definition addResponseHeader :: "http_response \<Rightarrow> string \<Rightarrow> string \<Rightarrow> http_response" where
  "addResponseHeader r field value = r\<lparr>resp_headers := map_set field value (resp_headers r)\<rparr>"

definition setContentType :: "http_response \<Rightarrow> string \<Rightarrow> http_response" where
  "setContentType r contentType = addResponseHeader r ''Content-Type'' contentType"

text \<open>\<^verbatim>\<open>snprintf(buf, 32, ...)\<close> keeps at most 31 characters.\<close>

definition content_length_line :: "nat \<Rightarrow> string" where
  "content_length_line n = take 31 (''Content-Length: '' @ to_string_nat n @ kCRLF)"

definition appendToBuffer :: "http_response \<Rightarrow> buffer \<Rightarrow> buffer result" where
  "appendToBuffer r b =
     rbind (append b ''Http/1.'') (\<lambda>b.
     rbind (append b (if resp_version r = resp_kHttp10 then ''0 '' else ''1 '')) (\<lambda>b.
     rbind (append b (to_string_int (code_number (stateCode r)))) (\<lambda>b.
     rbind (append b (stateMessage r)) (\<lambda>b.
     rbind (append b kCRLF) (\<lambda>b.
     rbind (if closeConnection r then append b (''Connection: close'' @ kCRLF)
            else rbind (append b (content_length_line (length (resp_body r)))) (\<lambda>b.
                 append b (''Connection: Keep-Alive'' @ kCRLF))) (\<lambda>b.
     rbind (rfold (\<lambda>h b.
              rbind (append b (fst h)) (\<lambda>b.
              rbind (append b '': '') (\<lambda>b.
              rbind (append b (snd h)) (\<lambda>b.
              append b kCRLF)))) (resp_headers r) b) (\<lambda>b.
     rbind (append b kCRLF) (\<lambda>b.
     append b (resp_body r)))))))))"

section \<open>The text of a response\<close>

definition status_line :: "http_response \<Rightarrow> string" where
  "status_line r = ''Http/1.'' @ (if resp_version r = resp_kHttp10 then ''0 '' else ''1 '') @
     to_string_int (code_number (stateCode r)) @ stateMessage r"

definition framing_headers :: "http_response \<Rightarrow> (string \<times> string) list" where
  "framing_headers r =
     (if closeConnection r then [(''Connection'', ''close'')]
      else [(''Content-Length'', to_string_nat (length (resp_body r))), (''Connection'', ''Keep-Alive'')])"

definition response_text :: "http_response \<Rightarrow> string" where
  "response_text r = status_line r @ kCRLF @ render_headers (framing_headers r @ resp_headers r) @ kCRLF @ resp_body r"

text \<open>The pieces appended one after another.\<close>

definition response_pieces :: "http_response \<Rightarrow> string list" where
  "response_pieces r =
     [''Http/1.'', if resp_version r = resp_kHttp10 then ''0 '' else ''1 '',
      to_string_int (code_number (stateCode r)), stateMessage r, kCRLF] @
     (if closeConnection r then [''Connection: close'' @ kCRLF]
      else [content_length_line (length (resp_body r)), ''Connection: Keep-Alive'' @ kCRLF]) @
     concat (map (\<lambda>h. [fst h, '': '', snd h, kCRLF]) (resp_headers r)) @ [kCRLF, resp_body r]"

lemma appendToBuffer_pieces: "appendToBuffer r b = rfold (\<lambda>d b. append b d) (response_pieces r) b"
proof -
  have h: "(\<lambda>h b. rbind (append b (fst h)) (\<lambda>b. rbind (append b '': '') (\<lambda>b. rbind (append b (snd h)) (\<lambda>b. append b kCRLF)))) =
      (\<lambda>h b. rfold (\<lambda>d b. append b d) [fst h, '': '', snd h, kCRLF] b)"
    by (simp add: rfold_eta)
  show ?thesis
    unfolding appendToBuffer_def h rfold_pieces response_pieces_def rfold_append
    by (simp add: rbind_assoc rfold_eta)
qed

lemma content_length_line_eq:
  assumes "n < 10 ^ 13"
  shows "content_length_line n = ''Content-Length: '' @ to_string_nat n @ kCRLF"
  using to_string_nat_length [of n 12] assms by (simp add: content_length_line_def kCRLF_def)

lemma concat_response_pieces:
  assumes "length (resp_body r) < 10 ^ 13"
  shows "concat (response_pieces r) = response_text r"
proof -
  have "concat (concat (map (\<lambda>h. [fst h, '': '', snd h, kCRLF]) hs)) = render_headers hs" for hs
    by (induction hs) (auto simp: render_headers_def)
  then show ?thesis
    using content_length_line_eq [OF assms]
    by (simp add: response_pieces_def response_text_def status_line_def framing_headers_def render_headers_def)
qed

lemma appendToBuffer_spec:
  assumes "buffer_inv b" and "write_pos b + length (response_text r) \<le> vector_max_size"
    and "length (resp_body r) < 10 ^ 13"
  shows "\<exists>b'. appendToBuffer r b = Inr b' \<and> buffer_inv b' \<and> content b' = content b @ response_text r"
  using buffer_queue.put_all [OF assms(1), of "response_pieces r"] assms(2)
  by (auto simp: appendToBuffer_pieces concat_response_pieces [OF assms(3)])

definition sample_response :: http_response where
  "sample_response = setContentType (setStateMessage (setStateCode (setResponseBody
     (HttpResponse_ctor False) ''hello'') k200_Ok) ''OK'') ''text/plain''"

section \<open>Properties\<close>

text \<open>
  \<^verbatim>\<open>appendToBuffer\<close> succeeds on a well-formed buffer with room for the text and appends exactly
  \<open>response_text\<close>: the status line, the framing headers, the response's own headers in key order, a
  blank line and the body.  (The bound on the body is where the 32-byte \<^verbatim>\<open>snprintf\<close> buffer would cut the
  \<^verbatim>\<open>Content-Length\<close> line.)\<close>
theorem appendToBuffer_correct:
  assumes "buffer_inv b" and "write_pos b + length (response_text r) \<le> vector_max_size"
    and "length (resp_body r) < 10 ^ 13"
  shows "\<exists>b'. appendToBuffer r b = Inr b' \<and> buffer_inv b' \<and> content b' = content b @ response_text r"
  using assms by (rule appendToBuffer_spec)

lemma sample_response_length: "length (response_text sample_response) \<le> 200"
  by (simp add: sample_response_def HttpResponse_ctor_def setContentType_def addResponseHeader_def setStateMessage_def
      setStateCode_def setResponseBody_def response_text_def status_line_def framing_headers_def render_headers_def
      kCRLF_def to_string_int_def to_string_nat.simps)

lemma sample_response_body: "resp_body sample_response = ''hello''" "closeConnection sample_response = False"
  "resp_headers sample_response = [(''Content-Type'', ''text/plain'')]"
  by (simp_all add: sample_response_def HttpResponse_ctor_def setContentType_def addResponseHeader_def setStateMessage_def
      setStateCode_def setResponseBody_def)

theorem appendToBuffer_correct_witness:
  "\<exists>b'. appendToBuffer sample_response new_buffer = Inr b' \<and> buffer_inv b' \<and>
     content b' = response_text sample_response"
  using appendToBuffer_correct [of new_buffer sample_response] sample_response_length
  by (simp add: sample_response_body vector_max_size_def write_pos_def new_buffer_def kCheapPrepend_def
      buffer_inv_def kInitialSize_def content_def)

text \<open>
  C26.  Framing.  \<^verbatim>\<open>appendToBuffer\<close> succeeds on a well-formed buffer with room for the text (and a body of less
  than \<open>10 ^ 13\<close> bytes) and adds behind what the buffer held the status line, a line end and a rest.  A
  client that splits this rest into header lines, up to the first line without a colon, is left with
  exactly the body; it finds in \<^verbatim>\<open>Connection\<close> whether the connection is kept, and on a connection kept
  alive in \<^verbatim>\<open>Content-Length\<close> the length of that body, in decimal.  The response's own headers must be
  well-formed and must not set \<^verbatim>\<open>Content-Length\<close> or \<^verbatim>\<open>Connection\<close> themselves.\<close>
theorem response_framing:
  assumes buf: "buffer_inv b" "write_pos b + length (response_text r) \<le> vector_max_size" "length (resp_body r) < 10 ^ 13"
    and hs: "\<forall>h \<in> set (resp_headers r). header_ok h"
    and own: "{''Content-Length'', ''Connection''} \<inter> fst ` set (resp_headers r) = {}"
  shows "\<exists>b' req rest. appendToBuffer r b = Inr b' \<and> buffer_inv b' \<and> content b' = content b @ status_line r @ kCRLF @ rest \<and>
    parse_headers HttpRequest_ctor rest = (req, True, resp_body r) \<and>
    getHeader req ''Connection'' = (if closeConnection r then ''close'' else ''Keep-Alive'') \<and>
    (\<not> closeConnection r \<longrightarrow> digits_value (getHeader req ''Content-Length'') = length (resp_body r))"
proof -
  let ?hs = "framing_headers r @ resp_headers r"
  define req where "req = HttpRequest_ctor\<lparr>headers := fold (\<lambda>(k, v). map_set k v) ?hs []\<rparr>"
  obtain b' where b': "appendToBuffer r b = Inr b'" "buffer_inv b'"
    "content b' = content b @ status_line r @ kCRLF @ render_headers ?hs @ kCRLF @ resp_body r"
    using appendToBuffer_spec [OF buf] by (auto simp: response_text_def)
  have "CHR 0x0D \<notin> set (to_string_nat n)" "trimmed (to_string_nat n)" for n
    using to_string_nat_no_space [of n] by (auto simp: isspace_def trimmed_def)
  then have "\<forall>h \<in> set ?hs. header_ok h"
    using hs by (auto simp: framing_headers_def header_ok_def trimmed_def isspace_def)
  then have p: "parse_headers HttpRequest_ctor (render_headers ?hs @ kCRLF @ resp_body r) = (req, True, resp_body r)"
    using parse_rendered_headers [of ?hs HttpRequest_ctor] by (simp add: HttpRequest_ctor_def req_def)
  have look: "map_of (headers req) = map_of (rev ?hs)"
    using std_map.look_fold_update(2) [of "[]" ?hs] by (simp add: req_def)
  have none: "map_of (rev (resp_headers r)) ''Content-Length'' = None"
    "map_of (rev (resp_headers r)) ''Connection'' = None"
    using own by (auto simp: map_of_eq_None_iff)
  have "getHeader req ''Connection'' = (if closeConnection r then ''close'' else ''Keep-Alive'')"
    "\<not> closeConnection r \<Longrightarrow> getHeader req ''Content-Length'' = to_string_nat (length (resp_body r))"
    unfolding getHeader_def look by (simp_all add: framing_headers_def map_add_def none)
  then show ?thesis
    using p b' by (intro exI [of _ b'] exI [of _ req] exI [of _ "render_headers ?hs @ kCRLF @ resp_body r"])
      (simp add: digits_value_to_string)
qed

theorem response_framing_witness:
  "\<exists>b' req rest. appendToBuffer sample_response new_buffer = Inr b' \<and> content b' = status_line sample_response @ kCRLF @ rest \<and>
     parse_headers HttpRequest_ctor rest = (req, True, ''hello'') \<and> digits_value (getHeader req ''Content-Length'') = 5"
proof -
  have hs: "\<forall>h \<in> set (resp_headers sample_response). header_ok h"
    "{''Content-Length'', ''Connection''} \<inter> fst ` set (resp_headers sample_response) = {}"
    by (simp_all add: sample_response_body header_ok_def trimmed_def isspace_def)
  have "write_pos new_buffer + length (response_text sample_response) \<le> vector_max_size"
    using sample_response_length by (simp add: vector_max_size_def write_pos_def new_buffer_def kCheapPrepend_def)
  then obtain b' req rest where "appendToBuffer sample_response new_buffer = Inr b'"
    "content b' = content new_buffer @ status_line sample_response @ kCRLF @ rest"
    "parse_headers HttpRequest_ctor rest = (req, True, resp_body sample_response)"
    "\<not> closeConnection sample_response \<longrightarrow> digits_value (getHeader req ''Content-Length'') = length (resp_body sample_response)"
    using response_framing [OF buffer_inv_new _ _ hs] sample_response_body(1) by force
  then show ?thesis
    unfolding sample_response_body by (intro exI [of _ b'] exI [of _ req] exI [of _ rest]) simp
qed

end
