(* ===== verification/Channel.thy ===== *)
theory Channel
  imports Timestamp
begin

text \<open>
  Model of \<^verbatim>\<open>ham/net/Channel.{h,cc}\<close>: the event mask of a file descriptor, its registration status and
  the dispatch of returned events.  The operations that go through the loop (\<^verbatim>\<open>enableReading\<close> and the
  like) are in theory \<open>EventLoop\<close>.  Masks are 32-bit words; the constants are those of \<^verbatim>\<open>sys/epoll.h\<close>.
\<close>

unbundle bit_operations_syntax

type_synonym event_mask = "32 word"

definition EPOLLIN :: event_mask where "EPOLLIN = 0x001"
definition EPOLLPRI :: event_mask where "EPOLLPRI = 0x002"
definition EPOLLOUT :: event_mask where "EPOLLOUT = 0x004"
definition EPOLLERR :: event_mask where "EPOLLERR = 0x008"
definition EPOLLHUP :: event_mask where "EPOLLHUP = 0x010"
definition EPOLLRDHUP :: event_mask where "EPOLLRDHUP = 0x2000"

lemmas epoll_defs = EPOLLIN_def EPOLLPRI_def EPOLLOUT_def EPOLLERR_def EPOLLHUP_def EPOLLRDHUP_def

definition kReadEvent :: event_mask where "kReadEvent = EPOLLIN OR EPOLLPRI"
definition kWriteEvent :: event_mask where "kWriteEvent = EPOLLOUT"
definition kNoneEvent :: event_mask where "kNoneEvent = 0"

datatype channel_status = kNew | kAdded | kDismissed

text \<open>\<open>readCb\<close> and the others say whether a callback is set; \<open>tie\<close> is the address of the tied object.\<close>

record channel =
  ownerLoop :: nat
  fd :: int
  event :: event_mask
  revent :: event_mask
  status :: channel_status
  isHandlingEvent :: bool
  tie :: nat
  tied :: bool
  readCb :: bool
  writeCb :: bool
  closeCb :: bool
  errorCb :: bool

definition Channel_ctor :: "nat \<Rightarrow> int \<Rightarrow> channel" where
  "Channel_ctor loop f = \<lparr>ownerLoop = loop, fd = f, event = 0, revent = 0, status = kNew, isHandlingEvent = False,
     tie = 0, tied = False, readCb = False, writeCb = False, closeCb = False, errorCb = False\<rparr>"

definition Channel_dtor :: "channel \<Rightarrow> unit result" where
  "Channel_dtor c = assert_that (\<not> isHandlingEvent c) ''!isHandlingEvent_'' (Inr ())"

definition setStatus :: "channel_status \<Rightarrow> channel \<Rightarrow> channel" where
  "setStatus s c = c\<lparr>status := s\<rparr>"

definition setRevent :: "event_mask \<Rightarrow> channel \<Rightarrow> channel" where
  "setRevent r c = c\<lparr>revent := r\<rparr>"

definition isWriting :: "channel \<Rightarrow> bool" where
  "isWriting c \<longleftrightarrow> event c AND kWriteEvent \<noteq> 0"

definition isNoneEvent :: "channel \<Rightarrow> bool" where
  "isNoneEvent c \<longleftrightarrow> event c = kNoneEvent"

definition tie_channel :: "nat \<Rightarrow> channel \<Rightarrow> channel" where
  "tie_channel obj c = c\<lparr>tie := obj, tied := True\<rparr>"

text \<open>The new masks of \<^verbatim>\<open>enableReading\<close>, \<^verbatim>\<open>enableWriting\<close>, \<^verbatim>\<open>disableWriting\<close> and \<^verbatim>\<open>disableAll\<close>.\<close>

definition read_on :: "channel \<Rightarrow> channel" where
  "read_on c = c\<lparr>event := event c OR kReadEvent\<rparr>"

definition write_on :: "channel \<Rightarrow> channel" where
  "write_on c = c\<lparr>event := event c OR kWriteEvent\<rparr>"

definition write_off :: "channel \<Rightarrow> channel" where
  "write_off c = c\<lparr>event := event c AND NOT kWriteEvent\<rparr>"

definition all_off :: "channel \<Rightarrow> channel" where
  "all_off c = c\<lparr>event := kNoneEvent\<rparr>"

definition eventsToString :: "int \<Rightarrow> event_mask \<Rightarrow> string" where
  "eventsToString f ev = to_string_int f @ '': '' @
     (if ev AND EPOLLIN \<noteq> 0 then ''IN '' else []) @
     (if ev AND EPOLLPRI \<noteq> 0 then ''PRI '' else []) @
     (if ev AND EPOLLOUT \<noteq> 0 then ''OUT '' else []) @
     (if ev AND EPOLLHUP \<noteq> 0 then ''HUP '' else []) @
     (if ev AND EPOLLRDHUP \<noteq> 0 then ''RDHUP '' else []) @
     (if ev AND EPOLLERR \<noteq> 0 then ''ERR '' else [])"

section \<open>Dispatch\<close>

datatype channel_cb = CloseCb | ErrorCb | ReadCb | WriteCb

text \<open>The test of \<^verbatim>\<open>handleEventWithGuard\<close> in front of each callback.\<close>

fun cb_due :: "channel_cb \<Rightarrow> channel \<Rightarrow> bool" where
  "cb_due CloseCb c \<longleftrightarrow> revent c AND EPOLLHUP \<noteq> 0 \<and> \<not> revent c AND EPOLLIN \<noteq> 0 \<and> closeCb c"
| "cb_due ErrorCb c \<longleftrightarrow> revent c AND EPOLLERR \<noteq> 0 \<and> errorCb c"
| "cb_due ReadCb c \<longleftrightarrow> revent c AND (EPOLLIN OR EPOLLPRI OR EPOLLRDHUP) \<noteq> 0 \<and> readCb c"
| "cb_due WriteCb c \<longleftrightarrow> revent c AND EPOLLOUT \<noteq> 0 \<and> writeCb c"

section \<open>Lemmas\<close>

lemma isWriting_bit: "isWriting c \<longleftrightarrow> bit (event c) 2"
  using and_exp_eq_0_iff_not_bit [of "event c" 2] by (simp add: isWriting_def kWriteEvent_def EPOLLOUT_def)

lemma isWriting_simps [flag_simps]:
  "isWriting (read_on c) \<longleftrightarrow> isWriting c" "isWriting (write_on c)" "\<not> isWriting (write_off c)"
  "\<not> isWriting (all_off c)"
  by (simp_all add: isWriting_bit read_on_def write_on_def write_off_def all_off_def kReadEvent_def kWriteEvent_def
      kNoneEvent_def epoll_defs bit_simps)

lemma isWriting_frame [simp]:
  "isWriting (c\<lparr>status := s\<rparr>) = isWriting c" "isWriting (c\<lparr>revent := r\<rparr>) = isWriting c"
  "isWriting (c\<lparr>isHandlingEvent := b\<rparr>) = isWriting c" "isWriting (c\<lparr>tie := o', tied := b\<rparr>) = isWriting c"
  by (simp_all add: isWriting_def)

lemma masks_fd [simp]:
  "fd (read_on c) = fd c" "fd (write_on c) = fd c" "fd (write_off c) = fd c" "fd (all_off c) = fd c"
  "status (read_on c) = status c" "status (write_on c) = status c" "status (write_off c) = status c"
  "status (all_off c) = status c"
  "ownerLoop (read_on c) = ownerLoop c" "ownerLoop (write_on c) = ownerLoop c"
  "ownerLoop (write_off c) = ownerLoop c" "ownerLoop (all_off c) = ownerLoop c"
  by (simp_all add: read_on_def write_on_def write_off_def all_off_def)

end
