(* ===== verification/Epoller.thy ===== *)
theory Epoller
  imports Channel
begin

text \<open>
  Model of \<^verbatim>\<open>ham/net/Epoller.{h,cc}\<close>.  The state holds the heap of \<^verbatim>\<open>Channel\<close> objects by address, the map
  from descriptors to channels and the size of the event array.  The kernel is a parameter: \<open>kern\<close> is its
  state, \<open>epoll_ctl\<close> and \<open>epoll_wait\<close> are arguments of the operations that call them, and what
  the code relies on is the predicate \<open>epoll_laws\<close> below.  \<open>tid\<close> is the thread that runs the operation.
\<close>

section \<open>State\<close>

record loop_thread =
  threadId :: int

record 'k epoller = loop_thread +
  channels :: "(nat, channel) std_map"
  channelMap :: "(int, nat) std_map"
  eventListSize :: nat
  kern :: 'k

datatype epoll_op = EPOLL_CTL_ADD | EPOLL_CTL_DEL | EPOLL_CTL_MOD

text \<open>\<^verbatim>\<open>epoll_ctl\<close>: operation, descriptor, events and user pointer; whether it returned 0.\<close>

type_synonym 'k epoll_ctl_fn = "epoll_op \<Rightarrow> int \<Rightarrow> event_mask \<Rightarrow> nat \<Rightarrow> 'k \<Rightarrow> bool \<times> 'k"

text \<open>\<^verbatim>\<open>epoll_wait\<close> with room for a number of events: the error number or pointer and events of each.\<close>

type_synonym 'k epoll_wait_fn = "nat \<Rightarrow> 'k \<Rightarrow> int + (nat \<times> event_mask) list"

definition kInitEventListSize :: nat where
  "kInitEventListSize = 16"

definition Epoller_ctor :: "int \<Rightarrow> 'k \<Rightarrow> 'k epoller" where
  "Epoller_ctor tid k =
     \<lparr>threadId = tid, channels = [], channelMap = [], eventListSize = kInitEventListSize, kern = k\<rparr>"

definition isInLoopThread :: "int \<Rightarrow> 'a loop_thread_scheme \<Rightarrow> bool" where
  "isInLoopThread tid l \<longleftrightarrow> threadId l = tid"

definition abortNotInLoopThread :: "'b result" where
  "abortNotInLoopThread = Inl (CriticalAbort ''EventLoop::abortNotInLoopThread'')"

definition assertInLoopThread :: "int \<Rightarrow> 'a loop_thread_scheme \<Rightarrow> 'b result \<Rightarrow> 'b result" where
  "assertInLoopThread tid l k = (if isInLoopThread tid l then k else abortNotInLoopThread)"

definition chan_at :: "nat \<Rightarrow> ('k, 'z) epoller_scheme \<Rightarrow> channel result" where
  "chan_at a s = (case map_of (channels s) a of None \<Rightarrow> Inl NullDereference | Some c \<Rightarrow> Inr c)"

definition set_chan :: "nat \<Rightarrow> channel \<Rightarrow> ('k, 'z) epoller_scheme \<Rightarrow> ('k, 'z) epoller_scheme" where
  "set_chan a c s = s\<lparr>channels := map_set a c (channels s)\<rparr>"

section \<open>Operations\<close>

fun operationToString :: "epoll_op \<Rightarrow> string" where
  "operationToString EPOLL_CTL_ADD = ''ADD''"
| "operationToString EPOLL_CTL_DEL = ''DEL''"
| "operationToString EPOLL_CTL_MOD = ''MOD''"

definition update :: "'k epoll_ctl_fn \<Rightarrow> epoll_op \<Rightarrow> nat \<Rightarrow> ('k, 'z) epoller_scheme \<Rightarrow> ('k, 'z) epoller_scheme result" where
  "update epoll_ctl op a s =
     rbind (chan_at a s) (\<lambda>c.
       let (ok, k) = epoll_ctl op (fd c) (event c) a (kern s); s' = s\<lparr>kern := k\<rparr>
       in if ok then Inr s'
          else if op = EPOLL_CTL_DEL then Inr s'
          else Inl (CriticalAbort ''epoll_ctl''))"

definition poller_updateChannel ::
  "'k epoll_ctl_fn \<Rightarrow> int \<Rightarrow> nat \<Rightarrow> ('k, 'z) epoller_scheme \<Rightarrow> ('k, 'z) epoller_scheme result" where
  "poller_updateChannel epoll_ctl tid a s =
     assertInLoopThread tid s
     (rbind (chan_at a s) (\<lambda>c.
        let f = fd c; m = channelMap s in
        if status c = kNew \<or> status c = kDismissed then
          rbind (if status c = kNew
                 then assert_that (map_of m f = None) ''channelMap_.find(fd) == channelMap_.end()''
                      (Inr (s\<lparr>channelMap := map_set f a m\<rparr>))
                 else assert_that (map_of m f \<noteq> None) ''channelMap_.find(fd) != channelMap_.end()''
                      (assert_that (map_of m f = Some a) ''channelMap_[fd] == channel'' (Inr s)))
            (\<lambda>s1. update epoll_ctl EPOLL_CTL_ADD a (set_chan a (setStatus kAdded c) s1))
        else
          assert_that (map_of m f \<noteq> None) ''channelMap_.find(fd) != channelMap_.end()''
          (assert_that (map_of m f = Some a) ''channelMap_[fd] == channel''
          (assert_that (status c = kAdded) ''status == Channel::status::kAdded''
          (if isNoneEvent c
           then rbind (update epoll_ctl EPOLL_CTL_DEL a s) (\<lambda>s1. Inr (set_chan a (setStatus kDismissed c) s1))
           else update epoll_ctl EPOLL_CTL_MOD a s)))))"

definition poller_removeChannel ::
  "'k epoll_ctl_fn \<Rightarrow> int \<Rightarrow> nat \<Rightarrow> ('k, 'z) epoller_scheme \<Rightarrow> ('k, 'z) epoller_scheme result" where
  "poller_removeChannel epoll_ctl tid a s =
     assertInLoopThread tid s
     (rbind (chan_at a s) (\<lambda>c.
        let f = fd c; m = channelMap s in
        assert_that (isNoneEvent c) ''channel->isNoneEvent()''
        (assert_that (map_of m f \<noteq> None) ''channelMap_.find(fd) != channelMap_.end()''
        (assert_that (map_of m f = Some a) ''channelMap_[fd] == channel''
        (assert_that (status c = kAdded \<or> status c = kDismissed) ''status == kAdded || status == kDismissed''
        (let s1 = s\<lparr>channelMap := map_erase f m\<rparr> in
         rbind (if status c = kAdded then update epoll_ctl EPOLL_CTL_DEL a s1 else Inr s1) (\<lambda>s2.
           Inr (set_chan a (setStatus kNew c) s2))))))))"

text \<open>The loop of \<^verbatim>\<open>fillActiveChannels\<close>, with the channels collected so far.\<close>

definition fill_one :: "nat \<times> event_mask \<Rightarrow> nat list \<times> ('k, 'z) epoller_scheme \<Rightarrow> (nat list \<times> ('k, 'z) epoller_scheme) result" where
  "fill_one ev st = (let (a, events) = ev; (active, s) = st in
     rbind (chan_at a s) (\<lambda>c.
       assert_that (map_of (channelMap s) (fd c) \<noteq> None) ''it != channelMap_.end()''
       (assert_that (map_of (channelMap s) (fd c) = Some a) ''it->second == channel''
       (Inr (active @ [a], set_chan a (setRevent events c) s)))))"

definition fillActiveChannels ::
  "(nat \<times> event_mask) list \<Rightarrow> nat list \<Rightarrow> ('k, 'z) epoller_scheme \<Rightarrow> (nat list \<times> ('k, 'z) epoller_scheme) result" where
  "fillActiveChannels events active s =
     assert_that (length events \<le> eventListSize s) ''numOfEvents <= retEpoll_event_.size()''
     (rfold fill_one events (active, s))"

definition wait ::
  "'k epoll_wait_fn \<Rightarrow> timestamp \<Rightarrow> nat list \<Rightarrow> ('k, 'z) epoller_scheme \<Rightarrow>
   (timestamp \<times> nat list \<times> ('k, 'z) epoller_scheme) result" where
  "wait epoll_wait now active s =
     (case epoll_wait (eventListSize s) (kern s) of
        Inl savedErrno \<Rightarrow> Inr (now, active, s)
      | Inr events \<Rightarrow>
          if 0 < length events then
            rbind (fillActiveChannels events active s) (\<lambda>(active', s1).
              Inr (now, active', if length events = eventListSize s1
                                 then s1\<lparr>eventListSize := eventListSize s1 * 2\<rparr> else s1))
          else Inr (now, active, s))"

section \<open>Kernel and invariant\<close>

text \<open>
  What the code relies on of \<^verbatim>\<open>epoll_ctl\<close> for a pollable descriptor, over the interest list \<open>reg\<close> that the
  kernel keeps per descriptor: adding a descriptor that is not in the list, and changing or deleting
  one that is, succeed and do just that.
\<close>

definition epoll_laws :: "'k epoll_ctl_fn \<Rightarrow> ('k \<Rightarrow> int \<Rightarrow> (event_mask \<times> nat) option) \<Rightarrow> bool" where
  "epoll_laws epoll_ctl reg \<longleftrightarrow> (\<forall>k f ev a.
     (reg k f = None \<longrightarrow> fst (epoll_ctl EPOLL_CTL_ADD f ev a k) \<and>
        reg (snd (epoll_ctl EPOLL_CTL_ADD f ev a k)) = (reg k)(f \<mapsto> (ev, a))) \<and>
     (reg k f \<noteq> None \<longrightarrow> fst (epoll_ctl EPOLL_CTL_MOD f ev a k) \<and>
        reg (snd (epoll_ctl EPOLL_CTL_MOD f ev a k)) = (reg k)(f \<mapsto> (ev, a))) \<and>
     (reg k f \<noteq> None \<longrightarrow> fst (epoll_ctl EPOLL_CTL_DEL f ev a k) \<and>
        reg (snd (epoll_ctl EPOLL_CTL_DEL f ev a k)) = (reg k)(f := None)))"

text \<open>Status, channel map and interest list of one channel agree.\<close>

fun channel_registered ::
  "channel_status \<Rightarrow> nat \<Rightarrow> event_mask \<Rightarrow> nat option \<Rightarrow> (event_mask \<times> nat) option \<Rightarrow> bool" where
  "channel_registered kNew a ev owner interest \<longleftrightarrow> owner \<noteq> Some a"
| "channel_registered kAdded a ev owner interest \<longleftrightarrow> owner = Some a \<and> interest = Some (ev, a)"
| "channel_registered kDismissed a ev owner interest \<longleftrightarrow> owner = Some a \<and> interest = None \<and> ev = kNoneEvent"

definition poller_inv :: "('k \<Rightarrow> int \<Rightarrow> (event_mask \<times> nat) option) \<Rightarrow> ('k, 'z) epoller_scheme \<Rightarrow> bool" where
  "poller_inv reg s \<longleftrightarrow> map_ok (channelMap s) \<and>
     (\<forall>a c. map_of (channels s) a = Some c \<longrightarrow>
        channel_registered (status c) a (event c) (map_of (channelMap s) (fd c)) (reg (kern s) (fd c))) \<and>
     (\<forall>f a. map_of (channelMap s) f = Some a \<longrightarrow> (\<exists>c. map_of (channels s) a = Some c \<and> fd c = f \<and> status c \<noteq> kNew)) \<and>
     (\<forall>f. reg (kern s) f \<noteq> None \<longrightarrow> map_of (channelMap s) f \<noteq> None)"

lemma chan_at_Some: "map_of (channels s) a = Some c \<Longrightarrow> chan_at a s = Inr c"
  by (simp add: chan_at_def)

lemma set_chan_simps [simp]:
  "map_of (channels (set_chan a c s)) = (map_of (channels s))(a \<mapsto> c)"
  "channelMap (set_chan a c s) = channelMap s" "kern (set_chan a c s) = kern s"
  "threadId (set_chan a c s) = threadId s" "eventListSize (set_chan a c s) = eventListSize s"
  "epoller.more (set_chan a c s) = epoller.more s"
  by (simp_all add: set_chan_def map_of_map_set)

lemma setStatus_simps [simp]:
  "fd (setStatus st c) = fd c" "event (setStatus st c) = event c" "status (setStatus st c) = st"
  "isWriting (setStatus st c) = isWriting c" "ownerLoop (setStatus st c) = ownerLoop c"
  "isNoneEvent (setStatus st c) = isNoneEvent c"
  by (simp_all add: setStatus_def isNoneEvent_def)

lemma assertInLoopThread_simps [simp]:
  "threadId l = tid \<Longrightarrow> assertInLoopThread tid l k = k"
  "threadId l \<noteq> tid \<Longrightarrow> assertInLoopThread tid l k = abortNotInLoopThread"
  by (simp_all add: assertInLoopThread_def isInLoopThread_def)

lemma poller_inv_empty: "reg k = Map.empty \<Longrightarrow> poller_inv reg (Epoller_ctor tid k)"
  by (simp add: poller_inv_def Epoller_ctor_def)

lemma poller_invD:
  assumes "poller_inv reg s" and "map_of (channels s) a = Some c"
  shows "channel_registered (status c) a (event c) (map_of (channelMap s) (fd c)) (reg (kern s) (fd c))"
  using assms unfolding poller_inv_def by blast


text \<open>An operation on one channel keeps the invariant if it keeps it for that channel.\<close>

lemma poller_inv_step:
  assumes inv: "poller_inv reg s" and c: "map_of (channels s) a = Some c"
    and own: "map_of (channelMap s) (fd c) \<in> {None, Some a}"
    and ch: "map_of (channels s') = (map_of (channels s))(a \<mapsto> c')" and f: "fd c' = fd c"
    and ok: "map_ok (channelMap s')"
    and cm: "map_of (channelMap s') = (map_of (channelMap s))(fd c := owner)"
    and rg: "reg (kern s') = (reg (kern s))(fd c := interest)"
    and reg': "channel_registered (status c') a (event c') owner interest"
    and ow: "owner = (if status c' = kNew then None else Some a)" "owner = None \<Longrightarrow> interest = None"
  shows "poller_inv reg s'"
proof -
  have new: "status d = kNew" if "map_of (channels s) b = Some d" "b \<noteq> a" "fd d = fd c" for b d
    using poller_invD [OF inv that(1)] own that by (cases "status d") auto
  have "channel_registered (status d) b (event d) (map_of (channelMap s') (fd d)) (reg (kern s') (fd d))"
    if d: "map_of (channels s') b = Some d" for b d
  proof (cases "b = a")
    case True
    with d have "d = c'" by (simp add: ch)
    with True reg' f show ?thesis by (simp add: cm rg)
  next
    case False
    with d have d0: "map_of (channels s) b = Some d" by (simp add: ch)
    show ?thesis
      using poller_invD [OF inv d0] new [OF d0 False] False ow(1) by (cases "fd d = fd c") (auto simp: cm rg)
  qed
  moreover have "\<exists>d. map_of (channels s') b = Some d \<and> fd d = g \<and> status d \<noteq> kNew"
    if g: "map_of (channelMap s') g = Some b" for g b
  proof (cases "g = fd c")
    case True
    with g ow(1) show ?thesis by (auto simp: cm ch f split: if_splits)
  next
    case False
    with g have "map_of (channelMap s) g = Some b" by (simp add: cm)
    with inv obtain d where "map_of (channels s) b = Some d" "fd d = g" "status d \<noteq> kNew"
      unfolding poller_inv_def by blast
    with False c show ?thesis by (auto simp: ch)
  qed
  moreover have "map_of (channelMap s') g \<noteq> None" if "reg (kern s') g \<noteq> None" for g
    using that inv ow(2) unfolding poller_inv_def by (cases "g = fd c") (auto simp: cm rg)
  ultimately show ?thesis using ok unfolding poller_inv_def by blast
qed

lemma update_spec:
  assumes laws: "epoll_laws epoll_ctl reg" and c: "map_of (channels s) a = Some c"
    and pre: "(reg (kern s) (fd c) = None) = (op = EPOLL_CTL_ADD)"
  obtains k where "update epoll_ctl op a s = Inr (s\<lparr>kern := k\<rparr>)"
    "reg k = (reg (kern s))(fd c := if op = EPOLL_CTL_DEL then None else Some (event c, a))"
proof -
  let ?r = "epoll_ctl op (fd c) (event c) a (kern s)"
  have "fst ?r" "reg (snd ?r) = (reg (kern s))(fd c := if op = EPOLL_CTL_DEL then None else Some (event c, a))"
    using laws pre unfolding epoll_laws_def by (cases op; simp)+
  then show ?thesis
    by (intro that [of "snd ?r"]) (simp_all add: update_def chan_at_Some [OF c] split_beta Let_def)
qed

text \<open>Status after \<^verbatim>\<open>updateChannel\<close>.\<close>

definition next_status :: "channel_status \<Rightarrow> event_mask \<Rightarrow> channel_status" where
  "next_status st ev = (if st = kAdded \<and> ev = kNoneEvent then kDismissed else kAdded)"

definition after_update ::
  "('k \<Rightarrow> int \<Rightarrow> (event_mask \<times> nat) option) \<Rightarrow> nat \<Rightarrow> channel \<Rightarrow> event_mask \<Rightarrow>
   ('k, 'z) epoller_scheme \<Rightarrow> ('k, 'z) epoller_scheme \<Rightarrow> bool" where
  "after_update reg a c ev s s' \<longleftrightarrow> poller_inv reg s' \<and>
     map_of (channels s') = (map_of (channels s))(a \<mapsto> c\<lparr>event := ev, status := next_status (status c) ev\<rparr>) \<and>
     map_of (channelMap s') = (map_of (channelMap s))(fd c \<mapsto> a) \<and>
     reg (kern s') = (reg (kern s))(fd c := if next_status (status c) ev = kAdded then Some (ev, a) else None) \<and>
     threadId s' = threadId s \<and> eventListSize s' = eventListSize s \<and> epoller.more s' = epoller.more s"

lemma updateChannel_spec:
  assumes inv: "poller_inv reg s" and laws: "epoll_laws epoll_ctl reg" and tid: "threadId s = tid"
    and c: "map_of (channels s) a = Some c"
    and new: "status c = kNew \<Longrightarrow> map_of (channelMap s) (fd c) = None"
  obtains s' where "poller_updateChannel epoll_ctl tid a (set_chan a (c\<lparr>event := ev\<rparr>) s) = Inr s'"
    "after_update reg a c ev s s'"
proof -
  let ?c = "c\<lparr>event := ev\<rparr>"
  let ?s = "set_chan a ?c s"
  note r = poller_invD [OF inv c]
  have own: "map_of (channelMap s) (fd c) \<in> {None, Some a}" using r new by (cases "status c") auto
  have mok: "map_ok (channelMap s)" using inv by (simp add: poller_inv_def)
  note step = poller_inv_step [OF inv c own]
  show ?thesis
  proof (cases "status c")
    case kNew
    then have m: "map_of (channelMap s) (fd c) = None" by (rule new)
    then have "reg (kern s) (fd c) = None" using inv unfolding poller_inv_def by blast
    let ?s1 = "set_chan a (setStatus kAdded ?c) (?s\<lparr>channelMap := map_set (fd c) a (channelMap s)\<rparr>)"
    obtain k where k: "update epoll_ctl EPOLL_CTL_ADD a ?s1 = Inr (?s1\<lparr>kern := k\<rparr>)"
      "reg k = (reg (kern s))(fd c := Some (ev, a))"
      by (rule update_spec [OF laws, of ?s1 a "setStatus kAdded ?c" EPOLL_CTL_ADD])
        (use \<open>reg (kern s) (fd c) = None\<close> in simp_all)
    have "poller_inv reg (?s1\<lparr>kern := k\<rparr>)"
      by (rule step [where c' = "setStatus kAdded ?c" and owner = "Some a" and interest = "Some (ev, a)"])
        (use k mok in \<open>simp_all add: map_of_map_set map_ok_set\<close>)
    with k kNew m tid show ?thesis
      by (intro that [of "?s1\<lparr>kern := k\<rparr>"])
        (simp_all add: poller_updateChannel_def chan_at_def after_update_def next_status_def map_of_map_set
          setStatus_def Let_def)
  next
    case kAdded
    with r have m: "map_of (channelMap s) (fd c) = Some a" "reg (kern s) (fd c) = Some (event c, a)" by simp_all
    show ?thesis
    proof (cases "ev = kNoneEvent")
      case True
      obtain k where k: "update epoll_ctl EPOLL_CTL_DEL a ?s = Inr (?s\<lparr>kern := k\<rparr>)"
        "reg k = (reg (kern s))(fd c := None)"
        by (rule update_spec [OF laws, of ?s a ?c EPOLL_CTL_DEL]) (use m in simp_all)
      let ?s' = "set_chan a (setStatus kDismissed ?c) (?s\<lparr>kern := k\<rparr>)"
      have "poller_inv reg ?s'"
        by (rule step [where c' = "setStatus kDismissed ?c" and owner = "Some a" and interest = None])
          (use k m mok True in auto)
      with k kAdded m tid True show ?thesis
        by (intro that [of ?s'])
          (simp_all add: poller_updateChannel_def chan_at_def after_update_def next_status_def setStatus_def
            isNoneEvent_def fun_upd_idem Let_def)
    next
      case False
      obtain k where k: "update epoll_ctl EPOLL_CTL_MOD a ?s = Inr (?s\<lparr>kern := k\<rparr>)"
        "reg k = (reg (kern s))(fd c := Some (ev, a))"
        by (rule update_spec [OF laws, of ?s a ?c EPOLL_CTL_MOD]) (use m in simp_all)
      have st: "c\<lparr>event := ev, status := kAdded\<rparr> = ?c" using kAdded by (cases c) simp
      have "poller_inv reg (?s\<lparr>kern := k\<rparr>)"
        by (rule step [where c' = ?c and owner = "Some a" and interest = "Some (ev, a)"])
          (use k m mok kAdded in auto)
      with k kAdded m tid False show ?thesis
        by (intro that [of "?s\<lparr>kern := k\<rparr>"])
          (simp_all add: poller_updateChannel_def chan_at_def after_update_def next_status_def st
            isNoneEvent_def fun_upd_idem Let_def)
    qed
  next
    case kDismissed
    with r have m: "map_of (channelMap s) (fd c) = Some a" "reg (kern s) (fd c) = None" by simp_all
    let ?s1 = "set_chan a (setStatus kAdded ?c) ?s"
    obtain k where k: "update epoll_ctl EPOLL_CTL_ADD a ?s1 = Inr (?s1\<lparr>kern := k\<rparr>)"
      "reg k = (reg (kern s))(fd c := Some (ev, a))"
      by (rule update_spec [OF laws, of ?s1 a "setStatus kAdded ?c" EPOLL_CTL_ADD]) (use m in simp_all)
    have "poller_inv reg (?s1\<lparr>kern := k\<rparr>)"
      by (rule step [where c' = "setStatus kAdded ?c" and owner = "Some a" and interest = "Some (ev, a)"])
        (use k m mok in auto)
    with k kDismissed m tid show ?thesis
      by (intro that [of "?s1\<lparr>kern := k\<rparr>"])
        (simp_all add: poller_updateChannel_def chan_at_def after_update_def next_status_def setStatus_def
          fun_upd_idem Let_def)
  qed
qed


definition after_remove ::
  "('k \<Rightarrow> int \<Rightarrow> (event_mask \<times> nat) option) \<Rightarrow> nat \<Rightarrow> channel \<Rightarrow>
   ('k, 'z) epoller_scheme \<Rightarrow> ('k, 'z) epoller_scheme \<Rightarrow> bool" where
  "after_remove reg a c s s' \<longleftrightarrow> poller_inv reg s' \<and>
     map_of (channels s') = (map_of (channels s))(a \<mapsto> c\<lparr>status := kNew\<rparr>) \<and>
     map_of (channelMap s') = (map_of (channelMap s))(fd c := None) \<and>
     reg (kern s') = (reg (kern s))(fd c := None) \<and>
     threadId s' = threadId s \<and> eventListSize s' = eventListSize s \<and> epoller.more s' = epoller.more s"

lemma removeChannel_spec:
  assumes inv: "poller_inv reg s" and laws: "epoll_laws epoll_ctl reg" and tid: "threadId s = tid"
    and c: "map_of (channels s) a = Some c" and none: "event c = kNoneEvent" and st: "status c \<noteq> kNew"
  obtains s' where "poller_removeChannel epoll_ctl tid a s = Inr s'" "after_remove reg a c s s'"
proof -
  note r = poller_invD [OF inv c]
  have m: "map_of (channelMap s) (fd c) = Some a" using r st by (cases "status c") simp_all
  have mok: "map_ok (channelMap s)" using inv by (simp add: poller_inv_def)
  let ?s1 = "s\<lparr>channelMap := map_erase (fd c) (channelMap s)\<rparr>"
  obtain s2 where s2: "(if status c = kAdded then update epoll_ctl EPOLL_CTL_DEL a ?s1 else Inr ?s1) = Inr s2"
    "channels s2 = channels s" "channelMap s2 = channelMap ?s1" "reg (kern s2) = (reg (kern s))(fd c := None)"
    "threadId s2 = threadId s" "eventListSize s2 = eventListSize s" "epoller.more s2 = epoller.more s"
  proof (cases "status c = kAdded")
    case True
    obtain k where k: "update epoll_ctl EPOLL_CTL_DEL a ?s1 = Inr (?s1\<lparr>kern := k\<rparr>)"
      "reg k = (reg (kern s))(fd c := None)"
      by (rule update_spec [OF laws, of ?s1 a c EPOLL_CTL_DEL]) (use r True c in simp_all)
    with True show ?thesis by (intro that [of "?s1\<lparr>kern := k\<rparr>"]) simp_all
  next
    case False
    with st have "status c = kDismissed" by (cases "status c") simp_all
    with r False show ?thesis by (intro that [of ?s1]) (simp_all add: fun_upd_idem)
  qed
  let ?s' = "set_chan a (setStatus kNew c) s2"
  have "poller_inv reg ?s'"
    by (rule poller_inv_step [OF inv c, where c' = "setStatus kNew c" and owner = None and interest = None])
      (use s2 m mok in \<open>simp_all add: map_of_map_erase map_ok_erase\<close>)
  with s2 m mok st none tid show ?thesis
    by (intro that [of ?s'])
      (auto simp: poller_removeChannel_def chan_at_Some [OF c] after_remove_def isNoneEvent_def setStatus_def
        map_of_map_erase Let_def intro: channel_status.exhaust [of "status c"])
qed

text \<open>Fields of a channel that do not take part in its registration.\<close>

lemma poller_inv_set_chan:
  assumes inv: "poller_inv reg s" and c: "map_of (channels s) a = Some c"
    and same: "fd c' = fd c" "event c' = event c" "status c' = status c"
  shows "poller_inv reg (set_chan a c' s)"
proof -
  have "\<exists>d. ((map_of (channels s))(a \<mapsto> c')) b = Some d \<and> fd d = f \<and> status d \<noteq> kNew"
    if "map_of (channelMap s) f = Some b" for f b
    using inv that c same unfolding poller_inv_def by (cases "b = a") fastforce+
  with inv c same show ?thesis
    unfolding poller_inv_def by simp
qed

text \<open>What the kernel reports belongs to registered channels.\<close>

definition events_ok :: "('k, 'z) epoller_scheme \<Rightarrow> (nat \<times> event_mask) list \<Rightarrow> bool" where
  "events_ok s evs \<longleftrightarrow> distinct (map fst evs) \<and>
     (\<forall>(a, ev) \<in> set evs. \<exists>c. map_of (channels s) a = Some c \<and> map_of (channelMap s) (fd c) = Some a)"

lemma fill_spec:
  assumes "poller_inv reg s" and "events_ok s evs"
  obtains s' where "rfold fill_one evs (active, s) = Inr (active @ map fst evs, s')" "poller_inv reg s'"
    "\<And>a. map_of (channels s') a =
       (case map_of evs a of None \<Rightarrow> map_of (channels s) a
        | Some ev \<Rightarrow> map_option (\<lambda>c. c\<lparr>revent := ev\<rparr>) (map_of (channels s) a))"
    "channelMap s' = channelMap s" "kern s' = kern s" "threadId s' = threadId s"
    "eventListSize s' = eventListSize s" "epoller.more s' = epoller.more s"
  using assms
proof (induction evs arbitrary: active s thesis)
  case Nil
  then show ?case by simp
next
  case (Cons e evs)
  obtain a ev where e: "e = (a, ev)" by (cases e)
  from Cons.prems(3) e obtain c where c: "map_of (channels s) a = Some c" "map_of (channelMap s) (fd c) = Some a"
    by (auto simp: events_ok_def)
  let ?s = "set_chan a (setRevent ev c) s"
  have inv: "poller_inv reg ?s"
    by (rule poller_inv_set_chan [OF Cons.prems(2) c(1)]) (simp_all add: setRevent_def)
  have ok: "events_ok ?s evs" and new: "map_of evs a = None"
    using Cons.prems(3) e c by (fastforce simp: events_ok_def map_of_eq_None_iff setRevent_def)+
  obtain s' where s': "rfold fill_one evs (active @ [a], ?s) = Inr ((active @ [a]) @ map fst evs, s')" "poller_inv reg s'"
    "\<And>b. map_of (channels s') b =
       (case map_of evs b of None \<Rightarrow> map_of (channels ?s) b
        | Some ev \<Rightarrow> map_option (\<lambda>c. c\<lparr>revent := ev\<rparr>) (map_of (channels ?s) b))"
    "channelMap s' = channelMap ?s" "kern s' = kern ?s" "threadId s' = threadId ?s"
    "eventListSize s' = eventListSize ?s" "epoller.more s' = epoller.more ?s"
    using Cons.IH [OF _ inv ok, of "active @ [a]"] by blast
  have "fill_one e (active, s) = Inr (active @ [a], ?s)"
    using c by (simp add: fill_one_def e chan_at_def)
  then show ?case
    using s' c(1) new by (intro Cons.prems(1) [of s']) (auto simp: e setRevent_def split: option.splits)
qed

end
