(* ===== verification/TimerQueue.thy ===== *)
theory TimerQueue
  imports Timestamp
begin

text \<open>
  Model of \<^verbatim>\<open>ham/net/Timer.{h,cc}\<close>, \<^verbatim>\<open>ham/net/TimerId.h\<close> and \<^verbatim>\<open>ham/net/TimerQueue.{h,cc}\<close>.  Timers are
  shared objects: \<open>timers\<close> is the heap of \<^verbatim>\<open>Timer\<close> objects by address (0 is the null pointer) and
  \<open>timerList\<close> is the \<^verbatim>\<open>std::set\<close> of pairs of expiration and address, in order.  Every operation here
  runs in the loop thread, which the code asserts; \<open>addTimer\<close> and \<open>cancelTimer\<close>
  from another thread return the functor that \<^verbatim>\<open>runInLoop\<close> queues.

  The environment is a record: the \<open>n\<close>-th reading of the system clock, the allocator of
  \<^verbatim>\<open>std::make_shared\<close>, and the effect of each user callback on the queue, which is a list of calls to
  \<^verbatim>\<open>addTimer\<close> and \<^verbatim>\<open>cancelTimer\<close>.  \<open>alarm\<close> is the last relative time given to \<^verbatim>\<open>timerfd_settime\<close>.
\<close>

section \<open>Timers\<close>

record timer =
  callback :: nat
  expiration :: timestamp
  interval :: double
  repeats :: bool
  serialNum :: int64

definition Timer_ctor :: "nat \<Rightarrow> timestamp \<Rightarrow> double \<Rightarrow> int64 \<Rightarrow> timer \<times> int64" where
  "Timer_ctor cb when i numCreated =
     (let n = numCreated + 1
      in (\<lparr>callback = cb, expiration = when, interval = i, repeats = (0 < i), serialNum = n\<rparr>, n))"

definition restart :: "timer \<Rightarrow> timestamp \<Rightarrow> timer" where
  "restart tm now =
     (if repeats tm then tm\<lparr>expiration := addTime now (interval tm)\<rparr>
      else tm\<lparr>expiration := invalid\<rparr>)"

record timer_id =
  id_timer :: nat
  id_serial :: int64

record timespec =
  tv_sec :: int
  tv_nsec :: int

text \<open>The time from \<open>now\<close> until \<open>when\<close>, at least 100 microseconds.\<close>

definition howMuchTimeFromNow :: "timestamp \<Rightarrow> timestamp \<Rightarrow> timespec" where
  "howMuchTimeFromNow now when =
     (let d = sint (microsecondsFromEpoch when - microsecondsFromEpoch now);
          microseconds = (if d < 100 then 100 else d)
      in \<lparr>tv_sec = microseconds sdiv kMicrosecondsPerSecond,
          tv_nsec = (microseconds smod kMicrosecondsPerSecond) * 1000\<rparr>)"

section \<open>The queue\<close>

type_synonym timer_heap = "(nat, timer) std_map"

record timer_queue =
  timers :: timer_heap
  numCreated :: int64
  timerList :: "(timestamp \<times> nat) list"
  cancelingTimers :: "nat list"
  earliestChanged :: bool
  callingExpiredTimers :: bool
  alarm :: "timespec option"
  ticks :: nat

datatype timer_action = ActAdd nat timestamp double | ActCancel timer_id

datatype timer_functor = AddTimerInLoop nat | CancelTimerInLoop timer_id

record timer_env =
  clk :: "nat \<Rightarrow> timestamp"
  alloc :: "timer_heap \<Rightarrow> nat"
  prog :: "nat \<Rightarrow> timer_action list"

definition new_timer_queue :: "int64 \<Rightarrow> timer_queue" where
  "new_timer_queue created =
     \<lparr>timers = [], numCreated = created, timerList = [], cancelingTimers = [],
      earliestChanged = False, callingExpiredTimers = False, alarm = None, ticks = 0\<rparr>"

text \<open>Dereferencing a \<^verbatim>\<open>shared_ptr<Timer>\<close>.\<close>

definition timer_at :: "timer_queue \<Rightarrow> nat \<Rightarrow> timer result" where
  "timer_at q a = (case map_of (timers q) a of None \<Rightarrow> Inl NullDereference | Some tm \<Rightarrow> Inr tm)"

text \<open>\<^verbatim>\<open>Timestamp::now()\<close>\<close>

definition read_clock :: "timer_env \<Rightarrow> timer_queue \<Rightarrow> timestamp \<times> timer_queue" where
  "read_clock env q = (clk env (ticks q), q\<lparr>ticks := Suc (ticks q)\<rparr>)"

definition resetAlarmFd :: "timer_env \<Rightarrow> timestamp \<Rightarrow> timer_queue \<Rightarrow> timer_queue" where
  "resetAlarmFd env when q =
     (let (now, q') = read_clock env q in q'\<lparr>alarm := Some (howMuchTimeFromNow now when)\<rparr>)"

definition insertTimer :: "nat \<Rightarrow> timer_queue \<Rightarrow> timer_queue result" where
  "insertTimer a q =
     rbind (timer_at q a) (\<lambda>tm.
       let when = expiration tm;
           changed = (timerList q = [] \<or> when < fst (hd (timerList q)))
       in assert_that ((when, a) \<notin> set (timerList q)) ''res.second''
          (Inr (q\<lparr>earliestChanged := changed, timerList := set_insert (when, a) (timerList q)\<rparr>)))"

definition addTimerInLoop :: "timer_env \<Rightarrow> nat \<Rightarrow> timer_queue \<Rightarrow> timer_queue result" where
  "addTimerInLoop env a q =
     rbind (insertTimer a q) (\<lambda>q'.
       if earliestChanged q'
       then rbind (timer_at q' a) (\<lambda>tm. Inr (resetAlarmFd env (expiration tm) q'))
       else Inr q')"

definition addTimer ::
  "timer_env \<Rightarrow> bool \<Rightarrow> nat \<Rightarrow> timestamp \<Rightarrow> double \<Rightarrow> timer_queue \<Rightarrow>
   (timer_id \<times> timer_functor option \<times> timer_queue) result" where
  "addTimer env inLoop cb when i q =
     (let a = alloc env (timers q);
          (tm, n) = Timer_ctor cb when i (numCreated q);
          q1 = q\<lparr>timers := map_set a tm (timers q), numCreated := n\<rparr>;
          tid = \<lparr>id_timer = a, id_serial = serialNum tm\<rparr>
      in if inLoop then rbind (addTimerInLoop env a q1) (\<lambda>q2. Inr (tid, None, q2))
         else Inr (tid, Some (AddTimerInLoop a), q1))"

definition cancelTimerInLoop :: "timer_id \<Rightarrow> timer_queue \<Rightarrow> timer_queue result" where
  "cancelTimerInLoop tid q =
     (let a = id_timer tid in
      rbind (timer_at q a) (\<lambda>tm.
        let entry = (expiration tm, a) in
        if entry \<in> set (timerList q) then Inr (q\<lparr>timerList := set_erase entry (timerList q)\<rparr>)
        else if callingExpiredTimers q then Inr (q\<lparr>cancelingTimers := set_insert a (cancelingTimers q)\<rparr>)
        else Inr q))"

definition cancelTimer ::
  "bool \<Rightarrow> timer_id \<Rightarrow> timer_queue \<Rightarrow> (timer_functor option \<times> timer_queue) result" where
  "cancelTimer inLoop tid q =
     (if inLoop then rbind (cancelTimerInLoop tid q) (\<lambda>q'. Inr (None, q'))
      else Inr (Some (CancelTimerInLoop tid), q))"

text \<open>The functors queued from other threads, when the loop runs them.\<close>

fun run_timer_functor :: "timer_env \<Rightarrow> timer_functor \<Rightarrow> timer_queue \<Rightarrow> timer_queue result" where
  "run_timer_functor env (AddTimerInLoop a) q = addTimerInLoop env a q"
| "run_timer_functor env (CancelTimerInLoop tid) q = cancelTimerInLoop tid q"

text \<open>
  \<^verbatim>\<open>getExpired\<close>: \<^verbatim>\<open>lower_bound\<close> of the pair of \<open>now\<close> and the null pointer, advanced over at most one
  entry that expires exactly now, and the assertion that everything from there on is later.
\<close>

definition getExpired :: "timestamp \<Rightarrow> timer_queue \<Rightarrow> ((timestamp \<times> nat) list \<times> timer_queue) result" where
  "getExpired now q =
     (let first = before_lower_bound (now, 0) (timerList q);
          rest = from_lower_bound (now, 0) (timerList q);
          (expired, left) = (if rest \<noteq> [] \<and> fst (hd rest) = now
                             then (first @ [hd rest], tl rest) else (first, rest))
      in assert_that (left = [] \<or> now < fst (hd left))
           ''lastExpired == timerList_.end() || lastExpired->first > now''
         (Inr (expired, q\<lparr>timerList := left\<rparr>)))"

definition resetTimer :: "timestamp \<Rightarrow> timestamp \<times> nat \<Rightarrow> timer_queue \<Rightarrow> timer_queue result" where
  "resetTimer now entry q =
     (let a = snd entry in
      rbind (timer_at q a) (\<lambda>tm.
        if repeats tm \<and> a \<notin> set (cancelingTimers q)
        then insertTimer a (q\<lparr>timers := map_set a (restart tm now) (timers q)\<rparr>)
        else Inr q))"

definition reset :: "timer_env \<Rightarrow> (timestamp \<times> nat) list \<Rightarrow> timestamp \<Rightarrow> timer_queue \<Rightarrow> timer_queue result" where
  "reset env expired now q =
     rbind (rfold (resetTimer now) expired q) (\<lambda>q'.
       if timerList q' = [] then Inr q'
       else rbind (timer_at q' (snd (hd (timerList q')))) (\<lambda>tm.
         let nextExpired = expiration tm
         in Inr (if valid nextExpired then resetAlarmFd env nextExpired q' else q')))"

text \<open>What a user callback does to the queue, in the loop thread.\<close>

fun run_action :: "timer_env \<Rightarrow> timer_action \<Rightarrow> timer_queue \<Rightarrow> timer_queue result" where
  "run_action env (ActAdd cb when i) q = rbind (addTimer env True cb when i q) (\<lambda>(tid, f, q'). Inr q')"
| "run_action env (ActCancel tid) q = rbind (cancelTimer True tid q) (\<lambda>(f, q'). Inr q')"

definition run_timer :: "timer_env \<Rightarrow> timestamp \<times> nat \<Rightarrow> timer_queue \<Rightarrow> timer_queue result" where
  "run_timer env entry q =
     rbind (timer_at q (snd entry)) (\<lambda>tm. rfold (run_action env) (prog env (callback tm)) q)"

definition handleRead :: "timer_env \<Rightarrow> timer_queue \<Rightarrow> timer_queue result" where
  "handleRead env q =
     (let (now, q0) = read_clock env q in
      rbind (getExpired now q0) (\<lambda>(expired, q1).
      rbind (rfold (run_timer env) expired (q1\<lparr>cancelingTimers := [], callingExpiredTimers := True\<rparr>)) (\<lambda>q2.
        reset env expired now (q2\<lparr>callingExpiredTimers := False\<rparr>))))"

section \<open>Invariant\<close>

definition tq_inv :: "timer_queue \<Rightarrow> bool" where
  "tq_inv q \<longleftrightarrow> set_ok (timerList q) \<and> map_ok (timers q) \<and>
     (\<forall>(t, a) \<in> set (timerList q). \<exists>tm. map_of (timers q) a = Some tm \<and> expiration tm = t)"

definition alloc_ok :: "timer_env \<Rightarrow> bool" where
  "alloc_ok env \<longleftrightarrow> (\<forall>m. map_of m (alloc env m) = None)"

abbreviation listed :: "timer_queue \<Rightarrow> nat set" where
  "listed q \<equiv> snd ` set (timerList q)"

abbreviation known :: "timer_queue \<Rightarrow> nat set" where
  "known q \<equiv> dom (map_of (timers q))"

lemma timer_at_Inr [simp]: "timer_at q a = Inr tm \<longleftrightarrow> map_of (timers q) a = Some tm"
  by (simp add: timer_at_def split: option.splits)

lemma timer_at_known: "a \<in> known q \<Longrightarrow> \<exists>tm. timer_at q a = Inr tm \<and> map_of (timers q) a = Some tm"
  by auto

lemma tq_invD:
  assumes "tq_inv q" and "(t, a) \<in> set (timerList q)"
  obtains tm where "map_of (timers q) a = Some tm" "expiration tm = t"
  using assms unfolding tq_inv_def by blast

lemma listed_known: "tq_inv q \<Longrightarrow> listed q \<subseteq> known q"
  by (auto elim: tq_invD)

lemma listed_unique:
  "tq_inv q \<Longrightarrow> (t, a) \<in> set (timerList q) \<Longrightarrow> (t', a) \<in> set (timerList q) \<Longrightarrow> t = t'"
  by (metis option.inject tq_invD)

lemma tq_inv_frame [simp]:
  "tq_inv (q\<lparr>cancelingTimers := c\<rparr>) = tq_inv q"
  "tq_inv (q\<lparr>callingExpiredTimers := b\<rparr>) = tq_inv q"
  "tq_inv (q\<lparr>earliestChanged := b\<rparr>) = tq_inv q"
  "tq_inv (q\<lparr>alarm := al\<rparr>) = tq_inv q"
  "tq_inv (q\<lparr>ticks := n\<rparr>) = tq_inv q"
  "tq_inv (q\<lparr>numCreated := k\<rparr>) = tq_inv q"
  by (simp_all add: tq_inv_def)

lemma tq_inv_update_unlisted:
  assumes "tq_inv q" and "a \<notin> listed q"
  shows "tq_inv (q\<lparr>timers := map_set a tm (timers q)\<rparr>)"
proof -
  have "b \<noteq> a" if "(t, b) \<in> set (timerList q)" for t b using that assms(2) by force
  with assms(1) show ?thesis
    unfolding tq_inv_def by (fastforce simp: map_ok_set map_of_map_set)
qed

lemma resetAlarmFd_eq:
  "resetAlarmFd env when q =
     q\<lparr>ticks := Suc (ticks q), alarm := Some (howMuchTimeFromNow (clk env (ticks q)) when)\<rparr>"
  by (simp add: resetAlarmFd_def read_clock_def)

section \<open>Expiry\<close>

lemma pair_before_null: "(e :: timestamp \<times> nat) < (now, 0) \<longleftrightarrow> fst e < now"
  by (cases e) auto

lemma pair_from_null: "(now, 0) \<le> (e :: timestamp \<times> nat) \<longleftrightarrow> now \<le> fst e"
  by (cases e) auto

lemma sorted_due_split:
  fixes xs :: "(timestamp \<times> nat) list"
  assumes "set_ok xs"
  shows "filter (\<lambda>e. fst e \<le> now) xs = filter (\<lambda>e. fst e < now) xs @ filter (\<lambda>e. fst e = now) xs"
    and "filter (\<lambda>e. now \<le> fst e) xs = filter (\<lambda>e. fst e = now) xs @ filter (\<lambda>e. now < fst e) xs"
proof -
  have "filter (\<lambda>e. fst e \<le> now) xs = filter (\<lambda>e. fst e < now) xs @ filter (\<lambda>e. fst e = now) xs \<and>
    filter (\<lambda>e. now \<le> fst e) xs = filter (\<lambda>e. fst e = now) xs @ filter (\<lambda>e. now < fst e) xs"
    using assms
  proof (induction xs)
    case Nil
    then show ?case by simp
  next
    case (Cons x xs)
    have le: "\<forall>e \<in> set xs. fst x \<le> fst e" using Cons.prems by (auto simp: less_prod_def)
    have none: "\<not> fst x < now \<Longrightarrow> filter (\<lambda>e. fst e < now) xs = []"
      "now < fst x \<Longrightarrow> filter (\<lambda>e. fst e = now) xs = []"
      using le by (force simp: filter_empty_conv)+
    with Cons show ?case by auto
  qed
  then show "filter (\<lambda>e. fst e \<le> now) xs = filter (\<lambda>e. fst e < now) xs @ filter (\<lambda>e. fst e = now) xs"
    and "filter (\<lambda>e. now \<le> fst e) xs = filter (\<lambda>e. fst e = now) xs @ filter (\<lambda>e. now < fst e) xs"
    by simp_all
qed

lemma getExpired_spec:
  assumes "tq_inv q"
  shows "getExpired now q =
    (if length (filter (\<lambda>e. fst e = now) (timerList q)) \<le> 1
     then Inr (filter (\<lambda>e. fst e \<le> now) (timerList q),
               q\<lparr>timerList := filter (\<lambda>e. now < fst e) (timerList q)\<rparr>)
     else Inl (AssertFailed ''lastExpired == timerList_.end() || lastExpired->first > now''))"
proof -
  let ?L = "timerList q"
  let ?at = "filter (\<lambda>e. fst e = now) ?L" and ?later = "filter (\<lambda>e. now < fst e) ?L"
  have ok: "set_ok ?L" using assms by (simp add: tq_inv_def)
  have lb: "before_lower_bound (now, 0) ?L = filter (\<lambda>e. fst e < now) ?L"
    "from_lower_bound (now, 0) ?L = ?at @ ?later"
    using lower_bound_split [OF ok, of "(now, 0)"] sorted_due_split(2) [OF ok]
    by (simp_all add: pair_before_null pair_from_null)
  have later: "?later = [] \<or> now < fst (hd ?later)"
    using hd_in_set [of ?later] by auto
  consider "?at = []" | x where "?at = [x]" | x y zs where "?at = x # y # zs"
    by (metis list.exhaust)
  then show ?thesis
  proof cases
    case 1
    then show ?thesis
      using later by (auto simp: getExpired_def Let_def lb sorted_due_split(1) [OF ok])
  next
    case 2
    then have "fst x = now" by (metis (mono_tags) filter_eq_ConsD)
    with 2 show ?thesis
      using later by (simp add: getExpired_def lb sorted_due_split(1) [OF ok])
  next
    case 3
    then have "x \<in> set ?at" "y \<in> set ?at" by simp_all
    then have "fst x = now" "fst y = now" by simp_all
    with 3 show ?thesis by (simp add: getExpired_def lb)
  qed
qed

section \<open>What a callback can change\<close>

text \<open>A preorder between queue states: known timers stay as they are, cancellations are kept, and a
  timer that is known and not scheduled is not scheduled by a callback.\<close>

definition cb_frame :: "timer_queue \<Rightarrow> timer_queue \<Rightarrow> bool" where
  "cb_frame q q' \<longleftrightarrow> map_of (timers q) \<subseteq>\<^sub>m map_of (timers q') \<and>
     callingExpiredTimers q' = callingExpiredTimers q \<and>
     set (cancelingTimers q) \<subseteq> set (cancelingTimers q') \<and>
     (\<forall>a \<in> known q. a \<in> listed q' \<longrightarrow> a \<in> listed q)"

lemma cb_frame_refl [simp]: "cb_frame q q"
  by (simp add: cb_frame_def)

lemma cb_frame_trans: "cb_frame q r \<Longrightarrow> cb_frame r s \<Longrightarrow> cb_frame q s"
  unfolding cb_frame_def by (meson map_le_implies_dom_le map_le_trans subset_iff)

lemma insertTimer_spec:
  assumes inv: "tq_inv q" and tm: "map_of (timers q) a = Some tm" and new: "a \<notin> listed q"
  obtains q' where "insertTimer a q = Inr q'" "tq_inv q'" "timers q' = timers q"
    "timerList q' = set_insert (expiration tm, a) (timerList q)"
    "cancelingTimers q' = cancelingTimers q" "callingExpiredTimers q' = callingExpiredTimers q"
proof -
  have "(expiration tm, a) \<notin> set (timerList q)" using new by (metis image_eqI snd_conv)
  moreover have "tq_inv (q\<lparr>earliestChanged := (timerList q = [] \<or> expiration tm < fst (hd (timerList q))),
      timerList := set_insert (expiration tm, a) (timerList q)\<rparr>)" (is "tq_inv ?q")
    using inv tm by (auto simp: tq_inv_def set_ok_insert)
  ultimately show ?thesis
    using tm by (intro that [of ?q]) (simp_all add: insertTimer_def timer_at_def Let_def)
qed

lemma addTimerInLoop_spec:
  assumes inv: "tq_inv q" and tm: "map_of (timers q) a = Some tm" and new: "a \<notin> listed q"
  obtains q' where "addTimerInLoop env a q = Inr q'" "tq_inv q'" "timers q' = timers q"
    "set (timerList q') = insert (expiration tm, a) (set (timerList q))"
    "cancelingTimers q' = cancelingTimers q" "callingExpiredTimers q' = callingExpiredTimers q"
proof -
  obtain p where p: "insertTimer a q = Inr p" "tq_inv p" "timers p = timers q"
    "timerList p = set_insert (expiration tm, a) (timerList q)"
    "cancelingTimers p = cancelingTimers q" "callingExpiredTimers p = callingExpiredTimers q"
    using insertTimer_spec [OF inv tm new] .
  then show ?thesis
    using tm
    by (intro that [of "if earliestChanged p then resetAlarmFd env (expiration tm) p else p"])
      (auto simp: addTimerInLoop_def timer_at_def resetAlarmFd_eq)
qed

lemma addTimer_spec:
  assumes inv: "tq_inv q" and al: "alloc_ok env"
  obtains tid q' where "addTimer env True cb when i q = Inr (tid, None, q')" "tq_inv q'" "cb_frame q q'"
    "id_timer tid \<notin> known q" "set (timerList q') = insert (when, id_timer tid) (set (timerList q))"
    "cancelingTimers q' = cancelingTimers q"
proof -
  define a where "a = alloc env (timers q)"
  have fresh: "map_of (timers q) a = None" using al by (simp add: a_def alloc_ok_def)
  then have new: "a \<notin> listed q" using listed_known [OF inv] by auto
  define tm where "tm = fst (Timer_ctor cb when i (numCreated q))"
  let ?q1 = "q\<lparr>timers := map_set a tm (timers q), numCreated := snd (Timer_ctor cb when i (numCreated q))\<rparr>"
  have inv1: "tq_inv ?q1"
    using inv fresh new by (fastforce simp: tq_inv_def map_ok_set map_of_map_set)
  have look: "map_of (timers ?q1) a = Some tm" by (simp add: map_of_map_set)
  obtain q' where q': "addTimerInLoop env a ?q1 = Inr q'" "tq_inv q'" "timers q' = timers ?q1"
    "set (timerList q') = insert (expiration tm, a) (set (timerList ?q1))"
    "cancelingTimers q' = cancelingTimers ?q1" "callingExpiredTimers q' = callingExpiredTimers ?q1"
    by (rule addTimerInLoop_spec [OF inv1 look]) (use new in simp_all)
  have "cb_frame q q'"
    using q' fresh by (auto simp: cb_frame_def map_of_map_set map_le_def)
  moreover have "expiration tm = when" by (simp add: tm_def Timer_ctor_def Let_def)
  ultimately show ?thesis
    using q' fresh
    by (intro that [of "\<lparr>id_timer = a, id_serial = serialNum tm\<rparr>" q'])
      (auto simp: addTimer_def Let_def tm_def split_beta simp flip: a_def)
qed

lemma cancelTimerInLoop_spec:
  assumes inv: "tq_inv q" and k: "id_timer tid \<in> known q"
  obtains q' where "cancelTimerInLoop tid q = Inr q'" "tq_inv q'" "cb_frame q q'"
    "timers q' = timers q" "listed q' = listed q - {id_timer tid}"
    "set (cancelingTimers q') = set (cancelingTimers q) \<union>
       (if callingExpiredTimers q \<and> id_timer tid \<notin> listed q then {id_timer tid} else {})"
proof -
  let ?a = "id_timer tid"
  obtain tm where tm: "map_of (timers q) ?a = Some tm" using k by auto
  have iff: "?a \<in> listed q \<longleftrightarrow> (expiration tm, ?a) \<in> set (timerList q)"
    using tm inv by (force elim: tq_invD)
  show ?thesis
  proof (cases "?a \<in> listed q")
    case True
    let ?q = "q\<lparr>timerList := set_erase (expiration tm, ?a) (timerList q)\<rparr>"
    have "listed ?q = listed q - {?a}"
      using True iff listed_unique [OF inv] by (auto simp: image_iff)
    moreover have "tq_inv ?q" using inv by (auto simp: tq_inv_def set_ok_erase)
    ultimately show ?thesis
      using True iff tm
      by (intro that [of ?q]) (auto simp: cancelTimerInLoop_def timer_at_def cb_frame_def)
  next
    case False
    then have "(expiration tm, ?a) \<notin> set (timerList q)" using iff by simp
    with False tm inv show ?thesis
      by (intro that [of "if callingExpiredTimers q
            then q\<lparr>cancelingTimers := set_insert ?a (cancelingTimers q)\<rparr> else q"])
        (auto simp: cancelTimerInLoop_def timer_at_def cb_frame_def)
  qed
qed

definition cancels :: "timer_action list \<Rightarrow> nat set" where
  "cancels acts = {id_timer tid | tid. ActCancel tid \<in> set acts}"

lemma cancels_simps [simp]:
  "cancels [] = {}"
  "cancels (ActAdd cb when i # acts) = cancels acts"
  "cancels (ActCancel tid # acts) = insert (id_timer tid) (cancels acts)"
  "cancels (acts @ acts') = cancels acts \<union> cancels acts'"
  by (auto simp: cancels_def)

text \<open>The effect of a run of callback actions that cancel the timers \<open>C\<close>.\<close>

definition cb_effect :: "nat set \<Rightarrow> timer_queue \<Rightarrow> timer_queue \<Rightarrow> bool" where
  "cb_effect C q q' \<longleftrightarrow> tq_inv q' \<and> cb_frame q q' \<and> C \<inter> listed q' = {} \<and>
     set (cancelingTimers q') \<subseteq> set (cancelingTimers q) \<union> C \<and>
     (callingExpiredTimers q \<longrightarrow> C - listed q \<subseteq> set (cancelingTimers q')) \<and>
     (\<forall>(t, a) \<in> set (timerList q). a \<notin> C \<longrightarrow> (t, a) \<in> set (timerList q'))"

lemma cb_frameD:
  assumes "cb_frame q q'"
  shows "map_of (timers q) a = Some tm \<Longrightarrow> map_of (timers q') a = Some tm"
    and "a \<in> known q \<Longrightarrow> a \<in> known q'"
    and "a \<in> known q \<Longrightarrow> a \<notin> listed q \<Longrightarrow> a \<notin> listed q'"
    and "callingExpiredTimers q' = callingExpiredTimers q"
    and "set (cancelingTimers q) \<subseteq> set (cancelingTimers q')"
proof -
  note fr = assms [unfolded cb_frame_def]
  show "map_of (timers q) a = Some tm \<Longrightarrow> map_of (timers q') a = Some tm"
    using fr by (metis domI map_le_def)
  show "a \<in> known q \<Longrightarrow> a \<in> known q'"
    using fr map_le_implies_dom_le by blast
  show "a \<in> known q \<Longrightarrow> a \<notin> listed q \<Longrightarrow> a \<notin> listed q'"
    using fr by blast
  show "callingExpiredTimers q' = callingExpiredTimers q"
    and "set (cancelingTimers q) \<subseteq> set (cancelingTimers q')"
    using fr by blast+
qed

lemma cb_effectD:
  assumes "cb_effect C q q'"
  shows "tq_inv q'" and "cb_frame q q'" and "c \<in> C \<Longrightarrow> c \<notin> listed q'"
    and "set (cancelingTimers q') \<subseteq> set (cancelingTimers q) \<union> C"
    and "callingExpiredTimers q \<Longrightarrow> c \<in> C \<Longrightarrow> c \<notin> listed q \<Longrightarrow> c \<in> set (cancelingTimers q')"
    and "(t, a) \<in> set (timerList q) \<Longrightarrow> a \<notin> C \<Longrightarrow> (t, a) \<in> set (timerList q')"
  using assms unfolding cb_effect_def by blast+

lemma cb_effect_refl: "tq_inv q \<Longrightarrow> cb_effect {} q q"
  by (simp add: cb_effect_def)

lemma cb_effect_trans:
  assumes qr: "cb_effect C q r" and rs: "cb_effect D r s" and k: "C \<union> D \<subseteq> known q"
  shows "cb_effect (C \<union> D) q s"
proof -
  note f = cb_effectD [OF qr] and g = cb_effectD [OF rs]
  note fqr = cb_frameD [OF f(2)] and frs = cb_frameD [OF g(2)]
  have gone: "c \<notin> listed s" if "c \<in> C \<union> D" for c
  proof (cases "c \<in> D")
    case True
    then show ?thesis by (rule g(3))
  next
    case False
    with that k have "c \<in> C" "c \<in> known q" by auto
    then show ?thesis using f(3) fqr(2) frs(3) by blast
  qed
  have noted: "c \<in> set (cancelingTimers s)"
    if "callingExpiredTimers q" "c \<in> C \<union> D" "c \<notin> listed q" for c
  proof (cases "c \<in> C")
    case True
    with that(1,3) f(5) frs(5) show ?thesis by blast
  next
    case False
    with that(2) have "c \<in> D" by blast
    moreover have "c \<notin> listed r" using k that(2,3) fqr(3) by blast
    ultimately have "c \<in> D" "c \<notin> listed r" .
    with that(1) fqr(4) g(5) show ?thesis by simp
  qed
  have "set (cancelingTimers s) \<subseteq> set (cancelingTimers q) \<union> (C \<union> D)"
    using f(4) g(4) by blast
  moreover have "(t, a) \<in> set (timerList s)" if "(t, a) \<in> set (timerList q)" "a \<notin> C \<union> D" for t a
    using that f(6) g(6) by blast
  ultimately show ?thesis
    using g(1) cb_frame_trans [OF f(2) g(2)] gone noted unfolding cb_effect_def by blast
qed

lemma run_action_spec:
  assumes inv: "tq_inv q" and al: "alloc_ok env" and k: "cancels [act] \<subseteq> known q"
  obtains q' where "run_action env act q = Inr q'" "cb_effect (cancels [act]) q q'"
proof (cases act)
  case (ActAdd cb t i)
  obtain tid q' where "addTimer env True cb t i q = Inr (tid, None, q')" "tq_inv q'" "cb_frame q q'"
    "id_timer tid \<notin> known q" "set (timerList q') = insert (t, id_timer tid) (set (timerList q))"
    "cancelingTimers q' = cancelingTimers q"
    using addTimer_spec [OF inv al] .
  with ActAdd show ?thesis by (intro that [of q']) (auto simp: cb_effect_def)
next
  case (ActCancel tid)
  with k have k': "id_timer tid \<in> known q" by simp
  obtain q' where q': "cancelTimerInLoop tid q = Inr q'" "tq_inv q'" "cb_frame q q'"
    "timers q' = timers q" "listed q' = listed q - {id_timer tid}"
    "set (cancelingTimers q') = set (cancelingTimers q) \<union>
       (if callingExpiredTimers q \<and> id_timer tid \<notin> listed q then {id_timer tid} else {})"
    using cancelTimerInLoop_spec [OF inv k'] .
  have "(t, a) \<in> set (timerList q')" if "(t, a) \<in> set (timerList q)" "a \<noteq> id_timer tid" for t a
  proof -
    have "a \<in> listed q'" using that q'(5) by force
    then obtain t' where t': "(t', a) \<in> set (timerList q')" by auto
    have "map_of (timers q') a = map_of (timers q) a" by (simp add: q'(4))
    then have "t' = t" using tq_invD [OF q'(2) t'] tq_invD [OF inv that(1)] by (metis option.inject)
    with t' show ?thesis by simp
  qed
  with q' ActCancel show ?thesis
    by (intro that [of q']) (auto simp: cancelTimer_def cb_effect_def)
qed

lemma run_actions_spec:
  assumes "tq_inv q" and al: "alloc_ok env" and "cancels acts \<subseteq> known q"
  obtains q' where "rfold (run_action env) acts q = Inr q'" "cb_effect (cancels acts) q q'"
  using assms(1,3)
proof (induction acts arbitrary: q thesis)
  case Nil
  then show ?case using cb_effect_refl by simp
next
  case (Cons act acts)
  have split: "cancels (act # acts) = cancels [act] \<union> cancels acts" by (cases act) auto
  obtain r where r: "run_action env act q = Inr r" "cb_effect (cancels [act]) q r"
    by (rule run_action_spec [OF Cons.prems(2) al]) (use Cons.prems(3) split in auto)
  have inv: "tq_inv r" and fr: "cb_frame q r" using r(2) by (auto simp: cb_effect_def)
  have "cancels acts \<subseteq> known r" using Cons.prems(3) cb_frameD(2) [OF fr] split by blast
  then obtain q' where "rfold (run_action env) acts r = Inr q'" "cb_effect (cancels acts) r q'"
    using Cons.IH inv by blast
  then show ?case
    using r cb_effect_trans [OF r(2)] Cons.prems(1,3) unfolding split by auto
qed

text \<open>The timers cancelled by the callbacks of a list of entries.\<close>

definition callbacks_cancel :: "timer_env \<Rightarrow> timer_queue \<Rightarrow> (timestamp \<times> nat) list \<Rightarrow> nat set" where
  "callbacks_cancel env q es =
     (\<Union>e \<in> set es. case map_of (timers q) (snd e) of None \<Rightarrow> {} | Some tm \<Rightarrow> cancels (prog env (callback tm)))"

lemma callbacks_cancel_frame:
  assumes "cb_frame q q'" and "snd ` set es \<subseteq> known q"
  shows "callbacks_cancel env q' es = callbacks_cancel env q es"
proof -
  have "map_of (timers q') (snd e) = map_of (timers q) (snd e)" if "e \<in> set es" for e
    using that assms cb_frameD(1) [OF assms(1)] by fastforce
  then show ?thesis by (simp add: callbacks_cancel_def)
qed

lemma run_timers_spec:
  assumes "tq_inv q" and al: "alloc_ok env" and "snd ` set es \<subseteq> known q"
    and "callbacks_cancel env q es \<subseteq> known q"
  obtains q' where "rfold (run_timer env) es q = Inr q'" "cb_effect (callbacks_cancel env q es) q q'"
  using assms(1,3,4)
proof (induction es arbitrary: q thesis)
  case Nil
  then show ?case using cb_effect_refl by (simp add: callbacks_cancel_def)
next
  case (Cons e es)
  obtain tm where tm: "map_of (timers q) (snd e) = Some tm" using Cons.prems(3) by auto
  let ?acts = "prog env (callback tm)"
  have split: "callbacks_cancel env q (e # es) = cancels ?acts \<union> callbacks_cancel env q es"
    by (simp add: callbacks_cancel_def tm)
  obtain r where r: "rfold (run_action env) ?acts q = Inr r" "cb_effect (cancels ?acts) q r"
    by (rule run_actions_spec [OF Cons.prems(2) al]) (use Cons.prems(4) split in auto)
  have inv: "tq_inv r" and fr: "cb_frame q r" using r(2) by (auto simp: cb_effect_def)
  have eq: "callbacks_cancel env r es = callbacks_cancel env q es"
    by (rule callbacks_cancel_frame [OF fr]) (use Cons.prems(3) in auto)
  have "snd ` set es \<subseteq> known r" "callbacks_cancel env q es \<subseteq> known r"
  proof -
    have sub: "known q \<subseteq> known r" using cb_frameD(2) [OF fr] by blast
    have "snd ` set es \<subseteq> known q" using Cons.prems(3) by simp
    then show "snd ` set es \<subseteq> known r" using sub by (rule order_trans)
    have "callbacks_cancel env q es \<subseteq> known q" using Cons.prems(4) unfolding split by blast
    then show "callbacks_cancel env q es \<subseteq> known r" using sub by (rule order_trans)
  qed
  then obtain q' where q': "rfold (run_timer env) es r = Inr q'" "cb_effect (callbacks_cancel env q es) r q'"
    using Cons.IH [OF _ inv] unfolding eq by blast
  have "run_timer env e q = Inr r" using tm r(1) by (simp add: run_timer_def timer_at_def)
  with q' have "rfold (run_timer env) (e # es) q = Inr q'" by simp
  moreover have "cb_effect (callbacks_cancel env q (e # es)) q q'"
    using cb_effect_trans [OF r(2) q'(2)] Cons.prems(4) unfolding split by simp
  ultimately show ?case by (rule Cons.prems(1))
qed

section \<open>Rescheduling\<close>

text \<open>The entry with which an expired timer goes back into the list, if it does.\<close>

definition rescheduled :: "timer_queue \<Rightarrow> timestamp \<Rightarrow> (timestamp \<times> nat) set \<Rightarrow> (timestamp \<times> nat) set" where
  "rescheduled q now es =
     {(addTime now (interval tm), a) | tm a. a \<in> snd ` es \<and> map_of (timers q) a = Some tm \<and>
        repeats tm \<and> a \<notin> set (cancelingTimers q)}"

lemma rescheduled_mem:
  assumes "map_of (timers q) a = Some tm"
  shows "(x, a) \<in> rescheduled q now es \<longleftrightarrow>
    a \<in> snd ` es \<and> x = addTime now (interval tm) \<and> repeats tm \<and> a \<notin> set (cancelingTimers q)"
  using assms by (simp add: rescheduled_def) metis

lemma resetTimer_spec:
  assumes inv: "tq_inv q" and tm: "map_of (timers q) (snd e) = Some tm" and new: "snd e \<notin> listed q"
  obtains q' where "resetTimer now e q = Inr q'" "tq_inv q'"
    "map_of (timers q') = (map_of (timers q))(snd e \<mapsto>
       (if repeats tm \<and> snd e \<notin> set (cancelingTimers q) then restart tm now else tm))"
    "set (timerList q') = set (timerList q) \<union> rescheduled q now {e}"
    "cancelingTimers q' = cancelingTimers q" "callingExpiredTimers q' = callingExpiredTimers q"
proof (cases "repeats tm \<and> snd e \<notin> set (cancelingTimers q)")
  case True
  let ?q1 = "q\<lparr>timers := map_set (snd e) (restart tm now) (timers q)\<rparr>"
  have inv1: "tq_inv ?q1"
    by (rule tq_inv_update_unlisted [OF inv new])
  have look: "map_of (timers ?q1) (snd e) = Some (restart tm now)" by (simp add: map_of_map_set)
  obtain q' where q': "insertTimer (snd e) ?q1 = Inr q'" "tq_inv q'" "timers q' = timers ?q1"
    "timerList q' = set_insert (expiration (restart tm now), snd e) (timerList ?q1)"
    "cancelingTimers q' = cancelingTimers ?q1" "callingExpiredTimers q' = callingExpiredTimers ?q1"
    by (rule insertTimer_spec [OF inv1 look]) (use new in simp_all)
  have "rescheduled q now {e} = {(expiration (restart tm now), snd e)}"
    using True tm by (auto simp: rescheduled_def restart_def)
  with q' True tm show ?thesis
    by (intro that [of q']) (simp_all add: resetTimer_def timer_at_def map_of_map_set)
next
  case False
  with tm have "rescheduled q now {e} = {}" by (auto simp: rescheduled_def)
  with False inv tm show ?thesis
    by (intro that [of q]) (auto simp: resetTimer_def timer_at_def fun_upd_idem)
qed

lemma reset_loop_spec:
  assumes "tq_inv q" and "distinct (map snd es)" and "snd ` set es \<subseteq> known q"
    and "snd ` set es \<inter> listed q = {}"
  obtains q' where "rfold (resetTimer now) es q = Inr q'" "tq_inv q'"
    "set (timerList q') = set (timerList q) \<union> rescheduled q now (set es)"
  using assms
proof (induction es arbitrary: q thesis)
  case Nil
  then show ?case by (simp add: rescheduled_def)
next
  case (Cons e es)
  obtain tm where tm: "map_of (timers q) (snd e) = Some tm" using Cons.prems(4) by auto
  have new: "snd e \<notin> listed q" using Cons.prems(5) by auto
  obtain r where r: "resetTimer now e q = Inr r" "tq_inv r"
    "map_of (timers r) = (map_of (timers q))(snd e \<mapsto>
       (if repeats tm \<and> snd e \<notin> set (cancelingTimers q) then restart tm now else tm))"
    "set (timerList r) = set (timerList q) \<union> rescheduled q now {e}"
    "cancelingTimers r = cancelingTimers q"
    using resetTimer_spec [OF Cons.prems(2) tm new] by blast
  have e: "snd e \<notin> snd ` set es" "distinct (map snd es)" using Cons.prems(3) by auto
  have "snd ` set es \<subseteq> known r" using Cons.prems(4) unfolding r(3) by auto
  moreover have "snd ` set es \<inter> listed r = {}"
  proof -
    have disj: "\<And>A L R :: nat set. A \<inter> L = {} \<Longrightarrow> R \<subseteq> {snd e} \<Longrightarrow> snd e \<notin> A \<Longrightarrow> A \<inter> (L \<union> R) = {}" by blast
    have "snd ` rescheduled q now {e} \<subseteq> {snd e}" by (auto simp: rescheduled_def)
    with Cons.prems(5) e(1) show ?thesis unfolding r(4) image_Un by (intro disj) simp_all
  qed
  ultimately obtain q' where q': "rfold (resetTimer now) es r = Inr q'" "tq_inv q'"
    "set (timerList q') = set (timerList r) \<union> rescheduled r now (set es)"
    using Cons.IH [OF _ r(2) e(2)] by blast
  have same: "map_of (timers r) a = map_of (timers q) a" if "a \<in> snd ` set es" for a
  proof -
    have "a \<noteq> snd e" using that e(1) by metis
    then show ?thesis by (simp add: r(3))
  qed
  then have "rescheduled r now (set es) = rescheduled q now (set es)"
    unfolding rescheduled_def r(5) by (intro Collect_cong) metis
  moreover have "rescheduled q now (set (e # es)) = rescheduled q now {e} \<union> rescheduled q now (set es)"
    by (auto simp: rescheduled_def)
  ultimately show ?case using Cons.prems(1) [of q'] q' r(1,4) by auto
qed

lemma reset_spec:
  assumes inv: "tq_inv q" and es: "distinct (map snd es)" "snd ` set es \<subseteq> known q" "snd ` set es \<inter> listed q = {}"
  obtains q' where "reset env es now q = Inr q'" "tq_inv q'"
    "set (timerList q') = set (timerList q) \<union> rescheduled q now (set es)"
    "timerList q' \<noteq> [] \<longrightarrow> valid (fst (hd (timerList q'))) \<longrightarrow>
       alarm q' = Some (howMuchTimeFromNow (clk env (ticks q' - 1)) (fst (hd (timerList q'))))"
proof -
  obtain r where r: "rfold (resetTimer now) es q = Inr r" "tq_inv r"
    "set (timerList r) = set (timerList q) \<union> rescheduled q now (set es)"
    using reset_loop_spec [OF inv es] .
  show ?thesis
  proof (cases "timerList r")
    case Nil
    with r show ?thesis by (intro that [of r]) (simp_all add: reset_def)
  next
    case (Cons e l)
    then have "(fst e, snd e) \<in> set (timerList r)" by simp
    then obtain tm where "map_of (timers r) (snd e) = Some tm" "expiration tm = fst e"
      by (rule tq_invD [OF r(2)])
    with r Cons show ?thesis
      by (intro that [of "if valid (fst e) then resetAlarmFd env (fst e) r else r"])
        (auto simp: reset_def timer_at_def resetAlarmFd_eq Let_def split: if_splits)
  qed
qed

section \<open>Properties\<close>

lemma expired_entries:
  fixes now :: timestamp
  assumes inv: "tq_inv q"
  defines "es \<equiv> filter (\<lambda>e. fst e \<le> now) (timerList q)"
  shows "distinct (map snd es)" "snd ` set es \<subseteq> known q"
    "snd ` set es \<inter> listed (q\<lparr>timerList := filter (\<lambda>e. now < fst e) (timerList q)\<rparr>) = {}"
proof -
  have "inj_on snd (set es)"
    using listed_unique [OF inv] by (auto simp: inj_on_def es_def)
  moreover have "distinct es" using inv by (simp add: es_def tq_inv_def strict_sorted_iff)
  ultimately show "distinct (map snd es)" by (simp add: distinct_map)
  show "snd ` set es \<subseteq> known q" using listed_known [OF inv] by (auto simp: es_def)
  show "snd ` set es \<inter> listed (q\<lparr>timerList := filter (\<lambda>e. now < fst e) (timerList q)\<rparr>) = {}"
    using listed_unique [OF inv] by (force simp: es_def)
qed

lemma tq_inv_later: "tq_inv q \<Longrightarrow> tq_inv (q\<lparr>timerList := filter P (timerList q)\<rparr>)"
  by (auto simp: tq_inv_def sorted_wrt_filter)

lemma handleRead_run:
  fixes env q
  defines "now \<equiv> clk env (ticks q)"
  defines "es \<equiv> filter (\<lambda>e. fst e \<le> now) (timerList q)"
  assumes inv: "tq_inv q" and al: "alloc_ok env"
    and one: "length (filter (\<lambda>e. fst e = now) (timerList q)) \<le> 1"
    and k: "callbacks_cancel env q es \<subseteq> known q"
  obtains q' p r where "handleRead env q = Inr q'" "tq_inv q'"
    "p = q\<lparr>ticks := Suc (ticks q), timerList := filter (\<lambda>e. now < fst e) (timerList q),
           cancelingTimers := [], callingExpiredTimers := True\<rparr>"
    "cb_effect (callbacks_cancel env q es) p r"
    "set (timerList q') = set (timerList r) \<union> rescheduled r now (set es)"
    "timerList q' \<noteq> [] \<longrightarrow> valid (fst (hd (timerList q'))) \<longrightarrow>
       alarm q' = Some (howMuchTimeFromNow (clk env (ticks q' - 1)) (fst (hd (timerList q'))))"
proof -
  define p where "p = q\<lparr>ticks := Suc (ticks q), timerList := filter (\<lambda>e. now < fst e) (timerList q),
           cancelingTimers := [], callingExpiredTimers := True\<rparr>"
  note ex = expired_entries [OF inv, of now, folded es_def]
  have invp: "tq_inv p" using tq_inv_later [OF inv, of "\<lambda>e. now < fst e"] by (simp add: p_def tq_inv_def)
  have cc: "callbacks_cancel env p es = callbacks_cancel env q es" by (simp add: callbacks_cancel_def p_def)
  obtain r where r: "rfold (run_timer env) es p = Inr r" "cb_effect (callbacks_cancel env q es) p r"
    by (rule run_timers_spec [OF invp al, of es]) (use ex(2) k cc in \<open>simp_all add: p_def\<close>)
  let ?r = "r\<lparr>callingExpiredTimers := False\<rparr>"
  note f = cb_frameD [OF cb_effectD(2) [OF r(2)]]
  have kp: "snd ` set es \<subseteq> known p" using ex(2) by (simp add: p_def)
  have np: "snd ` set es \<inter> listed p = {}" using ex(3) by (simp add: p_def)
  have "a \<in> known r \<and> a \<notin> listed r" if a: "a \<in> snd ` set es" for a
  proof -
    have "a \<in> known p" using kp a by (rule subsetD)
    moreover have "a \<notin> listed p" using np a by (metis disjoint_iff)
    ultimately show ?thesis using f(2,3) [of a] by (intro conjI)
  qed
  then have "snd ` set es \<subseteq> known ?r" "snd ` set es \<inter> listed ?r = {}"
    unfolding disjoint_iff by (intro subsetI allI impI, simp)+
  moreover have "tq_inv ?r" using cb_effectD(1) [OF r(2)] by simp
  ultimately obtain q' where q': "reset env es now ?r = Inr q'" "tq_inv q'"
    "set (timerList q') = set (timerList ?r) \<union> rescheduled ?r now (set es)"
    "timerList q' \<noteq> [] \<longrightarrow> valid (fst (hd (timerList q'))) \<longrightarrow>
       alarm q' = Some (howMuchTimeFromNow (clk env (ticks q' - 1)) (fst (hd (timerList q'))))"
    using reset_spec [OF _ ex(1)] by metis
  have "getExpired now (q\<lparr>ticks := Suc (ticks q)\<rparr>) =
      Inr (es, q\<lparr>ticks := Suc (ticks q), timerList := filter (\<lambda>e. now < fst e) (timerList q)\<rparr>)"
    using getExpired_spec [of "q\<lparr>ticks := Suc (ticks q)\<rparr>" now] inv one by (simp add: es_def)
  then have "handleRead env q = Inr q'"
    using r(1) q'(1) by (simp add: handleRead_def read_clock_def p_def flip: now_def)
  then show ?thesis
    using that [OF _ q'(2) p_def r(2)] q'(3,4) by (simp add: rescheduled_def)
qed

text \<open>A firing at which at most one timer expires exactly at the time read.\<close>

lemma handleRead_fires:
  fixes env q
  defines "now \<equiv> clk env (ticks q)"
  defines "C \<equiv> callbacks_cancel env q (filter (\<lambda>e. fst e \<le> now) (timerList q))"
  assumes inv: "tq_inv q" and al: "alloc_ok env"
    and one: "length (filter (\<lambda>e. fst e = now) (timerList q)) \<le> 1"
    and k: "C \<subseteq> dom (map_of (timers q))"
  shows "\<exists>q'. handleRead env q = Inr q' \<and> tq_inv q' \<and>
    (\<forall>t a tm. (t, a) \<in> set (timerList q) \<longrightarrow> map_of (timers q) a = Some tm \<longrightarrow>
       (if now < t then if a \<in> C then a \<notin> listed q' else (t, a) \<in> set (timerList q')
        else if repeats tm \<and> a \<notin> C then (addTime now (interval tm), a) \<in> set (timerList q')
        else a \<notin> listed q')) \<and>
    (timerList q' \<noteq> [] \<longrightarrow> valid (fst (hd (timerList q'))) \<longrightarrow>
       alarm q' = Some (howMuchTimeFromNow (clk env (ticks q' - 1)) (fst (hd (timerList q')))))"
proof -
  let ?es = "filter (\<lambda>e. fst e \<le> now) (timerList q)"
  obtain q' p r where q': "handleRead env q = Inr q'" "tq_inv q'"
    and p: "p = q\<lparr>ticks := Suc (ticks q), timerList := filter (\<lambda>e. now < fst e) (timerList q),
           cancelingTimers := [], callingExpiredTimers := True\<rparr>"
    and r: "cb_effect C p r"
    and l: "set (timerList q') = set (timerList r) \<union> rescheduled r now (set ?es)"
    and al: "timerList q' \<noteq> [] \<longrightarrow> valid (fst (hd (timerList q'))) \<longrightarrow>
       alarm q' = Some (howMuchTimeFromNow (clk env (ticks q' - 1)) (fst (hd (timerList q'))))"
    using handleRead_run [OF inv al one [unfolded now_def] k [unfolded C_def now_def]]
    unfolding C_def now_def .
  note e = cb_effectD [OF r] note f = cb_frameD [OF e(2)]
  have lst: "listed q' = listed r \<union> snd ` rescheduled r now (set ?es)" by (simp add: l image_Un)
  show ?thesis
  proof (intro exI [of _ q'] conjI allI impI)
    fix t a tm assume a: "(t, a) \<in> set (timerList q)" and tm: "map_of (timers q) a = Some tm"
    have tmr: "map_of (timers r) a = Some tm" using f(1) tm by (simp add: p)
    have res: "(x, a) \<in> rescheduled r now (set ?es) \<longleftrightarrow>
      x = addTime now (interval tm) \<and> t \<le> now \<and> repeats tm \<and> a \<notin> set (cancelingTimers r)" for x
    proof -
      have "a \<in> snd ` set ?es \<longleftrightarrow> t \<le> now"
        using a by (auto dest: listed_unique [OF inv a] intro!: image_eqI [of _ _ "(t, a)"])
      then show ?thesis unfolding rescheduled_mem [OF tmr] by metis
    qed
    show "if now < t then if a \<in> C then a \<notin> listed q' else (t, a) \<in> set (timerList q')
        else if repeats tm \<and> a \<notin> C then (addTime now (interval tm), a) \<in> set (timerList q')
        else a \<notin> listed q'"
    proof (cases "now < t")
      case True
      then have "a \<notin> snd ` rescheduled r now (set ?es)" using res by auto
      moreover have "(t, a) \<in> set (timerList p)" using a True by (simp add: p)
      ultimately show ?thesis using True e(3) [of a] e(6) [of t a] by (auto simp: l)
    next
      case False
      have np: "a \<notin> listed p" using False by (auto simp: p dest: listed_unique [OF inv a])
      then have nr: "a \<notin> listed r" using f(3) [of a] tm by (auto simp: p)
      have "a \<in> set (cancelingTimers r) \<longleftrightarrow> a \<in> C"
        using e(4) e(5) [of a] np by (auto simp: p)
      with False nr res show ?thesis by (auto simp: l lst)
    qed
  qed (use q' al in auto)
qed

text \<open>
  C12.  A firing of the alarm.  Let the queue be well-formed and let the callbacks of the expired timers cancel
  only timers that exist (set \<open>C\<close>); the callbacks may also add timers.  If at most one scheduled timer
  expires exactly at the time \<open>now\<close> that the handler reads, \<^verbatim>\<open>handleRead\<close> succeeds and keeps the queue
  well-formed: a timer due later stays scheduled at its time unless a callback cancelled it, and then it
  is gone; an expired timer is scheduled again, one interval from \<open>now\<close>, exactly if it repeats and no
  callback of this round (its own included) cancelled it; unless the queue ends up empty, the alarm is
  then set for the earliest timer.  If two or more timers expire exactly at \<open>now\<close>, the assertion in
  \<^verbatim>\<open>getExpired\<close> fails and stops the program.\<close>
theorem handleRead_correct:
  fixes env q
  defines "now \<equiv> clk env (ticks q)"
  defines "C \<equiv> callbacks_cancel env q (filter (\<lambda>e. fst e \<le> now) (timerList q))"
  assumes inv: "tq_inv q" and al: "alloc_ok env" and k: "C \<subseteq> dom (map_of (timers q))"
  shows "if length (filter (\<lambda>e. fst e = now) (timerList q)) \<le> 1
    then \<exists>q'. handleRead env q = Inr q' \<and> tq_inv q' \<and>
      (\<forall>t a tm. (t, a) \<in> set (timerList q) \<longrightarrow> map_of (timers q) a = Some tm \<longrightarrow>
         (if now < t then if a \<in> C then a \<notin> listed q' else (t, a) \<in> set (timerList q')
          else if repeats tm \<and> a \<notin> C then (addTime now (interval tm), a) \<in> set (timerList q')
          else a \<notin> listed q')) \<and>
      (timerList q' \<noteq> [] \<longrightarrow> valid (fst (hd (timerList q'))) \<longrightarrow>
         alarm q' = Some (howMuchTimeFromNow (clk env (ticks q' - 1)) (fst (hd (timerList q')))))
    else handleRead env q = Inl (AssertFailed ''lastExpired == timerList_.end() || lastExpired->first > now'')"
proof (cases "length (filter (\<lambda>e. fst e = now) (timerList q)) \<le> 1")
  case True
  then show ?thesis
    unfolding if_P [OF True] using handleRead_fires [OF inv al, folded now_def, folded C_def] k by blast
next
  case False
  have "tq_inv (q\<lparr>ticks := Suc (ticks q)\<rparr>)" using inv by (simp add: tq_inv_def)
  with False show ?thesis
    using getExpired_spec [of "q\<lparr>ticks := Suc (ticks q)\<rparr>" now] by (simp add: handleRead_def read_clock_def flip: now_def)
qed

text \<open>A concrete environment: the smallest address above all used ones, a stopped clock, and a
  callback 0 that cancels the timer at address 2.\<close>

definition first_free :: "(nat, 'v) std_map \<Rightarrow> nat" where
  "first_free m = Suc (sum_list (map fst m))"

lemma first_free_unused: "map_of m (first_free m) = None"
proof -
  have "k \<le> sum_list (map fst m)" if "(k, v) \<in> set m" for k v
    using that by (intro member_le_sum_list) (auto simp: image_iff intro: bexI [of _ "(k, v)"])
  then show ?thesis by (fastforce simp: map_of_eq_None_iff first_free_def)
qed

definition sample_env :: timer_env where
  "sample_env = \<lparr>clk = (\<lambda>n. Timestamp 5000000), alloc = first_free,
     prog = (\<lambda>cb. if cb = 0 then [ActCancel \<lparr>id_timer = 2, id_serial = 2\<rparr>, ActAdd 1 (Timestamp 9000000) 0] else [])\<rparr>"

definition sample_queue :: timer_queue where
  "sample_queue = (new_timer_queue 2)
     \<lparr>timers := [(1, \<lparr>callback = 0, expiration = Timestamp 4000000, interval = 2, repeats = True, serialNum = 1\<rparr>),
                 (2, \<lparr>callback = 1, expiration = Timestamp 8000000, interval = 0, repeats = False, serialNum = 2\<rparr>)],
      timerList := [(Timestamp 4000000, 1), (Timestamp 8000000, 2)]\<rparr>"

lemmas sample_defs = sample_env_def sample_queue_def new_timer_queue_def
  less_timestamp_def operator_less_def less_eq_timestamp_def

lemma sample_queue_inv: "tq_inv sample_queue"
  by (simp add: sample_defs tq_inv_def map_ok_def)

lemma sample_env_alloc: "alloc_ok sample_env"
  by (simp add: sample_env_def alloc_ok_def first_free_unused)

theorem handleRead_correct_witness:
  "\<exists>q'. handleRead sample_env sample_queue = Inr q' \<and> tq_inv q' \<and>
     (Timestamp 7000000, 1) \<in> set (timerList q') \<and> 2 \<notin> listed q'"
proof -
  have c: "callbacks_cancel sample_env sample_queue
      (filter (\<lambda>e. fst e \<le> clk sample_env (ticks sample_queue)) (timerList sample_queue)) = {2}"
    by (simp add: sample_defs callbacks_cancel_def)
  have t: "addTime (clk sample_env (ticks sample_queue)) 2 = Timestamp 7000000"
    using addTime_seconds [of 2] by (simp add: sample_defs kMicrosecondsPerSecond_def)
  have hyps: "length (filter (\<lambda>e. fst e = clk sample_env (ticks sample_queue)) (timerList sample_queue)) \<le> 1"
    "{2} \<subseteq> dom (map_of (timers sample_queue))"
    by (simp_all add: sample_defs)
  obtain q' where q': "handleRead sample_env sample_queue = Inr q'" "tq_inv q'"
    "\<And>t a tm. (t, a) \<in> set (timerList sample_queue) \<Longrightarrow> map_of (timers sample_queue) a = Some tm \<Longrightarrow>
       (if clk sample_env (ticks sample_queue) < t then if a \<in> {2} then a \<notin> listed q' else (t, a) \<in> set (timerList q')
        else if repeats tm \<and> a \<notin> {2} then (addTime (clk sample_env (ticks sample_queue)) (interval tm), a) \<in> set (timerList q')
        else a \<notin> listed q')"
    using handleRead_correct [OF sample_queue_inv sample_env_alloc] hyps unfolding c if_P [OF hyps(1)] by blast
  have "(Timestamp 7000000, 1) \<in> set (timerList q')"
    using q'(3) [of "Timestamp 4000000" 1] t by (simp add: sample_defs)
  moreover have "2 \<notin> listed q'"
    using q'(3) [of "Timestamp 8000000" 2] by (simp add: sample_defs)
  ultimately show ?thesis using q'(1,2) by blast
qed

text \<open>
  The expiry rule has one blind spot: \<^verbatim>\<open>getExpired\<close> steps over a single entry that expires exactly
  at \<open>now\<close>, so on a well-formed queue it succeeds, returning precisely the due timers in order and
  leaving precisely the later ones, if at most one timer expires at that microsecond, and otherwise
  its assertion stops the program.\<close>
theorem getExpired_correct:
  assumes "tq_inv q"
  shows "getExpired now q =
    (if length (filter (\<lambda>e. fst e = now) (timerList q)) \<le> 1
     then Inr (filter (\<lambda>e. fst e \<le> now) (timerList q),
               q\<lparr>timerList := filter (\<lambda>e. now < fst e) (timerList q)\<rparr>)
     else Inl (AssertFailed ''lastExpired == timerList_.end() || lastExpired->first > now''))"
  using assms by (rule getExpired_spec)

theorem getExpired_correct_witness:
  "getExpired (Timestamp 4000000) sample_queue =
    Inr ([(Timestamp 4000000, 1)], sample_queue\<lparr>timerList := [(Timestamp 8000000, 2)]\<rparr>)"
  using getExpired_correct [OF sample_queue_inv, of "Timestamp 4000000"] by (simp add: sample_defs)

text \<open>
  Scheduling and cancelling.  In the loop thread, \<^verbatim>\<open>addTimer\<close> on a well-formed queue schedules one
  new timer at the given time and leaves every other entry alone; if it is due before all others, the
  alarm is set for it.  Cancelling with the returned \<^verbatim>\<open>TimerId\<close> gives back the list of before.\<close>
theorem addTimer_cancel:
  assumes inv: "tq_inv q" and al: "alloc_ok env"
  shows "\<exists>tid q1 q2. addTimer env True cb when i q = Inr (tid, None, q1) \<and> tq_inv q1 \<and>
    id_timer tid \<notin> listed q \<and> timerList q1 = set_insert (when, id_timer tid) (timerList q) \<and>
    (timerList q = [] \<or> when < fst (hd (timerList q)) \<longrightarrow>
       alarm q1 = Some (howMuchTimeFromNow (clk env (ticks q)) when)) \<and>
    cancelTimer True tid q1 = Inr (None, q2) \<and> tq_inv q2 \<and> timerList q2 = timerList q"
proof -
  define a where "a = alloc env (timers q)"
  define tm where "tm = fst (Timer_ctor cb when i (numCreated q))"
  define q0 where "q0 = q\<lparr>timers := map_set a tm (timers q), numCreated := snd (Timer_ctor cb when i (numCreated q))\<rparr>"
  have fresh: "map_of (timers q) a = None" using al by (simp add: a_def alloc_ok_def)
  then have new: "a \<notin> listed q" using listed_known [OF inv] by auto
  have e: "expiration tm = when" by (simp add: tm_def Timer_ctor_def Let_def)
  have tm0: "map_of (timers q0) a = Some tm" by (simp add: q0_def map_of_map_set)
  have inv0: "tq_inv q0" using tq_inv_update_unlisted [OF inv new] by (simp add: q0_def)
  have new0: "a \<notin> listed q0" using new by (simp add: q0_def)
  obtain q1 where q1: "addTimerInLoop env a q0 = Inr q1" "tq_inv q1" "timers q1 = timers q0"
    using addTimerInLoop_spec [OF inv0 tm0 new0] by blast
  have "(when, a) \<notin> set (timerList q)" using new by force
  then have l1: "timerList q1 = set_insert (when, a) (timerList q)"
    and al1: "timerList q = [] \<or> when < fst (hd (timerList q)) \<longrightarrow>
       alarm q1 = Some (howMuchTimeFromNow (clk env (ticks q)) when)"
    using q1(1) tm0 e
    by (auto simp: addTimerInLoop_def insertTimer_def timer_at_def Let_def q0_def resetAlarmFd_eq split: if_splits)
  have ok: "set_ok (timerList q)" using inv by (simp add: tq_inv_def)
  let ?tid = "\<lparr>id_timer = a, id_serial = serialNum tm\<rparr>"
  let ?q2 = "q1\<lparr>timerList := set_erase (when, a) (timerList q1)\<rparr>"
  have "cancelTimerInLoop ?tid q1 = Inr ?q2"
    using tm0 e by (simp add: cancelTimerInLoop_def timer_at_def q1(3) l1)
  moreover have "timerList ?q2 = timerList q"
    using ok \<open>(when, a) \<notin> set (timerList q)\<close> by (simp add: l1 set_erase_insert)
  moreover have "tq_inv ?q2" using q1(2) by (auto simp: tq_inv_def set_ok_erase)
  moreover have "addTimer env True cb when i q = Inr (?tid, None, q1)"
    using q1(1) by (simp add: addTimer_def Let_def split_beta tm_def q0_def flip: a_def)
  ultimately show ?thesis
    using q1(2) new l1 al1 by (intro exI [of _ ?tid] exI [of _ q1] exI [of _ ?q2]) (simp add: cancelTimer_def)
qed

theorem addTimer_cancel_witness:
  "\<exists>tid q1 q2. addTimer sample_env True 7 (Timestamp 6000000) 0 sample_queue = Inr (tid, None, q1) \<and>
    timerList q1 = set_insert (Timestamp 6000000, id_timer tid) (timerList sample_queue) \<and>
    cancelTimer True tid q1 = Inr (None, q2) \<and> timerList q2 = timerList sample_queue"
  using addTimer_cancel [OF sample_queue_inv sample_env_alloc] by blast

text \<open>
  The relative time given to \<^verbatim>\<open>timerfd_settime\<close> is always a positive and legal \<^verbatim>\<open>timespec\<close>, even for a
  time in the past or one so far away that the subtraction wraps: never zero, which would disarm the
  alarm, with at least 100 microseconds and fewer than \<open>10\<^sup>9\<close> nanoseconds; without wrap-around it is
  exactly the time left, and at least that.\<close>
theorem howMuchTimeFromNow_bounds:
  fixes now "when" :: timestamp
  defines "ts \<equiv> howMuchTimeFromNow now when"
  shows "0 \<le> tv_sec ts \<and> 0 \<le> tv_nsec ts \<and> tv_nsec ts < 10 ^ 9 \<and>
    100000 \<le> tv_sec ts * 10 ^ 9 + tv_nsec ts \<and>
    tv_sec ts * 10 ^ 9 + tv_nsec ts =
      1000 * max 100 (sint (microsecondsFromEpoch when - microsecondsFromEpoch now))"
proof -
  define d where "d = max 100 (sint (microsecondsFromEpoch when - microsecondsFromEpoch now))"
  have d: "100 \<le> d" by (simp add: d_def)
  have ts: "ts = \<lparr>tv_sec = d div 1000000, tv_nsec = d mod 1000000 * 1000\<rparr>"
    using d by (simp add: ts_def howMuchTimeFromNow_def Let_def kMicrosecondsPerSecond_def d_def max_def
        signed_divide_int_def signed_modulo_int_def)
  have "x * 1000000 + y = d \<Longrightarrow> x * 10 ^ 9 + y * 1000 = 1000 * d" for x y by simp
  then have "d div 1000000 * 10 ^ 9 + d mod 1000000 * 1000 = 1000 * d" by (simp only: div_mult_mod_eq)
  then show ?thesis using d unfolding ts by (simp flip: d_def)
qed

end
