(* ===== verification/EventLoop.thy ===== *)
theory EventLoop
  imports Epoller TimerQueue
begin

text \<open>
  Model of \<^verbatim>\<open>ham/net/EventLoop.{h,cc}\<close> and of the operations of \<^verbatim>\<open>Channel\<close> that go through the loop.
  The state extends that of the poller.  \<open>wakeupCount\<close> is the counter of the event descriptor
  \<^verbatim>\<open>wakeup_fd_\<close>: writing adds to it, reading resets it.  Functors are values of a type variable; an
  operation that runs one takes the interpreter \<open>run\<close> as an argument, and likewise for the
  callbacks of channels.  The first part is the code of one thread; the last part is the interleaving
  of the loop thread with other threads.
\<close>

record ('k, 'f) event_loop = "'k epoller" +
  this_loop :: nat
  looping :: bool
  quit_flag :: bool
  eventHandling :: bool
  callingPendingFunctors :: bool
  epollerReturnTime :: timestamp
  wakeupChannel :: nat
  alarmChannel :: nat
  wakeupCount :: nat
  activeChannels :: "nat list"
  pendingFunctors :: "'f list"

section \<open>Channels and the loop\<close>

definition updateChannel ::
  "'k epoll_ctl_fn \<Rightarrow> int \<Rightarrow> nat \<Rightarrow> ('k, 'f, 'z) event_loop_scheme \<Rightarrow> ('k, 'f, 'z) event_loop_scheme result" where
  "updateChannel epoll_ctl tid a l =
     rbind (chan_at a l) (\<lambda>c.
       assert_that (ownerLoop c = this_loop l) ''channel->ownerLoop() == this''
       (assertInLoopThread tid l (poller_updateChannel epoll_ctl tid a l)))"

definition removeChannel ::
  "'k epoll_ctl_fn \<Rightarrow> int \<Rightarrow> nat \<Rightarrow> ('k, 'f, 'z) event_loop_scheme \<Rightarrow> ('k, 'f, 'z) event_loop_scheme result" where
  "removeChannel epoll_ctl tid a l =
     rbind (chan_at a l) (\<lambda>c.
       assert_that (ownerLoop c = this_loop l) ''channel->ownerLoop() == this''
       (assertInLoopThread tid l (poller_removeChannel epoll_ctl tid a l)))"

text \<open>A change of the event mask followed by \<^verbatim>\<open>update()\<close>.\<close>

definition with_update ::
  "(channel \<Rightarrow> channel) \<Rightarrow> 'k epoll_ctl_fn \<Rightarrow> int \<Rightarrow> nat \<Rightarrow> ('k, 'f, 'z) event_loop_scheme \<Rightarrow>
   ('k, 'f, 'z) event_loop_scheme result" where
  "with_update g epoll_ctl tid a l =
     rbind (chan_at a l) (\<lambda>c. updateChannel epoll_ctl tid a (set_chan a (g c) l))"

definition enableReading ::
  "'k epoll_ctl_fn \<Rightarrow> int \<Rightarrow> nat \<Rightarrow> ('k, 'f, 'z) event_loop_scheme \<Rightarrow> ('k, 'f, 'z) event_loop_scheme result" where
  "enableReading = with_update read_on"

definition enableWriting ::
  "'k epoll_ctl_fn \<Rightarrow> int \<Rightarrow> nat \<Rightarrow> ('k, 'f, 'z) event_loop_scheme \<Rightarrow> ('k, 'f, 'z) event_loop_scheme result" where
  "enableWriting = with_update write_on"

definition disableWriting ::
  "'k epoll_ctl_fn \<Rightarrow> int \<Rightarrow> nat \<Rightarrow> ('k, 'f, 'z) event_loop_scheme \<Rightarrow> ('k, 'f, 'z) event_loop_scheme result" where
  "disableWriting = with_update write_off"

definition disableAll ::
  "'k epoll_ctl_fn \<Rightarrow> int \<Rightarrow> nat \<Rightarrow> ('k, 'f, 'z) event_loop_scheme \<Rightarrow> ('k, 'f, 'z) event_loop_scheme result" where
  "disableAll = with_update all_off"

text \<open>
  \<^verbatim>\<open>handleEventWithGuard\<close>: the callbacks in the order of the code, each behind its test of \<^verbatim>\<open>revent_\<close>.
  \<open>run\<close> runs a callback of the channel.
\<close>

definition call_due ::
  "(nat \<Rightarrow> channel_cb \<Rightarrow> ('k, 'z) epoller_scheme \<Rightarrow> ('k, 'z) epoller_scheme result) \<Rightarrow> nat \<Rightarrow> channel_cb \<Rightarrow>
   ('k, 'z) epoller_scheme \<Rightarrow> ('k, 'z) epoller_scheme result" where
  "call_due run a cb l = rbind (chan_at a l) (\<lambda>c. if cb_due cb c then run a cb l else Inr l)"

definition set_handling :: "bool \<Rightarrow> nat \<Rightarrow> ('k, 'z) epoller_scheme \<Rightarrow> ('k, 'z) epoller_scheme result" where
  "set_handling b a l = rbind (chan_at a l) (\<lambda>c. Inr (set_chan a (c\<lparr>isHandlingEvent := b\<rparr>) l))"

definition handleEventWithGuard ::
  "(nat \<Rightarrow> channel_cb \<Rightarrow> ('k, 'z) epoller_scheme \<Rightarrow> ('k, 'z) epoller_scheme result) \<Rightarrow> nat \<Rightarrow>
   ('k, 'z) epoller_scheme \<Rightarrow> ('k, 'z) epoller_scheme result" where
  "handleEventWithGuard run a l =
     rbind (set_handling True a l) (\<lambda>l.
     rbind (call_due run a CloseCb l) (\<lambda>l.
     rbind (call_due run a ErrorCb l) (\<lambda>l.
     rbind (call_due run a ReadCb l) (\<lambda>l.
     rbind (call_due run a WriteCb l) (\<lambda>l.
     set_handling False a l)))))"

text \<open>\<open>alive\<close> says whether the tied object still exists, that is, whether \<^verbatim>\<open>tie_.lock()\<close> succeeds.\<close>

definition handleEvent ::
  "(nat \<Rightarrow> bool) \<Rightarrow> (nat \<Rightarrow> channel_cb \<Rightarrow> ('k, 'z) epoller_scheme \<Rightarrow> ('k, 'z) epoller_scheme result) \<Rightarrow> nat \<Rightarrow>
   ('k, 'z) epoller_scheme \<Rightarrow> ('k, 'z) epoller_scheme result" where
  "handleEvent alive run a l =
     rbind (chan_at a l) (\<lambda>c.
       if tied c then (if alive (tie c) then handleEventWithGuard run a l else Inr l)
       else handleEventWithGuard run a l)"

section \<open>Functors, wakeup and the loop\<close>

definition wakeup :: "('k, 'f, 'z) event_loop_scheme \<Rightarrow> ('k, 'f, 'z) event_loop_scheme" where
  "wakeup l = l\<lparr>wakeupCount := wakeupCount l + 1\<rparr>"

definition handleWakeupFd :: "('k, 'f, 'z) event_loop_scheme \<Rightarrow> ('k, 'f, 'z) event_loop_scheme" where
  "handleWakeupFd l = l\<lparr>wakeupCount := 0\<rparr>"

text \<open>\<^verbatim>\<open>queueInLoop\<close>: the push under the mutex, then the wakeup unless the loop will look anyway.\<close>

definition push_functor :: "'f \<Rightarrow> ('k, 'f, 'z) event_loop_scheme \<Rightarrow> ('k, 'f, 'z) event_loop_scheme" where
  "push_functor f l = l\<lparr>pendingFunctors := pendingFunctors l @ [f]\<rparr>"

definition queueInLoop :: "int \<Rightarrow> 'f \<Rightarrow> ('k, 'f, 'z) event_loop_scheme \<Rightarrow> ('k, 'f, 'z) event_loop_scheme" where
  "queueInLoop tid f l =
     (let l1 = push_functor f l in
      if \<not> isInLoopThread tid l1 \<or> callingPendingFunctors l1 then wakeup l1 else l1)"

definition runInLoop ::
  "('f \<Rightarrow> ('k, 'f, 'z) event_loop_scheme \<Rightarrow> ('k, 'f, 'z) event_loop_scheme result) \<Rightarrow> int \<Rightarrow> 'f \<Rightarrow>
   ('k, 'f, 'z) event_loop_scheme \<Rightarrow> ('k, 'f, 'z) event_loop_scheme result" where
  "runInLoop run tid f l = (if isInLoopThread tid l then run f l else Inr (queueInLoop tid f l))"

definition quit :: "int \<Rightarrow> ('k, 'f, 'z) event_loop_scheme \<Rightarrow> ('k, 'f, 'z) event_loop_scheme" where
  "quit tid l =
     (let l1 = l\<lparr>quit_flag := True\<rparr> in if \<not> isInLoopThread tid l1 then wakeup l1 else l1)"

definition swap_functors :: "('k, 'f, 'z) event_loop_scheme \<Rightarrow> 'f list \<times> ('k, 'f, 'z) event_loop_scheme" where
  "swap_functors l = (pendingFunctors l, l\<lparr>callingPendingFunctors := True, pendingFunctors := []\<rparr>)"

definition doPendingFunctors ::
  "('f \<Rightarrow> ('k, 'f, 'z) event_loop_scheme \<Rightarrow> ('k, 'f, 'z) event_loop_scheme result) \<Rightarrow>
   ('k, 'f, 'z) event_loop_scheme \<Rightarrow> ('k, 'f, 'z) event_loop_scheme result" where
  "doPendingFunctors run l =
     (let (functors, l1) = swap_functors l in
      rbind (rfold run functors l1) (\<lambda>l2. Inr (l2\<lparr>callingPendingFunctors := False\<rparr>)))"

text \<open>The body of the loop, and the loop with a bound on the number of turns (it runs until \<^verbatim>\<open>quit()\<close>).\<close>

definition loop_turn ::
  "'k epoll_wait_fn \<Rightarrow> timestamp \<Rightarrow>
   (timestamp \<Rightarrow> nat \<Rightarrow> ('k, 'f, 'z) event_loop_scheme \<Rightarrow> ('k, 'f, 'z) event_loop_scheme result) \<Rightarrow>
   ('f \<Rightarrow> ('k, 'f, 'z) event_loop_scheme \<Rightarrow> ('k, 'f, 'z) event_loop_scheme result) \<Rightarrow>
   ('k, 'f, 'z) event_loop_scheme \<Rightarrow> ('k, 'f, 'z) event_loop_scheme result" where
  "loop_turn epoll_wait now handle run l =
     rbind (wait epoll_wait now [] (l\<lparr>activeChannels := []\<rparr>)) (\<lambda>(t, active, l1).
     rbind (rfold (handle t) active (l1\<lparr>activeChannels := active, epollerReturnTime := t, eventHandling := True\<rparr>)) (\<lambda>l2.
       doPendingFunctors run (l2\<lparr>eventHandling := False\<rparr>)))"

fun loop ::
  "nat \<Rightarrow> (nat \<Rightarrow> ('k, 'f, 'z) event_loop_scheme \<Rightarrow> ('k, 'f, 'z) event_loop_scheme result) \<Rightarrow>
   ('k, 'f, 'z) event_loop_scheme \<Rightarrow> ('k, 'f, 'z) event_loop_scheme result option" where
  "loop 0 turn l = None"
| "loop (Suc n) turn l =
     (if quit_flag l then Some (Inr (l\<lparr>looping := False\<rparr>))
      else case turn n (l\<lparr>looping := True\<rparr>) of Inl e \<Rightarrow> Some (Inl e) | Inr l' \<Rightarrow> loop n turn l')"

text \<open>
  Construction and destruction.  The member \<^verbatim>\<open>timerQueue_\<close> is built before the body of the constructor and
  watches its alarm descriptor; the body checks that there is no other loop in the thread and
  watches the wakeup descriptor.  The destructor drops both.
\<close>

definition new_event_loop :: "int \<Rightarrow> nat \<Rightarrow> nat \<times> int \<Rightarrow> nat \<times> int \<Rightarrow> 'k \<Rightarrow> ('k, 'f) event_loop" where
  "new_event_loop tid self wake alrm k =
     \<lparr>threadId = tid,
      channels = [(fst wake, (Channel_ctor self (snd wake))\<lparr>readCb := True\<rparr>),
                  (fst alrm, (Channel_ctor self (snd alrm))\<lparr>readCb := True\<rparr>)],
      channelMap = [], eventListSize = kInitEventListSize, kern = k,
      this_loop = self, looping = False, quit_flag = False, eventHandling = False,
      callingPendingFunctors = False, epollerReturnTime = Timestamp 0, wakeupChannel = fst wake,
      alarmChannel = fst alrm, wakeupCount = 0, activeChannels = [], pendingFunctors = []\<rparr>"

definition EventLoop_ctor ::
  "'k epoll_ctl_fn \<Rightarrow> int \<Rightarrow> nat \<Rightarrow> nat option \<Rightarrow> nat \<times> int \<Rightarrow> nat \<times> int \<Rightarrow> 'k \<Rightarrow> ('k, 'f) event_loop result" where
  "EventLoop_ctor epoll_ctl tid self loopInThisThread wake alrm k =
     rbind (enableReading epoll_ctl tid (fst alrm) (new_event_loop tid self wake alrm k)) (\<lambda>l.
       if loopInThisThread \<noteq> None then Inl (CriticalAbort ''Another EventLoop exists in this Thread'')
       else enableReading epoll_ctl tid (fst wake) l)"

definition TimerQueue_dtor ::
  "'k epoll_ctl_fn \<Rightarrow> int \<Rightarrow> ('k, 'f, 'z) event_loop_scheme \<Rightarrow> ('k, 'f, 'z) event_loop_scheme result" where
  "TimerQueue_dtor epoll_ctl tid l =
     rbind (disableAll epoll_ctl tid (alarmChannel l) l) (removeChannel epoll_ctl tid (alarmChannel l))"

definition EventLoop_dtor ::
  "'k epoll_ctl_fn \<Rightarrow> int \<Rightarrow> ('k, 'f, 'z) event_loop_scheme \<Rightarrow> ('k, 'f, 'z) event_loop_scheme result" where
  "EventLoop_dtor epoll_ctl tid l =
     assert_that (quit_flag l) ''quit_''
     (rbind (disableAll epoll_ctl tid (wakeupChannel l) l) (\<lambda>l1.
      rbind (removeChannel epoll_ctl tid (wakeupChannel l) l1) (TimerQueue_dtor epoll_ctl tid)))"

section \<open>Timers\<close>

definition runAt :: "timer_env \<Rightarrow> bool \<Rightarrow> timestamp \<Rightarrow> nat \<Rightarrow> timer_queue \<Rightarrow> (timer_id \<times> timer_functor option \<times> timer_queue) result" where
  "runAt env inLoop t cb q = addTimer env inLoop cb t 0 q"

definition runAfter :: "timer_env \<Rightarrow> bool \<Rightarrow> double \<Rightarrow> nat \<Rightarrow> timer_queue \<Rightarrow> (timer_id \<times> timer_functor option \<times> timer_queue) result" where
  "runAfter env inLoop delay cb q = (let (now, q1) = read_clock env q in runAt env inLoop (addTime now delay) cb q1)"

definition runEvery :: "timer_env \<Rightarrow> bool \<Rightarrow> double \<Rightarrow> nat \<Rightarrow> timer_queue \<Rightarrow> (timer_id \<times> timer_functor option \<times> timer_queue) result" where
  "runEvery env inLoop i cb q = (let (now, q1) = read_clock env q in addTimer env inLoop cb (addTime now i) i q1)"

definition loop_cancelTimer :: "bool \<Rightarrow> timer_id \<Rightarrow> timer_queue \<Rightarrow> (timer_functor option \<times> timer_queue) result" where
  "loop_cancelTimer inLoop tid q = cancelTimer inLoop tid q"

section \<open>Watching descriptors\<close>

text \<open>The fields beyond the poller are untouched by operations on channels.\<close>

lemma loop_fields:
  assumes "epoller.more l' = epoller.more l"
  shows "this_loop l' = this_loop l" "quit_flag l' = quit_flag l" "wakeupChannel l' = wakeupChannel l"
    "alarmChannel l' = alarmChannel l" "pendingFunctors l' = pendingFunctors l" "wakeupCount l' = wakeupCount l"
    "callingPendingFunctors l' = callingPendingFunctors l" "event_loop.more l' = event_loop.more l"
    "looping l' = looping l" "eventHandling l' = eventHandling l" "activeChannels l' = activeChannels l"
    "epollerReturnTime l' = epollerReturnTime l"
  using assms by (cases l; cases l'; simp)+

text \<open>Operations on channels change nothing beyond the poller.\<close>

lemma update_more: "update c op a s = Inr s' \<Longrightarrow> epoller.more s' = epoller.more s"
  by (auto simp: update_def rbind_eq_Inr Let_def split_beta split: if_splits)

lemma updateChannel_more: "poller_updateChannel c tid a s = Inr s' \<Longrightarrow> epoller.more s' = epoller.more s"
  by (auto simp: poller_updateChannel_def assertInLoopThread_def abortNotInLoopThread_def rbind_eq_Inr Let_def assert_that_eq_Inr
      dest!: update_more split: if_splits)

lemma with_update_more: "with_update g c tid a s = Inr s' \<Longrightarrow> epoller.more s' = epoller.more s"
  by (auto simp: with_update_def updateChannel_def assertInLoopThread_def abortNotInLoopThread_def rbind_eq_Inr assert_that_eq_Inr
      dest!: updateChannel_more split: if_splits)

text \<open>A function that changes the event mask only.\<close>

definition mask_change :: "(channel \<Rightarrow> channel) \<Rightarrow> bool" where
  "mask_change g \<longleftrightarrow> (\<forall>c. g c = c\<lparr>event := event (g c)\<rparr>)"

lemma mask_changes: "mask_change read_on" "mask_change write_on" "mask_change write_off" "mask_change all_off"
  by (simp_all add: mask_change_def read_on_def write_on_def write_off_def all_off_def)

lemma with_update_spec:
  assumes g: "mask_change g" and inv: "poller_inv reg l" and laws: "epoll_laws epoll_ctl reg" and tid: "threadId l = tid"
    and c: "map_of (channels l) a = Some c" and own: "ownerLoop c = this_loop l"
    and new: "status c = kNew \<Longrightarrow> map_of (channelMap l) (fd c) = None"
  obtains l' where "with_update g epoll_ctl tid a l = Inr l'" "after_update reg a c (event (g c)) l l'"
proof -
  have gc: "g c = c\<lparr>event := event (g c)\<rparr>" using g by (simp add: mask_change_def)
  have "ownerLoop (g c) = ownerLoop c" by (subst gc) simp
  moreover have "this_loop (set_chan a (g c) l) = this_loop l" by (simp add: set_chan_def)
  moreover obtain l' where "poller_updateChannel epoll_ctl tid a (set_chan a (c\<lparr>event := event (g c)\<rparr>) l) = Inr l'"
    "after_update reg a c (event (g c)) l l'"
    using updateChannel_spec [OF inv laws tid c new] by blast
  ultimately show ?thesis
    using own tid gc by (intro that [of l']) (simp_all add: with_update_def updateChannel_def chan_at_def c)
qed

lemma remove_spec:
  assumes inv: "poller_inv reg l" and laws: "epoll_laws epoll_ctl reg" and tid: "threadId l = tid"
    and c: "map_of (channels l) a = Some c" and own: "ownerLoop c = this_loop l"
    and none: "event c = kNoneEvent" "status c \<noteq> kNew"
  obtains l' where "removeChannel epoll_ctl tid a l = Inr l'" "after_remove reg a c l l'"
proof -
  obtain l' where "poller_removeChannel epoll_ctl tid a l = Inr l'" "after_remove reg a c l l'"
    using removeChannel_spec [OF inv laws tid c none] .
  then show ?thesis using own tid by (intro that [of l']) (simp_all add: removeChannel_def chan_at_Some [OF c])
qed

text \<open>Dropping a channel altogether.\<close>

lemma disable_remove_spec:
  assumes inv: "poller_inv reg l" and laws: "epoll_laws epoll_ctl reg" and tid: "threadId l = tid"
    and c: "map_of (channels l) a = Some c" and own: "ownerLoop c = this_loop l" and st: "status c \<noteq> kNew"
  obtains l1 l2 where "disableAll epoll_ctl tid a l = Inr l1" "removeChannel epoll_ctl tid a l1 = Inr l2" "poller_inv reg l2"
    "map_of (channels l2) = (map_of (channels l))(a \<mapsto> c\<lparr>event := kNoneEvent, status := kNew\<rparr>)"
    "map_of (channelMap l2) = (map_of (channelMap l))(fd c := None)"
    "reg (kern l2) = (reg (kern l))(fd c := None)" "threadId l2 = threadId l" "epoller.more l2 = epoller.more l"
proof -
  have e: "event (all_off c) = kNoneEvent" by (simp add: all_off_def)
  obtain l1 where l1: "disableAll epoll_ctl tid a l = Inr l1" "after_update reg a c kNoneEvent l l1"
    using with_update_spec [OF mask_changes(4) inv laws tid c own] st unfolding disableAll_def e by blast
  let ?c = "c\<lparr>event := kNoneEvent, status := next_status (status c) kNoneEvent\<rparr>"
  note u = l1(2) [unfolded after_update_def]
  have more: "epoller.more l1 = epoller.more l" using u by blast
  obtain l2 where l2: "removeChannel epoll_ctl tid a l1 = Inr l2" "after_remove reg a ?c l1 l2"
    by (rule remove_spec [of reg l1 epoll_ctl tid a ?c])
      (use u laws tid own loop_fields(1) [OF more] in \<open>simp_all add: next_status_def\<close>)
  show ?thesis
    by (rule that [OF l1(1) l2(1)]) (use u l2(2) in \<open>simp_all add: after_remove_def\<close>)
qed


text \<open>
  The interface the clients of the loop (connections, acceptor, connector) rely on: what watching a
  descriptor and dropping it do, for a state that is fine.  \<open>rest\<close> is the part of the state that these
  operations leave alone.
\<close>

locale descriptor_watch =
  fixes fine :: "'s \<Rightarrow> bool"
    and chan :: "'s \<Rightarrow> nat \<Rightarrow> channel option"
    and user_of :: "'s \<Rightarrow> int \<Rightarrow> nat option"
    and watched :: "'s \<Rightarrow> int \<Rightarrow> (event_mask \<times> nat) option"
    and rest :: "'s \<Rightarrow> 'm"
    and set_mask :: "(channel \<Rightarrow> channel) \<Rightarrow> nat \<Rightarrow> 's \<Rightarrow> 's result"
    and drop_chan :: "nat \<Rightarrow> 's \<Rightarrow> 's result"
  assumes set_mask_law:
    "\<lbrakk>fine s; mask_change g; chan s a = Some c; status c = kNew \<Longrightarrow> user_of s (fd c) = None\<rbrakk> \<Longrightarrow>
     \<exists>s'. set_mask g a s = Inr s' \<and> fine s' \<and>
       chan s' = (chan s)(a \<mapsto> c\<lparr>event := event (g c), status := next_status (status c) (event (g c))\<rparr>) \<and>
       user_of s' = (user_of s)(fd c \<mapsto> a) \<and>
       watched s' = (watched s)(fd c :=
         if next_status (status c) (event (g c)) = kAdded then Some (event (g c), a) else None) \<and> rest s' = rest s"
    and drop_law:
    "\<lbrakk>fine s; chan s a = Some c; event c = kNoneEvent; status c \<noteq> kNew\<rbrakk> \<Longrightarrow>
     \<exists>s'. drop_chan a s = Inr s' \<and> fine s' \<and> chan s' = (chan s)(a \<mapsto> c\<lparr>status := kNew\<rparr>) \<and>
       user_of s' = (user_of s)(fd c := None) \<and> watched s' = (watched s)(fd c := None) \<and> rest s' = rest s"
begin

text \<open>Watching a descriptor for reading and dropping it again leaves no trace in the kernel.\<close>

lemma watch_drop:
  assumes s: "fine s" and c: "chan s a = Some c" and new: "status c = kNew" "user_of s (fd c) = None" "watched s (fd c) = None"
  shows "\<exists>s1 s2 s3. set_mask read_on a s = Inr s1 \<and> watched s1 (fd c) = Some (event c OR kReadEvent, a) \<and>
     set_mask all_off a s1 = Inr s2 \<and> watched s2 (fd c) = None \<and> drop_chan a s2 = Inr s3 \<and> fine s3 \<and>
     watched s3 = watched s \<and> user_of s3 = user_of s \<and> rest s3 = rest s"
proof -
  have e: "event (read_on c) = event c OR kReadEvent" "event (all_off d) = kNoneEvent" for d
    by (simp_all add: read_on_def all_off_def)
  obtain s1 where s1: "set_mask read_on a s = Inr s1" "fine s1"
    "chan s1 = (chan s)(a \<mapsto> c\<lparr>event := event c OR kReadEvent, status := kAdded\<rparr>)"
    "user_of s1 = (user_of s)(fd c \<mapsto> a)" "watched s1 = (watched s)(fd c \<mapsto> (event c OR kReadEvent, a))" "rest s1 = rest s"
    using set_mask_law [OF s mask_changes(1) c] new by (auto simp: next_status_def e)
  let ?c1 = "c\<lparr>event := event c OR kReadEvent, status := kAdded\<rparr>"
  let ?c2 = "?c1\<lparr>event := kNoneEvent, status := kDismissed\<rparr>"
  have c1: "chan s1 a = Some ?c1" by (simp add: s1(3))
  have "\<exists>s2. set_mask all_off a s1 = Inr s2 \<and> fine s2 \<and> chan s2 = (chan s1)(a \<mapsto> ?c2) \<and>
      user_of s2 = (user_of s1)(fd c \<mapsto> a) \<and> watched s2 = (watched s1)(fd c := None) \<and> rest s2 = rest s1"
    using set_mask_law [OF s1(2) mask_changes(4) c1] by (simp add: next_status_def e)
  then obtain s2 where s2: "set_mask all_off a s1 = Inr s2" "fine s2"
    "chan s2 = (chan s1)(a \<mapsto> ?c2)"
    "user_of s2 = (user_of s1)(fd c \<mapsto> a)" "watched s2 = (watched s1)(fd c := None)" "rest s2 = rest s1"
    by blast
  have c2: "chan s2 a = Some ?c2" by (simp add: s2(3))
  have "\<exists>s3. drop_chan a s2 = Inr s3 \<and> fine s3 \<and> user_of s3 = (user_of s2)(fd c := None) \<and>
      watched s3 = (watched s2)(fd c := None) \<and> rest s3 = rest s2"
    using drop_law [OF s2(2) c2] by auto
  then obtain s3 where "drop_chan a s2 = Inr s3" "fine s3" "user_of s3 = (user_of s2)(fd c := None)"
    "watched s3 = (watched s2)(fd c := None)" "rest s3 = rest s2"
    by blast
  with s1 s2 new show ?thesis by (simp add: fun_upd_idem)
qed

end

text \<open>The loop is fine: the kernel behaves, the poller's books agree and all channels belong to it.\<close>

definition loop_ok ::
  "'k epoll_ctl_fn \<Rightarrow> ('k \<Rightarrow> int \<Rightarrow> (event_mask \<times> nat) option) \<Rightarrow> int \<Rightarrow> ('k, 'f, 'z) event_loop_scheme \<Rightarrow> bool" where
  "loop_ok epoll_ctl reg tid l \<longleftrightarrow> epoll_laws epoll_ctl reg \<and> poller_inv reg l \<and> threadId l = tid \<and>
     (\<forall>a c. map_of (channels l) a = Some c \<longrightarrow> ownerLoop c = this_loop l)"

lemma loop_ok_step:
  assumes "loop_ok epoll_ctl reg tid l" and "poller_inv reg l'" and "threadId l' = threadId l"
    and "epoller.more l' = epoller.more l"
    and "map_of (channels l') = (map_of (channels l))(a \<mapsto> c')" and "ownerLoop c' = this_loop l"
  shows "loop_ok epoll_ctl reg tid l'"
  using assms loop_fields(1) [OF assms(4)] by (auto simp: loop_ok_def)

interpretation loop_watch: descriptor_watch
  "loop_ok epoll_ctl reg tid" "\<lambda>l. map_of (channels l)" "\<lambda>l. map_of (channelMap l)" "\<lambda>l. reg (kern l)"
  "\<lambda>l. (threadId l, eventListSize l, epoller.more l)" "\<lambda>g. with_update g epoll_ctl tid" "removeChannel epoll_ctl tid"
  for epoll_ctl reg tid
proof unfold_locales
  fix l :: "('a, 'b, 'c) event_loop_scheme" and g a c
  assume ok: "loop_ok epoll_ctl reg tid l" and g: "mask_change g" and c: "map_of (channels l) a = Some c"
    and new: "status c = kNew \<Longrightarrow> map_of (channelMap l) (fd c) = None"
  have own: "ownerLoop c = this_loop l" using ok c by (simp add: loop_ok_def)
  obtain l' where l': "with_update g epoll_ctl tid a l = Inr l'" "after_update reg a c (event (g c)) l l'"
    using with_update_spec [OF g _ _ _ c own new] ok unfolding loop_ok_def by blast
  then have "loop_ok epoll_ctl reg tid l'"
    by (intro loop_ok_step [OF ok]) (auto simp: after_update_def own)
  with l' show "\<exists>s'. with_update g epoll_ctl tid a l = Inr s' \<and> loop_ok epoll_ctl reg tid s' \<and>
       map_of (channels s') = (map_of (channels l))(a \<mapsto> c\<lparr>event := event (g c), status := next_status (status c) (event (g c))\<rparr>) \<and>
       map_of (channelMap s') = (map_of (channelMap l))(fd c \<mapsto> a) \<and>
       reg (kern s') = (reg (kern l))(fd c :=
         if next_status (status c) (event (g c)) = kAdded then Some (event (g c), a) else None) \<and>
       (threadId s', eventListSize s', epoller.more s') = (threadId l, eventListSize l, epoller.more l)"
    unfolding after_update_def by blast
next
  fix l :: "('a, 'b, 'c) event_loop_scheme" and a c
  assume ok: "loop_ok epoll_ctl reg tid l" and c: "map_of (channels l) a = Some c"
    and e: "event c = kNoneEvent" "status c \<noteq> kNew"
  have own: "ownerLoop c = this_loop l" using ok c by (simp add: loop_ok_def)
  obtain l' where l': "removeChannel epoll_ctl tid a l = Inr l'" "after_remove reg a c l l'"
    using remove_spec [OF _ _ _ c own e] ok unfolding loop_ok_def by blast
  then have "loop_ok epoll_ctl reg tid l'"
    by (intro loop_ok_step [OF ok]) (auto simp: after_remove_def own)
  with l' show "\<exists>s'. removeChannel epoll_ctl tid a l = Inr s' \<and> loop_ok epoll_ctl reg tid s' \<and>
       map_of (channels s') = (map_of (channels l))(a \<mapsto> c\<lparr>status := kNew\<rparr>) \<and>
       map_of (channelMap s') = (map_of (channelMap l))(fd c := None) \<and> reg (kern s') = (reg (kern l))(fd c := None) \<and>
       (threadId s', eventListSize s', epoller.more s') = (threadId l, eventListSize l, epoller.more l)"
    unfolding after_remove_def by blast
qed


section \<open>Interleaving with other threads\<close>

text \<open>
  The loop thread is at one of five points: before its call of \<^verbatim>\<open>loop()\<close> (in the constructor, the
  initialisation callback of the thread, \<^verbatim>\<open>main\<close>), about to call or inside \<^verbatim>\<open>epoll_wait\<close>, handling the
  active channels that are left, running the functors it swapped out, or past the end of the loop.
  Before \<^verbatim>\<open>loop()\<close>, in handlers and in functors it may itself queue functors and quit.  Other threads push
  a functor (or set the quit flag) and then wake the loop: two steps, with anything in between.
  \<open>inflight\<close> holds the threads between the two.  \<open>posted\<close> and \<open>ran\<close> record the functors queued and run
  so far, \<open>early\<close> those queued by the loop thread before \<^verbatim>\<open>loop()\<close> and not yet swapped out.
  \<open>turn_step\<close> are the steps of \<^verbatim>\<open>loop()\<close> itself.
\<close>

datatype 'f loop_pc = Before | Polling | Handling "nat list" | Draining "'f list" | Stopped

record ('k, 'f) loop_sys = "('k, 'f) event_loop" +
  pc :: "'f loop_pc"
  inflight :: "int list"
  posted :: "'f list"
  ran :: "'f list"
  early :: "'f list"

definition loop_start :: "('k, 'f) loop_sys \<Rightarrow> bool" where
  "loop_start s \<longleftrightarrow> pc s = Before \<and> pendingFunctors s = [] \<and> \<not> quit_flag s \<and> \<not> callingPendingFunctors s \<and>
     wakeupCount s = 0 \<and> inflight s = [] \<and> posted s = [] \<and> ran s = [] \<and> early s = []"

inductive turn_step :: "('k, 'f) loop_sys \<Rightarrow> ('k, 'f) loop_sys \<Rightarrow> bool" where
  start: "pc s = Before \<Longrightarrow> turn_step s (s\<lparr>pc := (if quit_flag s then Stopped else Polling)\<rparr>)"
| poll_return: "\<lbrakk>pc s = Polling; wakeupChannel s \<in> set active \<longleftrightarrow> 0 < wakeupCount s\<rbrakk> \<Longrightarrow>
     turn_step s (s\<lparr>activeChannels := active, pc := Handling active\<rparr>)"
| handle_wakeup: "\<lbrakk>pc s = Handling (a # as); a = wakeupChannel s\<rbrakk> \<Longrightarrow>
     turn_step s ((handleWakeupFd s)\<lparr>pc := Handling as\<rparr>)"
| handle_other: "\<lbrakk>pc s = Handling (a # as); a \<noteq> wakeupChannel s\<rbrakk> \<Longrightarrow> turn_step s (s\<lparr>pc := Handling as\<rparr>)"
| swap: "pc s = Handling [] \<Longrightarrow>
     turn_step s ((snd (swap_functors s))\<lparr>pc := Draining (fst (swap_functors s)), early := []\<rparr>)"
| run_functor: "pc s = Draining (f # fs) \<Longrightarrow> turn_step s (s\<lparr>pc := Draining fs, ran := ran s @ [f]\<rparr>)"
| turn_end: "pc s = Draining [] \<Longrightarrow>
     turn_step s (s\<lparr>callingPendingFunctors := False, pc := (if quit_flag s then Stopped else Polling)\<rparr>)"

inductive loop_step :: "('k, 'f) loop_sys \<Rightarrow> ('k, 'f) loop_sys \<Rightarrow> bool" where
  turn: "turn_step s s' \<Longrightarrow> loop_step s s'"
| other_push: "\<lbrakk>\<not> isInLoopThread t s; t \<notin> set (inflight s)\<rbrakk> \<Longrightarrow>
     loop_step s ((push_functor f s)\<lparr>inflight := t # inflight s, posted := posted s @ [f]\<rparr>)"
| other_quit: "\<lbrakk>\<not> isInLoopThread t s; t \<notin> set (inflight s)\<rbrakk> \<Longrightarrow>
     loop_step s (s\<lparr>quit_flag := True, inflight := t # inflight s\<rparr>)"
| other_wakeup: "t \<in> set (inflight s) \<Longrightarrow> loop_step s ((wakeup s)\<lparr>inflight := remove1 t (inflight s)\<rparr>)"
| early_queue: "\<lbrakk>isInLoopThread t s; pc s = Before\<rbrakk> \<Longrightarrow>
     loop_step s ((queueInLoop t f s)\<lparr>posted := posted s @ [f], early := early s @ [f]\<rparr>)"
| own_queue: "\<lbrakk>isInLoopThread t s; pc s = Handling as \<or> pc s = Draining fs\<rbrakk> \<Longrightarrow>
     loop_step s ((queueInLoop t f s)\<lparr>posted := posted s @ [f]\<rparr>)"
| own_quit: "\<lbrakk>isInLoopThread t s; pc s = Before \<or> pc s = Handling as \<or> pc s = Draining fs\<rbrakk> \<Longrightarrow> loop_step s (quit t s)"

inductive_cases loop_stepE: "loop_step s s'"

text \<open>The functors swapped out and not yet run.\<close>

fun draining :: "'f loop_pc \<Rightarrow> 'f list" where
  "draining (Draining fs) = fs"
| "draining Before = []"
| "draining Polling = []"
| "draining (Handling as) = []"
| "draining Stopped = []"

definition sys_inv :: "('k, 'f) loop_sys \<Rightarrow> bool" where
  "sys_inv s \<longleftrightarrow> posted s = ran s @ draining (pc s) @ pendingFunctors s \<and>
     (callingPendingFunctors s \<longleftrightarrow> (\<exists>fs. pc s = Draining fs)) \<and>
     (pc s \<in> {Before, Polling} \<or> (\<exists>fs. pc s = Draining fs) \<longrightarrow> pendingFunctors s \<noteq> early s \<longrightarrow> 0 < wakeupCount s \<or> inflight s \<noteq> []) \<and>
     (pc s = Polling \<longrightarrow> quit_flag s \<longrightarrow> 0 < wakeupCount s \<or> inflight s \<noteq> []) \<and>
     (early s \<noteq> [] \<longrightarrow> ran s = [] \<and> (\<forall>fs. pc s \<noteq> Draining fs)) \<and> (pc s = Before \<longrightarrow> ran s = [])"

lemmas loop_op_defs = push_functor_def wakeup_def queueInLoop_def quit_def handleWakeupFd_def swap_functors_def
  isInLoopThread_def Let_def

lemma sys_inv_start: "loop_start s \<Longrightarrow> sys_inv s"
  by (simp add: sys_inv_def loop_start_def)

lemma sys_inv_turn: "turn_step s s' \<Longrightarrow> sys_inv s \<Longrightarrow> sys_inv s'"
proof (induction rule: turn_step.induct)
  case (swap s)
  then show ?case by (auto simp: sys_inv_def loop_op_defs)
qed (auto simp: sys_inv_def loop_op_defs)

lemma sys_inv_step: "loop_step s s' \<Longrightarrow> sys_inv s \<Longrightarrow> sys_inv s'"
proof (induction rule: loop_step.induct)
  case (turn s s')
  then show ?case by (rule sys_inv_turn)
next
  case (own_queue t s as fs f)
  then show ?case by (auto simp: sys_inv_def loop_op_defs)
next
  case (own_quit t s as fs)
  then show ?case by (auto simp: sys_inv_def loop_op_defs)
qed (auto simp: sys_inv_def loop_op_defs)

lemma sys_inv_reachable: "loop_step\<^sup>*\<^sup>* s s' \<Longrightarrow> sys_inv s \<Longrightarrow> sys_inv s'"
  by (induction rule: rtranclp_induct) (auto intro: sys_inv_step)

lemma sys_inv_turns: "turn_step\<^sup>*\<^sup>* s s' \<Longrightarrow> sys_inv s \<Longrightarrow> sys_inv s'"
  by (induction rule: rtranclp_induct) (auto intro: sys_inv_turn)


lemma drain_steps:
  assumes "pc s = Draining fs"
  shows "turn_step\<^sup>*\<^sup>* s (s\<lparr>pc := Draining [], ran := ran s @ fs\<rparr>)"
  using assms
proof (induction fs arbitrary: s)
  case Nil
  then have "s\<lparr>pc := Draining [], ran := ran s @ []\<rparr> = s" by (cases s) simp
  then show ?case by simp
next
  case (Cons f fs)
  have "turn_step s (s\<lparr>pc := Draining fs, ran := ran s @ [f]\<rparr>)" using Cons.prems by (rule run_functor)
  moreover have "turn_step\<^sup>*\<^sup>* (s\<lparr>pc := Draining fs, ran := ran s @ [f]\<rparr>) (s\<lparr>pc := Draining [], ran := ran s @ f # fs\<rparr>)"
    using Cons.IH [of "s\<lparr>pc := Draining fs, ran := ran s @ [f]\<rparr>"] by simp
  ultimately show ?case by (rule converse_rtranclp_into_rtranclp)
qed

lemma handle_steps:
  assumes "pc s = Handling as"
  shows "\<exists>n. turn_step\<^sup>*\<^sup>* s (s\<lparr>wakeupCount := n, pc := Handling []\<rparr>)"
  using assms
proof (induction as arbitrary: s)
  case Nil
  then have "s\<lparr>wakeupCount := wakeupCount s, pc := Handling []\<rparr> = s" by (cases s) simp
  then show ?case by (metis rtranclp.rtrancl_refl)
next
  case (Cons a as)
  obtain m where "turn_step s (s\<lparr>wakeupCount := m, pc := Handling as\<rparr>)"
  proof (cases "a = wakeupChannel s")
    case True
    with handle_wakeup [OF Cons.prems True] that show ?thesis by (simp add: handleWakeupFd_def)
  next
    case False
    have "s\<lparr>wakeupCount := wakeupCount s, pc := Handling as\<rparr> = s\<lparr>pc := Handling as\<rparr>" by (cases s) simp
    with handle_other [OF Cons.prems False] that show ?thesis by metis
  qed
  moreover have "\<exists>n. turn_step\<^sup>*\<^sup>* (s\<lparr>wakeupCount := m, pc := Handling as\<rparr>) (s\<lparr>wakeupCount := n, pc := Handling []\<rparr>)"
    using Cons.IH [of "s\<lparr>wakeupCount := m, pc := Handling as\<rparr>"] by simp
  ultimately show ?case by (metis converse_rtranclp_into_rtranclp)
qed

lemma handling_drains:
  assumes "pc s = Handling as" and "sys_inv s"
  shows "\<exists>s'. turn_step\<^sup>*\<^sup>* s s' \<and> ran s' = posted s \<and> posted s' = posted s \<and> pendingFunctors s' = []"
proof -
  obtain n where n: "turn_step\<^sup>*\<^sup>* s (s\<lparr>wakeupCount := n, pc := Handling []\<rparr>)"
    using handle_steps [OF assms(1)] by blast
  let ?s1 = "s\<lparr>wakeupCount := n, pc := Handling []\<rparr>"
  let ?s2 = "(snd (swap_functors ?s1))\<lparr>pc := Draining (fst (swap_functors ?s1)), early := []\<rparr>"
  have "turn_step ?s1 ?s2" by (rule swap) simp
  moreover have "turn_step\<^sup>*\<^sup>* ?s2 (?s2\<lparr>pc := Draining [], ran := ran ?s2 @ pendingFunctors s\<rparr>)"
    by (rule drain_steps) (simp add: swap_functors_def)
  ultimately have "turn_step\<^sup>*\<^sup>* s (?s2\<lparr>pc := Draining [], ran := ran ?s2 @ pendingFunctors s\<rparr>)"
    using n by (meson converse_rtranclp_into_rtranclp rtranclp_trans)
  then show ?thesis
    using assms by (intro exI conjI) (assumption, simp_all add: swap_functors_def sys_inv_def)
qed

lemma polling_drains:
  assumes "pc s = Polling" and "sys_inv s"
  shows "\<exists>s'. turn_step\<^sup>*\<^sup>* s s' \<and> ran s' = posted s \<and> posted s' = posted s \<and> pendingFunctors s' = []"
proof -
  let ?active = "if 0 < wakeupCount s then [wakeupChannel s] else []"
  let ?s1 = "s\<lparr>activeChannels := ?active, pc := Handling ?active\<rparr>"
  have st: "turn_step s ?s1" using assms(1) by (intro poll_return) simp_all
  then have "sys_inv ?s1" using assms(2) by (rule sys_inv_turn)
  then obtain s' where "turn_step\<^sup>*\<^sup>* ?s1 s'" "ran s' = posted ?s1" "posted s' = posted ?s1" "pendingFunctors s' = []"
    using handling_drains [of ?s1 ?active] by auto
  with st show ?thesis by (intro exI [of _ s'] conjI) (rule converse_rtranclp_into_rtranclp, simp_all)
qed

lemma before_drains:
  assumes "pc s = Before" and "sys_inv s" and "\<not> quit_flag s"
  shows "\<exists>s'. turn_step\<^sup>*\<^sup>* s s' \<and> ran s' = posted s \<and> posted s' = posted s \<and> pendingFunctors s' = []"
proof -
  let ?s1 = "s\<lparr>pc := (if quit_flag s then Stopped else Polling)\<rparr>"
  have st: "turn_step s ?s1" using assms(1) by (rule start)
  then have "sys_inv ?s1" using assms(2) by (rule sys_inv_turn)
  then obtain s' where "turn_step\<^sup>*\<^sup>* ?s1 s'" "ran s' = posted ?s1" "posted s' = posted ?s1" "pendingFunctors s' = []"
    using polling_drains [of ?s1] assms(3) by auto
  with st show ?thesis by (intro exI [of _ s'] conjI) (rule converse_rtranclp_into_rtranclp, simp_all)
qed

lemma draining_drains:
  assumes pc: "pc s = Draining fs" and inv: "sys_inv s" and go: "\<not> quit_flag s"
  shows "\<exists>s'. turn_step\<^sup>*\<^sup>* s s' \<and> ran s' = posted s \<and> posted s' = posted s \<and> pendingFunctors s' = []"
proof -
  let ?s1 = "s\<lparr>pc := Draining [], ran := ran s @ fs\<rparr>"
  let ?s2 = "?s1\<lparr>callingPendingFunctors := False, pc := (if quit_flag ?s1 then Stopped else Polling)\<rparr>"
  have "turn_step ?s1 ?s2" by (rule turn_end) simp
  with drain_steps [OF pc] have st: "turn_step\<^sup>*\<^sup>* s ?s2" by (rule rtranclp.rtrancl_into_rtrancl)
  then have "sys_inv ?s2" using inv by (rule sys_inv_turns)
  then obtain s' where "turn_step\<^sup>*\<^sup>* ?s2 s'" "ran s' = posted ?s2" "posted s' = posted ?s2" "pendingFunctors s' = []"
    using polling_drains [of ?s2] go by auto
  with st show ?thesis by (intro exI [of _ s'] conjI) (rule rtranclp_trans, simp_all)
qed

section \<open>Dispatch\<close>

text \<open>A callback may do anything that leaves the returned events and the callbacks of the channel alone.\<close>

definition keeps_dispatch ::
  "(nat \<Rightarrow> channel_cb \<Rightarrow> ('k, 'z) epoller_scheme \<Rightarrow> ('k, 'z) epoller_scheme result) \<Rightarrow> nat \<Rightarrow> bool" where
  "keeps_dispatch run a \<longleftrightarrow> (\<forall>cb l l' c. run a cb l = Inr l' \<longrightarrow> map_of (channels l) a = Some c \<longrightarrow>
     (\<exists>c'. map_of (channels l') a = Some c' \<and> (\<forall>cb'. cb_due cb' c' = cb_due cb' c)))"

lemma cb_due_handling [simp]: "cb_due cb (c\<lparr>isHandlingEvent := b\<rparr>) = cb_due cb c"
  by (cases cb) simp_all

lemma call_due_all:
  assumes "keeps_dispatch run a" and "map_of (channels l) a = Some c"
  shows "rfold (call_due run a) cbs l = rfold (run a) (filter (\<lambda>cb. cb_due cb c) cbs) l"
  using assms(2)
proof (induction cbs arbitrary: l c)
  case Nil
  then show ?case by simp
next
  case (Cons cb cbs)
  show ?case
  proof (cases "cb_due cb c")
    case True
    show ?thesis
    proof (cases "run a cb l")
      case (Inl e)
      with True Cons.prems show ?thesis by (simp add: call_due_def chan_at_def)
    next
      case (Inr l')
      then obtain c' where "map_of (channels l') a = Some c'" "\<forall>cb'. cb_due cb' c' = cb_due cb' c"
        using assms(1) Cons.prems unfolding keeps_dispatch_def by blast
      with Cons.IH [of l' c'] True Cons.prems Inr show ?thesis by (simp add: call_due_def chan_at_def)
    qed
  next
    case False
    with Cons show ?thesis by (simp add: call_due_def chan_at_def)
  qed
qed

lemma handleEventWithGuard_eq:
  assumes "keeps_dispatch run a" and "map_of (channels l) a = Some c"
  shows "handleEventWithGuard run a l =
    rbind (rfold (run a) (filter (\<lambda>cb. cb_due cb c) [CloseCb, ErrorCb, ReadCb, WriteCb])
            (set_chan a (c\<lparr>isHandlingEvent := True\<rparr>) l)) (set_handling False a)"
proof -
  let ?l = "set_chan a (c\<lparr>isHandlingEvent := True\<rparr>) l"
  have "handleEventWithGuard run a l =
      rbind (rfold (call_due run a) [CloseCb, ErrorCb, ReadCb, WriteCb] ?l) (set_handling False a)"
  proof -
    have "set_handling True a l = Inr ?l" using assms(2) by (simp add: set_handling_def chan_at_def)
    then show ?thesis by (simp add: handleEventWithGuard_def rfold_eta rbind_assoc)
  qed
  moreover have "map_of (channels ?l) a = Some (c\<lparr>isHandlingEvent := True\<rparr>)" by simp
  ultimately show ?thesis using call_due_all [OF assms(1)] by (simp only: cb_due_handling)
qed


section \<open>Properties\<close>

text \<open>A kernel for concrete instances: the interest list as a map.\<close>

fun table_ctl :: "(int \<Rightarrow> (event_mask \<times> nat) option) epoll_ctl_fn" where
  "table_ctl EPOLL_CTL_ADD f ev a k = (if k f = None then (True, k(f \<mapsto> (ev, a))) else (False, k))"
| "table_ctl EPOLL_CTL_MOD f ev a k = (if k f = None then (False, k) else (True, k(f \<mapsto> (ev, a))))"
| "table_ctl EPOLL_CTL_DEL f ev a k = (if k f = None then (False, k) else (True, k(f := None)))"

lemma table_laws: "epoll_laws table_ctl id"
  by (simp add: epoll_laws_def)

lemma new_event_loop_ok:
  assumes "epoll_laws epoll_ctl reg" and "reg k = Map.empty"
  shows "loop_ok epoll_ctl reg tid (new_event_loop tid self wake alrm k)"
  using assms by (auto simp: loop_ok_def poller_inv_def new_event_loop_def Channel_ctor_def split: if_splits)

text \<open>
  C3.  Functors queued from any thread run in the loop thread exactly once and in the order in which they
  were queued, whatever the interleaving: at every reachable point the functors queued so far are those
  that ran, then those swapped out and waiting to run, then those still pending.\<close>
theorem functors_fifo:
  assumes "loop_start s" and "loop_step\<^sup>*\<^sup>* s s'"
  shows "posted s' = ran s' @ draining (pc s') @ pendingFunctors s'"
  using sys_inv_reachable [OF assms(2) sys_inv_start [OF assms(1)]] by (simp add: sys_inv_def)

definition idle_sys :: "(int \<Rightarrow> (event_mask \<times> nat) option, nat) loop_sys" where
  "idle_sys = event_loop.extend (new_event_loop 1 7 (3, 30) (4, 40) Map.empty)
     \<lparr>pc = Before, inflight = [], posted = [], ran = [], early = []\<rparr>"

lemma idle_sys_start: "loop_start idle_sys" "\<not> isInLoopThread 2 idle_sys" "inflight idle_sys = []"
  by (simp_all add: idle_sys_def loop_start_def event_loop.extend_def new_event_loop_def isInLoopThread_def)

lemma idle_sys_start_step: "loop_step idle_sys (idle_sys\<lparr>pc := Polling\<rparr>)"
  using turn [OF start [of idle_sys]] idle_sys_start(1) by (simp add: loop_start_def)

definition one_posted :: "(int \<Rightarrow> (event_mask \<times> nat) option, nat) loop_sys" where
  "one_posted = (push_functor 5 (idle_sys\<lparr>pc := Polling\<rparr>))\<lparr>inflight := 2 # inflight idle_sys, posted := posted idle_sys @ [5]\<rparr>"

lemma one_posted_step: "loop_step\<^sup>*\<^sup>* idle_sys one_posted"
proof -
  have "loop_step (idle_sys\<lparr>pc := Polling\<rparr>) one_posted"
    using other_push [of 2 "idle_sys\<lparr>pc := Polling\<rparr>" 5] idle_sys_start by (simp add: one_posted_def isInLoopThread_def)
  with idle_sys_start_step show ?thesis by (meson converse_rtranclp_into_rtranclp r_into_rtranclp)
qed

theorem functors_fifo_witness:
  "posted one_posted = ran one_posted @ draining (pc one_posted) @ pendingFunctors one_posted \<and> posted one_posted = [5]"
  using functors_fifo [OF idle_sys_start(1) one_posted_step] idle_sys_start(1)
  by (simp add: one_posted_def loop_start_def)

text \<open>
  C4.  No wakeup is lost, up to functors queued by the loop thread before it calls \<^verbatim>\<open>loop()\<close>.  Whenever the
  loop thread is about to block in \<^verbatim>\<open>epoll_wait\<close> and has been told to quit, the event descriptor is
  readable, so that \<^verbatim>\<open>epoll_wait\<close> returns at once, or some thread is just about to write to it.  The same
  holds whenever functors are pending, unless these are exactly the functors that the loop thread itself
  queued before \<^verbatim>\<open>loop()\<close>; that can only be so before the loop has run its first functor.\<close>
theorem no_lost_wakeup:
  assumes "loop_start s" and "loop_step\<^sup>*\<^sup>* s s'" and "pc s' = Polling"
  shows "(quit_flag s' \<longrightarrow> 0 < wakeupCount s' \<or> inflight s' \<noteq> []) \<and>
    (pendingFunctors s' \<noteq> [] \<longrightarrow> 0 < wakeupCount s' \<or> inflight s' \<noteq> [] \<or>
       pendingFunctors s' = early s' \<and> ran s' = [])"
  using sys_inv_reachable [OF assms(2) sys_inv_start [OF assms(1)]] assms(3) by (auto simp: sys_inv_def)

theorem no_lost_wakeup_witness: "pendingFunctors one_posted = [5] \<and> 0 < wakeupCount one_posted + length (inflight one_posted)"
proof -
  have p: "pc one_posted = Polling" "pendingFunctors one_posted = [5]" "early one_posted = []"
    using idle_sys_start(1) by (simp_all add: one_posted_def loop_start_def push_functor_def)
  then show ?thesis using no_lost_wakeup [OF idle_sys_start(1) one_posted_step p(1)] by auto
qed

text \<open>
  The exception is real: a functor queued by the loop thread before \<^verbatim>\<open>loop()\<close> (for instance in the
  initialisation callback of its thread) does not make the event descriptor readable, and the loop goes on
  to \<^verbatim>\<open>epoll_wait\<close>; the functor waits for another event or for the timeout of ten seconds.\<close>
theorem early_functor_waits:
  assumes "loop_start s" and "isInLoopThread t s"
  shows "\<exists>s'. loop_step\<^sup>*\<^sup>* s s' \<and> pc s' = Polling \<and> pendingFunctors s' = [f] \<and> wakeupCount s' = 0 \<and> inflight s' = []"
proof -
  let ?s1 = "(queueInLoop t f s)\<lparr>posted := posted s @ [f], early := early s @ [f]\<rparr>"
  let ?s2 = "?s1\<lparr>pc := (if quit_flag ?s1 then Stopped else Polling)\<rparr>"
  have p: "pc s = Before" "\<not> quit_flag s" using assms(1) by (simp_all add: loop_start_def)
  have "loop_step s ?s1" using assms(2) p(1) by (rule early_queue)
  moreover have "pc ?s1 = Before" using p(1) by (simp add: queueInLoop_def push_functor_def wakeup_def Let_def)
  then have "loop_step ?s1 ?s2" by (intro turn start)
  ultimately have "loop_step\<^sup>*\<^sup>* s ?s2" by (meson converse_rtranclp_into_rtranclp r_into_rtranclp)
  then show ?thesis
    using assms p by (intro exI [of _ ?s2]) (simp add: loop_start_def loop_op_defs)
qed

text \<open>
  C5.  The loop cannot get stuck with work left.  From every reachable point at which it has not been told
  to quit and has not ended, the steps of \<^verbatim>\<open>loop()\<close> alone, without any step of another thread, lead to a
  point where everything queued so far has run.  (After \<^verbatim>\<open>quit()\<close> the loop ends with its turn, and functors
  still pending then are never run.)\<close>
theorem functors_progress:
  assumes "loop_start s" and "loop_step\<^sup>*\<^sup>* s s'" and "\<not> quit_flag s'" and "pc s' \<noteq> Stopped"
  shows "\<exists>s''. turn_step\<^sup>*\<^sup>* s' s'' \<and> ran s'' = posted s' \<and> posted s'' = posted s' \<and> pendingFunctors s'' = []"
proof -
  have inv: "sys_inv s'" by (rule sys_inv_reachable [OF assms(2) sys_inv_start [OF assms(1)]])
  show ?thesis
    using assms(3,4) inv before_drains [OF _ inv] polling_drains [OF _ inv] handling_drains [OF _ inv] draining_drains [OF _ inv]
    by (cases "pc s'") simp_all
qed

theorem functors_progress_witness:
  "\<exists>s''. turn_step\<^sup>*\<^sup>* one_posted s'' \<and> ran s'' = [5] \<and> pendingFunctors s'' = []"
proof -
  have "\<not> quit_flag one_posted" "pc one_posted \<noteq> Stopped" "posted one_posted = [5]"
    using idle_sys_start(1) by (simp_all add: one_posted_def loop_start_def push_functor_def)
  then show ?thesis using functors_progress [OF idle_sys_start(1) one_posted_step] by auto
qed


text \<open>
  Watching.  In the loop thread, each of \<^verbatim>\<open>enableReading\<close>, \<^verbatim>\<open>enableWriting\<close>, \<^verbatim>\<open>disableWriting\<close> and
  \<^verbatim>\<open>disableAll\<close> on a channel of a fine loop succeeds (a channel not registered yet must be the only user of
  its descriptor), keeps the loop fine and makes the kernel watch the descriptor for exactly the new
  event mask, or not at all when the mask of a registered channel becomes empty; every other
  descriptor is watched as before, and nothing but the books of the poller changes.\<close>
theorem channel_watch:
  assumes "loop_ok epoll_ctl reg tid l" and "map_of (channels l) a = Some c"
    and "status c = kNew \<longrightarrow> map_of (channelMap l) (fd c) = None"
    and "(operation, g) \<in> {(enableReading, read_on), (enableWriting, write_on), (disableWriting, write_off), (disableAll, all_off)}"
  shows "\<exists>l'. operation epoll_ctl tid a l = Inr l' \<and> loop_ok epoll_ctl reg tid l' \<and>
    reg (kern l') = (reg (kern l))(fd c :=
      if status c = kAdded \<and> event (g c) = kNoneEvent then None else Some (event (g c), a)) \<and>
    (\<exists>c'. map_of (channels l') = (map_of (channels l))(a \<mapsto> c') \<and> event c' = event (g c) \<and> fd c' = fd c) \<and>
    epoller.more l' = epoller.more l"
proof -
  have op: "operation = with_update g" "mask_change g"
    using assms(4) mask_changes
    by (auto simp: enableReading_def enableWriting_def disableWriting_def disableAll_def)
  show ?thesis
    unfolding op(1)
    using loop_watch.set_mask_law [OF assms(1) op(2) assms(2)] assms(3) by (fastforce simp: next_status_def)
qed

lemma sample_loop_ok: "loop_ok table_ctl id 1 (new_event_loop 1 7 (3, 30) (4, 40) Map.empty)"
  by (rule new_event_loop_ok [OF table_laws]) simp

theorem channel_watch_witness:
  "\<exists>l'. enableReading table_ctl 1 3 (new_event_loop 1 7 (3, 30) (4, 40) Map.empty :: (_, nat) event_loop) = Inr l' \<and>
     loop_ok table_ctl id 1 l' \<and> kern l' = [30 \<mapsto> (3, 3)]"
  using channel_watch [OF sample_loop_ok, of 3 "(Channel_ctor 7 30)\<lparr>readCb := True\<rparr>" enableReading read_on]
  by (auto simp: new_event_loop_def Channel_ctor_def read_on_def kReadEvent_def epoll_defs)

lemma Channel_ctor_simps [simp]:
  "event (Channel_ctor l f) = 0" "fd (Channel_ctor l f) = f" "status (Channel_ctor l f) = kNew"
  "ownerLoop (Channel_ctor l f) = l"
  by (simp_all add: Channel_ctor_def)

text \<open>A freshly built channel watched for reading.\<close>

definition reading_channel :: "nat \<Rightarrow> int \<Rightarrow> channel" where
  "reading_channel self f = (Channel_ctor self f)\<lparr>readCb := True, event := kReadEvent, status := kAdded\<rparr>"

lemma reading_channel_simps [simp]:
  "status (reading_channel self f) = kAdded" "fd (reading_channel self f) = f" "ownerLoop (reading_channel self f) = self"
  by (simp_all add: reading_channel_def)

lemma watch_new_channel:
  assumes ok: "loop_ok epoll_ctl reg tid l"
    and c: "map_of (channels l) a = Some ((Channel_ctor self f)\<lparr>readCb := True\<rparr>)" and new: "map_of (channelMap l) f = None"
  obtains l' where "enableReading epoll_ctl tid a l = Inr l'" "loop_ok epoll_ctl reg tid l'"
    "map_of (channels l') = (map_of (channels l))(a \<mapsto> reading_channel self f)"
    "map_of (channelMap l') = (map_of (channelMap l))(f \<mapsto> a)"
    "reg (kern l') = (reg (kern l))(f \<mapsto> (kReadEvent, a))" "epoller.more l' = epoller.more l"
proof -
  let ?c = "(Channel_ctor self f)\<lparr>readCb := True\<rparr>"
  have e: "event (read_on ?c) = kReadEvent" by (simp add: read_on_def)
  show ?thesis
    using loop_watch.set_mask_law [OF ok mask_changes(1) c] new that
    by (auto simp: enableReading_def next_status_def e reading_channel_def)
qed

lemma EventLoop_ctor_spec:
  fixes k :: 'k
  assumes laws: "epoll_laws epoll_ctl reg" and k: "reg k = Map.empty"
    and ne: "fst wake \<noteq> fst alrm" "snd wake \<noteq> snd alrm"
  obtains l :: "('k, 'f) event_loop" where "EventLoop_ctor epoll_ctl tid self None wake alrm k = Inr l"
    "(EventLoop_ctor epoll_ctl tid self (Some other) wake alrm k :: ('k, 'f) event_loop result) =
       Inl (CriticalAbort ''Another EventLoop exists in this Thread'')"
    "loop_ok epoll_ctl reg tid l" "this_loop l = self" "wakeupChannel l = fst wake" "alarmChannel l = fst alrm"
    "map_of (channels l) (fst wake) = Some (reading_channel self (snd wake))"
    "map_of (channels l) (fst alrm) = Some (reading_channel self (snd alrm))"
    "reg (kern l) = [snd alrm \<mapsto> (kReadEvent, fst alrm), snd wake \<mapsto> (kReadEvent, fst wake)]"
proof -
  let ?l0 = "new_event_loop tid self wake alrm k :: ('k, 'f) event_loop"
  have l0: "map_of (channels ?l0) (fst alrm) = Some ((Channel_ctor self (snd alrm))\<lparr>readCb := True\<rparr>)"
    "map_of (channels ?l0) (fst wake) = Some ((Channel_ctor self (snd wake))\<lparr>readCb := True\<rparr>)"
    "channelMap ?l0 = []" "kern ?l0 = k" "wakeupChannel ?l0 = fst wake" "alarmChannel ?l0 = fst alrm" "this_loop ?l0 = self"
    using ne by (simp_all add: new_event_loop_def)
  obtain l1 where l1: "enableReading epoll_ctl tid (fst alrm) ?l0 = Inr l1" "loop_ok epoll_ctl reg tid l1"
    "map_of (channels l1) = (map_of (channels ?l0))(fst alrm \<mapsto> reading_channel self (snd alrm))"
    "map_of (channelMap l1) = [snd alrm \<mapsto> fst alrm]"
    "reg (kern l1) = [snd alrm \<mapsto> (kReadEvent, fst alrm)]" "epoller.more l1 = epoller.more ?l0"
    by (rule watch_new_channel [OF new_event_loop_ok [OF laws k] l0(1)]) (use l0(3,4) k in simp_all)
  have cw: "map_of (channels l1) (fst wake) = Some ((Channel_ctor self (snd wake))\<lparr>readCb := True\<rparr>)"
    using l1(3) l0(2) ne by simp
  obtain l2 where l2: "enableReading epoll_ctl tid (fst wake) l1 = Inr l2" "loop_ok epoll_ctl reg tid l2"
    "map_of (channels l2) = (map_of (channels l1))(fst wake \<mapsto> reading_channel self (snd wake))"
    "reg (kern l2) = (reg (kern l1))(snd wake \<mapsto> (kReadEvent, fst wake))" "epoller.more l2 = epoller.more l1"
    by (rule watch_new_channel [OF l1(2) cw]) (use l1(4) ne in simp_all)
  have "epoller.more l2 = epoller.more ?l0" using l1(6) l2(5) by simp
  from loop_fields [OF this] l0 l1 l2 ne show ?thesis
    by (intro that [of l2]) (simp_all add: EventLoop_ctor_def)
qed

lemma drop_channel:
  assumes ok: "loop_ok epoll_ctl reg tid l" and c: "map_of (channels l) a = Some c" and st: "status c \<noteq> kNew"
  obtains l1 l2 where "disableAll epoll_ctl tid a l = Inr l1" "removeChannel epoll_ctl tid a l1 = Inr l2"
    "loop_ok epoll_ctl reg tid l2"
    "map_of (channels l2) = (map_of (channels l))(a \<mapsto> c\<lparr>event := kNoneEvent, status := kNew\<rparr>)"
    "reg (kern l2) = (reg (kern l))(fd c := None)" "epoller.more l2 = epoller.more l"
proof -
  note ok' = ok [unfolded loop_ok_def]
  have own: "ownerLoop c = this_loop l" using ok' c by blast
  obtain l1 l2 where l2: "disableAll epoll_ctl tid a l = Inr l1" "removeChannel epoll_ctl tid a l1 = Inr l2" "poller_inv reg l2"
    "map_of (channels l2) = (map_of (channels l))(a \<mapsto> c\<lparr>event := kNoneEvent, status := kNew\<rparr>)"
    "reg (kern l2) = (reg (kern l))(fd c := None)" "threadId l2 = threadId l" "epoller.more l2 = epoller.more l"
    using disable_remove_spec [OF _ _ _ c own st] ok' by metis
  moreover have "loop_ok epoll_ctl reg tid l2"
    by (rule loop_ok_step [OF ok l2(3,6,7,4)]) (simp add: own)
  ultimately show ?thesis using that by blast
qed

text \<open>
  Life cycle.  On a kernel that watches nothing yet, the constructor of a loop (in a thread without
  another one) succeeds and leaves exactly its wakeup and its alarm descriptor watched for reading; after
  \<^verbatim>\<open>quit()\<close> the destructor succeeds and leaves nothing watched.  A second loop in the thread aborts.\<close>
theorem loop_lifecycle:
  fixes k :: 'k
  assumes laws: "epoll_laws epoll_ctl reg" and k: "reg k = Map.empty"
    and ne: "fst wake \<noteq> fst alrm" "snd wake \<noteq> snd alrm"
  shows "\<exists>(l :: ('k, 'f) event_loop) l'. EventLoop_ctor epoll_ctl tid self None wake alrm k = Inr l \<and>
    reg (kern l) = [snd alrm \<mapsto> (kReadEvent, fst alrm), snd wake \<mapsto> (kReadEvent, fst wake)] \<and>
    EventLoop_dtor epoll_ctl tid (quit tid l) = Inr l' \<and> reg (kern l') = Map.empty \<and>
    (EventLoop_ctor epoll_ctl tid self (Some other) wake alrm k :: ('k, 'f) event_loop result) = Inl (CriticalAbort ''Another EventLoop exists in this Thread'')"
proof -
  obtain l :: "('k, 'f) event_loop" where l: "EventLoop_ctor epoll_ctl tid self None wake alrm k = Inr l"
    "(EventLoop_ctor epoll_ctl tid self (Some other) wake alrm k :: ('k, 'f) event_loop result) =
       Inl (CriticalAbort ''Another EventLoop exists in this Thread'')"
    "loop_ok epoll_ctl reg tid l" "this_loop l = self" "wakeupChannel l = fst wake" "alarmChannel l = fst alrm"
    "map_of (channels l) (fst wake) = Some (reading_channel self (snd wake))"
    "map_of (channels l) (fst alrm) = Some (reading_channel self (snd alrm))"
    "reg (kern l) = [snd alrm \<mapsto> (kReadEvent, fst alrm), snd wake \<mapsto> (kReadEvent, fst wake)]"
    using EventLoop_ctor_spec [OF laws k ne] .
  let ?q = "quit tid l"
  have q: "?q = l\<lparr>quit_flag := True\<rparr>" using l(3) by (simp add: quit_def isInLoopThread_def loop_ok_def)
  have okq: "loop_ok epoll_ctl reg tid ?q" using l(3) by (simp add: q loop_ok_def poller_inv_def)
  obtain l1 l2 where l2: "disableAll epoll_ctl tid (fst wake) ?q = Inr l1" "removeChannel epoll_ctl tid (fst wake) l1 = Inr l2"
    "loop_ok epoll_ctl reg tid l2"
    "map_of (channels l2) = (map_of (channels ?q))(fst wake \<mapsto>
       (reading_channel self (snd wake))\<lparr>event := kNoneEvent, status := kNew\<rparr>)"
    "reg (kern l2) = (reg (kern ?q))(snd wake := None)" "epoller.more l2 = epoller.more ?q"
    by (rule drop_channel [OF okq, of "fst wake" "reading_channel self (snd wake)"]) (use l(7) in \<open>simp_all add: q\<close>)
  have ca: "map_of (channels l2) (fst alrm) = Some (reading_channel self (snd alrm))"
    using l2(4) l(8) ne by (simp add: q)
  obtain l3 l4 where l4: "disableAll epoll_ctl tid (fst alrm) l2 = Inr l3" "removeChannel epoll_ctl tid (fst alrm) l3 = Inr l4"
    "reg (kern l4) = (reg (kern l2))(snd alrm := None)"
    using drop_channel [OF l2(3) ca] by (metis channel_status.distinct(1) reading_channel_simps(1,2))
  have "EventLoop_dtor epoll_ctl tid ?q = Inr l4"
    using l(5,6) l2(1,2) l4(1,2) loop_fields(4) [OF l2(6)] by (simp add: EventLoop_dtor_def TimerQueue_dtor_def q)
  moreover have "reg (kern l4) = Map.empty" using l4(3) l2(5) l(9) by (auto simp: q)
  ultimately show ?thesis using l(1,2,9) by blast
qed

theorem loop_lifecycle_witness:
  "\<exists>(l :: (_, nat) event_loop) l'. EventLoop_ctor table_ctl 1 7 None (3, 30) (4, 40) Map.empty = Inr l \<and>
    kern l = [40 \<mapsto> (kReadEvent, 4), 30 \<mapsto> (kReadEvent, 3)] \<and>
    EventLoop_dtor table_ctl 1 (quit 1 l) = Inr l' \<and> kern l' = Map.empty"
  using loop_lifecycle [where 'f = nat, OF table_laws, of Map.empty "(3, 30)" "(4, 40)" 1 7 0] by auto

text \<open>
  Dispatch.  As long as callbacks leave the channel's returned events alone, the handler of an active
  channel runs the callbacks that are due, in the order close, error, read, write, with the flag
  \<^verbatim>\<open>isHandlingEvent_\<close> raised around them; if the channel is tied to an object that is gone, it runs none.\<close>
theorem handleEvent_dispatch:
  assumes "keeps_dispatch run a" and "map_of (channels l) a = Some c"
  shows "handleEvent alive run a l =
    (if tied c \<and> \<not> alive (tie c) then Inr l
     else rbind (rfold (run a) (filter (\<lambda>cb. cb_due cb c) [CloseCb, ErrorCb, ReadCb, WriteCb])
                  (set_chan a (c\<lparr>isHandlingEvent := True\<rparr>) l))
            (set_handling False a))"
  using assms(2)
  by (simp add: handleEvent_def chan_at_Some handleEventWithGuard_eq [OF assms] del: filter.simps cong: if_cong)

definition closing_channel :: channel where
  "closing_channel = (Channel_ctor 7 30)\<lparr>revent := EPOLLHUP OR EPOLLOUT, closeCb := True, readCb := True, writeCb := True\<rparr>"

definition closing_poller :: "unit epoller" where
  "closing_poller = \<lparr>threadId = 1, channels = [(3, closing_channel)], channelMap = [], eventListSize = 16, kern = ()\<rparr>"

theorem handleEvent_dispatch_witness:
  "handleEvent (\<lambda>_. True) (\<lambda>a cb l. if cb = CloseCb \<or> cb = WriteCb then Inr l else Inl NullDereference) 3 closing_poller =
   Inr closing_poller"
proof -
  let ?run = "\<lambda>(a :: nat) cb l. if cb = CloseCb \<or> cb = WriteCb then Inr l else Inl NullDereference"
  have k: "keeps_dispatch ?run 3" by (auto simp: keeps_dispatch_def split: if_splits)
  have c: "map_of (channels closing_poller) 3 = Some closing_channel" by (simp add: closing_poller_def)
  show ?thesis
    using handleEvent_dispatch [OF k c, of "\<lambda>_. True"]
    by (simp add: closing_channel_def closing_poller_def Channel_ctor_def epoll_defs chan_at_def set_chan_def set_handling_def)
qed

end
