(* ===== verification/TcpConnection.thy ===== *)
theory TcpConnection
  imports EventLoop Buffer
begin

text \<open>
  Model of \<^verbatim>\<open>ham/net/TcpConnection.{h,cc}\<close>: one connection, living in its loop.  The state extends
  that of the loop by the members of the connection.  The socket is a parameter: \<open>sock_write\<close> and
  \<open>sock_readv\<close> give the result of the \<open>n\<close>-th system call.  User callbacks are programs: given the state,
  the list of calls they make on the connection (the message callback also takes bytes from the
  input buffer).  \<open>trace\<close> records what the connection did: bytes handed to the socket, the half-close
  and the callbacks it made.

  \<^verbatim>\<open>assert(state_ = State::kConnecting)\<close> in \<^verbatim>\<open>establishConnection\<close> assigns instead of comparing; the
  model does the same.
\<close>

datatype conn_state = kDisconnected | kConnecting | kConnected | kDisconnecting

datatype conn_functor =
    RunWriteComplete
  | RunHighWaterMark size_t
  | SendInLoop string
  | ShutdownInLoop
  | ForceCloseInLoop
  | DestoryConnection

datatype conn_event = ConnectionCallback bool | MessageCallback string | CloseCallback | Wrote string | ShutdownWrite

record ('k, 'c) tcp_connection = "('k, conn_functor) event_loop" +
  this_conn :: nat
  name :: string
  state :: conn_state
  sockfd :: int
  channel_ptr :: nat
  inputBuffer :: buffer
  outputBuffer :: buffer
  highWaterMark :: size_t
  writeCompleteCallback :: bool
  highWaterMarkCallback :: bool
  conn_context :: "'c option"
  tcpNoDelay :: bool
  syscalls :: nat
  trace :: "conn_event list"

datatype 'c conn_call = CallSend string | CallShutdown | CallForceClose | CallSetContext 'c | CallSetTcpNoDelay bool
  | CallQueueDestory

record ('k, 'c) conn_env =
  ctl :: "'k epoll_ctl_fn"
  sock_write :: "nat \<Rightarrow> string \<Rightarrow> int + nat"
  sock_readv :: "nat \<Rightarrow> readv_fn"
  on_connection :: "('k, 'c) tcp_connection \<Rightarrow> 'c conn_call list"
  on_message :: "timestamp \<Rightarrow> ('k, 'c) tcp_connection \<Rightarrow> (buffer \<times> 'c conn_call list) result"
  on_close :: "('k, 'c) tcp_connection \<Rightarrow> 'c conn_call list"
  on_write_complete :: "('k, 'c) tcp_connection \<Rightarrow> 'c conn_call list"
  on_high_water_mark :: "size_t \<Rightarrow> ('k, 'c) tcp_connection \<Rightarrow> 'c conn_call list"

definition EWOULDBLOCK :: int where "EWOULDBLOCK = 11"
definition EPIPE :: int where "EPIPE = 32"
definition ECONNRESET :: int where "ECONNRESET = 104"

section \<open>Construction\<close>

definition conn_channel :: "nat \<Rightarrow> int \<Rightarrow> channel" where
  "conn_channel lp f = (Channel_ctor lp f)\<lparr>readCb := True, writeCb := True, closeCb := True, errorCb := True\<rparr>"

definition TcpConnection_ctor ::
  "('k, conn_functor) event_loop \<Rightarrow> nat \<Rightarrow> nat \<Rightarrow> string \<Rightarrow> int \<Rightarrow> bool \<Rightarrow> bool \<Rightarrow> ('k, 'c) tcp_connection" where
  "TcpConnection_ctor l self ch nm f wc hw =
     set_chan ch (conn_channel (this_loop l) f)
       (event_loop.extend l \<lparr>this_conn = self, name = nm, state = kConnecting, sockfd = f, channel_ptr = ch,
          inputBuffer = new_buffer, outputBuffer = new_buffer, highWaterMark = 64 * 1024 * 1024,
          writeCompleteCallback = wc, highWaterMarkCallback = hw, conn_context = None, tcpNoDelay = False, syscalls = 0, trace = []\<rparr>)"

section \<open>Operations\<close>

definition setState :: "conn_state \<Rightarrow> ('k, 'c) tcp_connection \<Rightarrow> ('k, 'c) tcp_connection" where
  "setState st s = s\<lparr>state := st\<rparr>"

definition isConnected :: "('k, 'c) tcp_connection \<Rightarrow> bool" where
  "isConnected s \<longleftrightarrow> state s = kConnected"

definition emit :: "conn_event \<Rightarrow> ('k, 'c) tcp_connection \<Rightarrow> ('k, 'c) tcp_connection" where
  "emit e s = s\<lparr>trace := trace s @ [e]\<rparr>"

text \<open>\<^verbatim>\<open>sockets::write\<close> on the socket of the connection.\<close>

definition write_socket ::
  "('k, 'c) conn_env \<Rightarrow> string \<Rightarrow> ('k, 'c) tcp_connection \<Rightarrow> (int + nat) \<times> ('k, 'c) tcp_connection" where
  "write_socket env data s =
     (let r = sock_write env (syscalls s) data; s1 = s\<lparr>syscalls := Suc (syscalls s)\<rparr>
      in (r, case r of Inl e \<Rightarrow> s1 | Inr n \<Rightarrow> emit (Wrote (take n data)) s1))"

definition writing :: "('k, 'c) tcp_connection \<Rightarrow> bool result" where
  "writing s = rbind (chan_at (channel_ptr s) s) (\<lambda>c. Inr (isWriting c))"

text \<open>
  \<^verbatim>\<open>sendInLoop\<close> in its two phases: the direct write, which yields the bytes written, the bytes remaining
  and whether the connection is broken; and keeping the rest in the output buffer.
\<close>

definition write_directly ::
  "('k, 'c) conn_env \<Rightarrow> int \<Rightarrow> string \<Rightarrow> ('k, 'c) tcp_connection \<Rightarrow> nat \<times> size_t \<times> bool \<times> ('k, 'c) tcp_connection" where
  "write_directly env tid data s =
     (let len = word_of_nat (length data); (r, s1) = write_socket env data s in
      case r of
        Inr n \<Rightarrow>
          let remaining = len - word_of_nat n in
          (n, remaining, False,
           if remaining = 0 \<and> writeCompleteCallback s1 then queueInLoop tid RunWriteComplete s1 else s1)
      | Inl errno \<Rightarrow> (0, len, errno \<noteq> EWOULDBLOCK \<and> (errno = EPIPE \<or> errno = ECONNRESET), s1))"

definition keep_rest ::
  "('k, 'c) conn_env \<Rightarrow> int \<Rightarrow> string \<Rightarrow> size_t \<Rightarrow> ('k, 'c) tcp_connection \<Rightarrow> ('k, 'c) tcp_connection result" where
  "keep_rest env tid rest remaining s =
     (let old_len = readableBytes (outputBuffer s);
          s1 = (if old_len < highWaterMark s \<and> highWaterMark s \<le> old_len + remaining \<and> highWaterMarkCallback s
                then queueInLoop tid (RunHighWaterMark (old_len + remaining)) s else s)
      in rbind (append (outputBuffer s1) rest) (\<lambda>b.
         let s2 = s1\<lparr>outputBuffer := b\<rparr> in
         rbind (writing s2) (\<lambda>w. if \<not> w then enableWriting (ctl env) tid (channel_ptr s2) s2 else Inr s2)))"

definition sendInLoop ::
  "('k, 'c) conn_env \<Rightarrow> int \<Rightarrow> string \<Rightarrow> ('k, 'c) tcp_connection \<Rightarrow> ('k, 'c) tcp_connection result" where
  "sendInLoop env tid data s =
     assertInLoopThread tid s
     (rbind (writing s) (\<lambda>w.
      if \<not> w \<and> readableBytes (outputBuffer s) = 0 then
        let (n_wrote, remaining, faultError, s1) = write_directly env tid data s
        in assert_that (remaining \<le> word_of_nat (length data)) ''remaining <= len''
           (if \<not> faultError \<and> 0 < remaining then keep_rest env tid (drop n_wrote data) remaining s1 else Inr s1)
      else Inr s))"

definition send ::
  "('k, 'c) conn_env \<Rightarrow> int \<Rightarrow> string \<Rightarrow> ('k, 'c) tcp_connection \<Rightarrow> ('k, 'c) tcp_connection result" where
  "send env tid msg s =
     (if state s = kConnected then
        if isInLoopThread tid s then sendInLoop env tid msg s
        else Inr (queueInLoop tid (SendInLoop msg) s)
      else Inr s)"

text \<open>\<^verbatim>\<open>send(Buffer&)\<close>: the buffer is emptied.\<close>

definition send_buffer ::
  "('k, 'c) conn_env \<Rightarrow> int \<Rightarrow> buffer \<Rightarrow> ('k, 'c) tcp_connection \<Rightarrow> (buffer \<times> ('k, 'c) tcp_connection) result" where
  "send_buffer env tid b s =
     (if state s = kConnected then
        if isInLoopThread tid s then
          rbind (std_read (buf b) (peek b) (unat (readableBytes b))) (\<lambda>data.
          rbind (sendInLoop env tid data s) (\<lambda>s'. Inr (retrieveAll b, s')))
        else rbind (retrieveAllAsString b) (\<lambda>(data, b'). Inr (b', queueInLoop tid (SendInLoop data) s))
      else Inr (b, s))"

definition shutdownInLoop :: "int \<Rightarrow> ('k, 'c) tcp_connection \<Rightarrow> ('k, 'c) tcp_connection result" where
  "shutdownInLoop tid s =
     assertInLoopThread tid s
     (rbind (writing s) (\<lambda>w. if \<not> w then Inr (emit ShutdownWrite (setState kDisconnected s)) else Inr s))"

definition shutdown :: "int \<Rightarrow> ('k, 'c) tcp_connection \<Rightarrow> ('k, 'c) tcp_connection result" where
  "shutdown tid s =
     (if state s = kConnected then
        let s1 = setState kDisconnecting s in
        if isInLoopThread tid s1 then shutdownInLoop tid s1 else Inr (queueInLoop tid ShutdownInLoop s1)
      else Inr s)"

definition forceClose :: "int \<Rightarrow> ('k, 'c) tcp_connection \<Rightarrow> ('k, 'c) tcp_connection" where
  "forceClose tid s =
     (if state s = kConnected \<or> state s = kDisconnecting
      then queueInLoop tid ForceCloseInLoop (setState kDisconnecting s) else s)"

definition setContext :: "'c \<Rightarrow> ('k, 'c) tcp_connection \<Rightarrow> ('k, 'c) tcp_connection" where
  "setContext c s = s\<lparr>conn_context := Some c\<rparr>"

text \<open>The option of the socket; a failure of \<^verbatim>\<open>setsockopt\<close> is only logged by \<^verbatim>\<open>Socket::setTcpNoDelay\<close> and is left out here.\<close>

definition conn_setTcpNoDelay :: "bool \<Rightarrow> ('k, 'c) tcp_connection \<Rightarrow> ('k, 'c) tcp_connection" where
  "conn_setTcpNoDelay on s = s\<lparr>tcpNoDelay := on\<rparr>"

text \<open>What a callback does with the connection.\<close>

fun run_call ::
  "('k, 'c) conn_env \<Rightarrow> int \<Rightarrow> 'c conn_call \<Rightarrow> ('k, 'c) tcp_connection \<Rightarrow> ('k, 'c) tcp_connection result" where
  "run_call env tid (CallSend msg) s = send env tid msg s"
| "run_call env tid CallShutdown s = shutdown tid s"
| "run_call env tid CallForceClose s = Inr (forceClose tid s)"
| "run_call env tid (CallSetContext c) s = Inr (setContext c s)"
| "run_call env tid (CallSetTcpNoDelay on) s = Inr (conn_setTcpNoDelay on s)"
| "run_call env tid CallQueueDestory s = Inr (queueInLoop tid DestoryConnection s)"

definition connectionCallback ::
  "('k, 'c) conn_env \<Rightarrow> int \<Rightarrow> ('k, 'c) tcp_connection \<Rightarrow> ('k, 'c) tcp_connection result" where
  "connectionCallback env tid s =
     (let s1 = emit (ConnectionCallback (isConnected s)) s in rfold (run_call env tid) (on_connection env s1) s1)"

definition closeCallback ::
  "('k, 'c) conn_env \<Rightarrow> int \<Rightarrow> ('k, 'c) tcp_connection \<Rightarrow> ('k, 'c) tcp_connection result" where
  "closeCallback env tid s =
     (let s1 = emit CloseCallback s in rfold (run_call env tid) (on_close env s1) s1)"

definition messageCallback ::
  "('k, 'c) conn_env \<Rightarrow> int \<Rightarrow> timestamp \<Rightarrow> ('k, 'c) tcp_connection \<Rightarrow> ('k, 'c) tcp_connection result" where
  "messageCallback env tid t s =
     (let s1 = emit (MessageCallback (content (inputBuffer s))) s in
      rbind (on_message env t s1) (\<lambda>(b, calls). rfold (run_call env tid) calls (s1\<lparr>inputBuffer := b\<rparr>)))"

definition handleClose ::
  "('k, 'c) conn_env \<Rightarrow> int \<Rightarrow> ('k, 'c) tcp_connection \<Rightarrow> ('k, 'c) tcp_connection result" where
  "handleClose env tid s =
     assertInLoopThread tid s
     (rbind (disableAll (ctl env) tid (channel_ptr s) (setState kDisconnected s)) (closeCallback env tid))"

text \<open>\<^verbatim>\<open>handleError\<close> asks for the pending error of the socket and logs it.\<close>

definition handleError :: "('k, 'c) tcp_connection \<Rightarrow> ('k, 'c) tcp_connection result" where
  "handleError s = Inr s"

definition conn_handleRead ::
  "('k, 'c) conn_env \<Rightarrow> int \<Rightarrow> timestamp \<Rightarrow> ('k, 'c) tcp_connection \<Rightarrow> ('k, 'c) tcp_connection result" where
  "conn_handleRead env tid t s =
     assertInLoopThread tid s
     (rbind (readFd (sock_readv env (syscalls s)) (inputBuffer s)) (\<lambda>(r, b).
        let s1 = s\<lparr>inputBuffer := b, syscalls := Suc (syscalls s)\<rparr> in
        case r of
          Inr n \<Rightarrow> if 0 < n then messageCallback env tid t s1 else handleClose env tid s1
        | Inl savedErrno \<Rightarrow> handleError s1))"

text \<open>What happens once the output buffer has run empty.\<close>

definition output_drained ::
  "('k, 'c) conn_env \<Rightarrow> int \<Rightarrow> ('k, 'c) tcp_connection \<Rightarrow> ('k, 'c) tcp_connection result" where
  "output_drained env tid s2 =
     rbind (disableWriting (ctl env) tid (channel_ptr s2) s2) (\<lambda>s3.
       let s4 = (if writeCompleteCallback s3 then queueInLoop tid RunWriteComplete s3 else s3) in
       if state s4 = kDisconnecting then shutdownInLoop tid s4 else Inr s4)"

definition handleWrite ::
  "('k, 'c) conn_env \<Rightarrow> int \<Rightarrow> ('k, 'c) tcp_connection \<Rightarrow> ('k, 'c) tcp_connection result" where
  "handleWrite env tid s =
     assertInLoopThread tid s
     (rbind (writing s) (\<lambda>w.
      if w then
        let out = outputBuffer s in
        rbind (std_read (buf out) (peek out) (unat (readableBytes out))) (\<lambda>data.
        let (r, s1) = write_socket env data s in
        case r of
          Inr n \<Rightarrow>
            if 0 < n then
              rbind (retrieve (outputBuffer s1) (word_of_nat n)) (\<lambda>b.
              let s2 = s1\<lparr>outputBuffer := b\<rparr> in
              if readableBytes (outputBuffer s2) = 0 then output_drained env tid s2 else Inr s2)
            else Inr s1
        | Inl e \<Rightarrow> Inr s1)
      else Inr s))"

definition forceCloseInLoop ::
  "('k, 'c) conn_env \<Rightarrow> int \<Rightarrow> ('k, 'c) tcp_connection \<Rightarrow> ('k, 'c) tcp_connection result" where
  "forceCloseInLoop env tid s =
     assertInLoopThread tid s
     (if state s = kConnected \<or> state s = kDisconnecting then handleClose env tid s else Inr s)"

definition establishConnection ::
  "('k, 'c) conn_env \<Rightarrow> int \<Rightarrow> ('k, 'c) tcp_connection \<Rightarrow> ('k, 'c) tcp_connection result" where
  "establishConnection env tid s =
     assertInLoopThread tid s
     (let s1 = setState kConnected (setState kConnecting s) in
      rbind (chan_at (channel_ptr s1) s1) (\<lambda>c.
      let s2 = set_chan (channel_ptr s1) (tie_channel (this_conn s1) c) s1 in
      rbind (enableReading (ctl env) tid (channel_ptr s2) s2) (connectionCallback env tid)))"

definition destoryConnection ::
  "('k, 'c) conn_env \<Rightarrow> int \<Rightarrow> ('k, 'c) tcp_connection \<Rightarrow> ('k, 'c) tcp_connection result" where
  "destoryConnection env tid s =
     assertInLoopThread tid s
     (rbind (if state s = kConnected then
               rbind (disableAll (ctl env) tid (channel_ptr s) (setState kDisconnected s)) (connectionCallback env tid)
             else Inr s)
       (\<lambda>s1. removeChannel (ctl env) tid (channel_ptr s1) s1))"

text \<open>The functors of a connection that the loop runs.\<close>

fun run_conn_functor ::
  "('k, 'c) conn_env \<Rightarrow> int \<Rightarrow> conn_functor \<Rightarrow> ('k, 'c) tcp_connection \<Rightarrow> ('k, 'c) tcp_connection result" where
  "run_conn_functor env tid RunWriteComplete s = rfold (run_call env tid) (on_write_complete env s) s"
| "run_conn_functor env tid (RunHighWaterMark n) s = rfold (run_call env tid) (on_high_water_mark env n s) s"
| "run_conn_functor env tid (SendInLoop msg) s = sendInLoop env tid msg s"
| "run_conn_functor env tid ShutdownInLoop s = shutdownInLoop tid s"
| "run_conn_functor env tid ForceCloseInLoop s = forceCloseInLoop env tid s"
| "run_conn_functor env tid DestoryConnection s = destoryConnection env tid s"

text \<open>The callbacks of its channel.\<close>

fun run_conn_cb ::
  "('k, 'c) conn_env \<Rightarrow> int \<Rightarrow> timestamp \<Rightarrow> channel_cb \<Rightarrow> ('k, 'c) tcp_connection \<Rightarrow> ('k, 'c) tcp_connection result" where
  "run_conn_cb env tid t ReadCb s = conn_handleRead env tid t s"
| "run_conn_cb env tid t WriteCb s = handleWrite env tid s"
| "run_conn_cb env tid t CloseCb s = handleClose env tid s"
| "run_conn_cb env tid t ErrorCb s = handleError s"

section \<open>Invariant\<close>

lemma conn_fields:
  assumes "epoller.more s' = epoller.more s"
  shows "this_conn s' = this_conn s" "name s' = name s" "state s' = state s" "sockfd s' = sockfd s"
    "channel_ptr s' = channel_ptr s" "inputBuffer s' = inputBuffer s" "outputBuffer s' = outputBuffer s"
    "highWaterMark s' = highWaterMark s" "writeCompleteCallback s' = writeCompleteCallback s"
    "highWaterMarkCallback s' = highWaterMarkCallback s" "conn_context s' = conn_context s"
    "syscalls s' = syscalls s" "trace s' = trace s"
  using loop_fields(8) [OF assms] by (cases s; cases s'; simp)+

lemma loop_ok_updates [simp]:
  fixes s :: "('k, 'c) tcp_connection"
  shows "loop_ok c r tid (s\<lparr>pendingFunctors := a1\<rparr>) = loop_ok c r tid s"
    "loop_ok c r tid (s\<lparr>wakeupCount := a2\<rparr>) = loop_ok c r tid s"
    "loop_ok c r tid (s\<lparr>trace := a3\<rparr>) = loop_ok c r tid s"
    "loop_ok c r tid (s\<lparr>state := a4\<rparr>) = loop_ok c r tid s"
    "loop_ok c r tid (s\<lparr>outputBuffer := a5\<rparr>) = loop_ok c r tid s"
    "loop_ok c r tid (s\<lparr>inputBuffer := a6\<rparr>) = loop_ok c r tid s"
    "loop_ok c r tid (s\<lparr>syscalls := a7\<rparr>) = loop_ok c r tid s"
    "loop_ok c r tid (s\<lparr>conn_context := a8\<rparr>) = loop_ok c r tid s"
    "loop_ok c r tid (s\<lparr>tcpNoDelay := a9\<rparr>) = loop_ok c r tid s"
  by (simp_all add: loop_ok_def poller_inv_def)

text \<open>The connection's channel in a state.\<close>

abbreviation conn_chan :: "('k, 'c) tcp_connection \<Rightarrow> channel option" where
  "conn_chan s \<equiv> map_of (channels s) (channel_ptr s)"

text \<open>
  A connection that has been established and not yet removed: its books are in order, its socket is
  watched for writing only while there is unsent output, and until it is disconnected exactly then.
\<close>

definition conn_ok ::
  "('k, 'c) conn_env \<Rightarrow> ('k \<Rightarrow> int \<Rightarrow> (event_mask \<times> nat) option) \<Rightarrow> int \<Rightarrow> ('k, 'c) tcp_connection \<Rightarrow> bool" where
  "conn_ok env reg tid s \<longleftrightarrow> loop_ok (ctl env) reg tid s \<and> buffer_inv (inputBuffer s) \<and> buffer_inv (outputBuffer s) \<and>
     (\<exists>c. conn_chan s = Some c \<and> status c \<noteq> kNew \<and>
        (isWriting c \<longrightarrow> content (outputBuffer s) \<noteq> []) \<and>
        (state s \<noteq> kDisconnected \<longrightarrow> isWriting c = (content (outputBuffer s) \<noteq> [])))"

text \<open>Results of \<^verbatim>\<open>write(2)\<close>: at most the bytes given.\<close>

definition write_ok :: "('k, 'c) conn_env \<Rightarrow> bool" where
  "write_ok env \<longleftrightarrow> (\<forall>i d n. sock_write env i d = Inr n \<longrightarrow> n \<le> length d)"

text \<open>The bytes handed to the socket so far, and those plus the ones still to be sent.\<close>

fun wrote_of :: "conn_event \<Rightarrow> string" where
  "wrote_of (Wrote d) = d"
| "wrote_of (ConnectionCallback b) = []"
| "wrote_of (MessageCallback d) = []"
| "wrote_of CloseCallback = []"
| "wrote_of ShutdownWrite = []"

definition sent :: "('k, 'c) tcp_connection \<Rightarrow> string" where
  "sent s = concat (map wrote_of (trace s))"

text \<open>
  After the half-close the connection is disconnected, nothing is left to send, and nothing more
  was handed to the socket.
\<close>

definition half_ok :: "('k, 'c) tcp_connection \<Rightarrow> bool" where
  "half_ok s \<longleftrightarrow> (ShutdownWrite \<in> set (trace s) \<longrightarrow> state s = kDisconnected \<and> content (outputBuffer s) = [] \<and>
     concat (map wrote_of (dropWhile (\<lambda>e. e \<noteq> ShutdownWrite) (trace s))) = [])"

lemma half_ok_open: "half_ok s \<Longrightarrow> state s \<noteq> kDisconnected \<Longrightarrow> ShutdownWrite \<notin> set (trace s)"
  by (auto simp: half_ok_def)

lemma half_ok_pending: "half_ok s \<Longrightarrow> content (outputBuffer s) \<noteq> [] \<Longrightarrow> ShutdownWrite \<notin> set (trace s)"
  by (auto simp: half_ok_def)

lemma half_ok_not: "ShutdownWrite \<notin> set (trace s) \<Longrightarrow> half_ok s"
  by (simp add: half_ok_def)

lemma half_ok_closed:
  assumes "half_ok s" and "trace s' = trace s @ evs" and "concat (map wrote_of evs) = []" and "ShutdownWrite \<notin> set evs"
    and "state s = kDisconnected \<Longrightarrow> state s' = kDisconnected" and "outputBuffer s' = outputBuffer s"
  shows "half_ok s'"
proof (cases "ShutdownWrite \<in> set (trace s)")
  case True
  then have "dropWhile (\<lambda>e. e \<noteq> ShutdownWrite) (trace s @ evs) = dropWhile (\<lambda>e. e \<noteq> ShutdownWrite) (trace s) @ evs"
    by (intro dropWhile_append1) auto
  with assms True show ?thesis by (simp add: half_ok_def)
next
  case False
  with assms show ?thesis by (simp add: half_ok_def)
qed

text \<open>The half-close itself, with nothing left to send.\<close>

lemma half_ok_shutdown:
  assumes "ShutdownWrite \<notin> set (trace s)" and "trace s' = trace s @ [ShutdownWrite]" and "state s' = kDisconnected"
    and "content (outputBuffer s') = []"
  shows "half_ok s'"
proof -
  have "dropWhile (\<lambda>e. e \<noteq> ShutdownWrite) (trace s @ [ShutdownWrite]) = [ShutdownWrite]"
    using assms(1) by (subst dropWhile_append2) auto
  with assms show ?thesis by (simp add: half_ok_def)
qed

definition stream :: "('k, 'c) tcp_connection \<Rightarrow> string" where
  "stream s = sent s @ content (outputBuffer s)"

lemma readable_zero: "buffer_inv b \<Longrightarrow> readableBytes b = 0 \<longleftrightarrow> content b = []"
  using unat_readable [of b] by (metis length_0_conv unat_eq_zero)

lemma queue_fields [simp]:
  fixes s :: "('k, 'c) tcp_connection"
  shows "state (queueInLoop tid f s) = state s" "trace (queueInLoop tid f s) = trace s"
    "outputBuffer (queueInLoop tid f s) = outputBuffer s" "inputBuffer (queueInLoop tid f s) = inputBuffer s"
    "channels (queueInLoop tid f s) = channels s" "channel_ptr (queueInLoop tid f s) = channel_ptr s"
    "threadId (queueInLoop tid f s) = threadId s" "kern (queueInLoop tid f s) = kern s"
    "highWaterMark (queueInLoop tid f s) = highWaterMark s" "loop_ok c r t (queueInLoop tid f s) = loop_ok c r t s"
    "sockfd (queueInLoop tid f s) = sockfd s" "channelMap (queueInLoop tid f s) = channelMap s"
    "pendingFunctors (queueInLoop tid f s) = pendingFunctors s @ [f]"
    "writeCompleteCallback (queueInLoop tid f s) = writeCompleteCallback s"
    "this_loop (queueInLoop tid f s) = this_loop s" "syscalls (queueInLoop tid f s) = syscalls s"
  by (simp_all add: queueInLoop_def push_functor_def wakeup_def Let_def)

lemma conn_ok_queue [simp]: "conn_ok env reg tid (queueInLoop t f s) = conn_ok env reg tid s"
  by (simp add: conn_ok_def)

lemma conn_ok_neutral [simp]:
  "conn_ok env reg tid (s\<lparr>trace := x\<rparr>) = conn_ok env reg tid s"
  "conn_ok env reg tid (s\<lparr>syscalls := y\<rparr>) = conn_ok env reg tid s"
  "conn_ok env reg tid (s\<lparr>conn_context := z\<rparr>) = conn_ok env reg tid s"
  "conn_ok env reg tid (s\<lparr>tcpNoDelay := w\<rparr>) = conn_ok env reg tid s"
  by (simp_all add: conn_ok_def)

lemma stream_queue [simp]: "stream (queueInLoop t f s) = stream s" "sent (queueInLoop t f s) = sent s"
  by (simp_all add: stream_def sent_def)

lemma conn_ok_thread: "conn_ok env reg tid s \<Longrightarrow> threadId s = tid"
  by (simp add: conn_ok_def loop_ok_def)

lemma conn_ok_writing:
  assumes "conn_ok env reg tid s"
  obtains c where "conn_chan s = Some c" "status c \<noteq> kNew" "writing s = Inr (isWriting c)"
    "isWriting c \<longrightarrow> content (outputBuffer s) \<noteq> []" "state s \<noteq> kDisconnected \<Longrightarrow> isWriting c = (content (outputBuffer s) \<noteq> [])"
  using assms by (auto simp: conn_ok_def writing_def chan_at_def)

text \<open>Changing the event mask of the connection's channel.\<close>

lemma conn_set_mask:
  assumes ok: "loop_ok (ctl env) reg tid s" and g: "mask_change g" and c: "conn_chan s = Some c" "status c \<noteq> kNew"
  obtains s' where "with_update g (ctl env) tid (channel_ptr s) s = Inr s'" "loop_ok (ctl env) reg tid s'"
    "map_of (channels s') = (map_of (channels s))(channel_ptr s \<mapsto> c\<lparr>event := event (g c), status := next_status (status c) (event (g c))\<rparr>)"
    "reg (kern s') = (reg (kern s))(fd c := if next_status (status c) (event (g c)) = kAdded then Some (event (g c), channel_ptr s) else None)"
    "epoller.more s' = epoller.more s" "map_of (channelMap s') = (map_of (channelMap s))(fd c \<mapsto> channel_ptr s)"
  using loop_watch.set_mask_law [OF ok g c(1)] c(2) by auto

lemma next_status_not_new [simp]: "next_status st ev \<noteq> kNew"
  by (simp add: next_status_def)

lemma isWriting_mask [simp]:
  "isWriting (c\<lparr>event := event (write_on c)\<rparr>)" "\<not> isWriting (c\<lparr>event := event (write_off c)\<rparr>)"
  "\<not> isWriting (c\<lparr>event := event (all_off c)\<rparr>)" "isWriting (c\<lparr>event := event (read_on c)\<rparr>) = isWriting c"
  using isWriting_simps [of c] by (simp_all add: isWriting_def)

section \<open>Sending\<close>

text \<open>Keeping the bytes the socket did not take and watching for writability.\<close>

lemma keep_rest_spec:
  assumes ok: "conn_ok env reg tid s" and idle: "content (outputBuffer s) = []"
    and rest: "rest \<noteq> []" "write_pos (outputBuffer s) + length rest \<le> vector_max_size"
  obtains s' where "keep_rest env tid rest remaining s = Inr s'"
    "conn_ok env reg tid s'" "state s' = state s" "content (outputBuffer s') = rest" "trace s' = trace s"
    "write_pos (outputBuffer s') \<le> write_pos (outputBuffer s) + length rest"
proof -
  define s1 where "s1 = (if readableBytes (outputBuffer s) < highWaterMark s \<and>
      highWaterMark s \<le> readableBytes (outputBuffer s) + remaining \<and> highWaterMarkCallback s
    then queueInLoop tid (RunHighWaterMark (readableBytes (outputBuffer s) + remaining)) s else s)"
  have s1: "conn_ok env reg tid s1" "state s1 = state s" "outputBuffer s1 = outputBuffer s" "trace s1 = trace s"
    using ok by (simp_all add: s1_def)
  note ok' = s1(1) [unfolded conn_ok_def]
  obtain b where b: "append (outputBuffer s) rest = Inr b" "buffer_inv b" "content b = rest"
    "write_pos b \<le> write_pos (outputBuffer s) + length rest"
    using append_spec [of "outputBuffer s" rest] ok' rest(2) idle s1(3) by (metis append_Nil)
  obtain c where c: "conn_chan s1 = Some c" "status c \<noteq> kNew" "\<not> isWriting c"
    using conn_ok_writing [OF s1(1)] idle s1(3) by metis
  let ?s2 = "s1\<lparr>outputBuffer := b\<rparr>"
  have ok2: "loop_ok (ctl env) reg tid ?s2" and c2: "conn_chan ?s2 = Some c" using ok' c by simp_all
  obtain s' where s': "with_update write_on (ctl env) tid (channel_ptr ?s2) ?s2 = Inr s'" "loop_ok (ctl env) reg tid s'"
    "map_of (channels s') = (map_of (channels ?s2))(channel_ptr ?s2 \<mapsto> c\<lparr>event := event (write_on c), status := next_status (status c) (event (write_on c))\<rparr>)"
    "epoller.more s' = epoller.more ?s2"
    by (rule conn_set_mask [OF ok2 mask_changes(2) c2 c(2)])
  note f = conn_fields [OF s'(4)]
  have "conn_ok env reg tid s'" unfolding conn_ok_def using s' ok' b rest(1) by (simp add: f)
  moreover have "keep_rest env tid rest remaining s = Inr s'"
    using s'(1) b c s1(3) by (simp add: keep_rest_def Let_def writing_def chan_at_def enableWriting_def flip: s1_def)
  ultimately show ?thesis using s1 b by (intro that [of s']) (simp_all add: f)
qed

text \<open>What a send on an idle connection accepts: everything, unless the peer is known to be gone.\<close>

definition accepted :: "('k, 'c) conn_env \<Rightarrow> ('k, 'c) tcp_connection \<Rightarrow> string \<Rightarrow> string" where
  "accepted env s data = (case sock_write env (syscalls s) data of
      Inl e \<Rightarrow> if e = EPIPE \<or> e = ECONNRESET then [] else data | Inr n \<Rightarrow> data)"

lemma emit_simps [simp]:
  "state (emit e s) = state s" "outputBuffer (emit e s) = outputBuffer s" "channels (emit e s) = channels s"
  "channel_ptr (emit e s) = channel_ptr s" "conn_ok env reg tid (emit e s) = conn_ok env reg tid s"
  "sent (emit e s) = sent s @ wrote_of e" "threadId (emit e s) = threadId s" "inputBuffer (emit e s) = inputBuffer s"
  "pendingFunctors (emit e s) = pendingFunctors s" "trace (emit e s) = trace s @ [e]"
  "kern (emit e s) = kern s" "sockfd (emit e s) = sockfd s" "loop_ok c r tid (emit e s) = loop_ok c r tid s"
  "channelMap (emit e s) = channelMap s" "syscalls (emit e s) = syscalls s"
  by (simp_all add: emit_def sent_def)

lemma write_socket_simps:
  "fst (write_socket env d s) = sock_write env (syscalls s) d"
  "state (snd (write_socket env d s)) = state s" "outputBuffer (snd (write_socket env d s)) = outputBuffer s"
  "channels (snd (write_socket env d s)) = channels s" "channel_ptr (snd (write_socket env d s)) = channel_ptr s"
  "conn_ok env' reg tid (snd (write_socket env d s)) = conn_ok env' reg tid s"
  "sent (snd (write_socket env d s)) = sent s @ (case sock_write env (syscalls s) d of Inl e \<Rightarrow> [] | Inr n \<Rightarrow> take n d)"
  "(ShutdownWrite \<in> set (trace (snd (write_socket env d s)))) = (ShutdownWrite \<in> set (trace s))"
  by (simp_all add: write_socket_def Let_def sent_def split: sum.split)

lemma word_of_nat_diff_zero:
  assumes "n \<le> m" and "m < 2 ^ 64"
  shows "(word_of_nat m - word_of_nat n :: size_t) = word_of_nat (m - n)" "(word_of_nat (m - n) :: size_t) = 0 \<longleftrightarrow> m = n"
proof -
  show "(word_of_nat m - word_of_nat n :: size_t) = word_of_nat (m - n)" using assms(1) by (simp add: of_nat_diff)
  have "unat (word_of_nat (m - n) :: size_t) = m - n" using assms(2) by (intro unat_of_nat_size) simp
  then show "(word_of_nat (m - n) :: size_t) = 0 \<longleftrightarrow> m = n" using assms(1) by (auto simp: word_unat_eq_iff)
qed

lemma write_directly_spec:
  assumes wr: "write_ok env" and small: "length data < 2 ^ 64"
    and w: "write_directly env tid data s = (n, remaining, fault, s1)"
  shows "remaining \<le> word_of_nat (length data) \<and> (0 < remaining) = (drop n data \<noteq> []) \<and>
    conn_ok env reg tid' s1 = conn_ok env reg tid' s \<and> state s1 = state s \<and> outputBuffer s1 = outputBuffer s \<and>
    (ShutdownWrite \<in> set (trace s1)) = (ShutdownWrite \<in> set (trace s)) \<and>
    sent s1 @ (if fault then [] else drop n data) = sent s @ accepted env s data \<and>
    sent s1 = sent s @ (case sock_write env (syscalls s) data of Inl e \<Rightarrow> [] | Inr k \<Rightarrow> take k data)"
proof -
  have z: "(0 < (word_of_nat m :: size_t)) = (0 < m)" if "m < 2 ^ 64" for m
    using that by (simp add: word_less_nat_alt unat_of_nat_size)
  have neq: "EWOULDBLOCK \<noteq> EPIPE" "EWOULDBLOCK \<noteq> ECONNRESET" by (simp_all add: EWOULDBLOCK_def EPIPE_def ECONNRESET_def)
  show ?thesis
  proof (cases "sock_write env (syscalls s) data")
    case (Inl e)
    then show ?thesis
      using w z [OF small] neq
      by (auto simp: write_directly_def split_beta write_socket_simps accepted_def Let_def)
  next
    case (Inr k)
    then have k: "k \<le> length data" using wr by (auto simp: write_ok_def)
    have z': "(0 < (word_of_nat (length data - k) :: size_t)) = (k < length data)" using small z [of "length data - k"] by simp
    have "(word_of_nat (length data - k) :: size_t) \<le> word_of_nat (length data)"
      using small by (simp add: word_le_nat_alt unat_of_nat_size)
    moreover have "(word_of_nat (length data) - word_of_nat k :: size_t) = word_of_nat (length data - k)"
      using k by (simp add: of_nat_diff)
    then have "n = k" "remaining = word_of_nat (length data - k)" "\<not> fault"
      "s1 = (if remaining = 0 \<and> writeCompleteCallback (snd (write_socket env data s))
             then queueInLoop tid RunWriteComplete (snd (write_socket env data s)) else snd (write_socket env data s))"
      using w Inr by (auto simp: write_directly_def split_beta write_socket_simps(1) Let_def)
    ultimately show ?thesis using Inr z' k by (auto simp: write_socket_simps accepted_def)
  qed
qed

lemma sendInLoop_idle:
  assumes ok: "conn_ok env reg tid s" and wr: "write_ok env"
    and idle: "content (outputBuffer s) = []" and fits: "write_pos (outputBuffer s) + length data \<le> vector_max_size"
  obtains s' where "sendInLoop env tid data s = Inr s'" "conn_ok env reg tid s'" "state s' = state s"
    "stream s' = sent s @ accepted env s data" "write_pos (outputBuffer s') \<le> write_pos (outputBuffer s) + length data"
    "(ShutdownWrite \<in> set (trace s')) = (ShutdownWrite \<in> set (trace s))"
    "sent s' = sent s @ (case sock_write env (syscalls s) data of Inl e \<Rightarrow> [] | Inr k \<Rightarrow> take k data)"
proof -
  obtain c where c: "writing s = Inr (isWriting c)" "\<not> isWriting c" using conn_ok_writing [OF ok] idle by metis
  have rz: "readableBytes (outputBuffer s) = 0" using readable_zero idle ok unfolding conn_ok_def by blast
  have tid: "threadId s = tid" by (rule conn_ok_thread [OF ok])
  have small: "length data < 2 ^ 64" using fits by (simp add: vector_max_size_def)
  obtain n remaining fault s1 where w: "write_directly env tid data s = (n, remaining, fault, s1)" by (metis prod_cases4)
  have ws: "remaining \<le> word_of_nat (length data)" "(0 < remaining) = (drop n data \<noteq> [])"
    "conn_ok env reg tid s1" "state s1 = state s" "outputBuffer s1 = outputBuffer s"
    "sent s1 @ (if fault then [] else drop n data) = sent s @ accepted env s data"
    "(ShutdownWrite \<in> set (trace s1)) = (ShutdownWrite \<in> set (trace s))"
    "sent s1 = sent s @ (case sock_write env (syscalls s) data of Inl e \<Rightarrow> [] | Inr k \<Rightarrow> take k data)"
    using write_directly_spec [OF wr small w] ok by blast+
  have eq: "sendInLoop env tid data s =
      (if \<not> fault \<and> drop n data \<noteq> [] then keep_rest env tid (drop n data) remaining s1 else Inr s1)"
    unfolding sendInLoop_def using c rz tid ws(1) by (simp add: w ws(2))
  show ?thesis
  proof (cases "\<not> fault \<and> drop n data \<noteq> []")
    case True
    obtain s' where "keep_rest env tid (drop n data) remaining s1 = Inr s'" "conn_ok env reg tid s'" "state s' = state s1"
      "content (outputBuffer s') = drop n data" "trace s' = trace s1"
      "write_pos (outputBuffer s') \<le> write_pos (outputBuffer s1) + length (drop n data)"
      by (rule keep_rest_spec [of env reg tid s1 "drop n data"]) (use ok idle fits True ws in auto)
    with eq True ws(4-8) show ?thesis by (intro that [of s']) (simp_all add: stream_def sent_def)
  next
    case False
    then have "(if fault then [] else drop n data) = []" by auto
    with ws(6) have "sent s1 = sent s @ accepted env s data" by simp
    with False eq ws(3-5,7,8) idle show ?thesis by (intro that [of s1]) (auto simp: stream_def)
  qed
qed


text \<open>A send with output still pending does nothing at all.\<close>

lemma sendInLoop_pending:
  assumes ok: "conn_ok env reg tid s" and pend: "content (outputBuffer s) \<noteq> []"
  shows "sendInLoop env tid data s = Inr s"
proof -
  have "readableBytes (outputBuffer s) \<noteq> 0" using readable_zero pend ok unfolding conn_ok_def by blast
  moreover obtain w where "writing s = Inr w" using conn_ok_writing [OF ok] by metis
  ultimately show ?thesis by (simp add: sendInLoop_def conn_ok_thread [OF ok])
qed

text \<open>The room a call needs in the output buffer, and the effect of a call on the output.\<close>

fun call_size :: "'c conn_call \<Rightarrow> nat" where
  "call_size (CallSend msg) = length msg"
| "call_size CallShutdown = 0"
| "call_size CallForceClose = 0"
| "call_size (CallSetContext c) = 0"
| "call_size (CallSetTcpNoDelay on) = 0"
| "call_size CallQueueDestory = 0"

lemma send_spec:
  assumes ok: "conn_ok env reg tid s" and wr: "write_ok env"
    and fits: "write_pos (outputBuffer s) + length msg \<le> vector_max_size"
  obtains s' where "send env tid msg s = Inr s'" "conn_ok env reg tid s'" "state s' = state s"
    "stream s' = stream s @ (if state s = kConnected \<and> content (outputBuffer s) = [] then accepted env s msg else [])"
    "write_pos (outputBuffer s') \<le> write_pos (outputBuffer s) + length msg" "half_ok s \<Longrightarrow> half_ok s'"
proof (cases "state s = kConnected \<and> content (outputBuffer s) = []")
  case True
  then obtain s' where "sendInLoop env tid msg s = Inr s'" "conn_ok env reg tid s'" "state s' = state s"
    "stream s' = sent s @ accepted env s msg" "write_pos (outputBuffer s') \<le> write_pos (outputBuffer s) + length msg"
    "(ShutdownWrite \<in> set (trace s')) = (ShutdownWrite \<in> set (trace s))"
    using sendInLoop_idle [OF ok wr _ fits] by metis
  with True show ?thesis
    by (intro that [of s']) (simp_all add: send_def isInLoopThread_def conn_ok_thread [OF ok] stream_def half_ok_def)
next
  case False
  with ok sendInLoop_pending [OF ok] show ?thesis
    by (intro that [of s]) (auto simp: send_def isInLoopThread_def conn_ok_thread [OF ok])
qed

lemma shutdownInLoop_spec:
  assumes ok: "conn_ok env reg tid s" and st: "state s \<noteq> kDisconnected"
  shows "shutdownInLoop tid s =
      Inr (if content (outputBuffer s) = [] then emit ShutdownWrite (setState kDisconnected s) else s)"
    and "content (outputBuffer s) = [] \<Longrightarrow> conn_ok env reg tid (setState kDisconnected s)"
proof -
  obtain c where c: "conn_chan s = Some c" "writing s = Inr (isWriting c)" "isWriting c = (content (outputBuffer s) \<noteq> [])"
    using conn_ok_writing [OF ok] st by metis
  then show "shutdownInLoop tid s =
      Inr (if content (outputBuffer s) = [] then emit ShutdownWrite (setState kDisconnected s) else s)"
    by (simp add: shutdownInLoop_def conn_ok_thread [OF ok])
  show "content (outputBuffer s) = [] \<Longrightarrow> conn_ok env reg tid (setState kDisconnected s)"
    using ok st unfolding conn_ok_def by (auto simp: setState_def)
qed

lemma conn_ok_active: "state s \<noteq> kDisconnected \<Longrightarrow> st \<noteq> kDisconnected \<Longrightarrow>
    conn_ok env reg tid (s\<lparr>state := st\<rparr>) = conn_ok env reg tid s"
  by (simp add: conn_ok_def)

lemma run_call_spec:
  assumes ok: "conn_ok env reg tid s" and wr: "write_ok env"
    and fits: "write_pos (outputBuffer s) + call_size call \<le> vector_max_size"
  obtains s' where "run_call env tid call s = Inr s'" "conn_ok env reg tid s'"
    "\<exists>d. stream s' = stream s @ d" "write_pos (outputBuffer s') \<le> write_pos (outputBuffer s) + call_size call"
    "state s = kDisconnected \<Longrightarrow> state s' = kDisconnected" "half_ok s \<Longrightarrow> half_ok s'"
proof (cases call)
  case (CallSend msg)
  with fits have "write_pos (outputBuffer s) + length msg \<le> vector_max_size" by simp
  then obtain s' where "send env tid msg s = Inr s'" "conn_ok env reg tid s'" "state s' = state s"
    "stream s' = stream s @ (if state s = kConnected \<and> content (outputBuffer s) = [] then accepted env s msg else [])"
    "write_pos (outputBuffer s') \<le> write_pos (outputBuffer s) + length msg" "half_ok s \<Longrightarrow> half_ok s'"
    using send_spec [OF ok wr] by blast
  with CallSend show ?thesis by (intro that [of s']) auto
next
  case CallShutdown
  show ?thesis
  proof (cases "state s = kConnected")
    case True
    let ?s1 = "setState kDisconnecting s"
    have ok1: "conn_ok env reg tid ?s1" using ok True by (simp add: setState_def conn_ok_active)
    note sh = shutdownInLoop_spec [OF ok1]
    have eq: "shutdown tid s = shutdownInLoop tid ?s1"
      using True conn_ok_thread [OF ok] by (simp add: shutdown_def isInLoopThread_def setState_def)
    have "half_ok (if content (outputBuffer ?s1) = [] then emit ShutdownWrite (setState kDisconnected ?s1) else ?s1)"
      if "half_ok s"
    proof -
      have no: "ShutdownWrite \<notin> set (trace s)" using half_ok_open [OF that] True by simp
      then show ?thesis
        using half_ok_shutdown [of s "emit ShutdownWrite (setState kDisconnected ?s1)"]
        by (simp add: setState_def half_ok_not)
    qed
    then show ?thesis
      by (intro that [of "if content (outputBuffer ?s1) = [] then emit ShutdownWrite (setState kDisconnected ?s1) else ?s1"])
        (use CallShutdown eq sh ok1 True in \<open>auto simp: setState_def stream_def sent_def emit_def\<close>)
  next
    case False
    with CallShutdown ok show ?thesis by (intro that [of s]) (auto simp: shutdown_def)
  qed
next
  case CallForceClose
  with ok show ?thesis
    by (intro that [of "forceClose tid s"])
      (auto simp: forceClose_def setState_def conn_ok_active stream_def sent_def half_ok_def)
next
  case (CallSetContext c)
  with ok show ?thesis by (intro that [of "setContext c s"]) (auto simp: setContext_def stream_def sent_def half_ok_def)
next
  case (CallSetTcpNoDelay on)
  with ok show ?thesis
    by (intro that [of "conn_setTcpNoDelay on s"]) (auto simp: conn_setTcpNoDelay_def stream_def sent_def half_ok_def)
next
  case CallQueueDestory
  with ok show ?thesis by (intro that [of "queueInLoop tid DestoryConnection s"]) (auto simp: half_ok_def)
qed

lemma run_calls_spec:
  assumes "conn_ok env reg tid s" and wr: "write_ok env"
    and "write_pos (outputBuffer s) + sum_list (map call_size calls) \<le> vector_max_size"
  obtains s' where "rfold (run_call env tid) calls s = Inr s'" "conn_ok env reg tid s'"
    "\<exists>d. stream s' = stream s @ d" "state s = kDisconnected \<Longrightarrow> state s' = kDisconnected"
    "half_ok s \<Longrightarrow> half_ok s'"
  using assms(1,3)
proof (induction calls arbitrary: s thesis)
  case Nil
  then show ?case by simp
next
  case (Cons call calls)
  then have "write_pos (outputBuffer s) + call_size call \<le> vector_max_size" by simp
  then obtain r where r: "run_call env tid call s = Inr r" "conn_ok env reg tid r"
    "\<exists>d. stream r = stream s @ d" "write_pos (outputBuffer r) \<le> write_pos (outputBuffer s) + call_size call"
    "state s = kDisconnected \<Longrightarrow> state r = kDisconnected" "half_ok s \<Longrightarrow> half_ok r"
    using run_call_spec [OF Cons.prems(2) wr] by blast
  moreover have "write_pos (outputBuffer r) + sum_list (map call_size calls) \<le> vector_max_size"
    using r(4) Cons.prems(3) by simp
  ultimately obtain s' where "rfold (run_call env tid) calls r = Inr s'" "conn_ok env reg tid s'"
    "\<exists>d. stream s' = stream r @ d" "state r = kDisconnected \<Longrightarrow> state s' = kDisconnected" "half_ok r \<Longrightarrow> half_ok s'"
    using Cons.IH by blast
  with r show ?case by (intro Cons.prems(1) [of s']) auto
qed


section \<open>Writing out pending output\<close>

lemma output_drained_spec:
  assumes ok: "loop_ok (ctl env) reg tid s" and inv: "buffer_inv (inputBuffer s)" "buffer_inv (outputBuffer s)"
    and c: "conn_chan s = Some c" "status c \<noteq> kNew" and e: "content (outputBuffer s) = []"
  obtains s' where "output_drained env tid s = Inr s'" "conn_ok env reg tid s'" "sent s' = sent s"
    "state s' = (if state s = kDisconnecting then kDisconnected else state s)" "outputBuffer s' = outputBuffer s"
    "trace s' = trace s @ (if state s = kDisconnecting then [ShutdownWrite] else [])"
proof -
  obtain s3 where s3: "with_update write_off (ctl env) tid (channel_ptr s) s = Inr s3" "loop_ok (ctl env) reg tid s3"
    "map_of (channels s3) = (map_of (channels s))(channel_ptr s \<mapsto> c\<lparr>event := event (write_off c), status := next_status (status c) (event (write_off c))\<rparr>)"
    "epoller.more s3 = epoller.more s"
    by (rule conn_set_mask [OF ok mask_changes(3) c])
  note f = conn_fields [OF s3(4)]
  let ?s4 = "if writeCompleteCallback s3 then queueInLoop tid RunWriteComplete s3 else s3"
  have "conn_ok env reg tid s3" unfolding conn_ok_def using s3(2,3) inv e by (simp add: f)
  then have ok4: "conn_ok env reg tid ?s4" by simp
  have f4: "state ?s4 = state s" "outputBuffer ?s4 = outputBuffer s" "sent ?s4 = sent s" "trace ?s4 = trace s" by (simp_all add: f sent_def)
  have eq: "output_drained env tid s = (if state s = kDisconnecting then shutdownInLoop tid ?s4 else Inr ?s4)"
    using s3(1) f4(1) by (simp add: output_drained_def disableWriting_def Let_def)
  note sh = shutdownInLoop_spec [OF ok4]
  show ?thesis
    by (rule that [of "if state s = kDisconnecting then emit ShutdownWrite (setState kDisconnected ?s4) else ?s4"])
      (use eq sh ok4 f4 e in \<open>auto simp: setState_def sent_def\<close>)
qed

lemma handleWrite_eq:
  assumes ok: "conn_ok env reg tid s" and wr: "writing s = Inr True"
    and w: "write_socket env (content (outputBuffer s)) s = (r, s1)"
  shows "handleWrite env tid s = (case r of
      Inr n \<Rightarrow>
        if 0 < n then
          rbind (retrieve (outputBuffer s) (word_of_nat n)) (\<lambda>b.
          let s2 = s1\<lparr>outputBuffer := b\<rparr> in if readableBytes b = 0 then output_drained env tid s2 else Inr s2)
        else Inr s1
    | Inl e \<Rightarrow> Inr s1)"
proof -
  let ?out = "outputBuffer s"
  have inv: "buffer_inv ?out" using ok unfolding conn_ok_def by blast
  have "std_read (buf ?out) (peek ?out) (unat (readableBytes ?out)) = Inr (content ?out)"
    using read_content [OF inv, of "length (content ?out)"] unat_readable [OF inv] by simp
  moreover have "outputBuffer s1 = ?out" using write_socket_simps(3) [where env = env and d = "content ?out" and s = s] w by simp
  ultimately show ?thesis
    using wr w by (cases r) (simp_all add: handleWrite_def conn_ok_thread [OF ok] Let_def)
qed

lemma take_output:
  assumes inv: "buffer_inv b" and le: "n \<le> length (content b)"
  obtains b' where "retrieve b (word_of_nat n) = Inr b'" "buffer_inv b'" "content b' = drop n (content b)"
proof -
  have "n < 2 ^ 64"
    using le length_content_le_write_pos [OF inv] unat_size_bound [of "writeIndex b"] by (simp add: write_pos_def)
  then have "unat (word_of_nat n :: size_t) = n" by (rule unat_of_nat_size)
  then show ?thesis using retrieve_spec [OF inv, of "word_of_nat n"] le that by metis
qed

text \<open>The number of bytes that leave: what \<^verbatim>\<open>write\<close> takes while the socket is watched for writing.\<close>

definition leaving :: "('k, 'c) conn_env \<Rightarrow> channel \<Rightarrow> ('k, 'c) tcp_connection \<Rightarrow> nat" where
  "leaving env c s = (if isWriting c
     then (case sock_write env (syscalls s) (content (outputBuffer s)) of Inl e \<Rightarrow> 0 | Inr n \<Rightarrow> n) else 0)"

lemma handleWrite_spec:
  assumes ok: "conn_ok env reg tid s" and wr: "write_ok env" and ch: "conn_chan s = Some ch"
  obtains s' where "handleWrite env tid s = Inr s'" "conn_ok env reg tid s'" "stream s' = stream s"
    "sent s' = sent s @ take (leaving env ch s) (content (outputBuffer s))"
    "content (outputBuffer s') = drop (leaving env ch s) (content (outputBuffer s))"
    "state s' = (if state s = kDisconnecting \<and> content (outputBuffer s) \<noteq> [] \<and> content (outputBuffer s') = []
                 then kDisconnected else state s)"
    "half_ok s \<Longrightarrow> half_ok s'"
proof -
  obtain c where c: "conn_chan s = Some c" "status c \<noteq> kNew" "writing s = Inr (isWriting c)"
    "isWriting c \<longrightarrow> content (outputBuffer s) \<noteq> []" "state s \<noteq> kDisconnected \<Longrightarrow> isWriting c = (content (outputBuffer s) \<noteq> [])"
    using conn_ok_writing [OF ok] by blast
  have [simp]: "ch = c" using c(1) ch by simp
  let ?out = "outputBuffer s"
  obtain r s1 where w: "write_socket env (content ?out) s = (r, s1)" by (cases "write_socket env (content ?out) s")
  have ws: "r = sock_write env (syscalls s) (content ?out)" "state s1 = state s" "outputBuffer s1 = ?out"
    "channels s1 = channels s" "channel_ptr s1 = channel_ptr s" "conn_ok env reg tid s1"
    "sent s1 = sent s @ (case r of Inl e \<Rightarrow> [] | Inr n \<Rightarrow> take n (content ?out))"
    "(ShutdownWrite \<in> set (trace s1)) = (ShutdownWrite \<in> set (trace s))"
    using write_socket_simps [where env = env and d = "content ?out" and s = s] ok by (simp_all add: w)
  note ok1 = ws(6) [unfolded conn_ok_def]
  consider "\<not> isWriting c" | "isWriting c" "(\<exists>e. r = Inl e) \<or> r = Inr 0" | n where "isWriting c" "r = Inr n" "0 < n"
    by (cases r) blast+
  then show ?thesis
  proof cases
    case 1
    with c ok show ?thesis
      by (intro that [of s]) (auto simp: handleWrite_def conn_ok_thread [OF ok] leaving_def)
  next
    case 2
    then have "handleWrite env tid s = Inr s1" "sent s1 = sent s"
      using handleWrite_eq [OF ok _ w] c(3) ws(7) by (auto split: sum.splits)
    moreover have "half_ok s \<Longrightarrow> half_ok s1"
      using half_ok_pending [of s] half_ok_not [of s1] ws(8) 2(1) c(4) by auto
    ultimately show ?thesis using ws 2 c by (intro that [of s1]) (auto simp: stream_def leaving_def)
  next
    case 3
    then have ne: "content ?out \<noteq> []" using c(4) by auto
    have le: "n \<le> length (content ?out)" using wr 3(2) ws(1) by (metis write_ok_def)
    obtain b where b: "retrieve ?out (word_of_nat n) = Inr b" "buffer_inv b" "content b = drop n (content ?out)"
      using take_output [OF _ le] ok unfolding conn_ok_def by blast
    let ?s2 = "s1\<lparr>outputBuffer := b\<rparr>"
    have eq: "handleWrite env tid s = (if content b = [] then output_drained env tid ?s2 else Inr ?s2)"
      using handleWrite_eq [OF ok _ w] c(3) 3 b(1) readable_zero [OF b(2)] by simp
    have lv: "leaving env c s = n" using 3 ws(1) by (simp add: leaving_def split: sum.splits)
    have str2: "sent ?s2 @ content b = stream s" using ws(7) 3(2) b(3) by (simp add: stream_def sent_def)
    have c2: "loop_ok (ctl env) reg tid ?s2" "conn_chan ?s2 = Some c" using ok1 c(1) ws(4,5) by simp_all
    have no: "ShutdownWrite \<notin> set (trace ?s2)" if "half_ok s" using half_ok_pending [OF that ne] ws(8) by simp
    show ?thesis
    proof (cases "content b = []")
      case False
      have "conn_ok env reg tid ?s2"
        unfolding conn_ok_def using ok1 ws(2) b(2) c2 c(2) False 3(1) by simp
      with eq False str2 ws(2) no 3(2) b(3) ws(7) lv show ?thesis by (intro that [of ?s2]) (auto simp: stream_def sent_def half_ok_not)
    next
      case True
      obtain s' where "output_drained env tid ?s2 = Inr s'" "conn_ok env reg tid s'" "sent s' = sent ?s2"
        "state s' = (if state ?s2 = kDisconnecting then kDisconnected else state ?s2)" "outputBuffer s' = outputBuffer ?s2"
        "trace s' = trace ?s2 @ (if state ?s2 = kDisconnecting then [ShutdownWrite] else [])"
        by (rule output_drained_spec [OF c2(1) _ _ c2(2) c(2)]) (use ok1 b(2) ws(2) True in simp_all)
      moreover have "half_ok s'" if "half_ok s"
        using half_ok_shutdown [OF no [OF that], of s'] half_ok_not [of s'] no [OF that] calculation True
        by (cases "state ?s2 = kDisconnecting") auto
      moreover have "sent ?s2 = sent s @ take n (content ?out)" using ws(7) 3(2) by (simp add: sent_def)
      ultimately show ?thesis using eq True str2 ne ws(2) lv b(3) by (intro that [of s']) (auto simp: stream_def)
    qed
  qed
qed


section \<open>Closing\<close>

text \<open>Once disconnected, a callback can only queue functors and set the context.\<close>

definition closed_frame :: "('k, 'c) tcp_connection \<Rightarrow> ('k, 'c) tcp_connection \<Rightarrow> bool" where
  "closed_frame s s' \<longleftrightarrow> state s' = kDisconnected \<and> trace s' = trace s \<and> channels s' = channels s \<and>
     channel_ptr s' = channel_ptr s \<and> channelMap s' = channelMap s \<and> kern s' = kern s \<and> threadId s' = threadId s \<and>
     this_loop s' = this_loop s \<and> inputBuffer s' = inputBuffer s \<and> outputBuffer s' = outputBuffer s"

lemma run_calls_closed:
  assumes "state s = kDisconnected"
  obtains s' where "rfold (run_call env tid) calls s = Inr s'" "closed_frame s s'"
    "pendingFunctors s' = pendingFunctors s @ replicate (length (filter (\<lambda>c. c = CallQueueDestory) calls)) DestoryConnection"
  using assms
proof (induction calls arbitrary: s thesis)
  case Nil
  then show ?case by (simp add: closed_frame_def)
next
  case (Cons call calls)
  obtain r where r: "run_call env tid call s = Inr r" "closed_frame s r"
    "pendingFunctors r = pendingFunctors s @ (if call = CallQueueDestory then [DestoryConnection] else [])"
    using Cons.prems(2)
    by (cases call) (auto simp: closed_frame_def send_def shutdown_def forceClose_def setContext_def conn_setTcpNoDelay_def)
  then have "state r = kDisconnected" by (simp add: closed_frame_def)
  then obtain s' where "rfold (run_call env tid) calls r = Inr s'" "closed_frame r s'"
    "pendingFunctors s' = pendingFunctors r @ replicate (length (filter (\<lambda>c. c = CallQueueDestory) calls)) DestoryConnection"
    using Cons.IH by blast
  with r show ?case by (intro Cons.prems(1) [of s']) (auto simp: closed_frame_def)
qed

lemma closed_frame_loop_ok: "closed_frame s s' \<Longrightarrow> loop_ok c reg tid s' = loop_ok c reg tid s"
  by (auto simp: closed_frame_def loop_ok_def poller_inv_def)

definition closed_channel :: "channel \<Rightarrow> channel" where
  "closed_channel c = c\<lparr>event := kNoneEvent, status := next_status (status c) kNoneEvent\<rparr>"

lemma all_off_event [simp]: "event (all_off c) = kNoneEvent"
  by (simp add: all_off_def)

lemma handleClose_spec:
  assumes ok: "conn_ok env reg tid s" and c: "conn_chan s = Some c"
  obtains s' where "handleClose env tid s = Inr s'" "conn_ok env reg tid s'" "state s' = kDisconnected"
    "trace s' = trace s @ [CloseCallback]" "stream s' = stream s" "conn_chan s' = Some (closed_channel c)"
    "status c = kAdded \<Longrightarrow> reg (kern s') = (reg (kern s))(fd c := None)" "channel_ptr s' = channel_ptr s"
    "outputBuffer s' = outputBuffer s"
    "\<exists>s0. pendingFunctors s' = pendingFunctors s @
       replicate (length (filter (\<lambda>c. c = CallQueueDestory) (on_close env s0))) DestoryConnection"
proof -
  note ok' = ok [unfolded conn_ok_def]
  let ?s0 = "setState kDisconnected s"
  have ok0: "loop_ok (ctl env) reg tid ?s0" and c0: "conn_chan ?s0 = Some c" and st: "status c \<noteq> kNew"
    using ok' c by (auto simp: setState_def)
  have e: "event (all_off c) = kNoneEvent" by (simp add: all_off_def)
  obtain s1 where s1: "with_update all_off (ctl env) tid (channel_ptr ?s0) ?s0 = Inr s1" "loop_ok (ctl env) reg tid s1"
    "map_of (channels s1) = (map_of (channels ?s0))(channel_ptr ?s0 \<mapsto> closed_channel c)"
    "reg (kern s1) = (reg (kern ?s0))(fd c := if next_status (status c) kNoneEvent = kAdded then Some (kNoneEvent, channel_ptr ?s0) else None)"
    "epoller.more s1 = epoller.more ?s0"
    using conn_set_mask [OF ok0 mask_changes(4) c0 st] unfolding e closed_channel_def by metis
  note f = conn_fields [OF s1(5)] loop_fields(5) [OF s1(5)]
  let ?s2 = "emit CloseCallback s1"
  have "state ?s2 = kDisconnected" by (simp add: f setState_def)
  then obtain s' where s': "rfold (run_call env tid) (on_close env ?s2) ?s2 = Inr s'" "closed_frame ?s2 s'"
    "pendingFunctors s' = pendingFunctors ?s2 @ replicate (length (filter (\<lambda>c. c = CallQueueDestory) (on_close env ?s2))) DestoryConnection"
    by (rule run_calls_closed)
  note cf = s'(2) [unfolded closed_frame_def]
  have w: "\<not> isWriting (closed_channel c)"
    using isWriting_simps(4) [of c] by (simp add: closed_channel_def isWriting_def all_off_def)
  have "conn_ok env reg tid s'"
    unfolding conn_ok_def using closed_frame_loop_ok [OF s'(2)] s1(2,3) ok' cf w
    by (simp add: f setState_def) (simp add: closed_channel_def)
  moreover have "handleClose env tid s = Inr s'"
    using s1(1) s'(1) conn_ok_thread [OF ok]
    by (simp add: handleClose_def closeCallback_def disableAll_def setState_def Let_def)
  ultimately show ?thesis
    using cf s1(3,4) s'(3) f
    by (intro that [of s'])
      (auto simp: setState_def stream_def sent_def next_status_def intro!: exI [of _ "emit CloseCallback s1"])
qed

text \<open>Removal of a connection whose channel watches nothing.\<close>

lemma destory_closed_spec:
  assumes ok: "loop_ok (ctl env) reg tid s" and c: "conn_chan s = Some c" "event c = kNoneEvent" "status c \<noteq> kNew"
    and st: "state s \<noteq> kConnected"
  obtains s' where "destoryConnection env tid s = Inr s'" "loop_ok (ctl env) reg tid s'"
    "conn_chan s' = Some (c\<lparr>status := kNew\<rparr>)" "reg (kern s') = (reg (kern s))(fd c := None)" "trace s' = trace s" "state s' = state s"
proof -
  obtain s' where s': "removeChannel (ctl env) tid (channel_ptr s) s = Inr s'" "loop_ok (ctl env) reg tid s'"
    "map_of (channels s') = (map_of (channels s))(channel_ptr s \<mapsto> c\<lparr>status := kNew\<rparr>)"
    "reg (kern s') = (reg (kern s))(fd c := None)" "epoller.more s' = epoller.more s"
    using loop_watch.drop_law [OF ok c] by auto
  note f = conn_fields [OF s'(5)]
  have "threadId s = tid" using ok by (simp add: loop_ok_def)
  with s' st show ?thesis by (intro that [of s']) (simp_all add: destoryConnection_def f)
qed


section \<open>Establishing and reading\<close>

lemma set_chan_conn [simp]:
  fixes s :: "('k, 'c) tcp_connection"
  shows "channel_ptr (set_chan a c s) = channel_ptr s" "state (set_chan a c s) = state s" "trace (set_chan a c s) = trace s"
    "inputBuffer (set_chan a c s) = inputBuffer s" "outputBuffer (set_chan a c s) = outputBuffer s"
    "this_conn (set_chan a c s) = this_conn s" "pendingFunctors (set_chan a c s) = pendingFunctors s"
    "this_loop (set_chan a c s) = this_loop s"
  by (simp_all add: set_chan_def)

text \<open>
  A connection ready to be established: its channel is not registered and its descriptor not in use.
  \<open>opened\<close> is the state in which the connection callback runs.
\<close>

definition conn_fresh ::
  "('k, 'c) conn_env \<Rightarrow> ('k \<Rightarrow> int \<Rightarrow> (event_mask \<times> nat) option) \<Rightarrow> int \<Rightarrow> channel \<Rightarrow> ('k, 'c) tcp_connection \<Rightarrow> bool" where
  "conn_fresh env reg tid c s \<longleftrightarrow> loop_ok (ctl env) reg tid s \<and> buffer_inv (inputBuffer s) \<and> buffer_inv (outputBuffer s) \<and>
     content (outputBuffer s) = [] \<and> conn_chan s = Some c \<and> status c = kNew \<and> event c = kNoneEvent \<and>
     map_of (channelMap s) (fd c) = None"

lemma establish_spec:
  assumes "conn_fresh env reg tid c s"
  obtains s3 where "establishConnection env tid s = rfold (run_call env tid) (on_connection env s3) s3"
    "conn_ok env reg tid s3" "state s3 = kConnected" "trace s3 = trace s @ [ConnectionCallback True]"
    "reg (kern s3) = (reg (kern s))(fd c \<mapsto> (kReadEvent, channel_ptr s))" "outputBuffer s3 = outputBuffer s"
    "\<exists>c'. conn_chan s3 = Some c' \<and> tied c' \<and> tie c' = this_conn s \<and> fd c' = fd c \<and> event c' = kReadEvent"
proof -
  note fr = assms [unfolded conn_fresh_def]
  let ?c = "tie_channel (this_conn s) c"
  let ?s1 = "setState kConnected (setState kConnecting s)"
  let ?s2 = "set_chan (channel_ptr s) ?c ?s1"
  have tc: "status ?c = kNew" "fd ?c = fd c" "event ?c = kNoneEvent" "ownerLoop ?c = ownerLoop c" "tied ?c" "tie ?c = this_conn s"
    using fr by (simp_all add: tie_channel_def)
  have c1: "map_of (channels ?s1) (channel_ptr s) = Some c" using fr by (simp add: setState_def)
  have ok1: "loop_ok (ctl env) reg tid ?s1" using fr by (simp add: setState_def)
  have "loop_ok (ctl env) reg tid ?s2"
    using ok1 c1 tc poller_inv_set_chan [of reg ?s1 "channel_ptr s" c ?c] fr by (auto simp: loop_ok_def setState_def)
  moreover have "map_of (channels ?s2) (channel_ptr s) = Some ?c" by simp
  moreover have e: "event (read_on ?c) = kReadEvent" using tc by (simp add: read_on_def kNoneEvent_def)
  ultimately obtain s3 where s3: "with_update read_on (ctl env) tid (channel_ptr s) ?s2 = Inr s3" "loop_ok (ctl env) reg tid s3"
    "map_of (channels s3) = (map_of (channels ?s2))(channel_ptr s \<mapsto> ?c\<lparr>event := kReadEvent, status := kAdded\<rparr>)"
    "reg (kern s3) = (reg (kern ?s2))(fd c \<mapsto> (kReadEvent, channel_ptr s))" "epoller.more s3 = epoller.more ?s2"
    using loop_watch.set_mask_law [of "ctl env" reg tid ?s2 read_on "channel_ptr s" ?c] mask_changes(1) tc fr
    by (auto simp: setState_def next_status_def)
  note f = conn_fields [OF s3(5)]
  let ?s4 = "emit (ConnectionCallback True) s3"
  have w: "\<not> isWriting (?c\<lparr>event := kReadEvent, status := kAdded\<rparr>)"
    by (simp add: isWriting_def kReadEvent_def kWriteEvent_def epoll_defs)
  have "establishConnection env tid s = rfold (run_call env tid) (on_connection env ?s4) ?s4"
    using s3(1) c1 fr f by (simp add: establishConnection_def connectionCallback_def enableReading_def chan_at_def
      isConnected_def setState_def loop_ok_def Let_def)
  moreover have "conn_ok env reg tid ?s4" unfolding conn_ok_def using s3(2,3) fr w by (simp add: f setState_def)
  ultimately show ?thesis using s3 f tc by (intro that [of ?s4]) (simp_all add: setState_def)
qed


text \<open>
  What is asked of the environment: \<^verbatim>\<open>write\<close> and \<^verbatim>\<open>readv\<close> respect their sizes, the callbacks send at
  most \<open>B\<close> bytes at a time, and the message callback returns with an intact buffer.
\<close>

definition calls_size :: "'c conn_call list \<Rightarrow> nat" where
  "calls_size calls = sum_list (map call_size calls)"

definition env_ok :: "nat \<Rightarrow> ('k, 'c) conn_env \<Rightarrow> bool" where
  "env_ok B env \<longleftrightarrow> write_ok env \<and> (\<forall>i. readv_ok (sock_readv env i)) \<and>
     (\<forall>s. calls_size (on_connection env s) \<le> B \<and> calls_size (on_write_complete env s) \<le> B \<and>
        (\<forall>n. calls_size (on_high_water_mark env n s) \<le> B) \<and>
        (\<forall>t. buffer_inv (inputBuffer s) \<longrightarrow>
           (\<exists>b calls. on_message env t s = Inr (b, calls) \<and> buffer_inv b \<and> calls_size calls \<le> B)))"

text \<open>There is memory for what one handler may do.\<close>

definition room :: "nat \<Rightarrow> ('k, 'c) tcp_connection \<Rightarrow> bool" where
  "room B s \<longleftrightarrow> write_pos (outputBuffer s) + B \<le> vector_max_size \<and>
     length (buf (inputBuffer s)) + extraBuf_size \<le> vector_max_size"

lemma callback_spec:
  assumes "conn_ok env reg tid s" and "env_ok B env" and "calls_size calls \<le> B" and "room B s"
  obtains s' where "rfold (run_call env tid) calls s = Inr s'" "conn_ok env reg tid s'"
    "\<exists>d. stream s' = stream s @ d" "half_ok s \<Longrightarrow> half_ok s'"
  using run_calls_spec [of env reg tid s calls] assms unfolding env_ok_def room_def calls_size_def
  by (metis (no_types, lifting) add_le_cancel_left order_trans)

lemma conn_ok_input: "conn_ok env reg tid s \<Longrightarrow> buffer_inv b \<Longrightarrow> conn_ok env reg tid (s\<lparr>inputBuffer := b\<rparr>)"
  by (auto simp: conn_ok_def)

lemma messageCallback_spec:
  assumes ok: "conn_ok env reg tid s" and env: "env_ok B env" and rm: "write_pos (outputBuffer s) + B \<le> vector_max_size"
  obtains s' where "messageCallback env tid t s = Inr s'" "conn_ok env reg tid s'"
    "\<exists>d. stream s' = stream s @ d" "half_ok s \<Longrightarrow> half_ok s'"
proof -
  let ?s1 = "emit (MessageCallback (content (inputBuffer s))) s"
  have "buffer_inv (inputBuffer ?s1)" using ok by (simp add: conn_ok_def)
  then obtain b calls where b: "on_message env t ?s1 = Inr (b, calls)" "buffer_inv b" "calls_size calls \<le> B"
    using env unfolding env_ok_def by blast
  let ?s2 = "?s1\<lparr>inputBuffer := b\<rparr>"
  have ok2: "conn_ok env reg tid ?s2" using ok b(2) by (intro conn_ok_input) simp_all
  have fits: "write_pos (outputBuffer ?s2) + sum_list (map call_size calls) \<le> vector_max_size"
    using b(3) rm by (simp add: calls_size_def)
  have wr: "write_ok env" using env by (simp add: env_ok_def)
  obtain s' where s': "rfold (run_call env tid) calls ?s2 = Inr s'" "conn_ok env reg tid s'"
    "\<exists>d. stream s' = stream ?s2 @ d" "half_ok ?s2 \<Longrightarrow> half_ok s'"
    using run_calls_spec [OF ok2 wr fits] by blast
  have "half_ok ?s2" if "half_ok s"
    by (rule half_ok_closed [OF that, of ?s2 "[MessageCallback (content (inputBuffer s))]"]) simp_all
  with s' b(1) show ?thesis
    by (intro that [of s']) (auto simp: messageCallback_def Let_def stream_def sent_def emit_def)
qed

lemma conn_handleRead_spec:
  assumes ok: "conn_ok env reg tid s" and env: "env_ok B env" and rm: "room B s"
  obtains s' where "conn_handleRead env tid t s = Inr s'" "conn_ok env reg tid s'"
    "\<exists>d. stream s' = stream s @ d" "half_ok s \<Longrightarrow> half_ok s'"
proof -
  let ?rd = "sock_readv env (syscalls s)" and ?in = "inputBuffer s"
  have inv: "buffer_inv ?in" and tid: "threadId s = tid" using ok by (simp_all add: conn_ok_def loop_ok_def)
  have rd: "readv_ok ?rd" and wr: "write_ok env" using env by (simp_all add: env_ok_def)
  have next_ok: "conn_ok env reg tid (s\<lparr>inputBuffer := b, syscalls := n\<rparr>)" if "buffer_inv b" for b n
    using conn_ok_input [OF ok that] by simp
  have same: "stream (s\<lparr>inputBuffer := b, syscalls := n\<rparr>) = stream s" "half_ok (s\<lparr>inputBuffer := b, syscalls := n\<rparr>) = half_ok s" for b n
    by (simp_all add: stream_def sent_def half_ok_def)
  show ?thesis
  proof (cases "?rd (unat (writableBytes ?in)) extraBuf_size")
    case (Inl e)
    then have "conn_handleRead env tid t s = Inr (s\<lparr>syscalls := Suc (syscalls s)\<rparr>)"
      by (simp add: conn_handleRead_def tid readFd_def handleError_def Let_def)
    with ok show ?thesis
      by (intro that [of "s\<lparr>syscalls := Suc (syscalls s)\<rparr>"]) (simp_all add: stream_def sent_def half_ok_def)
  next
    case (Inr a)
    obtain a0 a1 where a: "a = (a0, a1)" by (cases a)
    obtain b where b: "readFd ?rd ?in = Inr (Inr (length (a0 @ a1)), b)" "buffer_inv b"
      using readFd_spec [OF inv rd, of a0 a1] Inr a rm unfolding room_def by blast
    let ?s1 = "s\<lparr>inputBuffer := b, syscalls := Suc (syscalls s)\<rparr>"
    have ok1: "conn_ok env reg tid ?s1" by (rule next_ok [OF b(2)])
    have eq: "conn_handleRead env tid t s = (if 0 < length (a0 @ a1) then messageCallback env tid t ?s1 else handleClose env tid ?s1)"
      using b(1) by (simp add: conn_handleRead_def tid)
    show ?thesis
    proof (cases "0 < length (a0 @ a1)")
      case True
      have "write_pos (outputBuffer ?s1) + B \<le> vector_max_size" using rm by (simp add: room_def)
      then obtain s' where "messageCallback env tid t ?s1 = Inr s'" "conn_ok env reg tid s'"
        "\<exists>d. stream s' = stream ?s1 @ d" "half_ok ?s1 \<Longrightarrow> half_ok s'"
        using messageCallback_spec [OF ok1 env] by blast
      with eq True same show ?thesis by (intro that [of s']) auto
    next
      case False
      obtain c where c: "conn_chan ?s1 = Some c" using ok1 unfolding conn_ok_def by blast
      obtain s' where s': "handleClose env tid ?s1 = Inr s'" "conn_ok env reg tid s'" "state s' = kDisconnected"
        "trace s' = trace ?s1 @ [CloseCallback]" "stream s' = stream ?s1" "outputBuffer s' = outputBuffer ?s1"
        by (rule handleClose_spec [OF ok1 c]) blast
      have "half_ok s'" if "half_ok s"
        by (rule half_ok_closed [of ?s1 s' "[CloseCallback]"]) (use s' that same in simp_all)
      with s' eq False same show ?thesis by (intro that [of s']) auto
    qed
  qed
qed


text \<open>
  Removal by the server.  \<^verbatim>\<open>destoryConnection\<close> on a connected connection reports the disconnection to the
  connection callback once and removes the channel from the poller.\<close>
lemma destory_connected:
  assumes "conn_ok env reg tid s" and "conn_chan s = Some c" and "state s = kConnected"
  shows "\<exists>s'. destoryConnection env tid s = Inr s' \<and> state s' = kDisconnected \<and> trace s' = trace s @ [ConnectionCallback False] \<and>
    reg (kern s') (fd c) = None \<and> conn_chan s' = Some (c\<lparr>event := kNoneEvent, status := kNew\<rparr>)"
proof -
  note ok' = assms(1) [unfolded conn_ok_def]
  let ?s0 = "setState kDisconnected s"
  have ok0: "loop_ok (ctl env) reg tid ?s0" and c0: "conn_chan ?s0 = Some c" and st: "status c \<noteq> kNew"
    using ok' assms(2) by (auto simp: setState_def)
  obtain s1 where s1: "with_update all_off (ctl env) tid (channel_ptr ?s0) ?s0 = Inr s1" "loop_ok (ctl env) reg tid s1"
    "map_of (channels s1) = (map_of (channels ?s0))(channel_ptr ?s0 \<mapsto> closed_channel c)" "epoller.more s1 = epoller.more ?s0"
    using conn_set_mask [OF ok0 mask_changes(4) c0 st] unfolding closed_channel_def by (metis all_off_event)
  note f = conn_fields [OF s1(4)]
  let ?s2 = "emit (ConnectionCallback False) s1"
  have "state ?s2 = kDisconnected" by (simp add: f setState_def)
  then obtain s3 where s3: "rfold (run_call env tid) (on_connection env ?s2) ?s2 = Inr s3" "closed_frame ?s2 s3"
    by (rule run_calls_closed)
  note cf = s3(2) [unfolded closed_frame_def]
  have c3: "conn_chan s3 = Some (closed_channel c)" using cf s1(3) by (simp add: f setState_def)
  have cc: "event (closed_channel c) = kNoneEvent" "status (closed_channel c) \<noteq> kNew" "fd (closed_channel c) = fd c"
    by (simp_all add: closed_channel_def)
  have ok3: "loop_ok (ctl env) reg tid s3" using closed_frame_loop_ok [OF s3(2)] s1(2) by simp
  obtain s' where s': "removeChannel (ctl env) tid (channel_ptr s3) s3 = Inr s'"
    "map_of (channels s') = (map_of (channels s3))(channel_ptr s3 \<mapsto> (closed_channel c)\<lparr>status := kNew\<rparr>)"
    "reg (kern s') = (reg (kern s3))(fd c := None)" "epoller.more s' = epoller.more s3"
    using loop_watch.drop_law [OF ok3 c3 cc(1,2)] cc(3) by auto
  have "destoryConnection env tid s = Inr s'"
    using s1(1) s3(1) s'(1) assms(3) conn_ok_thread [OF assms(1)] f
    by (simp add: destoryConnection_def connectionCallback_def disableAll_def setState_def isConnected_def Let_def)
  with s' cf show ?thesis
    by (intro exI [of _ s']) (simp add: conn_fields [OF s'(4)] f setState_def closed_channel_def)
qed



section \<open>A connection in use\<close>

text \<open>
  What can happen to a connection: a call in its loop thread, a call by another thread, an event of
  its socket, and the next of the functors queued in its loop.  Calls of another thread are taken
  to be atomic: in the code the test and the change of \<^verbatim>\<open>state_\<close> in \<^verbatim>\<open>shutdown\<close> and \<^verbatim>\<open>forceClose\<close> are
  two accesses without a lock.
\<close>

datatype 'c conn_input = UserCall "'c conn_call" | OtherThread int "'c conn_call" | Ready timestamp channel_cb | Functor

fun conn_run ::
  "('k, 'c) conn_env \<Rightarrow> int \<Rightarrow> 'c conn_input \<Rightarrow> ('k, 'c) tcp_connection \<Rightarrow> ('k, 'c) tcp_connection result" where
  "conn_run env tid (UserCall call) s = run_call env tid call s"
| "conn_run env tid (OtherThread t call) s = run_call env t call s"
| "conn_run env tid (Ready t cb) s = run_conn_cb env tid t cb s"
| "conn_run env tid Functor s =
     (case pendingFunctors s of [] \<Rightarrow> Inr s | f # fs \<Rightarrow> run_conn_functor env tid f (s\<lparr>pendingFunctors := fs\<rparr>))"

fun functor_size :: "conn_functor \<Rightarrow> nat" where
  "functor_size (SendInLoop d) = length d"
| "functor_size RunWriteComplete = 0"
| "functor_size (RunHighWaterMark n) = 0"
| "functor_size ShutdownInLoop = 0"
| "functor_size ForceCloseInLoop = 0"
| "functor_size DestoryConnection = 0"

text \<open>Inputs of at most \<open>B\<close> bytes, up to the removal of the connection.\<close>

fun input_ok :: "nat \<Rightarrow> 'c conn_input \<Rightarrow> ('k, 'c) tcp_connection \<Rightarrow> bool" where
  "input_ok B (UserCall call) s \<longleftrightarrow> call_size call \<le> B"
| "input_ok B (OtherThread t call) s \<longleftrightarrow> t \<noteq> threadId s"
| "input_ok B (Ready t cb) s \<longleftrightarrow> True"
| "input_ok B Functor s \<longleftrightarrow>
     (case pendingFunctors s of [] \<Rightarrow> True | f # fs \<Rightarrow> functor_size f \<le> B \<and> f \<noteq> DestoryConnection)"

inductive conn_step :: "('k, 'c) conn_env \<Rightarrow> int \<Rightarrow> nat \<Rightarrow> ('k, 'c) tcp_connection \<Rightarrow> ('k, 'c) tcp_connection \<Rightarrow> bool"
  for env tid B where
  conn_stepI: "room B s \<Longrightarrow> input_ok B i s \<Longrightarrow> conn_run env tid i s = Inr s' \<Longrightarrow> conn_step env tid B s s'"

inductive_cases conn_stepE: "conn_step env tid B s s'"

lemma handleClose_step:
  assumes "conn_ok env reg tid s"
  obtains s' where "handleClose env tid s = Inr s'" "conn_ok env reg tid s'" "stream s' = stream s" "half_ok s \<Longrightarrow> half_ok s'"
proof -
  obtain c where c: "conn_chan s = Some c" using assms unfolding conn_ok_def by blast
  obtain s' where s': "handleClose env tid s = Inr s'" "conn_ok env reg tid s'" "state s' = kDisconnected"
    "trace s' = trace s @ [CloseCallback]" "stream s' = stream s" "outputBuffer s' = outputBuffer s"
    by (rule handleClose_spec [OF assms c]) blast
  moreover have "half_ok s'" if "half_ok s"
    by (rule half_ok_closed [OF that s'(4)]) (use s' in simp_all)
  ultimately show ?thesis using that by blast
qed

lemma run_conn_cb_spec:
  assumes "conn_ok env reg tid s" and env: "env_ok B env" and "room B s"
  obtains s' where "run_conn_cb env tid t cb s = Inr s'" "conn_ok env reg tid s'"
    "\<exists>d. stream s' = stream s @ d" "half_ok s \<Longrightarrow> half_ok s'"
proof (cases cb)
  case ReadCb
  with conn_handleRead_spec [OF assms] that show ?thesis by (metis run_conn_cb.simps(1))
next
  case WriteCb
  have wr: "write_ok env" using env by (simp add: env_ok_def)
  obtain c where "conn_chan s = Some c" using assms(1) unfolding conn_ok_def by blast
  then obtain s' where "handleWrite env tid s = Inr s'" "conn_ok env reg tid s'" "stream s' = stream s" "half_ok s \<Longrightarrow> half_ok s'"
    using handleWrite_spec [OF assms(1) wr] by metis
  with WriteCb show ?thesis by (intro that [of s']) simp_all
next
  case CloseCb
  with handleClose_step [OF assms(1)] that show ?thesis by (metis append_Nil2 run_conn_cb.simps(3))
next
  case ErrorCb
  with assms(1) show ?thesis by (intro that [of s]) (simp_all add: handleError_def)
qed

lemma sendInLoop_spec:
  assumes ok: "conn_ok env reg tid s" and wr: "write_ok env" and fits: "write_pos (outputBuffer s) + length data \<le> vector_max_size"
  obtains s' where "sendInLoop env tid data s = Inr s'" "conn_ok env reg tid s'" "\<exists>d. stream s' = stream s @ d"
    "half_ok s \<Longrightarrow> state s \<noteq> kDisconnected \<Longrightarrow> half_ok s'"
proof (cases "content (outputBuffer s) = []")
  case True
  obtain s' where "sendInLoop env tid data s = Inr s'" "conn_ok env reg tid s'" "stream s' = sent s @ accepted env s data"
    "(ShutdownWrite \<in> set (trace s')) = (ShutdownWrite \<in> set (trace s))"
    using sendInLoop_idle [OF ok wr True fits] by metis
  with True show ?thesis
    using half_ok_open [of s] half_ok_not [of s'] by (intro that [of s']) (auto simp: stream_def)
next
  case False
  with sendInLoop_pending [OF ok] ok show ?thesis by (intro that [of s]) auto
qed

lemma shutdownInLoop_step:
  assumes ok: "conn_ok env reg tid s"
  obtains s' where "shutdownInLoop tid s = Inr s'" "conn_ok env reg tid s'" "stream s' = stream s"
    "half_ok s \<Longrightarrow> state s \<noteq> kDisconnected \<Longrightarrow> half_ok s'"
proof -
  obtain c where c: "conn_chan s = Some c" "writing s = Inr (isWriting c)" "isWriting c \<longrightarrow> content (outputBuffer s) \<noteq> []"
    "state s \<noteq> kDisconnected \<Longrightarrow> isWriting c = (content (outputBuffer s) \<noteq> [])"
    using conn_ok_writing [OF ok] by metis
  let ?s1 = "emit ShutdownWrite (setState kDisconnected s)"
  have "conn_ok env reg tid ?s1" using ok c(1) by (auto simp: conn_ok_def setState_def)
  moreover have "half_ok ?s1" if "half_ok s" "state s \<noteq> kDisconnected" "\<not> isWriting c"
    by (rule half_ok_shutdown [of s]) (use that half_ok_open c(4) in \<open>auto simp: setState_def\<close>)
  ultimately show ?thesis
    using c(2) ok
    by (intro that [of "if isWriting c then s else ?s1"])
      (simp_all add: shutdownInLoop_def conn_ok_thread [OF ok] stream_def sent_def setState_def emit_def)
qed

lemma run_conn_functor_spec:
  assumes ok: "conn_ok env reg tid s" and env: "env_ok B env" and rm: "room B s"
    and f: "functor_size f \<le> B" "f \<noteq> DestoryConnection"
  obtains s' where "run_conn_functor env tid f s = Inr s'" "conn_ok env reg tid s'"
    "\<exists>d. stream s' = stream s @ d" "half_ok s \<Longrightarrow> state s \<noteq> kDisconnected \<Longrightarrow> half_ok s'"
proof (cases f)
  case RunWriteComplete
  have "calls_size (on_write_complete env s) \<le> B" using env by (simp add: env_ok_def)
  with RunWriteComplete callback_spec [OF ok env _ rm] that show ?thesis by (metis run_conn_functor.simps(1))
next
  case (RunHighWaterMark n)
  have "calls_size (on_high_water_mark env n s) \<le> B" using env by (simp add: env_ok_def)
  with RunHighWaterMark callback_spec [OF ok env _ rm] that show ?thesis by (metis run_conn_functor.simps(2))
next
  case ForceCloseInLoop
  obtain s' where "handleClose env tid s = Inr s'" "conn_ok env reg tid s'" "stream s' = stream s" "half_ok s \<Longrightarrow> half_ok s'"
    by (rule handleClose_step [OF ok]) blast
  with ForceCloseInLoop ok show ?thesis
    by (intro that [of "if state s = kConnected \<or> state s = kDisconnecting then s' else s"])
      (auto simp: forceCloseInLoop_def conn_ok_thread [OF ok])
next
  case (SendInLoop d)
  have "write_ok env" "write_pos (outputBuffer s) + length d \<le> vector_max_size"
    using env rm f(1) SendInLoop by (simp_all add: env_ok_def room_def)
  with sendInLoop_spec [OF ok] SendInLoop that show ?thesis by (metis run_conn_functor.simps(3))
next
  case ShutdownInLoop
  with shutdownInLoop_step [OF ok] that show ?thesis by (metis append_Nil2 run_conn_functor.simps(4))
qed (use f(2) in simp_all)

text \<open>A call by another thread only queues a functor and marks the connection as being closed.\<close>

lemma other_thread_spec:
  assumes ok: "conn_ok env reg tid s" and t: "t \<noteq> threadId s"
  obtains s' where "run_call env t call s = Inr s'" "conn_ok env reg tid s'" "stream s' = stream s"
    "half_ok s \<Longrightarrow> half_ok s'"
proof (cases call)
  case (CallSend msg)
  with assms show ?thesis
    by (intro that [of "if state s = kConnected then queueInLoop t (SendInLoop msg) s else s"])
      (auto simp: send_def isInLoopThread_def half_ok_def)
next
  case CallShutdown
  with assms show ?thesis
    by (intro that [of "if state s = kConnected then queueInLoop t ShutdownInLoop (setState kDisconnecting s) else s"])
      (auto simp: shutdown_def isInLoopThread_def setState_def conn_ok_active stream_def sent_def half_ok_def)
next
  case CallForceClose
  with ok show ?thesis
    by (intro that [of "forceClose t s"])
      (auto simp: forceClose_def setState_def conn_ok_active stream_def sent_def half_ok_def)
next
  case (CallSetContext c)
  with ok show ?thesis by (intro that [of "setContext c s"]) (auto simp: setContext_def stream_def sent_def half_ok_def)
next
  case (CallSetTcpNoDelay on)
  with ok show ?thesis
    by (intro that [of "conn_setTcpNoDelay on s"]) (auto simp: conn_setTcpNoDelay_def stream_def sent_def half_ok_def)
next
  case CallQueueDestory
  with ok show ?thesis by (intro that [of "queueInLoop t DestoryConnection s"]) (auto simp: half_ok_def)
qed

text \<open>Nothing that happens to a connection before its removal fails, and it keeps the connection in order.\<close>

lemma conn_run_spec:
  assumes ok: "conn_ok env reg tid s" and env: "env_ok B env" and rm: "room B s" and i: "input_ok B i s"
  obtains s' where "conn_run env tid i s = Inr s'" "conn_ok env reg tid s'"
    "\<exists>d. stream s' = stream s @ d" "half_ok s \<Longrightarrow> state s \<noteq> kDisconnected \<Longrightarrow> half_ok s'"
proof (cases i)
  case (UserCall call)
  then have "calls_size [call] \<le> B" using i by (simp add: calls_size_def)
  then obtain s' where "rfold (run_call env tid) [call] s = Inr s'" "conn_ok env reg tid s'"
    "\<exists>d. stream s' = stream s @ d" "half_ok s \<Longrightarrow> half_ok s'"
    using callback_spec [OF ok env _ rm] by blast
  with UserCall show ?thesis by (intro that [of s']) (auto simp: rbind_def split: sum.splits)
next
  case (OtherThread t call)
  with i other_thread_spec [OF ok] that show ?thesis by (metis append_Nil2 conn_run.simps(2) input_ok.simps(2))
next
  case (Ready t cb)
  with run_conn_cb_spec [OF ok env rm] that show ?thesis by (metis conn_run.simps(3))
next
  case Functor
  show ?thesis
  proof (cases "pendingFunctors s")
    case Nil
    with Functor ok show ?thesis by (intro that [of s]) simp_all
  next
    case (Cons f fs)
    let ?s = "s\<lparr>pendingFunctors := fs\<rparr>"
    have "conn_ok env reg tid ?s" "room B ?s" "functor_size f \<le> B" "f \<noteq> DestoryConnection" "stream ?s = stream s" "half_ok ?s = half_ok s"
      using ok rm i Functor Cons by (auto simp: conn_ok_def room_def stream_def sent_def half_ok_def)
    then show ?thesis
      using run_conn_functor_spec [of env reg tid ?s B f] env Functor Cons that by auto
  qed
qed

lemma conn_step_spec:
  assumes "conn_step env tid B s s'" and "conn_ok env reg tid s" and "env_ok B env"
  shows "conn_ok env reg tid s' \<and> (\<exists>d. stream s' = stream s @ d) \<and> (half_ok s \<and> state s \<noteq> kDisconnected \<longrightarrow> half_ok s')"
proof -
  from assms(1) obtain i where i: "room B s" "input_ok B i s" "conn_run env tid i s = Inr s'"
    by (rule conn_stepE) blast
  then show ?thesis using conn_run_spec [OF assms(2,3) i(1,2)] by (metis sum.inject(2))
qed

lemma conn_reachable:
  assumes "(conn_step env tid B)\<^sup>*\<^sup>* s s'" and "conn_ok env reg tid s" and env: "env_ok B env"
  shows "conn_ok env reg tid s' \<and> (\<exists>d. stream s' = stream s @ d)"
  using assms(1)
proof (induction rule: rtranclp_induct)
  case base
  with assms show ?case by simp
next
  case (step y z)
  with conn_step_spec [OF step.hyps(2) _ env] show ?case by (metis append_assoc)
qed


text \<open>
  After the half-close: the connection is disconnected with nothing left to send, \<open>sent0\<close> is what it
  had sent, and no message of another thread is still queued.  It stays so.
\<close>

definition no_send :: "('k, 'c) tcp_connection \<Rightarrow> bool" where
  "no_send s \<longleftrightarrow> (\<forall>d. SendInLoop d \<notin> set (pendingFunctors s))"

definition shut_quiet :: "string \<Rightarrow> ('k, 'c) tcp_connection \<Rightarrow> bool" where
  "shut_quiet sent0 s \<longleftrightarrow> state s = kDisconnected \<and> content (outputBuffer s) = [] \<and> sent s = sent0 \<and> no_send s"

lemma shut_quiet_calls:
  assumes "shut_quiet x s" and "rfold (run_call env tid) calls s = Inr s'"
  shows "shut_quiet x s'"
proof -
  have "state s = kDisconnected" using assms(1) by (simp add: shut_quiet_def)
  then obtain r where "rfold (run_call env tid) calls s = Inr r" "closed_frame s r"
    "pendingFunctors r = pendingFunctors s @ replicate (length (filter (\<lambda>c. c = CallQueueDestory) calls)) DestoryConnection"
    by (rule run_calls_closed)
  with assms show ?thesis by (auto simp: shut_quiet_def closed_frame_def sent_def no_send_def)
qed

lemma shut_quiet_input: "shut_quiet x (s\<lparr>inputBuffer := b\<rparr>) = shut_quiet x s" "shut_quiet x (s\<lparr>syscalls := n\<rparr>) = shut_quiet x s"
  "wrote_of e = [] \<Longrightarrow> shut_quiet x (emit e s) = shut_quiet x s"
  by (simp_all add: shut_quiet_def sent_def no_send_def emit_def)

lemma shut_quiet_close:
  assumes "shut_quiet x s" and "conn_ok env reg tid s" and "handleClose env tid s = Inr s'"
  shows "shut_quiet x s'"
proof -
  obtain c where c: "conn_chan s = Some c" using assms(2) unfolding conn_ok_def by blast
  obtain r where "handleClose env tid s = Inr r" "state r = kDisconnected" "trace r = trace s @ [CloseCallback]"
    "outputBuffer r = outputBuffer s" "\<exists>s0. pendingFunctors r = pendingFunctors s @
       replicate (length (filter (\<lambda>c. c = CallQueueDestory) (on_close env s0))) DestoryConnection"
    by (rule handleClose_spec [OF assms(2) c]) blast
  with assms(1,3) show ?thesis by (auto simp: shut_quiet_def sent_def no_send_def)
qed

lemma shut_quiet_read:
  assumes "shut_quiet x s" and ok: "conn_ok env reg tid s" and rd: "readv_ok (sock_readv env (syscalls s))" and rm: "room B s"
    and "conn_handleRead env tid t s = Inr s'"
  shows "shut_quiet x s'"
proof -
  from assms(5) obtain rb b where b: "readFd (sock_readv env (syscalls s)) (inputBuffer s) = Inr (rb, b)"
    by (auto simp: conn_handleRead_def conn_ok_thread [OF ok] rbind_eq_Inr)
  let ?s1 = "s\<lparr>inputBuffer := b, syscalls := Suc (syscalls s)\<rparr>"
  have q1: "shut_quiet x ?s1" using assms(1) by (simp add: shut_quiet_input)
  show ?thesis
  proof (cases rb)
    case (Inl e)
    with assms(5) b q1 show ?thesis by (simp add: conn_handleRead_def conn_ok_thread [OF ok] handleError_def)
  next
    case (Inr n)
    show ?thesis
    proof (cases "0 < n")
      case True
      with assms(5) b Inr have "messageCallback env tid t ?s1 = Inr s'"
        by (simp add: conn_handleRead_def conn_ok_thread [OF ok])
      then obtain b' calls where "rfold (run_call env tid) calls ((emit (MessageCallback (content b)) ?s1)\<lparr>inputBuffer := b'\<rparr>) = Inr s'"
        by (auto simp: messageCallback_def Let_def rbind_eq_Inr)
      from shut_quiet_calls [OF _ this] q1 show ?thesis by (simp add: shut_quiet_input)
    next
      case False
      have inv: "buffer_inv (inputBuffer s)" using ok by (simp add: conn_ok_def)
      have "buffer_inv b"
      proof (cases "sock_readv env (syscalls s) (unat (writableBytes (inputBuffer s))) extraBuf_size")
        case (Inl e)
        with b inv show ?thesis by (auto simp: readFd_def Let_def)
      next
        case (Inr a)
        with b readFd_spec [OF inv rd, of "fst a" "snd a"] rm show ?thesis unfolding room_def by (cases a) auto
      qed
      then have "conn_ok env reg tid ?s1" using conn_ok_input [OF ok] by simp
      with assms(5) b Inr False shut_quiet_close [OF q1] show ?thesis
        by (simp add: conn_handleRead_def conn_ok_thread [OF ok])
    qed
  qed
qed

lemma shut_quiet_run:
  assumes q: "shut_quiet x s" and ok: "conn_ok env reg tid s" and env: "env_ok B env" and rm: "room B s"
    and i: "input_ok B i s" and run: "conn_run env tid i s = Inr s'"
  shows "shut_quiet x s'"
proof (cases i)
  case (UserCall call)
  with run shut_quiet_calls [OF q, of env tid "[call]"] show ?thesis by simp
next
  case (OtherThread t call)
  with run shut_quiet_calls [OF q, of env t "[call]"] show ?thesis by simp
next
  case (Ready t cb)
  have rd: "readv_ok (sock_readv env (syscalls s))" using env by (simp add: env_ok_def)
  have "writing s = Inr False" using q conn_ok_writing [OF ok] unfolding shut_quiet_def by metis
  with Ready run q shut_quiet_read [OF q ok rd rm] shut_quiet_close [OF q ok] show ?thesis
    by (cases cb) (auto simp: handleWrite_def handleError_def conn_ok_thread [OF ok])
next
  case Functor
  show ?thesis
  proof (cases "pendingFunctors s")
    case Nil
    with Functor run q show ?thesis by simp
  next
    case (Cons f fs)
    let ?s = "s\<lparr>pendingFunctors := fs\<rparr>"
    have q1: "shut_quiet x ?s" and ok1: "conn_ok env reg tid ?s" and nd: "f \<noteq> DestoryConnection" "\<forall>d. f \<noteq> SendInLoop d"
      using q Cons ok i Functor by (auto simp: shut_quiet_def sent_def no_send_def conn_ok_def)
    have run1: "run_conn_functor env tid f ?s = Inr s'" using run Functor Cons by simp
    have "writing ?s = Inr False" using q1 conn_ok_writing [OF ok1] unfolding shut_quiet_def by metis
    then have "shut_quiet x s'" if "f = ShutdownInLoop"
      using that run1 q1 by (auto simp: shutdownInLoop_def conn_ok_thread [OF ok1] setState_def shut_quiet_def sent_def no_send_def emit_def)
    moreover have "shut_quiet x s'" if "f = ForceCloseInLoop"
      using that run1 q1 by (auto simp: forceCloseInLoop_def conn_ok_thread [OF ok1] shut_quiet_def)
    ultimately show ?thesis using run1 shut_quiet_calls [OF q1] nd by (cases f) auto
  qed
qed

lemma shut_quiet_reachable:
  assumes "(conn_step env tid B)\<^sup>*\<^sup>* s s'" and "shut_quiet x s" and "conn_ok env reg tid s" and env: "env_ok B env"
  shows "shut_quiet x s'"
  using assms(1)
proof (induction rule: rtranclp_induct)
  case base
  show ?case by (rule assms(2))
next
  case (step y z)
  from step.hyps(2) obtain i where "room B y" "input_ok B i y" "conn_run env tid i y = Inr z" by (rule conn_stepE) blast
  with shut_quiet_run [OF step.IH _ env] conn_reachable [OF step.hyps(1) assms(3) env] show ?case by blast
qed


section \<open>A connection just built\<close>

lemma conn_fresh_ctor:
  assumes ok: "loop_ok (ctl env) reg tid l" and a: "map_of (channels l) ch = None" and f: "map_of (channelMap l) f = None"
  shows "conn_fresh env reg tid (conn_channel (this_loop l) f) (TcpConnection_ctor l self ch nm f wc hw)"
proof -
  have "map_of (channelMap l) g \<noteq> Some ch" for g using ok a unfolding loop_ok_def poller_inv_def by fastforce
  with assms show ?thesis
    by (auto simp: conn_fresh_def TcpConnection_ctor_def loop_ok_def poller_inv_def event_loop.extend_def
      set_chan_def map_of_map_set conn_channel_def Channel_ctor_def kNoneEvent_def split: if_splits)
qed

lemma ctor_simps:
  "trace (TcpConnection_ctor l self ch nm f wc hw) = []" "outputBuffer (TcpConnection_ctor l self ch nm f wc hw) = new_buffer"
  "inputBuffer (TcpConnection_ctor l self ch nm f wc hw) = new_buffer" "kern (TcpConnection_ctor l self ch nm f wc hw) = kern l"
  "channel_ptr (TcpConnection_ctor l self ch nm f wc hw) = ch"
  by (simp_all add: TcpConnection_ctor_def event_loop.extend_def set_chan_def)

text \<open>A socket that takes two bytes at a time and delivers a message of four, and an echoing user.\<close>

definition echo_env :: "(int \<Rightarrow> (event_mask \<times> nat) option, unit) conn_env" where
  "echo_env = \<lparr>ctl = table_ctl, sock_write = \<lambda>i d. Inr (min 2 (length d)),
     sock_readv = \<lambda>i n0 n1. Inr (take n0 ''ping'', if n0 < 4 then take n1 (drop n0 ''ping'') else []),
     on_connection = \<lambda>s. [], on_message = \<lambda>t s. Inr (retrieveAll (inputBuffer s), [CallSend ''pong'']),
     on_close = \<lambda>s. [CallQueueDestory], on_write_complete = \<lambda>s. [], on_high_water_mark = \<lambda>n s. []\<rparr>"

lemma echo_env_ok: "env_ok 4 echo_env"
  by (auto simp: env_ok_def echo_env_def write_ok_def readv_ok_def calls_size_def)

definition sample_conn :: "(int \<Rightarrow> (event_mask \<times> nat) option, unit) tcp_connection" where
  "sample_conn = TcpConnection_ctor (new_event_loop 1 7 (3, 30) (4, 40) Map.empty) 100 5 ''echo#1'' 50 True False"

lemma sample_conn_fresh: "conn_fresh echo_env id 1 (conn_channel 7 50) sample_conn"
proof -
  let ?l = "new_event_loop 1 7 (3, 30) (4, 40) Map.empty :: (int \<Rightarrow> (event_mask \<times> nat) option, conn_functor) event_loop"
  have "loop_ok (ctl echo_env) id 1 ?l" by (simp add: sample_loop_ok echo_env_def)
  then have "conn_fresh echo_env id 1 (conn_channel (this_loop ?l) 50) sample_conn"
    unfolding sample_conn_def by (intro conn_fresh_ctor) (simp_all add: new_event_loop_def)
  then show ?thesis by (simp add: new_event_loop_def)
qed

lemma sample_conn_room: "room 4 sample_conn" "trace sample_conn = []" "outputBuffer sample_conn = new_buffer"
  by (simp_all add: room_def sample_conn_def ctor_simps new_buffer_def write_pos_def vector_max_size_def extraBuf_size_def
    kInitialSize_def kCheapPrepend_def)

text \<open>The connection after its establishment.\<close>

lemma sample_established:
  obtains s where "establishConnection echo_env 1 sample_conn = Inr s" "conn_ok echo_env id 1 s" "state s = kConnected"
    "trace s = [ConnectionCallback True]" "outputBuffer s = new_buffer" "kern s 50 = Some (kReadEvent, 5)"
    "\<exists>c. conn_chan s = Some c \<and> event c = kReadEvent \<and> fd c = 50"
proof -
  have p: "channel_ptr sample_conn = 5" by (simp add: sample_conn_def ctor_simps)
  have e: "on_connection echo_env s = []" for s by (simp add: echo_env_def)
  show ?thesis
    by (rule establish_spec [OF sample_conn_fresh])
      (use that in \<open>auto simp: p e sample_conn_room conn_channel_def\<close>)
qed


section \<open>Properties\<close>



text \<open>
  C2.  No truncation.  Let anything happen to a connection in order (calls of its loop thread and of other
  threads, events, functors) and let it be shut down for writing for the first time in one of these
  steps, before which it was not yet disconnected: by the moment of the half-close every byte the
  connection had accepted has been handed to the socket, in order, the connection counts as
  disconnected and that step hands nothing more to the socket.  Nothing is handed to it or accepted
  later either, whatever happens, provided no message of another thread was still queued at the
  half-close (such a message is written after it, since \<^verbatim>\<open>sendInLoop\<close> does not test the state).\<close>
theorem shutdown_after_output:
  assumes "conn_ok env reg tid s" and "env_ok B env" and "(conn_step env tid B)\<^sup>*\<^sup>* s s1"
    and "ShutdownWrite \<notin> set (trace s1)" and "state s1 \<noteq> kDisconnected" and "conn_step env tid B s1 s2"
    and "trace s2 = before @ ShutdownWrite # after" and "ShutdownWrite \<notin> set before" and "(conn_step env tid B)\<^sup>*\<^sup>* s2 s'"
  shows "concat (map wrote_of before) = stream s2 \<and> (\<exists>d. stream s2 = stream s @ d) \<and> state s2 = kDisconnected \<and>
    (\<forall>e \<in> set after. wrote_of e = []) \<and>
    (no_send s2 \<longrightarrow> sent s' = stream s2 \<and> stream s' = stream s2 \<and> state s' = kDisconnected)"
proof -
  have s1: "conn_ok env reg tid s1" "\<exists>d. stream s1 = stream s @ d" using conn_reachable [OF assms(3,1,2)] by blast+
  have s2: "conn_ok env reg tid s2" "\<exists>d. stream s2 = stream s1 @ d" "half_ok s2"
    using conn_step_spec [OF assms(6) s1(1) assms(2)] assms(5) half_ok_not [OF assms(4)] by blast+
  have "dropWhile (\<lambda>e. e \<noteq> ShutdownWrite) (trace s2) = ShutdownWrite # after"
    using assms(7,8) by (subst assms(7), subst dropWhile_append2) auto
  then have h: "state s2 = kDisconnected" "content (outputBuffer s2) = []" "concat (map wrote_of (ShutdownWrite # after)) = []"
    using s2(3) assms(7) by (simp_all add: half_ok_def)
  have "shut_quiet (sent s2) s'" if "no_send s2"
    by (rule shut_quiet_reachable [OF assms(9) _ s2(1) assms(2)]) (use h that in \<open>simp add: shut_quiet_def\<close>)
  moreover have "\<exists>d. stream s2 = stream s @ d" using s1(2) s2(2) by (metis append_assoc)
  ultimately show ?thesis using h assms(7) by (auto simp: stream_def sent_def shut_quiet_def)
qed


lemma shutdown_idle:
  assumes ok: "conn_ok env reg tid s" and st: "state s = kConnected" and e: "content (outputBuffer s) = []"
  shows "shutdown tid s = Inr (s\<lparr>state := kDisconnected, trace := trace s @ [ShutdownWrite]\<rparr>)"
proof -
  have "conn_ok env reg tid (setState kDisconnecting s)" using ok st by (simp add: setState_def conn_ok_active)
  with shutdownInLoop_spec(1) [OF this] e st show ?thesis
    using conn_ok_thread [OF ok] by (simp add: shutdown_def isInLoopThread_def setState_def emit_def)
qed

theorem shutdown_after_output_witness:
  "\<exists>s s'. conn_step echo_env 1 4 s s' \<and> trace s' = [ConnectionCallback True, ShutdownWrite] \<and> sent s' = stream s'"
proof -
  obtain s where s: "conn_ok echo_env id 1 s" "state s = kConnected" "trace s = [ConnectionCallback True]" "outputBuffer s = new_buffer"
    "establishConnection echo_env 1 sample_conn = Inr s"
    by (rule sample_established) blast
  let ?s0 = "s\<lparr>inputBuffer := new_buffer, pendingFunctors := []\<rparr>"
  let ?s1 = "?s0\<lparr>state := kDisconnected, trace := trace s @ [ShutdownWrite]\<rparr>"
  have ok0: "conn_ok echo_env id 1 ?s0" using s(1) by (auto simp: conn_ok_def)
  have "shutdown 1 ?s0 = Inr ?s1" using shutdown_idle [OF ok0] s(2-4) by simp
  moreover have "room 4 ?s0" using s(4) sample_conn_room(1) by (simp add: room_def ctor_simps sample_conn_def)
  ultimately have st: "conn_step echo_env 1 4 ?s0 ?s1" by (intro conn_stepI [where i = "UserCall CallShutdown"]) simp_all
  have "no_send ?s1 \<longrightarrow> sent ?s1 = stream ?s1"
    using shutdown_after_output [OF ok0 echo_env_ok rtranclp.rtrancl_refl _ _ st, of "[ConnectionCallback True]" "[]" ?s1] s(2,3) by simp
  then have "sent ?s1 = stream ?s1" by (simp add: no_send_def)
  with st s(3) show ?thesis by (intro exI [of _ ?s0] exI [of _ ?s1]) simp
qed

text \<open>
  A message that outlives the half-close.  Another thread sends while the connection is connected and
  the loop thread shuts the connection down before it runs the queued \<^verbatim>\<open>sendInLoop\<close>: the message is
  handed to the socket after the half-close.\<close>
theorem late_send_after_shutdown:
  assumes "conn_ok env reg tid s" and "write_ok env" and "state s = kConnected" and "content (outputBuffer s) = []"
    and "pendingFunctors s = []" and "t \<noteq> tid" and "write_pos (outputBuffer s) + length msg \<le> vector_max_size"
  shows "\<exists>s1 s2 s3. conn_run env tid (OtherThread t (CallSend msg)) s = Inr s1 \<and>
    conn_run env tid (UserCall CallShutdown) s1 = Inr s2 \<and> trace s2 = trace s @ [ShutdownWrite] \<and>
    conn_run env tid Functor s2 = Inr s3 \<and> stream s3 = stream s @ accepted env s msg"
proof -
  let ?s1 = "queueInLoop t (SendInLoop msg) s"
  let ?s2 = "?s1\<lparr>state := kDisconnected, trace := trace s @ [ShutdownWrite]\<rparr>"
  have tid: "threadId s = tid" by (rule conn_ok_thread [OF assms(1)])
  have ok1: "conn_ok env reg tid ?s1" using assms(1) by simp
  have two: "shutdown tid ?s1 = Inr ?s2" using shutdown_idle [OF ok1] assms(3,4) by simp
  let ?s = "?s2\<lparr>pendingFunctors := []\<rparr>"
  have "conn_ok env reg tid ?s" using ok1 unfolding conn_ok_def by auto
  then obtain s3 where "sendInLoop env tid msg ?s = Inr s3" "stream s3 = sent ?s @ accepted env ?s msg"
    using sendInLoop_idle [of env reg tid ?s msg] assms(2,4,7) by auto
  moreover have "sent ?s = stream s" "accepted env ?s msg = accepted env s msg" using assms(4) by (simp_all add: sent_def stream_def accepted_def)
  moreover have "send env t msg s = Inr ?s1" using assms(3,6) tid by (simp add: send_def isInLoopThread_def)
  ultimately show ?thesis
    using two assms(5) by (intro exI [of _ ?s1] exI [of _ ?s2] exI [of _ s3]) simp
qed

text \<open>
  C7.  Sending.  On a connection in order, \<^verbatim>\<open>send\<close> in the loop thread succeeds and keeps it in order.  If it is
  connected and has no unsent output, the whole message is appended to the stream of bytes (written
  at once or kept for later), unless \<^verbatim>\<open>write\<close> reports that the peer is gone; if there still is unsent
  output, or it is not connected, the message is dropped without a trace.\<close>
theorem send_appends_or_drops:
  assumes "conn_ok env reg tid s" and "write_ok env" and "write_pos (outputBuffer s) + length msg \<le> vector_max_size"
  shows "\<exists>s'. send env tid msg s = Inr s' \<and> conn_ok env reg tid s' \<and> state s' = state s \<and>
    stream s' = stream s @ (if state s = kConnected \<and> content (outputBuffer s) = [] then accepted env s msg else []) \<and>
    (state s \<noteq> kConnected \<or> content (outputBuffer s) \<noteq> [] \<longrightarrow> s' = s)"
proof -
  obtain s' where "send env tid msg s = Inr s'" "conn_ok env reg tid s'" "state s' = state s"
    "stream s' = stream s @ (if state s = kConnected \<and> content (outputBuffer s) = [] then accepted env s msg else [])"
    using send_spec [OF assms] by metis
  moreover have "s' = s" if "state s \<noteq> kConnected \<or> content (outputBuffer s) \<noteq> []"
    using that calculation(1) sendInLoop_pending [OF assms(1), of msg] conn_ok_thread [OF assms(1)]
    by (auto simp: send_def isInLoopThread_def split: if_splits)
  ultimately show ?thesis by blast
qed

theorem send_appends_or_drops_witness:
  "\<exists>s s'. establishConnection echo_env 1 sample_conn = Inr s \<and> send echo_env 1 ''pong'' s = Inr s' \<and> stream s' = ''pong''"
proof -
  obtain s where s: "establishConnection echo_env 1 sample_conn = Inr s" "conn_ok echo_env id 1 s" "state s = kConnected"
    "trace s = [ConnectionCallback True]" "outputBuffer s = new_buffer"
    by (rule sample_established) blast
  have "write_ok echo_env" using echo_env_ok by (simp add: env_ok_def)
  then have "\<exists>s'. send echo_env 1 ''pong'' s = Inr s' \<and> stream s' = stream s @ accepted echo_env s ''pong''"
    using send_appends_or_drops [OF s(2), of "''pong''"] s(3,5) by (auto simp: vector_max_size_def)
  moreover have "accepted echo_env s ''pong'' = ''pong''" "stream s = []"
    using s(4,5) by (simp_all add: accepted_def echo_env_def stream_def sent_def)
  ultimately show ?thesis using s(1) by auto
qed

text \<open>
  C8.  Writing out.  When the socket is writable, \<^verbatim>\<open>handleWrite\<close> moves bytes from the front of the output
  buffer to the socket: exactly the \<open>n\<close> bytes that \<^verbatim>\<open>write\<close> takes if the socket is watched for writing,
  and none if it is not or if \<^verbatim>\<open>write\<close> fails; the rest stays in the buffer, in order.  A connection
  that is being shut down is disconnected by it exactly when the last byte has gone out.\<close>
theorem handleWrite_conserves:
  assumes "conn_ok env reg tid s" and "write_ok env" and "conn_chan s = Some c"
    and "n = (if isWriting c then (case sock_write env (syscalls s) (content (outputBuffer s)) of Inl e \<Rightarrow> 0 | Inr k \<Rightarrow> k) else 0)"
  shows "\<exists>s'. handleWrite env tid s = Inr s' \<and> conn_ok env reg tid s' \<and>
    sent s' = sent s @ take n (content (outputBuffer s)) \<and> content (outputBuffer s') = drop n (content (outputBuffer s)) \<and>
    state s' = (if state s = kDisconnecting \<and> content (outputBuffer s) \<noteq> [] \<and> content (outputBuffer s') = []
                then kDisconnected else state s)"
proof -
  have "n = leaving env c s" using assms(4) by (simp add: leaving_def)
  then show ?thesis using handleWrite_spec [OF assms(1-3)] by metis
qed

text \<open>The socket takes two bytes of a message of four at once and the other two when it is writable again.\<close>

theorem handleWrite_conserves_witness:
  "\<exists>s s1 s2. establishConnection echo_env 1 sample_conn = Inr s \<and> send echo_env 1 ''pong'' s = Inr s1 \<and> sent s1 = ''po'' \<and>
     handleWrite echo_env 1 s1 = Inr s2 \<and> sent s2 = ''pong'' \<and> content (outputBuffer s2) = []"
proof -
  obtain s where s: "establishConnection echo_env 1 sample_conn = Inr s" "conn_ok echo_env id 1 s" "state s = kConnected"
    "trace s = [ConnectionCallback True]" "outputBuffer s = new_buffer"
    by (rule sample_established) blast
  have wr: "write_ok echo_env" using echo_env_ok by (simp add: env_ok_def)
  have sw: "sock_write echo_env i d = Inr (min 2 (length d))" for i d by (simp add: echo_env_def)
  have e: "content (outputBuffer s) = []" "write_pos (outputBuffer s) + length ''pong'' \<le> vector_max_size"
    using s(5) by (simp_all add: vector_max_size_def)
  have "sent s = []" using s(4) by (simp add: sent_def)
  then obtain s1 where s1: "sendInLoop echo_env 1 ''pong'' s = Inr s1" "conn_ok echo_env id 1 s1" "state s1 = kConnected"
    "stream s1 = ''pong''" "sent s1 = ''po''"
    using sendInLoop_idle [OF s(2) wr e] s(3) by (auto simp: accepted_def sw)
  have c1: "content (outputBuffer s1) = ''ng''" using s1(4,5) by (simp add: stream_def)
  have send: "send echo_env 1 ''pong'' s = Inr s1" using s1(1) s(3) conn_ok_thread [OF s(2)] by (simp add: send_def isInLoopThread_def)
  obtain c where c: "conn_chan s1 = Some c" "isWriting c" using conn_ok_writing [OF s1(2)] s1(3) c1 by auto
  have "\<exists>s2. handleWrite echo_env 1 s1 = Inr s2 \<and> sent s2 = ''pong'' \<and> content (outputBuffer s2) = []"
    using handleWrite_conserves [OF s1(2) wr c(1) refl] c(2) c1 s1(5) by (auto simp: sw)
  with s(1) send s1(5) show ?thesis by blast
qed


text \<open>
  C28.  Close by the peer.  When the socket reports the end of the stream, \<^verbatim>\<open>handleRead\<close> disconnects the
  connection and calls the close callback; the removal that follows succeeds, the kernel no longer
  watches the socket and the channel can be destroyed.  The close callback is the only callback made
  on this path: the connection callback does not report the disconnection.\<close>
theorem peer_close_lifecycle:
  assumes "conn_ok env reg tid s" and "conn_chan s = Some c" and "env_ok B env" and "room B s"
    and "sock_readv env (syscalls s) (unat (writableBytes (inputBuffer s))) extraBuf_size = Inr ([], [])"
  shows "\<exists>s1 s2. conn_handleRead env tid t s = Inr s1 \<and> state s1 = kDisconnected \<and> stream s1 = stream s \<and>
    destoryConnection env tid s1 = Inr s2 \<and> trace s2 = trace s @ [CloseCallback] \<and>
    reg (kern s2) (fd c) = None \<and> conn_chan s2 = Some (c\<lparr>event := kNoneEvent, status := kNew\<rparr>)"
proof -
  note ok' = assms(1) [unfolded conn_ok_def]
  have tid: "threadId s = tid" by (rule conn_ok_thread [OF assms(1)])
  have "readv_ok (sock_readv env (syscalls s))" using assms(3) by (simp add: env_ok_def)
  then obtain b where b: "readFd (sock_readv env (syscalls s)) (inputBuffer s) = Inr (Inr 0, b)" "buffer_inv b"
    using readFd_spec [of "inputBuffer s" _ "[]" "[]"] ok' assms(4,5) unfolding room_def by auto
  let ?s0 = "s\<lparr>inputBuffer := b, syscalls := Suc (syscalls s)\<rparr>"
  have ok0: "conn_ok env reg tid ?s0" using conn_ok_input [OF assms(1) b(2)] by simp
  have c0: "conn_chan ?s0 = Some c" using assms(2) by simp
  obtain s1 where s1: "handleClose env tid ?s0 = Inr s1" "conn_ok env reg tid s1" "state s1 = kDisconnected"
    "trace s1 = trace ?s0 @ [CloseCallback]" "stream s1 = stream ?s0" "conn_chan s1 = Some (closed_channel c)"
    by (rule handleClose_spec [OF ok0 c0]) blast
  have cc: "event (closed_channel c) = kNoneEvent" "status (closed_channel c) \<noteq> kNew" "fd (closed_channel c) = fd c"
    by (simp_all add: closed_channel_def)
  have "loop_ok (ctl env) reg tid s1" using s1(2) by (simp add: conn_ok_def)
  then obtain s2 where s2: "destoryConnection env tid s1 = Inr s2" "conn_chan s2 = Some ((closed_channel c)\<lparr>status := kNew\<rparr>)"
    "reg (kern s2) = (reg (kern s1))(fd c := None)" "trace s2 = trace s1"
    using destory_closed_spec [OF _ s1(6) cc(1,2)] s1(3) cc(3) by (metis conn_state.distinct(3))
  have "conn_handleRead env tid t s = Inr s1" using b(1) s1(1) by (simp add: conn_handleRead_def tid)
  with s1 s2 show ?thesis
    by (intro exI [of _ s1] exI [of _ s2]) (simp add: stream_def sent_def closed_channel_def)
qed

text \<open>A socket at the end of its stream.\<close>

definition eof_env :: "(int \<Rightarrow> (event_mask \<times> nat) option, unit) conn_env" where
  "eof_env = echo_env\<lparr>sock_readv := \<lambda>i n0 n1. Inr ([], [])\<rparr>"

theorem peer_close_lifecycle_witness:
  "\<exists>s s1 s2. establishConnection echo_env 1 sample_conn = Inr s \<and> conn_handleRead eof_env 1 (Timestamp 9) (s\<lparr>inputBuffer := new_buffer\<rparr>) = Inr s1 \<and>
     destoryConnection eof_env 1 s1 = Inr s2 \<and> trace s2 = [ConnectionCallback True, CloseCallback] \<and> kern s2 50 = None"
proof -
  obtain s c where s: "establishConnection echo_env 1 sample_conn = Inr s" "conn_ok echo_env id 1 s" "state s = kConnected"
    "trace s = [ConnectionCallback True]" "conn_chan s = Some c" "fd c = 50" "outputBuffer s = new_buffer"
    by (rule sample_established) blast
  let ?s = "s\<lparr>inputBuffer := new_buffer\<rparr>"
  have "conn_ok eof_env id 1 ?s" using conn_ok_input [OF s(2) buffer_inv_new] by (simp add: conn_ok_def eof_env_def)
  moreover have "env_ok 4 eof_env"
    using echo_env_ok by (simp add: env_ok_def eof_env_def readv_ok_def write_ok_def)
  moreover have "room 4 ?s" using s(7) sample_conn_room(1) by (simp add: room_def ctor_simps sample_conn_def)
  moreover have "sock_readv eof_env (syscalls ?s) n m = Inr ([], [])" for n m by (simp add: eof_env_def)
  ultimately obtain s1 s2 where "conn_handleRead eof_env 1 (Timestamp 9) ?s = Inr s1"
     "destoryConnection eof_env 1 s1 = Inr s2" "trace s2 = trace ?s @ [CloseCallback]" "id (kern s2) (fd c) = None"
    using peer_close_lifecycle [of eof_env id 1 ?s c 4 "Timestamp 9"] s(5) by auto
  with s(1,4,6) show ?thesis by auto
qed

theorem destory_connected_witness:
  "\<exists>s s'. establishConnection echo_env 1 sample_conn = Inr s \<and> destoryConnection echo_env 1 s = Inr s' \<and>
     trace s' = [ConnectionCallback True, ConnectionCallback False] \<and> kern s' 50 = None"
proof -
  obtain s c where s: "establishConnection echo_env 1 sample_conn = Inr s" "conn_ok echo_env id 1 s" "state s = kConnected"
    "trace s = [ConnectionCallback True]" "conn_chan s = Some c" "fd c = 50"
    by (rule sample_established) blast
  show ?thesis using destory_connected [OF s(2,5,3)] s by auto
qed

text \<open>
  A connection that was shut down cannot be removed.  After \<^verbatim>\<open>shutdown\<close> on a connected connection with no
  unsent output, the socket is still watched for reading, while the connection counts as
  disconnected; \<^verbatim>\<open>destoryConnection\<close> then fails the assertion \<^verbatim>\<open>isNoneEvent\<close> in the poller, and
  \<^verbatim>\<open>forceClose\<close> does nothing.\<close>
theorem shutdown_then_destory_fails:
  assumes "conn_ok env reg tid s" and "state s = kConnected" and "content (outputBuffer s) = []"
    and "conn_chan s = Some c" and "event c = kReadEvent"
  shows "\<exists>s'. shutdown tid s = Inr s' \<and> kern s' = kern s \<and> forceClose tid s' = s' \<and>
    destoryConnection env tid s' = Inl (AssertFailed ''channel->isNoneEvent()'')"
proof -
  let ?s' = "s\<lparr>state := kDisconnected, trace := trace s @ [ShutdownWrite]\<rparr>"
  have own: "ownerLoop c = this_loop s" using assms(1,4) by (simp add: conn_ok_def loop_ok_def)
  have "\<not> isNoneEvent c" using assms(5) by (simp add: isNoneEvent_def kReadEvent_def kNoneEvent_def epoll_defs)
  then have "destoryConnection env tid ?s' = Inl (AssertFailed ''channel->isNoneEvent()'')"
    using conn_ok_thread [OF assms(1)] assms(4) own
    by (simp add: destoryConnection_def removeChannel_def poller_removeChannel_def chan_at_def)
  with shutdown_idle [OF assms(1-3)] show ?thesis by (intro exI [of _ ?s']) (simp add: forceClose_def)
qed

theorem shutdown_then_destory_fails_witness:
  "\<exists>s s'. establishConnection echo_env 1 sample_conn = Inr s \<and> shutdown 1 s = Inr s' \<and>
     destoryConnection echo_env 1 s' = Inl (AssertFailed ''channel->isNoneEvent()'')"
proof -
  obtain s c where s: "establishConnection echo_env 1 sample_conn = Inr s" "conn_ok echo_env id 1 s" "state s = kConnected"
    "outputBuffer s = new_buffer" "conn_chan s = Some c" "event c = kReadEvent"
    by (rule sample_established) blast
  then have "content (outputBuffer s) = []" by simp
  then show ?thesis using shutdown_then_destory_fails [OF s(2,3) _ s(5,6)] s(1) by blast
qed

end
