(* ===== verification/HttpServer.thy ===== *)
theory HttpServer
  imports HttpResponse TcpConnection
begin

text \<open>
  Model of \<^verbatim>\<open>ham/net/http/HttpServer.{h,cc}\<close>: the callbacks it registers with its \<^verbatim>\<open>TcpServer\<close>, as programs
  on a connection whose context is an \<^verbatim>\<open>HttpContext\<close>.  The user's \<^verbatim>\<open>httpCallback_\<close> is a parameter that fills
  in the response.  \<^verbatim>\<open>onMessage\<close> parses with a copy of the context that it never stores back, so
  that \<^verbatim>\<open>context.reset()\<close> at its end has no effect; the model leaves both to the local variable.
\<close>

type_synonym http_callback = "http_request \<Rightarrow> http_response \<Rightarrow> http_response"

definition onConnection :: "('k, http_context) tcp_connection \<Rightarrow> http_context conn_call list" where
  "onConnection s = (if isConnected s then [CallSetContext HttpContext_ctor] else [])"

definition isShortConn :: "http_request \<Rightarrow> bool" where
  "isShortConn r =
     (let connType = getHeader r ''Connection'' in
      connType = ''close'' \<or> (version r = kHttp10 \<and> connType \<noteq> ''Keep-Alive''))"

definition onRequest :: "http_callback \<Rightarrow> http_request \<Rightarrow> http_context conn_call list result" where
  "onRequest httpCallback r =
     (let response = httpCallback r (HttpResponse_ctor (isShortConn r)) in
      rbind Buffer_ctor (\<lambda>b.
      rbind (appendToBuffer response b) (\<lambda>b.
      rbind (std_read (buf b) (peek b) (unat (readableBytes b))) (\<lambda>data.
        Inr (CallSend data # (if closeConnection response then [CallShutdown] else []))))))"

definition bad_request :: string where
  "bad_request = ''HTTP/1.1 400 Bad Request'' @ kCRLF @ kCRLF"

definition onMessage ::
  "http_callback \<Rightarrow> timestamp \<Rightarrow> ('k, http_context) tcp_connection \<Rightarrow>
   (buffer \<times> http_context conn_call list) result option" where
  "onMessage httpCallback t s =
     (case conn_context s of
        None \<Rightarrow> Some (Inl (Thrown ''boost::bad_any_cast''))
      | Some ctx \<Rightarrow>
          (case parseRequest t ctx (inputBuffer s) of
             None \<Rightarrow> None
           | Some (Inl e) \<Rightarrow> Some (Inl e)
           | Some (Inr (ok, ctx1, b)) \<Rightarrow>
               (let calls = (if \<not> ok then [CallSend bad_request, CallShutdown] else []) in
                if gotAll ctx1
                then Some (rbind (onRequest httpCallback (request ctx1)) (\<lambda>more_calls. Inr (b, calls @ more_calls)))
                else Some (Inr (b, calls)))))"

text \<open>
  The constructor registers both callbacks.  A message callback that does not return is shown as
  the abort of the connection; with the contexts that \<^verbatim>\<open>onConnection\<close> stores this does not happen.
\<close>

definition HttpServer_ctor ::
  "http_callback \<Rightarrow> ('k, http_context) conn_env \<Rightarrow> ('k, http_context) conn_env" where
  "HttpServer_ctor httpCallback env =
     env\<lparr>on_connection := onConnection,
         on_message := \<lambda>t s. case onMessage httpCallback t s of
           Some r \<Rightarrow> r | None \<Rightarrow> Inl (CriticalAbort ''does not return'')\<rparr>"

section \<open>Calls and the context\<close>

lemma queue_context [simp]:
  "conn_context (queueInLoop t f s) = conn_context s" "conn_context (emit e s) = conn_context s"
  "conn_context (setState st s) = conn_context s"
  by (simp_all add: queueInLoop_def push_functor_def wakeup_def Let_def emit_def setState_def)

lemma keep_rest_context: "keep_rest env tid d n s = Inr s' \<Longrightarrow> conn_context s' = conn_context s"
  by (auto simp: keep_rest_def Let_def rbind_eq_Inr enableWriting_def dest!: with_update_more conn_fields(11) split: if_splits)

lemma sendInLoop_context: "sendInLoop env tid d s = Inr s' \<Longrightarrow> conn_context s' = conn_context s"
  by (auto simp: sendInLoop_def assertInLoopThread_def abortNotInLoopThread_def rbind_eq_Inr assert_that_eq_Inr write_directly_def
      write_socket_def Let_def split_beta split: if_splits sum.splits dest!: keep_rest_context)

lemma run_call_context:
  "run_call env tid call s = Inr s' \<Longrightarrow>
   conn_context s' = (case call of CallSetContext c \<Rightarrow> Some c | _ \<Rightarrow> conn_context s)"
  by (cases call) (auto simp: setContext_def conn_setTcpNoDelay_def send_def shutdown_def shutdownInLoop_def assertInLoopThread_def abortNotInLoopThread_def
      rbind_eq_Inr forceClose_def Let_def split: if_splits dest: sendInLoop_context)

section \<open>One exchange\<close>

lemma server_fields [simp]:
  "ctl (HttpServer_ctor cb env) = ctl env" "sock_write (HttpServer_ctor cb env) = sock_write env"
  "on_connection (HttpServer_ctor cb env) = onConnection"
  "write_ok (HttpServer_ctor cb env) = write_ok env"
  by (simp_all add: HttpServer_ctor_def write_ok_def)

lemma onRequest_spec:
  fixes cb :: http_callback
  defines "resp r \<equiv> cb r (HttpResponse_ctor (isShortConn r))"
  assumes "8 + length (response_text (resp r)) \<le> vector_max_size" and "length (resp_body (resp r)) < 10 ^ 13"
  shows "onRequest cb r = Inr (CallSend (response_text (resp r)) # (if closeConnection (resp r) then [CallShutdown] else []))"
proof -
  obtain b where b: "appendToBuffer (resp r) new_buffer = Inr b" "buffer_inv b" "content b = response_text (resp r)"
    using appendToBuffer_spec [OF buffer_inv_new, of "resp r"] assms(2,3) by auto
  have "std_read (buf b) (peek b) (unat (readableBytes b)) = Inr (response_text (resp r))"
    using read_content [OF b(2), of "length (content b)"] unat_readable [OF b(2)] b(3) by simp
  with b(1) show ?thesis by (simp add: onRequest_def Buffer_ctor_eq resp_def Let_def)
qed

text \<open>A complete request in the input buffer of a connection with a fresh context.\<close>

lemma onMessage_request:
  fixes cb :: http_callback
  defines "resp r \<equiv> cb r (HttpResponse_ctor (isShortConn r))"
  assumes inv: "buffer_inv (inputBuffer s)" and ctx: "conn_context s = Some HttpContext_ctor" and ok: "request_ok r"
    and req: "content (inputBuffer s) = render_request r" and r': "r' = r\<lparr>receiveTime := t\<rparr>"
    and fits: "8 + length (response_text (resp r')) \<le> vector_max_size" "length (resp_body (resp r')) < 10 ^ 13"
  obtains b where "onMessage cb t s = Some (Inr (b, CallSend (response_text (resp r')) #
      (if closeConnection (resp r') then [CallShutdown] else [])))" "buffer_inv b" "content b = []"
proof -
  obtain b where b: "parseRequest t HttpContext_ctor (inputBuffer s) = Some (Inr (True, \<lparr>request = r', parseState = kGotAll\<rparr>, b))"
    "buffer_inv b" "content b = []"
    using parse_rendered_request [OF ok inv req] r' by blast
  have "onRequest cb r' = Inr (CallSend (response_text (resp r')) # (if closeConnection (resp r') then [CallShutdown] else []))"
    using onRequest_spec [of cb r'] fits by (simp add: resp_def)
  with b ctx show ?thesis by (intro that [of b]) (simp_all add: onMessage_def gotAll_def)
qed

text \<open>The calls of the message callback, run on the connection.\<close>

lemma messageCallback_calls:
  assumes "on_message env t (emit (MessageCallback (content (inputBuffer s))) s) = Inr (b, calls)"
  shows "messageCallback env tid t s =
    rfold (run_call env tid) calls (emit (MessageCallback (content (inputBuffer s))) s\<lparr>inputBuffer := b\<rparr>)"
  using assms by (simp add: messageCallback_def Let_def)

lemma send_shutdown_spec:
  assumes ok: "conn_ok env reg tid s" and wr: "write_ok env" and st: "state s = kConnected" and idle: "content (outputBuffer s) = []"
    and fits: "write_pos (outputBuffer s) + length msg \<le> vector_max_size"
  obtains s' where "rfold (run_call env tid) (CallSend msg # (if close then [CallShutdown] else [])) s = Inr s'"
    "conn_ok env reg tid s'" "stream s' = stream s @ accepted env s msg"
    "state s' = (if \<not> close then kConnected else if content (outputBuffer s') = [] then kDisconnected else kDisconnecting)"
    "conn_context s' = conn_context s" 
proof -
  obtain s1 where s1: "send env tid msg s = Inr s1" "conn_ok env reg tid s1" "state s1 = kConnected"
    "stream s1 = stream s @ accepted env s msg"
    using send_spec [OF ok wr fits] st idle by metis
  have c1: "conn_context s1 = conn_context s" using run_call_context [of env tid "CallSend msg" s s1] s1(1) by simp
  show ?thesis
  proof (cases close)
    case False
    with s1 c1 show ?thesis by (intro that [of s1]) simp_all
  next
    case True
    let ?s2 = "setState kDisconnecting s1"
    let ?s3 = "if content (outputBuffer s1) = [] then emit ShutdownWrite (setState kDisconnected ?s2) else ?s2"
    have ok2: "conn_ok env reg tid ?s2" using s1(2,3) by (simp add: setState_def conn_ok_active)
    have "shutdown tid s1 = Inr ?s3"
      using shutdownInLoop_spec(1) [OF ok2] s1(3) conn_ok_thread [OF s1(2)]
      by (simp add: shutdown_def isInLoopThread_def setState_def)
    moreover have "conn_ok env reg tid ?s3"
      using shutdownInLoop_spec(2) [OF ok2] ok2 by (simp add: setState_def)
    moreover have "stream ?s3 = stream s1" by (simp add: setState_def stream_def sent_def emit_def)
    ultimately show ?thesis
      using True s1 c1 by (intro that [of ?s3]) (simp_all add: setState_def)
  qed
qed

text \<open>A line whose first word is not a method is refused.\<close>

lemma parseRequestLine_refuses:
  assumes "CHR '' '' \<notin> set m" and "m \<notin> {''GET'', ''POST'', ''HEAD'', ''PUT'', ''DELETE''}" and "line \<in> {m, m @ CHR '' '' # rest}"
  obtains r where "parseRequestLine HttpRequest_ctor line = Inr (False, r)"
proof (cases "line = m")
  case True
  with assms(1) show ?thesis by (intro that [of HttpRequest_ctor]) (simp add: parseRequestLine_def std_find_absent)
next
  case False
  with assms have l: "line = m @ CHR '' '' # rest" by blast
  have f: "std_find line (CHR '' '') = length m" using std_find_append [OF assms(1)] by (simp add: l)
  obtain r where "setMethod HttpRequest_ctor m = Inr (False, r)"
    using assms(2) by (simp add: setMethod_def HttpRequest_ctor_def)
  then have "setMethod HttpRequest_ctor (sub_range line 0 (length m)) = Inr (False, r)" by (simp add: l sub_range_def)
  then show ?thesis by (intro that [of r]) (simp add: parseRequestLine_def f, simp add: l)
qed

lemma onMessage_refused:
  assumes inv: "buffer_inv (inputBuffer s)" and ctx: "conn_context s = Some HttpContext_ctor"
    and c: "content (inputBuffer s) = line @ kCRLF @ rest" and cr: "CHR 0x0D \<notin> set line"
    and bad: "parseRequestLine HttpRequest_ctor line = Inr (False, r)"
  obtains b where "onMessage cb t s = Some (Inr (b, [CallSend bad_request, CallShutdown]))" "buffer_inv b"
proof -
  have k: "std_search (content (inputBuffer s)) kCRLF = length line"
    using std_search_line [OF cr] by (simp add: c kCRLF_def)
  have "parse_spec t HttpContext_ctor (content (inputBuffer s)) = Inr (False, HttpContext_ctor\<lparr>request := r\<rparr>, line @ kCRLF @ rest)"
    using bad by (simp add: parse_spec_def spec_request_line_def HttpContext_ctor_def k) (simp add: c kCRLF_def)
  then show ?thesis
    using parseRequest_spec [OF inv, of HttpContext_ctor t] that ctx
    by (auto simp: implements_def HttpContext_ctor_def onMessage_def gotAll_def)
qed

lemma onMessage_line:
  assumes inv: "buffer_inv (inputBuffer s)" and ctx: "conn_context s = Some HttpContext_ctor"
    and ok: "request_ok r" and c: "content (inputBuffer s) = render_line r @ kCRLF"
  obtains b where "onMessage cb t s = Some (Inr (b, []))" "buffer_inv b"
proof -
  have cr: "CHR 0x0D \<notin> set (render_line r)"
    using ok by (auto simp: render_line_def render_target_def request_ok_def methodToString_def split: http_method.split)
  have k: "std_search (content (inputBuffer s)) kCRLF = length (render_line r)"
    using std_search_line [OF cr, of "CHR 0x0A" "[]"] by (simp add: c kCRLF_def)
  obtain r0 where line: "parseRequestLine HttpRequest_ctor (render_line r) = Inr (True, r0)"
    using parse_rendered_line [OF ok, of HttpRequest_ctor] by (simp add: HttpRequest_ctor_def)
  have h: "parse_headers r1 [] = (r1, False, [])" for r1 by (simp add: parse_headers.simps kCRLF_def)
  have "parse_spec t HttpContext_ctor (content (inputBuffer s)) =
      Inr (True, \<lparr>request = setReceiveTime r0 t, parseState = kExpectHeaders\<rparr>, [])"
    using line by (simp add: parse_spec_def spec_request_line_def HttpContext_ctor_def k)
      (simp add: c kCRLF_def spec_headers_def h)
  then show ?thesis
    using parseRequest_spec [OF inv, of HttpContext_ctor t] that ctx
    by (auto simp: implements_def HttpContext_ctor_def onMessage_def gotAll_def)
qed
text \<open>A connection that serves HTTP: in order, connected, nothing unsent, with the context stored on connection.\<close>

definition serving ::
  "('k, http_context) conn_env \<Rightarrow> ('k \<Rightarrow> int \<Rightarrow> (event_mask \<times> nat) option) \<Rightarrow> int \<Rightarrow> ('k, http_context) tcp_connection \<Rightarrow> bool" where
  "serving env reg tid s \<longleftrightarrow> conn_ok env reg tid s \<and> write_ok env \<and> state s = kConnected \<and>
     content (outputBuffer s) = [] \<and> conn_context s = Some HttpContext_ctor"

lemma message_state:
  fixes d b
  assumes "serving env reg tid s" and "buffer_inv b"
  defines "s1 \<equiv> emit (MessageCallback d) s\<lparr>inputBuffer := b\<rparr>"
  shows "conn_ok env reg tid s1" "state s1 = kConnected" "content (outputBuffer s1) = []"
    "outputBuffer s1 = outputBuffer s" "stream s1 = stream s" "accepted env s1 msg = accepted env s msg"
    "conn_context s1 = Some HttpContext_ctor" "inputBuffer s1 = b"
proof -
  have "conn_ok env reg tid (emit (MessageCallback d) s)" using assms(1) by (simp add: serving_def)
  from conn_ok_input [OF this assms(2)] show "conn_ok env reg tid s1" by (simp add: s1_def)
qed (use assms(1) in \<open>simp_all add: s1_def serving_def stream_def sent_def accepted_def emit_def\<close>)

text \<open>The calls of one message on a serving connection: a reply, and the end of the connection if asked for.\<close>

lemma serve_calls:
  assumes s: "serving env reg tid s" and b: "buffer_inv b"
    and msg: "on_message env t (emit (MessageCallback (content (inputBuffer s))) s) =
      Inr (b, CallSend reply # (if close then [CallShutdown] else []))"
    and fits: "write_pos (outputBuffer s) + length reply \<le> vector_max_size"
  shows "\<exists>s'. messageCallback env tid t s = Inr s' \<and> conn_ok env reg tid s' \<and> stream s' = stream s @ accepted env s reply \<and>
    state s' = (if \<not> close then kConnected else if content (outputBuffer s') = [] then kDisconnected else kDisconnecting) \<and>
    conn_context s' = Some HttpContext_ctor"
proof -
  let ?s1 = "emit (MessageCallback (content (inputBuffer s))) s\<lparr>inputBuffer := b\<rparr>"
  note f = message_state [OF s b, where d = "content (inputBuffer s)"]
  have fits1: "write_pos (outputBuffer ?s1) + length reply \<le> vector_max_size" using fits by simp
  show ?thesis
    unfolding messageCallback_calls [OF msg]
    using send_shutdown_spec [OF f(1) _ f(2,3) fits1, of close] f(5-7) s unfolding serving_def by metis
qed

section \<open>Properties\<close>

text \<open>
  C9.  One exchange.  On a connected connection of the server with no unsent output, whose input buffer holds
  the text of a well-formed request, the message callback hands the parsed request to the user, and
  appends the text of the user's response, whole and once, to the stream of bytes (unless \<^verbatim>\<open>write\<close>
  reports that the peer is gone); if the response asks for it, the connection is shut down after
  the last byte, else it stays open, ready for the next request.\<close>
theorem http_exchange:
  fixes cb :: http_callback and env0 :: "('k, http_context) conn_env" and t r
  defines "env \<equiv> HttpServer_ctor cb env0" and "r' \<equiv> r\<lparr>receiveTime := t\<rparr>"
  defines "response \<equiv> cb r' (HttpResponse_ctor (isShortConn r'))"
  assumes "serving env reg tid s" and "request_ok r" and "content (inputBuffer s) = render_request r"
    and "write_pos (outputBuffer s) + length (response_text response) \<le> vector_max_size"
    and "8 + length (response_text response) \<le> vector_max_size" and "length (resp_body response) < 10 ^ 13"
  shows "\<exists>s'. messageCallback env tid t s = Inr s' \<and> conn_ok env reg tid s' \<and>
    stream s' = stream s @ accepted env s (response_text response) \<and>
    state s' = (if \<not> closeConnection response then kConnected
                else if content (outputBuffer s') = [] then kDisconnected else kDisconnecting) \<and>
    conn_context s' = Some HttpContext_ctor"
proof -
  let ?s = "emit (MessageCallback (content (inputBuffer s))) s"
  have s: "buffer_inv (inputBuffer ?s)" "conn_context ?s = Some HttpContext_ctor"
    "content (inputBuffer ?s) = render_request r"
    using assms(4,6) by (simp_all add: serving_def conn_ok_def)
  obtain b where b: "onMessage cb t ?s = Some (Inr (b, CallSend (response_text response) #
      (if closeConnection response then [CallShutdown] else [])))" "buffer_inv b"
    using onMessage_request [OF s(1,2) assms(5) s(3), of r' t cb] assms(8,9) by (auto simp: r'_def response_def)
  show ?thesis
    by (rule serve_calls [OF assms(4) b(2) _ assms(7)]) (simp add: env_def HttpServer_ctor_def b(1))
qed

text \<open>A server that answers every request with the sample response, on a socket that takes two bytes at a time.\<close>

definition hello_callback :: http_callback where
  "hello_callback r resp = sample_response"

definition hello_base :: "(int \<Rightarrow> (event_mask \<times> nat) option, http_context) conn_env" where
  "hello_base = \<lparr>ctl = table_ctl, sock_write = \<lambda>i d. Inr (min 2 (length d)),
     sock_readv = \<lambda>i n0 n1. Inr ([], []), on_connection = \<lambda>s. [], on_message = \<lambda>t s. Inr (inputBuffer s, []),
     on_close = \<lambda>s. [CallQueueDestory], on_write_complete = \<lambda>s. [], on_high_water_mark = \<lambda>n s. []\<rparr>"

definition hello_env :: "(int \<Rightarrow> (event_mask \<times> nat) option, http_context) conn_env" where
  "hello_env = HttpServer_ctor hello_callback hello_base"

definition hello_conn :: "(int \<Rightarrow> (event_mask \<times> nat) option, http_context) tcp_connection" where
  "hello_conn = TcpConnection_ctor (new_event_loop 1 7 (3, 30) (4, 40) Map.empty) 100 5 ''http#1'' 50 True False"

lemma hello_conn_fresh: "conn_fresh hello_env id 1 (conn_channel 7 50) hello_conn"
proof -
  let ?l = "new_event_loop 1 7 (3, 30) (4, 40) Map.empty :: (int \<Rightarrow> (event_mask \<times> nat) option, conn_functor) event_loop"
  have "loop_ok (ctl hello_env) id 1 ?l" by (simp add: sample_loop_ok hello_env_def hello_base_def)
  then have "conn_fresh hello_env id 1 (conn_channel (this_loop ?l) 50) hello_conn"
    unfolding hello_conn_def by (intro conn_fresh_ctor) (simp_all add: new_event_loop_def)
  then show ?thesis by (simp add: new_event_loop_def)
qed

lemma hello_serving:
  obtains s where "establishConnection hello_env 1 hello_conn = Inr s" "serving hello_env id 1 s"
    "stream s = []" "outputBuffer s = new_buffer"
proof -
  obtain s0 where s0: "establishConnection hello_env 1 hello_conn = rfold (run_call hello_env 1) (on_connection hello_env s0) s0"
    "conn_ok hello_env id 1 s0" "state s0 = kConnected" "trace s0 = trace hello_conn @ [ConnectionCallback True]"
    "outputBuffer s0 = outputBuffer hello_conn"
    by (rule establish_spec [OF hello_conn_fresh])
  have "on_connection hello_env s0 = [CallSetContext HttpContext_ctor]"
    using s0(3) by (simp add: hello_env_def onConnection_def isConnected_def)
  with s0 show ?thesis
    by (intro that [of "s0\<lparr>conn_context := Some HttpContext_ctor\<rparr>"])
      (simp_all add: setContext_def serving_def write_ok_def hello_env_def hello_base_def hello_conn_def ctor_simps stream_def sent_def)
qed

lemma serving_input: "serving env reg tid s \<Longrightarrow> buffer_inv b \<Longrightarrow> serving env reg tid (s\<lparr>inputBuffer := b\<rparr>)"
  using conn_ok_input by (auto simp: serving_def)

theorem http_exchange_witness:
  "\<exists>s s'. establishConnection hello_env 1 hello_conn = Inr s \<and>
     messageCallback hello_env 1 (Timestamp 9) (s\<lparr>inputBuffer := buffer_of (render_request sample_request)\<rparr>) = Inr s' \<and>
     stream s' = response_text sample_response \<and> state s' = kConnected"
proof -
  obtain s where s: "establishConnection hello_env 1 hello_conn = Inr s" "serving hello_env id 1 s" "stream s = []" "outputBuffer s = new_buffer"
    by (rule hello_serving)
  let ?s = "s\<lparr>inputBuffer := buffer_of (render_request sample_request)\<rparr>"
  have sv: "serving hello_env id 1 ?s" by (rule serving_input [OF s(2) buffer_of(1) [OF sample_request_length]])
  have "stream ?s = []" "outputBuffer ?s = new_buffer" using s(3,4) by (simp_all add: stream_def sent_def)
  moreover have "content (inputBuffer ?s) = render_request sample_request" using buffer_of(2) [OF sample_request_length] by simp
  moreover have "accepted hello_env ?s d = d" for d by (simp add: accepted_def hello_env_def hello_base_def)
  ultimately have "\<exists>s'. messageCallback hello_env 1 (Timestamp 9) ?s = Inr s' \<and> stream s' = response_text sample_response \<and> state s' = kConnected"
    using http_exchange [of hello_callback hello_base id 1 ?s sample_request "Timestamp 9", folded hello_env_def]
      sv sample_request_ok sample_response_length
    by (auto simp: hello_callback_def sample_response_body vector_max_size_def)
  with s(1) show ?thesis by blast
qed

text \<open>
  C27.  A request that arrives in two pieces is refused.  If the request line of a well-formed request is
  delivered first and the rest later, then, since \<^verbatim>\<open>onMessage\<close> works on a copy of the context, the parse
  progress is lost: nothing is sent after the first piece, and the second is taken for a new
  request and answered by \<^verbatim>\<open>400 Bad Request\<close> and the end of the connection.  (The first header field
  must not contain a space.)\<close>
theorem http_split_request_refused:
  fixes cb :: http_callback and env0 :: "('k, http_context) conn_env"
  defines "env \<equiv> HttpServer_ctor cb env0"
  assumes "serving env reg tid s" and "request_ok r" and "\<forall>h \<in> set (headers r). CHR '' '' \<notin> set (fst h)"
    and "content (inputBuffer s) = render_line r @ kCRLF"
    and "buffer_inv b" and "content b = render_headers (headers r) @ kCRLF @ body r"
    and "write_pos (outputBuffer s) + length bad_request \<le> vector_max_size"
  shows "\<exists>s1 s2. messageCallback env tid t s = Inr s1 \<and> stream s1 = stream s \<and> state s1 = kConnected \<and>
    messageCallback env tid t' (s1\<lparr>inputBuffer := b\<rparr>) = Inr s2 \<and>
    stream s2 = stream s @ accepted env s bad_request \<and> state s2 \<noteq> kConnected"
proof -
  let ?s = "emit (MessageCallback (content (inputBuffer s))) s"
  have s: "buffer_inv (inputBuffer ?s)" "conn_context ?s = Some HttpContext_ctor"
    "content (inputBuffer ?s) = render_line r @ kCRLF"
    using assms(2,5) by (simp_all add: serving_def conn_ok_def)
  obtain b0 where b0: "onMessage cb t ?s = Some (Inr (b0, []))" "buffer_inv b0"
    using onMessage_line [OF s(1,2) assms(3) s(3)] by blast
  let ?s1 = "?s\<lparr>inputBuffer := b0\<rparr>"
  have s1: "messageCallback env tid t s = Inr ?s1"
    using messageCallback_calls [of env t s b0 "[]" tid] b0(1) by (simp add: env_def HttpServer_ctor_def)
  note f = message_state [OF assms(2) b0(2), where d = "content (inputBuffer s)"]
  have sv: "serving env reg tid (?s1\<lparr>inputBuffer := b\<rparr>)"
    using f(1-3,7) assms(2) conn_ok_input [OF f(1) assms(6)] by (simp add: serving_def)
  let ?s2 = "?s1\<lparr>inputBuffer := b\<rparr>"
  let ?e2 = "emit (MessageCallback (content (inputBuffer ?s2))) ?s2"
  obtain line rest q where line: "content b = line @ kCRLF @ rest" "CHR 0x0D \<notin> set line"
    "parseRequestLine HttpRequest_ctor line = Inr (False, q)"
  proof (cases "headers r")
    case Nil
    then show ?thesis
      using that [of "[]" "body r"] assms(7) parseRequestLine_refuses [of "[]" "[]"] by (auto simp: render_headers_def)
  next
    case (Cons h hs)
    obtain x v where h: "h = (x, v)" by (cases h)
    have ok: "CHR '':'' \<notin> set x" "CHR 0x0D \<notin> set (x @ '': '' @ v)" "CHR '' '' \<notin> set (x @ '':'')"
      using assms(3,4) Cons h by (auto simp: request_ok_def header_ok_def)
    have nm: "x @ '':'' \<notin> {''GET'', ''POST'', ''HEAD'', ''PUT'', ''DELETE''}"
      by (auto dest!: arg_cong [where f = last])
    obtain q where "parseRequestLine HttpRequest_ctor ((x @ '':'') @ CHR '' '' # v) = Inr (False, q)"
      by (rule parseRequestLine_refuses [OF ok(3) nm, of "(x @ '':'') @ CHR '' '' # v" v]) auto
    then show ?thesis
      using that [of "x @ '': '' @ v" "render_headers hs @ kCRLF @ body r" q] assms(7) ok(2)
      by (simp add: Cons h render_headers_def)
  qed
  obtain b1 where b1: "onMessage cb t' ?e2 = Some (Inr (b1, [CallSend bad_request, CallShutdown]))" "buffer_inv b1"
    by (rule onMessage_refused [of ?e2 line rest q cb t']) (use assms(6) line s(2) in simp_all)
  have "\<exists>s2. messageCallback env tid t' ?s2 = Inr s2 \<and> stream s2 = stream ?s2 @ accepted env ?s2 bad_request \<and> state s2 \<noteq> kConnected"
    using serve_calls [OF sv b1(2), of t' bad_request True] b1(1) assms(8)
    by (auto simp: env_def HttpServer_ctor_def split: if_splits)
  moreover have "stream ?s2 = stream s" "accepted env ?s2 bad_request = accepted env s bad_request"
    by (simp_all add: stream_def sent_def accepted_def emit_def)
  ultimately show ?thesis using s1 f(2,5) by auto
qed

theorem http_split_request_refused_witness:
  "\<exists>s s1 s2. establishConnection hello_env 1 hello_conn = Inr s \<and>
     messageCallback hello_env 1 (Timestamp 9) (s\<lparr>inputBuffer := buffer_of (render_line sample_request @ kCRLF)\<rparr>) = Inr s1 \<and>
     messageCallback hello_env 1 (Timestamp 10) (s1\<lparr>inputBuffer :=
       buffer_of (render_headers (headers sample_request) @ kCRLF @ body sample_request)\<rparr>) = Inr s2 \<and> stream s2 = bad_request"
proof -
  obtain s where s: "establishConnection hello_env 1 hello_conn = Inr s" "serving hello_env id 1 s" "stream s = []" "outputBuffer s = new_buffer"
    by (rule hello_serving)
  have l: "length (render_line sample_request @ kCRLF) < 2 ^ 32"
    "length (render_headers (headers sample_request) @ kCRLF @ body sample_request) < 2 ^ 32"
    using sample_request_length by (simp_all add: render_request_def)
  let ?s = "s\<lparr>inputBuffer := buffer_of (render_line sample_request @ kCRLF)\<rparr>"
  have sv: "serving hello_env id 1 ?s" by (rule serving_input [OF s(2) buffer_of(1) [OF l(1)]])
  have e: "stream ?s = []" "outputBuffer ?s = new_buffer" "\<And>d. accepted hello_env ?s d = d"
    using s(3,4) by (simp_all add: stream_def sent_def accepted_def hello_env_def hello_base_def)
  have "content (inputBuffer ?s) = render_line sample_request @ kCRLF" using buffer_of(2) [OF l(1)] by simp
  moreover have "\<forall>h \<in> set (headers sample_request). CHR '' '' \<notin> set (fst h)" by (simp add: sample_request_def)
  moreover have "write_pos (outputBuffer ?s) + length bad_request \<le> vector_max_size"
    using s(4) by (simp add: bad_request_def kCRLF_def vector_max_size_def)
  ultimately show ?thesis
    using http_split_request_refused [of hello_callback hello_base id 1 ?s sample_request
        "buffer_of (render_headers (headers sample_request) @ kCRLF @ body sample_request)" "Timestamp 9" "Timestamp 10", folded hello_env_def]
      sv sample_request_ok buffer_of [OF l(2)] e s(1) by fastforce
qed

end
