(* ===== verification/SocketOps.thy ===== *)
theory SocketOps
  imports Endian
begin

text \<open>
  Model of \<^verbatim>\<open>ham/net/SocketOps.{h,cc}\<close>: the wrappers around the socket calls.  The system is a parameter: a
  record of system calls over an abstract state \<open>'n\<close>, each returning an error number or its result.
  Calls that only log a failure keep the state the system call left.  IPv4 text addresses (\<^verbatim>\<open>inet_ntop\<close>,
  \<^verbatim>\<open>inet_pton\<close>) are modelled on the bytes of the address in memory, for hosts of either byte order.
\<close>

record sockaddr_in =
  sin_family :: "16 word"
  sin_port :: "16 word"
  s_addr :: "32 word"

definition AF_INET :: "16 word" where "AF_INET = 2"

text \<open>A structure cleared by \<^verbatim>\<open>bzero\<close>.\<close>

definition zero_addr :: sockaddr_in where
  "zero_addr = \<lparr>sin_family = 0, sin_port = 0, s_addr = 0\<rparr>"

datatype sock_option = TCP_NODELAY | SO_REUSEADDR | SO_REUSEPORT | SO_KEEPALIVE

record 'n socket_api =
  sys_socket :: "'n \<Rightarrow> (int + int) \<times> 'n"
  sys_bind :: "int \<Rightarrow> sockaddr_in \<Rightarrow> 'n \<Rightarrow> int option \<times> 'n"
  sys_listen :: "int \<Rightarrow> 'n \<Rightarrow> int option \<times> 'n"
  sys_accept :: "int \<Rightarrow> 'n \<Rightarrow> (int + int \<times> sockaddr_in) \<times> 'n"
  sys_connect :: "int \<Rightarrow> sockaddr_in \<Rightarrow> 'n \<Rightarrow> int option \<times> 'n"
  sys_close :: "int \<Rightarrow> 'n \<Rightarrow> int option \<times> 'n"
  sys_shutdown :: "int \<Rightarrow> 'n \<Rightarrow> int option \<times> 'n"
  sys_getsockname :: "int \<Rightarrow> 'n \<Rightarrow> int + sockaddr_in"
  sys_getpeername :: "int \<Rightarrow> 'n \<Rightarrow> int + sockaddr_in"
  sys_so_error :: "int \<Rightarrow> 'n \<Rightarrow> int + int"
  sys_setsockopt :: "int \<Rightarrow> sock_option \<Rightarrow> int \<Rightarrow> 'n \<Rightarrow> int option \<times> 'n"
  sys_open_null :: "'n \<Rightarrow> (int + int) \<times> 'n"
  sys_errno :: "'n \<Rightarrow> int"

section \<open>Error numbers\<close>

definition EPERM :: int where "EPERM = 1"
definition EINTR :: int where "EINTR = 4"
definition EBADF :: int where "EBADF = 9"
definition EAGAIN :: int where "EAGAIN = 11"
definition ENOMEM :: int where "ENOMEM = 12"
definition EACCES :: int where "EACCES = 13"
definition EFAULT :: int where "EFAULT = 14"
definition EINVAL :: int where "EINVAL = 22"
definition ENFILE :: int where "ENFILE = 23"
definition EMFILE :: int where "EMFILE = 24"
definition EPROTO :: int where "EPROTO = 71"
definition ENOTSOCK :: int where "ENOTSOCK = 88"
definition EOPNOTSUPP :: int where "EOPNOTSUPP = 95"
definition EAFNOSUPPORT :: int where "EAFNOSUPPORT = 97"
definition EADDRINUSE :: int where "EADDRINUSE = 98"
definition EADDRNOTAVAIL :: int where "EADDRNOTAVAIL = 99"
definition ENETUNREACH :: int where "ENETUNREACH = 101"
definition ECONNABORTED :: int where "ECONNABORTED = 103"
definition ENOBUFS :: int where "ENOBUFS = 105"
definition EISCONN :: int where "EISCONN = 106"
definition ECONNREFUSED :: int where "ECONNREFUSED = 111"
definition EALREADY :: int where "EALREADY = 114"
definition EINPROGRESS :: int where "EINPROGRESS = 115"

lemmas errno_defs =
  EPERM_def EINTR_def EBADF_def EAGAIN_def ENOMEM_def EACCES_def EFAULT_def EINVAL_def ENFILE_def EMFILE_def
  EPROTO_def ENOTSOCK_def EOPNOTSUPP_def EAFNOSUPPORT_def EADDRINUSE_def EADDRNOTAVAIL_def ENETUNREACH_def
  ECONNABORTED_def ENOBUFS_def EISCONN_def ECONNREFUSED_def EALREADY_def EINPROGRESS_def

section \<open>Sockets\<close>

definition createNonblockingOrDie :: "'n socket_api \<Rightarrow> 'n \<Rightarrow> (int \<times> 'n) result" where
  "createNonblockingOrDie sys n =
     (case sys_socket sys n of
        (Inl e, n') \<Rightarrow> Inl (CriticalAbort ''sockets::createNonblockingOrDie'')
      | (Inr sockfd, n') \<Rightarrow> Inr (sockfd, n'))"

definition bindOrDie :: "'n socket_api \<Rightarrow> int \<Rightarrow> sockaddr_in \<Rightarrow> 'n \<Rightarrow> 'n" where
  "bindOrDie sys sockfd address n = snd (sys_bind sys sockfd address n)"

definition listenOrDie :: "'n socket_api \<Rightarrow> int \<Rightarrow> 'n \<Rightarrow> 'n" where
  "listenOrDie sys f n = snd (sys_listen sys f n)"

text \<open>The error numbers after which \<^verbatim>\<open>accept\<close> returns; any other ends the process.\<close>

definition expected_accept_error :: "int \<Rightarrow> bool" where
  "expected_accept_error e \<longleftrightarrow> e \<in> {EAGAIN, ECONNABORTED, EINTR, EPROTO, EPERM, EMFILE}"

definition unexpected_accept_error :: "int \<Rightarrow> bool" where
  "unexpected_accept_error e \<longleftrightarrow> e \<in> {EBADF, EFAULT, EINVAL, ENFILE, ENOBUFS, ENOMEM, ENOTSOCK, EOPNOTSUPP}"

definition accept :: "'n socket_api \<Rightarrow> int \<Rightarrow> 'n \<Rightarrow> ((int + int \<times> sockaddr_in) \<times> 'n) result" where
  "accept sys sockfd n =
     (case sys_accept sys sockfd n of
        (Inr conn, n') \<Rightarrow> Inr (Inr conn, n')
      | (Inl savedErrno, n') \<Rightarrow>
          if expected_accept_error savedErrno then Inr (Inl savedErrno, n')
          else if unexpected_accept_error savedErrno then Inl (CriticalAbort ''unexpected error of ::accept'')
          else Inl (CriticalAbort ''unknown error of ::accept''))"

definition connect :: "'n socket_api \<Rightarrow> int \<Rightarrow> sockaddr_in \<Rightarrow> 'n \<Rightarrow> int option \<times> 'n" where
  "connect sys sockfd serverAddr n = sys_connect sys sockfd serverAddr n"

definition close_fd :: "'n socket_api \<Rightarrow> int \<Rightarrow> 'n \<Rightarrow> 'n" where
  "close_fd sys sockfd n = snd (sys_close sys sockfd n)"

definition shutdownWrite :: "'n socket_api \<Rightarrow> int \<Rightarrow> 'n \<Rightarrow> 'n" where
  "shutdownWrite sys sockfd n = snd (sys_shutdown sys sockfd n)"

definition getLocalAddr :: "'n socket_api \<Rightarrow> int \<Rightarrow> 'n \<Rightarrow> sockaddr_in" where
  "getLocalAddr sys sockfd n = (case sys_getsockname sys sockfd n of Inl e \<Rightarrow> zero_addr | Inr a \<Rightarrow> a)"

definition getPeerAddr :: "'n socket_api \<Rightarrow> int \<Rightarrow> 'n \<Rightarrow> sockaddr_in" where
  "getPeerAddr sys sockfd n = (case sys_getpeername sys sockfd n of Inl e \<Rightarrow> zero_addr | Inr a \<Rightarrow> a)"

definition getSocketError :: "'n socket_api \<Rightarrow> int \<Rightarrow> 'n \<Rightarrow> int" where
  "getSocketError sys sockfd n = (case sys_so_error sys sockfd n of Inl e \<Rightarrow> e | Inr optval \<Rightarrow> optval)"

definition isSelfConnect :: "'n socket_api \<Rightarrow> int \<Rightarrow> 'n \<Rightarrow> bool" where
  "isSelfConnect sys sockfd n =
     (let localaddr = getLocalAddr sys sockfd n; peeraddr = getPeerAddr sys sockfd n
      in sin_port localaddr = sin_port peeraddr \<and> s_addr localaddr = s_addr peeraddr)"

section \<open>Text addresses\<close>

fun join_with :: "char \<Rightarrow> string list \<Rightarrow> string" where
  "join_with c [] = []"
| "join_with c [w] = w"
| "join_with c (w # v # ws) = w @ c # join_with c (v # ws)"

fun split_at :: "char \<Rightarrow> string \<Rightarrow> string list" where
  "split_at c [] = [[]]"
| "split_at c (x # xs) = (if x = c then [] # split_at c xs else (x # hd (split_at c xs)) # tl (split_at c xs))"

text \<open>One number of a dotted address, as \<^verbatim>\<open>inet_pton\<close> accepts it: decimal, without leading zeros, at most 255.\<close>

definition is_digit :: "char \<Rightarrow> bool" where
  "is_digit c \<longleftrightarrow> 48 \<le> (of_char c :: nat) \<and> (of_char c :: nat) \<le> 57"

definition octet_of :: "string \<Rightarrow> nat option" where
  "octet_of s = (if s \<noteq> [] \<and> list_all is_digit s \<and> (length s = 1 \<or> hd s \<noteq> CHR ''0'') \<and> digits_value s \<le> 255
                 then Some (digits_value s) else None)"

definition inet_ntop :: "bool \<Rightarrow> 32 word \<Rightarrow> string" where
  "inet_ntop le a = join_with (CHR ''.'') (map (\<lambda>c. to_string_nat (of_char c)) (to_mem le 4 a))"

definition inet_pton :: "bool \<Rightarrow> string \<Rightarrow> (32 word) option" where
  "inet_pton le s =
     (let parts = map octet_of (split_at (CHR ''.'') s) in
      if length parts = 4 \<and> None \<notin> set parts then Some (of_mem le (map (\<lambda>p. char_of (the p)) parts)) else None)"

definition toIpStr :: "bool \<Rightarrow> sockaddr_in \<Rightarrow> string" where
  "toIpStr le addr = inet_ntop le (s_addr addr)"

definition ipPortToAddrin :: "bool \<Rightarrow> string \<Rightarrow> 16 word \<Rightarrow> sockaddr_in \<Rightarrow> sockaddr_in" where
  "ipPortToAddrin le ip port addr =
     (let a = addr\<lparr>sin_family := AF_INET, sin_port := hostToNetwork16 le port\<rparr> in
      case inet_pton le ip of None \<Rightarrow> a | Some w \<Rightarrow> a\<lparr>s_addr := w\<rparr>)"

section \<open>Text round trips\<close>

lemma split_at_not_nil [simp]: "split_at c s \<noteq> []"
  by (cases s) auto

lemma join_split: "join_with c (split_at c s) = s"
proof (induction s)
  case Nil
  then show ?case by simp
next
  case (Cons x xs)
  then show ?case
    by (cases "split_at c xs"; cases "tl (split_at c xs)") auto
qed

lemma split_at_append:
  assumes "c \<notin> set w"
  shows "split_at c (w @ c # s) = w # split_at c s" "split_at c w = [w]"
  using assms by (induction w) auto

lemma split_join:
  assumes "ws \<noteq> []" and "\<forall>w \<in> set ws. c \<notin> set w"
  shows "split_at c (join_with c ws) = ws"
  using assms by (induction c ws rule: join_with.induct) (auto simp: split_at_append)

lemma char_of_48: "char_of (48 :: nat) = CHR ''0''"
proof -
  have "char_of (of_char (CHR ''0'') :: nat) = CHR ''0''" by (rule char_of_char)
  then show ?thesis by simp
qed

lemma to_string_nat_lead: "1 \<le> n \<Longrightarrow> hd (to_string_nat n) \<noteq> CHR ''0'' \<and> to_string_nat n \<noteq> []"
proof (induction n rule: to_string_nat.induct)
  case (1 n)
  show ?case
  proof (cases "n < 10")
    case True
    have "char_of (48 + n) \<noteq> CHR ''0''"
    proof
      assume "char_of (48 + n) = CHR ''0''"
      then have "of_char (char_of (48 + n) :: char) = (of_char (CHR ''0'') :: nat)" by simp
      with True "1.prems" show False by simp
    qed
    with True show ?thesis by (simp add: to_string_nat.simps [of n])
  next
    case False
    then have "hd (to_string_nat (n div 10)) \<noteq> CHR ''0'' \<and> to_string_nat (n div 10) \<noteq> []" using "1.IH" by simp
    with False show ?thesis by (simp add: to_string_nat.simps [of n])
  qed
qed

lemma octet_of_to_string:
  assumes "v \<le> 255"
  shows "octet_of (to_string_nat v) = Some v"
proof -
  have "list_all is_digit (to_string_nat v)" using to_string_nat_digits [of _ v] by (auto simp: list_all_iff is_digit_def)
  moreover have "to_string_nat 0 = ''0''" using char_of_48 by (simp add: to_string_nat.simps [of 0])
  ultimately show ?thesis
    using assms to_string_nat_lead [of v] digits_value_to_string [of 0] by (cases "v = 0") (auto simp: octet_of_def digits_value_to_string)
qed

lemma to_string_digits_value:
  assumes "s \<noteq> []" and "list_all is_digit s" and "length s = 1 \<or> hd s \<noteq> CHR ''0''"
  shows "to_string_nat (digits_value s) = s \<and> (hd s \<noteq> CHR ''0'' \<longrightarrow> 0 < digits_value s)"
  using assms
proof (induction s rule: rev_induct)
  case Nil
  then show ?case by simp
next
  case (snoc c s)
  define d where "d = (of_char c :: nat) - 48"
  have "48 \<le> (of_char c :: nat)" "(of_char c :: nat) \<le> 57" using snoc.prems(2) by (simp_all add: is_digit_def)
  then have d: "d \<le> 9" "char_of (48 + d) = c" unfolding d_def by (linarith, simp)
  have z: "c = CHR ''0''" if "d = 0" using d(2) that char_of_48 by simp
  show ?case
  proof (cases "s = []")
    case True
    with d z show ?thesis by (cases "d = 0") (auto simp: digits_value_def to_string_nat.simps [of d] to_string_nat.simps [of 0] simp flip: d_def)
  next
    case False
    then have "hd s \<noteq> CHR ''0''" using snoc.prems(3) by auto
    with snoc False have ih: "to_string_nat (digits_value s) = s" "0 < digits_value s" by auto
    let ?n = "10 * digits_value s + d"
    have "digits_value (s @ [c]) = ?n" by (simp add: digits_value_snoc d_def)
    moreover have "\<not> ?n < 10" "?n div 10 = digits_value s" "?n mod 10 = d" using ih(2) d(1) by auto
    ultimately show ?thesis using ih d(2) by (simp add: to_string_nat.simps [of ?n])
  qed
qed

lemma octet_of_eq_Some: "octet_of s = Some v \<longleftrightarrow> v \<le> 255 \<and> s = to_string_nat v"
  using octet_of_to_string [of v] to_string_digits_value [of s] by (auto simp: octet_of_def split: if_splits)

text \<open>Printing and reading an address.\<close>

lemma inet_pton_ntop: "inet_pton le (inet_ntop le a) = Some a"
proof -
  let ?m = "to_mem le 4 a"
  let ?ws = "map (\<lambda>c. to_string_nat (of_char c)) ?m"
  have ne: "?ws \<noteq> []" using length_to_mem [of le 4 a] by (auto simp del: length_to_mem)
  have dot: "CHR ''.'' \<notin> set (to_string_nat n)" for n
    using to_string_nat_digits [of "CHR ''.''" n] by auto
  then have "split_at (CHR ''.'') (inet_ntop le a) = ?ws"
    unfolding inet_ntop_def using ne by (intro split_join) auto
  moreover have "octet_of (to_string_nat (of_char c)) = Some (of_char c)" for c
  proof -
    have "of_char c < (256 :: nat)" by simp
    then have "of_char c \<le> (255 :: nat)" by linarith
    then show ?thesis by (rule octet_of_to_string)
  qed
  then have "map octet_of ?ws = map (\<lambda>c. Some (of_char c)) ?m" by simp
  ultimately have "inet_pton le (inet_ntop le a) = Some (of_mem le (map (\<lambda>p. char_of (the p)) (map (\<lambda>c. Some (of_char c :: nat)) ?m)))"
    unfolding inet_pton_def by (simp only: Let_def) auto
  also have "map (\<lambda>p. char_of (the p)) (map (\<lambda>c. Some (of_char c :: nat)) ?m) = ?m" by (simp add: comp_def)
  finally show ?thesis by (simp add: of_mem_to_mem)
qed

lemma to_mem_of_mem:
  assumes "length cs = 4"
  shows "to_mem le 4 (of_mem le cs :: 32 word) = cs"
proof -
  have "le_value xs < 2 ^ 32" if "length xs = 4" for xs using le_value_bound [of xs] that by simp
  then have "unat (of_mem le cs :: 32 word) = le_value (if le then cs else rev cs)"
    using assms by (simp add: of_mem_def unat_of_nat)
  then show ?thesis
    using le_bytes_le_value [of cs] le_bytes_le_value [of "rev cs"] assms by (cases le) (simp_all add: to_mem_def)
qed

lemma inet_ntop_pton:
  assumes "inet_pton le s = Some a"
  shows "inet_ntop le a = s"
proof -
  let ?ws = "split_at (CHR ''.'') s"
  from assms have l: "length ?ws = 4" and some: "None \<notin> set (map octet_of ?ws)"
    and a: "a = of_mem le (map (\<lambda>p. char_of (the p)) (map octet_of ?ws))"
    by (auto simp: inet_pton_def Let_def split: if_splits)
  have m: "to_mem le 4 a = map (\<lambda>w. char_of (the (octet_of w))) ?ws"
    unfolding a by (subst to_mem_of_mem) (simp_all add: l comp_def)
  have "to_string_nat (of_char (char_of (the (octet_of w)) :: char)) = w" if "w \<in> set ?ws" for w
  proof -
    have "octet_of w \<noteq> None" using some that by (metis image_eqI set_map)
    then obtain v where "octet_of w = Some v" by blast
    moreover from this have "v \<le> 255" "w = to_string_nat v" by (simp_all add: octet_of_eq_Some)
    ultimately show ?thesis by simp
  qed
  then have "map (\<lambda>c. to_string_nat (of_char c)) (to_mem le 4 a) = ?ws"
    unfolding m by (simp add: comp_def map_idI)
  then show ?thesis by (simp add: inet_ntop_def join_split)
qed

section \<open>Descriptors\<close>

text \<open>
  What POSIX promises about the table of open descriptors \<open>fds\<close>: a call that returns a descriptor returns
  one that was not open and opens it, \<^verbatim>\<open>close\<close> closes its argument, and nothing else changes the table.
\<close>

definition fresh_fd :: "('n \<Rightarrow> int set) \<Rightarrow> 'n \<Rightarrow> int \<Rightarrow> 'n \<Rightarrow> bool" where
  "fresh_fd fds n f n' \<longleftrightarrow> 0 \<le> f \<and> f \<notin> fds n \<and> fds n' = insert f (fds n)"

definition fd_laws :: "'n socket_api \<Rightarrow> ('n \<Rightarrow> int set) \<Rightarrow> bool" where
  "fd_laws sys fds \<longleftrightarrow>
     (\<forall>n f n'. sys_socket sys n = (Inr f, n') \<longrightarrow> fresh_fd fds n f n') \<and>
     (\<forall>n e n'. sys_socket sys n = (Inl e, n') \<longrightarrow> fds n' = fds n) \<and>
     (\<forall>n f n'. sys_open_null sys n = (Inr f, n') \<longrightarrow> fresh_fd fds n f n') \<and>
     (\<forall>n e n'. sys_open_null sys n = (Inl e, n') \<longrightarrow> fds n' = fds n) \<and>
     (\<forall>l n f a n'. sys_accept sys l n = (Inr (f, a), n') \<longrightarrow> fresh_fd fds n f n') \<and>
     (\<forall>l n e n'. sys_accept sys l n = (Inl e, n') \<longrightarrow> fds n' = fds n) \<and>
     (\<forall>f n. fds (snd (sys_close sys f n)) = fds n - {f} \<and> fds (snd (sys_listen sys f n)) = fds n \<and>
        fds (snd (sys_shutdown sys f n)) = fds n) \<and>
     (\<forall>f a n. fds (snd (sys_bind sys f a n)) = fds n \<and> fds (snd (sys_connect sys f a n)) = fds n) \<and>
     (\<forall>f opt v n. fds (snd (sys_setsockopt sys f opt v n)) = fds n)"

lemma fd_laws_simps:
  assumes "fd_laws sys fds"
  shows "fds (close_fd sys f n) = fds n - {f}" "fds (listenOrDie sys f n) = fds n" "fds (bindOrDie sys f a n) = fds n"
    "fds (snd (sys_connect sys f a n)) = fds n" "fds (snd (sys_setsockopt sys f opt v n)) = fds n"
  using assms by (simp_all add: fd_laws_def close_fd_def listenOrDie_def bindOrDie_def)

lemma fd_laws_new:
  assumes "fd_laws sys fds"
  shows "sys_socket sys n = (Inr f, n') \<Longrightarrow> fresh_fd fds n f n'" "sys_open_null sys n = (Inr f, n') \<Longrightarrow> fresh_fd fds n f n'"
    "sys_open_null sys n = (Inl e, n') \<Longrightarrow> fds n' = fds n" "sys_accept sys l n = (Inr (f, a), n') \<Longrightarrow> fresh_fd fds n f n'"
    "sys_accept sys l n = (Inl e, n') \<Longrightarrow> fds n' = fds n"
  using assms by (simp_all add: fd_laws_def)

text \<open>A system for concrete instances: the open descriptors and the results of the coming calls of \<^verbatim>\<open>accept\<close>.\<close>

record table_net =
  open_fds :: "int list"
  backlog :: "(int + sockaddr_in) list"

definition table_new :: "table_net \<Rightarrow> int \<times> table_net" where
  "table_new n = (let f = foldr max (open_fds n) 2 + 1 in (f, n\<lparr>open_fds := f # open_fds n\<rparr>))"

definition table_api :: "table_net socket_api" where
  "table_api = \<lparr>sys_socket = \<lambda>n. map_prod Inr id (table_new n),
     sys_bind = \<lambda>f a n. (None, n), sys_listen = \<lambda>f n. (None, n),
     sys_accept = \<lambda>l n. (case backlog n of
         [] \<Rightarrow> (Inl EAGAIN, n)
       | Inl e # rest \<Rightarrow> (Inl e, n\<lparr>backlog := rest\<rparr>)
       | Inr a # rest \<Rightarrow> map_prod (\<lambda>f. Inr (f, a)) id (table_new (n\<lparr>backlog := rest\<rparr>))),
     sys_connect = \<lambda>f a n. (Some EINPROGRESS, n),
     sys_close = \<lambda>f n. (None, n\<lparr>open_fds := filter (\<lambda>x. x \<noteq> f) (open_fds n)\<rparr>),
     sys_shutdown = \<lambda>f n. (None, n), sys_getsockname = \<lambda>f n. Inr zero_addr,
     sys_getpeername = \<lambda>f n. Inr (zero_addr\<lparr>sin_port := 1\<rparr>), sys_so_error = \<lambda>f n. Inr 0,
     sys_setsockopt = \<lambda>f opt v n. (None, n), sys_open_null = \<lambda>n. map_prod Inr id (table_new n), sys_errno = \<lambda>n. 0\<rparr>"

definition table_fds :: "table_net \<Rightarrow> int set" where
  "table_fds n = set (open_fds n)"

lemma foldr_max_less: "x \<in> set xs \<Longrightarrow> x < foldr max xs 2 + (1 :: int)" "2 \<le> foldr max xs (2 :: int)"
  by (induction xs) auto

lemma table_new_fresh: "table_new n = (f, n') \<Longrightarrow> fresh_fd table_fds n f n'"
  using foldr_max_less(1) [of f "open_fds n"] foldr_max_less(2) [of "open_fds n"]
  by (auto simp: table_new_def table_fds_def fresh_fd_def Let_def)

lemma table_accept:
  "sys_accept table_api l n = (Inr (f, a), n') \<Longrightarrow> fresh_fd table_fds n f n'"
  "sys_accept table_api l n = (Inl e, n') \<Longrightarrow> table_fds n' = table_fds n"
proof -
  have same: "fresh_fd table_fds (n\<lparr>backlog := b\<rparr>) f n' = fresh_fd table_fds n f n'" for b
    by (simp add: fresh_fd_def table_fds_def)
  show "sys_accept table_api l n = (Inr (f, a), n') \<Longrightarrow> fresh_fd table_fds n f n'"
    using table_new_fresh [of "n\<lparr>backlog := tl (backlog n)\<rparr>" f n'] same
    by (cases "table_new (n\<lparr>backlog := tl (backlog n)\<rparr>)")
      (auto simp: table_api_def split: list.splits sum.splits)
  show "sys_accept table_api l n = (Inl e, n') \<Longrightarrow> table_fds n' = table_fds n"
    by (auto simp: table_api_def table_fds_def table_new_def Let_def split: list.splits sum.splits)
qed

lemma table_fd_laws: "fd_laws table_api table_fds"
proof -
  have s: "sys_socket table_api n = map_prod Inr id (table_new n)" "sys_open_null table_api n = map_prod Inr id (table_new n)" for n
    by (simp_all add: table_api_def)
  have "fresh_fd table_fds n f n'" if "map_prod Inr id (table_new n) = (Inr f, n')" for n f n' and e :: int
    using that table_new_fresh [of n f n'] by (cases "table_new n") simp
  moreover have "map_prod Inr id (table_new n) \<noteq> (Inl e, n')" for n n' and e :: int by (cases "table_new n") simp
  moreover have "table_fds (snd (sys_close table_api f n)) = table_fds n - {f}" for f n
    by (auto simp: table_api_def table_fds_def)
  ultimately show ?thesis
    unfolding fd_laws_def s using table_accept by (auto simp: table_api_def)
qed

end
