(* ===== verification/InetAddress.thy ===== *)
theory InetAddress
  imports SocketOps
begin

text \<open>
  Model of \<^verbatim>\<open>ham/net/InetAddress.{h,cc}\<close> and of \<^verbatim>\<open>ham/net/Socket.{h,cc}\<close>.  An \<^verbatim>\<open>InetAddress\<close> is its
  \<^verbatim>\<open>sockaddr_in\<close>; a \<^verbatim>\<open>Socket\<close> is its descriptor, and its operations act on the state of the system.
\<close>

type_synonym inet_address = sockaddr_in

definition InetAddress_any :: "bool \<Rightarrow> 16 word \<Rightarrow> inet_address" where
  "InetAddress_any le port =
     zero_addr\<lparr>sin_family := AF_INET, s_addr := hostToNetwork32 le 0, sin_port := hostToNetwork16 le port\<rparr>"

definition InetAddress_ip :: "bool \<Rightarrow> string \<Rightarrow> 16 word \<Rightarrow> inet_address" where
  "InetAddress_ip le ip port = ipPortToAddrin le ip port zero_addr"

definition InetAddress_of :: "sockaddr_in \<Rightarrow> inet_address" where
  "InetAddress_of addr = addr"

definition setSockAddrIn :: "sockaddr_in \<Rightarrow> inet_address \<Rightarrow> inet_address" where
  "setSockAddrIn addr_in a = addr_in"

definition getSockAddrIn :: "inet_address \<Rightarrow> sockaddr_in" where
  "getSockAddrIn a = a"

definition getPort :: "bool \<Rightarrow> inet_address \<Rightarrow> 16 word" where
  "getPort le a = networkToHost16 le (sin_port a)"

definition getIpStr :: "bool \<Rightarrow> inet_address \<Rightarrow> string" where
  "getIpStr le a = toIpStr le a"

definition getPortStr :: "bool \<Rightarrow> inet_address \<Rightarrow> string" where
  "getPortStr le a = to_string_nat (unat (getPort le a))"

definition getIpPortStr :: "bool \<Rightarrow> inet_address \<Rightarrow> string" where
  "getIpPortStr le a = getIpStr le a @ '':'' @ getPortStr le a"

text \<open>What servers and clients give to the constructor of a connection.\<close>

record conn_info =
  info_name :: string
  info_loop :: nat
  info_fd :: int
  info_local :: inet_address
  info_peer :: inet_address

section \<open>Sockets\<close>

text \<open>
  A socket owns its descriptor.  Moving from it leaves \<open>- 1\<close> behind; the destructor closes whatever it
  holds.  The setters of options log a failure and go on.
\<close>

record socket =
  socket_fd :: int

definition Socket_ctor :: "int \<Rightarrow> socket" where
  "Socket_ctor f = \<lparr>socket_fd = f\<rparr>"

definition Socket_move :: "socket \<Rightarrow> socket \<times> socket" where
  "Socket_move src = (\<lparr>socket_fd = socket_fd src\<rparr>, src\<lparr>socket_fd := - 1\<rparr>)"

definition Socket_dtor :: "'n socket_api \<Rightarrow> socket \<Rightarrow> 'n \<Rightarrow> 'n" where
  "Socket_dtor sys s n = close_fd sys (socket_fd s) n"

definition bindAddress :: "'n socket_api \<Rightarrow> socket \<Rightarrow> inet_address \<Rightarrow> 'n \<Rightarrow> 'n" where
  "bindAddress sys s addr n = bindOrDie sys (socket_fd s) addr n"

definition Socket_listen :: "'n socket_api \<Rightarrow> socket \<Rightarrow> 'n \<Rightarrow> 'n" where
  "Socket_listen sys s n = listenOrDie sys (socket_fd s) n"

text \<open>\<^verbatim>\<open>Socket::accept\<close>: the descriptor, or the error number left in \<^verbatim>\<open>errno\<close>, and the peer's address.\<close>

definition Socket_accept ::
  "'n socket_api \<Rightarrow> socket \<Rightarrow> inet_address \<Rightarrow> 'n \<Rightarrow> ((int + int) \<times> inet_address \<times> 'n) result" where
  "Socket_accept sys s peerAddr n =
     rbind (accept sys (socket_fd s) n) (\<lambda>(r, n').
       case r of
         Inl e \<Rightarrow> Inr (Inl e, peerAddr, n')
       | Inr (connFd, addr) \<Rightarrow> Inr (Inr connFd, if 0 < connFd then setSockAddrIn addr peerAddr else peerAddr, n'))"

definition Socket_shutdownWrite :: "'n socket_api \<Rightarrow> socket \<Rightarrow> 'n \<Rightarrow> 'n" where
  "Socket_shutdownWrite sys s n = shutdownWrite sys (socket_fd s) n"

definition set_option :: "'n socket_api \<Rightarrow> sock_option \<Rightarrow> bool \<Rightarrow> socket \<Rightarrow> 'n \<Rightarrow> 'n" where
  "set_option sys opt on s n = snd (sys_setsockopt sys (socket_fd s) opt (if on then 1 else 0) n)"

definition setTcpNoDelay :: "'n socket_api \<Rightarrow> bool \<Rightarrow> socket \<Rightarrow> 'n \<Rightarrow> 'n" where
  "setTcpNoDelay sys = set_option sys TCP_NODELAY"

definition setReuseAddr :: "'n socket_api \<Rightarrow> bool \<Rightarrow> socket \<Rightarrow> 'n \<Rightarrow> 'n" where
  "setReuseAddr sys = set_option sys SO_REUSEADDR"

definition setReusePort :: "'n socket_api \<Rightarrow> bool \<Rightarrow> socket \<Rightarrow> 'n \<Rightarrow> 'n" where
  "setReusePort sys = set_option sys SO_REUSEPORT"

definition setKeepAlive :: "'n socket_api \<Rightarrow> bool \<Rightarrow> socket \<Rightarrow> 'n \<Rightarrow> 'n" where
  "setKeepAlive sys = set_option sys SO_KEEPALIVE"

section \<open>Properties\<close>

lemma port_roundtrip: "networkToHost16 le (hostToNetwork16 le p) = p"
  by (simp add: endian_defs byte_swap_byte_swap)

lemma hostToNetwork16_inverse: "hostToNetwork16 le (networkToHost16 le p) = p"
  by (simp add: endian_defs byte_swap_byte_swap)

text \<open>
  Addresses survive their text form, on hosts of either byte order.  An address built from a text IP that
  \<^verbatim>\<open>inet_pton\<close> accepts and a port prints as exactly that text and that port; an IPv4 address is
  rebuilt unchanged from what it prints.  A text that is refused gives the address \<^verbatim>\<open>0.0.0.0\<close> with the
  port kept.\<close>
theorem address_roundtrip:
  shows "getPort le (InetAddress_ip le ip port) = port \<and>
    (if inet_pton le ip = None then s_addr (InetAddress_ip le ip port) = 0
     else getIpPortStr le (InetAddress_ip le ip port) = ip @ '':'' @ to_string_nat (unat port)) \<and>
    InetAddress_ip le (getIpStr le a) (getPort le a) = a\<lparr>sin_family := AF_INET\<rparr>"
proof (intro conjI)
  show "getPort le (InetAddress_ip le ip port) = port"
    by (simp add: getPort_def InetAddress_ip_def ipPortToAddrin_def Let_def port_roundtrip split: option.split)
  then show "if inet_pton le ip = None then s_addr (InetAddress_ip le ip port) = 0
     else getIpPortStr le (InetAddress_ip le ip port) = ip @ '':'' @ to_string_nat (unat port)"
    by (auto simp: getIpPortStr_def getPortStr_def)
      (auto simp: InetAddress_ip_def ipPortToAddrin_def zero_addr_def getIpStr_def toIpStr_def inet_ntop_pton)
  show "InetAddress_ip le (getIpStr le a) (getPort le a) = a\<lparr>sin_family := AF_INET\<rparr>"
    by (simp add: InetAddress_ip_def ipPortToAddrin_def getIpStr_def toIpStr_def getPort_def inet_pton_ntop
        hostToNetwork16_inverse zero_addr_def Let_def)
qed

end
