(* ===== verification/Acceptor.thy ===== *)
theory Acceptor
  imports EventLoop InetAddress
begin

text \<open>
  Model of \<^verbatim>\<open>ham/net/Acceptor.{h,cc}\<close>: the listening socket of a server.  The state extends that of the
  loop by the members of the acceptor and by the state of the system.  The callback for new connections
  is a parameter of \<^verbatim>\<open>handleRead\<close>; \<open>None\<close> is an empty \<^verbatim>\<open>std::function\<close>.
\<close>

record ('k, 'f, 'n) acceptor = "('k, 'f) event_loop" +
  listening :: bool
  idleFd :: int
  acceptSocket :: socket
  acceptChannel :: nat
  net :: 'n

text \<open>\<^verbatim>\<open>open\<close> of \<^verbatim>\<open>/dev/null\<close>, \<open>- 1\<close> on failure.\<close>

definition open_idle :: "'n socket_api \<Rightarrow> 'n \<Rightarrow> int \<times> 'n" where
  "open_idle sys n = (case sys_open_null sys n of (Inl e, n') \<Rightarrow> (- 1, n') | (Inr f, n') \<Rightarrow> (f, n'))"

definition Acceptor_ctor ::
  "'n socket_api \<Rightarrow> inet_address \<Rightarrow> bool \<Rightarrow> nat \<Rightarrow> ('k, 'f) event_loop \<Rightarrow> 'n \<Rightarrow> ('k, 'f, 'n) acceptor result" where
  "Acceptor_ctor sys addr reusePort ch l n =
     (let (idle, n1) = open_idle sys n in
      rbind (createNonblockingOrDie sys n1) (\<lambda>(f, n2).
        let sock = Socket_ctor f;
            c = (Channel_ctor (this_loop l) f)\<lparr>readCb := True\<rparr>
        in assert_that (0 < idle) ''idleFd_ > 0''
           (let n3 = setReuseAddr sys True sock n2;
                n4 = setReusePort sys reusePort sock n3;
                n5 = bindAddress sys sock addr n4
            in Inr (set_chan ch c (event_loop.extend l
                 \<lparr>listening = False, idleFd = idle, acceptSocket = sock, acceptChannel = ch, net = n5\<rparr>)))))"

definition Acceptor_dtor ::
  "'k epoll_ctl_fn \<Rightarrow> 'n socket_api \<Rightarrow> int \<Rightarrow> ('k, 'f, 'n, 'z) acceptor_scheme \<Rightarrow> ('k, 'f, 'n, 'z) acceptor_scheme result" where
  "Acceptor_dtor epoll_ctl sys tid s =
     rbind (disableAll epoll_ctl tid (acceptChannel s) s) (\<lambda>s1.
     rbind (removeChannel epoll_ctl tid (acceptChannel s1) s1) (\<lambda>s2.
     let s3 = s2\<lparr>net := close_fd sys (idleFd s2) (net s2)\<rparr>
     in Inr (s3\<lparr>net := Socket_dtor sys (acceptSocket s3) (net s3)\<rparr>)))"

definition acceptor_listen ::
  "'k epoll_ctl_fn \<Rightarrow> 'n socket_api \<Rightarrow> int \<Rightarrow> ('k, 'f, 'n, 'z) acceptor_scheme \<Rightarrow> ('k, 'f, 'n, 'z) acceptor_scheme result" where
  "acceptor_listen epoll_ctl sys tid s =
     assertInLoopThread tid s
     (let s1 = s\<lparr>listening := True, net := listenOrDie sys (socket_fd (acceptSocket s)) (net s)\<rparr>
      in enableReading epoll_ctl tid (acceptChannel s1) s1)"

text \<open>
  With the process out of descriptors: the spare descriptor is given up to accept the pending
  connection, which is closed at once, and reopened.
\<close>

definition drop_pending :: "'n socket_api \<Rightarrow> ('k, 'f, 'n, 'z) acceptor_scheme \<Rightarrow> ('k, 'f, 'n, 'z) acceptor_scheme" where
  "drop_pending sys s =
     (let n1 = close_fd sys (idleFd s) (net s);
          (r, n2) = sys_accept sys (socket_fd (acceptSocket s)) n1;
          idle = (case r of Inl e \<Rightarrow> - 1 | Inr (f, a) \<Rightarrow> f);
          n3 = close_fd sys idle n2;
          (idle', n4) = open_idle sys n3
      in s\<lparr>idleFd := idle', net := n4\<rparr>)"

definition acceptor_handleRead ::
  "'n socket_api \<Rightarrow>
   (int \<Rightarrow> inet_address \<Rightarrow> ('k, 'f, 'n, 'z) acceptor_scheme \<Rightarrow> ('k, 'f, 'n, 'z) acceptor_scheme result) option \<Rightarrow>
   int \<Rightarrow> ('k, 'f, 'n, 'z) acceptor_scheme \<Rightarrow> ('k, 'f, 'n, 'z) acceptor_scheme result" where
  "acceptor_handleRead sys newConnCallback tid s =
     assertInLoopThread tid s
     (rbind (Socket_accept sys (acceptSocket s) zero_addr (net s)) (\<lambda>(r, peerAddr, n).
        let s1 = s\<lparr>net := n\<rparr>;
            failed = (\<lambda>errno. Inr (if errno = EMFILE then drop_pending sys s1 else s1))
        in case r of
             Inl errno \<Rightarrow> failed errno
           | Inr connfd \<Rightarrow>
               if 0 < connfd then
                 (case newConnCallback of
                    Some cb \<Rightarrow> cb connfd peerAddr s1
                  | None \<Rightarrow> Inr (s1\<lparr>net := close_fd sys connfd (net s1)\<rparr>))
               else failed (sys_errno sys n)))"

section \<open>Descriptors\<close>

text \<open>The acceptor holds two distinct open descriptors.\<close>

definition acceptor_ok :: "('n \<Rightarrow> int set) \<Rightarrow> ('k, 'f, 'n, 'z) acceptor_scheme \<Rightarrow> bool" where
  "acceptor_ok fds s \<longleftrightarrow> 0 < idleFd s \<and> idleFd s \<in> fds (net s) \<and> socket_fd (acceptSocket s) \<in> fds (net s) \<and>
     idleFd s \<noteq> socket_fd (acceptSocket s)"

lemma open_idle_spec:
  assumes "fd_laws sys fds" and "open_idle sys n = (f, n')"
  shows "if f = - 1 then fds n' = fds n else fresh_fd fds n f n'"
  using assms fd_laws_new(2,3) [OF assms(1), of n] unfolding open_idle_def
  by (cases "sys_open_null sys n"; cases "fst (sys_open_null sys n)") (auto simp: fresh_fd_def)

text \<open>
  The pending connection is closed: after the spare descriptor was given up in \<open>n\<close>, \<^verbatim>\<open>accept\<close> is called
  again; the descriptor \<open>g\<close> it returns is new and is closed, and the spare one is opened on what is left.
\<close>

definition pending_closed ::
  "'n socket_api \<Rightarrow> ('n \<Rightarrow> int set) \<Rightarrow> ('k, 'f, 'n, 'z) acceptor_scheme \<Rightarrow> 'n \<Rightarrow> ('k, 'f, 'n, 'z) acceptor_scheme \<Rightarrow> bool" where
  "pending_closed sys fds s n s' \<longleftrightarrow>
     (let n1 = close_fd sys (idleFd s) n in
      case sys_accept sys (socket_fd (acceptSocket s)) n1 of
        (Inr (g, a), n2) \<Rightarrow> g \<notin> fds n1 \<and> fds n2 = insert g (fds n1) \<and> open_idle sys (close_fd sys g n2) = (idleFd s', net s')
      | (Inl e, n2) \<Rightarrow> open_idle sys (close_fd sys (- 1) n2) = (idleFd s', net s'))"

lemma drop_pending_spec:
  assumes laws: "fd_laws sys fds" and ok: "acceptor_ok fds s" and neg: "- 1 \<notin> fds (net s)"
  defines "s' \<equiv> drop_pending sys s"
  shows "fds (net s') = (fds (net s) - {idleFd s}) \<union> (if idleFd s' = - 1 then {} else {idleFd s'}) \<and>
    (idleFd s' = - 1 \<or> idleFd s' \<notin> fds (net s) - {idleFd s}) \<and> acceptSocket s' = acceptSocket s \<and>
    pending_closed sys fds s (net s) s'"
proof -
  let ?n1 = "close_fd sys (idleFd s) (net s)"
  obtain r n2 where a: "sys_accept sys (socket_fd (acceptSocket s)) ?n1 = (r, n2)" by force
  define idle where "idle = (case r of Inl e \<Rightarrow> - 1 | Inr (f, a) \<Rightarrow> f)"
  obtain i n4 where o: "open_idle sys (close_fd sys idle n2) = (i, n4)" by force
  have 1: "fds ?n1 = fds (net s) - {idleFd s}" by (simp add: fd_laws_simps(1) [OF laws])
  have "fds n2 - {idle} = fds ?n1"
  proof (cases r)
    case (Inl e)
    then show ?thesis using a fd_laws_new(5) [OF laws] neg 1 by (auto simp: idle_def)
  next
    case (Inr p)
    then show ?thesis using a fd_laws_new(4) [OF laws] by (cases p) (auto simp: idle_def fresh_fd_def)
  qed
  then have 3: "fds (close_fd sys idle n2) = fds (net s) - {idleFd s}" by (simp add: fd_laws_simps(1) [OF laws] 1)
  have s': "s' = s\<lparr>idleFd := i, net := n4\<rparr>" using a o by (simp add: s'_def drop_pending_def idle_def Let_def)
  then have "pending_closed sys fds s (net s) s'"
    using a o fd_laws_new(4) [OF laws] by (cases r) (auto simp: pending_closed_def idle_def fresh_fd_def)
  then show ?thesis using open_idle_spec [OF laws o] 3 s' by (auto simp: fresh_fd_def split: if_splits)
qed

text \<open>How accepting turns out.\<close>

lemma Socket_accept_cases:
  assumes laws: "fd_laws sys fds" and r: "Socket_accept sys sock a n = Inr (r, peer, n')"
  obtains e where "r = Inl e" "expected_accept_error e" "fds n' = fds n" "sys_accept sys (socket_fd sock) n = (Inl e, n')"
  | f addr where "r = Inr f" "fresh_fd fds n f n'" "sys_accept sys (socket_fd sock) n = (Inr (f, addr), n')"
      "0 < f \<Longrightarrow> peer = addr"
proof -
  obtain q m where q: "sys_accept sys (socket_fd sock) n = (q, m)" by (cases "sys_accept sys (socket_fd sock) n")
  show ?thesis
  proof (cases q)
    case (Inl e)
    with q r show ?thesis
      using fd_laws_new(5) [OF laws, of "socket_fd sock" n e m] that(1)
      by (simp add: Socket_accept_def accept_def split: if_splits)
  next
    case (Inr p)
    obtain f addr where p: "p = (f, addr)" by (cases p)
    with Inr q r show ?thesis
      using fd_laws_new(4) [OF laws, of "socket_fd sock" n f addr m] that(2) [of f addr]
      by (auto simp: Socket_accept_def accept_def setSockAddrIn_def)
  qed
qed

section \<open>Properties\<close>

text \<open>
  C17.  No descriptor is lost or leaked by accepting.  If \<^verbatim>\<open>handleRead\<close> returns (it does unless \<^verbatim>\<open>accept\<close> reports an
  error that is meant to be fatal), then exactly one of these holds of the process's open descriptors:
  a new one was opened and handed to the callback; nothing was accepted and nothing changed; or the
  process had run out of descriptors (\<^verbatim>\<open>errno\<close> being \<^verbatim>\<open>EMFILE\<close> still after the line \<^verbatim>\<open>ERROR(...)\<close>): then the spare
  descriptor was closed, \<^verbatim>\<open>accept\<close> was called once more, the descriptor of the pending connection it gave
  was closed at once, and a new spare descriptor was opened (or could not be), so that only the
  spare descriptor was exchanged.\<close>
theorem accept_no_leak:
  fixes s :: "('k, 'f, 'n, 'z) acceptor_scheme"
  assumes "fd_laws sys fds" and "acceptor_ok fds s" and "- 1 \<notin> fds (net s)" and "0 \<in> fds (net s)" and "threadId s = tid"
    and "acceptor_handleRead sys (Some (\<lambda>f addr s. Inr (on_new f addr s))) tid s = Inr s'"
  shows "(\<exists>f addr n. f \<notin> fds (net s) \<and> 0 < f \<and> fds n = insert f (fds (net s)) \<and>
            sys_accept sys (socket_fd (acceptSocket s)) (net s) = (Inr (f, addr), n) \<and> s' = on_new f addr (s\<lparr>net := n\<rparr>)) \<or>
    (\<exists>e n. sys_accept sys (socket_fd (acceptSocket s)) (net s) = (Inl e, n) \<and> expected_accept_error e \<and>
       (if e = EMFILE
        then (let n1 = close_fd sys (idleFd s) n in
              case sys_accept sys (socket_fd (acceptSocket s)) n1 of
                (Inr (g, a), n2) \<Rightarrow> g \<notin> fds n1 \<and> fds n2 = insert g (fds n1) \<and> open_idle sys (close_fd sys g n2) = (idleFd s', net s')
              | (Inl e, n2) \<Rightarrow> open_idle sys (close_fd sys (- 1) n2) = (idleFd s', net s')) \<and>
             fds (net s') = (fds (net s) - {idleFd s}) \<union> (if idleFd s' = - 1 then {} else {idleFd s'})
        else fds (net s') = fds (net s) \<and> idleFd s' = idleFd s))"
proof -
  obtain r peer n where acc: "Socket_accept sys (acceptSocket s) zero_addr (net s) = Inr (r, peer, n)"
    using assms(5,6) by (auto simp: acceptor_handleRead_def rbind_eq_Inr)
  from assms(1) acc show ?thesis
  proof (cases rule: Socket_accept_cases)
    case (1 e)
    have s': "s' = (if e = EMFILE then drop_pending sys (s\<lparr>net := n\<rparr>) else s\<lparr>net := n\<rparr>)"
      using assms(5,6) acc 1(1) by (simp add: acceptor_handleRead_def Let_def)
    have "acceptor_ok fds (s\<lparr>net := n\<rparr>)" using assms(2) 1(3) by (simp add: acceptor_ok_def)
    then show ?thesis
      using drop_pending_spec [OF assms(1), of "s\<lparr>net := n\<rparr>"] assms(3) 1 s' unfolding pending_closed_def by auto
  next
    case (2 f addr)
    have "0 < f" using 2(2) assms(4) by (cases "f = 0") (auto simp: fresh_fd_def)
    moreover from this have "s' = on_new f addr (s\<lparr>net := n\<rparr>)"
      using assms(5,6) acc 2(1,4) by (simp add: acceptor_handleRead_def)
    ultimately show ?thesis using 2 by (auto simp: fresh_fd_def)
  qed
qed

definition sample_acceptor :: "(unit, nat, table_net) acceptor" where
  "sample_acceptor = event_loop.extend (new_event_loop 1 7 (3, 30) (4, 40) ())
     \<lparr>listening = True, idleFd = 3, acceptSocket = Socket_ctor 4, acceptChannel = 6,
      net = \<lparr>open_fds = [4, 3, 2, 1, 0], backlog = [Inl EMFILE, Inr zero_addr]\<rparr>\<rparr>"

theorem accept_no_leak_witness:
  "\<exists>s'. acceptor_handleRead table_api (Some (\<lambda>f a s. Inr s)) 1 sample_acceptor = Inr s' \<and>
     table_fds (net s') = {0, 1, 2, 4, 5} \<and> backlog (net s') = []"
proof -
  have ok: "acceptor_ok table_fds sample_acceptor" "- 1 \<notin> table_fds (net sample_acceptor)" "0 \<in> table_fds (net sample_acceptor)"
    "threadId sample_acceptor = 1"
    by (simp_all add: acceptor_ok_def sample_acceptor_def table_fds_def event_loop.extend_def new_event_loop_def Socket_ctor_def)
  let ?n = "(net sample_acceptor)\<lparr>backlog := [Inr zero_addr]\<rparr>"
  have acc: "sys_accept table_api (socket_fd (acceptSocket sample_acceptor)) (net sample_acceptor) = (Inl EMFILE, ?n)"
    by (simp add: table_api_def sample_acceptor_def event_loop.extend_def)
  have "Socket_accept table_api (acceptSocket sample_acceptor) zero_addr (net sample_acceptor) = Inr (Inl EMFILE, zero_addr, ?n)"
    by (simp add: Socket_accept_def accept_def acc expected_accept_error_def)
  then have run: "acceptor_handleRead table_api (Some (\<lambda>f a s. Inr s)) 1 sample_acceptor = Inr (drop_pending table_api (sample_acceptor\<lparr>net := ?n\<rparr>))"
    using ok(4) by (simp add: acceptor_handleRead_def Let_def)
  have drop: "drop_pending table_api (sample_acceptor\<lparr>net := ?n\<rparr>) =
      sample_acceptor\<lparr>idleFd := 5, net := \<lparr>open_fds = [5, 4, 2, 1, 0], backlog = []\<rparr>\<rparr>"
    by (simp add: drop_pending_def open_idle_def table_api_def table_new_def close_fd_def sample_acceptor_def event_loop.extend_def
        Socket_ctor_def)
  have "table_fds (net (drop_pending table_api (sample_acceptor\<lparr>net := ?n\<rparr>))) =
      (table_fds (net sample_acceptor) - {idleFd sample_acceptor}) \<union> {5}"
    using accept_no_leak [OF table_fd_laws ok run] acc by (simp add: drop)
  moreover have "table_fds (net sample_acceptor) = {4, 3, 2, 1, 0}" "idleFd sample_acceptor = 3"
    by (simp_all add: table_fds_def sample_acceptor_def event_loop.extend_def)
  ultimately have fds: "table_fds (net (drop_pending table_api (sample_acceptor\<lparr>net := ?n\<rparr>))) = {0, 1, 2, 4, 5}" by auto
  have "backlog (net (drop_pending table_api (sample_acceptor\<lparr>net := ?n\<rparr>))) = []" by (simp add: drop)
  from conjI [OF run conjI [OF fds this]] show ?thesis by (rule exI)
qed

end
