(* ===== verification/EventLoopThreadPool.thy ===== *)
theory EventLoopThreadPool
  imports Epoller
begin

text \<open>
  Model of \<^verbatim>\<open>ham/net/EventLoopThreadPool.{h,cc}\<close>: the loops of a server and the choice of the next one.  \<open>inLoop\<close> says
  whether the caller is in the thread of the base loop; \<open>startLoop i\<close> is the loop that the \<open>i\<close>-th started
  thread returns.  The index is an \<^verbatim>\<open>int\<close> that stays below the number of loops.
\<close>

record event_loop_thread_pool =
  baseLoop :: nat
  pool_started :: bool
  numOfThreads :: int
  nextLoopIdx :: int
  loops :: "nat list"

definition EventLoopThreadPool_ctor :: "nat \<Rightarrow> event_loop_thread_pool" where
  "EventLoopThreadPool_ctor base = \<lparr>baseLoop = base, pool_started = False, numOfThreads = 0, nextLoopIdx = 0, loops = []\<rparr>"

definition pool_setNumOfThreads :: "int \<Rightarrow> event_loop_thread_pool \<Rightarrow> event_loop_thread_pool" where
  "pool_setNumOfThreads n p = p\<lparr>numOfThreads := n\<rparr>"

text \<open>The loop over the threads, from number \<open>i\<close> on with \<open>n\<close> to go.\<close>

fun start_threads :: "(nat \<Rightarrow> nat) \<Rightarrow> nat \<Rightarrow> nat \<Rightarrow> event_loop_thread_pool \<Rightarrow> event_loop_thread_pool" where
  "start_threads startLoop i 0 p = p"
| "start_threads startLoop i (Suc n) p = start_threads startLoop (Suc i) n (p\<lparr>loops := loops p @ [startLoop i]\<rparr>)"

text \<open>\<^verbatim>\<open>start\<close> also tells whether the callback was called on the base loop.\<close>

definition pool_start ::
  "(nat \<Rightarrow> nat) \<Rightarrow> bool \<Rightarrow> bool \<Rightarrow> event_loop_thread_pool \<Rightarrow> (bool \<times> event_loop_thread_pool) result" where
  "pool_start startLoop cb inLoop p =
     assert_that (\<not> pool_started p) ''!started_''
     (if \<not> inLoop then abortNotInLoopThread
      else Inr (numOfThreads p = 0 \<and> cb, start_threads startLoop 0 (nat (numOfThreads p)) (p\<lparr>pool_started := True\<rparr>)))"

definition getNextLoop :: "bool \<Rightarrow> event_loop_thread_pool \<Rightarrow> (nat \<times> event_loop_thread_pool) result" where
  "getNextLoop inLoop p =
     (if \<not> inLoop then abortNotInLoopThread
      else if loops p = [] then Inr (baseLoop p, p)
      else if nextLoopIdx p < 0 \<or> int (length (loops p)) \<le> nextLoopIdx p then Inl OutOfBounds
      else let nextLoop = loops p ! nat (nextLoopIdx p); idx = nextLoopIdx p + 1
           in Inr (nextLoop, p\<lparr>nextLoopIdx := (if int (length (loops p)) \<le> idx then 0 else idx)\<rparr>))"

section \<open>Round robin\<close>

text \<open>The pool after \<open>n\<close> choices.\<close>

definition pool_ok :: "nat \<Rightarrow> event_loop_thread_pool \<Rightarrow> bool" where
  "pool_ok n p \<longleftrightarrow> nextLoopIdx p = (if loops p = [] then 0 else int (n mod length (loops p)))"

definition nth_loop :: "event_loop_thread_pool \<Rightarrow> nat \<Rightarrow> nat" where
  "nth_loop p n = (if loops p = [] then baseLoop p else loops p ! (n mod length (loops p)))"

lemma start_threads_loops:
  "start_threads startLoop i n p = p\<lparr>loops := loops p @ map startLoop [i..<i + n]\<rparr>"
proof (induction n arbitrary: i p)
  case 0
  then show ?case by simp
next
  case (Suc n)
  have "[i..<i + Suc n] = i # [Suc i..<Suc i + n]" by (simp add: upt_rec)
  with Suc show ?case by simp
qed

lemma getNextLoop_spec:
  assumes "pool_ok n p"
  obtains p' where "getNextLoop True p = Inr (nth_loop p n, p')" "pool_ok (Suc n) p'"
    "p' = p\<lparr>nextLoopIdx := nextLoopIdx p'\<rparr>"
proof (cases "loops p = []")
  case True
  with assms show ?thesis by (intro that [of p]) (simp_all add: getNextLoop_def nth_loop_def pool_ok_def)
next
  case False
  let ?k = "length (loops p)"
  let ?p = "p\<lparr>nextLoopIdx := (if int ?k \<le> nextLoopIdx p + 1 then 0 else nextLoopIdx p + 1)\<rparr>"
  have k: "0 < ?k" and idx: "nextLoopIdx p = int (n mod ?k)" using False assms by (simp_all add: pool_ok_def)
  have "n mod ?k < ?k" using k by simp
  then have "getNextLoop True p = Inr (nth_loop p n, ?p)"
    using False by (simp add: getNextLoop_def nth_loop_def idx Let_def not_le)
  moreover have "pool_ok (Suc n) ?p"
  proof (cases "Suc (n mod ?k) = ?k")
    case True
    then show ?thesis using False by (simp add: pool_ok_def idx mod_Suc)
  next
    case no: False
    then have "Suc (n mod ?k) < ?k" using k by (simp add: Suc_lessI)
    then show ?thesis using False no by (simp add: pool_ok_def idx mod_Suc)
  qed
  ultimately show ?thesis by (intro that [of ?p]) simp_all
qed

fun take_loops :: "nat \<Rightarrow> event_loop_thread_pool \<Rightarrow> (nat list \<times> event_loop_thread_pool) result" where
  "take_loops 0 p = Inr ([], p)"
| "take_loops (Suc n) p = rbind (getNextLoop True p) (\<lambda>(l, p1). rbind (take_loops n p1) (\<lambda>(ls, p2). Inr (l # ls, p2)))"

lemma take_loops_spec:
  assumes "pool_ok m p"
  obtains p' where "take_loops n p = Inr (map (nth_loop p) [m..<m + n], p')"
  using assms
proof (induction n arbitrary: m p thesis)
  case 0
  then show ?case by simp
next
  case (Suc n)
  obtain p1 where p1: "getNextLoop True p = Inr (nth_loop p m, p1)" "pool_ok (Suc m) p1" "p1 = p\<lparr>nextLoopIdx := nextLoopIdx p1\<rparr>"
    using getNextLoop_spec [OF Suc.prems(2)] by blast
  have "loops p1 = loops p" "baseLoop p1 = baseLoop p" by (subst p1(3), simp)+
  then have "nth_loop p1 = nth_loop p" by (simp add: nth_loop_def fun_eq_iff)
  moreover obtain p2 where "take_loops n p1 = Inr (map (nth_loop p1) [Suc m..<Suc m + n], p2)"
    using Suc.IH [where m = "Suc m" and p = p1] p1(2) by blast
  moreover have "[m..<m + Suc n] = m # [Suc m..<Suc m + n]" by (simp add: upt_rec)
  ultimately show ?case using p1(1) by (intro Suc.prems(1) [of p2]) simp
qed

section \<open>Properties\<close>

text \<open>
  Round robin.  A pool started with \<open>k\<close> threads in the base loop's thread hands out the loops of its threads
  in turn, for ever: the \<open>i\<close>-th request gets the loop of thread \<open>i mod k\<close>; without threads every request
  gets the base loop.  No access to \<^verbatim>\<open>loops_\<close> is out of range.\<close>
theorem getNextLoop_round_robin:
  assumes "0 \<le> k"
  shows "\<exists>p p'. pool_start startLoop cb True (pool_setNumOfThreads k (EventLoopThreadPool_ctor base)) = Inr (k = 0 \<and> cb, p) \<and>
    take_loops n p = Inr (map (\<lambda>i. if k = 0 then base else startLoop (i mod nat k)) [0..<n], p')"
proof -
  let ?p = "(EventLoopThreadPool_ctor base)\<lparr>numOfThreads := k, pool_started := True, loops := map startLoop [0..<nat k]\<rparr>"
  have st: "pool_start startLoop cb True (pool_setNumOfThreads k (EventLoopThreadPool_ctor base)) = Inr (k = 0 \<and> cb, ?p)"
    by (simp add: pool_start_def pool_setNumOfThreads_def EventLoopThreadPool_ctor_def start_threads_loops)
  have "pool_ok 0 ?p" by (simp add: pool_ok_def EventLoopThreadPool_ctor_def)
  then obtain p' where "take_loops n ?p = Inr (map (nth_loop ?p) [0..<0 + n], p')" by (rule take_loops_spec)
  moreover have "nth_loop ?p i = (if k = 0 then base else startLoop (i mod nat k))" for i
    using assms by (auto simp: nth_loop_def EventLoopThreadPool_ctor_def)
  then have "nth_loop ?p = (\<lambda>i. if k = 0 then base else startLoop (i mod nat k))" ..
  ultimately show ?thesis using st by (intro exI [of _ ?p] exI [of _ p']) simp
qed

theorem getNextLoop_round_robin_witness:
  "\<exists>p p'. pool_start (\<lambda>i. 10 + i) True True (pool_setNumOfThreads 2 (EventLoopThreadPool_ctor 7)) = Inr (False, p) \<and>
    take_loops 5 p = Inr ([10, 11, 10, 11, 10], p')"
  using getNextLoop_round_robin [of 2 "\<lambda>i. 10 + i" True 7 5] by (simp add: upt_rec)

end
