(* ===== verification/TcpServer.thy ===== *)
theory TcpServer
  imports Acceptor EventLoopThreadPool
begin

text \<open>
  Model of \<^verbatim>\<open>ham/net/TcpServer.{h,cc}\<close>: the server in its base loop.  The state extends that of the acceptor.
  Connections are objects of a heap \<open>conns\<close>, named by their index; \<open>connections\<close> maps names to
  them.  The calls the server makes on a connection run in the loop of the connection: \<open>posted_tasks\<close> lists,
  in order, what was handed to which loop (a loop runs its functors in the order they are handed
  over).  Host byte order \<open>le\<close> matters for the text of addresses only.
\<close>

datatype server_functor = AcceptorListen | RemoveConnectionInLoop nat

datatype conn_task = EstablishTask nat | DestoryTask nat

fun task_conn :: "conn_task \<Rightarrow> nat" where
  "task_conn (EstablishTask c) = c"
| "task_conn (DestoryTask c) = c"

record ('k, 'n) tcp_server = "('k, server_functor, 'n) acceptor" +
  server_started :: bool
  server_name :: string
  hostPost :: string
  nextConnId :: int
  loopThreadPool :: event_loop_thread_pool
  connections :: "(string, nat) std_map"
  conns :: "conn_info list"
  posted_tasks :: "(nat \<times> conn_task) list"

definition TcpServer_ctor ::
  "'n socket_api \<Rightarrow> bool \<Rightarrow> inet_address \<Rightarrow> string \<Rightarrow> nat \<Rightarrow> ('k, server_functor) event_loop \<Rightarrow> 'n \<Rightarrow>
   ('k, 'n) tcp_server result" where
  "TcpServer_ctor sys le listenAddr nm ch l n =
     rbind (Acceptor_ctor sys listenAddr True ch l n) (\<lambda>a. Inr (acceptor.extend a
       \<lparr>server_started = False, server_name = nm, hostPost = getIpPortStr le listenAddr, nextConnId = 1,
        loopThreadPool = EventLoopThreadPool_ctor (this_loop l), connections = [], conns = [], posted_tasks = []\<rparr>))"

definition setNumOfThreads :: "int \<Rightarrow> ('k, 'n) tcp_server \<Rightarrow> ('k, 'n) tcp_server result" where
  "setNumOfThreads n s =
     assert_that (0 \<le> n) ''numOfThreads >= 0'' (Inr (s\<lparr>loopThreadPool := pool_setNumOfThreads n (loopThreadPool s)\<rparr>))"

definition server_start ::
  "'k epoll_ctl_fn \<Rightarrow> 'n socket_api \<Rightarrow> (nat \<Rightarrow> nat) \<Rightarrow> bool \<Rightarrow> int \<Rightarrow> ('k, 'n) tcp_server \<Rightarrow> ('k, 'n) tcp_server result" where
  "server_start epoll_ctl sys startLoop threadInitCallback tid s =
     (let s1 = (if \<not> server_started s then s\<lparr>server_started := True\<rparr> else s) in
      rbind (pool_start startLoop threadInitCallback (isInLoopThread tid s1) (loopThreadPool s1)) (\<lambda>(called, p).
        let s2 = s1\<lparr>loopThreadPool := p\<rparr> in
        if \<not> listening s2 then runInLoop (\<lambda>f. acceptor_listen epoll_ctl sys tid) tid AcceptorListen s2 else Inr s2))"

definition newConnectionCallback ::
  "'n socket_api \<Rightarrow> int \<Rightarrow> int \<Rightarrow> inet_address \<Rightarrow> ('k, 'n) tcp_server \<Rightarrow> ('k, 'n) tcp_server result" where
  "newConnectionCallback sys tid connfd peerAddr s =
     assertInLoopThread tid s
     (rbind (getNextLoop (isInLoopThread tid s) (loopThreadPool s)) (\<lambda>(nextIoLoop, p).
        let nm = hostPost s @ ''#'' @ to_string_int (nextConnId s);
            localAddr = getLocalAddr sys connfd (net s);
            conn = length (conns s);
            s1 = s\<lparr>loopThreadPool := p, nextConnId := nextConnId s + 1,
                   conns := conns s @ [\<lparr>info_name = nm, info_loop = nextIoLoop, info_fd = connfd,
                                        info_local = localAddr, info_peer = peerAddr\<rparr>],
                   connections := map_set nm conn (connections s)\<rparr>
        in Inr (s1\<lparr>posted_tasks := posted_tasks s1 @ [(nextIoLoop, EstablishTask conn)]\<rparr>)))"

definition removeConnectionInLoop :: "int \<Rightarrow> nat \<Rightarrow> ('k, 'n) tcp_server \<Rightarrow> ('k, 'n) tcp_server result" where
  "removeConnectionInLoop tid conn s =
     assertInLoopThread tid s
     (if length (conns s) \<le> conn then Inl NullDereference
      else let c = conns s ! conn;
               s1 = s\<lparr>connections := map_erase (info_name c) (connections s)\<rparr>;
               ioLoop = info_loop c
           in Inr (s1\<lparr>posted_tasks := posted_tasks s1 @ [(ioLoop, DestoryTask conn)]\<rparr>))"

definition removeConnection :: "int \<Rightarrow> nat \<Rightarrow> ('k, 'n) tcp_server \<Rightarrow> ('k, 'n) tcp_server result" where
  "removeConnection tid conn s = runInLoop (\<lambda>f. removeConnectionInLoop tid conn) tid (RemoveConnectionInLoop conn) s"

text \<open>
  The destructor calls \<^verbatim>\<open>destoryConnection\<close> on every connection, in the calling thread; that call aborts unless the
  thread is that of the connection's loop.
\<close>

definition destroy_from :: "int \<Rightarrow> nat \<Rightarrow> ('k, 'n) tcp_server \<Rightarrow> ('k, 'n) tcp_server result" where
  "destroy_from tid conn s =
     (if length (conns s) \<le> conn then Inl NullDereference
      else let l = info_loop (conns s ! conn) in
           if l = this_loop s \<and> isInLoopThread tid s
           then Inr (s\<lparr>posted_tasks := posted_tasks s @ [(l, DestoryTask conn)]\<rparr>) else abortNotInLoopThread)"

definition TcpServer_dtor :: "int \<Rightarrow> ('k, 'n) tcp_server \<Rightarrow> ('k, 'n) tcp_server result" where
  "TcpServer_dtor tid s = rfold (destroy_from tid) (map snd (connections s)) s"

text \<open>The functors of the base loop.\<close>

fun run_server_functor ::
  "'k epoll_ctl_fn \<Rightarrow> 'n socket_api \<Rightarrow> int \<Rightarrow> server_functor \<Rightarrow> ('k, 'n) tcp_server \<Rightarrow> ('k, 'n) tcp_server result" where
  "run_server_functor epoll_ctl sys tid AcceptorListen s = acceptor_listen epoll_ctl sys tid s"
| "run_server_functor epoll_ctl sys tid (RemoveConnectionInLoop c) s = removeConnectionInLoop tid c s"

section \<open>The server over time\<close>

text \<open>
  The steps of a running server: the base loop accepts a connection; a connection, in whatever thread \<open>t\<close>,
  reports its end (nothing in the server keeps it from doing so more than once); the base loop runs the
  oldest removal handed to it.  Each step carries the reports made in it, and a run their list.  The
  connection counter is an \<^verbatim>\<open>int\<close>, so at most \<open>2 ^ 31 - 2\<close> connections are counted.
\<close>

definition destroyed :: "nat \<Rightarrow> ('k, 'n) tcp_server \<Rightarrow> bool" where
  "destroyed c s \<longleftrightarrow> DestoryTask c \<in> snd ` set (posted_tasks s)"

inductive server_step :: "'n socket_api \<Rightarrow> int \<Rightarrow> nat list \<Rightarrow> ('k, 'n) tcp_server \<Rightarrow> ('k, 'n) tcp_server \<Rightarrow> bool" for sys tid where
  server_accept: "nextConnId s < 2 ^ 31 - 1 \<Longrightarrow> newConnectionCallback sys tid f a s = Inr s' \<Longrightarrow> server_step sys tid [] s s'"
| server_close: "c < length (conns s) \<Longrightarrow> removeConnection t c s = Inr s' \<Longrightarrow> server_step sys tid [c] s s'"
| server_functor: "pendingFunctors s = RemoveConnectionInLoop c # fs \<Longrightarrow>
     removeConnectionInLoop tid c (s\<lparr>pendingFunctors := fs\<rparr>) = Inr s' \<Longrightarrow> server_step sys tid [] s s'"

inductive server_run :: "'n socket_api \<Rightarrow> int \<Rightarrow> ('k, 'n) tcp_server \<Rightarrow> nat list \<Rightarrow> ('k, 'n) tcp_server \<Rightarrow> bool" for sys tid where
  run_start: "server_run sys tid s [] s"
| run_more: "server_run sys tid s reports s1 \<Longrightarrow> server_step sys tid reported s1 s2 \<Longrightarrow> server_run sys tid s (reports @ reported) s2"

text \<open>The tasks of one connection, in order.\<close>

definition tasks_of :: "nat \<Rightarrow> ('k, 'n) tcp_server \<Rightarrow> (nat \<times> conn_task) list" where
  "tasks_of c s = filter (\<lambda>x. task_conn (snd x) = c) (posted_tasks s)"

text \<open>How often a connection was handed its destruction.\<close>

definition destructions :: "nat \<Rightarrow> ('k, 'n) tcp_server \<Rightarrow> nat" where
  "destructions c s = count_list (map snd (posted_tasks s)) (DestoryTask c)"

lemma destroyed_iff: "destroyed c s \<longleftrightarrow> destructions c s \<noteq> 0"
  by (auto simp: destroyed_def destructions_def count_list_0_iff)

definition conn_name :: "('k, 'n) tcp_server \<Rightarrow> nat \<Rightarrow> string" where
  "conn_name s c = hostPost s @ ''#'' @ to_string_nat (c + 1)"

text \<open>The parts of the invariant: the connections made so far, the map of names and the removals under way.\<close>

definition conns_ok :: "('k, 'n) tcp_server \<Rightarrow> bool" where
  "conns_ok s \<longleftrightarrow> (\<forall>c < length (conns s). info_name (conns s ! c) = conn_name s c \<and> info_loop (conns s ! c) = nth_loop (loopThreadPool s) c \<and>
        tasks_of c s = (info_loop (conns s ! c), EstablishTask c) # replicate (destructions c s) (info_loop (conns s ! c), DestoryTask c))"

definition names_ok :: "('k, 'n) tcp_server \<Rightarrow> bool" where
  "names_ok s \<longleftrightarrow> (\<forall>nm c. map_of (connections s) nm = Some c \<longleftrightarrow> c < length (conns s) \<and> nm = conn_name s c \<and> \<not> destroyed c s)"

definition pending_ok :: "('k, 'n) tcp_server \<Rightarrow> bool" where
  "pending_ok s \<longleftrightarrow> (\<forall>c. RemoveConnectionInLoop c \<in> set (pendingFunctors s) \<longrightarrow> c < length (conns s))"

text \<open>Every report was followed by a destruction or is still waiting for one.\<close>

definition reports_ok :: "nat list \<Rightarrow> ('k, 'n) tcp_server \<Rightarrow> bool" where
  "reports_ok reports s \<longleftrightarrow>
     (\<forall>c. count_list reports c = destructions c s + count_list (pendingFunctors s) (RemoveConnectionInLoop c))"

definition server_inv :: "int \<Rightarrow> ('k, 'n) tcp_server \<Rightarrow> bool" where
  "server_inv tid s \<longleftrightarrow> threadId s = tid \<and> nextConnId s = int (length (conns s)) + 1 \<and>
     pool_ok (length (conns s)) (loopThreadPool s) \<and> map_ok (connections s) \<and>
     conns_ok s \<and> names_ok s \<and> (\<forall>x \<in> set (posted_tasks s). task_conn (snd x) < length (conns s)) \<and> pending_ok s"

lemma conn_name_inj: "conn_name s c = conn_name s d \<Longrightarrow> c = d"
  using to_string_nat_inj by (auto simp: conn_name_def)


lemma server_invD:
  assumes "server_inv tid s" and "c < length (conns s)"
  shows "info_name (conns s ! c) = conn_name s c" "info_loop (conns s ! c) = nth_loop (loopThreadPool s) c"
    "tasks_of c s = (info_loop (conns s ! c), EstablishTask c) # replicate (destructions c s) (info_loop (conns s ! c), DestoryTask c)"
  using assms by (auto simp: server_inv_def conns_ok_def)

lemma nth_loop_idx [simp]: "nth_loop (p\<lparr>nextLoopIdx := i\<rparr>) = nth_loop p"
  by (simp add: nth_loop_def fun_eq_iff)

lemma newConnectionCallback_inv:
  assumes inv: "server_inv tid s"
  obtains s' where "newConnectionCallback sys tid f a s = Inr s'" "server_inv tid s'" "reports_ok rs s' = reports_ok rs s"
    "conns s' = conns s @ [\<lparr>info_name = conn_name s (length (conns s)), info_loop = nth_loop (loopThreadPool s) (length (conns s)),
       info_fd = f, info_local = getLocalAddr sys f (net s), info_peer = a\<rparr>]"
proof -
  let ?k = "length (conns s)"
  note i = inv [unfolded server_inv_def names_ok_def pending_ok_def]
  obtain p where p: "getNextLoop True (loopThreadPool s) = Inr (nth_loop (loopThreadPool s) ?k, p)" "pool_ok (Suc ?k) p"
    "p = (loopThreadPool s)\<lparr>nextLoopIdx := nextLoopIdx p\<rparr>"
    using getNextLoop_spec [of ?k "loopThreadPool s"] i by blast
  have np: "nth_loop p = nth_loop (loopThreadPool s)" by (subst p(3)) simp
  let ?l = "nth_loop (loopThreadPool s) ?k"
  let ?info = "\<lparr>info_name = conn_name s ?k, info_loop = ?l, info_fd = f, info_local = getLocalAddr sys f (net s), info_peer = a\<rparr>"
  let ?s = "s\<lparr>loopThreadPool := p, nextConnId := nextConnId s + 1, conns := conns s @ [?info],
      connections := map_set (conn_name s ?k) ?k (connections s), posted_tasks := posted_tasks s @ [(?l, EstablishTask ?k)]\<rparr>"
  have nm: "hostPost s @ ''#'' @ to_string_int (nextConnId s) = conn_name s ?k"
    using i by (simp add: conn_name_def to_string_int_def nat_add_distrib)
  have run: "newConnectionCallback sys tid f a s = Inr ?s"
    using p(1) i nm by (simp add: newConnectionCallback_def isInLoopThread_def Let_def)
  have name: "conn_name ?s = conn_name s" by (simp add: conn_name_def fun_eq_iff)
  have b: "\<forall>x \<in> set (posted_tasks s). task_conn (snd x) < ?k" using i by blast
  then have new: "\<not> destroyed ?k s" "tasks_of ?k s = []"
    by (fastforce simp: destroyed_def, auto simp: tasks_of_def filter_empty_conv)
  have dest: "destroyed c ?s = destroyed c s" "destructions c ?s = destructions c s" for c by (auto simp: destroyed_def destructions_def)
  have tasks: "tasks_of c ?s = tasks_of c s @ (if c = ?k then [(?l, EstablishTask ?k)] else [])" for c by (simp add: tasks_of_def)
  have conns: "\<forall>c < length (conns ?s). info_name (conns ?s ! c) = conn_name ?s c \<and> info_loop (conns ?s ! c) = nth_loop (loopThreadPool ?s) c \<and>
      tasks_of c ?s = (info_loop (conns ?s ! c), EstablishTask c) # replicate (destructions c ?s) (info_loop (conns ?s ! c), DestoryTask c)"
  proof (intro allI impI)
    fix c assume "c < length (conns ?s)"
    then consider "c < ?k" | "c = ?k" by fastforce
    then show "info_name (conns ?s ! c) = conn_name ?s c \<and> info_loop (conns ?s ! c) = nth_loop (loopThreadPool ?s) c \<and>
        tasks_of c ?s = (info_loop (conns ?s ! c), EstablishTask c) # replicate (destructions c ?s) (info_loop (conns ?s ! c), DestoryTask c)"
    proof cases
      case 1
      then show ?thesis using server_invD [OF inv 1] unfolding tasks dest name by (simp add: np nth_append)
    next
      case 2
      then show ?thesis using new unfolding tasks dest name by (simp add: np destroyed_iff)
    qed
  qed
  have names: "map_of (connections ?s) nm = Some c \<longleftrightarrow> c < length (conns ?s) \<and> nm = conn_name ?s c \<and> \<not> destroyed c ?s" for nm c
  proof -
    have "map_of (connections s) nm = Some c \<longleftrightarrow> c < ?k \<and> nm = conn_name s c \<and> \<not> destroyed c s" using i by blast
    then show ?thesis using new unfolding dest name by (auto simp: map_of_map_set less_Suc_eq dest: conn_name_inj)
  qed
  have "conns_ok ?s" "names_ok ?s" using conns names unfolding conns_ok_def names_ok_def by blast+
  moreover have "pending_ok ?s" using i unfolding pending_ok_def by (auto simp: less_Suc_eq)
  ultimately have "server_inv tid ?s"
    unfolding server_inv_def using i p(2) b by (simp add: map_ok_set less_Suc_eq)
  moreover have "reports_ok rs ?s = reports_ok rs s" by (simp add: reports_ok_def destructions_def)
  ultimately show ?thesis using run that by simp
qed

lemma removeConnectionInLoop_inv:
  assumes inv: "server_inv tid s" and c: "c < length (conns s)"
  obtains s' where "removeConnectionInLoop tid c s = Inr s'" "server_inv tid s'"
    "\<forall>d. destructions d s' = destructions d s + (if d = c then 1 else 0)" "pendingFunctors s' = pendingFunctors s"
proof -
  note i = inv [unfolded server_inv_def names_ok_def pending_ok_def]
  let ?l = "info_loop (conns s ! c)"
  let ?s = "s\<lparr>connections := map_erase (info_name (conns s ! c)) (connections s),
      posted_tasks := posted_tasks s @ [(?l, DestoryTask c)]\<rparr>"
  have run: "removeConnectionInLoop tid c s = Inr ?s"
    using i c by (simp add: removeConnectionInLoop_def Let_def)
  have name: "conn_name ?s = conn_name s" by (simp add: conn_name_def fun_eq_iff)
  have dest: "destroyed d ?s = (d = c \<or> destroyed d s)" "destructions d ?s = destructions d s + (if d = c then 1 else 0)" for d
    by (auto simp: destroyed_def destructions_def)
  have tasks: "tasks_of d ?s = tasks_of d s @ (if d = c then [(?l, DestoryTask c)] else [])" for d by (simp add: tasks_of_def)
  have conns: "\<forall>d < length (conns ?s). info_name (conns ?s ! d) = conn_name ?s d \<and> info_loop (conns ?s ! d) = nth_loop (loopThreadPool ?s) d \<and>
      tasks_of d ?s = (info_loop (conns ?s ! d), EstablishTask d) # replicate (destructions d ?s) (info_loop (conns ?s ! d), DestoryTask d)"
    using server_invD [OF inv] unfolding tasks dest name by (auto simp: replicate_append_same)
  have names: "map_of (connections ?s) nm = Some d \<longleftrightarrow> d < length (conns ?s) \<and> nm = conn_name ?s d \<and> \<not> destroyed d ?s" for nm d
  proof -
    have "map_of (connections s) nm = Some d \<longleftrightarrow> d < length (conns s) \<and> nm = conn_name s d \<and> \<not> destroyed d s"
      "info_name (conns s ! c) = conn_name s c" "map_ok (connections s)"
      using i server_invD(1) [OF inv c] by simp_all
    then show ?thesis unfolding dest name by (auto simp: map_of_map_erase dest: conn_name_inj)
  qed
  have "conns_ok ?s" "names_ok ?s" using conns names unfolding conns_ok_def names_ok_def by blast+
  moreover have "pending_ok ?s" using i unfolding pending_ok_def by auto
  moreover have "\<forall>x \<in> set (posted_tasks ?s). task_conn (snd x) < length (conns ?s)" using i c by simp
  ultimately have "server_inv tid ?s"
    unfolding server_inv_def using i by (simp add: map_ok_erase)
  with run dest(2) show ?thesis by (intro that [of ?s]) simp_all
qed

lemma server_inv_pending:
  assumes "server_inv tid s" and "\<And>c. RemoveConnectionInLoop c \<in> set fs \<Longrightarrow> c < length (conns s)"
  shows "server_inv tid (s\<lparr>pendingFunctors := fs, wakeupCount := w\<rparr>)" "server_inv tid (s\<lparr>pendingFunctors := fs\<rparr>)"
proof -
  have "conns_ok (s\<lparr>pendingFunctors := fs, wakeupCount := w\<rparr>) = conns_ok s" "conns_ok (s\<lparr>pendingFunctors := fs\<rparr>) = conns_ok s"
    "names_ok (s\<lparr>pendingFunctors := fs, wakeupCount := w\<rparr>) = names_ok s" "names_ok (s\<lparr>pendingFunctors := fs\<rparr>) = names_ok s"
    by (simp_all add: conns_ok_def names_ok_def destroyed_def destructions_def tasks_of_def conn_name_def)
  then show "server_inv tid (s\<lparr>pendingFunctors := fs, wakeupCount := w\<rparr>)" "server_inv tid (s\<lparr>pendingFunctors := fs\<rparr>)"
    using assms unfolding server_inv_def pending_ok_def by simp_all
qed

lemma removeConnection_inv:
  assumes inv: "server_inv tid s" and c: "c < length (conns s)" and rep: "reports_ok rs s"
  obtains s' where "removeConnection t c s = Inr s'" "server_inv tid s'" "reports_ok (rs @ [c]) s'"
proof (cases "t = tid")
  case True
  have "threadId s = tid" using inv by (simp add: server_inv_def)
  with True have eq: "removeConnection t c s = removeConnectionInLoop tid c s"
    by (simp add: removeConnection_def runInLoop_def isInLoopThread_def)
  obtain s' where s': "removeConnectionInLoop tid c s = Inr s'" "server_inv tid s'"
    "\<forall>d. destructions d s' = destructions d s + (if d = c then 1 else 0)" "pendingFunctors s' = pendingFunctors s"
    by (rule removeConnectionInLoop_inv [OF inv c])
  have "reports_ok (rs @ [c]) s'" using rep s'(3,4) by (simp add: reports_ok_def)
  with eq s'(1,2) that show ?thesis by simp
next
  case False
  have i: "threadId s = tid" "\<And>d. RemoveConnectionInLoop d \<in> set (pendingFunctors s) \<Longrightarrow> d < length (conns s)"
    using inv by (simp_all add: server_inv_def pending_ok_def)
  let ?s = "s\<lparr>pendingFunctors := pendingFunctors s @ [RemoveConnectionInLoop c], wakeupCount := wakeupCount s + 1\<rparr>"
  have "removeConnection t c s = Inr ?s"
    using False i(1) by (simp add: removeConnection_def runInLoop_def isInLoopThread_def queueInLoop_def push_functor_def wakeup_def Let_def)
  moreover have "server_inv tid ?s" by (rule server_inv_pending(1) [OF inv]) (use i c in auto)
  moreover have "reports_ok (rs @ [c]) ?s" using rep by (auto simp: reports_ok_def destructions_def)
  ultimately show ?thesis using that by blast
qed

lemma server_inv_step:
  assumes "server_step sys tid reported s s'" and inv: "server_inv tid s" and rep: "reports_ok rs s"
  shows "server_inv tid s' \<and> reports_ok (rs @ reported) s'"
  using assms(1)
proof cases
  case (server_accept f a)
  then show ?thesis using newConnectionCallback_inv [OF inv, of sys f a rs] rep by auto
next
  case (server_close c t)
  then show ?thesis using removeConnection_inv [OF inv _ rep, of c t] by auto
next
  case (server_functor c fs)
  let ?s = "s\<lparr>pendingFunctors := fs\<rparr>"
  have i: "c < length (conns s)" "\<And>d. RemoveConnectionInLoop d \<in> set fs \<Longrightarrow> d < length (conns s)"
    using inv server_functor(2) by (auto simp: server_inv_def pending_ok_def)
  have inv': "server_inv tid ?s" by (rule server_inv_pending(2) [OF inv i(2)])
  have c: "c < length (conns ?s)" using i(1) by simp
  obtain r where r: "removeConnectionInLoop tid c ?s = Inr r" "server_inv tid r"
    "\<forall>d. destructions d r = destructions d ?s + (if d = c then 1 else 0)" "pendingFunctors r = fs"
    using removeConnectionInLoop_inv [OF inv' c] by auto
  have "reports_ok rs r"
    unfolding reports_ok_def
  proof
    fix d
    have "count_list rs d = destructions d s + count_list (pendingFunctors s) (RemoveConnectionInLoop d)"
      using rep by (simp add: reports_ok_def)
    then show "count_list rs d = destructions d r + count_list (pendingFunctors r) (RemoveConnectionInLoop d)"
      using r(3) [rule_format, of d] r(4) server_functor(2) by (simp add: destructions_def)
  qed
  with r(1,2) server_functor show ?thesis by simp
qed

lemma server_inv_run:
  assumes "server_run sys tid s reports s'" and "server_inv tid s" and "reports_ok [] s"
  shows "server_inv tid s' \<and> reports_ok reports s'"
  using assms
proof (induction rule: server_run.induct)
  case (run_start s)
  then show ?case by simp
next
  case (run_more s reports s1 reported s2)
  then show ?case using server_inv_step by blast
qed


section \<open>Destruction and restart\<close>

definition live :: "('k, 'n) tcp_server \<Rightarrow> nat list" where
  "live s = map snd (connections s)"

lemma destroy_all:
  assumes "threadId s = tid" and "\<forall>c \<in> set cs. c < length (conns s)"
  shows "rfold (destroy_from tid) cs s =
    (if \<forall>c \<in> set cs. info_loop (conns s ! c) = this_loop s
     then Inr (s\<lparr>posted_tasks := posted_tasks s @ map (\<lambda>c. (this_loop s, DestoryTask c)) cs\<rparr>) else abortNotInLoopThread)"
  using assms
proof (induction cs arbitrary: s)
  case Nil
  then show ?case by simp
next
  case (Cons c cs)
  let ?s1 = "s\<lparr>posted_tasks := posted_tasks s @ [(this_loop s, DestoryTask c)]\<rparr>"
  show ?case
  proof (cases "info_loop (conns s ! c) = this_loop s")
    case True
    then have "destroy_from tid c s = Inr ?s1" using Cons.prems by (simp add: destroy_from_def isInLoopThread_def)
    then show ?thesis using Cons.IH [of ?s1] Cons.prems True by simp
  next
    case False
    then show ?thesis using Cons.prems by (simp add: destroy_from_def Let_def abortNotInLoopThread_def)
  qed
qed

lemma live_bound:
  assumes "server_inv tid s"
  shows "\<forall>c \<in> set (live s). c < length (conns s)"
proof
  fix c assume "c \<in> set (live s)"
  then obtain nm where "(nm, c) \<in> set (connections s)" by (auto simp: live_def)
  moreover have "map_ok (connections s)" "names_ok s" using assms by (simp_all add: server_inv_def)
  ultimately have "map_of (connections s) nm = Some c" by (simp add: map_of_set_iff)
  with \<open>names_ok s\<close> show "c < length (conns s)" unfolding names_ok_def by blast
qed

section \<open>Properties\<close>

text \<open>A server that has not accepted anything yet.\<close>

definition server_fresh :: "int \<Rightarrow> ('k, 'n) tcp_server \<Rightarrow> bool" where
  "server_fresh tid s \<longleftrightarrow> threadId s = tid \<and> nextConnId s = 1 \<and> nextLoopIdx (loopThreadPool s) = 0 \<and> connections s = [] \<and>
     conns s = [] \<and> posted_tasks s = [] \<and> pendingFunctors s = []"

lemma server_inv_fresh: "server_fresh tid s \<Longrightarrow> server_inv tid s" "server_fresh tid s \<Longrightarrow> reports_ok [] s"
  by (simp_all add: server_fresh_def server_inv_def pool_ok_def conns_ok_def names_ok_def pending_ok_def reports_ok_def destructions_def)

text \<open>
  C6.  The books of a server.  After any run of accepted connections, reports of closed connections (from any
  thread, any number of times) and removals: the \<open>c\<close>-th connection has the name made of the address and
  the number \<open>c + 1\<close>, so all names differ, and was given to the loops in turn; what the server has handed
  to the connection's own loop is one \<^verbatim>\<open>establishConnection\<close> and after it one \<^verbatim>\<open>destoryConnection\<close> for each
  report whose removal has run, the others being queued in the base loop (so at most one if the connection
  reported its end at most once); and \<^verbatim>\<open>connections_\<close> holds exactly the connections that have not been
  handed their destruction, under their names.\<close>
theorem server_books:
  assumes "server_fresh tid s0" and "server_run sys tid s0 reports s"
  shows "(\<forall>c < length (conns s). info_name (conns s ! c) = conn_name s c \<and>
        info_loop (conns s ! c) = nth_loop (loopThreadPool s) c \<and>
        (\<exists>n. tasks_of c s = (info_loop (conns s ! c), EstablishTask c) # replicate n (info_loop (conns s ! c), DestoryTask c) \<and>
           n + count_list (pendingFunctors s) (RemoveConnectionInLoop c) = count_list reports c \<and>
           (destroyed c s \<longleftrightarrow> n \<noteq> 0))) \<and>
    (\<forall>nm c. map_of (connections s) nm = Some c \<longleftrightarrow> c < length (conns s) \<and> nm = conn_name s c \<and> \<not> destroyed c s) \<and>
    inj (conn_name s)"
proof -
  have inv: "server_inv tid s" "reports_ok reports s"
    using server_inv_run [OF assms(2)] server_inv_fresh [OF assms(1)] by blast+
  moreover have "inj (conn_name s)" by (rule injI) (rule conn_name_inj)
  moreover have "\<exists>n. tasks_of c s = (info_loop (conns s ! c), EstablishTask c) # replicate n (info_loop (conns s ! c), DestoryTask c) \<and>
      n + count_list (pendingFunctors s) (RemoveConnectionInLoop c) = count_list reports c \<and> (destroyed c s \<longleftrightarrow> n \<noteq> 0)"
    if "c < length (conns s)" for c
    using server_invD(3) [OF inv(1) that] inv(2) by (intro exI [of _ "destructions c s"]) (simp add: reports_ok_def destroyed_iff)
  ultimately show ?thesis by (simp add: server_inv_def conns_ok_def names_ok_def)
qed

definition sample_server :: "(unit, table_net) tcp_server" where
  "sample_server = acceptor.extend (event_loop.extend (new_event_loop 1 7 (3, 30) (4, 40) ())
     \<lparr>listening = True, idleFd = 3, acceptSocket = Socket_ctor 4, acceptChannel = 6, net = \<lparr>open_fds = [4, 3, 2, 1, 0], backlog = []\<rparr>\<rparr>)
     \<lparr>server_started = True, server_name = ''echo'', hostPost = ''0.0.0.0:80'', nextConnId = 1,
      loopThreadPool = (EventLoopThreadPool_ctor 7)\<lparr>pool_started := True, numOfThreads := 2, loops := [8, 9]\<rparr>,
      connections = [], conns = [], posted_tasks = []\<rparr>"

lemma sample_server_fresh: "server_fresh 1 sample_server"
  by (simp add: server_fresh_def sample_server_def acceptor.extend_def event_loop.extend_def new_event_loop_def EventLoopThreadPool_ctor_def)

lemma sample_accept:
  obtains s where "server_run table_api 1 sample_server [] s" "length (conns s) = 1" "server_inv 1 s" "info_loop (conns s ! 0) = 8"
    "this_loop s = 7" "\<not> destroyed 0 s"
proof -
  obtain s where s: "newConnectionCallback table_api 1 5 zero_addr sample_server = Inr s" "server_inv 1 s"
    "conns s = conns sample_server @ [\<lparr>info_name = conn_name sample_server (length (conns sample_server)),
       info_loop = nth_loop (loopThreadPool sample_server) (length (conns sample_server)),
       info_fd = 5, info_local = getLocalAddr table_api 5 (net sample_server), info_peer = zero_addr\<rparr>]"
    by (rule newConnectionCallback_inv [OF server_inv_fresh(1) [OF sample_server_fresh]])
  have "server_step table_api 1 [] sample_server s" by (rule server_accept [OF _ s(1)]) (simp add: sample_server_def acceptor.extend_def)
  then have "server_run table_api 1 sample_server [] s" using run_more [OF run_start] by fastforce
  moreover have "length (conns s) = 1" "info_loop (conns s ! 0) = 8"
    by (simp_all add: s(3)) (simp_all add: sample_server_def acceptor.extend_def nth_loop_def EventLoopThreadPool_ctor_def)
  moreover have "this_loop s = 7" "\<not> destroyed 0 s"
    using s(1) by (auto simp: newConnectionCallback_def isInLoopThread_def assertInLoopThread_def getNextLoop_def Let_def destroyed_def
        sample_server_def acceptor.extend_def event_loop.extend_def new_event_loop_def EventLoopThreadPool_ctor_def)
  ultimately show ?thesis using s(2) that by blast
qed

text \<open>One connection, which reports its end in the base loop's thread.\<close>

theorem server_books_witness:
  "\<exists>s. server_run table_api 1 sample_server [0] s \<and> length (conns s) = 1 \<and>
     tasks_of 0 s = [(info_loop (conns s ! 0), EstablishTask 0), (info_loop (conns s ! 0), DestoryTask 0)] \<and>
     map_of (connections s) (conn_name s 0) \<noteq> Some 0"
proof -
  obtain s where s: "server_run table_api 1 sample_server [] s" "length (conns s) = 1" "server_inv 1 s"
    by (rule sample_accept)
  have "0 < length (conns s)" using s(2) by simp
  then obtain s' where s': "removeConnectionInLoop 1 0 s = Inr s'" "pendingFunctors s' = pendingFunctors s"
    by (rule removeConnectionInLoop_inv [OF s(3)]) blast
  have th: "threadId s = 1" using s(3) by (simp add: server_inv_def)
  then have "removeConnection 1 0 s = Inr s'" using s'(1) by (simp add: removeConnection_def runInLoop_def isInLoopThread_def)
  then have run: "server_run table_api 1 sample_server [0] s'" using run_more [OF s(1) server_close, of 0] s(2) by simp
  have one: "length (conns s') = 1" using s'(1) s(2) th by (auto simp: removeConnectionInLoop_def Let_def)
  have "reports_ok [] s" using server_inv_run [OF s(1)] server_inv_fresh [OF sample_server_fresh] by blast
  then have "count_list (pendingFunctors s') (RemoveConnectionInLoop 0) = 0" using s'(2) by (simp add: reports_ok_def)
  with server_books [OF sample_server_fresh run] one run show ?thesis by auto
qed

text \<open>
  Destruction of the server.  The destructor destroys the live connections itself.  It succeeds, and destroys each of
  them once, exactly if all of them belong to the base loop; with one in the loop of another thread the
  process is aborted, since \<^verbatim>\<open>destoryConnection\<close> must run in the thread of its loop.\<close>
theorem server_dtor:
  assumes "server_inv tid s"
  shows "TcpServer_dtor tid s =
    (if \<forall>c \<in> set (live s). info_loop (conns s ! c) = this_loop s
     then Inr (s\<lparr>posted_tasks := posted_tasks s @ map (\<lambda>c. (this_loop s, DestoryTask c)) (live s)\<rparr>) else abortNotInLoopThread)"
  unfolding TcpServer_dtor_def live_def [symmetric]
  by (rule destroy_all) (use assms live_bound [OF assms] in \<open>simp_all add: server_inv_def\<close>)

theorem server_dtor_witness: "\<exists>s. server_run table_api 1 sample_server [] s \<and> TcpServer_dtor 1 s = abortNotInLoopThread"
proof -
  obtain s where s: "server_run table_api 1 sample_server [] s" "length (conns s) = 1" "server_inv 1 s" "info_loop (conns s ! 0) = 8"
    "this_loop s = 7" "\<not> destroyed 0 s"
    by (rule sample_accept)
  have "names_ok s" using s(3) by (simp add: server_inv_def)
  then have "map_of (connections s) (conn_name s 0) = Some 0" using s(2,6) by (simp add: names_ok_def)
  then have "0 \<in> set (live s)" by (auto simp: live_def dest!: map_of_SomeD intro: image_eqI [rotated])
  then have "\<not> (\<forall>c \<in> set (live s). info_loop (conns s ! c) = this_loop s)" using s(4,5) by force
  then have "TcpServer_dtor 1 s = abortNotInLoopThread" unfolding server_dtor [OF s(3)] by (rule if_not_P)
  with s(1) show ?thesis by blast
qed

text \<open>
  A server can be started once.  If \<^verbatim>\<open>start()\<close> succeeds, a second \<^verbatim>\<open>start()\<close> on the same server fails the
  assertion \<^verbatim>\<open>!started_\<close> of the pool, in spite of the flag the server keeps.\<close>
theorem second_start_fails:
  assumes "server_start epoll_ctl sys startLoop cb tid s = Inr s1"
  shows "server_start epoll_ctl sys startLoop' cb' tid s1 = Inl (AssertFailed ''!started_'')"
proof -
  define s0 where "s0 = (if \<not> server_started s then s\<lparr>server_started := True\<rparr> else s)"
  obtain called p where p: "pool_start startLoop cb (isInLoopThread tid s0) (loopThreadPool s0) = Inr (called, p)"
    "(if \<not> listening s0 then runInLoop (\<lambda>f. acceptor_listen epoll_ctl sys tid) tid AcceptorListen (s0\<lparr>loopThreadPool := p\<rparr>)
      else Inr (s0\<lparr>loopThreadPool := p\<rparr>)) = Inr s1"
    using assms by (auto simp: server_start_def rbind_eq_Inr Let_def simp flip: s0_def)
  have ps: "pool_started p" using p(1) by (auto simp: pool_start_def assert_that_eq_Inr abortNotInLoopThread_def start_threads_loops split: if_splits)
  have more: "loopThreadPool s' = loopThreadPool t" if "epoller.more s' = epoller.more t" for s' t :: "('a, 'b) tcp_server"
    using loop_fields(8) [OF that] by (cases s'; cases t) simp
  have "loopThreadPool s1 = p"
    using p(2) by (auto simp: runInLoop_def acceptor_listen_def assertInLoopThread_def abortNotInLoopThread_def enableReading_def
        queueInLoop_def push_functor_def wakeup_def Let_def dest!: with_update_more more split: if_splits)
  with ps show ?thesis by (simp add: server_start_def pool_start_def Let_def)
qed

theorem second_start_fails_witness:
  "\<exists>s1. server_start (\<lambda>op fd ev ch k. (True, k)) table_api (\<lambda>i. 8 + i) False 1
       (sample_server\<lparr>server_started := False, loopThreadPool := pool_setNumOfThreads 2 (EventLoopThreadPool_ctor 7)\<rparr>) = Inr s1 \<and>
     server_start (\<lambda>op fd ev ch k. (True, k)) table_api (\<lambda>i. 8 + i) False 1 s1 = Inl (AssertFailed ''!started_'')"
proof -
  obtain s1 where "server_start (\<lambda>op fd ev ch k. (True, k)) table_api (\<lambda>i. 8 + i) False 1
       (sample_server\<lparr>server_started := False, loopThreadPool := pool_setNumOfThreads 2 (EventLoopThreadPool_ctor 7)\<rparr>) = Inr s1"
    by (simp add: server_start_def pool_start_def pool_setNumOfThreads_def isInLoopThread_def sample_server_def acceptor.extend_def
        event_loop.extend_def new_event_loop_def EventLoopThreadPool_ctor_def)
  with second_start_fails [OF this] show ?thesis by blast
qed

end
