(* ===== verification/EventLoopThread.thy ===== *)
theory EventLoopThread
  imports Ham_Prelude
begin

text \<open>
  Model of \<^verbatim>\<open>ham/net/EventLoopThread.{h,cc}\<close>: a thread that runs a loop of its own, and the handshake by which
  the starting thread gets the pointer to that loop.  The two threads interleave freely; critical
  sections under \<^verbatim>\<open>mutex_\<close> are single steps.  \<open>owner\<close> is where the owning thread is: it calls
  \<^verbatim>\<open>startLoop\<close>, then at some time the destructor.  \<open>worker\<close> is where \<^verbatim>\<open>threadFunc\<close> is.  \<open>quitting\<close> is
  the flag of the loop, which the destructor, the callback or any holder of the pointer may set.
\<close>

datatype owner_pc =
    NotStarted
  | WaitingForLoop
  | LoopSeen
  | Returned "nat option"
  | Joining
  | Destroyed
  | Terminated

datatype worker_pc = NoThread | Building | CallingInit | Publishing | Looping | LoopLeft | Exited

record event_loop_thread =
  loop_ptr :: "nat option"
  exiting :: bool
  initCallback :: bool
  initCalled :: bool
  quitting :: bool
  owner :: owner_pc
  worker :: worker_pc

definition EventLoopThread_ctor :: "bool \<Rightarrow> event_loop_thread" where
  "EventLoopThread_ctor cb =
     \<lparr>loop_ptr = None, exiting = False, initCallback = cb, initCalled = False, quitting = False,
      owner = NotStarted, worker = NoThread\<rparr>"

text \<open>
  The steps of \<^verbatim>\<open>startLoop\<close>: it starts the thread, waits until it sees the pointer, leaves the critical section
  and reads the pointer again to return it.
\<close>

inductive startLoop_step :: "event_loop_thread \<Rightarrow> event_loop_thread \<Rightarrow> bool" where
  start_thread: "owner s = NotStarted \<Longrightarrow> startLoop_step s (s\<lparr>owner := WaitingForLoop, worker := Building\<rparr>)"
| see_loop: "owner s = WaitingForLoop \<Longrightarrow> loop_ptr s \<noteq> None \<Longrightarrow> startLoop_step s (s\<lparr>owner := LoopSeen\<rparr>)"
| return_loop: "owner s = LoopSeen \<Longrightarrow> startLoop_step s (s\<lparr>owner := Returned (loop_ptr s)\<rparr>)"

text \<open>
  The destructor: without a loop it does nothing, and then the destructor of the member \<^verbatim>\<open>thread_\<close>, if it is still
  joinable, ends the process; with one it tells it to quit and joins the thread.
\<close>

inductive dtor_step :: "event_loop_thread \<Rightarrow> event_loop_thread \<Rightarrow> bool" where
  dtor_never_started: "owner s = NotStarted \<Longrightarrow> dtor_step s (s\<lparr>exiting := True, owner := Destroyed\<rparr>)"
| dtor_no_loop: "owner s = Returned p \<Longrightarrow> loop_ptr s = None \<Longrightarrow> dtor_step s (s\<lparr>exiting := True, owner := Terminated\<rparr>)"
| dtor_quit: "owner s = Returned p \<Longrightarrow> loop_ptr s \<noteq> None \<Longrightarrow>
     dtor_step s (s\<lparr>exiting := True, quitting := True, owner := Joining\<rparr>)"
| dtor_join: "owner s = Joining \<Longrightarrow> worker s = Exited \<Longrightarrow> dtor_step s (s\<lparr>owner := Destroyed\<rparr>)"

text \<open>\<^verbatim>\<open>threadFunc\<close>; \<open>self\<close> is the address of the loop on its stack.\<close>

inductive threadFunc_step :: "nat \<Rightarrow> event_loop_thread \<Rightarrow> event_loop_thread \<Rightarrow> bool" for self where
  build: "worker s = Building \<Longrightarrow>
     threadFunc_step self s (s\<lparr>worker := (if initCallback s then CallingInit else Publishing)\<rparr>)"
| call_init: "worker s = CallingInit \<Longrightarrow> threadFunc_step self s (s\<lparr>initCalled := True, worker := Publishing\<rparr>)"
| publish: "worker s = Publishing \<Longrightarrow> threadFunc_step self s (s\<lparr>loop_ptr := Some self, worker := Looping\<rparr>)"
| leave_loop: "worker s = Looping \<Longrightarrow> quitting s \<Longrightarrow> threadFunc_step self s (s\<lparr>worker := LoopLeft\<rparr>)"
| thread_exit: "worker s = LoopLeft \<Longrightarrow> threadFunc_step self s (s\<lparr>loop_ptr := None, worker := Exited\<rparr>)"

text \<open>The whole system; in the last step somebody else quits the loop.\<close>

inductive elt_step :: "nat \<Rightarrow> event_loop_thread \<Rightarrow> event_loop_thread \<Rightarrow> bool" for self where
  owner_start: "startLoop_step s s' \<Longrightarrow> elt_step self s s'"
| owner_dtor: "dtor_step s s' \<Longrightarrow> elt_step self s s'"
| worker_step: "threadFunc_step self s s' \<Longrightarrow> elt_step self s s'"
| foreign_quit: "worker s \<in> {CallingInit, Looping} \<Longrightarrow> elt_step self s (s\<lparr>quitting := True\<rparr>)"

lemmas elt_intros = startLoop_step.intros dtor_step.intros threadFunc_step.intros elt_step.intros

section \<open>Invariant\<close>

text \<open>Where the worker stands determines the pointer; where the owner stands bounds how far the worker is.\<close>

fun worker_ok :: "nat \<Rightarrow> worker_pc \<Rightarrow> nat option \<Rightarrow> bool \<Rightarrow> bool \<Rightarrow> bool \<Rightarrow> bool" where
  "worker_ok self NoThread p cb called q \<longleftrightarrow> p = None \<and> \<not> called"
| "worker_ok self Building p cb called q \<longleftrightarrow> p = None \<and> \<not> called"
| "worker_ok self CallingInit p cb called q \<longleftrightarrow> p = None \<and> cb"
| "worker_ok self Publishing p cb called q \<longleftrightarrow> p = None \<and> called = cb"
| "worker_ok self Looping p cb called q \<longleftrightarrow> p = Some self \<and> called = cb"
| "worker_ok self LoopLeft p cb called q \<longleftrightarrow> p = Some self \<and> called = cb \<and> q"
| "worker_ok self Exited p cb called q \<longleftrightarrow> p = None \<and> called = cb \<and> q"

fun published :: "worker_pc \<Rightarrow> bool" where
  "published NoThread \<longleftrightarrow> False"
| "published Building \<longleftrightarrow> False"
| "published CallingInit \<longleftrightarrow> False"
| "published Publishing \<longleftrightarrow> False"
| "published Looping \<longleftrightarrow> True"
| "published LoopLeft \<longleftrightarrow> True"
| "published Exited \<longleftrightarrow> True"

fun owner_ok :: "nat \<Rightarrow> owner_pc \<Rightarrow> worker_pc \<Rightarrow> bool \<Rightarrow> bool" where
  "owner_ok self NotStarted w q \<longleftrightarrow> w = NoThread"
| "owner_ok self WaitingForLoop w q \<longleftrightarrow> w \<noteq> NoThread"
| "owner_ok self LoopSeen w q \<longleftrightarrow> published w"
| "owner_ok self (Returned r) w q \<longleftrightarrow> published w \<and> (r = Some self \<or> r = None \<and> q)"
| "owner_ok self Joining w q \<longleftrightarrow> published w \<and> q"
| "owner_ok self Destroyed w q \<longleftrightarrow> w = NoThread \<or> w = Exited"
| "owner_ok self Terminated w q \<longleftrightarrow> w = Exited"

definition elt_inv :: "nat \<Rightarrow> event_loop_thread \<Rightarrow> bool" where
  "elt_inv self s \<longleftrightarrow> owner_ok self (owner s) (worker s) (quitting s) \<and>
     worker_ok self (worker s) (loop_ptr s) (initCallback s) (initCalled s) (quitting s)"

lemma elt_inv_ctor: "elt_inv self (EventLoopThread_ctor cb)"
  by (simp add: elt_inv_def EventLoopThread_ctor_def)

lemma elt_inv_owner:
  assumes "startLoop_step s s' \<or> dtor_step s s'" and "elt_inv self s"
  shows "elt_inv self s'"
  using assms
  by (elim disjE startLoop_step.cases dtor_step.cases; cases "worker s"; simp add: elt_inv_def)

lemma elt_inv_worker:
  assumes "threadFunc_step self s s'" and "elt_inv self s"
  shows "elt_inv self s'"
  using assms by (elim threadFunc_step.cases; cases "owner s"; simp add: elt_inv_def)


lemma elt_inv_step: "elt_step self s s' \<Longrightarrow> elt_inv self s \<Longrightarrow> elt_inv self s'"
proof (elim elt_step.cases)
  fix t assume "s = t" "s' = t\<lparr>quitting := True\<rparr>" "worker t \<in> {CallingInit, Looping}" "elt_inv self s"
  then show "elt_inv self s'" by (cases "owner t") (auto simp: elt_inv_def)
qed (auto intro: elt_inv_owner elt_inv_worker)

lemma elt_inv_reachable:
  assumes "(elt_step self)\<^sup>*\<^sup>* (EventLoopThread_ctor cb) s"
  shows "elt_inv self s"
  using assms by (induction rule: rtranclp_induct) (auto intro: elt_inv_ctor elt_inv_step)

lemma elt_callback: "(elt_step self)\<^sup>*\<^sup>* s s' \<Longrightarrow> initCallback s' = initCallback s"
  by (induction rule: rtranclp_induct)
    (auto elim!: elt_step.cases startLoop_step.cases dtor_step.cases threadFunc_step.cases)

text \<open>Runs of the worker on its own.\<close>

lemma step_then: "elt_step self s s1 \<Longrightarrow> (elt_step self)\<^sup>*\<^sup>* s1 s2 \<Longrightarrow> (elt_step self)\<^sup>*\<^sup>* s s2"
  by (rule converse_rtranclp_into_rtranclp)

lemma worker_publishes:
  assumes "worker s \<in> {Building, CallingInit, Publishing}"
  shows "\<exists>b. (elt_step self)\<^sup>*\<^sup>* s (s\<lparr>initCalled := b, loop_ptr := Some self, worker := Looping\<rparr>)"
proof -
  have p: "(elt_step self)\<^sup>*\<^sup>* u (u\<lparr>loop_ptr := Some self, worker := Looping\<rparr>)" if "worker u = Publishing" for u
    using that by (intro r_into_rtranclp worker_step publish)
  have c: "(elt_step self)\<^sup>*\<^sup>* u (u\<lparr>initCalled := True, loop_ptr := Some self, worker := Looping\<rparr>)" if "worker u = CallingInit" for u
    using step_then [OF worker_step [OF call_init [OF that]] p] by simp
  have b: "\<exists>b. (elt_step self)\<^sup>*\<^sup>* u (u\<lparr>initCalled := b, loop_ptr := Some self, worker := Looping\<rparr>)" if "worker u = Building" for u
  proof (cases "initCallback u")
    case True
    then show ?thesis using step_then [OF worker_step [OF build [OF that]] c] by auto
  next
    case False
    have "u\<lparr>initCalled := initCalled u\<rparr> = u" by simp
    with False show ?thesis
      using step_then [OF worker_step [OF build [OF that]] p] by (intro exI [of _ "initCalled u"]) simp
  qed
  consider "worker s = Building" | "worker s = CallingInit" | "worker s = Publishing" using assms by blast
  then show ?thesis
  proof cases
    case 3
    then show ?thesis using p [of s] by (intro exI [of _ "initCalled s"]) simp
  qed (use b c in blast)+
qed

section \<open>Properties\<close>

text \<open>
  C18.  The handshake.  Whenever \<^verbatim>\<open>startLoop\<close> has returned and nobody has told the loop to quit, it returned
  the address of the worker's loop, the worker is in that loop, and the callback (if any) ran before.\<close>
theorem startLoop_returns_loop:
  assumes "(elt_step self)\<^sup>*\<^sup>* (EventLoopThread_ctor cb) s" and "owner s = Returned r" and "\<not> quitting s"
  shows "r = Some self \<and> loop_ptr s = Some self \<and> worker s = Looping \<and> initCalled s = cb"
  using elt_inv_reachable [OF assms(1)] elt_callback [OF assms(1)] assms(2,3)
  by (cases "worker s") (auto simp: elt_inv_def EventLoopThread_ctor_def)

text \<open>
  \<^verbatim>\<open>startLoop\<close> does not wait for ever: as long as nobody has told the loop to quit, the two threads can get,
  by steps of their own, to the point where it returns the loop.\<close>
theorem startLoop_progress:
  assumes "(elt_step self)\<^sup>*\<^sup>* (EventLoopThread_ctor cb) s" and "owner s = WaitingForLoop" and "\<not> quitting s"
  shows "\<exists>s'. (elt_step self)\<^sup>*\<^sup>* s s' \<and> owner s' = Returned (Some self)"
proof -
  have inv: "elt_inv self s" by (rule elt_inv_reachable [OF assms(1)])
  obtain u where u: "(elt_step self)\<^sup>*\<^sup>* s u" "owner u = WaitingForLoop" "loop_ptr u = Some self"
  proof (cases "worker s \<in> {Building, CallingInit, Publishing}")
    case True
    then show ?thesis using worker_publishes [of s self] that assms(2) by auto
  next
    case False
    then have "worker s = Looping" using inv assms(2,3) by (cases "worker s") (auto simp: elt_inv_def)
    then show ?thesis using that [of s] inv assms(2) by (simp add: elt_inv_def)
  qed
  then have "elt_step self u (u\<lparr>owner := LoopSeen\<rparr>)" by (intro owner_start see_loop) simp_all
  moreover have "elt_step self (u\<lparr>owner := LoopSeen\<rparr>) (u\<lparr>owner := Returned (Some self)\<rparr>)"
    using return_loop [of "u\<lparr>owner := LoopSeen\<rparr>"] u(3) by (intro owner_start) simp
  ultimately have "(elt_step self)\<^sup>*\<^sup>* s (u\<lparr>owner := Returned (Some self)\<rparr>)" using u(1) by (meson rtranclp.rtrancl_into_rtrancl)
  then show ?thesis by (intro exI [of _ "u\<lparr>owner := Returned (Some self)\<rparr>"]) simp
qed

text \<open>
  The destructor waits for the thread: when it has finished, a thread that was started has exited and its
  loop is no longer reachable through \<^verbatim>\<open>loop_\<close>.\<close>
theorem dtor_joins_thread:
  assumes "(elt_step self)\<^sup>*\<^sup>* (EventLoopThread_ctor cb) s" and "owner s = Destroyed" and "worker s \<noteq> NoThread"
  shows "worker s = Exited \<and> loop_ptr s = None"
  using elt_inv_reachable [OF assms(1)] assms(2,3) by (auto simp: elt_inv_def)

text \<open>
  A loop that quits by itself breaks the handshake.  If the callback (or the loop's own code) quits the loop,
  there is a run in which \<^verbatim>\<open>startLoop\<close> waits for ever, and there is one in which the destructor finds
  \<^verbatim>\<open>loop_\<close> empty, does not join and ends the process in the destructor of the joinable thread.\<close>
theorem self_quit_breaks:
  shows "(\<exists>s. (elt_step self)\<^sup>*\<^sup>* (EventLoopThread_ctor True) s \<and> owner s = WaitingForLoop \<and> (\<forall>s'. \<not> elt_step self s s')) \<and>
    (\<exists>s. (elt_step self)\<^sup>*\<^sup>* (EventLoopThread_ctor True) s \<and> owner s = Terminated)"
proof -
  let ?s0 = "EventLoopThread_ctor True"
  let ?s1 = "?s0\<lparr>owner := WaitingForLoop, worker := CallingInit\<rparr>"
  let ?s2 = "?s1\<lparr>quitting := True, initCalled := True, loop_ptr := Some self, worker := Looping\<rparr>"
  let ?gone = "?s2\<lparr>loop_ptr := None, worker := Exited\<rparr>"
  have "elt_step self ?s0 (?s0\<lparr>owner := WaitingForLoop, worker := Building\<rparr>)"
    by (intro owner_start start_thread) (simp add: EventLoopThread_ctor_def)
  moreover have "elt_step self (?s0\<lparr>owner := WaitingForLoop, worker := Building\<rparr>) ?s1"
    using worker_step [OF build [of "?s0\<lparr>owner := WaitingForLoop, worker := Building\<rparr>" self]] by (simp add: EventLoopThread_ctor_def)
  moreover have "elt_step self ?s1 (?s1\<lparr>quitting := True\<rparr>)" by (rule foreign_quit) simp
  moreover have "elt_step self (?s1\<lparr>quitting := True\<rparr>) (?s1\<lparr>quitting := True, initCalled := True, worker := Publishing\<rparr>)"
    using worker_step [OF call_init [of "?s1\<lparr>quitting := True\<rparr>" self]] by simp
  moreover have "elt_step self (?s1\<lparr>quitting := True, initCalled := True, worker := Publishing\<rparr>) ?s2"
    using worker_step [OF publish [of "?s1\<lparr>quitting := True, initCalled := True, worker := Publishing\<rparr>" self]] by simp
  ultimately have s2: "(elt_step self)\<^sup>*\<^sup>* ?s0 ?s2" by (meson converse_rtranclp_into_rtranclp rtranclp.rtrancl_refl)
  have leave: "(elt_step self)\<^sup>*\<^sup>* u (u\<lparr>loop_ptr := None, worker := Exited\<rparr>)" if "worker u = Looping" "quitting u" for u
  proof -
    have "elt_step self (u\<lparr>worker := LoopLeft\<rparr>) (u\<lparr>loop_ptr := None, worker := Exited\<rparr>)"
      using worker_step [OF thread_exit [of "u\<lparr>worker := LoopLeft\<rparr>" self]] by simp
    then show ?thesis by (intro step_then [OF worker_step [OF leave_loop [OF that]]] r_into_rtranclp)
  qed
  have gone: "(elt_step self)\<^sup>*\<^sup>* ?s0 ?gone" using s2 leave [of ?s2] by (simp add: rtranclp_trans)
  have "\<not> elt_step self ?gone s'" for s'
    by (auto elim!: elt_step.cases startLoop_step.cases dtor_step.cases threadFunc_step.cases)
  moreover have "elt_step self ?s2 (?s2\<lparr>owner := LoopSeen\<rparr>)" by (intro owner_start see_loop) simp_all
  then have "(elt_step self)\<^sup>*\<^sup>* ?s0 (?s2\<lparr>owner := LoopSeen\<rparr>)" using s2 by simp
  moreover have "elt_step self (?s2\<lparr>owner := LoopSeen\<rparr>) (?s2\<lparr>owner := Returned (Some self)\<rparr>)"
    using owner_start [OF return_loop [of "?s2\<lparr>owner := LoopSeen\<rparr>"]] by simp
  ultimately have ret: "(elt_step self)\<^sup>*\<^sup>* ?s0 (?s2\<lparr>owner := Returned (Some self)\<rparr>)" by simp
  let ?r = "?s2\<lparr>owner := Returned (Some self), loop_ptr := None, worker := Exited\<rparr>"
  have "(elt_step self)\<^sup>*\<^sup>* ?s0 ?r" using ret leave [of "?s2\<lparr>owner := Returned (Some self)\<rparr>"] by (simp add: rtranclp_trans)
  moreover have "elt_step self ?r (?r\<lparr>exiting := True, owner := Terminated\<rparr>)" by (intro owner_dtor dtor_no_loop) simp_all
  ultimately have "(elt_step self)\<^sup>*\<^sup>* ?s0 (?r\<lparr>exiting := True, owner := Terminated\<rparr>)" by simp
  moreover have "owner ?gone = WaitingForLoop" "owner (?r\<lparr>exiting := True, owner := Terminated\<rparr>) = Terminated" by simp_all
  ultimately show ?thesis using gone \<open>\<And>s'. \<not> elt_step self ?gone s'\<close> by blast
qed


text \<open>A run without a callback: started, running, returned and destroyed.\<close>

definition elt_sample :: "owner_pc \<Rightarrow> worker_pc \<Rightarrow> event_loop_thread" where
  "elt_sample o_pc w_pc = \<lparr>loop_ptr = (if w_pc = Looping \<or> w_pc = LoopLeft then Some 7 else None), exiting = (o_pc \<in> {Joining, Destroyed}),
     initCallback = False, initCalled = False, quitting = (o_pc \<in> {Joining, Destroyed}), owner = o_pc, worker = w_pc\<rparr>"

lemma elt_sample_steps:
  "elt_step 7 (EventLoopThread_ctor False) (elt_sample WaitingForLoop Building)"
  "elt_step 7 (elt_sample WaitingForLoop Building) (elt_sample WaitingForLoop Publishing)"
  "elt_step 7 (elt_sample WaitingForLoop Publishing) (elt_sample WaitingForLoop Looping)"
  "elt_step 7 (elt_sample WaitingForLoop Looping) (elt_sample LoopSeen Looping)"
  "elt_step 7 (elt_sample LoopSeen Looping) (elt_sample (Returned (Some 7)) Looping)"
  "elt_step 7 (elt_sample (Returned (Some 7)) Looping) (elt_sample Joining Looping)"
  "elt_step 7 (elt_sample Joining Looping) (elt_sample Joining LoopLeft)"
  "elt_step 7 (elt_sample Joining LoopLeft) (elt_sample Joining Exited)"
  "elt_step 7 (elt_sample Joining Exited) (elt_sample Destroyed Exited)"
  using owner_start [OF start_thread [of "EventLoopThread_ctor False"], of 7]
    worker_step [OF build [of "elt_sample WaitingForLoop Building" 7]]
    worker_step [OF publish [of "elt_sample WaitingForLoop Publishing" 7]]
    owner_start [OF see_loop [of "elt_sample WaitingForLoop Looping"], of 7]
    owner_start [OF return_loop [of "elt_sample LoopSeen Looping"], of 7]
    owner_dtor [OF dtor_quit [of "elt_sample (Returned (Some 7)) Looping"], of "Some 7" 7]
    worker_step [OF leave_loop [of "elt_sample Joining Looping" 7]]
    worker_step [OF thread_exit [of "elt_sample Joining LoopLeft" 7]]
    owner_dtor [OF dtor_join [of "elt_sample Joining Exited"], of 7]
  by (simp_all add: elt_sample_def EventLoopThread_ctor_def)

lemma elt_sample_reachable:
  "(elt_step 7)\<^sup>*\<^sup>* (EventLoopThread_ctor False) (elt_sample WaitingForLoop Building)"
  "(elt_step 7)\<^sup>*\<^sup>* (EventLoopThread_ctor False) (elt_sample (Returned (Some 7)) Looping)"
  "(elt_step 7)\<^sup>*\<^sup>* (EventLoopThread_ctor False) (elt_sample Destroyed Exited)"
  using elt_sample_steps by (meson converse_rtranclp_into_rtranclp rtranclp.rtrancl_refl)+

theorem startLoop_returns_loop_witness: "loop_ptr (elt_sample (Returned (Some 7)) Looping) = Some 7 \<and> worker (elt_sample (Returned (Some 7)) Looping) = Looping"
  using startLoop_returns_loop [OF elt_sample_reachable(2), of "Some 7"] by (simp add: elt_sample_def)

theorem startLoop_progress_witness: "\<exists>s'. (elt_step 7)\<^sup>*\<^sup>* (elt_sample WaitingForLoop Building) s' \<and> owner s' = Returned (Some 7)"
  using startLoop_progress [OF elt_sample_reachable(1)] by (simp add: elt_sample_def)

theorem dtor_joins_thread_witness: "worker (elt_sample Destroyed Exited) = Exited \<and> loop_ptr (elt_sample Destroyed Exited) = None"
  using dtor_joins_thread [OF elt_sample_reachable(3)] by (simp add: elt_sample_def)

end
