(* ===== verification/Connector.thy ===== *)
theory Connector
  imports EventLoop InetAddress
begin

text \<open>
  Model of \<^verbatim>\<open>ham/net/Connector.{h,cc}\<close>: the active side of a connection.  The state extends that of the loop by
  the members of the connector, the timer queue of the loop and the state of the system.  \<open>shared_owner\<close>
  says whether a \<^verbatim>\<open>std::shared_ptr\<close> owns the object, which is what \<^verbatim>\<open>shared_from_this()\<close> needs.  The channel of
  the attempt is an object of the loop's heap of channels: \<^verbatim>\<open>connectChannel_\<close> is its address.  The
  callback for new connections is a parameter; \<open>None\<close> is an empty \<^verbatim>\<open>std::function\<close>.
\<close>

datatype connector_state = Connector_kDisconnected | Connector_kConnecting | Connector_kConnected

text \<open>The functors a connector gives to its loop; \<open>OtherFunctor\<close> stands for those of its owner.\<close>

datatype 'e connector_functor =
    StartInLoop
  | StopInLoop
  | ResetChannel
  | TimerFunctor timer_functor
  | OtherFunctor 'e

record ('k, 'e, 'n) connector = "('k, 'e connector_functor) event_loop" +
  serverAddr :: inet_address
  cstate :: connector_state
  connectChannel :: "nat option"
  connect_flag :: bool
  retryDelayMs :: int
  retryTimerId :: timer_id
  validTimer :: bool
  shared_owner :: bool
  timerQueue :: timer_queue
  net :: 'n

definition kMaxRetryDelayMs :: int where "kMaxRetryDelayMs = 30 * 1000"
definition kInitRetryDelayMs :: int where "kInitRetryDelayMs = 5000"

text \<open>What the connector is given by its surroundings: kernel, sockets, timers and allocator of channels.\<close>

record ('k, 'n) connector_env =
  ce_ctl :: "'k epoll_ctl_fn"
  ce_sys :: "'n socket_api"
  ce_timer :: timer_env
  ce_alloc :: "(nat, channel) std_map \<Rightarrow> nat"

text \<open>The number under which the timer queue knows the callback of the retry timer.\<close>

definition startInLoop_cb :: nat where "startInLoop_cb = 0"

definition Connector_ctor ::
  "('k, 'e connector_functor) event_loop \<Rightarrow> inet_address \<Rightarrow> bool \<Rightarrow> timer_queue \<Rightarrow> 'n \<Rightarrow> ('k, 'e, 'n) connector" where
  "Connector_ctor l addr shared q n = event_loop.extend l
     \<lparr>serverAddr = addr, cstate = Connector_kDisconnected, connectChannel = None, connect_flag = False,
      retryDelayMs = kInitRetryDelayMs, retryTimerId = \<lparr>id_timer = 0, id_serial = - 1\<rparr>, validTimer = False,
      shared_owner = shared, timerQueue = q, net = n\<rparr>"

text \<open>Queueing what a timer operation from another thread leaves to the loop.\<close>

definition queue_timer ::
  "int \<Rightarrow> timer_functor option \<Rightarrow> ('k, 'e, 'n, 'z) connector_scheme \<Rightarrow> ('k, 'e, 'n, 'z) connector_scheme" where
  "queue_timer tid f s = (case f of None \<Rightarrow> s | Some g \<Rightarrow> queueInLoop tid (TimerFunctor g) s)"

section \<open>An attempt\<close>

definition retry ::
  "('k, 'n) connector_env \<Rightarrow> int \<Rightarrow> int \<Rightarrow> ('k, 'e, 'n, 'z) connector_scheme \<Rightarrow> ('k, 'e, 'n, 'z) connector_scheme result" where
  "retry env tid sockfd s =
     assert_that (cstate s = Connector_kConnecting) ''state_ == kConnecting''
     (let s1 = s\<lparr>net := close_fd (ce_sys env) sockfd (net s), cstate := Connector_kDisconnected\<rparr> in
      if connect_flag s1 then
        if \<not> shared_owner s1 then Inl (Thrown ''std::bad_weak_ptr'')
        else rbind (runAfter (ce_timer env) (isInLoopThread tid s1) (round_double (of_int (retryDelayMs s1) / 1000))
                     startInLoop_cb (timerQueue s1)) (\<lambda>(timer, f, q).
          let s2 = queue_timer tid f (s1\<lparr>timerQueue := q\<rparr>)
          in Inr (s2\<lparr>retryTimerId := timer, validTimer := True,
                     retryDelayMs := min (retryDelayMs s2 * 2) kMaxRetryDelayMs\<rparr>))
      else Inr s1)"

definition establishConnection ::
  "('k, 'n) connector_env \<Rightarrow> int \<Rightarrow> int \<Rightarrow> ('k, 'e, 'n, 'z) connector_scheme \<Rightarrow> ('k, 'e, 'n, 'z) connector_scheme result" where
  "establishConnection env tid sockfd s =
     (let s1 = s\<lparr>cstate := Connector_kConnecting\<rparr> in
      assert_that (connectChannel s1 = None) ''!connectChannel_''
      (let a = ce_alloc env (channels s1);
           c = (Channel_ctor (this_loop s1) sockfd)\<lparr>writeCb := True, errorCb := True\<rparr>
       in enableWriting (ce_ctl env) tid a (set_chan a c (s1\<lparr>connectChannel := Some a\<rparr>))))"

text \<open>The outcomes of \<^verbatim>\<open>connect\<close>: on its way, worth another attempt, or hopeless.\<close>

definition connect_in_progress :: "int \<Rightarrow> bool" where
  "connect_in_progress e \<longleftrightarrow> e \<in> {0, EISCONN, EINPROGRESS, EINTR}"

definition connect_soft_error :: "int \<Rightarrow> bool" where
  "connect_soft_error e \<longleftrightarrow> e \<in> {EAGAIN, EADDRINUSE, EADDRNOTAVAIL, ECONNREFUSED, ENETUNREACH}"

definition connector_connect ::
  "('k, 'n) connector_env \<Rightarrow> int \<Rightarrow> ('k, 'e, 'n, 'z) connector_scheme \<Rightarrow> ('k, 'e, 'n, 'z) connector_scheme result" where
  "connector_connect env tid s =
     rbind (createNonblockingOrDie (ce_sys env) (net s)) (\<lambda>(socket_fd, n).
       let (r, n1) = connect (ce_sys env) socket_fd (getSockAddrIn (serverAddr s)) n;
           s1 = s\<lparr>net := n1\<rparr>;
           savedErrno = (case r of None \<Rightarrow> 0 | Some e \<Rightarrow> e)
       in if connect_in_progress savedErrno then establishConnection env tid socket_fd s1
          else if connect_soft_error savedErrno then retry env tid socket_fd s1
          else Inr (s1\<lparr>net := close_fd (ce_sys env) socket_fd (net s1)\<rparr>))"

definition startInLoop ::
  "('k, 'n) connector_env \<Rightarrow> int \<Rightarrow> ('k, 'e, 'n, 'z) connector_scheme \<Rightarrow> ('k, 'e, 'n, 'z) connector_scheme result" where
  "startInLoop env tid s =
     assertInLoopThread tid s
     (assert_that (cstate s = Connector_kDisconnected) ''state_ == kDisconnected''
     (if connect_flag s then connector_connect env tid s else Inr s))"

definition removeAndResetChannel ::
  "('k, 'n) connector_env \<Rightarrow> int \<Rightarrow> ('k, 'e, 'n, 'z) connector_scheme \<Rightarrow> (int \<times> ('k, 'e, 'n, 'z) connector_scheme) result" where
  "removeAndResetChannel env tid s =
     (case connectChannel s of
        None \<Rightarrow> Inl NullDereference
      | Some a \<Rightarrow>
          rbind (chan_at a s) (\<lambda>c.
          rbind (disableAll (ce_ctl env) tid a s) (\<lambda>s1.
          rbind (removeChannel (ce_ctl env) tid a s1) (\<lambda>s2.
            Inr (fd c, queueInLoop tid ResetChannel s2)))))"

text \<open>\<^verbatim>\<open>connectChannel_.reset()\<close> runs the destructor of the channel.\<close>

definition resetChannel :: "('k, 'e, 'n, 'z) connector_scheme \<Rightarrow> ('k, 'e, 'n, 'z) connector_scheme result" where
  "resetChannel s =
     (case connectChannel s of
        None \<Rightarrow> Inr s
      | Some a \<Rightarrow>
          rbind (chan_at a s) (\<lambda>c.
          rbind (Channel_dtor c) (\<lambda>_.
            Inr (s\<lparr>connectChannel := None, channels := filter (\<lambda>x. fst x \<noteq> a) (channels s)\<rparr>))))"

definition stopInLoop ::
  "('k, 'n) connector_env \<Rightarrow> int \<Rightarrow> ('k, 'e, 'n, 'z) connector_scheme \<Rightarrow> ('k, 'e, 'n, 'z) connector_scheme result" where
  "stopInLoop env tid s =
     assertInLoopThread tid s
     (if cstate s = Connector_kConnecting then
        rbind (removeAndResetChannel env tid (s\<lparr>cstate := Connector_kDisconnected\<rparr>)) (\<lambda>(f, s1).
          Inr (s1\<lparr>net := close_fd (ce_sys env) f (net s1)\<rparr>))
      else Inr s)"

section \<open>Interface\<close>

definition start ::
  "('k, 'n) connector_env \<Rightarrow> int \<Rightarrow> ('k, 'e, 'n, 'z) connector_scheme \<Rightarrow> ('k, 'e, 'n, 'z) connector_scheme result" where
  "start env tid s = runInLoop (\<lambda>f. startInLoop env tid) tid StartInLoop (s\<lparr>connect_flag := True\<rparr>)"

definition connector_restart ::
  "('k, 'n) connector_env \<Rightarrow> int \<Rightarrow> ('k, 'e, 'n, 'z) connector_scheme \<Rightarrow> ('k, 'e, 'n, 'z) connector_scheme result" where
  "connector_restart env tid s =
     assertInLoopThread tid s
     (startInLoop env tid (s\<lparr>cstate := Connector_kDisconnected, connect_flag := True, retryDelayMs := kInitRetryDelayMs\<rparr>))"

definition stop ::
  "('k, 'n) connector_env \<Rightarrow> int \<Rightarrow> ('k, 'e, 'n, 'z) connector_scheme \<Rightarrow> ('k, 'e, 'n, 'z) connector_scheme result" where
  "stop env tid s =
     rbind (runInLoop (\<lambda>f. stopInLoop env tid) tid StopInLoop (s\<lparr>connect_flag := False\<rparr>)) (\<lambda>s1.
       if validTimer s1 then
         rbind (loop_cancelTimer (isInLoopThread tid s1) (retryTimerId s1) (timerQueue s1)) (\<lambda>(f, q).
           Inr (queue_timer tid f (s1\<lparr>timerQueue := q\<rparr>)))
       else Inr s1)"

definition Connector_dtor ::
  "('k, 'n) connector_env \<Rightarrow> int \<Rightarrow> ('k, 'e, 'n, 'z) connector_scheme \<Rightarrow> ('k, 'e, 'n, 'z) connector_scheme result" where
  "Connector_dtor env tid s =
     rbind (if connectChannel s \<noteq> None then stop env tid s else Inr s) (\<lambda>s1.
       assert_that (connectChannel s1 = None) ''!connectChannel_'' (Inr s1))"

section \<open>Events\<close>

definition handleWrite ::
  "('k, 'n) connector_env \<Rightarrow>
   (int \<Rightarrow> ('k, 'e, 'n, 'z) connector_scheme \<Rightarrow> ('k, 'e, 'n, 'z) connector_scheme result) option \<Rightarrow> int \<Rightarrow>
   ('k, 'e, 'n, 'z) connector_scheme \<Rightarrow> ('k, 'e, 'n, 'z) connector_scheme result" where
  "handleWrite env newConnCb tid s =
     (if cstate s = Connector_kConnecting then
        rbind (removeAndResetChannel env tid s) (\<lambda>(socket_fd, s1).
          if getSocketError (ce_sys env) socket_fd (net s1) \<noteq> 0 then retry env tid socket_fd s1
          else if isSelfConnect (ce_sys env) socket_fd (net s1) then retry env tid socket_fd s1
          else let s2 = s1\<lparr>cstate := Connector_kConnected\<rparr> in
            if connect_flag s2 then
              (case newConnCb of None \<Rightarrow> Inl (Thrown ''std::bad_function_call'') | Some cb \<Rightarrow> cb socket_fd s2)
            else Inr (s2\<lparr>net := close_fd (ce_sys env) socket_fd (net s2)\<rparr>))
      else assert_that (cstate s = Connector_kDisconnected) ''state_ == kDisconnected'' (Inr s))"

definition handleError ::
  "('k, 'n) connector_env \<Rightarrow> int \<Rightarrow> ('k, 'e, 'n, 'z) connector_scheme \<Rightarrow> ('k, 'e, 'n, 'z) connector_scheme result" where
  "handleError env tid s =
     assert_that (cstate s = Connector_kConnecting) ''state_ == kConnecting''
     (rbind (removeAndResetChannel env tid s) (\<lambda>(socket_fd, s1). retry env tid socket_fd s1))"

text \<open>The functors of a connector, when its loop runs them; \<open>other\<close> runs those of the owner.\<close>

fun run_connector_functor ::
  "('k, 'n) connector_env \<Rightarrow> ('e \<Rightarrow> ('k, 'e, 'n, 'z) connector_scheme \<Rightarrow> ('k, 'e, 'n, 'z) connector_scheme result) \<Rightarrow> int \<Rightarrow>
   'e connector_functor \<Rightarrow> ('k, 'e, 'n, 'z) connector_scheme \<Rightarrow> ('k, 'e, 'n, 'z) connector_scheme result" where
  "run_connector_functor env other tid StartInLoop s = startInLoop env tid s"
| "run_connector_functor env other tid StopInLoop s = stopInLoop env tid s"
| "run_connector_functor env other tid ResetChannel s = resetChannel s"
| "run_connector_functor env other tid (TimerFunctor g) s =
     rbind (run_timer_functor (ce_timer env) g (timerQueue s)) (\<lambda>q. Inr (s\<lparr>timerQueue := q\<rparr>))"
| "run_connector_functor env other tid (OtherFunctor e) s = other e s"

section \<open>Invariant\<close>

text \<open>The connector's own part of the state is untouched by operations on channels.\<close>

lemma connector_fields:
  fixes s s' :: "('k, 'e, 'n, 'z) connector_scheme"
  assumes "epoller.more s' = epoller.more s"
  shows "serverAddr s' = serverAddr s" "cstate s' = cstate s" "connectChannel s' = connectChannel s"
    "connect_flag s' = connect_flag s" "retryDelayMs s' = retryDelayMs s" "retryTimerId s' = retryTimerId s"
    "validTimer s' = validTimer s" "shared_owner s' = shared_owner s" "timerQueue s' = timerQueue s" "net s' = net s"
  using loop_fields(8) [OF assms] by (cases s; cases s'; simp)+

lemma loop_ok_cong:
  assumes "threadId l' = threadId l" "map_of (channels l') = map_of (channels l)" "channelMap l' = channelMap l" "kern l' = kern l"
    "this_loop l' = this_loop l"
  shows "loop_ok epoll_ctl reg tid l' = loop_ok epoll_ctl reg tid l"
  using assms by (simp add: loop_ok_def poller_inv_def)

text \<open>
  A well-formed connector: the loop is fine, watched descriptors are open, and the channel of an attempt is
  watched for writing as long as the attempt lasts, and kept unwatched afterwards only until the
  queued \<^verbatim>\<open>resetChannel\<close> has run.
\<close>

definition attempt_ok :: "('k, 'e, 'n, 'z) connector_scheme \<Rightarrow> bool" where
  "attempt_ok s \<longleftrightarrow>
     (case connectChannel s of
        None \<Rightarrow> cstate s \<noteq> Connector_kConnecting
      | Some a \<Rightarrow> (\<exists>c. map_of (channels s) a = Some c \<and> writeCb c \<and> errorCb c \<and>
          (if cstate s = Connector_kConnecting then status c = kAdded \<and> event c = kWriteEvent
           else status c = kNew \<and> ResetChannel \<in> set (pendingFunctors s))))"

definition env_laws ::
  "('k, 'n) connector_env \<Rightarrow> ('k \<Rightarrow> int \<Rightarrow> (event_mask \<times> nat) option) \<Rightarrow> ('n \<Rightarrow> int set) \<Rightarrow> bool" where
  "env_laws env reg fds \<longleftrightarrow> epoll_laws (ce_ctl env) reg \<and> fd_laws (ce_sys env) fds \<and> alloc_ok (ce_timer env) \<and>
     (\<forall>m. map_of m (ce_alloc env m) = None)"

definition connector_inv ::
  "('k, 'n) connector_env \<Rightarrow> ('k \<Rightarrow> int \<Rightarrow> (event_mask \<times> nat) option) \<Rightarrow> ('n \<Rightarrow> int set) \<Rightarrow> int \<Rightarrow>
   ('k, 'e, 'n, 'z) connector_scheme \<Rightarrow> bool" where
  "connector_inv env reg fds tid s \<longleftrightarrow> loop_ok (ce_ctl env) reg tid s \<and> tq_inv (timerQueue s) \<and>
     (\<forall>f. map_of (channelMap s) f \<noteq> None \<longrightarrow> f \<in> fds (net s)) \<and> attempt_ok s \<and>
     (validTimer s \<longrightarrow> id_timer (retryTimerId s) \<in> known (timerQueue s))"

text \<open>The descriptor of the attempt that is under way.\<close>

definition attempt_fd :: "('k, 'e, 'n, 'z) connector_scheme \<Rightarrow> int" where
  "attempt_fd s = (case connectChannel s of None \<Rightarrow> - 1 | Some a \<Rightarrow>
     (case map_of (channels s) a of None \<Rightarrow> - 1 | Some c \<Rightarrow> fd c))"

text \<open>Whether its channel is running a callback.\<close>

definition handling :: "('k, 'e, 'n, 'z) connector_scheme \<Rightarrow> bool" where
  "handling s = (case connectChannel s of None \<Rightarrow> False | Some a \<Rightarrow>
     (case map_of (channels s) a of None \<Rightarrow> False | Some c \<Rightarrow> isHandlingEvent c))"

text \<open>A channel that is new to the heap does not disturb the loop.\<close>

lemma loop_ok_new_chan:
  fixes l :: "('k, 'f, 'z) event_loop_scheme"
  assumes ok: "loop_ok epoll_ctl reg tid l" and a: "map_of (channels l) a = None"
    and c: "status c = kNew" "ownerLoop c = this_loop l"
  shows "loop_ok epoll_ctl reg tid (set_chan a c l)"
proof -
  have no: "map_of (channelMap l) f \<noteq> Some a" for f using ok a unfolding loop_ok_def poller_inv_def by fastforce
  have "this_loop (set_chan a c l) = this_loop l" by (simp add: set_chan_def)
  moreover have "poller_inv reg (set_chan a c l)"
    using ok no c(1) unfolding loop_ok_def poller_inv_def by auto
  ultimately show ?thesis using ok c(2) unfolding loop_ok_def by auto
qed

text \<open>Nor does the end of one that is not watched.\<close>

lemma map_of_filter_key: "map_of (filter (\<lambda>x. fst x \<noteq> a) m) = (map_of m)(a := None)"
  by (induction m) (auto simp: fun_eq_iff)

lemma loop_ok_del_chan:
  fixes l :: "('k, 'f, 'z) event_loop_scheme"
  assumes ok: "loop_ok epoll_ctl reg tid l" and a: "map_of (channels l) a = Some c" "status c = kNew"
  shows "loop_ok epoll_ctl reg tid (l\<lparr>channels := filter (\<lambda>x. fst x \<noteq> a) (channels l)\<rparr>)"
proof -
  have no: "map_of (channelMap l) f \<noteq> Some a" for f using ok a unfolding loop_ok_def poller_inv_def by fastforce
  then show ?thesis using ok unfolding loop_ok_def poller_inv_def by (auto simp: map_of_filter_key)
qed

lemma queueInLoop_fields [simp]:
  "threadId (queueInLoop tid f l) = threadId l" "channels (queueInLoop tid f l) = channels l"
  "channelMap (queueInLoop tid f l) = channelMap l" "kern (queueInLoop tid f l) = kern l" "this_loop (queueInLoop tid f l) = this_loop l"
  "event_loop.more (queueInLoop tid f l) = event_loop.more l" "pendingFunctors (queueInLoop tid f l) = pendingFunctors l @ [f]"
  by (simp_all add: queueInLoop_def push_functor_def wakeup_def Let_def)

lemma queueInLoop_connector [simp]:
  fixes s :: "('k, 'e, 'n, 'z) connector_scheme"
  shows "serverAddr (queueInLoop tid f s) = serverAddr s" "cstate (queueInLoop tid f s) = cstate s"
    "connectChannel (queueInLoop tid f s) = connectChannel s" "connect_flag (queueInLoop tid f s) = connect_flag s"
    "retryDelayMs (queueInLoop tid f s) = retryDelayMs s" "retryTimerId (queueInLoop tid f s) = retryTimerId s"
    "validTimer (queueInLoop tid f s) = validTimer s" "shared_owner (queueInLoop tid f s) = shared_owner s"
    "timerQueue (queueInLoop tid f s) = timerQueue s" "net (queueInLoop tid f s) = net s"
  by (simp_all add: queueInLoop_def push_functor_def wakeup_def Let_def)

text \<open>What is left of an attempt once its channel is out of the poller.\<close>

definition detached ::
  "('k, 'n) connector_env \<Rightarrow> ('k \<Rightarrow> int \<Rightarrow> (event_mask \<times> nat) option) \<Rightarrow> int \<Rightarrow>
   ('k, 'e, 'n, 'z) connector_scheme \<Rightarrow> ('k, 'e, 'n, 'z) connector_scheme \<Rightarrow> bool" where
  "detached env reg tid s s' \<longleftrightarrow> loop_ok (ce_ctl env) reg tid s' \<and> epoller.more s' = epoller.more (queueInLoop tid ResetChannel s) \<and>
     map_of (channelMap s') = (map_of (channelMap s))(attempt_fd s := None) \<and>
     reg (kern s') = (reg (kern s))(attempt_fd s := None) \<and> attempt_fd s' = attempt_fd s \<and> handling s' = handling s \<and>
     (\<exists>a c. connectChannel s' = Some a \<and> map_of (channels s') a = Some c \<and> status c = kNew \<and> writeCb c \<and> errorCb c)"

lemma queueInLoop_more: "epoller.more l' = epoller.more l \<Longrightarrow> threadId l' = threadId l \<Longrightarrow>
  epoller.more (queueInLoop tid f l') = epoller.more (queueInLoop tid f (l :: ('k, 'f, 'z) event_loop_scheme))"
  by (cases l; cases l') (simp add: queueInLoop_def push_functor_def wakeup_def isInLoopThread_def Let_def)

lemma removeAndResetChannel_spec:
  fixes s :: "('k, 'e, 'n, 'z) connector_scheme"
  assumes laws: "env_laws env reg fds" and ok: "loop_ok (ce_ctl env) reg tid s"
    and a: "connectChannel s = Some a" "map_of (channels s) a = Some c" and c: "status c = kAdded" "writeCb c" "errorCb c"
  obtains s' where "removeAndResetChannel env tid s = Inr (attempt_fd s, s')" "detached env reg tid s s'"
proof -
  have st: "status c \<noteq> kNew" using c(1) by simp
  have l: "poller_inv reg s" "epoll_laws (ce_ctl env) reg" "threadId s = tid" "ownerLoop c = this_loop s"
    using ok laws a(2) by (simp_all add: loop_ok_def env_laws_def)
  obtain s1 s2 where s2: "disableAll (ce_ctl env) tid a s = Inr s1" "removeChannel (ce_ctl env) tid a s1 = Inr s2" "poller_inv reg s2"
    "map_of (channels s2) = (map_of (channels s))(a \<mapsto> c\<lparr>event := kNoneEvent, status := kNew\<rparr>)"
    "map_of (channelMap s2) = (map_of (channelMap s))(fd c := None)"
    "reg (kern s2) = (reg (kern s))(fd c := None)" "threadId s2 = threadId s" "epoller.more s2 = epoller.more s"
    using disable_remove_spec [OF l(1,2,3) a(2) l(4) st] by blast
  let ?s = "queueInLoop tid ResetChannel s2"
  have own: "ownerLoop (c\<lparr>event := kNoneEvent, status := kNew\<rparr>) = this_loop s" using l(4) by simp
  have "loop_ok (ce_ctl env) reg tid s2" by (rule loop_ok_step [OF ok s2(3,7,8,4) own])
  then have "loop_ok (ce_ctl env) reg tid ?s" by (subst loop_ok_cong [of _ s2]) simp_all
  moreover have f: "attempt_fd s = fd c" using a by (simp add: attempt_fd_def)
  ultimately have "detached env reg tid s ?s"
    unfolding detached_def using a c(2,3) s2 queueInLoop_more [OF s2(8,7)] by (simp add: connector_fields [OF s2(8)] attempt_fd_def handling_def)
  moreover have "removeAndResetChannel env tid s = Inr (attempt_fd s, ?s)"
    using a s2(1,2) f by (simp add: removeAndResetChannel_def chan_at_Some)
  ultimately show ?thesis using that by blast
qed
section \<open>Retrying\<close>

text \<open>The time at which a timer set by \<^verbatim>\<open>runAfter\<close> with a delay in milliseconds is due.\<close>

definition retry_time :: "('k, 'n) connector_env \<Rightarrow> ('k, 'e, 'n, 'z) connector_scheme \<Rightarrow> timestamp" where
  "retry_time env s = addTime (clk (ce_timer env) (ticks (timerQueue s))) (round_double (of_int (retryDelayMs s) / 1000))"

text \<open>\<open>s'\<close> is \<open>s\<close> after \<^verbatim>\<open>retry\<close>: one more timer if the connector is to go on, and the delay doubled.\<close>

definition retried ::
  "('k, 'n) connector_env \<Rightarrow> ('k, 'e, 'n, 'z) connector_scheme \<Rightarrow> ('k, 'e, 'n, 'z) connector_scheme \<Rightarrow> bool" where
  "retried env s s' \<longleftrightarrow> tq_inv (timerQueue s') \<and>
     (if connect_flag s
      then set (timerList (timerQueue s')) = insert (retry_time env s, id_timer (retryTimerId s')) (set (timerList (timerQueue s))) \<and>
        map_of (timers (timerQueue s)) (id_timer (retryTimerId s')) = None \<and>
        validTimer s' \<and> retryDelayMs s' = min (2 * retryDelayMs s) kMaxRetryDelayMs
      else timerQueue s' = timerQueue s \<and> validTimer s' = validTimer s \<and> retryTimerId s' = retryTimerId s \<and> retryDelayMs s' = retryDelayMs s)"

text \<open>The parts of the state that the timer does not concern.\<close>

definition same_loop :: "('k, 'e, 'n, 'z) connector_scheme \<Rightarrow> ('k, 'e, 'n, 'z) connector_scheme \<Rightarrow> bool" where
  "same_loop s s' \<longleftrightarrow> threadId s' = threadId s \<and> channels s' = channels s \<and> channelMap s' = channelMap s \<and> kern s' = kern s \<and>
     this_loop s' = this_loop s \<and> pendingFunctors s' = pendingFunctors s \<and> connectChannel s' = connectChannel s \<and>
     connect_flag s' = connect_flag s \<and> shared_owner s' = shared_owner s \<and> serverAddr s' = serverAddr s"

lemma retry_spec:
  assumes laws: "env_laws env reg fds" and q: "tq_inv (timerQueue s)" and tid: "threadId s = tid"
    and st: "cstate s = Connector_kConnecting" "connect_flag s \<longrightarrow> shared_owner s"
  obtains s' where "retry env tid f s = Inr s'" "cstate s' = Connector_kDisconnected" "retried env s s'" "same_loop s s'"
    "fds (net s') = fds (net s) - {f}"
proof -
  have fl: "fd_laws (ce_sys env) fds" and al: "alloc_ok (ce_timer env)" using laws by (simp_all add: env_laws_def)
  let ?n = "close_fd (ce_sys env) f (net s)"
  show ?thesis
  proof (cases "connect_flag s")
    case False
    then show ?thesis
      using st q by (intro that [of "s\<lparr>net := ?n, cstate := Connector_kDisconnected\<rparr>"])
        (simp_all add: retry_def retried_def same_loop_def fd_laws_simps(1) [OF fl])
  next
    case True
    let ?q = "timerQueue s"
    let ?q1 = "?q\<lparr>ticks := Suc (ticks ?q)\<rparr>"
    have "tq_inv ?q1" using q by simp
    then obtain timer q' where q': "addTimer (ce_timer env) True startInLoop_cb (retry_time env s) 0 ?q1 = Inr (timer, None, q')" "tq_inv q'"
      "id_timer timer \<notin> known ?q1" "set (timerList q') = insert (retry_time env s, id_timer timer) (set (timerList ?q1))"
      by (rule addTimer_spec [OF _ al])
    have q2: "map_of (timers ?q) (id_timer timer) = None" "set (timerList q') = insert (retry_time env s, id_timer timer) (set (timerList ?q))"
      using q'(3,4) by (auto simp: domIff)
    have run: "runAfter (ce_timer env) True (round_double (of_int (retryDelayMs s) / 1000)) startInLoop_cb ?q = Inr (timer, None, q')"
      using q'(1) by (simp add: runAfter_def runAt_def read_clock_def retry_time_def)
    let ?s = "s\<lparr>net := ?n, cstate := Connector_kDisconnected, timerQueue := q', retryTimerId := timer, validTimer := True,
            retryDelayMs := min (retryDelayMs s * 2) kMaxRetryDelayMs\<rparr>"
    have "retry env tid f s = Inr ?s" using True st run tid by (simp add: retry_def isInLoopThread_def queue_timer_def)
    moreover have "retried env s ?s" using True q'(2) q2 by (simp add: retried_def mult.commute)
    moreover have "same_loop s ?s" "fds (net ?s) = fds (net s) - {f}"
      by (simp_all add: same_loop_def fd_laws_simps(1) [OF fl])
    ultimately show ?thesis by (intro that [of ?s]) simp_all
  qed
qed

lemma same_loop_ok: "same_loop s s' \<Longrightarrow> loop_ok epoll_ctl reg tid s' = loop_ok epoll_ctl reg tid s"
  by (rule loop_ok_cong) (simp_all add: same_loop_def)

lemma detached_fields:
  assumes "detached env reg tid s s'"
  shows "serverAddr s' = serverAddr s" "cstate s' = cstate s" "connectChannel s' = connectChannel s" "connect_flag s' = connect_flag s"
    "retryDelayMs s' = retryDelayMs s" "retryTimerId s' = retryTimerId s" "validTimer s' = validTimer s" "shared_owner s' = shared_owner s"
    "timerQueue s' = timerQueue s" "net s' = net s" "pendingFunctors s' = pendingFunctors s @ [ResetChannel]" "this_loop s' = this_loop s"
proof -
  have m: "epoller.more s' = epoller.more (queueInLoop tid ResetChannel s)" using assms by (simp add: detached_def)
  show "serverAddr s' = serverAddr s" "cstate s' = cstate s" "connectChannel s' = connectChannel s" "connect_flag s' = connect_flag s"
    "retryDelayMs s' = retryDelayMs s" "retryTimerId s' = retryTimerId s" "validTimer s' = validTimer s" "shared_owner s' = shared_owner s"
    "timerQueue s' = timerQueue s" "net s' = net s" "pendingFunctors s' = pendingFunctors s @ [ResetChannel]" "this_loop s' = this_loop s"
    using connector_fields [OF m] loop_fields [OF m] by simp_all
qed

text \<open>A well-formed connector in the middle of an attempt.\<close>

lemma attempt_detach:
  assumes laws: "env_laws env reg fds" and inv: "connector_inv env reg fds tid s" and st: "cstate s = Connector_kConnecting"
  obtains s' where "removeAndResetChannel env tid s = Inr (attempt_fd s, s')" "detached env reg tid s s'"
proof -
  obtain a c where "connectChannel s = Some a" "map_of (channels s) a = Some c" "status c = kAdded" "writeCb c" "errorCb c"
    using inv st by (auto simp: connector_inv_def attempt_ok_def split: option.splits)
  then show ?thesis using removeAndResetChannel_spec [OF laws] inv that unfolding connector_inv_def by metis
qed

text \<open>Setting the state of the attempt commutes with taking its channel out of the poller.\<close>

lemma detached_open:
  assumes inv: "connector_inv env reg fds tid s" and d: "detached env reg tid s s'"
  shows "map_of (channelMap s') f \<noteq> None \<longrightarrow> f \<in> fds (net s) - {attempt_fd s}"
  using inv d by (auto simp: connector_inv_def detached_def)

lemma detached_attempt_ok:
  assumes d: "detached env reg tid s s'" and "same_loop s' t" and "cstate t \<noteq> Connector_kConnecting"
  shows "attempt_ok t"
proof -
  obtain a c where "connectChannel s' = Some a" "map_of (channels s') a = Some c" "status c = kNew" "writeCb c" "errorCb c"
    using d unfolding detached_def by blast
  then show ?thesis using assms detached_fields(11) [OF d] by (simp add: attempt_ok_def same_loop_def)
qed

lemma detached_retry:
  assumes laws: "env_laws env reg fds" and inv: "connector_inv env reg fds tid s" and st: "cstate s = Connector_kConnecting"
    and sh: "connect_flag s \<longrightarrow> shared_owner s" and d: "detached env reg tid s s1"
  obtains s' where "retry env tid (attempt_fd s) s1 = Inr s'" "connector_inv env reg fds tid s'" "cstate s' = Connector_kDisconnected"
    "retried env s s'" "fds (net s') = fds (net s) - {attempt_fd s}" "reg (kern s') (attempt_fd s) = None"
    "pendingFunctors s' = pendingFunctors s @ [ResetChannel]" "same_loop s1 s'"
proof -
  note f = detached_fields [OF d]
  have ok: "loop_ok (ce_ctl env) reg tid s1" using d by (simp add: detached_def)
  obtain s' where s': "retry env tid (attempt_fd s) s1 = Inr s'" "cstate s' = Connector_kDisconnected" "retried env s1 s'" "same_loop s1 s'"
    "fds (net s') = fds (net s1) - {attempt_fd s}"
    by (rule retry_spec [OF laws, of s1 tid "attempt_fd s"]) (use inv st sh f ok in \<open>simp_all add: connector_inv_def loop_ok_def\<close>)
  have r: "retried env s s'" using s'(3) unfolding retried_def retry_time_def f .
  have known: "id_timer (retryTimerId s') \<in> known (timerQueue s')" if "validTimer s'"
  proof (cases "connect_flag s")
    case True
    then have "(retry_time env s, id_timer (retryTimerId s')) \<in> set (timerList (timerQueue s'))" "tq_inv (timerQueue s')"
      using r by (simp_all add: retried_def)
    then show ?thesis by (force dest: listed_known)
  next
    case False
    then show ?thesis using r inv that by (simp add: retried_def connector_inv_def)
  qed
  have "connector_inv env reg fds tid s'"
    using same_loop_ok [OF s'(4)] ok r detached_open [OF inv d] s'(4,5) detached_attempt_ok [OF d s'(4)] s'(2) f
    by (simp add: connector_inv_def known) (simp add: same_loop_def retried_def)
  moreover have "reg (kern s') (attempt_fd s) = None" "pendingFunctors s' = pendingFunctors s @ [ResetChannel]"
    using s'(4) d f by (simp_all add: same_loop_def detached_def)
  ultimately show ?thesis using s'(1,2,4,5) f r by (intro that [of s']) simp_all
qed
section \<open>Attempts\<close>

lemma connector_establish_spec:
  fixes s :: "('k, 'e, 'n, 'z) connector_scheme"
  assumes laws: "env_laws env reg fds" and inv: "connector_inv env reg fds tid s" and none: "connectChannel s = None"
    and f: "fresh_fd fds (net s) f n"
  obtains s' where "establishConnection env tid f (s\<lparr>net := n\<rparr>) = Inr s'" "connector_inv env reg fds tid s'"
    "cstate s' = Connector_kConnecting" "attempt_fd s' = f" "fds (net s') = insert f (fds (net s))"
    "reg (kern s') = (reg (kern s))(f \<mapsto> (kWriteEvent, ce_alloc env (channels s)))"
    "timerQueue s' = timerQueue s" "retryDelayMs s' = retryDelayMs s" "pendingFunctors s' = pendingFunctors s"
    "connect_flag s' = connect_flag s" "shared_owner s' = shared_owner s" "\<not> handling s'" "serverAddr s' = serverAddr s"
proof -
  let ?a = "ce_alloc env (channels s)"
  let ?c = "(Channel_ctor (this_loop s) f)\<lparr>writeCb := True, errorCb := True\<rparr>"
  let ?s1 = "s\<lparr>net := n, cstate := Connector_kConnecting, connectChannel := Some ?a\<rparr>"
  let ?s2 = "set_chan ?a ?c ?s1"
  have a: "map_of (channels s) ?a = None" using laws by (simp add: env_laws_def)
  have ok: "loop_ok (ce_ctl env) reg tid s" using inv by (simp add: connector_inv_def)
  then have "loop_ok (ce_ctl env) reg tid ?s1" by (subst loop_ok_cong [of _ s]) simp_all
  then have ok2: "loop_ok (ce_ctl env) reg tid ?s2" by (rule loop_ok_new_chan) (use a in \<open>simp_all add: Channel_ctor_def\<close>)
  have new: "map_of (channelMap s) f = None" using inv f by (auto simp: connector_inv_def fresh_fd_def)
  have c: "map_of (channels ?s2) ?a = Some ?c" by simp
  have e: "event (write_on ?c) = kWriteEvent" by (simp add: write_on_def Channel_ctor_def)
  have st: "status ?c = kNew" "fd ?c = f" by (simp_all add: Channel_ctor_def)
  obtain s' where s': "with_update write_on (ce_ctl env) tid ?a ?s2 = Inr s'" "loop_ok (ce_ctl env) reg tid s'"
    "map_of (channels s') = (map_of (channels ?s2))(?a \<mapsto> ?c\<lparr>event := kWriteEvent, status := kAdded\<rparr>)"
    "map_of (channelMap s') = (map_of (channelMap ?s2))(f \<mapsto> ?a)" "reg (kern s') = (reg (kern ?s2))(f \<mapsto> (kWriteEvent, ?a))"
    "epoller.more s' = epoller.more ?s2"
    using loop_watch.set_mask_law [OF ok2 mask_changes(2) c] new st by (auto simp: next_status_def e)
  note cf = connector_fields [OF s'(6)] loop_fields(5) [OF s'(6)]
  have run: "establishConnection env tid f (s\<lparr>net := n\<rparr>) = Inr s'"
    using s'(1) none by (simp add: establishConnection_def enableWriting_def Let_def)
  have cs: "cstate s' = Connector_kConnecting" "connectChannel s' = Some ?a" by (simp_all add: cf) (simp_all add: set_chan_def)
  have "attempt_ok s'" using s'(3) cs by (simp add: attempt_ok_def)
  then have "connector_inv env reg fds tid s'"
    using inv s'(2,4) f by (auto simp: connector_inv_def cf fresh_fd_def) (auto simp: set_chan_def)
  moreover have "attempt_fd s' = f" using s'(3) st by (simp add: attempt_fd_def cf) (simp add: set_chan_def)
  moreover have "cstate s' = Connector_kConnecting" "fds (net s') = insert f (fds (net s))"
    "reg (kern s') = (reg (kern s))(f \<mapsto> (kWriteEvent, ?a))" "timerQueue s' = timerQueue s" "retryDelayMs s' = retryDelayMs s"
    "pendingFunctors s' = pendingFunctors s" "connect_flag s' = connect_flag s" "shared_owner s' = shared_owner s" "serverAddr s' = serverAddr s"
    using s'(5) f by (simp_all add: cf fresh_fd_def) (simp_all add: set_chan_def)
  moreover have "\<not> handling s'" using s'(3) cs by (simp add: handling_def Channel_ctor_def)
  ultimately show ?thesis using that [OF run] by blast
qed

text \<open>Fields that the invariant of the connector does not mention.\<close>

lemma connector_inv_cong:
  fixes s t :: "('k, 'e, 'n, 'z) connector_scheme"
  assumes "threadId t = threadId s" "channels t = channels s" "channelMap t = channelMap s" "kern t = kern s" "this_loop t = this_loop s"
    "set (pendingFunctors s) \<subseteq> set (pendingFunctors t)" "cstate t = cstate s" "connectChannel t = connectChannel s"
    "validTimer t = validTimer s" "retryTimerId t = retryTimerId s" "timerQueue t = timerQueue s" "net t = net s"
    and inv: "connector_inv env reg fds tid s"
  shows "connector_inv env reg fds tid t"
proof -
  have "attempt_ok s" using inv by (simp add: connector_inv_def)
  then have "attempt_ok t"
    using assms(2,6,7,8) unfolding attempt_ok_def
    by (cases "connectChannel s"; cases "cstate s = Connector_kConnecting") auto
  then show ?thesis using assms loop_ok_cong [of t s "ce_ctl env" reg tid] by (simp add: connector_inv_def)
qed

lemma resetChannel_spec:
  assumes inv: "connector_inv env reg fds tid s" and st: "cstate s \<noteq> Connector_kConnecting" "connectChannel s = Some a"
    "map_of (channels s) a = Some c" "\<not> isHandlingEvent c"
  obtains s' where "resetChannel s = Inr s'" "connector_inv env reg fds tid s'" "connectChannel s' = None"
    "s' = s\<lparr>connectChannel := None, channels := filter (\<lambda>x. fst x \<noteq> a) (channels s)\<rparr>"
proof -
  let ?s = "s\<lparr>connectChannel := None, channels := filter (\<lambda>x. fst x \<noteq> a) (channels s)\<rparr>"
  have "status c = kNew" using inv st by (simp add: connector_inv_def attempt_ok_def)
  then have "loop_ok (ce_ctl env) reg tid (s\<lparr>channels := filter (\<lambda>x. fst x \<noteq> a) (channels s)\<rparr>)"
    using loop_ok_del_chan [OF _ st(3)] inv unfolding connector_inv_def by blast
  then have "loop_ok (ce_ctl env) reg tid ?s"
    by (subst loop_ok_cong [of _ "s\<lparr>channels := filter (\<lambda>x. fst x \<noteq> a) (channels s)\<rparr>"]) simp_all
  then have "connector_inv env reg fds tid ?s" using inv st(1) by (simp add: connector_inv_def attempt_ok_def)
  moreover have "resetChannel s = Inr ?s" using st by (simp add: resetChannel_def chan_at_Some Channel_dtor_def)
  ultimately show ?thesis using that by simp
qed

text \<open>What an attempt does, by the result of \<^verbatim>\<open>connect\<close>.\<close>

lemma startInLoop_eq:
  fixes s :: "('k, 'e, 'n, 'z) connector_scheme"
  assumes "threadId s = tid" and "cstate s = Connector_kDisconnected" "connect_flag s"
    and "sys_socket (ce_sys env) (net s) = (Inr f, n)" and "sys_connect (ce_sys env) f (serverAddr s) n = (r, n1)"
    and "e = (case r of None \<Rightarrow> 0 | Some e \<Rightarrow> e)"
  shows "startInLoop env tid s = (if connect_in_progress e then establishConnection env tid f (s\<lparr>net := n1\<rparr>)
      else if connect_soft_error e then Inl (AssertFailed ''state_ == kConnecting'')
      else Inr (s\<lparr>net := close_fd (ce_sys env) f n1\<rparr>))"
  using assms
  by (simp add: startInLoop_def connector_connect_def createNonblockingOrDie_def connect_def getSockAddrIn_def retry_def Let_def)

lemma startInLoop_no_socket:
  assumes "threadId s = tid" and "cstate s = Connector_kDisconnected" "connect_flag s"
    and "sys_socket (ce_sys env) (net s) = (Inl e, n)"
  shows "startInLoop env tid s = Inl (CriticalAbort ''sockets::createNonblockingOrDie'')"
  using assms by (simp add: startInLoop_def connector_connect_def createNonblockingOrDie_def)

lemma attempt_fresh:
  assumes laws: "env_laws env reg fds"
    and "sys_socket (ce_sys env) m = (Inr f, n)" and "sys_connect (ce_sys env) f a n = (r, n1)"
  shows "fresh_fd fds m f n1" "f \<notin> fds m" "fds (close_fd (ce_sys env) f n1) = fds m"
proof -
  have fl: "fd_laws (ce_sys env) fds" using laws by (simp add: env_laws_def)
  have "fresh_fd fds m f n" by (rule fd_laws_new(1) [OF fl assms(2)])
  moreover have "fds n1 = fds n" using fd_laws_simps(4) [OF fl, of f a n] assms(3) by simp
  ultimately show f: "fresh_fd fds m f n1" by (simp add: fresh_fd_def)
  show "f \<notin> fds m" using f by (simp add: fresh_fd_def)
  show "fds (close_fd (ce_sys env) f n1) = fds m" using f by (auto simp: fd_laws_simps(1) [OF fl] fresh_fd_def)
qed

section \<open>Properties\<close>

text \<open>
  An attempt to connect.  With the connector idle, \<^verbatim>\<open>startInLoop\<close> takes a new descriptor, or aborts if there is
  none.  If \<^verbatim>\<open>connect\<close> succeeds or is on its way, the connector is in \<^verbatim>\<open>kConnecting\<close> and watches exactly that
  descriptor for writing, one more descriptor is open; after an error that rules the connection out, the
  descriptor is closed and nothing else has changed (there is no further attempt); after an error that
  should lead to another attempt, the assertion of \<^verbatim>\<open>retry\<close> that the state is \<^verbatim>\<open>kConnecting\<close> fails.\<close>
theorem connect_outcome:
  fixes s :: "('k, 'e, 'n, 'z) connector_scheme"
  assumes laws: "env_laws env reg fds" and inv: "connector_inv env reg fds tid s"
    and idle: "cstate s = Connector_kDisconnected" "connectChannel s = None" "connect_flag s"
  shows "case sys_socket (ce_sys env) (net s) of
      (Inl e, n) \<Rightarrow> startInLoop env tid s = Inl (CriticalAbort ''sockets::createNonblockingOrDie'')
    | (Inr f, n) \<Rightarrow>
        let e = (case fst (sys_connect (ce_sys env) f (serverAddr s) n) of None \<Rightarrow> 0 | Some e \<Rightarrow> e) in
        if connect_in_progress e then \<exists>s'. startInLoop env tid s = Inr s' \<and> connector_inv env reg fds tid s' \<and>
          cstate s' = Connector_kConnecting \<and> attempt_fd s' = f \<and> f \<notin> fds (net s) \<and> fds (net s') = insert f (fds (net s)) \<and>
          reg (kern s') = (reg (kern s))(f \<mapsto> (kWriteEvent, ce_alloc env (channels s)))
        else if connect_soft_error e then startInLoop env tid s = Inl (AssertFailed ''state_ == kConnecting'')
        else \<exists>s'. startInLoop env tid s = Inr s' \<and> s' = s\<lparr>net := net s'\<rparr> \<and> fds (net s') = fds (net s)"
proof -
  have thr: "threadId s = tid" using inv by (simp add: connector_inv_def loop_ok_def)
  obtain rs n where rs: "sys_socket (ce_sys env) (net s) = (rs, n)" by (cases "sys_socket (ce_sys env) (net s)")
  show ?thesis
  proof (cases rs)
    case (Inl e)
    then show ?thesis using startInLoop_no_socket [OF thr idle(1,3)] rs by simp
  next
    case (Inr f)
    obtain r n1 where conn: "sys_connect (ce_sys env) f (serverAddr s) n = (r, n1)" by (cases "sys_connect (ce_sys env) f (serverAddr s) n")
    have sock: "sys_socket (ce_sys env) (net s) = (Inr f, n)" using rs Inr by simp
    note f = attempt_fresh [OF laws sock conn] note run = startInLoop_eq [OF thr idle(1,3) sock conn refl]
    obtain s' where "establishConnection env tid f (s\<lparr>net := n1\<rparr>) = Inr s'" "connector_inv env reg fds tid s'"
      "cstate s' = Connector_kConnecting" "attempt_fd s' = f" "fds (net s') = insert f (fds (net s))"
      "reg (kern s') = (reg (kern s))(f \<mapsto> (kWriteEvent, ce_alloc env (channels s)))"
      by (rule connector_establish_spec [OF laws inv idle(2) f(1)])
    then show ?thesis using sock conn run f by (auto simp: Let_def)
  qed
qed

text \<open>
  The end of an attempt.  When the descriptor becomes writable, \<^verbatim>\<open>handleWrite\<close> drops it from the poller in
  every case.  Without an error it is handed to the callback, still open, or closed if the connector was
  stopped meanwhile; after an error or a connection to itself it is closed, and unless
  the connector was stopped one timer is set for the next attempt and the delay is doubled, up to 30 seconds.\<close>
theorem handleWrite_outcome:
  fixes s :: "('k, 'e, 'n, 'z) connector_scheme"
  assumes laws: "env_laws env reg fds" and inv: "connector_inv env reg fds tid s" and st: "cstate s = Connector_kConnecting"
    and sh: "shared_owner s"
  shows "let f = attempt_fd s; bad = (getSocketError (ce_sys env) f (net s) \<noteq> 0 \<or> isSelfConnect (ce_sys env) f (net s)) in
    \<exists>s'. handleWrite env (Some (\<lambda>f t. Inr (on_new f t))) tid s = Inr (if bad \<or> \<not> connect_flag s then s' else on_new f s') \<and>
      connector_inv env reg fds tid s' \<and> reg (kern s') f = None \<and> pendingFunctors s' = pendingFunctors s @ [ResetChannel] \<and>
      cstate s' = (if bad then Connector_kDisconnected else Connector_kConnected) \<and>
      fds (net s') = (if bad \<or> \<not> connect_flag s then fds (net s) - {f} else fds (net s)) \<and>
      (if bad then retried env s s' else timerQueue s' = timerQueue s)"
proof -
  have fl: "fd_laws (ce_sys env) fds" using laws by (simp add: env_laws_def)
  obtain s1 where s1: "removeAndResetChannel env tid s = Inr (attempt_fd s, s1)" "detached env reg tid s s1"
    by (rule attempt_detach [OF laws inv st])
  note d = detached_fields [OF s1(2)]
  define bad where "bad = (getSocketError (ce_sys env) (attempt_fd s) (net s) \<noteq> 0 \<or> isSelfConnect (ce_sys env) (attempt_fd s) (net s))"
  let ?c = "s1\<lparr>cstate := Connector_kConnected\<rparr>"
  let ?k = "?c\<lparr>net := close_fd (ce_sys env) (attempt_fd s) (net s)\<rparr>"
  have run: "handleWrite env (Some (\<lambda>f t. Inr (on_new f t))) tid s =
      (if bad then retry env tid (attempt_fd s) s1 else if connect_flag s then Inr (on_new (attempt_fd s) ?c) else Inr ?k)"
    using st s1(1) d by (simp add: handleWrite_def bad_def)
  obtain s2 where s2: "retry env tid (attempt_fd s) s1 = Inr s2" "connector_inv env reg fds tid s2" "cstate s2 = Connector_kDisconnected"
    "retried env s s2" "fds (net s2) = fds (net s) - {attempt_fd s}" "reg (kern s2) (attempt_fd s) = None"
    "pendingFunctors s2 = pendingFunctors s @ [ResetChannel]" "same_loop s1 s2"
    by (rule detached_retry [OF laws inv st _ s1(2)]) (use sh in simp)
  have ok: "loop_ok (ce_ctl env) reg tid ?c" "loop_ok (ce_ctl env) reg tid ?k"
    using s1(2) by (auto simp: detached_def loop_ok_cong [of ?c s1] loop_ok_cong [of ?k s1])
  have at: "attempt_ok ?c" "attempt_ok ?k" by (rule detached_attempt_ok [OF s1(2)]; simp add: same_loop_def)+
  have cinv: "connector_inv env reg fds tid ?c" "connector_inv env reg fds tid ?k"
    using ok at detached_open [OF inv s1(2)] inv d by (auto simp: connector_inv_def fd_laws_simps(1) [OF fl])
  have r: "reg (kern s1) (attempt_fd s) = None" using s1(2) by (simp add: detached_def)
  let ?s = "if bad then s2 else if connect_flag s then ?c else ?k"
  show ?thesis
    unfolding Let_def bad_def [symmetric]
  proof (rule exI [of _ ?s], intro conjI)
    show "handleWrite env (Some (\<lambda>f t. Inr (on_new f t))) tid s = Inr (if bad \<or> \<not> connect_flag s then ?s else on_new (attempt_fd s) ?s)"
      using run s2(1) by simp
  qed (use s2 cinv r d in \<open>simp_all add: fd_laws_simps(1) [OF fl]\<close>)
qed
text \<open>
  An attempt that fails: the retry timer calls \<^verbatim>\<open>startInLoop\<close>, the descriptor reports an error, and the loop runs
  its functors.
\<close>

definition failed_attempt ::
  "('k, 'n) connector_env \<Rightarrow> int \<Rightarrow> ('k, 'e, 'n, 'z) connector_scheme \<Rightarrow> ('k, 'e, 'n, 'z) connector_scheme result" where
  "failed_attempt env tid s =
     rbind (startInLoop env tid s) (\<lambda>s1.
     rbind (handleError env tid s1) (doPendingFunctors (run_connector_functor env (\<lambda>e. Inr) tid)))"

fun failed_attempts ::
  "('k, 'n) connector_env \<Rightarrow> int \<Rightarrow> nat \<Rightarrow> ('k, 'e, 'n, 'z) connector_scheme \<Rightarrow> ('k, 'e, 'n, 'z) connector_scheme result" where
  "failed_attempts env tid 0 s = Inr s"
| "failed_attempts env tid (Suc n) s = rbind (failed_attempts env tid n s) (failed_attempt env tid)"

text \<open>An idle connector that goes on trying, with sockets at hand and connections that are always on their way.\<close>

definition idle_trying :: "('k, 'e, 'n, 'z) connector_scheme \<Rightarrow> bool" where
  "idle_trying s \<longleftrightarrow> cstate s = Connector_kDisconnected \<and> connectChannel s = None \<and> connect_flag s \<and> shared_owner s \<and> pendingFunctors s = []"

definition reachable_net :: "'n socket_api \<Rightarrow> bool" where
  "reachable_net sys \<longleftrightarrow> (\<forall>n. \<exists>f n'. sys_socket sys n = (Inr f, n')) \<and> (\<forall>f a n. fst (sys_connect sys f a n) = Some EINPROGRESS)"

text \<open>\<^verbatim>\<open>startInLoop\<close> on an idle connector whose peer does not answer at once.\<close>

lemma startInLoop_reachable:
  fixes s :: "('k, 'e, 'n, 'z) connector_scheme"
  assumes laws: "env_laws env reg fds" and inv: "connector_inv env reg fds tid s" and net: "reachable_net (ce_sys env)"
    and idle: "cstate s = Connector_kDisconnected" "connectChannel s = None" "connect_flag s"
  obtains f n s' where "startInLoop env tid s = Inr s'" "establishConnection env tid f (s\<lparr>net := n\<rparr>) = Inr s'"
    "connector_inv env reg fds tid s'" "cstate s' = Connector_kConnecting" "attempt_fd s' = f" "f \<notin> fds (net s)"
    "fds (net s') = insert f (fds (net s))" "retryDelayMs s' = retryDelayMs s" "pendingFunctors s' = pendingFunctors s"
    "connect_flag s'" "shared_owner s' = shared_owner s" "timerQueue s' = timerQueue s" "\<not> handling s'"
proof -
  have fl: "fd_laws (ce_sys env) fds" using laws by (simp add: env_laws_def)
  obtain f n where sock: "sys_socket (ce_sys env) (net s) = (Inr f, n)" using net unfolding reachable_net_def by blast
  obtain n1 where conn: "sys_connect (ce_sys env) f (serverAddr s) n = (Some EINPROGRESS, n1)"
    using net unfolding reachable_net_def by (metis prod.collapse)
  have "fds n1 = fds n" using fd_laws_simps(4) [OF fl, of f "serverAddr s" n] conn by simp
  then have f: "fresh_fd fds (net s) f n1" using fd_laws_new(1) [OF fl sock] by (simp add: fresh_fd_def)
  have thr: "threadId s = tid" using inv by (simp add: connector_inv_def loop_ok_def)
  obtain s' where s': "establishConnection env tid f (s\<lparr>net := n1\<rparr>) = Inr s'" "connector_inv env reg fds tid s'"
    "cstate s' = Connector_kConnecting" "attempt_fd s' = f" "fds (net s') = insert f (fds (net s))"
    "timerQueue s' = timerQueue s" "retryDelayMs s' = retryDelayMs s" "pendingFunctors s' = pendingFunctors s"
    "connect_flag s' = connect_flag s" "shared_owner s' = shared_owner s" "\<not> handling s'"
    using connector_establish_spec [OF laws inv idle(2) f] by metis
  moreover have "startInLoop env tid s = Inr s'"
    using idle sock conn thr s'(1) by (simp add: startInLoop_def connector_connect_def createNonblockingOrDie_def connect_def getSockAddrIn_def
        connect_in_progress_def)
  moreover have "f \<notin> fds (net s)" using f by (simp add: fresh_fd_def)
  ultimately show ?thesis using idle that by simp
qed

lemma failed_attempt_spec:
  assumes laws: "env_laws env reg fds" and inv: "connector_inv env reg fds tid s" and idle: "idle_trying s"
    and net: "reachable_net (ce_sys env)"
  obtains s' where "failed_attempt env tid s = Inr s'" "connector_inv env reg fds tid s'" "idle_trying s'" "retried env s s'"
    "fds (net s') = fds (net s)"
proof -
  note i = idle [unfolded idle_trying_def]
  obtain f n s1 where s1: "startInLoop env tid s = Inr s1" "connector_inv env reg fds tid s1"
    "cstate s1 = Connector_kConnecting" "attempt_fd s1 = f" "f \<notin> fds (net s)" "fds (net s1) = insert f (fds (net s))"
    "timerQueue s1 = timerQueue s" "retryDelayMs s1 = retryDelayMs s" "connect_flag s1 = connect_flag s" "pendingFunctors s1 = pendingFunctors s"
    "shared_owner s1 = shared_owner s" "\<not> handling s1"
    by (rule startInLoop_reachable [OF laws inv net]) (use i in simp_all)
  obtain s2 where s2: "removeAndResetChannel env tid s1 = Inr (attempt_fd s1, s2)" "detached env reg tid s1 s2"
    by (rule attempt_detach [OF laws s1(2,3)])
  obtain s3 where s3: "retry env tid (attempt_fd s1) s2 = Inr s3" "connector_inv env reg fds tid s3" "cstate s3 = Connector_kDisconnected"
    "retried env s1 s3" "fds (net s3) = fds (net s1) - {attempt_fd s1}" "pendingFunctors s3 = pendingFunctors s1 @ [ResetChannel]" "same_loop s2 s3"
    by (rule detached_retry [OF laws s1(2,3) _ s2(2)]) (use i s1 in simp)
  have err: "handleError env tid s1 = Inr s3" using s1(3) s2(1) s3(1) by (simp add: handleError_def)
  let ?s4 = "s3\<lparr>callingPendingFunctors := True, pendingFunctors := []\<rparr>"
  obtain a c where a: "connectChannel s3 = Some a" "map_of (channels s3) a = Some c" "status c = kNew" "\<not> isHandlingEvent c"
    using s2(2) s3(7) s1(12) by (auto simp: detached_def same_loop_def handling_def split: option.splits)
  let ?s5 = "?s4\<lparr>connectChannel := None, channels := filter (\<lambda>x. fst x \<noteq> a) (channels s3)\<rparr>"
  let ?s6 = "?s5\<lparr>callingPendingFunctors := False\<rparr>"
  have reset: "resetChannel ?s4 = Inr ?s5" using a by (simp add: resetChannel_def chan_at_def Channel_dtor_def)
  have "doPendingFunctors (run_connector_functor env (\<lambda>e. Inr) tid) s3 = Inr ?s6"
    using s3(6) s1(10) i reset by (simp add: doPendingFunctors_def swap_functors_def)
  then have run: "failed_attempt env tid s = Inr ?s6" by (simp add: failed_attempt_def s1(1) err)
  have "loop_ok (ce_ctl env) reg tid (s3\<lparr>channels := filter (\<lambda>x. fst x \<noteq> a) (channels s3)\<rparr>)"
    using loop_ok_del_chan [OF _ a(2,3)] s3(2) unfolding connector_inv_def by blast
  then have "loop_ok (ce_ctl env) reg tid ?s6"
    by (subst loop_ok_cong [of _ "s3\<lparr>channels := filter (\<lambda>x. fst x \<noteq> a) (channels s3)\<rparr>"]) simp_all
  then have "connector_inv env reg fds tid ?s6" using s3(2,3) by (simp add: connector_inv_def attempt_ok_def)
  moreover have "idle_trying ?s6"
    using i s3(3,7) detached_fields [OF s2(2)] s1 by (simp add: idle_trying_def same_loop_def)
  moreover have "retried env s ?s6" using s3(4) i unfolding retried_def retry_time_def s1(7,8,9) by simp
  moreover have "fds (net ?s6) = fds (net s)" using s3(5) s1(4,5,6) by auto
  ultimately show ?thesis using that [OF run] by blast
qed

lemma retry_seconds: "0 \<le> k \<Longrightarrow> k < 2 ^ 53 \<Longrightarrow> round_double (of_int (1000 * k) / 1000) = of_int k"
  using round_double_int [of k] by simp

text \<open>
  Backing off, for a connector owned by a \<^verbatim>\<open>std::shared_ptr\<close> (that of \<^verbatim>\<open>TcpClient\<close> is not) and on a network where
  \<^verbatim>\<open>connect\<close> is always on its way at first (after an immediate error the connector aborts or gives up).  If
  every attempt then fails, such a connector makes one attempt after the other and loses no descriptor;
  after the \<open>n\<close>-th failure the next attempt is due \<open>min (5 * 2 ^ n) 30\<close> seconds later.\<close>
theorem retry_backoff:
  fixes s :: "('k, 'e, 'n, 'z) connector_scheme"
  assumes laws: "env_laws env reg fds" and inv: "connector_inv env reg fds tid s" and idle: "idle_trying s"
    and net: "reachable_net (ce_sys env)" and init: "retryDelayMs s = kInitRetryDelayMs"
  shows "\<exists>sn s' timer. failed_attempts env tid n s = Inr sn \<and> failed_attempt env tid sn = Inr s' \<and>
    fds (net s') = fds (net s) \<and> cstate s' = Connector_kDisconnected \<and>
    set (timerList (timerQueue s')) =
      insert (addTime (clk (ce_timer env) (ticks (timerQueue sn))) (min (5 * 2 ^ n) 30), timer) (set (timerList (timerQueue sn)))"
proof -
  have step: "\<exists>sn. failed_attempts env tid n s = Inr sn \<and> connector_inv env reg fds tid sn \<and> idle_trying sn \<and>
      fds (net sn) = fds (net s) \<and> retryDelayMs sn = 1000 * min (5 * 2 ^ n) 30"
  proof (induction n)
    case 0
    then show ?case using inv idle init by (simp add: kInitRetryDelayMs_def)
  next
    case (Suc n)
    then obtain sn where sn: "failed_attempts env tid n s = Inr sn" "connector_inv env reg fds tid sn" "idle_trying sn"
      "fds (net sn) = fds (net s)" "retryDelayMs sn = 1000 * min (5 * 2 ^ n) 30" by blast
    obtain s' where s': "failed_attempt env tid sn = Inr s'" "connector_inv env reg fds tid s'" "idle_trying s'" "retried env sn s'"
      "fds (net s') = fds (net sn)"
      by (rule failed_attempt_spec [OF laws sn(2,3) net])
    have "retryDelayMs s' = 1000 * min (5 * 2 ^ Suc n) 30"
      using s'(4) sn(3,5) by (auto simp: retried_def idle_trying_def kMaxRetryDelayMs_def min_def)
    with sn s' show ?case by simp
  qed
  then obtain sn where sn: "failed_attempts env tid n s = Inr sn" "connector_inv env reg fds tid sn" "idle_trying sn"
    "fds (net sn) = fds (net s)" "retryDelayMs sn = 1000 * min (5 * 2 ^ n) 30" by blast
  obtain s' where s': "failed_attempt env tid sn = Inr s'" "connector_inv env reg fds tid s'" "idle_trying s'" "retried env sn s'"
    "fds (net s') = fds (net sn)"
    by (rule failed_attempt_spec [OF laws sn(2,3) net])
  have "round_double (of_int (retryDelayMs sn) / 1000) = of_int (min (5 * 2 ^ n) 30)"
    unfolding sn(5) by (rule retry_seconds) auto
  then have "retry_time env sn = addTime (clk (ce_timer env) (ticks (timerQueue sn))) (min (5 * 2 ^ n) 30)"
    by (simp add: retry_time_def of_int_min)
  with sn s' show ?thesis
    by (intro exI [of _ sn] exI [of _ s'] exI [of _ "id_timer (retryTimerId s')"]) (simp add: retried_def idle_trying_def)
qed
text \<open>Cancelling the retry timer, if one was ever set.\<close>

lemma cancel_retry:
  assumes inv: "connector_inv env reg fds tid s"
  obtains q where "(if validTimer s then cancelTimerInLoop (retryTimerId s) (timerQueue s) else Inr (timerQueue s)) = Inr q" "tq_inv q"
    "timers q = timers (timerQueue s)" "if validTimer s then id_timer (retryTimerId s) \<notin> listed q else q = timerQueue s"
proof (cases "validTimer s")
  case True
  then have "tq_inv (timerQueue s)" "id_timer (retryTimerId s) \<in> known (timerQueue s)" using inv by (simp_all add: connector_inv_def)
  then show ?thesis by (rule cancelTimerInLoop_spec) (use True that in simp)
next
  case False
  then show ?thesis using inv that [of "timerQueue s"] by (simp add: connector_inv_def)
qed

text \<open>
  Stopping in the middle of an attempt.  In the loop thread \<^verbatim>\<open>stop()\<close> closes the descriptor of the attempt,
  takes it out of the poller and cancels the retry timer.  The channel object itself stays until the loop runs its functors: a
  \<^verbatim>\<open>start()\<close> before that fails the assertion \<^verbatim>\<open>!connectChannel_\<close> if the new attempt gets under way,
  and so does the destructor of the connector whenever it finds an attempt under way.\<close>
theorem stop_while_connecting:
  fixes s :: "('k, 'e, 'n, 'z) connector_scheme"
  assumes laws: "env_laws env reg fds" and inv: "connector_inv env reg fds tid s" and st: "cstate s = Connector_kConnecting"
    and net: "reachable_net (ce_sys env)"
  shows "\<exists>s1. stop env tid s = Inr s1 \<and> connector_inv env reg fds tid s1 \<and> cstate s1 = Connector_kDisconnected \<and>
    fds (net s1) = fds (net s) - {attempt_fd s} \<and> reg (kern s1) (attempt_fd s) = None \<and>
    (if validTimer s then id_timer (retryTimerId s) \<notin> listed (timerQueue s1) else timerQueue s1 = timerQueue s) \<and>
    start env tid s1 = Inl (AssertFailed ''!connectChannel_'') \<and>
    Connector_dtor env tid s = Inl (AssertFailed ''!connectChannel_'')"
proof -
  have fl: "fd_laws (ce_sys env) fds" using laws by (simp add: env_laws_def)
  have thr: "threadId s = tid" using inv by (simp add: connector_inv_def loop_ok_def)
  let ?s0 = "s\<lparr>connect_flag := False, cstate := Connector_kDisconnected\<rparr>"
  obtain a c where a: "connectChannel s = Some a" "map_of (channels s) a = Some c" "status c = kAdded" "writeCb c" "errorCb c"
    using inv st by (auto simp: connector_inv_def attempt_ok_def split: option.splits)
  have "loop_ok (ce_ctl env) reg tid s" using inv by (simp add: connector_inv_def)
  then have "loop_ok (ce_ctl env) reg tid ?s0" by (subst loop_ok_cong [of _ s]) simp_all
  then obtain s1 where s1: "removeAndResetChannel env tid ?s0 = Inr (attempt_fd ?s0, s1)" "detached env reg tid ?s0 s1"
    by (rule removeAndResetChannel_spec [OF laws]) (use a in simp_all)
  note d = detached_fields [OF s1(2)]
  have fd: "attempt_fd ?s0 = attempt_fd s" using a by (simp add: attempt_fd_def)
  let ?s2 = "s1\<lparr>net := close_fd (ce_sys env) (attempt_fd s) (net s)\<rparr>"
  have stopIn: "stopInLoop env tid (s\<lparr>connect_flag := False\<rparr>) = Inr ?s2"
    using st thr s1(1) d by (simp add: stopInLoop_def fd)
  obtain q where q: "(if validTimer s then cancelTimerInLoop (retryTimerId s) (timerQueue s) else Inr (timerQueue s)) = Inr q" "tq_inv q"
    "timers q = timers (timerQueue s)" "if validTimer s then id_timer (retryTimerId s) \<notin> listed q else q = timerQueue s"
    by (rule cancel_retry [OF inv])
  let ?s3 = "?s2\<lparr>timerQueue := q\<rparr>"
  have thr1: "threadId s1 = tid" using s1(2) by (simp add: detached_def loop_ok_def)
  have same: "validTimer s = False \<Longrightarrow> ?s3 = ?s2" using q(1) d(9) by (cases s1) simp
  have run: "stop env tid s = Inr ?s3"
    using q(1) thr thr1 stopIn d same
    by (cases "validTimer s") (simp_all add: stop_def runInLoop_def isInLoopThread_def loop_cancelTimer_def cancelTimer_def queue_timer_def)
  have "loop_ok (ce_ctl env) reg tid ?s3" using s1(2) by (subst loop_ok_cong [of _ s1]) (simp_all add: detached_def)
  moreover have "attempt_ok ?s3" by (rule detached_attempt_ok [OF s1(2)]) (simp_all add: same_loop_def d)
  moreover have "map_of (channelMap s1) f \<noteq> None \<longrightarrow> f \<in> fds (net s) - {attempt_fd s}" for f
    using s1(2) inv by (auto simp: detached_def connector_inv_def fd)
  ultimately have inv3: "connector_inv env reg fds tid ?s3"
    using inv q(2,3) d by (simp add: connector_inv_def fd_laws_simps(1) [OF fl])
  have chan3: "connectChannel ?s3 = Some a" using d a by simp
  obtain f n where sock: "sys_socket (ce_sys env) (net ?s3) = (Inr f, n)" using net unfolding reachable_net_def by blast
  obtain n1 where conn: "sys_connect (ce_sys env) f (serverAddr ?s3) n = (Some EINPROGRESS, n1)"
    using net unfolding reachable_net_def by (metis prod.collapse)
  have "start env tid ?s3 = Inl (AssertFailed ''!connectChannel_'')"
    using sock conn thr1 chan3 d by (simp add: start_def runInLoop_def isInLoopThread_def startInLoop_def connector_connect_def
        createNonblockingOrDie_def connect_def getSockAddrIn_def connect_in_progress_def establishConnection_def)
  moreover have "Connector_dtor env tid s = Inl (AssertFailed ''!connectChannel_'')"
    using run chan3 a by (simp add: Connector_dtor_def)
  moreover have "reg (kern ?s3) (attempt_fd s) = None" using s1(2) by (simp add: detached_def fd)
  ultimately show ?thesis
    using run inv3 q(4) d by (intro exI [of _ ?s3]) (simp add: fd_laws_simps(1) [OF fl])
qed

section \<open>Witnesses\<close>

definition sample_connector_env :: "(int \<Rightarrow> (event_mask \<times> nat) option, table_net) connector_env" where
  "sample_connector_env = \<lparr>ce_ctl = table_ctl, ce_sys = table_api, ce_timer = sample_env, ce_alloc = first_free\<rparr>"

definition sample_connector :: "(int \<Rightarrow> (event_mask \<times> nat) option, nat, table_net) connector" where
  "sample_connector = (Connector_ctor (new_event_loop 1 7 (3, 30) (4, 40) Map.empty) zero_addr True (new_timer_queue 0)
     \<lparr>open_fds = [2, 1, 0], backlog = []\<rparr>)\<lparr>connect_flag := True\<rparr>"

lemma sample_env_laws: "env_laws sample_connector_env id table_fds"
  by (simp add: env_laws_def sample_connector_env_def table_laws table_fd_laws sample_env_alloc first_free_unused)

lemma sample_reachable: "reachable_net (ce_sys sample_connector_env)"
  by (auto simp: reachable_net_def sample_connector_env_def table_api_def map_prod_def split_beta)

lemma sample_connector_idle:
  "idle_trying sample_connector" "retryDelayMs sample_connector = kInitRetryDelayMs" "open_fds (net sample_connector) = [2, 1, 0]"
  by (simp_all add: idle_trying_def sample_connector_def Connector_ctor_def event_loop.extend_def new_event_loop_def)

lemma sample_connector_inv: "connector_inv sample_connector_env id table_fds 1 sample_connector"
proof -
  let ?l = "new_event_loop 1 7 (3, 30) (4, 40) Map.empty :: (_, nat connector_functor) event_loop"
  have "loop_ok table_ctl id 1 ?l" by (rule new_event_loop_ok [OF table_laws]) simp
  then have "loop_ok table_ctl id 1 sample_connector"
    by (subst loop_ok_cong [of _ ?l]) (simp_all add: sample_connector_def Connector_ctor_def event_loop.extend_def new_event_loop_def)
  then show ?thesis
    by (simp add: connector_inv_def sample_connector_env_def)
      (simp add: sample_connector_def Connector_ctor_def event_loop.extend_def new_event_loop_def attempt_ok_def tq_inv_def
        new_timer_queue_def map_ok_def)
qed

lemma sample_socket: "sys_socket table_api (net sample_connector) = (Inr 3, \<lparr>open_fds = [3, 2, 1, 0], backlog = []\<rparr>)"
  "sys_connect table_api 3 zero_addr \<lparr>open_fds = [3, 2, 1, 0], backlog = []\<rparr> = (Some EINPROGRESS, \<lparr>open_fds = [3, 2, 1, 0], backlog = []\<rparr>)"
  by (simp_all add: table_api_def table_new_def sample_connector_def Connector_ctor_def event_loop.extend_def)

theorem connect_outcome_witness:
  "\<exists>s. startInLoop sample_connector_env 1 sample_connector = Inr s \<and> cstate s = Connector_kConnecting \<and> attempt_fd s = 3 \<and>
     table_fds (net s) = {0, 1, 2, 3}"
proof -
  have "serverAddr sample_connector = zero_addr" "ce_sys sample_connector_env = table_api"
    by (simp_all add: sample_connector_def sample_connector_env_def Connector_ctor_def event_loop.extend_def)
  then have "sys_socket (ce_sys sample_connector_env) (net sample_connector) = (Inr 3, \<lparr>open_fds = [3, 2, 1, 0], backlog = []\<rparr>)"
    "sys_connect (ce_sys sample_connector_env) 3 (serverAddr sample_connector) \<lparr>open_fds = [3, 2, 1, 0], backlog = []\<rparr> =
       (Some EINPROGRESS, \<lparr>open_fds = [3, 2, 1, 0], backlog = []\<rparr>)"
    using sample_socket by simp_all
  with connect_outcome [OF sample_env_laws sample_connector_inv] sample_connector_idle
  show ?thesis by (auto simp: idle_trying_def connect_in_progress_def table_fds_def)
qed

text \<open>The sample connector in the middle of its first attempt.\<close>

lemma sample_attempt:
  obtains s where "startInLoop sample_connector_env 1 sample_connector = Inr s" "connector_inv sample_connector_env id table_fds 1 s"
    "cstate s = Connector_kConnecting" "attempt_fd s = 3" "table_fds (net s) = {0, 1, 2, 3}" "shared_owner s" "connect_flag s"
proof -
  have f: "fresh_fd table_fds (net sample_connector) 3 \<lparr>open_fds = [3, 2, 1, 0], backlog = []\<rparr>"
    using sample_connector_idle(3) by (auto simp: fresh_fd_def table_fds_def)
  note i = sample_connector_idle(1) [unfolded idle_trying_def]
  obtain s where s: "establishConnection sample_connector_env 1 3 (sample_connector\<lparr>net := \<lparr>open_fds = [3, 2, 1, 0], backlog = []\<rparr>\<rparr>) = Inr s"
    "connector_inv sample_connector_env id table_fds 1 s" "cstate s = Connector_kConnecting" "attempt_fd s = 3"
    "table_fds (net s) = insert 3 (table_fds (net sample_connector))" "connect_flag s = connect_flag sample_connector"
    "shared_owner s = shared_owner sample_connector"
    using connector_establish_spec [OF sample_env_laws sample_connector_inv _ f] i by metis
  have "serverAddr sample_connector = zero_addr" "ce_sys sample_connector_env = table_api" "threadId sample_connector = 1"
    by (simp_all add: sample_connector_def sample_connector_env_def Connector_ctor_def event_loop.extend_def new_event_loop_def)
  then have "startInLoop sample_connector_env 1 sample_connector = Inr s"
    using i s(1) sample_socket by (simp add: startInLoop_def connector_connect_def createNonblockingOrDie_def connect_def getSockAddrIn_def
        connect_in_progress_def)
  then show ?thesis using s i sample_connector_idle(3) that by (auto simp: table_fds_def)
qed

theorem handleWrite_outcome_witness:
  "\<exists>s s'. startInLoop sample_connector_env 1 sample_connector = Inr s \<and>
     handleWrite sample_connector_env (Some (\<lambda>f t. Inr t)) 1 s = Inr s' \<and> cstate s' = Connector_kConnected \<and>
     table_fds (net s') = {0, 1, 2, 3} \<and> kern s' 3 = None"
proof -
  obtain s where s: "startInLoop sample_connector_env 1 sample_connector = Inr s" "connector_inv sample_connector_env id table_fds 1 s"
    "cstate s = Connector_kConnecting" "attempt_fd s = 3" "table_fds (net s) = {0, 1, 2, 3}" "shared_owner s" "connect_flag s"
    by (rule sample_attempt)
  have "getSocketError (ce_sys sample_connector_env) 3 (net s) = 0" "\<not> isSelfConnect (ce_sys sample_connector_env) 3 (net s)"
    by (simp_all add: getSocketError_def isSelfConnect_def getLocalAddr_def getPeerAddr_def sample_connector_env_def table_api_def zero_addr_def)
  then show ?thesis
    using handleWrite_outcome [OF sample_env_laws s(2,3,6), of "\<lambda>f t. t"] s by auto
qed

theorem retry_backoff_witness:
  "\<exists>sn s' timer. failed_attempts sample_connector_env 1 3 sample_connector = Inr sn \<and> failed_attempt sample_connector_env 1 sn = Inr s' \<and>
     table_fds (net s') = {0, 1, 2} \<and>
     set (timerList (timerQueue s')) = insert (addTime (Timestamp 5000000) 30, timer) (set (timerList (timerQueue sn)))"
proof -
  have "clk (ce_timer sample_connector_env) = (\<lambda>n. Timestamp 5000000)" by (simp add: sample_connector_env_def sample_env_def)
  moreover have "table_fds (net sample_connector) = {0, 1, 2}" using sample_connector_idle(3) by (auto simp: table_fds_def)
  ultimately show ?thesis
    using retry_backoff [OF sample_env_laws sample_connector_inv sample_connector_idle(1) sample_reachable sample_connector_idle(2), of 3]
    by fastforce
qed

theorem stop_while_connecting_witness:
  "\<exists>s s1. startInLoop sample_connector_env 1 sample_connector = Inr s \<and> stop sample_connector_env 1 s = Inr s1 \<and>
     table_fds (net s1) = {0, 1, 2} \<and> start sample_connector_env 1 s1 = Inl (AssertFailed ''!connectChannel_'') \<and>
     Connector_dtor sample_connector_env 1 s = Inl (AssertFailed ''!connectChannel_'')"
proof -
  obtain s where s: "startInLoop sample_connector_env 1 sample_connector = Inr s" "connector_inv sample_connector_env id table_fds 1 s"
    "cstate s = Connector_kConnecting" "attempt_fd s = 3" "table_fds (net s) = {0, 1, 2, 3}"
    by (rule sample_attempt)
  have "{0, 1, 2, 3} - {3} = {0, 1, 2 :: int}" by auto
  with stop_while_connecting [OF sample_env_laws s(2,3) sample_reachable] s show ?thesis by (auto simp: insert_commute)
qed

end
