(* ===== verification/TcpClient.thy ===== *)
theory TcpClient
  imports Connector
begin

text \<open>
  Model of \<^verbatim>\<open>ham/net/TcpClient.{h,cc}\<close>.  The state extends that of its connector.  Connections are objects of a
  heap \<open>client_conns\<close>, named by their index; \<^verbatim>\<open>establishedConnection_\<close> is such an index.  The calls the client makes on
  its connection are recorded in order in \<open>conn_calls\<close>; the functor \<open>OtherFunctor c\<close> is \<^verbatim>\<open>destoryConnection\<close>
  on connection \<open>c\<close>.  The client owns its connector by a \<^verbatim>\<open>std::unique_ptr\<close>.
\<close>

datatype client_call = EstablishCall | ShutdownCall | ForceCloseCall | SetCloseCallbackDetail

record ('k, 'n) tcp_client = "('k, nat, 'n) connector" +
  client_retry :: bool
  client_connect :: bool
  client_name :: string
  client_nextConnId :: int
  client_conns :: "conn_info list"
  establishedConnection :: "nat option"
  conn_calls :: "(nat \<times> client_call) list"

definition TcpClient_ctor ::
  "('k, nat connector_functor) event_loop \<Rightarrow> inet_address \<Rightarrow> string \<Rightarrow> timer_queue \<Rightarrow> 'n \<Rightarrow> ('k, 'n) tcp_client" where
  "TcpClient_ctor l addr nm q n = connector.extend (Connector_ctor l addr False q n)
     \<lparr>client_retry = False, client_connect = False, client_name = nm, client_nextConnId = 1,
      client_conns = [], establishedConnection = None, conn_calls = []\<rparr>"

definition setRetry :: "bool \<Rightarrow> ('k, 'n) tcp_client \<Rightarrow> ('k, 'n) tcp_client" where
  "setRetry on s = s\<lparr>client_retry := on\<rparr>"

definition getConnection :: "('k, 'n) tcp_client \<Rightarrow> nat option" where
  "getConnection s = establishedConnection s"

definition client_call :: "nat \<Rightarrow> client_call \<Rightarrow> ('k, 'n) tcp_client \<Rightarrow> ('k, 'n) tcp_client" where
  "client_call c call s = s\<lparr>conn_calls := conn_calls s @ [(c, call)]\<rparr>"

definition TcpClient_connect :: "('k, 'n) connector_env \<Rightarrow> int \<Rightarrow> ('k, 'n) tcp_client \<Rightarrow> ('k, 'n) tcp_client result" where
  "TcpClient_connect env tid s = start env tid (s\<lparr>client_connect := True\<rparr>)"

definition disconnect :: "('k, 'n) tcp_client \<Rightarrow> ('k, 'n) tcp_client" where
  "disconnect s =
     (let s1 = s\<lparr>client_connect := False\<rparr> in
      case establishedConnection s1 of None \<Rightarrow> s1 | Some c \<Rightarrow> client_call c ShutdownCall s1)"

definition TcpClient_stop :: "('k, 'n) connector_env \<Rightarrow> int \<Rightarrow> ('k, 'n) tcp_client \<Rightarrow> ('k, 'n) tcp_client result" where
  "TcpClient_stop env tid s = stop env tid (s\<lparr>client_connect := False\<rparr>)"

definition newConnection :: "('k, 'n) connector_env \<Rightarrow> bool \<Rightarrow> int \<Rightarrow> int \<Rightarrow> ('k, 'n) tcp_client \<Rightarrow> ('k, 'n) tcp_client result" where
  "newConnection env le tid f s =
     assertInLoopThread tid s
     (let peerAddr = InetAddress_of (getPeerAddr (ce_sys env) f (net s));
          nm = client_name s @ '':'' @ getIpPortStr le peerAddr @ ''#'' @ to_string_int (client_nextConnId s);
          localAddr = InetAddress_of (getLocalAddr (ce_sys env) f (net s));
          conn = length (client_conns s);
          s1 = s\<lparr>client_nextConnId := client_nextConnId s + 1,
                 client_conns := client_conns s @ [\<lparr>info_name = nm, info_loop = this_loop s, info_fd = f,
                                                    info_local = localAddr, info_peer = peerAddr\<rparr>]\<rparr>
      in Inr ((client_call conn EstablishCall s1)\<lparr>establishedConnection := Some conn\<rparr>))"

definition removeConnection :: "('k, 'n) connector_env \<Rightarrow> int \<Rightarrow> nat \<Rightarrow> ('k, 'n) tcp_client \<Rightarrow> ('k, 'n) tcp_client result" where
  "removeConnection env tid conn s =
     assertInLoopThread tid s
     (if length (client_conns s) \<le> conn then Inl NullDereference
      else assert_that (this_loop s = info_loop (client_conns s ! conn)) ''loop_ == conn->getOwnnerLoop()''
       (let s1 = s\<lparr>establishedConnection := None\<rparr>;
            s2 = queueInLoop tid (OtherFunctor conn) s1
        in if client_retry s2 \<and> client_connect s2 then connector_restart env tid s2 else Inr s2))"

text \<open>
  The destructor.  \<open>unique\<close> says whether nobody else holds the connection.  The last step is the destructor of
  the member \<^verbatim>\<open>connector_\<close>.
\<close>

definition removeConnector_cb :: nat where "removeConnector_cb = 1"

definition detail_removeConnection :: "int \<Rightarrow> nat \<Rightarrow> ('k, 'n) tcp_client \<Rightarrow> ('k, 'n) tcp_client" where
  "detail_removeConnection tid conn s = queueInLoop tid (OtherFunctor conn) s"

definition TcpClient_dtor :: "('k, 'n) connector_env \<Rightarrow> bool \<Rightarrow> int \<Rightarrow> ('k, 'n) tcp_client \<Rightarrow> ('k, 'n) tcp_client result" where
  "TcpClient_dtor env unique tid s =
     rbind (case establishedConnection s of
          Some c \<Rightarrow>
            let s1 = client_call c SetCloseCallbackDetail s
            in Inr (if unique then client_call c ForceCloseCall s1 else s1)
        | None \<Rightarrow>
            rbind (stop env tid s) (\<lambda>s1.
            rbind (runAfter (ce_timer env) (isInLoopThread tid s1) 1 removeConnector_cb (timerQueue s1)) (\<lambda>(timer, f, q).
              Inr (queue_timer tid f (s1\<lparr>timerQueue := q\<rparr>)))))
       (Connector_dtor env tid)"

section \<open>Lemmas\<close>

lemma client_fields:
  fixes s s' :: "('k, 'n) tcp_client"
  assumes "epoller.more s' = epoller.more s"
  shows "client_retry s' = client_retry s" "client_connect s' = client_connect s" "client_conns s' = client_conns s"
    "establishedConnection s' = establishedConnection s" "client_name s' = client_name s" "conn_calls s' = conn_calls s"
proof -
  have "connector.more s' = connector.more s" using loop_fields(8) [OF assms] by (cases s; cases s') simp
  then show "client_retry s' = client_retry s" "client_connect s' = client_connect s" "client_conns s' = client_conns s"
    "establishedConnection s' = establishedConnection s" "client_name s' = client_name s" "conn_calls s' = conn_calls s"
    by (cases s; cases s'; simp)+
qed

lemma establishConnection_client:
  fixes s s' :: "('k, 'n) tcp_client"
  assumes "establishConnection env tid f s = Inr s'"
  shows "establishedConnection s' = establishedConnection s" "conn_calls s' = conn_calls s" "client_conns s' = client_conns s"
proof -
  let ?t = "set_chan (ce_alloc env (channels s)) ((Channel_ctor (this_loop s) f)\<lparr>writeCb := True, errorCb := True\<rparr>)
      (s\<lparr>cstate := Connector_kConnecting, connectChannel := Some (ce_alloc env (channels s))\<rparr>)"
  have "epoller.more s' = epoller.more ?t"
    using assms by (intro with_update_more [of write_on "ce_ctl env" tid "ce_alloc env (channels s)"])
      (simp add: establishConnection_def enableWriting_def assert_that_eq_Inr Let_def)
  from client_fields [OF this]
  show "establishedConnection s' = establishedConnection s" "conn_calls s' = conn_calls s" "client_conns s' = client_conns s"
    by (simp_all add: set_chan_def)
qed

section \<open>Properties\<close>

text \<open>
  C16.  Reconnecting.  When the established connection of a client closes, the client forgets it and queues its
  destruction once.  Exactly if \<^verbatim>\<open>retry_\<close> is set and the user has not called \<^verbatim>\<open>disconnect()\<close> it restarts the
  connector, with the delay for retries reset; after \<^verbatim>\<open>disconnect()\<close> the connector stays as it was.  What
  becomes of the restart depends on the network: without a descriptor the program is aborted; if \<^verbatim>\<open>connect\<close>
  succeeds or is on its way, the connector is connecting with a new descriptor; after a passing error
  (a refused connection among them) an assertion of \<^verbatim>\<open>retry\<close> fails; after any other error the descriptor is
  closed again, and the client stays disconnected with no further attempt scheduled.\<close>
theorem client_reconnects:
  assumes laws: "env_laws env reg fds" and inv: "connector_inv env reg fds tid s"
    and conn: "establishedConnection s = Some c" "c < length (client_conns s)" "info_loop (client_conns s ! c) = this_loop s"
    and st: "cstate s = Connector_kConnected" "connectChannel s = None"
  shows "(if \<not> (client_retry s \<and> client_connect s) then
      \<exists>s1. removeConnection env tid c s = Inr s1 \<and> establishedConnection s1 = None \<and>
        pendingFunctors s1 = pendingFunctors s @ [OtherFunctor c] \<and> cstate s1 = Connector_kConnected \<and> net s1 = net s
    else case sys_socket (ce_sys env) (net s) of
      (Inl e, n) \<Rightarrow> removeConnection env tid c s = Inl (CriticalAbort ''sockets::createNonblockingOrDie'')
    | (Inr f, n) \<Rightarrow>
        let e = (case fst (sys_connect (ce_sys env) f (serverAddr s) n) of None \<Rightarrow> 0 | Some e \<Rightarrow> e) in
        if \<not> connect_in_progress e \<and> connect_soft_error e
        then removeConnection env tid c s = Inl (AssertFailed ''state_ == kConnecting'')
        else \<exists>s1. removeConnection env tid c s = Inr s1 \<and> establishedConnection s1 = None \<and>
          pendingFunctors s1 = pendingFunctors s @ [OtherFunctor c] \<and> connector_inv env reg fds tid s1 \<and>
          retryDelayMs s1 = kInitRetryDelayMs \<and> timerQueue s1 = timerQueue s \<and>
          (if connect_in_progress e
           then cstate s1 = Connector_kConnecting \<and> attempt_fd s1 = f \<and> f \<notin> fds (net s) \<and> fds (net s1) = insert f (fds (net s))
           else cstate s1 = Connector_kDisconnected \<and> connectChannel s1 = None \<and> fds (net s1) = fds (net s))) \<and>
    (\<exists>s2. removeConnection env tid c (disconnect s) = Inr s2 \<and> establishedConnection s2 = None \<and>
       conn_calls s2 = conn_calls s @ [(c, ShutdownCall)] \<and> cstate s2 = Connector_kConnected \<and> net s2 = net s)"
    (is "?re \<and> ?dis")
proof
  have thr: "threadId s = tid" using inv by (simp add: connector_inv_def loop_ok_def)
  let ?d = "queueInLoop tid (OtherFunctor c) ((disconnect s)\<lparr>establishedConnection := None\<rparr>)"
  have "removeConnection env tid c (disconnect s) = Inr ?d"
    using thr conn by (simp add: removeConnection_def disconnect_def client_call_def queueInLoop_def push_functor_def wakeup_def Let_def)
  then show ?dis
    using conn st by (intro exI [of _ ?d]) (simp add: disconnect_def client_call_def queueInLoop_def push_functor_def wakeup_def Let_def)
  let ?q = "queueInLoop tid (OtherFunctor c) (s\<lparr>establishedConnection := None\<rparr>)"
  let ?r = "?q\<lparr>cstate := Connector_kDisconnected, connect_flag := True, retryDelayMs := kInitRetryDelayMs\<rparr>"
  have q: "establishedConnection ?q = None" "client_retry ?q = client_retry s" "client_connect ?q = client_connect s"
    "pendingFunctors ?q = pendingFunctors s @ [OtherFunctor c]" "serverAddr ?r = serverAddr s" "net ?r = net s" "threadId ?r = tid"
    using thr by (simp_all add: queueInLoop_def push_functor_def wakeup_def Let_def)
  have rm: "removeConnection env tid c s = (if client_retry s \<and> client_connect s then startInLoop env tid ?r else Inr ?q)"
    using thr conn q by (simp add: removeConnection_def connector_restart_def Let_def)
  have qinv: "connector_inv env reg fds tid ?q" by (rule connector_inv_cong [OF _ _ _ _ _ _ _ _ _ _ _ _ inv]) auto
  have rinv: "connector_inv env reg fds tid ?r"
    using qinv loop_ok_cong [of ?r ?q "ce_ctl env" reg tid] st by (simp add: connector_inv_def attempt_ok_def)
  show ?re
  proof (cases "client_retry s \<and> client_connect s")
    case False
    then show ?thesis using rm q st by (simp only: if_True if_False simp_thms) (intro exI [of _ ?q], simp)
  next
    case True
    then have rm: "removeConnection env tid c s = startInLoop env tid ?r" using rm by simp
    have idle: "cstate ?r = Connector_kDisconnected" "connect_flag ?r" "connectChannel ?r = None" using st by simp_all
    obtain rs n where rs: "sys_socket (ce_sys env) (net ?r) = (rs, n)" by (cases "sys_socket (ce_sys env) (net ?r)")
    show ?thesis
    proof (cases rs)
      case (Inl e)
      then show ?thesis using True rm startInLoop_no_socket [OF q(7) idle(1,2)] rs q(6) by simp
    next
      case (Inr f)
      obtain x n1 where con: "sys_connect (ce_sys env) f (serverAddr ?r) n = (x, n1)" by (cases "sys_connect (ce_sys env) f (serverAddr ?r) n")
      have sock: "sys_socket (ce_sys env) (net ?r) = (Inr f, n)" using rs Inr by simp
      let ?e = "case x of None \<Rightarrow> 0 | Some e \<Rightarrow> e"
      note f = attempt_fresh [OF laws sock con] note run = startInLoop_eq [OF q(7) idle(1,2) sock con refl]
      obtain s' where s': "establishConnection env tid f (?r\<lparr>net := n1\<rparr>) = Inr s'" "connector_inv env reg fds tid s'"
        "cstate s' = Connector_kConnecting" "attempt_fd s' = f" "fds (net s') = insert f (fds (net ?r))"
        "timerQueue s' = timerQueue ?r" "retryDelayMs s' = retryDelayMs ?r" "pendingFunctors s' = pendingFunctors ?r"
        using connector_establish_spec [OF laws rinv idle(3) f(1)] by metis
      have est: "establishedConnection s' = None" using establishConnection_client(1) [OF s'(1)] q by simp
      let ?h = "?r\<lparr>net := close_fd (ce_sys env) f n1\<rparr>"
      have hinv: "connector_inv env reg fds tid ?h"
        using rinv idle loop_ok_cong [of ?h ?r "ce_ctl env" reg tid] f(3) by (simp add: connector_inv_def attempt_ok_def)
      show ?thesis
        using True sock con rm run s' est hinv f q idle by (auto simp: Let_def)
    qed
  qed
qed

text \<open>
  Retrying from a client.  The client owns its connector by a \<^verbatim>\<open>std::unique_ptr\<close>, so \<^verbatim>\<open>shared_from_this()\<close> in
  \<^verbatim>\<open>retry\<close> throws: the first attempt of a client that is not answered ends in \<^verbatim>\<open>std::bad_weak_ptr\<close>, both
  when the descriptor reports an error and when it turns writable with an error pending.\<close>
theorem client_never_retries:
  assumes laws: "env_laws env reg fds" and net: "reachable_net (ce_sys env)"
    and inv: "connector_inv env reg fds tid (TcpClient_ctor l addr nm q n)"
  shows "\<exists>s1. TcpClient_connect env tid (TcpClient_ctor l addr nm q n) = Inr s1 \<and> cstate s1 = Connector_kConnecting \<and>
    handleError env tid s1 = Inl (Thrown ''std::bad_weak_ptr'') \<and>
    (getSocketError (ce_sys env) (attempt_fd s1) (net s1) \<noteq> 0 \<longrightarrow> handleWrite env cb tid s1 = Inl (Thrown ''std::bad_weak_ptr''))"
proof -
  let ?s = "(TcpClient_ctor l addr nm q n)\<lparr>client_connect := True, connect_flag := True\<rparr>"
  have s: "cstate ?s = Connector_kDisconnected" "connectChannel ?s = None" "\<not> shared_owner ?s"
    by (simp_all add: TcpClient_ctor_def Connector_ctor_def event_loop.extend_def connector.extend_def)
  have "connector_inv env reg fds tid ?s" by (rule connector_inv_cong [OF _ _ _ _ _ _ _ _ _ _ _ _ inv]) auto
  then obtain f m s1 where s1: "startInLoop env tid ?s = Inr s1" "connector_inv env reg fds tid s1" "cstate s1 = Connector_kConnecting"
    "connect_flag s1" "shared_owner s1 = shared_owner ?s"
    by (rule startInLoop_reachable [OF laws _ net]) (use s in simp_all)
  obtain s2 where s2: "removeAndResetChannel env tid s1 = Inr (attempt_fd s1, s2)" "detached env reg tid s1 s2"
    by (rule attempt_detach [OF laws s1(2,3)])
  note d = detached_fields [OF s2(2)]
  have thr: "threadId (TcpClient_ctor l addr nm q n) = tid" using inv by (simp add: connector_inv_def loop_ok_def)
  have "TcpClient_connect env tid (TcpClient_ctor l addr nm q n) = Inr s1"
    using s1(1) thr by (simp add: TcpClient_connect_def start_def runInLoop_def isInLoopThread_def)
  moreover have "retry env tid (attempt_fd s1) s2 = Inl (Thrown ''std::bad_weak_ptr'')"
    using s1(3,4,5) s d by (simp add: retry_def)
  ultimately show ?thesis using s1(3) s2(1) d by (auto simp: handleError_def handleWrite_def)
qed

lemma queue_timer_fields [simp]:
  "connectChannel (queue_timer tid f s) = connectChannel s" "cstate (queue_timer tid f s) = cstate s" "threadId (queue_timer tid f s) = threadId s"
  by (simp_all add: queue_timer_def split: option.splits)

text \<open>Stopping leaves the channel of an attempt where it is, whatever the thread.\<close>

lemma stop_keeps_channel:
  assumes "stop env tid s = Inr s'"
  shows "connectChannel s' = connectChannel s"
proof -
  have rm: "connectChannel t' = connectChannel t" if r: "removeAndResetChannel env tid t = Inr (f, t')" for f and t t' :: "('a, 'b, 'c, 'd) connector_scheme"
  proof -
    obtain a t1 t2 where "disableAll (ce_ctl env) tid a t = Inr t1" "removeChannel (ce_ctl env) tid a t1 = Inr t2" "t' = queueInLoop tid ResetChannel t2"
      using r by (auto simp: removeAndResetChannel_def rbind_eq_Inr split: option.splits)
    moreover from this have "epoller.more t1 = epoller.more t" by (auto simp: disableAll_def dest: with_update_more)
    moreover have "epoller.more t2 = epoller.more t1"
      using calculation(2) by (auto simp: removeChannel_def poller_removeChannel_def assertInLoopThread_def abortNotInLoopThread_def
          rbind_eq_Inr assert_that_eq_Inr Let_def dest!: update_more split: if_splits)
    ultimately show ?thesis using connector_fields(3) [of t2 t] by simp
  qed
  have "connectChannel t' = connectChannel t" if "stopInLoop env tid t = Inr t'" for t t' :: "('a, 'b, 'c, 'd) connector_scheme"
    using that by (auto simp: stopInLoop_def assertInLoopThread_def abortNotInLoopThread_def rbind_eq_Inr dest!: rm split: if_splits)
  then show ?thesis
    using assms by (auto simp: stop_def runInLoop_def rbind_eq_Inr split: if_splits)
qed

text \<open>
  Destroying a client that is still connecting.  Whatever thread runs the destructor of a client with an
  attempt under way, it does not succeed: the channel of the attempt is only ever deleted by a functor of the loop, so the
  destructor of the connector finds it and fails.\<close>
theorem client_dtor_while_connecting:
  assumes "establishedConnection s = None" and "connectChannel s = Some a"
  shows "\<exists>e. TcpClient_dtor env unique tid s = Inl e"
proof (rule ccontr)
  assume "\<not> ?thesis"
  then obtain s' where "TcpClient_dtor env unique tid s = Inr s'" by (cases "TcpClient_dtor env unique tid s") auto
  then obtain s1 s2 where s: "stop env tid s = Inr s1" "Connector_dtor env tid s2 = Inr s'" "connectChannel s2 = connectChannel s1"
    using assms(1) by (auto simp: TcpClient_dtor_def rbind_eq_Inr)
  then have c: "connectChannel s2 = Some a" using assms(2) stop_keeps_channel by metis
  then obtain s3 where "stop env tid s2 = Inr s3" "connectChannel s3 = None"
    using s(2) by (auto simp: Connector_dtor_def rbind_eq_Inr assert_that_eq_Inr)
  with c show False using stop_keeps_channel by fastforce
qed

section \<open>Witnesses\<close>

definition sample_client :: "(int \<Rightarrow> (event_mask \<times> nat) option, table_net) tcp_client" where
  "sample_client = TcpClient_ctor (new_event_loop 1 7 (3, 30) (4, 40) Map.empty) zero_addr ''echo'' (new_timer_queue 0)
     \<lparr>open_fds = [2, 1, 0], backlog = []\<rparr>"

lemmas sample_client_defs = sample_client_def TcpClient_ctor_def Connector_ctor_def event_loop.extend_def connector.extend_def
  new_event_loop_def

lemma sample_client_inv: "connector_inv sample_connector_env id table_fds 1 sample_client"
proof -
  let ?l = "new_event_loop 1 7 (3, 30) (4, 40) Map.empty :: (_, nat connector_functor) event_loop"
  have "loop_ok table_ctl id 1 ?l" by (rule new_event_loop_ok [OF table_laws]) simp
  then have "loop_ok table_ctl id 1 sample_client" by (subst loop_ok_cong [of _ ?l]) (simp_all add: sample_client_defs)
  then show ?thesis
    by (simp add: connector_inv_def sample_connector_env_def)
      (simp add: sample_client_defs attempt_ok_def tq_inv_def new_timer_queue_def map_ok_def)
qed

theorem client_never_retries_witness:
  "\<exists>s1. TcpClient_connect sample_connector_env 1 sample_client = Inr s1 \<and> handleError sample_connector_env 1 s1 = Inl (Thrown ''std::bad_weak_ptr'')"
  using client_never_retries [OF sample_env_laws sample_reachable sample_client_inv [unfolded sample_client_def]]
  unfolding sample_client_def by blast

definition sample_connected :: "(int \<Rightarrow> (event_mask \<times> nat) option, table_net) tcp_client" where
  "sample_connected = sample_client\<lparr>cstate := Connector_kConnected, client_retry := True, client_connect := True,
     establishedConnection := Some 0,
     client_conns := [\<lparr>info_name = ''echo'', info_loop = 7, info_fd = 2, info_local = zero_addr, info_peer = zero_addr\<rparr>]\<rparr>"

theorem client_reconnects_witness:
  "\<exists>s1 s2. removeConnection sample_connector_env 1 0 sample_connected = Inr s1 \<and> cstate s1 = Connector_kConnecting \<and>
     removeConnection sample_connector_env 1 0 (disconnect sample_connected) = Inr s2 \<and> cstate s2 = Connector_kConnected"
proof -
  have c: "connectChannel sample_client = None" by (simp add: sample_client_defs)
  have "loop_ok (ce_ctl sample_connector_env) id 1 sample_connected = loop_ok (ce_ctl sample_connector_env) id 1 sample_client"
    by (rule loop_ok_cong) (simp_all add: sample_connected_def)
  with sample_client_inv c have inv: "connector_inv sample_connector_env id table_fds 1 sample_connected"
    by (simp add: connector_inv_def attempt_ok_def) (simp add: sample_connected_def)
  have s: "establishedConnection sample_connected = Some 0" "0 < length (client_conns sample_connected)"
    "info_loop (client_conns sample_connected ! 0) = this_loop sample_connected" "cstate sample_connected = Connector_kConnected"
    "connectChannel sample_connected = None" "client_retry sample_connected" "client_connect sample_connected"
    by (simp_all add: sample_connected_def sample_client_defs)
  have sys: "sys_socket (ce_sys sample_connector_env) (net sample_connected) = (Inr 3, \<lparr>open_fds = [3, 2, 1, 0], backlog = []\<rparr>)"
    "fst (sys_connect (ce_sys sample_connector_env) 3 (serverAddr sample_connected) \<lparr>open_fds = [3, 2, 1, 0], backlog = []\<rparr>) = Some EINPROGRESS"
    by (simp_all add: sample_connector_env_def table_api_def table_new_def sample_connected_def sample_client_defs)
  have "connect_in_progress EINPROGRESS" by (simp add: connect_in_progress_def)
  with client_reconnects [OF sample_env_laws inv s(1-5)] s(6,7) sys show ?thesis by auto
qed

theorem client_dtor_while_connecting_witness:
  "\<exists>s1 e. TcpClient_connect sample_connector_env 1 sample_client = Inr s1 \<and> TcpClient_dtor sample_connector_env False 1 s1 = Inl e"
proof -
  let ?s = "sample_client\<lparr>client_connect := True, connect_flag := True\<rparr>"
  have "connector_inv sample_connector_env id table_fds 1 ?s" by (rule connector_inv_cong [OF _ _ _ _ _ _ _ _ _ _ _ _ sample_client_inv]) auto
  then obtain f n s1 where s1: "startInLoop sample_connector_env 1 ?s = Inr s1" "establishConnection sample_connector_env 1 f (?s\<lparr>net := n\<rparr>) = Inr s1"
    "connector_inv sample_connector_env id table_fds 1 s1" "cstate s1 = Connector_kConnecting"
    by (rule startInLoop_reachable [OF sample_env_laws _ sample_reachable]) (simp_all add: sample_client_defs)
  then obtain a where a: "connectChannel s1 = Some a" by (auto simp: connector_inv_def attempt_ok_def split: option.splits)
  have e: "establishedConnection s1 = None" using establishConnection_client(1) [OF s1(2)] by (simp add: sample_client_defs)
  have "TcpClient_connect sample_connector_env 1 sample_client = Inr s1"
    using s1(1) by (simp add: TcpClient_connect_def start_def runInLoop_def isInLoopThread_def) (simp add: sample_client_defs)
  with client_dtor_while_connecting [OF e a] show ?thesis by blast
qed

end
