(* ===== verification/Circular_Q.thy ===== *)
theory Circular_Q
  imports Ham_Prelude
begin

text \<open>
  Model of \<^verbatim>\<open>spdlog/details/circular_q.h\<close>, a queue on a vector with one slot kept free, and the interface of
  bounded rings that the blocking queues rely on.  Indices are natural numbers, as they stay below the number of slots; the only place where one of these
  \<^verbatim>\<open>size_t\<close> values wraps is the constructor, and the overrun counter, which wraps after 2 ^ 64 overruns, counts on in the model.  Operations that are undefined on a disabled or empty queue return an error there.
\<close>

record 'a circular_q =
  max_items :: nat
  q_head :: nat
  q_tail :: nat
  overrun_count :: nat
  v_items :: "'a list"

definition circular_q_disabled :: "'a circular_q" where
  "circular_q_disabled = \<lparr>max_items = 0, q_head = 0, q_tail = 0, overrun_count = 0, v_items = []\<rparr>"

text \<open>\<open>d\<close> is the default value the slots are built with.\<close>

definition circular_q_ctor :: "'a \<Rightarrow> nat \<Rightarrow> 'a circular_q" where
  "circular_q_ctor d n =
     (let m = (n + 1) mod 2 ^ 64
      in \<lparr>max_items = m, q_head = 0, q_tail = 0, overrun_count = 0, v_items = replicate m d\<rparr>)"

definition push_back :: "'a \<Rightarrow> 'a circular_q \<Rightarrow> 'a circular_q" where
  "push_back item q =
     (if 0 < max_items q then
        let q1 = q\<lparr>v_items := (v_items q)[q_tail q := item], q_tail := (q_tail q + 1) mod max_items q\<rparr>
        in if q_tail q1 = q_head q1
           then q1\<lparr>q_head := (q_head q1 + 1) mod max_items q1, overrun_count := overrun_count q1 + 1\<rparr>
           else q1
      else q)"

definition front :: "'a circular_q \<Rightarrow> 'a result" where
  "front q = (if q_head q < length (v_items q) then Inr (v_items q ! q_head q) else Inl OutOfBounds)"

definition q_size :: "'a circular_q \<Rightarrow> nat" where
  "q_size q = (if q_head q \<le> q_tail q then q_tail q - q_head q else max_items q - (q_head q - q_tail q))"

definition at :: "nat \<Rightarrow> 'a circular_q \<Rightarrow> 'a result" where
  "at i q = assert_that (i < q_size q) ''i < size()''
     (let j = (q_head q + i) mod max_items q in if j < length (v_items q) then Inr (v_items q ! j) else Inl OutOfBounds)"

definition pop_front :: "'a circular_q \<Rightarrow> 'a circular_q result" where
  "pop_front q = (if max_items q = 0 then Inl OutOfBounds else Inr (q\<lparr>q_head := (q_head q + 1) mod max_items q\<rparr>))"

definition q_empty :: "'a circular_q \<Rightarrow> bool" where
  "q_empty q \<longleftrightarrow> q_tail q = q_head q"

definition q_full :: "'a circular_q \<Rightarrow> bool" where
  "q_full q \<longleftrightarrow> (if 0 < max_items q then (q_tail q + 1) mod max_items q = q_head q else False)"

definition overrun_counter :: "'a circular_q \<Rightarrow> nat" where
  "overrun_counter q = overrun_count q"

text \<open>The new object and what is left of the old one.\<close>

definition copy_moveable :: "'a circular_q \<Rightarrow> 'a circular_q \<times> 'a circular_q" where
  "copy_moveable other =
     (\<lparr>max_items = max_items other, q_head = q_head other, q_tail = q_tail other, overrun_count = overrun_count other,
       v_items = v_items other\<rparr>,
      other\<lparr>v_items := [], max_items := 0, q_head := 0, q_tail := 0, overrun_count := 0\<rparr>)"

section \<open>Contents\<close>

definition q_ok :: "'a circular_q \<Rightarrow> bool" where
  "q_ok q \<longleftrightarrow> length (v_items q) = max_items q \<and> (if max_items q = 0 then q_head q = 0 \<and> q_tail q = 0
     else q_head q < max_items q \<and> q_tail q < max_items q)"

definition q_contents :: "'a circular_q \<Rightarrow> 'a list" where
  "q_contents q = map (\<lambda>i. v_items q ! ((q_head q + i) mod max_items q)) [0..<q_size q]"

definition q_capacity :: "'a circular_q \<Rightarrow> nat" where
  "q_capacity q = max_items q - 1"

text \<open>The last elements of a list, as many as fit.\<close>

definition keep_last :: "nat \<Rightarrow> 'a list \<Rightarrow> 'a list" where
  "keep_last n xs = drop (length xs - n) xs"

lemma length_q_contents [simp]: "length (q_contents q) = q_size q"
  by (simp add: q_contents_def)

lemma q_size_mod:
  assumes "q_ok q" "0 < max_items q"
  shows "(q_head q + q_size q) mod max_items q = q_tail q" "q_size q < max_items q"
  using assms by (auto simp: q_ok_def q_size_def)

lemma q_full_iff: "q_ok q \<Longrightarrow> 0 < max_items q \<Longrightarrow> q_full q \<longleftrightarrow> q_size q = q_capacity q"
  by (auto simp: q_full_def q_size_def q_capacity_def q_ok_def mod_Suc)

lemma q_empty_iff: "q_ok q \<Longrightarrow> q_empty q \<longleftrightarrow> q_contents q = []"
  by (auto simp: q_empty_def q_contents_def q_size_def q_ok_def split: if_splits)

lemma q_contents_nth: "i < q_size q \<Longrightarrow> q_contents q ! i = v_items q ! ((q_head q + i) mod max_items q)"
  by (simp add: q_contents_def)

text \<open>The slot behind the last element belongs to no element.\<close>

lemma slot_free:
  assumes "q_ok q" "i < q_size q" "0 < max_items q"
  shows "(q_head q + i) mod max_items q \<noteq> q_tail q"
proof
  assume a: "(q_head q + i) mod max_items q = q_tail q"
  have b: "q_head q < max_items q" "q_tail q < max_items q" using assms by (auto simp: q_ok_def)
  have "q_size q < max_items q" by (rule q_size_mod(2) [OF assms(1,3)])
  with a b assms(2) show False by (auto simp: q_size_def mod_if split: if_splits)
qed

lemma push_back_contents:
  assumes ok: "q_ok q" and m: "0 < max_items q"
  shows "q_contents (push_back x q) = keep_last (q_capacity q) (q_contents q @ [x])"
    and "q_ok (push_back x q)" and "q_capacity (push_back x q) = q_capacity q"
    and "overrun_count (push_back x q) = overrun_count q + (if q_full q then 1 else 0)"
proof -
  let ?m = "max_items q" and ?h = "q_head q" and ?t = "q_tail q"
  have b: "?h < ?m" "?t < ?m" "length (v_items q) = ?m" using ok m by (auto simp: q_ok_def)
  let ?q = "push_back x q"
  have mq: "max_items ?q = ?m" "v_items ?q = (v_items q)[?t := x]" "q_tail ?q = (?t + 1) mod ?m"
    "q_head ?q = (if q_full q then (?h + 1) mod ?m else ?h)"
    "overrun_count ?q = overrun_count q + (if q_full q then 1 else 0)"
    using m by (simp_all add: push_back_def q_full_def Let_def)
  then show "overrun_count ?q = overrun_count q + (if q_full q then 1 else 0)" "q_capacity ?q = q_capacity q"
    by (simp_all add: q_capacity_def)
  show ok': "q_ok ?q" using b m by (simp add: q_ok_def mq)
  have slot: "v_items ?q ! ((?h + i) mod ?m) = (q_contents q @ [x]) ! i" if "i \<le> q_size q" for i
  proof (cases "i < q_size q")
    case True
    then show ?thesis using slot_free [OF ok True m] by (simp add: mq q_contents_nth nth_append)
  next
    case False
    then have "i = q_size q" using that by simp
    then show ?thesis using q_size_mod(1) [OF ok m] b by (simp add: mq nth_append)
  qed
  have sz: "q_size ?q = (if q_full q then q_size q else q_size q + 1)"
    using b m by (auto simp: q_size_def mq q_full_def mod_Suc split: if_splits)
  have cap: "q_size q \<le> q_capacity q" using q_size_mod(2) [OF ok m] by (simp add: q_capacity_def)
  show "q_contents ?q = keep_last (q_capacity q) (q_contents q @ [x])"
  proof (rule nth_equalityI)
    show "length (q_contents ?q) = length (keep_last (q_capacity q) (q_contents q @ [x]))"
      using sz cap q_full_iff [OF ok m] by (auto simp: keep_last_def)
    fix i assume "i < length (q_contents ?q)"
    then have i: "i < q_size ?q" by simp
    then have "q_contents ?q ! i = v_items ?q ! ((q_head ?q + i) mod ?m)" by (simp add: q_contents_nth mq)
    also have "\<dots> = (q_contents q @ [x]) ! (if q_full q then i + 1 else i)"
    proof (cases "q_full q")
      case True
      then have "(q_head ?q + i) mod ?m = (?h + (i + 1)) mod ?m" by (simp add: mq mod_add_left_eq)
      then show ?thesis using True i sz slot [of "i + 1"] by simp
    next
      case False
      then show ?thesis using i sz slot [of i] by (simp add: mq)
    qed
    also have "\<dots> = drop (if q_full q then 1 else 0) (q_contents q @ [x]) ! i"
      by (subst nth_drop) simp_all
    also have "(if q_full q then 1 else 0) = length (q_contents q @ [x]) - q_capacity q"
      using q_full_iff [OF ok m] cap by auto
    also have "drop \<dots> (q_contents q @ [x]) = keep_last (q_capacity q) (q_contents q @ [x])" by (simp only: keep_last_def)
    finally show "q_contents ?q ! i = keep_last (q_capacity q) (q_contents q @ [x]) ! i" .
  qed
qed

lemma pop_front_contents:
  assumes ok: "q_ok q" and ne: "q_contents q \<noteq> []"
  obtains q' where "pop_front q = Inr q'" "front q = Inr (hd (q_contents q))" "q_contents q' = tl (q_contents q)" "q_ok q'"
    "q_capacity q' = q_capacity q" "overrun_count q' = overrun_count q"
proof -
  let ?m = "max_items q" and ?h = "q_head q"
  have s0: "0 < q_size q" using ne by (simp flip: length_q_contents)
  then have m: "0 < ?m" using ok by (auto simp: q_size_def q_ok_def split: if_splits)
  have b: "?h < ?m" "q_tail q < ?m" "length (v_items q) = ?m" using ok m by (auto simp: q_ok_def)
  let ?q = "q\<lparr>q_head := (?h + 1) mod ?m\<rparr>"
  have sz: "q_size ?q = q_size q - 1" using b s0 by (cases "Suc ?h = ?m") (auto simp: q_size_def split: if_splits)
  have "q_contents ?q = tl (q_contents q)"
  proof (rule nth_equalityI)
    show "length (q_contents ?q) = length (tl (q_contents q))" using sz by simp
    fix i assume "i < length (q_contents ?q)"
    then have i: "i < q_size ?q" "i + 1 < q_size q" using sz by simp_all
    then have "q_contents ?q ! i = v_items q ! (((?h + 1) mod ?m + i) mod ?m)" by (simp add: q_contents_nth)
    also have "((?h + 1) mod ?m + i) mod ?m = (?h + (i + 1)) mod ?m" by (simp add: mod_add_left_eq)
    also have "v_items q ! \<dots> = q_contents q ! (i + 1)" using i(2) by (simp add: q_contents_nth)
    also have "\<dots> = tl (q_contents q) ! i" using i(2) by (simp add: nth_tl)
    finally show "q_contents ?q ! i = tl (q_contents q) ! i" .
  qed
  moreover have "front q = Inr (hd (q_contents q))"
    using b s0 ne q_contents_nth [of 0 q] by (simp add: front_def hd_conv_nth)
  moreover have "q_ok ?q" using b m by (simp add: q_ok_def)
  ultimately show ?thesis using m by (intro that [of ?q]) (simp_all add: pop_front_def q_capacity_def)
qed

section \<open>The interface of bounded rings\<close>

text \<open>
  What the blocking queues need of a ring: pushing keeps the last elements that fit, popping takes the
  oldest one, and the tests for full and empty are right.  This is also the documented behaviour of
  \<^verbatim>\<open>boost::circular_buffer\<close>.
\<close>

record ('a, 'b) ring_api =
  ring_push :: "'a \<Rightarrow> 'b \<Rightarrow> 'b"
  ring_front :: "'b \<Rightarrow> 'a result"
  ring_pop :: "'b \<Rightarrow> 'b result"
  ring_full :: "'b \<Rightarrow> bool"
  ring_empty :: "'b \<Rightarrow> bool"
  ring_size :: "'b \<Rightarrow> nat"
  ring_capacity :: "'b \<Rightarrow> nat"

locale bounded_ring =
  fixes api :: "('a, 'b) ring_api"
    and ok :: "'b \<Rightarrow> bool"
    and contents :: "'b \<Rightarrow> 'a list"
  assumes push_law: "ok r \<Longrightarrow> ok (ring_push api x r) \<and> contents (ring_push api x r) = keep_last (ring_capacity api r) (contents r @ [x]) \<and>
      ring_capacity api (ring_push api x r) = ring_capacity api r"
    and pop_law: "ok r \<Longrightarrow> contents r \<noteq> [] \<Longrightarrow> ring_front api r = Inr (hd (contents r)) \<and>
      (\<exists>r'. ring_pop api r = Inr r' \<and> ok r' \<and> contents r' = tl (contents r) \<and> ring_capacity api r' = ring_capacity api r)"
    and full_law: "ok r \<Longrightarrow> ring_full api r \<longleftrightarrow> length (contents r) = ring_capacity api r"
    and empty_law: "ok r \<Longrightarrow> ring_empty api r \<longleftrightarrow> contents r = []"
    and size_law: "ok r \<Longrightarrow> ring_size api r = length (contents r)"
    and bound_law: "ok r \<Longrightarrow> length (contents r) \<le> ring_capacity api r"
begin

text \<open>Below capacity a push appends.\<close>

lemma push_room:
  assumes "ok r" "\<not> ring_full api r"
  shows "contents (ring_push api x r) = contents r @ [x]"
  using push_law [OF assms(1)] full_law [OF assms(1)] bound_law [OF assms(1)] assms(2) by (simp add: keep_last_def)

end

definition circular_ring :: "('a, 'a circular_q) ring_api" where
  "circular_ring = \<lparr>ring_push = push_back, ring_front = front, ring_pop = pop_front, ring_full = q_full, ring_empty = q_empty,
     ring_size = q_size, ring_capacity = q_capacity\<rparr>"

definition ring_ok :: "'a circular_q \<Rightarrow> bool" where
  "ring_ok q \<longleftrightarrow> q_ok q \<and> 0 < max_items q"

interpretation circular: bounded_ring circular_ring ring_ok q_contents
proof unfold_locales
  fix r :: "'a circular_q" and x :: 'a
  assume ok: "ring_ok r"
  then have r: "q_ok r" "0 < max_items r" by (simp_all add: ring_ok_def)
  have m: "max_items (push_back x r) = max_items r" by (simp add: push_back_def Let_def)
  show "ring_ok (ring_push circular_ring x r) \<and>
      q_contents (ring_push circular_ring x r) = keep_last (ring_capacity circular_ring r) (q_contents r @ [x]) \<and>
      ring_capacity circular_ring (ring_push circular_ring x r) = ring_capacity circular_ring r"
    using push_back_contents [OF r] r m by (simp add: circular_ring_def ring_ok_def)
  show "ring_full circular_ring r \<longleftrightarrow> length (q_contents r) = ring_capacity circular_ring r"
    using q_full_iff [OF r] by (simp add: circular_ring_def)
  show "ring_empty circular_ring r \<longleftrightarrow> q_contents r = []" using q_empty_iff [OF r(1)] by (simp add: circular_ring_def)
  show "ring_size circular_ring r = length (q_contents r)" by (simp add: circular_ring_def)
  show "length (q_contents r) \<le> ring_capacity circular_ring r"
    using q_size_mod(2) [OF r] by (simp add: circular_ring_def q_capacity_def)
next
  fix r :: "'a circular_q"
  assume ok: "ring_ok r" and ne: "q_contents r \<noteq> []"
  then have r: "q_ok r" "0 < max_items r" by (simp_all add: ring_ok_def)
  obtain r' where r': "pop_front r = Inr r'" "front r = Inr (hd (q_contents r))" "q_contents r' = tl (q_contents r)" "q_ok r'"
    "q_capacity r' = q_capacity r" by (rule pop_front_contents [OF r(1) ne])
  moreover have "max_items r' = max_items r" using r'(1) r(2) by (auto simp: pop_front_def)
  ultimately show "ring_front circular_ring r = Inr (hd (q_contents r)) \<and>
      (\<exists>r'. ring_pop circular_ring r = Inr r' \<and> ring_ok r' \<and> q_contents r' = tl (q_contents r) \<and>
        ring_capacity circular_ring r' = ring_capacity circular_ring r)"
    using r(2) by (simp add: circular_ring_def ring_ok_def)
qed

section \<open>Properties\<close>

text \<open>
  The ring of the asynchronous log refines a list that keeps its last elements: pushing any sequence of items
  onto a new queue of capacity \<open>n\<close> leaves the last \<open>n\<close> of them, in order, counts exactly the items
  that were overrun, and popping gives them back oldest first.\<close>
theorem circular_q_keeps_last:
  assumes "n + 1 < 2 ^ 64"
  shows "let q = fold push_back xs (circular_q_ctor d n) in
    q_ok q \<and> q_contents q = keep_last n xs \<and> q_size q = min n (length xs) \<and> overrun_count q = length xs - n \<and>
    (\<forall>i < q_size q. at i q = Inr (keep_last n xs ! i)) \<and>
    (xs \<noteq> [] \<and> 0 < n \<longrightarrow> front q = Inr (hd (keep_last n xs)))"
proof -
  let ?c = "circular_q_ctor d n"
  have m: "max_items ?c = n + 1" using assms by (simp add: circular_q_ctor_def)
  have "q_ok (fold push_back xs ?c) \<and> q_contents (fold push_back xs ?c) = keep_last n xs \<and>
      max_items (fold push_back xs ?c) = n + 1 \<and> overrun_count (fold push_back xs ?c) = length xs - n"
  proof (induction xs rule: rev_induct)
    case Nil
    then show ?case using assms by (simp add: circular_q_ctor_def q_ok_def q_contents_def q_size_def keep_last_def)
  next
    case (snoc x xs)
    let ?q = "fold push_back xs ?c"
    have q: "q_ok ?q" "q_contents ?q = keep_last n xs" "max_items ?q = n + 1" "overrun_count ?q = length xs - n" using snoc by simp_all
    then have pos: "0 < max_items ?q" and cap: "q_capacity ?q = n" by (simp_all add: q_capacity_def)
    have "q_size ?q = min n (length xs)" using q(2) length_q_contents [of ?q] by (simp add: keep_last_def)
    then have "q_full ?q \<longleftrightarrow> n \<le> length xs" using q_full_iff [OF q(1) pos] cap by auto
    moreover have "keep_last n (keep_last n xs @ [x]) = keep_last n (xs @ [x])"
      by (cases "length xs < n") (auto simp: keep_last_def Suc_diff_le)
    moreover have "max_items (push_back x ?q) = n + 1" using q(3) by (simp add: push_back_def Let_def)
    ultimately show ?case using push_back_contents [OF q(1) pos, of x] q cap by auto
  qed
  then have q: "q_ok (fold push_back xs ?c)" "q_contents (fold push_back xs ?c) = keep_last n xs"
    "max_items (fold push_back xs ?c) = n + 1" "overrun_count (fold push_back xs ?c) = length xs - n" by blast+
  have sz: "q_size (fold push_back xs ?c) = min n (length xs)"
    using q(2) length_q_contents [of "fold push_back xs ?c"] by (simp add: keep_last_def)
  have "at i (fold push_back xs ?c) = Inr (keep_last n xs ! i)" if "i < q_size (fold push_back xs ?c)" for i
    using that q(1,3) q_contents_nth [OF that] q(2) by (simp add: at_def q_ok_def)
  moreover have "front (fold push_back xs ?c) = Inr (hd (keep_last n xs))" if "xs \<noteq> []" "0 < n"
  proof -
    have "q_contents (fold push_back xs ?c) \<noteq> []"
      using that q(2) by (cases xs) (auto simp: keep_last_def)
    then show ?thesis by (rule pop_front_contents [OF q(1)]) (simp add: q(2))
  qed
  ultimately show ?thesis using q sz by (simp add: Let_def)
qed

theorem circular_q_keeps_last_witness:
  "q_contents (fold push_back [1, 2, 3, 4, 5] (circular_q_ctor (0 :: nat) 3)) = [3, 4, 5] \<and>
   overrun_count (fold push_back [1, 2, 3, 4, 5] (circular_q_ctor (0 :: nat) 3)) = 2"
proof -
  have "(3 :: nat) + 1 < 2 ^ 64" by simp
  from circular_q_keeps_last [OF this, of "[1, 2, 3, 4, 5 :: nat]" 0] show ?thesis
    by (simp add: Let_def keep_last_def)
qed

end
