(* ===== verification/BlockingQueue.thy ===== *)
theory BlockingQueue
  imports Circular_Q
begin

text \<open>
  Model of \<^verbatim>\<open>ham/base/BlockingQueue.h\<close> and \<^verbatim>\<open>ham/base/BoundedBlockingQueue.h\<close>.  Any number of threads call the
  operations and interleave at the points where the mutex is free; a critical section is one step.  Threads are
  anonymous: the state counts the takers that are blocked in \<^verbatim>\<open>notEmpty_.wait\<close>, those that were woken and
  have not got the mutex yet, and the threads that left \<^verbatim>\<open>put\<close>'s critical section and have not notified yet.  The
  logs record what was put and taken so far.  A wakeup without a notification is allowed at any time.
\<close>

section \<open>The unbounded queue\<close>

record 'a blocking_queue =
  bq_queue :: "'a list"
  notifying :: nat
  takers_blocked :: nat
  takers_woken :: nat
  put_log :: "'a list"
  taken_log :: "'a list"

definition new_blocking_queue :: "'a blocking_queue" where
  "new_blocking_queue = \<lparr>bq_queue = [], notifying = 0, takers_blocked = 0, takers_woken = 0, put_log = [], taken_log = []\<rparr>"

definition notify_taker :: "('a, 'z) blocking_queue_scheme \<Rightarrow> ('a, 'z) blocking_queue_scheme" where
  "notify_taker s =
     (if 0 < takers_blocked s then s\<lparr>takers_blocked := takers_blocked s - 1, takers_woken := takers_woken s + 1\<rparr> else s)"

text \<open>\<^verbatim>\<open>put\<close>: the critical section and the notification after it.\<close>

definition bq_put :: "'a \<Rightarrow> 'a blocking_queue \<Rightarrow> 'a blocking_queue" where
  "bq_put task s = s\<lparr>bq_queue := bq_queue s @ [task], put_log := put_log s @ [task], notifying := notifying s + 1\<rparr>"

definition put_notify :: "'a blocking_queue \<Rightarrow> 'a blocking_queue" where
  "put_notify s = notify_taker (s\<lparr>notifying := notifying s - 1\<rparr>)"

text \<open>\<^verbatim>\<open>take\<close> from the moment it has the mutex: it blocks or takes the front.\<close>

definition bq_take :: "'a blocking_queue \<Rightarrow> 'a blocking_queue" where
  "bq_take s =
     (case bq_queue s of
        [] \<Rightarrow> s\<lparr>takers_blocked := takers_blocked s + 1\<rparr>
      | task # rest \<Rightarrow> s\<lparr>bq_queue := rest, taken_log := taken_log s @ [task]\<rparr>)"

definition bq_size :: "'a blocking_queue \<Rightarrow> nat" where
  "bq_size s = length (bq_queue s)"

text \<open>Steps of threads inside an operation, and the steps with a call or a wakeup for no reason.\<close>

inductive bq_internal :: "'a blocking_queue \<Rightarrow> 'a blocking_queue \<Rightarrow> bool" where
  bq_notify: "0 < notifying s \<Longrightarrow> bq_internal s (put_notify s)"
| bq_resume: "0 < takers_woken s \<Longrightarrow> bq_internal s (bq_take (s\<lparr>takers_woken := takers_woken s - 1\<rparr>))"

inductive bq_step :: "'a blocking_queue \<Rightarrow> 'a blocking_queue \<Rightarrow> bool" where
  bq_internal_step: "bq_internal s s' \<Longrightarrow> bq_step s s'"
| bq_put_step: "bq_step s (bq_put task s)"
| bq_take_step: "bq_step s (bq_take s)"
| bq_spurious: "0 < takers_blocked s \<Longrightarrow>
     bq_step s (s\<lparr>takers_blocked := takers_blocked s - 1, takers_woken := takers_woken s + 1\<rparr>)"

definition bq_inv :: "'a blocking_queue \<Rightarrow> bool" where
  "bq_inv s \<longleftrightarrow> put_log s = taken_log s @ bq_queue s \<and>
     (0 < takers_blocked s \<longrightarrow> length (bq_queue s) \<le> notifying s + takers_woken s)"

lemma bq_inv_take: "bq_inv s \<Longrightarrow> bq_inv (bq_take s)"
  by (auto simp: bq_inv_def bq_take_def split: list.splits)

lemma bq_inv_resume: "bq_inv s \<Longrightarrow> 0 < takers_woken s \<Longrightarrow> bq_inv (bq_take (s\<lparr>takers_woken := takers_woken s - 1\<rparr>))"
  by (cases "bq_queue s") (auto simp: bq_inv_def bq_take_def)

lemma bq_inv_internal: "bq_internal s s' \<Longrightarrow> bq_inv s \<Longrightarrow> bq_inv s'"
proof (induction rule: bq_internal.induct)
  case (bq_notify s)
  then show ?case by (auto simp: bq_inv_def put_notify_def notify_taker_def)
next
  case (bq_resume s)
  then show ?case by (intro bq_inv_resume)
qed

lemma bq_inv_step: "bq_step s s' \<Longrightarrow> bq_inv s \<Longrightarrow> bq_inv s'"
proof (induction rule: bq_step.induct)
  case (bq_internal_step s s')
  then show ?case by (rule bq_inv_internal)
next
  case (bq_take_step s)
  then show ?case by (rule bq_inv_take)
qed (auto simp: bq_inv_def bq_put_def)

lemma bq_inv_reachable:
  assumes "bq_step\<^sup>*\<^sup>* new_blocking_queue s"
  shows "bq_inv s"
  using assms
proof (induction rule: rtranclp_induct)
  case base
  then show ?case by (simp add: bq_inv_def new_blocking_queue_def)
next
  case (step s s')
  then show ?case by (blast intro: bq_inv_step)
qed

lemma two_steps: "r a b \<Longrightarrow> r b c \<Longrightarrow> r\<^sup>*\<^sup>* a c"
  by (rule converse_rtranclp_into_rtranclp [OF _ r_into_rtranclp])

text \<open>Internal steps alone bring an element to a blocked taker.\<close>

lemma bq_resume_takes:
  assumes "0 < takers_woken s" "bq_queue s = x # xs"
  shows "bq_internal s (s\<lparr>takers_woken := takers_woken s - 1, bq_queue := xs, taken_log := taken_log s @ [x]\<rparr>)"
proof -
  have "bq_take (s\<lparr>takers_woken := takers_woken s - 1\<rparr>) = s\<lparr>takers_woken := takers_woken s - 1, bq_queue := xs, taken_log := taken_log s @ [x]\<rparr>"
    using assms(2) by (simp add: bq_take_def)
  with bq_resume [OF assms(1)] show ?thesis by simp
qed

lemma bq_serves:
  assumes inv: "bq_inv s" and b: "0 < takers_blocked s" and q: "bq_queue s \<noteq> []"
  shows "\<exists>s'. bq_internal\<^sup>*\<^sup>* s s' \<and> taken_log s' = taken_log s @ [hd (bq_queue s)]"
proof -
  obtain x xs where x: "bq_queue s = x # xs" using q by (cases "bq_queue s") auto
  have "0 < notifying s + takers_woken s" using inv b x by (auto simp: bq_inv_def)
  then consider "0 < takers_woken s" | "takers_woken s = 0" "0 < notifying s" by linarith
  then show ?thesis
  proof cases
    case 1
    let ?t = "s\<lparr>takers_woken := takers_woken s - 1, bq_queue := xs, taken_log := taken_log s @ [x]\<rparr>"
    have "bq_internal\<^sup>*\<^sup>* s ?t" using bq_resume_takes [OF 1 x] by (rule r_into_rtranclp)
    moreover have "taken_log ?t = taken_log s @ [hd (bq_queue s)]" by (simp add: x)
    ultimately show ?thesis by blast
  next
    case 2
    let ?s = "put_notify s"
    have n: "0 < takers_woken ?s" "bq_queue ?s = x # xs" "taken_log ?s = taken_log s"
      using b x by (simp_all add: put_notify_def notify_taker_def)
    let ?t = "?s\<lparr>takers_woken := takers_woken ?s - 1, bq_queue := xs, taken_log := taken_log ?s @ [x]\<rparr>"
    have "bq_internal\<^sup>*\<^sup>* s ?t" using bq_notify [OF 2(2)] bq_resume_takes [OF n(1,2)] by (rule two_steps)
    moreover have "taken_log ?t = taken_log s @ [hd (bq_queue s)]" by (simp add: n x)
    ultimately show ?thesis by blast
  qed
qed

section \<open>The bounded queue\<close>

text \<open>
  The ring \<^verbatim>\<open>queue_\<close> is a parameter.  \<open>putters_blocked\<close> and \<open>putters_woken\<close> hold the tasks of the putters
  in \<^verbatim>\<open>notFull_.wait\<close>; \<open>i\<close> says which of the blocked ones a notification wakes.  Both notifications happen inside
  the critical section.
\<close>

record ('a, 'b) bounded_queue = "'a blocking_queue" +
  ring :: 'b
  putters_blocked :: "'a list"
  putters_woken :: "'a list"

definition BoundedBlockingQueue_ctor :: "'b \<Rightarrow> ('a, 'b) bounded_queue" where
  "BoundedBlockingQueue_ctor r = blocking_queue.extend new_blocking_queue \<lparr>ring = r, putters_blocked = [], putters_woken = []\<rparr>"

definition remove_nth :: "nat \<Rightarrow> 'a list \<Rightarrow> 'a list" where
  "remove_nth i xs = take i xs @ drop (i + 1) xs"

definition notify_putter :: "nat \<Rightarrow> ('a, 'b) bounded_queue \<Rightarrow> ('a, 'b) bounded_queue" where
  "notify_putter i s =
     (if i < length (putters_blocked s)
      then s\<lparr>putters_blocked := remove_nth i (putters_blocked s), putters_woken := putters_woken s @ [putters_blocked s ! i]\<rparr>
      else s)"

definition bbq_put :: "('a, 'b) ring_api \<Rightarrow> 'a \<Rightarrow> ('a, 'b) bounded_queue \<Rightarrow> ('a, 'b) bounded_queue" where
  "bbq_put api task s =
     (if ring_full api (ring s) then s\<lparr>putters_blocked := putters_blocked s @ [task]\<rparr>
      else notify_taker (s\<lparr>ring := ring_push api task (ring s), put_log := put_log s @ [task]\<rparr>))"

definition bbq_take :: "('a, 'b) ring_api \<Rightarrow> nat \<Rightarrow> ('a, 'b) bounded_queue \<Rightarrow> ('a, 'b) bounded_queue result" where
  "bbq_take api i s =
     (if ring_empty api (ring s) then Inr (s\<lparr>takers_blocked := takers_blocked s + 1\<rparr>)
      else rbind (ring_front api (ring s)) (\<lambda>task.
           rbind (ring_pop api (ring s)) (\<lambda>r.
             Inr (notify_putter i (s\<lparr>ring := r, taken_log := taken_log s @ [task]\<rparr>)))))"

definition bbq_size :: "('a, 'b) ring_api \<Rightarrow> ('a, 'b) bounded_queue \<Rightarrow> nat" where
  "bbq_size api s = ring_size api (ring s)"

definition bbq_capacity :: "('a, 'b) ring_api \<Rightarrow> ('a, 'b) bounded_queue \<Rightarrow> nat" where
  "bbq_capacity api s = ring_capacity api (ring s)"

definition bbq_full :: "('a, 'b) ring_api \<Rightarrow> ('a, 'b) bounded_queue \<Rightarrow> bool" where
  "bbq_full api s = ring_full api (ring s)"

definition bbq_empty :: "('a, 'b) ring_api \<Rightarrow> ('a, 'b) bounded_queue \<Rightarrow> bool" where
  "bbq_empty api s = ring_empty api (ring s)"

text \<open>A notification picks a blocked putter if there is one.\<close>

definition picks :: "nat \<Rightarrow> ('a, 'b) bounded_queue \<Rightarrow> bool" where
  "picks i s \<longleftrightarrow> putters_blocked s = [] \<or> i < length (putters_blocked s)"

inductive bbq_step :: "('a, 'b) ring_api \<Rightarrow> ('a, 'b) bounded_queue \<Rightarrow> ('a, 'b) bounded_queue \<Rightarrow> bool" for api where
  bbq_put_step: "bbq_step api s (bbq_put api task s)"
| bbq_put_resume: "k < length (putters_woken s) \<Longrightarrow>
     bbq_step api s (bbq_put api (putters_woken s ! k) (s\<lparr>putters_woken := remove_nth k (putters_woken s)\<rparr>))"
| bbq_take_step: "picks i s \<Longrightarrow> bbq_take api i s = Inr s' \<Longrightarrow> bbq_step api s s'"
| bbq_take_resume: "picks i s \<Longrightarrow> 0 < takers_woken s \<Longrightarrow>
     bbq_take api i (s\<lparr>takers_woken := takers_woken s - 1\<rparr>) = Inr s' \<Longrightarrow> bbq_step api s s'"
| bbq_take_spurious: "0 < takers_blocked s \<Longrightarrow>
     bbq_step api s (s\<lparr>takers_blocked := takers_blocked s - 1, takers_woken := takers_woken s + 1\<rparr>)"
| bbq_put_spurious: "i < length (putters_blocked s) \<Longrightarrow> bbq_step api s (notify_putter i s)"

text \<open>
  The invariant, with slack for a thread that was woken and is about to run: what was put is what was taken and then what
  the ring holds; blocked takers leave at least as many woken ones as there are elements, and blocked putters at least as
  many woken ones as there is room.
\<close>

definition bbq_inv ::
  "('a, 'b) ring_api \<Rightarrow> ('b \<Rightarrow> bool) \<Rightarrow> ('b \<Rightarrow> 'a list) \<Rightarrow> nat \<Rightarrow> nat \<Rightarrow> nat \<Rightarrow> ('a, 'b) bounded_queue \<Rightarrow> bool" where
  "bbq_inv api ok contents cap k m s \<longleftrightarrow> ok (ring s) \<and> ring_capacity api (ring s) = cap \<and>
     put_log s = taken_log s @ contents (ring s) \<and>
     (0 < takers_blocked s \<longrightarrow> length (contents (ring s)) \<le> takers_woken s + k) \<and>
     (putters_blocked s \<noteq> [] \<longrightarrow> cap \<le> length (contents (ring s)) + length (putters_woken s) + m)"

lemma length_remove_nth: "i < length xs \<Longrightarrow> length (remove_nth i xs) = length xs - 1"
  by (simp add: remove_nth_def)

lemma notify_taker_fields [simp]:
  "ring (notify_taker s) = ring s" "putters_blocked (notify_taker s) = putters_blocked s" "putters_woken (notify_taker s) = putters_woken s"
  "put_log (notify_taker s) = put_log s" "taken_log (notify_taker s) = taken_log s"
  by (simp_all add: notify_taker_def)

lemma notify_putter_fields [simp]:
  "ring (notify_putter i s) = ring s" "takers_blocked (notify_putter i s) = takers_blocked s" "takers_woken (notify_putter i s) = takers_woken s"
  "put_log (notify_putter i s) = put_log s" "taken_log (notify_putter i s) = taken_log s"
  by (simp_all add: notify_putter_def)

lemma notify_putter_woken:
  "i < length (putters_blocked s) \<Longrightarrow> length (putters_woken (notify_putter i s)) = length (putters_woken s) + 1"
  by (simp add: notify_putter_def)

context bounded_ring
begin

lemma bbq_inv_put:
  assumes "bbq_inv api ok contents cap 0 1 s"
  shows "bbq_inv api ok contents cap 0 0 (bbq_put api x s)"
proof (cases "ring_full api (ring s)")
  case True
  then show ?thesis using assms full_law by (auto simp: bbq_put_def bbq_inv_def)
next
  case False
  then show ?thesis
    using assms push_law [of "ring s" x] push_room [of "ring s" x] by (auto simp: bbq_put_def bbq_inv_def notify_taker_def)
qed

lemma bbq_take_cases:
  assumes "bbq_inv api ok contents cap k m s"
  obtains "contents (ring s) = []" "bbq_take api i s = Inr (s\<lparr>takers_blocked := takers_blocked s + 1\<rparr>)"
  | x xs r where "contents (ring s) = x # xs" "contents r = xs" "ok r" "ring_capacity api r = ring_capacity api (ring s)"
      "bbq_take api i s = Inr (notify_putter i (s\<lparr>ring := r, taken_log := taken_log s @ [x]\<rparr>))"
proof (cases "contents (ring s)")
  case Nil
  with assms empty_law that(1) show ?thesis by (simp add: bbq_take_def bbq_inv_def)
next
  case (Cons x xs)
  have ok: "ok (ring s)" using assms by (simp add: bbq_inv_def)
  obtain r where "ring_front api (ring s) = Inr x" "ring_pop api (ring s) = Inr r" "ok r" "contents r = xs"
    "ring_capacity api r = ring_capacity api (ring s)"
    using pop_law [OF ok] Cons by auto
  with Cons ok empty_law that(2) [of x xs r] show ?thesis by (simp add: bbq_take_def)
qed

lemma bbq_inv_take:
  assumes inv: "bbq_inv api ok contents cap 1 0 s" and p: "picks i s" and t: "bbq_take api i s = Inr s'"
  shows "bbq_inv api ok contents cap 0 0 s'"
  using inv
proof (cases rule: bbq_take_cases [where i = i])
  case 1
  then show ?thesis using inv t by (auto simp: bbq_inv_def)
next
  case (2 x xs r)
  have s': "s' = notify_putter i (s\<lparr>ring := r, taken_log := taken_log s @ [x]\<rparr>)" using 2(5) t by simp
  have w: "length (putters_woken s') = length (putters_woken s) + (if putters_blocked s = [] then 0 else 1)"
    "putters_blocked s' \<noteq> [] \<Longrightarrow> putters_blocked s \<noteq> []"
    using p by (auto simp: s' picks_def notify_putter_def)
  have "ok (ring s')" "ring_capacity api (ring s') = cap" "put_log s' = taken_log s' @ contents (ring s')"
    "takers_blocked s' = takers_blocked s" "takers_woken s' = takers_woken s" "length (contents (ring s')) = length xs"
    using 2 inv by (simp_all add: s' bbq_inv_def)
  then show ?thesis using inv w 2(1) by (auto simp: bbq_inv_def)
qed

lemma bbq_inv_weaken: "bbq_inv api ok contents cap 0 0 s \<Longrightarrow> bbq_inv api ok contents cap k m s"
  by (auto simp: bbq_inv_def)

lemma bbq_inv_step:
  assumes "bbq_step api s s'" and "bbq_inv api ok contents cap 0 0 s"
  shows "bbq_inv api ok contents cap 0 0 s'"
  using assms
proof (induction rule: bbq_step.induct)
  case (bbq_put_step s task)
  then show ?case using bbq_inv_put [OF bbq_inv_weaken] by blast
next
  case (bbq_put_resume k s)
  then have "bbq_inv api ok contents cap 0 1 (s\<lparr>putters_woken := remove_nth k (putters_woken s)\<rparr>)"
    by (auto simp: bbq_inv_def length_remove_nth)
  then show ?case by (rule bbq_inv_put)
next
  case (bbq_take_step i s s')
  then show ?case using bbq_inv_take [OF bbq_inv_weaken] by blast
next
  case (bbq_take_resume i s s')
  then have "bbq_inv api ok contents cap 1 0 (s\<lparr>takers_woken := takers_woken s - 1\<rparr>)" "picks i (s\<lparr>takers_woken := takers_woken s - 1\<rparr>)"
    by (auto simp: bbq_inv_def picks_def)
  then show ?case using bbq_take_resume(3) by (intro bbq_inv_take)
next
  case (bbq_take_spurious s)
  then show ?case by (auto simp: bbq_inv_def)
next
  case (bbq_put_spurious i s)
  then show ?case by (auto simp: bbq_inv_def notify_putter_woken)
qed

lemma bbq_inv_reachable:
  assumes "(bbq_step api)\<^sup>*\<^sup>* (BoundedBlockingQueue_ctor r) s" and "ok r" and "contents r = []"
  shows "bbq_inv api ok contents (ring_capacity api r) 0 0 s"
  using assms(1)
proof (induction rule: rtranclp_induct)
  case base
  then show ?case
    using assms(2,3) by (simp add: bbq_inv_def BoundedBlockingQueue_ctor_def blocking_queue.extend_def new_blocking_queue_def)
next
  case (step s s')
  then show ?case by (blast intro: bbq_inv_step)
qed

end

section \<open>Properties\<close>

text \<open>
  The unbounded queue.  Under any interleaving of any number of threads, elements are taken in the order in which
  they were put, each once, and no wakeup is lost: whenever a thread is blocked in \<^verbatim>\<open>take\<close> although the queue is
  not empty, the threads that are inside \<^verbatim>\<open>put\<close> and \<^verbatim>\<open>take\<close> can bring it the front element without any
  further call.\<close>
theorem blocking_queue_correct:
  assumes "bq_step\<^sup>*\<^sup>* new_blocking_queue s"
  shows "put_log s = taken_log s @ bq_queue s \<and>
    (0 < takers_blocked s \<and> bq_queue s \<noteq> [] \<longrightarrow>
      (\<exists>s'. bq_internal\<^sup>*\<^sup>* s s' \<and> taken_log s' = taken_log s @ [hd (bq_queue s)]))"
  using bq_inv_reachable [OF assms] bq_serves by (auto simp: bq_inv_def)

theorem blocking_queue_correct_witness:
  "\<exists>s'. bq_internal\<^sup>*\<^sup>* (bq_put (5 :: nat) (bq_take new_blocking_queue)) s' \<and> taken_log s' = [5]"
proof -
  let ?s = "bq_put (5 :: nat) (bq_take new_blocking_queue)"
  have "bq_step\<^sup>*\<^sup>* new_blocking_queue ?s"
    by (rule two_steps) (rule bq_take_step, rule bq_put_step)
  from blocking_queue_correct [OF this] show ?thesis by (simp add: bq_put_def bq_take_def new_blocking_queue_def)
qed

text \<open>
  C19.  The bounded queue, on any ring that behaves like \<^verbatim>\<open>boost::circular_buffer\<close>.  Under any interleaving, elements are
  taken in the order in which they were put, each once; the queue never holds more than its capacity; a blocked taker with elements in
  the queue, or a blocked putter with room, always leaves a woken thread of its kind that will get on; and
  with a positive capacity putters and takers are never all asleep at once.\<close>
theorem bounded_queue_correct:
  assumes "bounded_ring api ok contents" and "ok r" and "contents r = []"
    and "(bbq_step api)\<^sup>*\<^sup>* (BoundedBlockingQueue_ctor r) s"
  shows "put_log s = taken_log s @ contents (ring s) \<and> length (contents (ring s)) \<le> ring_capacity api r \<and>
    (0 < takers_blocked s \<and> contents (ring s) \<noteq> [] \<longrightarrow> 0 < takers_woken s) \<and>
    (putters_blocked s \<noteq> [] \<and> length (contents (ring s)) < ring_capacity api r \<longrightarrow> putters_woken s \<noteq> []) \<and>
    (0 < ring_capacity api r \<and> 0 < takers_blocked s \<and> putters_blocked s \<noteq> [] \<longrightarrow> 0 < takers_woken s \<or> putters_woken s \<noteq> [])"
proof -
  have inv: "bbq_inv api ok contents (ring_capacity api r) 0 0 s"
    by (rule bounded_ring.bbq_inv_reachable [OF assms(1,4,2,3)])
  then have "length (contents (ring s)) \<le> ring_capacity api r"
    using bounded_ring.bound_law [OF assms(1), of "ring s"] by (simp add: bbq_inv_def)
  moreover have "putters_woken s \<noteq> []" if "putters_blocked s \<noteq> []" "length (contents (ring s)) < ring_capacity api r"
    using inv that by (auto simp: bbq_inv_def)
  moreover have "0 < takers_woken s" if "0 < takers_blocked s" "contents (ring s) \<noteq> []"
    using inv that by (cases "contents (ring s)") (auto simp: bbq_inv_def)
  moreover have "put_log s = taken_log s @ contents (ring s)" using inv by (simp add: bbq_inv_def)
  ultimately show ?thesis by (cases "contents (ring s) = []") simp_all
qed

theorem bounded_queue_correct_witness:
  "\<exists>s. (bbq_step circular_ring)\<^sup>*\<^sup>* (BoundedBlockingQueue_ctor (circular_q_ctor (0 :: nat) 1)) s \<and>
     put_log s = taken_log s @ q_contents (ring s) \<and> putters_blocked s = [8]"
proof -
  let ?c = "circular_q_ctor (0 :: nat) 1"
  let ?s = "bbq_put circular_ring 8 (bbq_put circular_ring 7 (BoundedBlockingQueue_ctor ?c))"
  have c: "ring_ok ?c" "q_contents ?c = []"
    by (simp_all add: ring_ok_def q_ok_def circular_q_ctor_def q_contents_def q_size_def)
  have reach: "(bbq_step circular_ring)\<^sup>*\<^sup>* (BoundedBlockingQueue_ctor ?c) ?s"
    by (rule two_steps) (rule bbq_put_step)+
  have "put_log ?s = taken_log ?s @ q_contents (ring ?s)"
    using bounded_queue_correct [OF circular.bounded_ring_axioms c reach] by simp
  moreover have "putters_blocked ?s = [8]"
    by (simp add: bbq_put_def circular_ring_def q_full_def push_back_def circular_q_ctor_def BoundedBlockingQueue_ctor_def
        blocking_queue.extend_def new_blocking_queue_def notify_taker_def)
  ultimately show ?thesis using reach by blast
qed

end
