(* ===== verification/Mpmc_Queue.thy ===== *)
theory Mpmc_Queue
  imports BlockingQueue "HOL-Library.Sublist"
begin

text \<open>
  Model of \<^verbatim>\<open>spdlog/details/mpmc_blocking_q.h\<close>, the queue of the asynchronous log, in its variant with the
  notifications after the critical sections.  The state extends that of the bounded queue, on the ring \<^verbatim>\<open>circular_q\<close>, by the number of
  consumers that are about to notify \<^verbatim>\<open>pop_cv_\<close>, of consumers whose wait timed out, and of those that returned
  \<^verbatim>\<open>false\<close>.
\<close>

record 'a mpmc_queue = "('a, 'a circular_q) bounded_queue" +
  pop_notifying :: nat
  timed_out :: nat
  gave_up :: nat

definition mpmc_ctor :: "'a \<Rightarrow> nat \<Rightarrow> 'a mpmc_queue" where
  "mpmc_ctor d n = bounded_queue.extend (BoundedBlockingQueue_ctor (circular_q_ctor d n)) \<lparr>pop_notifying = 0, timed_out = 0, gave_up = 0\<rparr>"

text \<open>\<open>q_.push_back(item)\<close> with the notification that follows.\<close>

definition mpmc_push :: "'a \<Rightarrow> 'a mpmc_queue \<Rightarrow> 'a mpmc_queue" where
  "mpmc_push item s = s\<lparr>ring := push_back item (ring s), put_log := put_log s @ [item], notifying := notifying s + 1\<rparr>"

definition enqueue :: "'a \<Rightarrow> 'a mpmc_queue \<Rightarrow> 'a mpmc_queue" where
  "enqueue item s = (if q_full (ring s) then s\<lparr>putters_blocked := putters_blocked s @ [item]\<rparr> else mpmc_push item s)"

definition enqueue_nowait :: "'a \<Rightarrow> 'a mpmc_queue \<Rightarrow> 'a mpmc_queue" where
  "enqueue_nowait item s = mpmc_push item s"

text \<open>\<^verbatim>\<open>dequeue_for\<close> from the moment it has the mutex; \<open>late\<close> says that the time is over.\<close>

definition dequeue_for :: "bool \<Rightarrow> 'a mpmc_queue \<Rightarrow> 'a mpmc_queue result" where
  "dequeue_for late s =
     (if q_empty (ring s) then Inr (if late then s\<lparr>gave_up := gave_up s + 1\<rparr> else s\<lparr>takers_blocked := takers_blocked s + 1\<rparr>)
      else rbind (front (ring s)) (\<lambda>item.
           rbind (pop_front (ring s)) (\<lambda>r.
             Inr (s\<lparr>ring := r, taken_log := taken_log s @ [item], pop_notifying := pop_notifying s + 1\<rparr>))))"

definition mpmc_overrun_counter :: "'a mpmc_queue \<Rightarrow> nat" where
  "mpmc_overrun_counter s = overrun_count (ring s)"

definition mpmc_size :: "'a mpmc_queue \<Rightarrow> nat" where
  "mpmc_size s = q_size (ring s)"

inductive mpmc_step :: "'a mpmc_queue \<Rightarrow> 'a mpmc_queue \<Rightarrow> bool" where
  mpmc_enqueue: "mpmc_step s (enqueue item s)"
| mpmc_enqueue_nowait: "mpmc_step s (enqueue_nowait item s)"
| mpmc_enqueue_resume: "k < length (putters_woken s) \<Longrightarrow>
     mpmc_step s (enqueue (putters_woken s ! k) (s\<lparr>putters_woken := remove_nth k (putters_woken s)\<rparr>))"
| mpmc_notify: "0 < notifying s \<Longrightarrow> mpmc_step s (notify_taker (s\<lparr>notifying := notifying s - 1\<rparr>))"
| mpmc_dequeue: "dequeue_for False s = Inr s' \<Longrightarrow> mpmc_step s s'"
| mpmc_dequeue_resume: "0 < takers_woken s \<Longrightarrow> dequeue_for False (s\<lparr>takers_woken := takers_woken s - 1\<rparr>) = Inr s' \<Longrightarrow> mpmc_step s s'"
| mpmc_timeout: "0 < takers_blocked s \<Longrightarrow> mpmc_step s (s\<lparr>takers_blocked := takers_blocked s - 1, timed_out := timed_out s + 1\<rparr>)"
| mpmc_dequeue_late: "0 < timed_out s \<Longrightarrow> dequeue_for True (s\<lparr>timed_out := timed_out s - 1\<rparr>) = Inr s' \<Longrightarrow> mpmc_step s s'"
| mpmc_pop_notify: "0 < pop_notifying s \<Longrightarrow> i < length (putters_blocked s) \<Longrightarrow>
     mpmc_step s (s\<lparr>pop_notifying := pop_notifying s - 1, putters_blocked := remove_nth i (putters_blocked s),
                    putters_woken := putters_woken s @ [putters_blocked s ! i]\<rparr>)"
| mpmc_pop_notify_none: "0 < pop_notifying s \<Longrightarrow> putters_blocked s = [] \<Longrightarrow> mpmc_step s (s\<lparr>pop_notifying := pop_notifying s - 1\<rparr>)"

definition mpmc_inv :: "nat \<Rightarrow> 'a mpmc_queue \<Rightarrow> bool" where
  "mpmc_inv n s \<longleftrightarrow> ring_ok (ring s) \<and> q_capacity (ring s) = n \<and> subseq (taken_log s @ q_contents (ring s)) (put_log s) \<and>
     length (put_log s) = length (taken_log s) + q_size (ring s) + overrun_count (ring s)"

lemma subseq_drop: "subseq (drop k xs) xs"
  by (rule suffix_imp_subseq) (rule suffix_drop)

lemma mpmc_inv_cong:
  "ring s' = ring s \<Longrightarrow> taken_log s' = taken_log s \<Longrightarrow> put_log s' = put_log s \<Longrightarrow> mpmc_inv n s \<Longrightarrow> mpmc_inv n s'"
  by (simp add: mpmc_inv_def)

lemma mpmc_inv_push:
  assumes inv: "mpmc_inv n s"
  shows "mpmc_inv n (mpmc_push x s)"
proof -
  let ?r = "ring s" and ?r' = "push_back x (ring s)"
  have r: "q_ok ?r" "0 < max_items ?r" using inv by (simp_all add: mpmc_inv_def ring_ok_def)
  note p = push_back_contents [OF r, of x]
  have "ring_ok ?r'" using p(2) r(2) by (simp add: ring_ok_def) (simp add: push_back_def Let_def)
  moreover have "subseq (taken_log s @ q_contents ?r') (put_log s @ [x])"
  proof -
    have "subseq (taken_log s @ q_contents ?r') (taken_log s @ (q_contents ?r @ [x]))"
      unfolding p(1) keep_last_def by (rule list_emb_append_mono) (rule subseq_order.refl, rule subseq_drop)
    also have "subseq \<dots> (put_log s @ [x])"
      using inv list_emb_append_mono [of "(=)" "taken_log s @ q_contents ?r" "put_log s" "[x]" "[x]"] by (simp add: mpmc_inv_def)
    finally show ?thesis .
  qed
  moreover have "q_size ?r' + overrun_count ?r' = q_size ?r + overrun_count ?r + 1"
  proof -
    have "q_size ?r' = min (q_capacity ?r) (q_size ?r + 1)"
      using arg_cong [OF p(1), of length] by (simp add: keep_last_def)
    moreover have "q_size ?r \<le> q_capacity ?r" using q_size_mod(2) [OF r] by (simp add: q_capacity_def)
    ultimately show ?thesis using p(4) q_full_iff [OF r] by auto
  qed
  ultimately show ?thesis using inv p(3) by (simp add: mpmc_inv_def mpmc_push_def)
qed

lemma mpmc_inv_enqueue: "mpmc_inv n s \<Longrightarrow> mpmc_inv n (enqueue x s)"
  unfolding enqueue_def using mpmc_inv_push by (auto intro: mpmc_inv_cong [of _ s])

lemma mpmc_inv_dequeue:
  assumes inv: "mpmc_inv n s" and d: "dequeue_for late s = Inr s'"
  shows "mpmc_inv n s'"
proof (cases "q_empty (ring s)")
  case True
  then show ?thesis using d by (intro mpmc_inv_cong [OF _ _ _ inv]) (auto simp: dequeue_for_def)
next
  case False
  have r: "q_ok (ring s)" "0 < max_items (ring s)" using inv by (simp_all add: mpmc_inv_def ring_ok_def)
  have ne: "q_contents (ring s) \<noteq> []" using False q_empty_iff [OF r(1)] by simp
  obtain r' where r': "pop_front (ring s) = Inr r'" "front (ring s) = Inr (hd (q_contents (ring s)))"
    "q_contents r' = tl (q_contents (ring s))" "q_ok r'" "q_capacity r' = q_capacity (ring s)" "overrun_count r' = overrun_count (ring s)"
    by (rule pop_front_contents [OF r(1) ne])
  have s': "s' = s\<lparr>ring := r', taken_log := taken_log s @ [hd (q_contents (ring s))], pop_notifying := pop_notifying s + 1\<rparr>"
    using d False r' by (simp add: dequeue_for_def)
  have "max_items r' = max_items (ring s)" using r'(1) r(2) by (auto simp: pop_front_def)
  moreover have "q_size (ring s) = q_size r' + 1"
    using arg_cong [OF r'(3), of length] ne by (cases "q_contents (ring s)") (auto simp flip: length_q_contents)
  ultimately show ?thesis using inv r' r(2) ne by (simp add: mpmc_inv_def s' ring_ok_def)
qed

lemma mpmc_inv_step:
  assumes "mpmc_step s s'" and "mpmc_inv n s"
  shows "mpmc_inv n s'"
  using assms
proof (induction rule: mpmc_step.induct)
  case (mpmc_enqueue_resume k s)
  then show ?case by (intro mpmc_inv_enqueue mpmc_inv_cong [OF _ _ _ mpmc_enqueue_resume(2)]) simp_all
next
  case (mpmc_dequeue_resume s s')
  then show ?case by (intro mpmc_inv_dequeue [OF mpmc_inv_cong [OF _ _ _ mpmc_dequeue_resume(3)] mpmc_dequeue_resume(2)]) simp_all
next
  case (mpmc_dequeue_late s s')
  then show ?case by (intro mpmc_inv_dequeue [OF mpmc_inv_cong [OF _ _ _ mpmc_dequeue_late(3)] mpmc_dequeue_late(2)]) simp_all
next
  case (mpmc_dequeue s s')
  then show ?case by (blast intro: mpmc_inv_dequeue)
next
  case (mpmc_notify s)
  then show ?case by (intro mpmc_inv_cong [OF _ _ _ mpmc_notify(2)]) (simp_all add: notify_taker_def)
qed (auto simp: enqueue_nowait_def intro: mpmc_inv_enqueue mpmc_inv_push mpmc_inv_cong)

lemma mpmc_inv_reachable:
  assumes "mpmc_step\<^sup>*\<^sup>* (mpmc_ctor d n) s" and "n + 1 < 2 ^ 64"
  shows "mpmc_inv n s"
  using assms(1)
proof (induction rule: rtranclp_induct)
  case base
  then show ?case
    using assms(2) by (simp add: mpmc_inv_def mpmc_ctor_def bounded_queue.extend_def BoundedBlockingQueue_ctor_def blocking_queue.extend_def
        new_blocking_queue_def circular_q_ctor_def ring_ok_def q_ok_def q_capacity_def q_contents_def q_size_def)
next
  case (step s s')
  then show ?case by (blast intro: mpmc_inv_step)
qed

section \<open>Producers that wait\<close>

lemma enqueue_contents:
  assumes "mpmc_inv n s"
  shows "q_contents (ring (enqueue x s)) = (if q_full (ring s) then q_contents (ring s) else q_contents (ring s) @ [x])"
proof (cases "q_full (ring s)")
  case False
  have r: "q_ok (ring s)" "0 < max_items (ring s)" using assms by (simp_all add: mpmc_inv_def ring_ok_def)
  have "q_size (ring s) < q_capacity (ring s)" using False q_full_iff [OF r] q_size_mod(2) [OF r] by (simp add: q_capacity_def)
  then show ?thesis using False push_back_contents(1) [OF r, of x] by (simp add: enqueue_def mpmc_push_def keep_last_def)
qed (simp add: enqueue_def)

lemma dequeue_contents:
  assumes "mpmc_inv n s" and d: "dequeue_for late s = Inr s'"
  shows "taken_log s' @ q_contents (ring s') = taken_log s @ q_contents (ring s)"
proof (cases "q_empty (ring s)")
  case True
  then show ?thesis using d by (auto simp: dequeue_for_def)
next
  case False
  have r: "q_ok (ring s)" using assms(1) by (simp add: mpmc_inv_def ring_ok_def)
  have ne: "q_contents (ring s) \<noteq> []" using False q_empty_iff [OF r] by simp
  obtain r' where "pop_front (ring s) = Inr r'" "front (ring s) = Inr (hd (q_contents (ring s)))" "q_contents r' = tl (q_contents (ring s))"
    using pop_front_contents [OF r ne] by metis
  then show ?thesis using d False ne by (auto simp: dequeue_for_def)
qed

lemma dequeue_succeeds:
  assumes "mpmc_inv n s"
  obtains s' where "dequeue_for late s = Inr s'"
proof (cases "q_empty (ring s)")
  case True
  then show ?thesis using that by (simp add: dequeue_for_def)
next
  case False
  have r: "q_ok (ring s)" using assms by (simp add: mpmc_inv_def ring_ok_def)
  have ne: "q_contents (ring s) \<noteq> []" using False q_empty_iff [OF r] by simp
  obtain r' where "pop_front (ring s) = Inr r'" "front (ring s) = Inr (hd (q_contents (ring s)))" using pop_front_contents [OF r ne] by metis
  then show ?thesis using that False by (simp add: dequeue_for_def)
qed

text \<open>With \<open>k\<close> threads about to run, no producer sleeps over room in the queue.\<close>

definition putters_ok :: "nat \<Rightarrow> 'a mpmc_queue \<Rightarrow> bool" where
  "putters_ok k s \<longleftrightarrow> (putters_blocked s \<noteq> [] \<longrightarrow> q_capacity (ring s) \<le> q_size (ring s) + length (putters_woken s) + pop_notifying s + k)"

lemma q_capacity_mpmc: "mpmc_inv n s \<Longrightarrow> q_capacity (ring s) = n"
  by (simp add: mpmc_inv_def)

lemma putters_ok_enqueue:
  assumes "mpmc_inv n s" and "putters_ok 1 s"
  shows "putters_ok 0 (enqueue x s)"
proof -
  have r: "q_ok (ring s)" "0 < max_items (ring s)" using assms(1) by (simp_all add: mpmc_inv_def ring_ok_def)
  have c: "q_capacity (ring (enqueue x s)) = q_capacity (ring s)"
    using mpmc_inv_enqueue [OF assms(1)] assms(1) by (simp add: q_capacity_mpmc)
  have l: "q_size (ring (enqueue x s)) = (if q_full (ring s) then q_size (ring s) else q_size (ring s) + 1)"
    using arg_cong [OF enqueue_contents [OF assms(1), of x], of length] by (simp split: if_splits)
  show ?thesis
    using assms(2) c l q_full_iff [OF r] by (auto simp: putters_ok_def enqueue_def mpmc_push_def split: if_splits)
qed

lemma putters_ok_push:
  assumes "mpmc_inv n s" and "putters_ok 0 s"
  shows "putters_ok 0 (mpmc_push x s)"
proof (cases "q_full (ring s)")
  case False
  have "putters_ok 1 s" using assms(2) by (auto simp: putters_ok_def)
  from putters_ok_enqueue [OF assms(1) this, of x] show ?thesis using False by (simp add: enqueue_def)
next
  case True
  have r: "q_ok (ring s)" "0 < max_items (ring s)" using assms(1) by (simp_all add: mpmc_inv_def ring_ok_def)
  have "q_size (push_back x (ring s)) = q_size (ring s)"
    using arg_cong [OF push_back_contents(1) [OF r, of x], of length] True q_full_iff [OF r] by (simp add: keep_last_def)
  then show ?thesis using assms(2) push_back_contents(3) [OF r, of x] by (simp add: putters_ok_def mpmc_push_def)
qed

lemma putters_ok_dequeue:
  assumes "mpmc_inv n s" and "dequeue_for late s = Inr s'" and "putters_ok 0 s"
  shows "putters_ok 0 s'"
proof -
  have "q_size (ring s') + length (taken_log s') = q_size (ring s) + length (taken_log s)"
    using arg_cong [OF dequeue_contents [OF assms(1,2)], of length] by simp
  moreover have "q_capacity (ring s') = q_capacity (ring s)"
    using mpmc_inv_dequeue [OF assms(1,2)] assms(1) by (simp add: q_capacity_mpmc)
  ultimately show ?thesis using assms(2,3) by (auto simp: putters_ok_def dequeue_for_def rbind_eq_Inr split: if_splits)
qed

lemma putters_ok_cong:
  "ring s' = ring s \<Longrightarrow> putters_blocked s' = putters_blocked s \<Longrightarrow> putters_woken s' = putters_woken s \<Longrightarrow>
   pop_notifying s' = pop_notifying s \<Longrightarrow> putters_ok k s \<Longrightarrow> putters_ok k s'"
  by (simp add: putters_ok_def)

lemma putters_ok_step:
  assumes "mpmc_step s s'" and "mpmc_inv n s" and "putters_ok 0 s"
  shows "putters_ok 0 s'"
  using assms
proof (induction rule: mpmc_step.induct)
  case (mpmc_enqueue s item)
  then show ?case by (intro putters_ok_enqueue) (auto simp: putters_ok_def)
next
  case (mpmc_enqueue_resume k s)
  have "mpmc_inv n (s\<lparr>putters_woken := remove_nth k (putters_woken s)\<rparr>)" by (rule mpmc_inv_cong [OF _ _ _ mpmc_enqueue_resume(2)]) simp_all
  then show ?case using mpmc_enqueue_resume(1,3) by (elim putters_ok_enqueue) (auto simp: putters_ok_def length_remove_nth)
next
  case (mpmc_dequeue_resume s s')
  then show ?case
    by (intro putters_ok_dequeue [OF mpmc_inv_cong [OF _ _ _ mpmc_dequeue_resume(3)] mpmc_dequeue_resume(2)]
        putters_ok_cong [OF _ _ _ _ mpmc_dequeue_resume(4)]) simp_all
next
  case (mpmc_dequeue_late s s')
  then show ?case
    by (intro putters_ok_dequeue [OF mpmc_inv_cong [OF _ _ _ mpmc_dequeue_late(3)] mpmc_dequeue_late(2)]
        putters_ok_cong [OF _ _ _ _ mpmc_dequeue_late(4)]) simp_all
next
  case (mpmc_enqueue_nowait s item)
  then show ?case unfolding enqueue_nowait_def by (rule putters_ok_push)
next
  case (mpmc_dequeue s s')
  then show ?case using putters_ok_dequeue by blast
qed (auto simp: putters_ok_def notify_taker_def length_remove_nth)

lemma putters_ok_reachable:
  assumes "mpmc_step\<^sup>*\<^sup>* (mpmc_ctor d n) s" and "n + 1 < 2 ^ 64"
  shows "putters_ok 0 s"
  using assms(1)
proof (induction rule: rtranclp_induct)
  case base
  then show ?case
    by (simp add: putters_ok_def mpmc_ctor_def bounded_queue.extend_def BoundedBlockingQueue_ctor_def blocking_queue.extend_def)
next
  case (step s s')
  then show ?case using mpmc_inv_reachable [OF step(1) assms(2)] by (blast intro: putters_ok_step)
qed

section \<open>Properties\<close>

text \<open>
  C20.  The queue of the asynchronous log.  Under any interleaving of blocking and overrunning producers and of consumers with
  timeouts, messages come out in the order in which they went in, the queue holds at most \<open>n\<close> of them, and every
  message that was accepted is either taken, still there, or counted by \<^verbatim>\<open>overrun_counter()\<close>; as long as that
  counter is zero, nothing is lost or reordered.  And no producer sleeps over room in the queue: as long as one is blocked, there are as
  many woken producers and consumers about to notify as there are free slots.\<close>
theorem mpmc_no_silent_loss:
  assumes "mpmc_step\<^sup>*\<^sup>* (mpmc_ctor d n) s" and "n + 1 < 2 ^ 64"
  shows "subseq (taken_log s @ q_contents (ring s)) (put_log s) \<and> mpmc_size s \<le> n \<and>
    length (put_log s) = length (taken_log s) + mpmc_size s + mpmc_overrun_counter s \<and>
    (mpmc_overrun_counter s = 0 \<longrightarrow> put_log s = taken_log s @ q_contents (ring s)) \<and>
    (putters_blocked s \<noteq> [] \<longrightarrow> n - mpmc_size s \<le> length (putters_woken s) + pop_notifying s)"
proof -
  have p: "putters_ok 0 s" by (rule putters_ok_reachable [OF assms])
  have inv: "mpmc_inv n s" by (rule mpmc_inv_reachable [OF assms])
  then have r: "q_ok (ring s)" "0 < max_items (ring s)" by (simp_all add: mpmc_inv_def ring_ok_def)
  have "mpmc_size s \<le> n" using q_size_mod(2) [OF r] inv by (auto simp: mpmc_size_def mpmc_inv_def q_capacity_def)
  moreover have "put_log s = taken_log s @ q_contents (ring s)" if "mpmc_overrun_counter s = 0"
    using that inv subseq_same_length [of "taken_log s @ q_contents (ring s)" "put_log s"]
    by (simp add: mpmc_inv_def mpmc_overrun_counter_def)
  moreover have "n - mpmc_size s \<le> length (putters_woken s) + pop_notifying s" if "putters_blocked s \<noteq> []"
    using that p inv by (simp add: putters_ok_def mpmc_inv_def mpmc_size_def)
  ultimately show ?thesis using inv by (simp add: mpmc_inv_def mpmc_size_def mpmc_overrun_counter_def)
qed

theorem mpmc_no_silent_loss_witness:
  "\<exists>s. mpmc_step\<^sup>*\<^sup>* (mpmc_ctor (0 :: nat) 1) s \<and> put_log s = [4, 5] \<and> q_contents (ring s) = [5] \<and>
     length (put_log s) = length (taken_log s) + mpmc_size s + mpmc_overrun_counter s"
proof -
  let ?s = "enqueue_nowait 5 (enqueue_nowait 4 (mpmc_ctor (0 :: nat) 1))"
  have reach: "mpmc_step\<^sup>*\<^sup>* (mpmc_ctor (0 :: nat) 1) ?s" by (rule two_steps) (rule mpmc_enqueue_nowait)+
  have b: "(1 :: nat) + 1 < 2 ^ 64" by simp
  have "length (put_log ?s) = length (taken_log ?s) + mpmc_size ?s + mpmc_overrun_counter ?s"
    using mpmc_no_silent_loss [OF reach b] by blast
  moreover have "put_log ?s = [4, 5]" "q_contents (ring ?s) = [5]"
    by (simp_all add: enqueue_nowait_def mpmc_push_def mpmc_ctor_def bounded_queue.extend_def BoundedBlockingQueue_ctor_def
        blocking_queue.extend_def new_blocking_queue_def circular_q_ctor_def push_back_def q_contents_def q_size_def)
  ultimately show ?thesis using reach by blast
qed

end
