(* ===== verification/CountDownLatch.thy ===== *)
theory CountDownLatch
  imports Ham_Prelude
begin

text \<open>
  Model of \<^verbatim>\<open>ham/base/CountDownLatch.{h,cc}\<close>.  Threads are anonymous: the state counts those blocked in \<^verbatim>\<open>cond_.wait\<close>,
  those woken and not yet back, those whose \<^verbatim>\<open>wait()\<close> has returned, and those that have left the critical section of
  \<^verbatim>\<open>countdown()\<close> and are about to test \<^verbatim>\<open>count_\<close>, which they do without the mutex.
\<close>

record count_down_latch =
  latch_count :: int
  latch_blocked :: nat
  latch_woken :: nat
  latch_passed :: nat
  latch_testing :: nat
  decrements :: nat

definition CountDownLatch_ctor :: "int \<Rightarrow> count_down_latch" where
  "CountDownLatch_ctor n = \<lparr>latch_count = n, latch_blocked = 0, latch_woken = 0, latch_passed = 0, latch_testing = 0, decrements = 0\<rparr>"

text \<open>\<^verbatim>\<open>wait()\<close> from the moment it has the mutex.\<close>

definition latch_wait :: "count_down_latch \<Rightarrow> count_down_latch" where
  "latch_wait s = (if 0 < latch_count s then s\<lparr>latch_blocked := latch_blocked s + 1\<rparr> else s\<lparr>latch_passed := latch_passed s + 1\<rparr>)"

text \<open>\<^verbatim>\<open>countdown()\<close>: the critical section, then the test and the notification.\<close>

definition countdown :: "count_down_latch \<Rightarrow> count_down_latch" where
  "countdown s = s\<lparr>latch_count := latch_count s - 1, latch_testing := latch_testing s + 1, decrements := decrements s + 1\<rparr>"

definition countdown_notify :: "count_down_latch \<Rightarrow> count_down_latch" where
  "countdown_notify s =
     (let s1 = s\<lparr>latch_testing := latch_testing s - 1\<rparr> in
      if latch_count s1 = 0 then s1\<lparr>latch_woken := latch_woken s1 + latch_blocked s1, latch_blocked := 0\<rparr> else s1)"

definition getCount :: "count_down_latch \<Rightarrow> int" where
  "getCount s = latch_count s"

inductive latch_internal :: "count_down_latch \<Rightarrow> count_down_latch \<Rightarrow> bool" where
  latch_test: "0 < latch_testing s \<Longrightarrow> latch_internal s (countdown_notify s)"
| latch_resume: "0 < latch_woken s \<Longrightarrow> latch_internal s (latch_wait (s\<lparr>latch_woken := latch_woken s - 1\<rparr>))"

inductive latch_step :: "count_down_latch \<Rightarrow> count_down_latch \<Rightarrow> bool" where
  latch_internal_step: "latch_internal s s' \<Longrightarrow> latch_step s s'"
| latch_wait_step: "latch_step s (latch_wait s)"
| latch_countdown_step: "latch_step s (countdown s)"
| latch_spurious: "0 < latch_blocked s \<Longrightarrow>
     latch_step s (s\<lparr>latch_blocked := latch_blocked s - 1, latch_woken := latch_woken s + 1\<rparr>)"

definition latch_inv :: "int \<Rightarrow> count_down_latch \<Rightarrow> bool" where
  "latch_inv n s \<longleftrightarrow> latch_count s = n - int (decrements s) \<and> (0 < latch_passed s \<longrightarrow> latch_count s \<le> 0) \<and>
     (0 < latch_blocked s \<and> latch_count s = 0 \<longrightarrow> 0 < latch_testing s)"

lemma latch_inv_step:
  assumes "latch_step s s'" and "latch_inv n s"
  shows "latch_inv n s'"
  using assms
  by (induction rule: latch_step.induct)
    (auto simp: latch_inv_def latch_wait_def countdown_def countdown_notify_def Let_def elim!: latch_internal.cases split: if_splits)

lemma latch_inv_reachable:
  assumes "latch_step\<^sup>*\<^sup>* (CountDownLatch_ctor n) s"
  shows "latch_inv n s"
  using assms
proof (induction rule: rtranclp_induct)
  case base
  then show ?case by (simp add: latch_inv_def CountDownLatch_ctor_def)
next
  case (step s s')
  then show ?case by (blast intro: latch_inv_step)
qed

text \<open>With the count at zero, woken threads get through.\<close>

lemma latch_drain:
  assumes "latch_count s = 0"
  shows "\<exists>s'. latch_internal\<^sup>*\<^sup>* s s' \<and> latch_woken s' = 0 \<and> latch_blocked s' = latch_blocked s \<and>
    latch_passed s' = latch_passed s + latch_woken s \<and> latch_count s' = 0"
  using assms
proof (induction "latch_woken s" arbitrary: s)
  case 0
  then show ?case by auto
next
  case (Suc k)
  let ?s = "latch_wait (s\<lparr>latch_woken := latch_woken s - 1\<rparr>)"
  have s: "k = latch_woken ?s" "latch_count ?s = 0" "latch_blocked ?s = latch_blocked s" "latch_passed ?s = latch_passed s + 1"
    using Suc by (simp_all add: latch_wait_def)
  then obtain s' where s': "latch_internal\<^sup>*\<^sup>* ?s s'" "latch_woken s' = 0" "latch_blocked s' = latch_blocked ?s"
    "latch_passed s' = latch_passed ?s + latch_woken ?s" "latch_count s' = 0"
    using Suc(1) [of ?s] by blast
  have "latch_internal s ?s" using Suc(2) by (intro latch_resume) simp
  then have "latch_internal\<^sup>*\<^sup>* s s'" using s'(1) by (rule converse_rtranclp_into_rtranclp)
  moreover have "latch_passed s' = latch_passed s + latch_woken s" using s' s(1,4) Suc(2) by simp
  ultimately show ?case using s' s(3) by auto
qed

section \<open>Properties\<close>

text \<open>
  The latch.  \<^verbatim>\<open>wait()\<close> returns only after as many calls of \<^verbatim>\<open>countdown()\<close> as the latch was built with.  If there are
  exactly that many, then once they are in, the threads inside \<^verbatim>\<open>countdown()\<close> and \<^verbatim>\<open>wait()\<close> can
  let every waiting thread through without any further call.\<close>
theorem latch_correct:
  assumes "latch_step\<^sup>*\<^sup>* (CountDownLatch_ctor n) s"
  shows "(0 < latch_passed s \<longrightarrow> n \<le> int (decrements s)) \<and>
    (int (decrements s) = n \<longrightarrow> (\<exists>s'. latch_internal\<^sup>*\<^sup>* s s' \<and> latch_blocked s' = 0 \<and> latch_woken s' = 0 \<and>
       latch_passed s' = latch_passed s + latch_blocked s + latch_woken s))"
proof -
  have inv: "latch_inv n s" by (rule latch_inv_reachable [OF assms])
  have "\<exists>s'. latch_internal\<^sup>*\<^sup>* s s' \<and> latch_blocked s' = 0 \<and> latch_woken s' = 0 \<and>
       latch_passed s' = latch_passed s + latch_blocked s + latch_woken s" if "int (decrements s) = n"
  proof -
    have c: "latch_count s = 0" using inv that by (simp add: latch_inv_def)
    define t where "t = (if latch_blocked s = 0 then s else countdown_notify s)"
    have t1: "latch_internal\<^sup>*\<^sup>* s t" using inv c latch_test [of s] by (auto simp: t_def latch_inv_def)
    have t: "latch_count t = 0" "latch_blocked t = 0" "latch_passed t = latch_passed s" "latch_woken t = latch_woken s + latch_blocked s"
      using c by (simp_all add: t_def countdown_notify_def)
    obtain s' where s': "latch_internal\<^sup>*\<^sup>* t s'" "latch_woken s' = 0" "latch_blocked s' = latch_blocked t"
      "latch_passed s' = latch_passed t + latch_woken t"
      using latch_drain [OF t(1)] by blast
    have "latch_internal\<^sup>*\<^sup>* s s'" using t1 s'(1) by (rule rtranclp_trans)
    with s' t show ?thesis by auto
  qed
  then show ?thesis using inv by (auto simp: latch_inv_def)
qed

theorem latch_correct_witness:
  "\<exists>s'. latch_internal\<^sup>*\<^sup>* (countdown (latch_wait (CountDownLatch_ctor 1))) s' \<and> latch_passed s' = 1"
proof -
  let ?s = "countdown (latch_wait (CountDownLatch_ctor 1))"
  have "latch_step\<^sup>*\<^sup>* (latch_wait (CountDownLatch_ctor 1)) ?s" by (rule r_into_rtranclp) (rule latch_countdown_step)
  then have "latch_step\<^sup>*\<^sup>* (CountDownLatch_ctor 1) ?s" by (rule converse_rtranclp_into_rtranclp [rotated]) (rule latch_wait_step)
  from latch_correct [OF this] show ?thesis by (auto simp: countdown_def latch_wait_def CountDownLatch_ctor_def)
qed

text \<open>
  One call of \<^verbatim>\<open>countdown()\<close> too many can lose the wakeup.  On a latch of 1, a thread waits and two others call
  \<^verbatim>\<open>countdown()\<close>; both decrement before either tests \<^verbatim>\<open>count_\<close>, both see \<open>- 1\<close>, and nobody notifies:
  the waiting thread stays blocked although the count is below zero, and no thread inside the latch can make a step.\<close>
theorem latch_lost_wakeup:
  "\<exists>s. latch_step\<^sup>*\<^sup>* (CountDownLatch_ctor 1) s \<and> latch_blocked s = 1 \<and> latch_count s = - 1 \<and> (\<nexists>s'. latch_internal s s')"
proof -
  let ?s1 = "latch_wait (CountDownLatch_ctor 1)"
  let ?s5 = "countdown_notify (countdown_notify (countdown (countdown ?s1)))"
  have "latch_step\<^sup>*\<^sup>* (CountDownLatch_ctor 1) (countdown (countdown ?s1))"
    by (meson latch_wait_step latch_countdown_step rtranclp.intros)
  moreover have "latch_step (countdown (countdown ?s1)) (countdown_notify (countdown (countdown ?s1)))"
    by (intro latch_internal_step latch_test) (simp add: countdown_def)
  moreover have "latch_step (countdown_notify (countdown (countdown ?s1))) ?s5"
    by (intro latch_internal_step latch_test) (simp add: countdown_def countdown_notify_def latch_wait_def CountDownLatch_ctor_def)
  ultimately have "latch_step\<^sup>*\<^sup>* (CountDownLatch_ctor 1) ?s5" by (meson rtranclp.rtrancl_into_rtrancl)
  moreover have "latch_blocked ?s5 = 1" "latch_count ?s5 = - 1" "latch_testing ?s5 = 0" "latch_woken ?s5 = 0"
    by (simp_all add: countdown_def countdown_notify_def latch_wait_def CountDownLatch_ctor_def)
  moreover from this have "\<nexists>s'. latch_internal ?s5 s'" by (auto elim: latch_internal.cases)
  ultimately show ?thesis by blast
qed

end
