(* ===== verification/ThreadPool.thy ===== *)
theory ThreadPool
  imports BlockingQueue
begin

text \<open>
  Model of \<^verbatim>\<open>ham/base/ThreadPool.{h,cc}\<close>.  Workers and producers are anonymous: the state counts the workers at each
  point of \<^verbatim>\<open>threadFunc\<close> and keeps the tasks that are being run and the tasks of producers that wait in
  \<^verbatim>\<open>run\<close> (the flag says whether it is the overload for a moved task, which notifies after its critical section).
  \<^verbatim>\<open>threads_\<close> is the list of its threads, each joinable or not.  A task either returns or throws; both overloads of
  \<^verbatim>\<open>run\<close> are modelled.  The logs record what was accepted by the queue, what was started and what a
  caller ran itself.
\<close>

record 'a thread_pool =
  isRunning :: bool
  threads :: "bool list"
  tp_queue :: "'a list"
  maxsize :: nat
  pool_name :: string
  has_cb :: bool
  w_init :: nat
  w_test :: nat
  w_take :: nat
  w_blocked :: nat
  w_busy :: "'a list"
  w_exited :: nat
  p_blocked :: "(bool \<times> 'a) list"
  p_woken :: "(bool \<times> 'a) list"
  p_notifying :: nat
  accepted :: "'a list"
  started :: "'a list"
  ran_inline :: "'a list"
  init_calls :: nat

definition ThreadPool_ctor :: "string \<Rightarrow> 'a thread_pool" where
  "ThreadPool_ctor nm = \<lparr>isRunning = False, threads = [], tp_queue = [], maxsize = 0, pool_name = nm, has_cb = False,
     w_init = 0, w_test = 0, w_take = 0, w_blocked = 0, w_busy = [], w_exited = 0, p_blocked = [], p_woken = [], p_notifying = 0,
     accepted = [], started = [], ran_inline = [], init_calls = 0\<rparr>"

definition setName :: "string \<Rightarrow> 'a thread_pool \<Rightarrow> 'a thread_pool" where
  "setName nm s = s\<lparr>pool_name := nm\<rparr>"

definition setMaxQueueSize :: "nat \<Rightarrow> 'a thread_pool \<Rightarrow> 'a thread_pool" where
  "setMaxQueueSize n s = s\<lparr>maxsize := n\<rparr>"

definition setInitCallback :: "bool \<Rightarrow> 'a thread_pool \<Rightarrow> 'a thread_pool" where
  "setInitCallback b s = s\<lparr>has_cb := b\<rparr>"

definition isFull :: "'a thread_pool \<Rightarrow> bool" where
  "isFull s \<longleftrightarrow> 0 < maxsize s \<and> maxsize s \<le> length (tp_queue s)"

definition tp_start :: "int \<Rightarrow> 'a thread_pool \<Rightarrow> 'a thread_pool result" where
  "tp_start n s =
     rbind (if \<not> isRunning s then
              if n < 0 then Inl (Thrown ''std::length_error'')
              else Inr (s\<lparr>isRunning := True, threads := threads s @ replicate (nat n) True, w_init := w_init s + nat n\<rparr>)
            else Inr s)
       (\<lambda>s1. Inr (if n = 0 \<and> has_cb s1 then s1\<lparr>init_calls := init_calls s1 + 1\<rparr> else s1))"

text \<open>\<^verbatim>\<open>stop()\<close>: the critical section, and the joining of the threads.\<close>

definition tp_stop :: "'a thread_pool \<Rightarrow> 'a thread_pool" where
  "tp_stop s = s\<lparr>isRunning := False, w_take := w_take s + w_blocked s, w_blocked := 0, p_woken := p_woken s @ p_blocked s, p_blocked := []\<rparr>"

definition workers_left :: "'a thread_pool \<Rightarrow> nat" where
  "workers_left s = w_init s + w_test s + w_take s + w_blocked s + length (w_busy s)"

definition stop_join :: "'a thread_pool \<Rightarrow> 'a thread_pool result" where
  "stop_join s = (if list_all (\<lambda>j. j) (threads s) then Inr (s\<lparr>threads := map (\<lambda>_. False) (threads s)\<rparr>)
                  else Inl (Thrown ''std::system_error''))"

section \<open>Producers\<close>

definition notify_worker :: "'a thread_pool \<Rightarrow> 'a thread_pool" where
  "notify_worker s = (if 0 < w_blocked s then s\<lparr>w_blocked := w_blocked s - 1, w_take := w_take s + 1\<rparr> else s)"

text \<open>The critical section of \<^verbatim>\<open>run\<close>, entered at first or after a wait.\<close>

definition run_locked :: "bool \<Rightarrow> 'a \<Rightarrow> 'a thread_pool \<Rightarrow> 'a thread_pool" where
  "run_locked moved task s =
     (if isFull s \<and> isRunning s then s\<lparr>p_blocked := p_blocked s @ [(moved, task)]\<rparr>
      else let s1 = s\<lparr>tp_queue := tp_queue s @ [task], accepted := accepted s @ [task]\<rparr>
           in if moved then s1\<lparr>p_notifying := p_notifying s1 + 1\<rparr> else notify_worker s1)"

definition run_copy :: "'a \<Rightarrow> 'a thread_pool \<Rightarrow> 'a thread_pool" where
  "run_copy newTask s =
     (if threads s = [] then s\<lparr>ran_inline := ran_inline s @ [newTask]\<rparr> else run_locked False newTask s)"

definition run_move :: "'a \<Rightarrow> 'a thread_pool \<Rightarrow> 'a thread_pool" where
  "run_move newTask s =
     run_locked True newTask (if threads s = [] then s\<lparr>ran_inline := ran_inline s @ [newTask]\<rparr> else s)"

section \<open>Workers\<close>

definition notify_producer :: "nat \<Rightarrow> 'a thread_pool \<Rightarrow> 'a thread_pool" where
  "notify_producer i s =
     (if i < length (p_blocked s)
      then s\<lparr>p_blocked := remove_nth i (p_blocked s), p_woken := p_woken s @ [p_blocked s ! i]\<rparr> else s)"

text \<open>\<^verbatim>\<open>take()\<close> from the moment it has the mutex; a worker without a task goes back to the test of its loop.\<close>

definition tp_take :: "nat \<Rightarrow> 'a thread_pool \<Rightarrow> 'a thread_pool" where
  "tp_take i s =
     (case tp_queue s of
        [] \<Rightarrow> if isRunning s then s\<lparr>w_blocked := w_blocked s + 1\<rparr> else s\<lparr>w_test := w_test s + 1\<rparr>
      | task # rest \<Rightarrow>
          let s1 = s\<lparr>tp_queue := rest, started := started s @ [task], w_busy := w_busy s @ [task]\<rparr>
          in if 0 < maxsize s1 then notify_producer i s1 else s1)"

inductive threadFunc :: "'a thread_pool \<Rightarrow> 'a thread_pool \<Rightarrow> bool" where
  worker_init: "0 < w_init s \<Longrightarrow>
     threadFunc s (s\<lparr>w_init := w_init s - 1, w_test := w_test s + 1, init_calls := init_calls s + (if has_cb s then 1 else 0)\<rparr>)"
| worker_init_throws: "0 < w_init s \<Longrightarrow> has_cb s \<Longrightarrow>
     threadFunc s (s\<lparr>w_init := w_init s - 1, w_exited := w_exited s + 1, init_calls := init_calls s + 1\<rparr>)"
| worker_loop: "0 < w_test s \<Longrightarrow> isRunning s \<Longrightarrow> threadFunc s (s\<lparr>w_test := w_test s - 1, w_take := w_take s + 1\<rparr>)"
| worker_leave: "0 < w_test s \<Longrightarrow> \<not> isRunning s \<Longrightarrow> threadFunc s (s\<lparr>w_test := w_test s - 1, w_exited := w_exited s + 1\<rparr>)"
| worker_take: "0 < w_take s \<Longrightarrow> threadFunc s (tp_take i (s\<lparr>w_take := w_take s - 1\<rparr>))"
| worker_done: "k < length (w_busy s) \<Longrightarrow> threadFunc s (s\<lparr>w_busy := remove_nth k (w_busy s), w_test := w_test s + 1\<rparr>)"
| worker_throws: "k < length (w_busy s) \<Longrightarrow> threadFunc s (s\<lparr>w_busy := remove_nth k (w_busy s), w_exited := w_exited s + 1\<rparr>)"

text \<open>The life of a pool after \<^verbatim>\<open>start\<close>.\<close>

inductive tp_step :: "'a thread_pool \<Rightarrow> 'a thread_pool \<Rightarrow> bool" where
  tp_worker: "threadFunc s s' \<Longrightarrow> tp_step s s'"
| tp_run_copy: "tp_step s (run_copy task s)"
| tp_run_move: "tp_step s (run_move task s)"
| tp_run_resume: "k < length (p_woken s) \<Longrightarrow>
     tp_step s (run_locked (fst (p_woken s ! k)) (snd (p_woken s ! k)) (s\<lparr>p_woken := remove_nth k (p_woken s)\<rparr>))"
| tp_notify: "0 < p_notifying s \<Longrightarrow> tp_step s (notify_worker (s\<lparr>p_notifying := p_notifying s - 1\<rparr>))"
| tp_spurious_worker: "0 < w_blocked s \<Longrightarrow> tp_step s (s\<lparr>w_blocked := w_blocked s - 1, w_take := w_take s + 1\<rparr>)"
| tp_spurious_producer: "i < length (p_blocked s) \<Longrightarrow> tp_step s (notify_producer i s)"
| tp_stop_step: "tp_step s (tp_stop s)"

section \<open>Invariant\<close>

definition tp_inv :: "nat \<Rightarrow> nat \<Rightarrow> 'a thread_pool \<Rightarrow> bool" where
  "tp_inv n k s \<longleftrightarrow> accepted s = started s @ tp_queue s \<and> workers_left s + w_exited s + k = n \<and>
     (isRunning s \<and> 0 < maxsize s \<longrightarrow> length (tp_queue s) \<le> maxsize s) \<and>
     (0 < w_blocked s \<longrightarrow> isRunning s \<and> length (tp_queue s) \<le> w_take s + p_notifying s + k)"

lemma notify_producer_fields [simp]:
  "tp_queue (notify_producer i s) = tp_queue s" "started (notify_producer i s) = started s" "accepted (notify_producer i s) = accepted s"
  "isRunning (notify_producer i s) = isRunning s" "maxsize (notify_producer i s) = maxsize s" "w_blocked (notify_producer i s) = w_blocked s"
  "w_take (notify_producer i s) = w_take s" "p_notifying (notify_producer i s) = p_notifying s" "w_exited (notify_producer i s) = w_exited s"
  "workers_left (notify_producer i s) = workers_left s" "w_init (notify_producer i s) = w_init s" "w_test (notify_producer i s) = w_test s"
  "w_busy (notify_producer i s) = w_busy s"
  by (simp_all add: notify_producer_def workers_left_def)

lemma tp_inv_run: "tp_inv n 0 s \<Longrightarrow> tp_inv n 0 (run_locked moved task s)"
  by (auto simp: tp_inv_def run_locked_def notify_worker_def workers_left_def isFull_def Let_def)

lemma tp_inv_take:
  assumes "tp_inv n 1 s"
  shows "tp_inv n 0 (tp_take i s)"
proof (cases "tp_queue s")
  case Nil
  then show ?thesis using assms by (auto simp: tp_inv_def tp_take_def workers_left_def)
next
  case (Cons t ts)
  let ?s = "s\<lparr>tp_queue := ts, started := started s @ [t], w_busy := w_busy s @ [t]\<rparr>"
  have "tp_inv n 0 ?s" using assms Cons by (auto simp: tp_inv_def workers_left_def)
  moreover from this have "tp_inv n 0 (notify_producer i ?s)" by (simp add: tp_inv_def)
  ultimately show ?thesis using Cons by (simp add: tp_take_def Let_def)
qed

lemma tp_inv_worker:
  assumes "threadFunc s s'" and "tp_inv n 0 s"
  shows "tp_inv n 0 s'"
  using assms
proof (induction rule: threadFunc.induct)
  case (worker_take s i)
  then have "tp_inv n 1 (s\<lparr>w_take := w_take s - 1\<rparr>)" by (auto simp: tp_inv_def workers_left_def)
  then show ?case by (rule tp_inv_take)
qed (auto simp: tp_inv_def workers_left_def length_remove_nth)

lemma tp_inv_step:
  assumes "tp_step s s'" and "tp_inv n 0 s"
  shows "tp_inv n 0 s'"
  using assms
proof (induction rule: tp_step.induct)
  case (tp_worker s s')
  then show ?case by (rule tp_inv_worker)
next
  case (tp_run_copy s task)
  then show ?case using tp_inv_run [of n s] by (auto simp: run_copy_def tp_inv_def workers_left_def)
next
  case (tp_run_move s task)
  then have "tp_inv n 0 (if threads s = [] then s\<lparr>ran_inline := ran_inline s @ [task]\<rparr> else s)" by (simp add: tp_inv_def workers_left_def)
  then show ?case unfolding run_move_def by (rule tp_inv_run)
next
  case (tp_run_resume k s)
  then have "tp_inv n 0 (s\<lparr>p_woken := remove_nth k (p_woken s)\<rparr>)" by (simp add: tp_inv_def workers_left_def)
  then show ?case by (rule tp_inv_run)
next
  case (tp_spurious_producer i s)
  then show ?case by (simp add: tp_inv_def)
qed (auto simp: tp_inv_def workers_left_def notify_worker_def tp_stop_def)

lemma tp_inv_reachable:
  assumes "tp_step\<^sup>*\<^sup>* s0 s" and "tp_inv n 0 s0"
  shows "tp_inv n 0 s"
  using assms by (induction rule: rtranclp_induct) (auto intro: tp_inv_step)

text \<open>How far a stopped pool is from having no workers.\<close>

definition distance :: "'a thread_pool \<Rightarrow> nat" where
  "distance s = 2 * w_init s + w_test s + 3 * w_take s + 2 * length (w_busy s)"

lemma worker_decreases:
  assumes "threadFunc s s'" and "\<not> isRunning s"
  shows "distance s' < distance s \<and> \<not> isRunning s'"
  using assms
proof (induction rule: threadFunc.induct)
  case (worker_take s i)
  then show ?case by (cases "tp_queue s") (auto simp: tp_take_def distance_def Let_def)
qed (auto simp: distance_def length_remove_nth)

lemma worker_exists:
  assumes "workers_left s \<noteq> 0" "w_blocked s = 0"
  shows "\<exists>s'. threadFunc s s'"
proof -
  consider "0 < w_init s" | "0 < w_test s" | "0 < w_take s" | "0 < length (w_busy s)"
    using assms by (auto simp: workers_left_def)
  then show ?thesis by cases (blast intro: threadFunc.intros)+
qed

section \<open>Properties\<close>

text \<open>
  C21.  A pool under load.  From \<^verbatim>\<open>start\<close> on, under any interleaving of producers, workers, tasks that throw and \<^verbatim>\<open>stop\<close>:
  tasks are started in the order in which the queue accepted them, each once; no worker is lost; a bounded queue
  of a running pool never exceeds its bound; and a worker sleeps on a non-empty queue only while another one, or a notification, is on its way to
  that queue.\<close>
theorem pool_tasks_in_order:
  assumes "tp_start n (setMaxQueueSize m (setInitCallback cb (ThreadPool_ctor nm))) = Inr s0" and "tp_step\<^sup>*\<^sup>* s0 s"
  shows "accepted s = started s @ tp_queue s \<and> int (workers_left s + w_exited s) = n \<and>
    (isRunning s \<and> 0 < maxsize s \<longrightarrow> length (tp_queue s) \<le> maxsize s) \<and>
    (0 < w_blocked s \<and> tp_queue s \<noteq> [] \<longrightarrow> 0 < w_take s + p_notifying s)"
proof -
  have n: "0 \<le> n" and "tp_inv (nat n) 0 s0"
    using assms(1) by (auto simp: tp_start_def rbind_eq_Inr setMaxQueueSize_def setInitCallback_def ThreadPool_ctor_def tp_inv_def
        workers_left_def split: if_splits)
  then have "tp_inv (nat n) 0 s" using tp_inv_reachable [OF assms(2)] by blast
  with n show ?thesis by (cases "tp_queue s") (auto simp: tp_inv_def)
qed

definition sample_pool :: "nat thread_pool" where
  "sample_pool = (ThreadPool_ctor ''pool'')\<lparr>isRunning := True, threads := [True], w_init := 1\<rparr>"

lemma sample_pool_start: "tp_start 1 (setMaxQueueSize 0 (setInitCallback False (ThreadPool_ctor ''pool''))) = Inr sample_pool"
  by (simp add: tp_start_def setMaxQueueSize_def setInitCallback_def ThreadPool_ctor_def sample_pool_def)

text \<open>The sample pool with two tasks accepted and the first one started.\<close>

definition sample_busy :: "nat thread_pool" where
  "sample_busy = sample_pool\<lparr>w_init := 0, w_busy := [7], tp_queue := [8], accepted := [7, 8], started := [7]\<rparr>"

lemma sample_busy_reachable: "tp_step\<^sup>*\<^sup>* sample_pool sample_busy"
proof -
  let ?s1 = "run_copy 7 sample_pool"
  let ?s2 = "run_copy 8 ?s1"
  let ?s3 = "?s2\<lparr>w_init := w_init ?s2 - 1, w_test := w_test ?s2 + 1, init_calls := init_calls ?s2 + (if has_cb ?s2 then 1 else 0)\<rparr>"
  let ?s4 = "?s3\<lparr>w_test := w_test ?s3 - 1, w_take := w_take ?s3 + 1\<rparr>"
  let ?s5 = "tp_take 0 (?s4\<lparr>w_take := w_take ?s4 - 1\<rparr>)"
  note defs = run_copy_def run_locked_def isFull_def notify_worker_def sample_pool_def ThreadPool_ctor_def Let_def
  have 1: "tp_step sample_pool ?s1" "tp_step ?s1 ?s2" by (rule tp_run_copy)+
  have 2: "tp_step ?s2 ?s3" by (rule tp_worker [OF worker_init]) (simp add: defs)
  have 3: "tp_step ?s3 ?s4" by (rule tp_worker [OF worker_loop]) (simp_all add: defs)
  have 4: "tp_step ?s4 ?s5" by (rule tp_worker [OF worker_take]) (simp add: defs)
  have "?s5 = sample_busy" by (simp add: tp_take_def sample_busy_def defs)
  moreover have "tp_step\<^sup>*\<^sup>* sample_pool ?s5" using two_steps [of tp_step, OF 1] 2 3 4 by (meson rtranclp.rtrancl_into_rtrancl)
  ultimately show ?thesis by simp
qed

theorem pool_tasks_in_order_witness:
  "\<exists>s. tp_step\<^sup>*\<^sup>* sample_pool s \<and> accepted s = [7, 8] \<and> accepted s = started s @ tp_queue s \<and> int (workers_left s + w_exited s) = 1"
proof -
  have "accepted sample_busy = started sample_busy @ tp_queue sample_busy" "int (workers_left sample_busy + w_exited sample_busy) = 1"
    using pool_tasks_in_order [OF sample_pool_start sample_busy_reachable] by blast+
  moreover have "accepted sample_busy = [7, 8]" by (simp add: sample_busy_def)
  ultimately show ?thesis using sample_busy_reachable by blast
qed

text \<open>
  C22.  Stopping ends.  Once \<^verbatim>\<open>stop()\<close> has cleared the flag, the workers of a pool cannot run on for ever, provided
  every task returns or throws, and as long as one is left it can make a step: so \<^verbatim>\<open>join\<close> returns for each of them.\<close>
theorem pool_stop_terminates:
  fixes s :: "'a thread_pool"
  assumes "tp_start n (setMaxQueueSize m (setInitCallback cb (ThreadPool_ctor nm))) = Inr s0" and "tp_step\<^sup>*\<^sup>* s0 s" and "\<not> isRunning s"
  shows "(workers_left s \<noteq> 0 \<longrightarrow> (\<exists>s'. threadFunc s s')) \<and> wf {(t', t). \<not> isRunning t \<and> threadFunc (t :: 'a thread_pool) t'}"
proof -
  have "tp_inv (nat n) 0 s0"
    using assms(1) by (auto simp: tp_start_def rbind_eq_Inr setMaxQueueSize_def setInitCallback_def ThreadPool_ctor_def tp_inv_def
        workers_left_def split: if_splits)
  then have "w_blocked s = 0" using tp_inv_reachable [OF assms(2)] assms(3) by (auto simp: tp_inv_def)
  moreover have "{(t', t). \<not> isRunning t \<and> threadFunc (t :: 'a thread_pool) t'} \<subseteq> measure distance"
    by (auto dest: worker_decreases)
  then have "wf {(t', t). \<not> isRunning t \<and> threadFunc (t :: 'a thread_pool) t'}" by (rule wf_subset [OF wf_measure])
  ultimately show ?thesis using worker_exists by blast
qed

theorem pool_stop_terminates_witness:
  "\<exists>s'. threadFunc (tp_stop sample_busy) s'"
proof -
  have "tp_step\<^sup>*\<^sup>* sample_pool (tp_stop sample_busy)" using sample_busy_reachable tp_stop_step by (rule rtranclp.rtrancl_into_rtrancl)
  moreover have "\<not> isRunning (tp_stop sample_busy)" "workers_left (tp_stop sample_busy) \<noteq> 0"
    by (simp_all add: tp_stop_def sample_busy_def workers_left_def)
  ultimately show ?thesis using pool_stop_terminates [OF sample_pool_start] by blast
qed

text \<open>
  Stopping drops accepted tasks.  A pool of one thread has accepted two tasks and is running the first one when it
  is stopped: the thread leaves after the first one, \<^verbatim>\<open>stop()\<close> returns, and the second task is never run.\<close>
theorem pool_stop_drops_tasks:
  "\<exists>s :: nat thread_pool. tp_step\<^sup>*\<^sup>* sample_pool s \<and> workers_left s = 0 \<and> accepted s = [7, 8] \<and> started s = [7] \<and>
    (\<exists>s'. stop_join s = Inr s') \<and> (\<nexists>s'. threadFunc s s')"
proof -
  let ?s1 = "tp_stop sample_busy"
  let ?s2 = "?s1\<lparr>w_busy := remove_nth 0 (w_busy ?s1), w_test := w_test ?s1 + 1\<rparr>"
  let ?s3 = "?s2\<lparr>w_test := w_test ?s2 - 1, w_exited := w_exited ?s2 + 1\<rparr>"
  note defs = tp_stop_def sample_busy_def sample_pool_def ThreadPool_ctor_def remove_nth_def
  have "tp_step sample_busy ?s1" by (rule tp_stop_step)
  moreover have "tp_step ?s1 ?s2" by (rule tp_worker [OF worker_done]) (simp add: defs)
  moreover have "tp_step ?s2 ?s3" by (rule tp_worker [OF worker_leave]) (simp_all add: defs)
  ultimately have "tp_step\<^sup>*\<^sup>* sample_pool ?s3" using sample_busy_reachable by (meson rtranclp.rtrancl_into_rtrancl)
  moreover have "workers_left ?s3 = 0" "accepted ?s3 = [7, 8]" "started ?s3 = [7]" "\<exists>s'. stop_join ?s3 = Inr s'"
    by (simp_all add: defs workers_left_def stop_join_def)
  moreover from this have "\<nexists>s'. threadFunc ?s3 s'" by (auto simp: workers_left_def elim!: threadFunc.cases)
  ultimately show ?thesis by blast
qed

text \<open>
  A pool without threads.  \<^verbatim>\<open>run(const Task&)\<close> runs the task in the caller and is done; \<^verbatim>\<open>run(Task&&)\<close> runs it and
  then queues it as well, so that workers of a later \<^verbatim>\<open>start\<close> would run it again.\<close>
theorem run_without_threads:
  assumes "threads s = []" and "maxsize s = 0"
  shows "run_copy task s = s\<lparr>ran_inline := ran_inline s @ [task]\<rparr> \<and>
    ran_inline (run_move task s) = ran_inline s @ [task] \<and> tp_queue (run_move task s) = tp_queue s @ [task]"
  using assms by (simp add: run_copy_def run_move_def run_locked_def isFull_def Let_def)

theorem run_without_threads_witness:
  "ran_inline (run_move (3 :: nat) (ThreadPool_ctor ''p'')) = [3] \<and> tp_queue (run_move (3 :: nat) (ThreadPool_ctor ''p'')) = [3]"
proof -
  have "threads (ThreadPool_ctor ''p'' :: nat thread_pool) = []" "maxsize (ThreadPool_ctor ''p'' :: nat thread_pool) = 0"
    by (simp_all add: ThreadPool_ctor_def)
  from run_without_threads [OF this, of 3] show ?thesis by (simp add: ThreadPool_ctor_def)
qed

text \<open>
  A pool can be stopped once.  The joined threads stay in \<^verbatim>\<open>threads_\<close>: whether or not the pool is started again, the next \<^verbatim>\<open>stop()\<close>
  throws \<^verbatim>\<open>std::system_error\<close> when it joins them a second time.\<close>
theorem pool_stops_once:
  assumes "stop_join s = Inr s1" and "threads s \<noteq> []" and "\<not> isRunning s1" and "tp_start n s1 = Inr s2"
  shows "stop_join (tp_stop s1) = Inl (Thrown ''std::system_error'') \<and> stop_join (tp_stop s2) = Inl (Thrown ''std::system_error'')"
proof -
  have s1: "threads s1 = map (\<lambda>_. False) (threads s)" using assms(1) by (auto simp: stop_join_def split: if_splits)
  have "\<exists>xs. threads s2 = threads s1 @ xs" using assms(3,4) by (auto simp: tp_start_def rbind_eq_Inr split: if_splits)
  then obtain xs where "threads s2 = map (\<lambda>_. False) (threads s) @ xs" using s1 by auto
  with s1 assms(2) show ?thesis by (cases "threads s") (simp_all add: stop_join_def tp_stop_def)
qed

theorem pool_stops_once_witness:
  "\<exists>s1 s2. stop_join (tp_stop (sample_pool\<lparr>w_init := 0, w_exited := 1\<rparr>)) = Inr s1 \<and> tp_start 2 s1 = Inr s2 \<and>
     stop_join (tp_stop s2) = Inl (Thrown ''std::system_error'')"
proof -
  let ?s = "tp_stop (sample_pool\<lparr>w_init := 0, w_exited := 1\<rparr>)"
  obtain s1 s2 where "stop_join ?s = Inr s1" "\<not> isRunning s1" "tp_start 2 s1 = Inr s2"
    by (simp add: stop_join_def tp_stop_def sample_pool_def ThreadPool_ctor_def tp_start_def)
  moreover have "threads ?s \<noteq> []" by (simp add: tp_stop_def sample_pool_def)
  ultimately show ?thesis using pool_stops_once by blast
qed

end
