(* ===== verification/Base.thy ===== *)
theory Base
  imports Ham_Prelude
begin

text \<open>
  Models of the small parts of \<^verbatim>\<open>ham/base\<close>: \<^verbatim>\<open>Exception.{h,cc}\<close> with its stack trace, \<^verbatim>\<open>Singleton.h\<close>
  and \<^verbatim>\<open>ham/net/CurrentThread.h\<close>.  What \<^verbatim>\<open>backtrace_symbols\<close>, the demangler and the kernel return
  are parameters.
\<close>

section \<open>Exception\<close>

record ham_exception =
  exc_msg :: string
  exc_stack :: string

definition nul :: char where "nul = CHR 0x00"

text \<open>A string in C: what comes before the first zero.\<close>

definition c_str :: "string \<Rightarrow> string" where
  "c_str s = takeWhile (\<lambda>c. c \<noteq> nul) s"

text \<open>
  The loop over one frame, from position \<open>p\<close>: the last opening parenthesis, the last plus sign, and the first closing
  parenthesis after a plus sign, as positions or null.
\<close>

fun scan_frame :: "string \<Rightarrow> nat \<Rightarrow> nat option \<Rightarrow> nat option \<Rightarrow> nat option \<times> nat option \<times> nat option" where
  "scan_frame [] p begin_name begin_offset = (begin_name, begin_offset, None)"
| "scan_frame (c # cs) p begin_name begin_offset =
     (if c = CHR ''('' then scan_frame cs (p + 1) (Some p) begin_offset
      else if c = CHR ''+'' then scan_frame cs (p + 1) begin_name (Some p)
      else if c = CHR '')'' \<and> begin_offset \<noteq> None then (begin_name, begin_offset, Some p)
      else scan_frame cs (p + 1) begin_name begin_offset)"

text \<open>The mangled name, and the frame as it is left: cut by zeros at the three positions.\<close>

definition cut_frame :: "string \<Rightarrow> (string \<times> string) result" where
  "cut_frame frame =
     (case scan_frame frame 0 None None of
        (Some b, Some off, Some e) \<Rightarrow>
          let f = frame[b := nul, off := nul, e := nul] in Inr (c_str (drop (b + 1) f), c_str f)
      | _ \<Rightarrow> Inl NullDereference)"

definition add_frame :: "(string \<Rightarrow> string option) \<Rightarrow> string \<Rightarrow> string \<Rightarrow> string result" where
  "add_frame demangle frame demangled_stack =
     rbind (cut_frame frame) (\<lambda>(begin_name, rest).
       Inr (case demangle begin_name of
              Some res \<Rightarrow> demangled_stack @ res @ [char_of (10 :: nat)]
            | None \<Rightarrow> demangled_stack @ rest))"

definition fillStack :: "string list option \<Rightarrow> (string \<Rightarrow> string option) \<Rightarrow> string result" where
  "fillStack funcNames demangle =
     (case funcNames of None \<Rightarrow> Inr [] | Some frames \<Rightarrow> rfold (add_frame demangle) (tl frames) [])"

definition Exception_ctor :: "string list option \<Rightarrow> (string \<Rightarrow> string option) \<Rightarrow> string \<Rightarrow> ham_exception result" where
  "Exception_ctor funcNames demangle msg =
     rbind (fillStack funcNames demangle) (\<lambda>stack. Inr \<lparr>exc_msg = msg, exc_stack = stack\<rparr>)"

definition what :: "ham_exception \<Rightarrow> string" where
  "what e = exc_msg e"

definition stackTrace :: "ham_exception \<Rightarrow> string" where
  "stackTrace e = exc_stack e"

section \<open>Singletons and the thread id\<close>

text \<open>A function-local static: built by the first call, the same object ever after.\<close>

definition getInstance :: "'a \<Rightarrow> 'a option \<Rightarrow> 'a \<times> 'a option" where
  "getInstance fresh inst = (case inst of None \<Rightarrow> (fresh, Some fresh) | Some obj \<Rightarrow> (obj, inst))"

text \<open>One per thread.\<close>

definition getInstance_per_thread :: "nat \<Rightarrow> 'a \<Rightarrow> (nat \<Rightarrow> 'a option) \<Rightarrow> 'a \<times> (nat \<Rightarrow> 'a option)" where
  "getInstance_per_thread t fresh inst =
     (let (obj, i) = getInstance fresh (inst t) in (obj, inst(t := i)))"

text \<open>\<^verbatim>\<open>CurrentThread::tid\<close> caches the result of \<^verbatim>\<open>gettid\<close> in a thread-local variable, where 0 means unknown.\<close>

definition tid :: "int \<Rightarrow> int \<Rightarrow> int \<times> int" where
  "tid gettid currentThreadId = (let c = (if currentThreadId = 0 then gettid else currentThreadId) in (c, c))"

section \<open>Scanning a frame\<close>

lemma scan_plain:
  assumes "\<forall>c \<in> set w. c \<noteq> CHR ''('' \<and> c \<noteq> CHR ''+'' \<and> c \<noteq> CHR '')''"
  shows "scan_frame (w @ s) p bn bo = scan_frame s (p + length w) bn bo"
  using assms by (induction w arbitrary: p) auto

lemma c_str_cut: "nul \<notin> set w \<Longrightarrow> c_str (w @ nul # s) = w"
  by (induction w) (auto simp: c_str_def)

text \<open>The shape of the frames of \<^verbatim>\<open>backtrace_symbols\<close> for functions with a symbol: file, name and offset.\<close>

definition plain :: "string \<Rightarrow> bool" where
  "plain w \<longleftrightarrow> (\<forall>c \<in> set w. c \<noteq> CHR ''('' \<and> c \<noteq> CHR ''+'' \<and> c \<noteq> CHR '')'' \<and> c \<noteq> nul)"

definition frame_text :: "string \<Rightarrow> string \<Rightarrow> string \<Rightarrow> string \<Rightarrow> string" where
  "frame_text file func off rest = file @ CHR ''('' # func @ CHR ''+'' # off @ CHR '')'' # rest"

lemma cut_frame_text:
  assumes "plain file" "plain func" "plain off"
  shows "cut_frame (frame_text file func off rest) = Inr (func, file)"
proof -
  let ?b = "length file" and ?o = "length file + 1 + length func" and ?e = "length file + 2 + length func + length off"
  have ok: "\<forall>c \<in> set w. c \<noteq> CHR ''('' \<and> c \<noteq> CHR ''+'' \<and> c \<noteq> CHR '')''" if "plain w" for w using that by (auto simp: plain_def)
  have scan: "scan_frame (frame_text file func off rest) 0 None None = (Some ?b, Some ?o, Some ?e)"
    unfolding frame_text_def scan_plain [OF ok [OF assms(1)]]
    by (simp add: scan_plain [OF ok [OF assms(2)]] scan_plain [OF ok [OF assms(3)]])
  have cut: "(frame_text file func off rest)[?b := nul, ?o := nul, ?e := nul] = file @ nul # func @ nul # off @ nul # rest"
  proof -
    have "(frame_text file func off rest)[?b := nul] = file @ nul # func @ CHR ''+'' # off @ CHR '')'' # rest"
      by (simp add: frame_text_def)
    moreover have "(file @ nul # func @ CHR ''+'' # off @ CHR '')'' # rest)[?o := nul] = file @ nul # func @ nul # off @ CHR '')'' # rest"
      using list_update_length [of "file @ nul # func" "CHR ''+''" "off @ CHR '')'' # rest" nul] by simp
    moreover have "(file @ nul # func @ nul # off @ CHR '')'' # rest)[?e := nul] = file @ nul # func @ nul # off @ nul # rest"
      using list_update_length [of "file @ nul # func @ nul # off" "CHR '')''" rest nul] by (simp add: add.assoc)
    ultimately show ?thesis by (simp only:)
  qed
  have d: "drop (?b + 1) (file @ nul # x) = x" for x by simp
  have n: "nul \<notin> set func" "nul \<notin> set file" using assms unfolding plain_def by blast+
  have "c_str (drop (?b + 1) (file @ nul # func @ nul # off @ nul # rest)) = func" "c_str (file @ nul # func @ nul # off @ nul # rest) = file"
    unfolding d by (rule c_str_cut [OF n(1)], rule c_str_cut [OF n(2)])
  then show ?thesis unfolding cut_frame_def scan by (simp only: prod.case option.case cut Let_def)
qed

lemma scan_no_close: "CHR '')'' \<notin> set s \<Longrightarrow> snd (snd (scan_frame s p bn bo)) = None"
  by (induction s p bn bo rule: scan_frame.induct) auto

lemma scan_no_plus: "CHR ''+'' \<notin> set s \<Longrightarrow> fst (snd (scan_frame s p bn None)) = None"
  by (induction s arbitrary: p bn) auto

lemma scan_no_open: "CHR ''('' \<notin> set s \<Longrightarrow> fst (scan_frame s p None bo) = None"
  by (induction s arbitrary: p bo) auto

lemma cut_frame_missing:
  assumes "CHR ''('' \<notin> set s \<or> CHR ''+'' \<notin> set s \<or> CHR '')'' \<notin> set s"
  shows "cut_frame s = Inl NullDereference"
proof -
  obtain b off e where s: "scan_frame s 0 None None = (b, off, e)" by (cases "scan_frame s 0 None None")
  then have "b = None \<or> off = None \<or> e = None"
    using assms scan_no_open [of s 0 None] scan_no_plus [of s 0 None] scan_no_close [of s 0 None None] by auto
  then show ?thesis unfolding cut_frame_def s by (auto split: option.splits)
qed

section \<open>Properties\<close>

text \<open>
  The stack trace of an exception.  If every frame after the first has the form \<^verbatim>\<open>file(name+offset)rest\<close>, the trace lists, in
  order, the demangled name of each frame on a line of its own, or the file of a frame whose name does not demangle.  A
  frame without an opening parenthesis, a plus sign or a closing parenthesis, as the frames of stripped or
  static functions have it, makes the constructor of the exception write through a null pointer.\<close>
theorem fillStack_correct:
  "((\<forall>(file, func, off, rest) \<in> set frames. plain file \<and> plain func \<and> plain off) \<longrightarrow>
      fillStack (Some (frame0 # map (\<lambda>(file, func, off, rest). frame_text file func off rest) frames)) demangle =
      Inr (concat (map (\<lambda>(file, func, off, rest). case demangle func of Some d \<Rightarrow> d @ [char_of (10 :: nat)] | None \<Rightarrow> file) frames))) \<and>
    (CHR ''('' \<notin> set bad \<or> CHR ''+'' \<notin> set bad \<or> CHR '')'' \<notin> set bad \<longrightarrow>
      Exception_ctor (Some (frame0 # bad # others)) demangle msg = Inl NullDereference)"
proof (intro conjI impI)
  let ?text = "\<lambda>(file, func, off, rest). frame_text file func off rest"
  let ?line = "\<lambda>(file, func, off, rest). case demangle func of Some d \<Rightarrow> d @ [char_of (10 :: nat)] | None \<Rightarrow> file"
  have go: "rfold (add_frame demangle) (map ?text frames) acc = Inr (acc @ concat (map ?line frames))"
    if "\<forall>(file, func, off, rest) \<in> set frames. plain file \<and> plain func \<and> plain off" for frames acc
    using that
  proof (induction frames arbitrary: acc)
    case Nil
    then show ?case by simp
  next
    case (Cons f frames)
    obtain fl func off rest where f: "f = (fl, func, off, rest)" by (cases f)
    then have "cut_frame (frame_text fl func off rest) = Inr (func, fl)" using Cons.prems by (intro cut_frame_text) auto
    then show ?case using Cons by (simp add: f add_frame_def split: option.splits)
  qed
  assume "\<forall>(file, func, off, rest) \<in> set frames. plain file \<and> plain func \<and> plain off"
  from go [OF this, of "[]"]
  show "fillStack (Some (frame0 # map ?text frames)) demangle = Inr (concat (map ?line frames))" by (simp add: fillStack_def)
next
  assume "CHR ''('' \<notin> set bad \<or> CHR ''+'' \<notin> set bad \<or> CHR '')'' \<notin> set bad"
  then show "Exception_ctor (Some (frame0 # bad # others)) demangle msg = Inl NullDereference"
    by (simp add: Exception_ctor_def fillStack_def add_frame_def cut_frame_missing)
qed

theorem fillStack_correct_witness:
  "fillStack (Some [''main'', frame_text ''./a'' ''_Z3foov'' ''0x1f'' '' [0x40]'']) (\<lambda>m. Some ''foo()'') = Inr (''foo()'' @ [char_of (10 :: nat)]) \<and>
   Exception_ctor (Some [''main'', ''./a [0x40]'']) (\<lambda>m. None) ''fault'' = Inl NullDereference"
proof -
  have p: "plain ''./a''" "plain ''_Z3foov''" "plain ''0x1f''" by (simp_all add: plain_def nul_def)
  show ?thesis
    using fillStack_correct [of "[(''./a'', ''_Z3foov'', ''0x1f'', '' [0x40]'')]" "''main''" "\<lambda>m. Some ''foo()''" "''./a [0x40]''" "[]" "''fault''"]
      fillStack_correct [of "[]" "''main''" "\<lambda>m. None" "''./a [0x40]''" "[]" "''fault''"] p
    by simp
qed

end
