(* ===== verification/Examples.thy ===== *)
theory Examples
  imports TcpConnection
begin

text \<open>
  Models of the example servers under \<^verbatim>\<open>examples/simple\<close>: the echo server and the character generator, as callbacks of
  a connection.  Output to the console and the log is left out.
\<close>

section \<open>Echo\<close>

definition msgCallback :: "timestamp \<Rightarrow> ('k, 'c) tcp_connection \<Rightarrow> (buffer \<times> 'c conn_call list) result" where
  "msgCallback receiveTime s = rbind (retrieveAllAsString (inputBuffer s)) (\<lambda>(msg, b). Inr (b, [CallSend msg]))"

definition echo_main :: "('k, 'c) conn_env \<Rightarrow> ('k, 'c) conn_env" where
  "echo_main env = env\<lparr>on_connection := \<lambda>s. [], on_message := msgCallback\<rparr>"

section \<open>Character generator\<close>

record chargen_server =
  message :: string
  startTime :: timestamp
  transferred :: int64

definition newline :: char where "newline = char_of (10 :: nat)"

definition chargen_line :: string where
  "chargen_line = (let l = map char_of [33..<127 :: nat] in l @ l)"

definition chargen_message :: string where
  "chargen_message = concat (map (\<lambda>i. take 72 (drop i chargen_line) @ [newline]) [0..<127 - 33])"

definition ChargenServer_ctor :: "timestamp \<Rightarrow> chargen_server" where
  "ChargenServer_ctor now = \<lparr>message = chargen_message, startTime = now, transferred = 0\<rparr>"

definition chargen_onMessage :: "timestamp \<Rightarrow> ('k, 'c) tcp_connection \<Rightarrow> (buffer \<times> 'c conn_call list) result" where
  "chargen_onMessage receiveTime s = rbind (retrieveAllAsString (inputBuffer s)) (\<lambda>(msg, b). Inr (b, []))"

definition chargen_onConnection :: "chargen_server \<Rightarrow> ('k, 'c) tcp_connection \<Rightarrow> 'c conn_call list" where
  "chargen_onConnection srv s = (if isConnected s then [CallSetTcpNoDelay True, CallSend (message srv)] else [])"

definition onWriteComplete :: "chargen_server \<Rightarrow> ('k, 'c) tcp_connection \<Rightarrow> chargen_server \<times> 'c conn_call list" where
  "onWriteComplete srv s =
     (srv\<lparr>transferred := transferred srv + word_of_nat (length (message srv))\<rparr>, [CallSend (message srv)])"

text \<open>The rate that is printed; \<open>None\<close> for a quotient by zero, which is infinite or not a number.\<close>

definition printThroughput :: "timestamp \<Rightarrow> chargen_server \<Rightarrow> double option \<times> chargen_server" where
  "printThroughput endTime srv =
     (let time = timeDifference endTime (startTime srv);
          rate = (if time = 0 then None
                  else Some (round_double (round_double (round_double (round_double (of_int (sint (transferred srv))) / time) / 1024) / 1024)))
      in (rate, srv\<lparr>transferred := 0, startTime := endTime\<rparr>))"

definition chargen_env :: "chargen_server \<Rightarrow> ('k, 'c) conn_env \<Rightarrow> ('k, 'c) conn_env" where
  "chargen_env srv env = env\<lparr>on_connection := chargen_onConnection srv, on_message := chargen_onMessage,
     on_write_complete := \<lambda>s. snd (onWriteComplete srv s)\<rparr>"

section \<open>Lemmas\<close>

lemma chargen_line_nth:
  assumes "k < 188"
  shows "chargen_line ! k = char_of (33 + k mod 94)"
proof (cases "k < 94")
  case True
  then show ?thesis by (simp add: chargen_line_def nth_append Let_def del: upt_rec_numeral)
next
  case False
  then have "k mod 94 = k - 94" using assms by (simp add: mod_if)
  with False assms show ?thesis by (simp add: chargen_line_def nth_append Let_def del: upt_rec_numeral)
qed

lemma length_chargen_line: "length chargen_line = 188"
  by (simp add: chargen_line_def Let_def del: upt_rec_numeral)

lemma chargen_row:
  assumes "i < 94"
  shows "take 72 (drop i chargen_line) = map (\<lambda>j. char_of (33 + (i + j) mod 94)) [0..<72]"
proof (rule nth_equalityI)
  show "length (take 72 (drop i chargen_line)) = length (map (\<lambda>j. char_of (33 + (i + j) mod 94) :: char) [0..<72])"
    using assms by (simp add: length_chargen_line del: upt_rec_numeral)
  fix j assume "j < length (take 72 (drop i chargen_line))"
  then have j: "j < 72" by simp
  then have "take 72 (drop i chargen_line) ! j = chargen_line ! (i + j)"
    using assms by (simp add: length_chargen_line)
  also have "\<dots> = char_of (33 + (i + j) mod 94)" using assms j by (intro chargen_line_nth) simp
  finally show "take 72 (drop i chargen_line) ! j = map (\<lambda>j. char_of (33 + (i + j) mod 94) :: char) [0..<72] ! j"
    using j by (simp del: upt_rec_numeral)
qed

text \<open>Sending leaves the input buffer alone.\<close>

lemma queue_input [simp]:
  fixes s :: "('k, 'c) tcp_connection"
  shows "inputBuffer (queueInLoop t f s) = inputBuffer s" "inputBuffer (emit ev s) = inputBuffer s"
  by (simp_all add: queueInLoop_def push_functor_def wakeup_def Let_def emit_def)

lemma keep_rest_input: "keep_rest env tid d n s = Inr s' \<Longrightarrow> inputBuffer s' = inputBuffer s"
  by (auto simp: keep_rest_def Let_def rbind_eq_Inr enableWriting_def dest!: with_update_more conn_fields(6) split: if_splits)

lemma send_keeps_input: "send env tid d s = Inr s' \<Longrightarrow> inputBuffer s' = inputBuffer s"
  by (auto simp: send_def sendInLoop_def assertInLoopThread_def abortNotInLoopThread_def rbind_eq_Inr assert_that_eq_Inr write_directly_def
      write_socket_def Let_def split_beta split: if_splits sum.splits dest!: keep_rest_input)

section \<open>Properties\<close>

text \<open>
  The echo server.  On a connected connection with nothing left to send, the message callback takes everything
  out of the input buffer and appends exactly those bytes to the stream of the connection, unless the
  socket reports that the peer is gone.\<close>
theorem echo_returns_input:
  fixes env :: "('k, 'c) conn_env" and s :: "('k, 'c) tcp_connection"
  defines "e \<equiv> echo_main env"
  assumes ok: "conn_ok e reg tid s" and wr: "write_ok e" and st: "state s = kConnected" "content (outputBuffer s) = []"
    and fits: "write_pos (outputBuffer s) + length (content (inputBuffer s)) \<le> vector_max_size"
  shows "\<exists>s'. messageCallback e tid t s = Inr s' \<and> conn_ok e reg tid s' \<and> content (inputBuffer s') = [] \<and>
    stream s' = stream s @ accepted e s (content (inputBuffer s))"
proof -
  let ?msg = "content (inputBuffer s)"
  let ?s1 = "(emit (MessageCallback ?msg) s)\<lparr>inputBuffer := retrieveAll (inputBuffer s)\<rparr>"
  have inv: "buffer_inv (inputBuffer s)" using ok by (simp add: conn_ok_def)
  have b: "buffer_inv (retrieveAll (inputBuffer s))" "content (retrieveAll (inputBuffer s)) = []"
    using inv by simp_all
  have ok1: "conn_ok e reg tid ?s1" using ok b(1) by (intro conn_ok_input) simp_all
  have fits1: "write_pos (outputBuffer ?s1) + length ?msg \<le> vector_max_size" using fits by simp
  obtain s' where s': "send e tid ?msg ?s1 = Inr s'" "conn_ok e reg tid s'"
    "stream s' = stream ?s1 @ (if state ?s1 = kConnected \<and> content (outputBuffer ?s1) = [] then accepted e ?s1 ?msg else [])"
    by (rule send_spec [OF ok1 wr fits1])
  have "messageCallback e tid t s = Inr s'"
    using s'(1) by (simp add: messageCallback_def e_def echo_main_def msgCallback_def retrieveAllAsString_spec [OF inv])
  moreover have "stream ?s1 = stream s" "accepted e ?s1 ?msg = accepted e s ?msg"
    by (simp_all add: stream_def sent_def emit_def accepted_def)
  moreover have "inputBuffer s' = inputBuffer ?s1" by (rule send_keeps_input [OF s'(1)])
  ultimately show ?thesis using s' st b(2) by auto
qed

theorem echo_returns_input_witness:
  "\<exists>s s'. conn_ok (echo_main echo_env) id 1 s \<and> content (inputBuffer s) = ''hi'' \<and>
     messageCallback (echo_main echo_env) 1 (Timestamp 0) s = Inr s' \<and> stream s' = ''hi''"
proof -
  obtain s where s: "establishConnection echo_env 1 sample_conn = Inr s" "conn_ok echo_env id 1 s" "state s = kConnected"
    "trace s = [ConnectionCallback True]" "outputBuffer s = new_buffer"
    by (rule sample_established) blast
  obtain b where b: "append new_buffer ''hi'' = Inr b" "buffer_inv b" "content b = ''hi''"
    using append_spec [of new_buffer "''hi''"] by (auto simp: vector_max_size_def)
  let ?s = "s\<lparr>inputBuffer := b\<rparr>"
  have ok: "conn_ok (echo_main echo_env) id 1 ?s"
    using conn_ok_input [OF s(2) b(2)] by (simp add: conn_ok_def echo_main_def)
  have wr: "write_ok (echo_main echo_env)" using echo_env_ok by (simp add: env_ok_def write_ok_def echo_main_def)
  have "\<exists>s'. messageCallback (echo_main echo_env) 1 (Timestamp 0) ?s = Inr s' \<and>
      stream s' = stream ?s @ accepted (echo_main echo_env) ?s (content (inputBuffer ?s))"
    using echo_returns_input [OF ok wr, of "Timestamp 0"] s(3,5) b(3) by (auto simp: vector_max_size_def)
  moreover have "stream ?s = []" "accepted (echo_main echo_env) ?s (content (inputBuffer ?s)) = ''hi''"
    using s(4,5) b(3) by (simp_all add: stream_def sent_def accepted_def echo_main_def echo_env_def)
  ultimately show ?thesis using ok b(3) by auto
qed

text \<open>
  The text of the character generator: 94 lines of 72 printable characters, each line starting one
  character further in the cycle of the 94 printable characters, each ended by a newline; 6862 bytes in all.\<close>
theorem chargen_message_text:
  "message (ChargenServer_ctor now) = concat (map (\<lambda>i. map (\<lambda>j. char_of (33 + (i + j) mod 94)) [0..<72] @ [newline]) [0..<94]) \<and>
   length (message (ChargenServer_ctor now)) = 94 * 73"
proof -
  have "(127 :: nat) - 33 = 94" by simp
  then have m: "message (ChargenServer_ctor now) = concat (map (\<lambda>i. take 72 (drop i chargen_line) @ [newline]) [0..<94])"
    by (simp only: ChargenServer_ctor_def chargen_message_def chargen_server.simps)
  also have "map (\<lambda>i. take 72 (drop i chargen_line) @ [newline]) [0..<94] =
      map (\<lambda>i. map (\<lambda>j. char_of (33 + (i + j) mod 94)) [0..<72] @ [newline]) [0..<94]"
    by (rule map_cong [OF refl]) (simp add: chargen_row del: upt_rec_numeral)
  finally have e: "message (ChargenServer_ctor now) =
      concat (map (\<lambda>i. map (\<lambda>j. char_of (33 + (i + j) mod 94)) [0..<72] @ [newline]) [0..<94])" .
  have "length (message (ChargenServer_ctor now)) = sum_list (map (\<lambda>i. 73) [0..<94 :: nat])"
    unfolding e by (simp add: length_concat comp_def del: upt_rec_numeral)
  then show ?thesis using e by (simp add: sum_list_triv del: upt_rec_numeral)
qed

end
