(* ===== verification/Log_Msg.thy ===== *)
theory Log_Msg
  imports Ham_Prelude
begin

text \<open>
  Levels and messages of the log: \<^verbatim>\<open>spdlog/common.h\<close>, \<^verbatim>\<open>common-inl.h\<close>, \<^verbatim>\<open>details/log_msg.h\<close>.  Levels are ordered by their
  number, as the code compares them.  Time points are nanoseconds since the epoch.
\<close>

datatype level_enum =
    level_trace | level_debug | level_info | level_warn | level_err | level_critical | level_off | level_n_levels

fun level_num :: "level_enum \<Rightarrow> nat" where
  "level_num level_trace = 0"
| "level_num level_debug = 1"
| "level_num level_info = 2"
| "level_num level_warn = 3"
| "level_num level_err = 4"
| "level_num level_critical = 5"
| "level_num level_off = 6"
| "level_num level_n_levels = 7"

lemma level_num_inj: "level_num a = level_num b \<Longrightarrow> a = b"
  by (cases a; cases b) simp_all

instantiation level_enum :: linorder
begin

definition less_eq_level_enum :: "level_enum \<Rightarrow> level_enum \<Rightarrow> bool" where
  "less_eq_level_enum a b \<longleftrightarrow> level_num a \<le> level_num b"

definition less_level_enum :: "level_enum \<Rightarrow> level_enum \<Rightarrow> bool" where
  "less_level_enum a b \<longleftrightarrow> level_num a < level_num b"

instance
  by standard (auto simp: less_eq_level_enum_def less_level_enum_def dest: level_num_inj)

end

definition level_string_views :: "string list" where
  "level_string_views = [''trace'', ''debug'', ''info'', ''warning'', ''error'', ''critical'', ''off'']"

definition short_level_names :: "string list" where
  "short_level_names = [''T'', ''D'', ''I'', ''W'', ''E'', ''C'', ''O'']"

text \<open>Reading an array at an index.\<close>

definition array_at :: "'a list \<Rightarrow> int \<Rightarrow> 'a result" where
  "array_at xs i = (if 0 \<le> i \<and> nat i < length xs then Inr (xs ! nat i) else Inl OutOfBounds)"

definition to_string_view :: "level_enum \<Rightarrow> string result" where
  "to_string_view l = array_at level_string_views (int (level_num l))"

definition to_short_c_str :: "level_enum \<Rightarrow> string result" where
  "to_short_c_str l = array_at short_level_names (int (level_num l))"

definition level_of_num :: "nat \<Rightarrow> level_enum" where
  "level_of_num n = (if n < 7 then [level_trace, level_debug, level_info, level_warn, level_err, level_critical, level_off] ! n
     else level_n_levels)"

text \<open>The loop over the names, from the given number on.\<close>

fun find_level :: "string \<Rightarrow> nat \<Rightarrow> string list \<Rightarrow> level_enum option" where
  "find_level name level [] = None"
| "find_level name level (level_str # rest) =
     (if level_str = name then Some (level_of_num level) else find_level name (Suc level) rest)"

definition from_str :: "string \<Rightarrow> level_enum" where
  "from_str name =
     (case find_level name 0 level_string_views of
        Some l \<Rightarrow> l
      | None \<Rightarrow> if name = ''warn'' then level_warn else if name = ''err'' then level_err else level_off)"

record source_loc =
  filename :: string
  line :: int
  funcname :: string

definition no_source :: source_loc where
  "no_source = \<lparr>filename = [], line = 0, funcname = []\<rparr>"

definition source_empty :: "source_loc \<Rightarrow> bool" where
  "source_empty s \<longleftrightarrow> line s = 0"

record log_msg =
  logger_name :: string
  level :: level_enum
  time :: int
  thread_id :: nat
  source :: source_loc
  payload :: string

definition log_msg_ctor :: "int \<Rightarrow> nat \<Rightarrow> source_loc \<Rightarrow> string \<Rightarrow> level_enum \<Rightarrow> string \<Rightarrow> log_msg" where
  "log_msg_ctor now tid loc a_logger_name lvl msg =
     \<lparr>logger_name = a_logger_name, level = lvl, time = now, thread_id = tid, source = loc, payload = msg\<rparr>"

lemma to_string_view_valid: "l \<noteq> level_n_levels \<Longrightarrow> to_string_view l = Inr (level_string_views ! level_num l)"
  by (cases l) (simp_all add: to_string_view_def array_at_def level_string_views_def)

lemma from_str_to_string_view: "to_string_view l = Inr name \<Longrightarrow> from_str name = l"
  by (cases l) (auto simp: to_string_view_def array_at_def level_string_views_def from_str_def level_of_num_def)

end
