(* ===== verification/Spd_Logger.thy ===== *)
theory Spd_Logger
  imports Log_Msg Circular_Q
begin

text \<open>
  Model of the logger of spdlog (\<^verbatim>\<open>logger.h\<close>, \<^verbatim>\<open>logger-inl.h\<close>), of the backtrace it keeps (\<^verbatim>\<open>backtracer-inl.h\<close>,
  \<^verbatim>\<open>log_msg_buffer-inl.h\<close>) and of the levels of its sinks (\<^verbatim>\<open>sink-inl.h\<close>).  Sinks are objects behind shared pointers: they
  live in a store and a logger knows their addresses.  What a sink does with a message is the record of its virtual functions; a
  call that throws leaves a state and an exception, which the logger catches.  Clock, date and thread id are
  parameters; error handlers set by the user are known by a number, and their calls are recorded.
\<close>

section \<open>Messages with their own text\<close>

record log_msg_buffer = log_msg +
  buffer :: string

definition update_string_views :: "log_msg_buffer \<Rightarrow> log_msg_buffer" where
  "update_string_views m =
     (let n = length (logger_name m) in
      m\<lparr>logger_name := take n (buffer m), payload := take (length (payload m)) (drop n (buffer m))\<rparr>)"

definition log_msg_buffer_ctor :: "log_msg \<Rightarrow> log_msg_buffer" where
  "log_msg_buffer_ctor orig_msg =
     update_string_views (log_msg.extend orig_msg \<lparr>buffer = logger_name orig_msg @ payload orig_msg\<rparr>)"

definition log_msg_buffer_copy :: "log_msg_buffer \<Rightarrow> log_msg_buffer" where
  "log_msg_buffer_copy other = update_string_views (other\<lparr>buffer := logger_name other @ payload other\<rparr>)"

definition log_msg_buffer_assign :: "log_msg_buffer \<Rightarrow> log_msg_buffer" where
  "log_msg_buffer_assign other = update_string_views other"

definition empty_msg_buffer :: log_msg_buffer where
  "empty_msg_buffer = \<lparr>logger_name = [], level = level_off, time = 0, thread_id = 0, source = no_source, payload = [], buffer = []\<rparr>"

text \<open>The message that a function which takes a \<^verbatim>\<open>log_msg\<close> sees.\<close>

definition as_log_msg :: "log_msg_buffer \<Rightarrow> log_msg" where
  "as_log_msg m = log_msg.truncate m"

section \<open>backtracer\<close>

record backtracer =
  tracer_enabled :: bool
  messages :: "log_msg_buffer circular_q"

definition backtracer_ctor :: backtracer where
  "backtracer_ctor = \<lparr>tracer_enabled = False, messages = circular_q_disabled\<rparr>"

definition backtracer_enable :: "nat \<Rightarrow> backtracer \<Rightarrow> backtracer" where
  "backtracer_enable n t = t\<lparr>tracer_enabled := True, messages := circular_q_ctor empty_msg_buffer n\<rparr>"

definition backtracer_disable :: "backtracer \<Rightarrow> backtracer" where
  "backtracer_disable t = t\<lparr>tracer_enabled := False\<rparr>"

definition backtracer_push_back :: "log_msg \<Rightarrow> backtracer \<Rightarrow> backtracer" where
  "backtracer_push_back msg t = t\<lparr>messages := push_back (log_msg_buffer_ctor msg) (messages t)\<rparr>"

text \<open>The loop of \<^verbatim>\<open>foreach_pop\<close>, for at most as many messages as the ring has slots.\<close>

fun pop_each :: "nat \<Rightarrow> (log_msg \<Rightarrow> 'w \<Rightarrow> 'w) \<Rightarrow> log_msg_buffer circular_q \<Rightarrow> 'w \<Rightarrow> (log_msg_buffer circular_q \<times> 'w) result" where
  "pop_each 0 f q w = (if q_empty q then Inr (q, w) else Inl OutOfBounds)"
| "pop_each (Suc fuel) f q w =
     (if q_empty q then Inr (q, w)
      else rbind (front q) (\<lambda>front_msg. rbind (pop_front q) (\<lambda>q'. pop_each fuel f q' (f (as_log_msg front_msg) w))))"

definition foreach_pop :: "(log_msg \<Rightarrow> 'w \<Rightarrow> 'w) \<Rightarrow> backtracer \<Rightarrow> 'w \<Rightarrow> (backtracer \<times> 'w) result" where
  "foreach_pop f t w =
     rbind (pop_each (max_items (messages t)) f (messages t) w) (\<lambda>(q, w'). Inr (t\<lparr>messages := q\<rparr>, w'))"

section \<open>Sinks\<close>

text \<open>Besides exceptions there is what no \<^verbatim>\<open>catch\<close> sees: undefined behaviour, and the end of the program in \<^verbatim>\<open>std::terminate\<close>.\<close>

datatype thrown = StdException string | OtherException | Undefined

type_synonym 's call = "'s \<times> thrown option"

record ('f, 's) sink_ops =
  op_log :: "log_msg \<Rightarrow> 's \<Rightarrow> 's call"
  op_flush :: "'s \<Rightarrow> 's call"
  op_set_formatter :: "'f \<Rightarrow> 's \<Rightarrow> 's"

record 's sink =
  sink_level :: level_enum
  sink_state :: 's

definition new_sink :: "'s \<Rightarrow> 's sink" where
  "new_sink s = \<lparr>sink_level = level_trace, sink_state = s\<rparr>"

definition sink_should_log :: "level_enum \<Rightarrow> 's sink \<Rightarrow> bool" where
  "sink_should_log msg_level s \<longleftrightarrow> sink_level s \<le> msg_level"

definition sink_set_level :: "level_enum \<Rightarrow> 's sink \<Rightarrow> 's sink" where
  "sink_set_level log_level s = s\<lparr>sink_level := log_level\<rparr>"

section \<open>The logger\<close>

record log_env =
  log_clock :: "nat \<Rightarrow> int"
  os_thread_id :: nat
  format_date :: "int \<Rightarrow> string"

text \<open>What loggers share: the sinks, the readings of the clock, the static variables of \<^verbatim>\<open>err_handler_\<close> and what it prints.\<close>

record 's log_world =
  sinks :: "nat \<Rightarrow> 's sink"
  clock_reads :: nat
  err_counter :: nat
  last_report_time :: int
  stderr_lines :: "(nat \<times> string \<times> string \<times> string) list"
  handler_calls :: "(nat \<times> string) list"
  undefined_behaviour :: bool

record spd_logger =
  lg_name :: string
  lg_sinks :: "nat list"
  lg_level :: level_enum
  flush_level :: level_enum
  custom_err_handler :: "nat option"
  tracer :: backtracer

definition spd_logger_ctor :: "string \<Rightarrow> nat list \<Rightarrow> spd_logger" where
  "spd_logger_ctor name ss =
     \<lparr>lg_name = name, lg_sinks = ss, lg_level = level_info, flush_level = level_off, custom_err_handler = None, tracer = backtracer_ctor\<rparr>"

definition logger_clone :: "string \<Rightarrow> spd_logger \<Rightarrow> spd_logger" where
  "logger_clone name lg = lg\<lparr>lg_name := name\<rparr>"

definition logger_swap :: "spd_logger \<Rightarrow> spd_logger \<Rightarrow> spd_logger \<times> spd_logger" where
  "logger_swap lg other =
     (lg\<lparr>lg_name := lg_name other, lg_sinks := lg_sinks other, lg_level := lg_level other, flush_level := flush_level other,
         custom_err_handler := custom_err_handler other, tracer := tracer other\<rparr>,
      other\<lparr>lg_name := lg_name lg, lg_sinks := lg_sinks lg, lg_level := lg_level lg, flush_level := flush_level lg,
         custom_err_handler := custom_err_handler lg, tracer := tracer lg\<rparr>)"

definition read_clock :: "log_env \<Rightarrow> ('s, 'z) log_world_scheme \<Rightarrow> int \<times> ('s, 'z) log_world_scheme" where
  "read_clock env w = (log_clock env (clock_reads w), w\<lparr>clock_reads := Suc (clock_reads w)\<rparr>)"

definition err_handler :: "log_env \<Rightarrow> spd_logger \<Rightarrow> string \<Rightarrow> ('s, 'z) log_world_scheme \<Rightarrow> ('s, 'z) log_world_scheme" where
  "err_handler env lg msg w =
     (case custom_err_handler lg of
        Some h \<Rightarrow> w\<lparr>handler_calls := handler_calls w @ [(h, msg)]\<rparr>
      | None \<Rightarrow>
          let (now, w1) = read_clock env w;
              w2 = w1\<lparr>err_counter := Suc (err_counter w1)\<rparr>
          in if now - last_report_time w2 < 10 ^ 9 then w2
             else w2\<lparr>last_report_time := now,
                     stderr_lines := stderr_lines w2 @ [(err_counter w2, format_date env now, lg_name lg, msg)]\<rparr>)"

text \<open>\<^verbatim>\<open>SPDLOG_LOGGER_CATCH\<close>\<close>

definition logger_catch :: "log_env \<Rightarrow> spd_logger \<Rightarrow> thrown option \<Rightarrow> ('s, 'z) log_world_scheme \<Rightarrow> ('s, 'z) log_world_scheme" where
  "logger_catch env lg ex w =
     (case ex of
        None \<Rightarrow> w
      | Some (StdException what) \<Rightarrow> err_handler env lg what w
      | Some OtherException \<Rightarrow> err_handler env lg ''Unknown exception in logger'' w
      | Some Undefined \<Rightarrow> w\<lparr>undefined_behaviour := True\<rparr>)"

definition call_sink :: "log_env \<Rightarrow> spd_logger \<Rightarrow> ('s \<Rightarrow> 's call) \<Rightarrow> nat \<Rightarrow> ('s, 'z) log_world_scheme \<Rightarrow> ('s, 'z) log_world_scheme" where
  "call_sink env lg f i w =
     (let (s, ex) = f (sink_state (sinks w i)) in
      logger_catch env lg ex (w\<lparr>sinks := (sinks w)(i := (sinks w i)\<lparr>sink_state := s\<rparr>)\<rparr>))"

fun flush_sinks :: "('f, 's) sink_ops \<Rightarrow> log_env \<Rightarrow> spd_logger \<Rightarrow> nat list \<Rightarrow> ('s, 'z) log_world_scheme \<Rightarrow> ('s, 'z) log_world_scheme" where
  "flush_sinks ops env lg [] w = w"
| "flush_sinks ops env lg (i # is) w = flush_sinks ops env lg is (call_sink env lg (op_flush ops) i w)"

definition logger_flush :: "('f, 's) sink_ops \<Rightarrow> log_env \<Rightarrow> spd_logger \<Rightarrow> ('s, 'z) log_world_scheme \<Rightarrow> ('s, 'z) log_world_scheme" where
  "logger_flush ops env lg w = flush_sinks ops env lg (lg_sinks lg) w"

definition should_flush :: "spd_logger \<Rightarrow> log_msg \<Rightarrow> bool" where
  "should_flush lg msg \<longleftrightarrow> flush_level lg \<le> level msg \<and> level msg \<noteq> level_off"

fun log_sinks :: "('f, 's) sink_ops \<Rightarrow> log_env \<Rightarrow> spd_logger \<Rightarrow> log_msg \<Rightarrow> nat list \<Rightarrow> ('s, 'z) log_world_scheme \<Rightarrow> ('s, 'z) log_world_scheme" where
  "log_sinks ops env lg msg [] w = w"
| "log_sinks ops env lg msg (i # is) w =
     log_sinks ops env lg msg is (if sink_should_log (level msg) (sinks w i) then call_sink env lg (op_log ops msg) i w else w)"

definition logger_sink_it :: "('f, 's) sink_ops \<Rightarrow> log_env \<Rightarrow> spd_logger \<Rightarrow> log_msg \<Rightarrow> ('s, 'z) log_world_scheme \<Rightarrow> ('s, 'z) log_world_scheme" where
  "logger_sink_it ops env lg msg w =
     (let w1 = log_sinks ops env lg msg (lg_sinks lg) w
      in if should_flush lg msg then logger_flush ops env lg w1 else w1)"

definition log_it :: "('f, 's) sink_ops \<Rightarrow> log_env \<Rightarrow> log_msg \<Rightarrow> bool \<Rightarrow> bool \<Rightarrow> spd_logger \<Rightarrow> ('s, 'z) log_world_scheme \<Rightarrow>
    spd_logger \<times> ('s, 'z) log_world_scheme" where
  "log_it ops env msg log_enabled traceback_enabled lg w =
     (let w1 = (if log_enabled then logger_sink_it ops env lg msg w else w);
          lg1 = (if traceback_enabled then lg\<lparr>tracer := backtracer_push_back msg (tracer lg)\<rparr> else lg)
      in (lg1, w1))"

definition should_log :: "level_enum \<Rightarrow> spd_logger \<Rightarrow> bool" where
  "should_log msg_level lg \<longleftrightarrow> lg_level lg \<le> msg_level"

definition should_backtrace :: "spd_logger \<Rightarrow> bool" where
  "should_backtrace lg \<longleftrightarrow> tracer_enabled (tracer lg)"

definition log_at :: "('f, 's) sink_ops \<Rightarrow> log_env \<Rightarrow> int \<Rightarrow> source_loc \<Rightarrow> level_enum \<Rightarrow> string \<Rightarrow> spd_logger \<Rightarrow> ('s, 'z) log_world_scheme \<Rightarrow>
    spd_logger \<times> ('s, 'z) log_world_scheme" where
  "log_at ops env log_time loc lvl msg lg w =
     (let log_enabled = should_log lvl lg; traceback_enabled = should_backtrace lg in
      if \<not> log_enabled \<and> \<not> traceback_enabled then (lg, w)
      else log_it ops env (log_msg_ctor log_time (os_thread_id env) loc (lg_name lg) lvl msg) log_enabled traceback_enabled lg w)"

text \<open>A text without arguments: the time is read from the clock.\<close>

definition log_string :: "('f, 's) sink_ops \<Rightarrow> log_env \<Rightarrow> source_loc \<Rightarrow> level_enum \<Rightarrow> string \<Rightarrow> spd_logger \<Rightarrow> ('s, 'z) log_world_scheme \<Rightarrow>
    spd_logger \<times> ('s, 'z) log_world_scheme" where
  "log_string ops env loc lvl msg lg w =
     (let log_enabled = should_log lvl lg; traceback_enabled = should_backtrace lg in
      if \<not> log_enabled \<and> \<not> traceback_enabled then (lg, w)
      else let (now, w1) = read_clock env w
           in log_it ops env (log_msg_ctor now (os_thread_id env) loc (lg_name lg) lvl msg) log_enabled traceback_enabled lg w1)"

text \<open>A format string with its arguments: \<open>formatted\<close> is the text that fmt makes of them, or what it throws.\<close>

definition log_args :: "('f, 's) sink_ops \<Rightarrow> log_env \<Rightarrow> source_loc \<Rightarrow> level_enum \<Rightarrow> thrown + string \<Rightarrow> spd_logger \<Rightarrow>
    ('s, 'z) log_world_scheme \<Rightarrow> spd_logger \<times> ('s, 'z) log_world_scheme" where
  "log_args ops env loc lvl formatted lg w =
     (let log_enabled = should_log lvl lg; traceback_enabled = should_backtrace lg in
      if \<not> log_enabled \<and> \<not> traceback_enabled then (lg, w)
      else case formatted of
             Inl ex \<Rightarrow> (lg, logger_catch env lg (Some ex) w)
           | Inr buf \<Rightarrow>
               let (now, w1) = read_clock env w
               in log_it ops env (log_msg_ctor now (os_thread_id env) loc (lg_name lg) lvl buf) log_enabled traceback_enabled lg w1)"

definition logger_set_level :: "level_enum \<Rightarrow> spd_logger \<Rightarrow> spd_logger" where
  "logger_set_level log_level lg = lg\<lparr>lg_level := log_level\<rparr>"

definition logger_flush_on :: "level_enum \<Rightarrow> spd_logger \<Rightarrow> spd_logger" where
  "logger_flush_on log_level lg = lg\<lparr>flush_level := log_level\<rparr>"

definition logger_set_error_handler :: "nat option \<Rightarrow> spd_logger \<Rightarrow> spd_logger" where
  "logger_set_error_handler handler lg = lg\<lparr>custom_err_handler := handler\<rparr>"

definition logger_enable_backtrace :: "nat \<Rightarrow> spd_logger \<Rightarrow> spd_logger" where
  "logger_enable_backtrace n_messages lg = lg\<lparr>tracer := backtracer_enable n_messages (tracer lg)\<rparr>"

definition logger_disable_backtrace :: "spd_logger \<Rightarrow> spd_logger" where
  "logger_disable_backtrace lg = lg\<lparr>tracer := backtracer_disable (tracer lg)\<rparr>"

text \<open>Every sink but the last gets a clone, the last one the formatter itself.\<close>

fun set_formatters :: "('f, 's) sink_ops \<Rightarrow> ('f \<Rightarrow> 'f) \<Rightarrow> 'f \<Rightarrow> nat list \<Rightarrow> ('s, 'z) log_world_scheme \<Rightarrow> ('s, 'z) log_world_scheme" where
  "set_formatters ops clone f [] w = w"
| "set_formatters ops clone f (i # is) w =
     (let g = (if is = [] then f else clone f)
      in set_formatters ops clone f is (w\<lparr>sinks := (sinks w)(i := (sinks w i)\<lparr>sink_state := op_set_formatter ops g (sink_state (sinks w i))\<rparr>)\<rparr>))"

definition logger_set_formatter :: "('f, 's) sink_ops \<Rightarrow> ('f \<Rightarrow> 'f) \<Rightarrow> 'f \<Rightarrow> spd_logger \<Rightarrow> ('s, 'z) log_world_scheme \<Rightarrow> ('s, 'z) log_world_scheme" where
  "logger_set_formatter ops clone f lg w = set_formatters ops clone f (lg_sinks lg) w"

definition backtrace_start :: string where
  "backtrace_start = ''****************** Backtrace Start ******************''"

definition backtrace_end :: string where
  "backtrace_end = ''****************** Backtrace End ********************''"

definition sink_marker :: "('f, 's) sink_ops \<Rightarrow> log_env \<Rightarrow> spd_logger \<Rightarrow> string \<Rightarrow> ('s, 'z) log_world_scheme \<Rightarrow> ('s, 'z) log_world_scheme" where
  "sink_marker ops env lg marker w =
     (let (now, w1) = read_clock env w
      in logger_sink_it ops env lg (log_msg_ctor now (os_thread_id env) no_source (lg_name lg) level_info marker) w1)"

definition dump_backtrace :: "('f, 's) sink_ops \<Rightarrow> log_env \<Rightarrow> spd_logger \<Rightarrow> ('s, 'z) log_world_scheme \<Rightarrow> (spd_logger \<times> ('s, 'z) log_world_scheme) result" where
  "dump_backtrace ops env lg w =
     (if tracer_enabled (tracer lg) then
        rbind (foreach_pop (logger_sink_it ops env lg) (tracer lg) (sink_marker ops env lg backtrace_start w)) (\<lambda>(t, w1).
          Inr (lg\<lparr>tracer := t\<rparr>, sink_marker ops env lg backtrace_end w1))
      else Inr (lg, w))"

section \<open>Messages and the ring of the backtrace\<close>

lemma as_log_msg_buffer [simp]: "as_log_msg (log_msg_buffer_ctor msg) = msg"
  by (cases msg) (simp add: as_log_msg_def log_msg_buffer_ctor_def update_string_views_def log_msg.defs)

lemma log_msg_buffer_copies:
  "as_log_msg (log_msg_buffer_copy (log_msg_buffer_ctor msg)) = msg" "as_log_msg (log_msg_buffer_assign (log_msg_buffer_ctor msg)) = msg"
  by (cases msg; simp add: as_log_msg_def log_msg_buffer_copy_def log_msg_buffer_assign_def log_msg_buffer_ctor_def
      update_string_views_def log_msg.defs)+

lemma pop_each_contents:
  assumes "q_ok q" and "q_size q \<le> fuel"
  shows "\<exists>q'. pop_each fuel f q w = Inr (q', fold f (map as_log_msg (q_contents q)) w) \<and> q_contents q' = [] \<and> q_ok q' \<and> max_items q' = max_items q"
  using assms
proof (induction fuel arbitrary: q w)
  case 0
  then have "q_contents q = []" using length_q_contents [of q] by (metis le_zero_eq length_0_conv)
  then show ?case using q_empty_iff [OF 0(1)] 0(1) by simp
next
  case (Suc fuel)
  show ?case
  proof (cases "q_contents q = []")
    case True
    then show ?thesis using q_empty_iff [OF Suc(2)] Suc(2) by simp
  next
    case False
    obtain q' where q': "pop_front q = Inr q'" "front q = Inr (hd (q_contents q))" "q_contents q' = tl (q_contents q)" "q_ok q'"
      using pop_front_contents [OF Suc(2) False] by metis
    have m: "max_items q' = max_items q" using q'(1) by (auto simp: pop_front_def split: if_splits)
    have "q_size q' \<le> fuel" using q'(3) Suc(3) length_q_contents [of q'] length_q_contents [of q] by simp
    then obtain q2 where "pop_each fuel f q' (f (as_log_msg (hd (q_contents q))) w) =
        Inr (q2, fold f (map as_log_msg (q_contents q')) (f (as_log_msg (hd (q_contents q))) w))" "q_contents q2 = []" "q_ok q2"
        "max_items q2 = max_items q'"
      using Suc.IH [OF q'(4)] by blast
    moreover obtain m ms where "q_contents q = m # ms" using False by (cases "q_contents q") auto
    ultimately show ?thesis using q' m q_empty_iff [OF Suc(2)] by auto
  qed
qed

text \<open>Reporting errors and calling sinks do not look at the backtrace.\<close>

lemma err_handler_tracer: "err_handler env (lg\<lparr>tracer := t\<rparr>) = err_handler env lg"
  by (auto simp: fun_eq_iff err_handler_def read_clock_def Let_def split: option.split)

lemma logger_catch_tracer: "logger_catch env (lg\<lparr>tracer := t\<rparr>) = logger_catch env lg"
  by (auto simp: fun_eq_iff logger_catch_def err_handler_tracer split: option.split thrown.split)

lemma call_sink_tracer: "call_sink env (lg\<lparr>tracer := t\<rparr>) = call_sink env lg"
  by (auto simp: fun_eq_iff call_sink_def logger_catch_tracer split: prod.split)

lemma flush_sinks_tracer: "flush_sinks ops env (lg\<lparr>tracer := t\<rparr>) is w = flush_sinks ops env lg is w"
  by (induction "is" arbitrary: w) (simp_all add: call_sink_tracer)

lemma log_sinks_tracer: "log_sinks ops env (lg\<lparr>tracer := t\<rparr>) msg is w = log_sinks ops env lg msg is w"
  by (induction "is" arbitrary: w) (simp_all add: call_sink_tracer)

lemma sink_it_tracer: "logger_sink_it ops env (lg\<lparr>tracer := t\<rparr>) = logger_sink_it ops env lg"
  by (simp add: fun_eq_iff logger_sink_it_def should_flush_def logger_flush_def log_sinks_tracer flush_sinks_tracer Let_def)

lemma sink_marker_tracer: "sink_marker ops env (lg\<lparr>tracer := t\<rparr>) = sink_marker ops env lg"
  by (simp add: fun_eq_iff sink_marker_def sink_it_tracer read_clock_def)

section \<open>What a backtrace holds\<close>

type_synonym log_call = "int \<times> source_loc \<times> level_enum \<times> string"

fun log_calls :: "('f, 's) sink_ops \<Rightarrow> log_env \<Rightarrow> log_call list \<Rightarrow> spd_logger \<Rightarrow> ('s, 'z) log_world_scheme \<Rightarrow> spd_logger \<times> ('s, 'z) log_world_scheme" where
  "log_calls ops env [] lg w = (lg, w)"
| "log_calls ops env ((t, loc, lvl, msg) # calls) lg w = (let (lg1, w1) = log_at ops env t loc lvl msg lg w in log_calls ops env calls lg1 w1)"

definition call_msg :: "log_env \<Rightarrow> spd_logger \<Rightarrow> log_call \<Rightarrow> log_msg" where
  "call_msg env lg c = (case c of (t, loc, lvl, msg) \<Rightarrow> log_msg_ctor t (os_thread_id env) loc (lg_name lg) lvl msg)"

definition tracing :: "nat \<Rightarrow> log_msg list \<Rightarrow> backtracer \<Rightarrow> bool" where
  "tracing n msgs t \<longleftrightarrow> tracer_enabled t \<and> q_ok (messages t) \<and> 0 < max_items (messages t) \<and> q_capacity (messages t) = n \<and>
     map as_log_msg (q_contents (messages t)) = keep_last n msgs"

lemma tracing_enable: "n + 1 < 2 ^ 64 \<Longrightarrow> tracing n [] (backtracer_enable n t)"
  by (simp add: tracing_def backtracer_enable_def circular_q_ctor_def q_ok_def q_capacity_def q_contents_def q_size_def keep_last_def)

lemma keep_last_snoc: "keep_last n (keep_last n xs @ [x]) = keep_last n (xs @ [x])"
proof (cases "n \<le> length xs")
  case True
  then have "Suc (length xs - n) = Suc (length xs) - n" by simp
  then show ?thesis using True by (cases n) (auto simp: keep_last_def Suc_diff_le)
qed (simp add: keep_last_def)

lemma map_keep_last: "map f (keep_last n xs) = keep_last n (map f xs)"
  by (simp add: keep_last_def drop_map)

lemma tracing_push: "tracing n msgs t \<Longrightarrow> tracing n (msgs @ [msg]) (backtracer_push_back msg t)"
  using push_back_contents [of "messages t" "log_msg_buffer_ctor msg"]
  by (auto simp: tracing_def backtracer_push_back_def map_keep_last keep_last_snoc push_back_def Let_def)

lemma call_msg_tracer [simp]: "call_msg env (lg\<lparr>tracer := t\<rparr>) = call_msg env lg"
  by (simp add: fun_eq_iff call_msg_def)

lemma log_at_traces:
  assumes "tracing n msgs (tracer lg)" and "log_at ops env t loc lvl m lg w = (lg1, w1)"
  shows "\<exists>tr. lg1 = lg\<lparr>tracer := tr\<rparr> \<and> tracing n (msgs @ [call_msg env lg (t, loc, lvl, m)]) tr"
proof -
  have "should_backtrace lg" using assms(1) by (simp add: tracing_def should_backtrace_def)
  then have "lg1 = lg\<lparr>tracer := backtracer_push_back (call_msg env lg (t, loc, lvl, m)) (tracer lg)\<rparr>"
    using assms(2) by (auto simp: log_at_def log_it_def call_msg_def Let_def)
  then show ?thesis using tracing_push [OF assms(1)] by blast
qed

lemma log_calls_traces:
  assumes "tracing n msgs (tracer lg)" and "log_calls ops env calls lg w = (lg1, w1)"
  shows "\<exists>tr. lg1 = lg\<lparr>tracer := tr\<rparr> \<and> tracing n (msgs @ map (call_msg env lg) calls) tr"
  using assms
proof (induction calls arbitrary: lg msgs w)
  case Nil
  then show ?case by (intro exI [of _ "tracer lg"]) simp
next
  case (Cons c calls)
  obtain t loc lvl m where c: "c = (t, loc, lvl, m)" by (cases c)
  obtain lg2 w2 where s: "log_at ops env t loc lvl m lg w = (lg2, w2)" by force
  obtain tr where tr: "lg2 = lg\<lparr>tracer := tr\<rparr>" "tracing n (msgs @ [call_msg env lg c]) tr"
    using log_at_traces [OF Cons.prems(1) s] by (auto simp: c)
  have "log_calls ops env calls lg2 w2 = (lg1, w1)" using Cons.prems(2) s c by simp
  from Cons.IH [OF _ this, of "msgs @ [call_msg env lg c]"] show ?case using tr by auto
qed

section \<open>What the sinks get\<close>

definition logged_state :: "('f, 's) sink_ops \<Rightarrow> log_msg \<Rightarrow> 's sink \<Rightarrow> 's" where
  "logged_state ops msg s = (if sink_should_log (level msg) s then fst (op_log ops msg (sink_state s)) else sink_state s)"

definition flushed_state :: "('f, 's) sink_ops \<Rightarrow> spd_logger \<Rightarrow> log_msg \<Rightarrow> 's \<Rightarrow> 's" where
  "flushed_state ops lg msg s = (if should_flush lg msg then fst (op_flush ops s) else s)"

lemma err_handler_sinks [simp]: "sinks (err_handler env lg m w) = sinks w"
  by (auto simp: err_handler_def read_clock_def Let_def split: option.split)

lemma logger_catch_sinks [simp]: "sinks (logger_catch env lg ex w) = sinks w"
  by (auto simp: logger_catch_def split: option.split thrown.split)

lemma call_sink_sinks: "sinks (call_sink env lg f i w) = (sinks w)(i := (sinks w i)\<lparr>sink_state := fst (f (sink_state (sinks w i)))\<rparr>)"
  by (simp add: call_sink_def split: prod.split)

lemma log_sinks_state:
  assumes "distinct is"
  shows "sinks (log_sinks ops env lg msg is w) i =
    (if i \<in> set is then (sinks w i)\<lparr>sink_state := logged_state ops msg (sinks w i)\<rparr> else sinks w i)"
  using assms by (induction "is" arbitrary: w) (auto simp: call_sink_sinks logged_state_def)

lemma flush_sinks_state:
  assumes "distinct is"
  shows "sinks (flush_sinks ops env lg is w) i =
    (if i \<in> set is then (sinks w i)\<lparr>sink_state := fst (op_flush ops (sink_state (sinks w i)))\<rparr> else sinks w i)"
  using assms by (induction "is" arbitrary: w) (auto simp: call_sink_sinks)

lemma sink_it_state:
  assumes "distinct (lg_sinks lg)"
  shows "sinks (logger_sink_it ops env lg msg w) i =
    (if i \<in> set (lg_sinks lg) then (sinks w i)\<lparr>sink_state := flushed_state ops lg msg (logged_state ops msg (sinks w i))\<rparr> else sinks w i)"
  by (simp add: log_sinks_state [OF assms] flush_sinks_state [OF assms] logger_sink_it_def logger_flush_def flushed_state_def Let_def)

text \<open>The errors of the sinks, in the order of the sinks, as they are handed to the error handler.\<close>

fun report :: "thrown option \<Rightarrow> string list" where
  "report None = []"
| "report (Some (StdException what)) = [what]"
| "report (Some OtherException) = [''Unknown exception in logger'']"
| "report (Some Undefined) = []"

definition log_report :: "('f, 's) sink_ops \<Rightarrow> log_msg \<Rightarrow> 's sink \<Rightarrow> string list" where
  "log_report ops msg s = (if sink_should_log (level msg) s then report (snd (op_log ops msg (sink_state s))) else [])"

text \<open>What the error handler reads and writes, and that a series of calls on the sinks reports each error once.\<close>

definition books :: "('s, 'z) log_world_scheme \<Rightarrow> nat \<times> nat \<times> int \<times> (nat \<times> string \<times> string \<times> string) list \<times> (nat \<times> string) list" where
  "books w = (clock_reads w, err_counter w, last_report_time w, stderr_lines w, handler_calls w)"

lemma err_handler_books: "books w = books w' \<Longrightarrow> books (err_handler env lg m w) = books (err_handler env lg m w')"
  by (auto simp: books_def err_handler_def read_clock_def Let_def split: option.split)

lemma err_handlers_books: "books w = books w' \<Longrightarrow> books (fold (err_handler env lg) ms w) = books (fold (err_handler env lg) ms w')"
  by (induction ms arbitrary: w w') (auto intro: err_handler_books)

lemma call_sink_reports: "books (call_sink env lg f i w) = books (fold (err_handler env lg) (report (snd (f (sink_state (sinks w i))))) w)"
proof -
  obtain s ex where f: "f (sink_state (sinks w i)) = (s, ex)" by force
  let ?v = "w\<lparr>sinks := (sinks w)(i := (sinks w i)\<lparr>sink_state := s\<rparr>)\<rparr>"
  have v: "books ?v = books w" by (simp add: books_def)
  have "books (logger_catch env lg ex ?v) = books (fold (err_handler env lg) (report ex) ?v)"
    by (auto simp: logger_catch_def books_def split: option.split thrown.split)
  with err_handlers_books [OF v] show ?thesis by (simp add: call_sink_def f)
qed

lemma log_sinks_reports:
  assumes "distinct is"
  shows "books (log_sinks ops env lg msg is w) = books (fold (err_handler env lg) (concat (map (\<lambda>i. log_report ops msg (sinks w i)) is)) w)"
  using assms
proof (induction "is" arbitrary: w)
  case (Cons i "is")
  let ?w = "if sink_should_log (level msg) (sinks w i) then call_sink env lg (op_log ops msg) i w else w"
  have e: "map (\<lambda>j. log_report ops msg (sinks ?w j)) is = map (\<lambda>j. log_report ops msg (sinks w j)) is"
    using Cons.prems by (auto simp: call_sink_sinks)
  have "books ?w = books (fold (err_handler env lg) (log_report ops msg (sinks w i)) w)"
    by (simp add: log_report_def call_sink_reports)
  from err_handlers_books [OF this] show ?case using Cons.IH [of ?w] Cons.prems by (simp add: e del: map_eq_conv)
qed simp

lemma flush_sinks_reports:
  assumes "distinct is"
  shows "books (flush_sinks ops env lg is w) =
    books (fold (err_handler env lg) (concat (map (\<lambda>i. report (snd (op_flush ops (sink_state (sinks w i))))) is)) w)"
  using assms
proof (induction "is" arbitrary: w)
  case (Cons i "is")
  let ?w = "call_sink env lg (op_flush ops) i w"
  have e: "map (\<lambda>j. report (snd (op_flush ops (sink_state (sinks ?w j))))) is =
      map (\<lambda>j. report (snd (op_flush ops (sink_state (sinks w j))))) is"
    using Cons.prems by (auto simp: call_sink_sinks)
  from err_handlers_books [OF call_sink_reports] show ?case using Cons.IH [of ?w] Cons.prems by (simp add: e del: map_eq_conv)
qed simp

text \<open>The errors met while a message is logged and flushed, in the order of the calls.\<close>

definition all_reports :: "('f, 's) sink_ops \<Rightarrow> spd_logger \<Rightarrow> log_msg \<Rightarrow> (nat \<Rightarrow> 's sink) \<Rightarrow> string list" where
  "all_reports ops lg msg ss =
     concat (map (\<lambda>i. log_report ops msg (ss i)) (lg_sinks lg)) @
     (if should_flush lg msg then concat (map (\<lambda>i. report (snd (op_flush ops (logged_state ops msg (ss i))))) (lg_sinks lg)) else [])"

lemma sink_it_reports:
  assumes "distinct (lg_sinks lg)"
  shows "books (logger_sink_it ops env lg msg w) = books (fold (err_handler env lg) (all_reports ops lg msg (sinks w)) w)"
proof -
  let ?w = "log_sinks ops env lg msg (lg_sinks lg) w"
  have m: "map (\<lambda>i. report (snd (op_flush ops (sink_state (sinks ?w i))))) (lg_sinks lg) =
      map (\<lambda>i. report (snd (op_flush ops (logged_state ops msg (sinks w i))))) (lg_sinks lg)"
    by (auto simp: log_sinks_state [OF assms])
  note l = log_sinks_reports [OF assms, of ops env lg msg w]
  show ?thesis
    using l flush_sinks_reports [OF assms, of ops env lg ?w] err_handlers_books [OF l]
    by (simp add: logger_sink_it_def logger_flush_def all_reports_def m Let_def del: map_eq_conv)
qed

text \<open>The lines that the default handler prints: it is silent for one second after each line.\<close>

fun shown_reports :: "log_env \<Rightarrow> string \<Rightarrow> nat \<Rightarrow> nat \<Rightarrow> int \<Rightarrow> string list \<Rightarrow> (nat \<times> string \<times> string \<times> string) list" where
  "shown_reports env nm reads count lst [] = []"
| "shown_reports env nm reads count lst (m # ms) =
     (let now = log_clock env reads in
      if now - lst < 10 ^ 9 then shown_reports env nm (Suc reads) (Suc count) lst ms
      else (Suc count, format_date env now, nm, m) # shown_reports env nm (Suc reads) (Suc count) now ms)"

lemma default_handler_reports:
  assumes "custom_err_handler lg = None"
  shows "err_counter (fold (err_handler env lg) ms w) = err_counter w + length ms"
    and "handler_calls (fold (err_handler env lg) ms w) = handler_calls w"
    and "stderr_lines (fold (err_handler env lg) ms w) =
      stderr_lines w @ shown_reports env (lg_name lg) (clock_reads w) (err_counter w) (last_report_time w) ms"
  using assms by (induction ms arbitrary: w) (simp_all add: err_handler_def read_clock_def Let_def)

lemma custom_handler_reports:
  assumes "custom_err_handler lg = Some h"
  shows "handler_calls (fold (err_handler env lg) ms w) = handler_calls w @ map (Pair h) ms"
    and "stderr_lines (fold (err_handler env lg) ms w) = stderr_lines w" and "err_counter (fold (err_handler env lg) ms w) = err_counter w"
  using assms by (induction ms arbitrary: w) (simp_all add: err_handler_def)

section \<open>Properties\<close>

text \<open>
  C37.  A message reaches every sink of the logger (its sinks being distinct) whose level admits it, whatever the sinks before it throw, and
  a message of at least the flush level is followed by a flush of every sink; no other sink is touched.  The errors are reported in
  the order of the calls: a custom error handler is called once for each; the default handler counts each of them, but prints a
  line only for those that come at least one second after the last line it printed.
\<close>

theorem message_reaches_all_sinks:
  assumes "distinct (lg_sinks lg)" and "w' = logger_sink_it ops env lg msg w" and "errors = all_reports ops lg msg (sinks w)"
  shows "(\<forall>i. sinks w' i =
      (if i \<in> set (lg_sinks lg) then (sinks w i)\<lparr>sink_state := flushed_state ops lg msg (logged_state ops msg (sinks w i))\<rparr> else sinks w i)) \<and>
    (case custom_err_handler lg of
       Some h \<Rightarrow> handler_calls w' = handler_calls w @ map (Pair h) errors \<and> stderr_lines w' = stderr_lines w \<and> err_counter w' = err_counter w
     | None \<Rightarrow> handler_calls w' = handler_calls w \<and> err_counter w' = err_counter w + length errors \<and>
         stderr_lines w' = stderr_lines w @ shown_reports env (lg_name lg) (clock_reads w) (err_counter w) (last_report_time w) errors)"
proof -
  have "books w' = books (fold (err_handler env lg) errors w)" using sink_it_reports [OF assms(1)] assms(2,3) by simp
  then have "handler_calls w' = handler_calls (fold (err_handler env lg) errors w)"
    "stderr_lines w' = stderr_lines (fold (err_handler env lg) errors w)" "err_counter w' = err_counter (fold (err_handler env lg) errors w)"
    by (simp_all add: books_def)
  moreover have "sinks w' i =
      (if i \<in> set (lg_sinks lg) then (sinks w i)\<lparr>sink_state := flushed_state ops lg msg (logged_state ops msg (sinks w i))\<rparr> else sinks w i)" for i
    unfolding assms(2) by (rule sink_it_state [OF assms(1)])
  ultimately show ?thesis
    using default_handler_reports [of lg env errors w] custom_handler_reports [of lg _ env errors w]
    by (cases "custom_err_handler lg") simp_all
qed

text \<open>A sink that keeps the texts it gets and one that always throws.\<close>

definition note_ops :: "(unit, string list + unit) sink_ops" where
  "note_ops = \<lparr>op_log = \<lambda>msg s. (case s of Inl texts \<Rightarrow> (Inl (texts @ [payload msg]), None) | Inr u \<Rightarrow> (s, Some (StdException ''no space''))),
     op_flush = \<lambda>s. (s, None), op_set_formatter = \<lambda>f s. s\<rparr>"

definition note_env :: log_env where
  "note_env = \<lparr>log_clock = \<lambda>n. 0, os_thread_id = 1, format_date = \<lambda>t. []\<rparr>"

definition note_world :: "(string list + unit) log_world" where
  "note_world = \<lparr>sinks = (\<lambda>i. new_sink (if i = 0 then Inr () else Inl [])), clock_reads = 0, err_counter = 0, last_report_time = 0,
     stderr_lines = [], handler_calls = [], undefined_behaviour = False\<rparr>"

definition note_logger :: spd_logger where
  "note_logger = logger_set_error_handler (Some 7) (spd_logger_ctor ''a'' [0, 1])"

definition note_msg :: log_msg where
  "note_msg = log_msg_ctor 0 1 no_source ''a'' level_err ''hello''"

theorem message_reaches_all_sinks_witness:
  "sink_state (sinks (logger_sink_it note_ops note_env note_logger note_msg note_world) 1) = Inl [''hello''] \<and>
   handler_calls (logger_sink_it note_ops note_env note_logger note_msg note_world) = [(7, ''no space'')]"
proof -
  have "distinct (lg_sinks note_logger)" "custom_err_handler note_logger = Some 7"
    by (simp_all add: note_logger_def logger_set_error_handler_def spd_logger_ctor_def)
  with message_reaches_all_sinks [OF this(1) refl refl, of note_ops note_env note_msg note_world] show ?thesis
    by (simp add: note_logger_def logger_set_error_handler_def spd_logger_ctor_def note_ops_def note_msg_def note_world_def new_sink_def
        flushed_state_def logged_state_def log_report_def all_reports_def sink_should_log_def should_flush_def log_msg_ctor_def less_eq_level_enum_def)
qed

text \<open>
  A backtrace of \<open>n\<close> messages: whatever was logged since it was enabled, at any level, dumping it hands to the sinks a start
  line, the last \<open>n\<close> messages in the order in which they were logged, and an end line, and leaves the backtrace
  empty and enabled.
\<close>

theorem backtrace_keeps_last:
  assumes "n + 1 < 2 ^ 64" and "log_calls ops env calls (logger_enable_backtrace n lg) w = (lg1, w1)"
  shows "\<exists>t. dump_backtrace ops env lg1 w1 = Inr (lg\<lparr>tracer := t\<rparr>,
      sink_marker ops env lg backtrace_end (fold (logger_sink_it ops env lg) (keep_last n (map (call_msg env lg) calls))
        (sink_marker ops env lg backtrace_start w1))) \<and> tracing n [] t"
proof -
  have "tracing n [] (tracer (logger_enable_backtrace n lg))" using tracing_enable [OF assms(1)] by (simp add: logger_enable_backtrace_def)
  from log_calls_traces [OF this assms(2)] obtain t where t: "lg1 = lg\<lparr>tracer := t\<rparr>" "tracing n (map (call_msg env lg) calls) t"
    by (auto simp: logger_enable_backtrace_def)
  let ?f = "logger_sink_it ops env lg" and ?w = "sink_marker ops env lg backtrace_start w1"
  have q: "q_ok (messages t)" "q_size (messages t) \<le> max_items (messages t)" "map as_log_msg (q_contents (messages t)) = keep_last n (map (call_msg env lg) calls)"
    using t(2) q_size_mod(2) [of "messages t"] by (auto simp: tracing_def)
  obtain q' where q': "pop_each (max_items (messages t)) ?f (messages t) ?w = Inr (q', fold ?f (map as_log_msg (q_contents (messages t))) ?w)"
    "q_contents q' = []" "q_ok q'" "max_items q' = max_items (messages t)"
    using pop_each_contents [OF q(1,2), of ?f ?w] by blast
  have "tracing n [] (t\<lparr>messages := q'\<rparr>)" using q' t(2) by (simp add: tracing_def q_capacity_def keep_last_def)
  moreover have "foreach_pop ?f t ?w = Inr (t\<lparr>messages := q'\<rparr>, fold ?f (keep_last n (map (call_msg env lg) calls)) ?w)"
    using q'(1) q(3) by (simp add: foreach_pop_def)
  moreover have "tracer_enabled t" using t(2) by (simp add: tracing_def)
  ultimately show ?thesis using t(1) by (auto simp: dump_backtrace_def sink_it_tracer sink_marker_tracer)
qed

theorem backtrace_keeps_last_witness:
  "\<exists>t. dump_backtrace note_ops note_env (fst (log_calls note_ops note_env [(1, no_source, level_trace, ''a''), (2, no_source, level_trace, ''b'')]
      (logger_enable_backtrace 1 note_logger) note_world)) note_world =
    Inr (note_logger\<lparr>tracer := t\<rparr>, sink_marker note_ops note_env note_logger backtrace_end
      (logger_sink_it note_ops note_env note_logger (log_msg_ctor 2 1 no_source ''a'' level_trace ''b'')
        (sink_marker note_ops note_env note_logger backtrace_start note_world)))"
proof -
  let ?calls = "[(1, no_source, level_trace, ''a''), (2, no_source, level_trace, ''b'')]" and ?lg = "logger_enable_backtrace 1 note_logger"
  have w: "log_calls note_ops note_env ?calls ?lg note_world = (fst (log_calls note_ops note_env ?calls ?lg note_world), note_world)"
    by (simp add: log_at_def log_it_def should_log_def note_logger_def logger_enable_backtrace_def logger_set_error_handler_def
        spd_logger_ctor_def less_eq_level_enum_def Let_def)
  show ?thesis using backtrace_keeps_last [OF _ w]
    by (auto simp: keep_last_def call_msg_def note_env_def note_logger_def logger_set_error_handler_def spd_logger_ctor_def)
qed

end
