(* ===== verification/Fmt_Helper.thy ===== *)
theory Fmt_Helper
  imports Log_Msg
begin

text \<open>
  Models of \<^verbatim>\<open>spdlog/details/fmt_helper.h\<close>, which appends numbers and strings to a line, and of the padder of
  \<^verbatim>\<open>pattern_formatter-inl.h\<close>, which surrounds a field by spaces or cuts it.  Decimal printing, which the code delegates to
  \<^verbatim>\<open>fmt::format_int\<close>, is \<open>to_string_int\<close>.
\<close>

section \<open>fmt_helper\<close>

definition append_string_view :: "string \<Rightarrow> string \<Rightarrow> string" where
  "append_string_view view dest = dest @ view"

definition append_int :: "int \<Rightarrow> string \<Rightarrow> string" where
  "append_int n dest = dest @ to_string_int n"

text \<open>The digits of a number converted to an unsigned type of the given number of bits.\<close>

definition count_digits :: "nat \<Rightarrow> int \<Rightarrow> nat" where
  "count_digits bits n = length (to_string_nat (nat (n mod 2 ^ bits)))"

definition digit_char :: "int \<Rightarrow> char" where
  "digit_char d = char_of (48 + nat d)"

definition pad2 :: "int \<Rightarrow> string \<Rightarrow> string" where
  "pad2 n dest = (if 0 \<le> n \<and> n < 100 then dest @ [digit_char (n div 10), digit_char (n mod 10)] else append_int n dest)"

definition pad_uint :: "nat \<Rightarrow> nat \<Rightarrow> string \<Rightarrow> string" where
  "pad_uint n width dest = append_int (int n) (dest @ replicate (width - count_digits 64 (int n)) (CHR ''0''))"

definition pad3 :: "nat \<Rightarrow> string \<Rightarrow> string" where
  "pad3 n dest =
     (if n < 1000
      then dest @ [digit_char (int (n div 100)), digit_char (int (n mod 100 div 10)), digit_char (int (n mod 100 mod 10))]
      else append_int (int n) dest)"

definition pad6 :: "nat \<Rightarrow> string \<Rightarrow> string" where
  "pad6 n dest = pad_uint n 6 dest"

definition pad9 :: "nat \<Rightarrow> string \<Rightarrow> string" where
  "pad9 n dest = pad_uint n 9 dest"

text \<open>Division of durations, which rounds towards zero.\<close>

definition trunc_div :: "int \<Rightarrow> int \<Rightarrow> int" where
  "trunc_div a b = (if a < 0 then - ((- a) div b) else a div b)"

definition seconds_of :: "int \<Rightarrow> int" where
  "seconds_of t = trunc_div t (10 ^ 9)"

text \<open>The part of a time point below the second, in units of \<open>unit_ns\<close> nanoseconds.\<close>

definition time_fraction :: "int \<Rightarrow> int \<Rightarrow> int" where
  "time_fraction unit_ns tp = trunc_div tp unit_ns - seconds_of tp * (10 ^ 9 div unit_ns)"

section \<open>Padding\<close>

datatype pad_side = left_side | right_side | center_side

record padding_info =
  pad_width :: nat
  side :: pad_side
  trunc_field :: bool
  enabled :: bool

definition no_padding :: padding_info where
  "no_padding = \<lparr>pad_width = 0, side = left_side, trunc_field = False, enabled = False\<rparr>"

definition padding_info_ctor :: "nat \<Rightarrow> pad_side \<Rightarrow> bool \<Rightarrow> padding_info" where
  "padding_info_ctor w sd trunc = \<lparr>pad_width = w, side = sd, trunc_field = trunc, enabled = True\<rparr>"

text \<open>\<^verbatim>\<open>spaces_\<close> has 64 characters.\<close>

definition pad_it :: "int \<Rightarrow> string \<Rightarrow> string result" where
  "pad_it count dest = (if count \<le> 64 then Inr (append_string_view (replicate (nat count) (CHR '' '')) dest) else Inl OutOfBounds)"

text \<open>The constructor of \<^verbatim>\<open>scoped_padder\<close>: the line and what remains to be padded.\<close>

definition padder_open :: "nat \<Rightarrow> padding_info \<Rightarrow> string \<Rightarrow> (string \<times> int) result" where
  "padder_open wrapped_size p dest =
     (let remaining_pad = int (pad_width p) - int wrapped_size in
      if remaining_pad \<le> 0 then Inr (dest, remaining_pad)
      else case side p of
             left_side \<Rightarrow> rbind (pad_it remaining_pad dest) (\<lambda>dest. Inr (dest, 0))
           | center_side \<Rightarrow>
               let half_pad = remaining_pad div 2; reminder = remaining_pad mod 2
               in rbind (pad_it half_pad dest) (\<lambda>dest. Inr (dest, half_pad + reminder))
           | right_side \<Rightarrow> Inr (dest, remaining_pad))"

text \<open>
  Its destructor.  A negative size, converted to \<^verbatim>\<open>size_t\<close>, is more than can be allocated; the exception of
  \<^verbatim>\<open>resize\<close> would leave the destructor, which is \<^verbatim>\<open>noexcept\<close>, so that \<^verbatim>\<open>std::terminate\<close> is called.
\<close>

definition padder_close :: "padding_info \<Rightarrow> int \<Rightarrow> string \<Rightarrow> string result" where
  "padder_close p remaining_pad dest =
     (if 0 \<le> remaining_pad then pad_it remaining_pad dest
      else if trunc_field p then
        let new_size = int (length dest) + remaining_pad
        in if new_size < 0 then Inl (Terminated ''~scoped_padder'') else Inr (take (nat new_size) dest)
      else Inr dest)"

text \<open>A field between constructor and destructor; the null padder does nothing.\<close>

definition with_padder :: "nat \<Rightarrow> padding_info \<Rightarrow> (string \<Rightarrow> string) \<Rightarrow> string \<Rightarrow> string result" where
  "with_padder wrapped_size p body dest =
     (if enabled p
      then rbind (padder_open wrapped_size p dest) (\<lambda>(dest, remaining_pad). padder_close p remaining_pad (body dest))
      else Inr (body dest))"

section \<open>What padding does\<close>

definition pad_text :: "padding_info \<Rightarrow> string \<Rightarrow> string" where
  "pad_text p txt =
     (if \<not> enabled p then txt
      else if length txt \<le> pad_width p then
        let gap = pad_width p - length txt in
        (case side p of
           left_side \<Rightarrow> replicate gap (CHR '' '') @ txt
         | right_side \<Rightarrow> txt @ replicate gap (CHR '' '')
         | center_side \<Rightarrow> replicate (gap div 2) (CHR '' '') @ txt @ replicate (gap - gap div 2) (CHR '' ''))
      else if trunc_field p then take (pad_width p) txt else txt)"

definition padding_ok :: "padding_info \<Rightarrow> bool" where
  "padding_ok p \<longleftrightarrow> pad_width p \<le> 64"

lemma with_padder_text:
  assumes "padding_ok p"
  shows "with_padder (length txt) p (append_string_view txt) dest = Inr (dest @ pad_text p txt)"
proof (cases "enabled p \<and> length txt < pad_width p")
  case True
  then obtain g where g: "pad_width p = length txt + g" "0 < g" by (metis less_imp_add_positive)
  then have "g \<le> 64" using assms by (simp add: padding_ok_def)
  then have "int g div 2 \<le> 64" "int g \<le> 64" by linarith+
  moreover have "nat (int g div 2) = g div 2" by linarith
  moreover have "int g div 2 + int g mod 2 = int g - int (g div 2)" by presburger
  moreover have "nat (int g - int (g div 2)) = g - g div 2" by linarith
  ultimately show ?thesis using True g
    by (cases "side p") (auto simp: with_padder_def padder_open_def padder_close_def pad_it_def pad_text_def append_string_view_def Let_def)
next
  case False
  then show ?thesis using assms
    by (cases "side p"; auto simp: with_padder_def padder_open_def padder_close_def pad_it_def pad_text_def append_string_view_def Let_def
        nat_add_distrib)
qed

lemma length_pad_text:
  "enabled p \<Longrightarrow> length (pad_text p txt) = (if trunc_field p then pad_width p else max (pad_width p) (length txt))"
  by (cases "side p") (auto simp: pad_text_def Let_def)

end
