(* ===== verification/Rotating_Sink.thy ===== *)
theory Rotating_Sink
  imports Ham_Prelude "HOL-Library.Sublist"
begin

text \<open>
  Model of \<^verbatim>\<open>spdlog/details/file_helper-inl.h\<close> and \<^verbatim>\<open>spdlog/sinks/rotating_file_sink-inl.h\<close>, the sink to which the
  logger of the library writes.  The file system is a map from names to contents; directories are left
  out.  Whether the \<open>n\<close>-th system call succeeds is a parameter.  An open stream holds the bytes that stdio has accepted and not yet
  written; how many bytes it writes out on its own is a parameter, and the errors of \<^verbatim>\<open>fclose\<close> and \<^verbatim>\<open>fstat\<close>, which the code
  does not handle or cannot see, are left out.  An operation that may throw returns the state it leaves
  together with the exception, since the logger catches it and goes on.
\<close>

datatype spdlog_ex =
    FailedOpening string
  | NotOpenedBefore
  | FailedWriting string
  | SizeOfClosed string
  | FailedRenaming string string
  | WriteToNull

type_synonym 's attempt = "'s \<times> spdlog_ex option"

definition andThen :: "'s attempt \<Rightarrow> ('s \<Rightarrow> 's attempt) \<Rightarrow> 's attempt" where
  "andThen m f = (case m of (s, None) \<Rightarrow> f s | (s, Some e) \<Rightarrow> (s, Some e))"

record os_env =
  fopen_ok :: "nat \<Rightarrow> bool"
  rename_ok :: "nat \<Rightarrow> bool"
  remove_ok :: "nat \<Rightarrow> bool"
  fwrite_count :: "nat \<Rightarrow> nat \<Rightarrow> nat"
  spill :: "string \<Rightarrow> nat"

section \<open>file_helper\<close>

record file_helper =
  disk :: "string \<Rightarrow> string option"
  os_calls :: nat
  fh_filename :: string
  fd :: "string option"

definition tick :: "'z file_helper_scheme \<Rightarrow> 'z file_helper_scheme" where
  "tick s = s\<lparr>os_calls := Suc (os_calls s)\<rparr>"

text \<open>What a file holds after bytes have been added to it.\<close>

definition append_file :: "string \<Rightarrow> string \<Rightarrow> (string \<Rightarrow> string option) \<Rightarrow> string \<Rightarrow> string option" where
  "append_file f data d = d(f \<mapsto> (case d f of None \<Rightarrow> [] | Some c \<Rightarrow> c) @ data)"

text \<open>\<^verbatim>\<open>fopen\<close> for appending, or for writing from the start.\<close>

definition fopen_s :: "os_env \<Rightarrow> bool \<Rightarrow> string \<Rightarrow> 'z file_helper_scheme \<Rightarrow> bool \<times> 'z file_helper_scheme" where
  "fopen_s env trunc f s =
     (if fopen_ok env (os_calls s)
      then (False, tick (s\<lparr>disk := if trunc then (disk s)(f \<mapsto> []) else append_file f [] (disk s)\<rparr>))
      else (True, tick s))"

definition path_exists :: "string \<Rightarrow> 'z file_helper_scheme \<Rightarrow> bool" where
  "path_exists f s \<longleftrightarrow> disk s f \<noteq> None"

definition os_remove :: "os_env \<Rightarrow> string \<Rightarrow> 'z file_helper_scheme \<Rightarrow> 'z file_helper_scheme" where
  "os_remove env f s = tick (if remove_ok env (os_calls s) then s\<lparr>disk := (disk s)(f := None)\<rparr> else s)"

definition os_rename :: "os_env \<Rightarrow> string \<Rightarrow> string \<Rightarrow> 'z file_helper_scheme \<Rightarrow> bool \<times> 'z file_helper_scheme" where
  "os_rename env src target s =
     (if rename_ok env (os_calls s) \<and> path_exists src s
      then (True, tick (s\<lparr>disk := (disk s)(target := disk s src, src := None)\<rparr>)) else (False, tick s))"

definition fh_close :: "'z file_helper_scheme \<Rightarrow> 'z file_helper_scheme" where
  "fh_close s = (case fd s of None \<Rightarrow> s
     | Some pending \<Rightarrow> s\<lparr>disk := append_file (fh_filename s) pending (disk s), fd := None\<rparr>)"

definition open_tries :: nat where "open_tries = 5"

text \<open>The loop of \<^verbatim>\<open>open\<close>, with the tries that are left.\<close>

fun open_loop :: "os_env \<Rightarrow> string \<Rightarrow> bool \<Rightarrow> nat \<Rightarrow> 'z file_helper_scheme \<Rightarrow> 'z file_helper_scheme attempt" where
  "open_loop env f trunc 0 s = (s, Some (FailedOpening f))"
| "open_loop env f trunc (Suc tries) s =
     (let (failed, s1) = (if trunc then fopen_s env True f s else (False, s)) in
      if failed then open_loop env f trunc tries s1
      else let (failed, s2) = fopen_s env False f s1 in
           if \<not> failed then (s2\<lparr>fd := Some []\<rparr>, None)
           else open_loop env f trunc tries (s2\<lparr>fd := None\<rparr>))"

definition fh_open :: "os_env \<Rightarrow> string \<Rightarrow> bool \<Rightarrow> 'z file_helper_scheme \<Rightarrow> 'z file_helper_scheme attempt" where
  "fh_open env fname trunc s = open_loop env fname trunc open_tries ((fh_close s)\<lparr>fh_filename := fname\<rparr>)"

definition fh_reopen :: "os_env \<Rightarrow> bool \<Rightarrow> 'z file_helper_scheme \<Rightarrow> 'z file_helper_scheme attempt" where
  "fh_reopen env trunc s =
     (if fh_filename s = [] then (s, Some NotOpenedBefore) else fh_open env (fh_filename s) trunc s)"

text \<open>The first \<open>n\<close> pending bytes are written out.\<close>

definition write_out :: "nat \<Rightarrow> 'z file_helper_scheme \<Rightarrow> 'z file_helper_scheme" where
  "write_out n s = (case fd s of None \<Rightarrow> s
     | Some pending \<Rightarrow> s\<lparr>disk := append_file (fh_filename s) (take n pending) (disk s), fd := Some (drop n pending)\<rparr>)"

definition fh_flush :: "'z file_helper_scheme \<Rightarrow> 'z file_helper_scheme" where
  "fh_flush s = (case fd s of None \<Rightarrow> s | Some pending \<Rightarrow> write_out (length pending) s)"

text \<open>After a failed \<open>open\<close> the stream is null, and writing to it is undefined.\<close>

definition fh_write :: "os_env \<Rightarrow> string \<Rightarrow> 'z file_helper_scheme \<Rightarrow> 'z file_helper_scheme attempt" where
  "fh_write env data s =
     (case fd s of
        None \<Rightarrow> (s, Some WriteToNull)
      | Some old \<Rightarrow>
          let msg_size = length data;
              n = min msg_size (fwrite_count env (os_calls s) msg_size);
              pending = old @ take n data;
              s1 = write_out (spill env pending) (tick (s\<lparr>fd := Some pending\<rparr>))
          in if n \<noteq> msg_size then (s1, Some (FailedWriting (fh_filename s))) else (s1, None))"

definition fh_size :: "'z file_helper_scheme \<Rightarrow> spdlog_ex + size_t" where
  "fh_size s = (if fd s = None then Inl (SizeOfClosed (fh_filename s))
     else Inr (word_of_nat (length (case disk s (fh_filename s) of None \<Rightarrow> [] | Some c \<Rightarrow> c))))"

text \<open>The index of the last occurrence, as \<^verbatim>\<open>rfind\<close> and \<^verbatim>\<open>find_last_of\<close> give it.\<close>

fun rfind :: "char \<Rightarrow> string \<Rightarrow> nat option" where
  "rfind c [] = None"
| "rfind c (x # xs) = (case rfind c xs of Some i \<Rightarrow> Some (Suc i) | None \<Rightarrow> if x = c then Some 0 else None)"

definition split_by_extension :: "string \<Rightarrow> string \<times> string" where
  "split_by_extension fname =
     (case rfind CHR ''.'' fname of
        None \<Rightarrow> (fname, [])
      | Some ext_index \<Rightarrow>
          if ext_index = 0 \<or> ext_index = length fname - 1 then (fname, [])
          else case rfind CHR ''/'' fname of
            Some folder_index \<Rightarrow>
              if ext_index - 1 \<le> folder_index then (fname, []) else (take ext_index fname, drop ext_index fname)
          | None \<Rightarrow> (take ext_index fname, drop ext_index fname))"

section \<open>rotating_file_sink\<close>

record rotating_sink = file_helper +
  base_filename :: string
  max_size :: size_t
  max_files :: nat
  current_size :: size_t

definition calc_filename :: "string \<Rightarrow> nat \<Rightarrow> string" where
  "calc_filename fname index =
     (if index = 0 then fname
      else let (basename, ext) = split_by_extension fname in basename @ ''.'' @ to_string_nat index @ ext)"

definition rename_file :: "os_env \<Rightarrow> string \<Rightarrow> string \<Rightarrow> 'z file_helper_scheme \<Rightarrow> bool \<times> 'z file_helper_scheme" where
  "rename_file env src target s = os_rename env src target (os_remove env target s)"

text \<open>The loop of \<^verbatim>\<open>rotate_\<close>, with \<open>i\<close> files to move, and what follows it.\<close>

fun rotate_loop :: "os_env \<Rightarrow> nat \<Rightarrow> rotating_sink \<Rightarrow> rotating_sink attempt" where
  "rotate_loop env 0 s = fh_reopen env True s"
| "rotate_loop env (Suc i) s =
     (let src = calc_filename (base_filename s) i in
      if \<not> path_exists src s then rotate_loop env i s
      else let target = calc_filename (base_filename s) (Suc i); (renamed, s1) = rename_file env src target s in
           if renamed then rotate_loop env i s1
           else let (renamed, s2) = rename_file env src target s1 in
                if renamed then rotate_loop env i s2
                else andThen (fh_reopen env True s2)
                       (\<lambda>s3. (s3\<lparr>current_size := 0\<rparr>, Some (FailedRenaming src target))))"

definition rotate :: "os_env \<Rightarrow> rotating_sink \<Rightarrow> rotating_sink attempt" where
  "rotate env s = rotate_loop env (max_files s) (fh_close s)"

text \<open>\<open>formatted\<close> is the text that the formatter of the sink gives for the message.\<close>

definition sink_it :: "os_env \<Rightarrow> string \<Rightarrow> rotating_sink \<Rightarrow> rotating_sink attempt" where
  "sink_it env formatted s =
     (let s1 = s\<lparr>current_size := current_size s + word_of_nat (length formatted)\<rparr> in
      andThen
        (if max_size s1 < current_size s1
         then andThen (rotate env s1) (\<lambda>s2. (s2\<lparr>current_size := word_of_nat (length formatted)\<rparr>, None))
         else (s1, None))
        (fh_write env formatted))"

definition sink_flush :: "rotating_sink \<Rightarrow> rotating_sink" where
  "sink_flush s = fh_flush s"

definition sink_filename :: "rotating_sink \<Rightarrow> string" where
  "sink_filename s = fh_filename s"

text \<open>The constructor; \<open>d\<close> and \<open>n\<close> are the files and the number of system calls before it.\<close>

definition rotating_file_sink_ctor ::
  "os_env \<Rightarrow> (string \<Rightarrow> string option) \<Rightarrow> nat \<Rightarrow> string \<Rightarrow> size_t \<Rightarrow> nat \<Rightarrow> bool \<Rightarrow> rotating_sink attempt" where
  "rotating_file_sink_ctor env d n base msize files rotate_on_open =
     (let s = \<lparr>disk = d, os_calls = n, fh_filename = [], fd = None, base_filename = base, max_size = msize, max_files = files,
               current_size = 0\<rparr>
      in andThen (fh_open env (calc_filename base 0) False s) (\<lambda>s1.
         case fh_size s1 of
           Inl e \<Rightarrow> (s1, Some e)
         | Inr sz \<Rightarrow> let s2 = s1\<lparr>current_size := sz\<rparr> in
                     if rotate_on_open \<and> 0 < sz then rotate env s2 else (s2, None)))"

section \<open>File names\<close>

lemma rfind_None: "rfind c xs = None \<longleftrightarrow> c \<notin> set xs"
  by (induction xs) (auto split: option.splits)

lemma rfind_append: "rfind c (xs @ ys) = (case rfind c ys of Some i \<Rightarrow> Some (length xs + i) | None \<Rightarrow> rfind c xs)"
  by (induction xs) (auto split: option.splits)

lemma rfind_last:
  assumes "rfind c xs = Some i"
  obtains ys zs where "xs = ys @ c # zs" "length ys = i" "c \<notin> set zs"
proof -
  have "c \<in> set xs" using assms rfind_None [of c xs] by fastforce
  then obtain ys zs where s: "xs = ys @ c # zs" "c \<notin> set zs" by (blast dest: split_list_last)
  moreover from s assms have "length ys = i" using rfind_None [of c zs] by (simp add: rfind_append)
  ultimately show thesis using that by blast
qed

text \<open>A name with an extension in the sense of the code.\<close>

definition has_extension :: "string \<Rightarrow> string \<Rightarrow> bool" where
  "has_extension b x \<longleftrightarrow> b \<noteq> [] \<and> last b \<noteq> CHR ''/'' \<and> x \<noteq> [] \<and> CHR ''.'' \<notin> set x \<and> CHR ''/'' \<notin> set x"

lemma split_extension:
  assumes "has_extension b x"
  shows "split_by_extension (b @ CHR ''.'' # x) = (b, CHR ''.'' # x)"
proof -
  have n: "rfind CHR ''.'' x = None" "rfind CHR ''/'' x = None" using assms by (auto simp: has_extension_def rfind_None)
  have "folder < length b - 1" if r: "rfind CHR ''/'' b = Some folder" for folder
  proof -
    obtain ys zs where b: "b = ys @ CHR ''/'' # zs" "length ys = folder" using rfind_last [OF r] by metis
    then have "zs \<noteq> []" using assms by (auto simp: has_extension_def)
    with b show ?thesis by (simp add: Suc_le_eq)
  qed
  then show ?thesis using assms n
    by (auto simp: split_by_extension_def rfind_append has_extension_def split: option.splits)
qed

lemma split_no_extension:
  assumes "\<And>b x. fname = b @ CHR ''.'' # x \<Longrightarrow> \<not> has_extension b x"
  shows "split_by_extension fname = (fname, [])"
proof (cases "rfind CHR ''.'' fname")
  case None
  then show ?thesis by (simp add: split_by_extension_def)
next
  case (Some i)
  then obtain b x where f: "fname = b @ CHR ''.'' # x" "length b = i" "CHR ''.'' \<notin> set x" by (rule rfind_last)
  then consider "b = []" | "x = []" | "b \<noteq> []" "last b = CHR ''/''" | "CHR ''/'' \<in> set x"
    using assms [OF f(1)] unfolding has_extension_def by blast
  then show ?thesis
  proof cases
    case 3
    then obtain c where b: "b = c @ ''/''" by (metis append_butlast_last_id)
    then show ?thesis using Some f
      by (cases "rfind CHR ''/'' x") (auto simp: split_by_extension_def rfind_append)
  next
    case 4
    then obtain k where "rfind CHR ''/'' x = Some k" using rfind_None [of "CHR ''/''" x] by blast
    then show ?thesis using Some f by (auto simp: split_by_extension_def rfind_append)
  qed (use Some f in \<open>auto simp: split_by_extension_def\<close>)
qed

lemma split_by_extension_append: "fst (split_by_extension f) @ snd (split_by_extension f) = f"
  by (auto simp: split_by_extension_def split: option.splits)

lemma calc_filename_inj: "calc_filename f i = calc_filename f j \<longleftrightarrow> i = j"
proof
  assume eq: "calc_filename f i = calc_filename f j"
  obtain b e where be: "split_by_extension f = (b, e)" by force
  then have f: "f = b @ e" using split_by_extension_append [of f] by simp
  show "i = j"
    using eq be by (auto simp: calc_filename_def f split: if_splits dest: to_string_nat_inj)
qed simp


section \<open>Rotation\<close>

text \<open>A system that opens and writes what it is asked to, and renames a file at the latest when asked a second time.\<close>

definition reliable :: "os_env \<Rightarrow> bool" where
  "reliable env \<longleftrightarrow> (\<forall>n. fopen_ok env n \<and> (rename_ok env n \<or> rename_ok env (n + 2)) \<and> (\<forall>len. len \<le> fwrite_count env n len))"

lemma reliableD:
  assumes "reliable env"
  shows "fopen_ok env n" "\<not> rename_ok env n \<Longrightarrow> rename_ok env (n + 2)" "min len (fwrite_count env n len) = len"
  using assms by (auto simp: reliable_def min_def)

lemma append_file_simps [simp]: "append_file f data d f = Some ((case d f of None \<Rightarrow> [] | Some c \<Rightarrow> c) @ data)"
  "g \<noteq> f \<Longrightarrow> append_file f data d g = d g"
  by (simp_all add: append_file_def)

lemma open_reliable:
  assumes "\<And>n. fopen_ok env n" and "fd s = None"
  shows "\<exists>n. fh_open env f trunc s = (s\<lparr>disk := (if trunc then (disk s)(f \<mapsto> []) else append_file f [] (disk s)), os_calls := n,
    fh_filename := f, fd := Some []\<rparr>, None)"
  using assms
  by (cases s, intro exI [of _ "os_calls s + (if trunc then 2 else 1)"])
    (auto simp: fh_open_def open_tries_def numeral_eq_Suc fopen_s_def tick_def fh_close_def append_file_def Let_def)

lemma rename_file_cases:
  assumes "src \<noteq> target" and "path_exists src s"
  shows "rename_ok env (Suc (os_calls s)) \<Longrightarrow> rename_file env src target s =
      (True, s\<lparr>disk := (disk s)(target := disk s src, src := None), os_calls := os_calls s + 2\<rparr>)"
    "\<not> rename_ok env (Suc (os_calls s)) \<Longrightarrow> \<exists>d. rename_file env src target s = (False, s\<lparr>disk := d, os_calls := os_calls s + 2\<rparr>) \<and>
      d = (if remove_ok env (os_calls s) then (disk s)(target := None) else disk s)"
  using assms by (cases s; auto simp: rename_file_def os_rename_def os_remove_def path_exists_def tick_def fun_upd_def cong: if_cong)+

lemma rotate_step:
  assumes rel: "reliable env" and ex: "path_exists (calc_filename (base_filename s) i) s"
  shows "\<exists>n. rotate_loop env (Suc i) s = rotate_loop env i (s\<lparr>disk := (disk s)(calc_filename (base_filename s) (Suc i) :=
    disk s (calc_filename (base_filename s) i), calc_filename (base_filename s) i := None), os_calls := n\<rparr>)"
proof (cases "rename_ok env (Suc (os_calls s))")
  case True
  then show ?thesis
    using rename_file_cases(1) [OF _ ex, of "calc_filename (base_filename s) (Suc i)" env] ex
    by (auto simp: calc_filename_inj Let_def)
next
  case False
  let ?src = "calc_filename (base_filename s) i" and ?target = "calc_filename (base_filename s) (Suc i)"
  have ne: "?src \<noteq> ?target" by (simp add: calc_filename_inj)
  obtain d where d: "rename_file env ?src ?target s = (False, s\<lparr>disk := d, os_calls := os_calls s + 2\<rparr>)"
    "d = disk s \<or> d = (disk s)(?target := None)"
    using rename_file_cases(2) [OF ne ex False] by metis
  let ?s = "s\<lparr>disk := d, os_calls := os_calls s + 2\<rparr>"
  have ex': "path_exists ?src ?s" using ex d(2) ne by (auto simp: path_exists_def)
  have "rename_ok env (Suc (os_calls ?s))" using reliableD(2) [OF rel False] by simp
  then have "rename_file env ?src ?target ?s = (True, ?s\<lparr>disk := d(?target := d ?src, ?src := None), os_calls := os_calls ?s + 2\<rparr>)"
    using rename_file_cases(1) [OF ne ex'] by simp
  moreover have "d(?target := d ?src, ?src := None) = (disk s)(?target := disk s ?src, ?src := None)"
    using d(2) ne by auto
  ultimately show ?thesis using d(1) ex by (auto simp: Let_def)
qed

text \<open>What the loop does to the numbered files before the current one is opened anew.\<close>

definition rotated :: "nat \<Rightarrow> (nat \<Rightarrow> 'a option) \<Rightarrow> nat \<Rightarrow> 'a option" where
  "rotated k c j = (if j = 0 \<or> k < j then c j else if c (j - 1) \<noteq> None then c (j - 1) else if j < k then None else c j)"

lemma rotated_absent: "c k = None \<Longrightarrow> rotated (Suc k) c j = rotated k c j"
  by (cases "j = Suc k") (auto simp: rotated_def less_Suc_eq not_less)

lemma rotated_present: "c k \<noteq> None \<Longrightarrow> j \<noteq> 0 \<Longrightarrow> rotated k (c(Suc k := c k, k := None)) j = rotated (Suc k) c j"
  by (auto simp: rotated_def less_Suc_eq not_less)

definition numbered :: "rotating_sink \<Rightarrow> nat \<Rightarrow> string option" where
  "numbered s j = disk s (calc_filename (base_filename s) j)"

lemma rotate_loop_spec:
  assumes rel: "reliable env" and "fd s = None" and "fh_filename s = base_filename s" and "base_filename s \<noteq> []"
  shows "\<exists>d n. rotate_loop env k s = (s\<lparr>disk := d, os_calls := n, fd := Some []\<rparr>, None) \<and>
    (\<forall>j. d (calc_filename (base_filename s) j) = (if j = 0 then Some [] else rotated k (numbered s) j)) \<and>
    (\<forall>f. (\<forall>j. f \<noteq> calc_filename (base_filename s) j) \<longrightarrow> d f = disk s f)"
  using assms(2-4)
proof (induction k arbitrary: s)
  case 0
  have base: "calc_filename (base_filename s) 0 = base_filename s" by (simp add: calc_filename_def)
  obtain n where "fh_open env (fh_filename s) True s =
      (s\<lparr>disk := (disk s)(fh_filename s \<mapsto> []), os_calls := n, fh_filename := fh_filename s, fd := Some []\<rparr>, None)"
    using open_reliable [of env s "fh_filename s" True] reliableD(1) [OF rel] 0(1) by auto
  then have "rotate_loop env 0 s = (s\<lparr>disk := (disk s)(base_filename s \<mapsto> []), os_calls := n, fd := Some []\<rparr>, None)"
    using 0 by (cases s) (simp add: fh_reopen_def)
  moreover have "((disk s)(base_filename s \<mapsto> [])) (calc_filename (base_filename s) j) =
      (if j = 0 then Some [] else rotated 0 (numbered s) j)" for j
    using base calc_filename_inj [of "base_filename s" j 0] by (simp add: rotated_def numbered_def)
  moreover have "((disk s)(base_filename s \<mapsto> [])) f = disk s f" if "\<forall>j. f \<noteq> calc_filename (base_filename s) j" for f
    using that [THEN spec, of 0] base by simp
  ultimately show ?case by blast
next
  case (Suc k)
  let ?c = "calc_filename (base_filename s)"
  show ?case
  proof (cases "numbered s k")
    case None
    then have "rotate_loop env (Suc k) s = rotate_loop env k s" by (simp add: path_exists_def numbered_def)
    moreover have "rotated (Suc k) (numbered s) = rotated k (numbered s)" using None by (simp add: fun_eq_iff rotated_absent)
    ultimately show ?thesis using Suc.IH [OF Suc.prems] by (simp only:)
  next
    case (Some content)
    let ?d1 = "(disk s)(?c (Suc k) := disk s (?c k), ?c k := None)"
    obtain m where m: "rotate_loop env (Suc k) s = rotate_loop env k (s\<lparr>disk := ?d1, os_calls := m\<rparr>)"
      using rotate_step [OF rel, of s k] Some by (auto simp: path_exists_def numbered_def)
    let ?s = "s\<lparr>disk := ?d1, os_calls := m\<rparr>"
    have num: "numbered ?s = (numbered s)(Suc k := numbered s k, k := None)"
      by (rule ext) (simp add: numbered_def calc_filename_inj)
    from Suc.IH [of ?s] Suc.prems obtain d n where
      d: "rotate_loop env k ?s = (s\<lparr>disk := d, os_calls := n, fd := Some []\<rparr>, None)"
      "\<forall>j. d (?c j) = (if j = 0 then Some [] else rotated k (numbered ?s) j)"
      "\<forall>f. (\<forall>j. f \<noteq> ?c j) \<longrightarrow> d f = ?d1 f" by auto
    have "d (?c j) = (if j = 0 then Some [] else rotated (Suc k) (numbered s) j)" for j
      using d(2) Some rotated_present [of "numbered s" k j] by (simp add: num)
    moreover have "d f = disk s f" if "\<forall>j. f \<noteq> ?c j" for f using d(3) that by simp
    ultimately show ?thesis unfolding m d(1) by blast
  qed
qed

section \<open>The log across its files\<close>

text \<open>The text of the \<open>j\<close>-th file, with what stdio still holds back of the current one.\<close>

definition log_text :: "rotating_sink \<Rightarrow> nat \<Rightarrow> string option" where
  "log_text s j = (if j = 0 then map_option (\<lambda>c. c @ (case fd s of None \<Rightarrow> [] | Some p \<Rightarrow> p)) (numbered s 0) else numbered s j)"

text \<open>
  The specification: the messages in each file, the current file first.  A message that does not fit
  starts a new file, and files beyond the last one are dropped.
\<close>

definition rot_push :: "nat \<Rightarrow> nat \<Rightarrow> string \<Rightarrow> string list list \<Rightarrow> string list list" where
  "rot_push limit n m segs =
     (if limit < length (concat (hd segs)) + length m then take (Suc n) ([m] # segs) else (hd segs @ [m]) # tl segs)"

definition holds :: "string list list \<Rightarrow> rotating_sink \<Rightarrow> bool" where
  "holds segs s \<longleftrightarrow> segs \<noteq> [] \<and> length segs \<le> Suc (max_files s) \<and> base_filename s \<noteq> [] \<and> fh_filename s = base_filename s \<and>
     fd s \<noteq> None \<and> (\<forall>j \<le> max_files s. log_text s j = (if j < length segs then Some (concat (segs ! j)) else None)) \<and>
     current_size s = word_of_nat (length (concat (hd segs)))"

fun log_all :: "os_env \<Rightarrow> string list \<Rightarrow> rotating_sink \<Rightarrow> rotating_sink attempt" where
  "log_all env [] s = (s, None)"
| "log_all env (m # ms) s = andThen (sink_it env m s) (log_all env ms)"

lemma andThen_simps [simp]: "andThen (s, None) f = f s" "andThen (s, Some e) f = (s, Some e)"
  by (simp_all add: andThen_def)

lemma numbered_simps [simp]: "calc_filename f 0 = f" "numbered (s\<lparr>os_calls := n\<rparr>) = numbered s" "numbered (s\<lparr>fd := p\<rparr>) = numbered s"
  "numbered (s\<lparr>current_size := z\<rparr>) = numbered s" "numbered (s\<lparr>fh_filename := f\<rparr>) = numbered s"
  by (simp_all add: numbered_def fun_eq_iff calc_filename_def)

lemma numbered_append: "numbered (s\<lparr>disk := append_file (base_filename s) p (disk s)\<rparr>) j =
    (if j = 0 then Some ((case numbered s 0 of None \<Rightarrow> [] | Some c \<Rightarrow> c) @ p) else numbered s j)"
  using calc_filename_inj [of "base_filename s" j 0] by (auto simp: numbered_def)

lemma fh_write_spec:
  assumes "reliable env" and "fd s = Some p" and "numbered s 0 = Some c" and "fh_filename s = base_filename s"
  obtains d n q s' where "s' = s\<lparr>disk := d, os_calls := n, fd := Some q\<rparr>" "fh_write env data s = (s', None)"
    "log_text s' 0 = Some (c @ p @ data)" "\<forall>j. 0 < j \<longrightarrow> numbered s' j = numbered s j" "\<forall>f. f \<noteq> base_filename s \<longrightarrow> d f = disk s f"
proof -
  let ?p = "p @ data"
  let ?d = "append_file (base_filename s) (take (spill env ?p) ?p) (disk s)"
  let ?s = "s\<lparr>disk := ?d, os_calls := Suc (os_calls s), fd := Some (drop (spill env ?p) ?p)\<rparr>"
  have wr: "fh_write env data s = (?s, None)"
    using assms reliableD(3) [OF assms(1)]
    by (cases s) (simp add: fh_write_def write_out_def tick_def Let_def del: take_append take_take drop_append)
  have num: "numbered ?s j = (if j = 0 then Some (c @ take (spill env ?p) ?p) else numbered s j)" for j
    using numbered_append [of s "take (spill env ?p) ?p" j] assms(3) by (simp add: numbered_def)
  from num [of 0] have lt: "log_text ?s 0 = Some (c @ ?p)"
    by (simp add: log_text_def del: take_append drop_append)
  have nm: "\<forall>j. 0 < j \<longrightarrow> numbered ?s j = numbered s j" using num by simp
  have fr: "\<forall>f. f \<noteq> base_filename s \<longrightarrow> ?d f = disk s f" by (simp add: append_file_def)
  show thesis by (rule that [OF refl wr lt nm fr])
qed

lemma rotate_spec:
  assumes rel: "reliable env" and h: "holds segs s"
  obtains d n s' where "s' = s\<lparr>disk := d, os_calls := n, fd := Some [], current_size := z\<rparr>"
    "rotate env (s\<lparr>current_size := z\<rparr>) = (s', None)" "numbered s' 0 = Some []"
    "\<forall>j. 0 < j \<and> j \<le> max_files s \<longrightarrow> numbered s' j = (if j \<le> length segs then Some (concat (segs ! (j - 1))) else None)"
    "\<forall>f. (\<forall>j. f \<noteq> calc_filename (base_filename s) j) \<longrightarrow> d f = disk s f"
proof -
  obtain p where p: "fd s = Some p" using h by (auto simp: holds_def)
  have content: "log_text s j = (if j < length segs then Some (concat (segs ! j)) else None)" if "j \<le> max_files s" for j
    using h that by (simp add: holds_def)
  let ?d = "append_file (base_filename s) p (disk s)"
  let ?s = "s\<lparr>disk := ?d, fd := None, current_size := z\<rparr>"
  have closed: "fh_close (s\<lparr>current_size := z\<rparr>) = ?s" using p h by (cases s) (simp add: fh_close_def holds_def)
  have num: "numbered ?s j = (if j < length segs then Some (concat (segs ! j)) else None)" if "j \<le> max_files s" for j
    using content [OF that] p h numbered_append [of s p j] content [of 0]
    by (auto simp: log_text_def numbered_def holds_def split: if_splits)
  obtain d n where d: "rotate_loop env (max_files s) ?s = (?s\<lparr>disk := d, os_calls := n, fd := Some []\<rparr>, None)"
    "\<forall>j. d (calc_filename (base_filename s) j) = (if j = 0 then Some [] else rotated (max_files s) (numbered ?s) j)"
    "\<forall>f. (\<forall>j. f \<noteq> calc_filename (base_filename s) j) \<longrightarrow> d f = ?d f"
    using rotate_loop_spec [OF rel, of ?s "max_files s"] h by (auto simp: holds_def)
  let ?r = "s\<lparr>disk := d, os_calls := n, fd := Some [], current_size := z\<rparr>"
  have r: "?s\<lparr>disk := d, os_calls := n, fd := Some []\<rparr> = ?r" by (cases s) simp
  have ro: "rotate env (s\<lparr>current_size := z\<rparr>) = (?r, None)" using d(1) closed r by (simp add: rotate_def)
  have nr: "numbered ?r j = (if j = 0 then Some [] else rotated (max_files s) (numbered ?s) j)" for j
    using d(2) by (simp add: numbered_def)
  have "numbered ?r j = (if j \<le> length segs then Some (concat (segs ! (j - 1))) else None)"
    if "0 < j" "j \<le> max_files s" for j
    using that num [of "j - 1"] num [of j] nr [of j] by (auto simp: rotated_def)
  then have nm: "\<forall>j. 0 < j \<and> j \<le> max_files s \<longrightarrow> numbered ?r j = (if j \<le> length segs then Some (concat (segs ! (j - 1))) else None)"
    by blast
  have "d f = disk s f" if "\<forall>j. f \<noteq> calc_filename (base_filename s) j" for f
    using d(3) that that [THEN spec, of 0] by (simp add: append_file_def)
  then have fr: "\<forall>f. (\<forall>j. f \<noteq> calc_filename (base_filename s) j) \<longrightarrow> d f = disk s f" by blast
  have "numbered ?r 0 = Some []" using nr [of 0] by simp
  then show thesis by (rule that [OF refl ro _ nm fr])
qed

lemma sink_it_spec:
  assumes rel: "reliable env" and h: "holds segs s" and small: "length (concat (hd segs)) + length m < 2 ^ 64"
  obtains s' where "sink_it env m s = (s', None)" "holds (rot_push (unat (max_size s)) (max_files s) m segs) s'"
    "base_filename s' = base_filename s" "max_size s' = max_size s" "max_files s' = max_files s"
    "\<And>f. \<forall>j. f \<noteq> calc_filename (base_filename s) j \<Longrightarrow> disk s' f = disk s f"
proof -
  let ?len = "length (concat (hd segs))" and ?z = "current_size s + word_of_nat (length m)"
  have z: "unat ?z = ?len + length m"
    using h small unat_of_nat_size [of "?len + length m"] by (simp add: holds_def)
  show thesis
  proof (cases "unat (max_size s) < ?len + length m")
    case True
    obtain d n r where r: "r = s\<lparr>disk := d, os_calls := n, fd := Some [], current_size := ?z\<rparr>"
      "rotate env (s\<lparr>current_size := ?z\<rparr>) = (r, None)" "numbered r 0 = Some []"
      "\<forall>j. 0 < j \<and> j \<le> max_files s \<longrightarrow> numbered r j = (if j \<le> length segs then Some (concat (segs ! (j - 1))) else None)"
      "\<forall>f. (\<forall>j. f \<noteq> calc_filename (base_filename s) j) \<longrightarrow> d f = disk s f"
      by (rule rotate_spec [OF rel h, of ?z])
    let ?r = "r\<lparr>current_size := word_of_nat (length m)\<rparr>"
    have pre: "fd ?r = Some []" "numbered ?r 0 = Some []" "fh_filename ?r = base_filename ?r" using r(1,3) h by (simp_all add: holds_def)
    obtain d' n' q s' where w: "s' = ?r\<lparr>disk := d', os_calls := n', fd := Some q\<rparr>" "fh_write env m ?r = (s', None)"
      "log_text s' 0 = Some ([] @ [] @ m)" "\<forall>j. 0 < j \<longrightarrow> numbered s' j = numbered ?r j"
      "\<forall>f. f \<noteq> base_filename ?r \<longrightarrow> d' f = disk ?r f"
      by (rule fh_write_spec [OF rel pre])
    have "sink_it env m s = (s', None)" using True r(2) w(2) z by (simp add: sink_it_def word_less_nat_alt)
    moreover have "holds (take (Suc (max_files s)) ([m] # segs)) s'"
      using w(1,3,4) r(1,4) h by (auto simp: holds_def log_text_def nth_Cons' less_Suc_eq_le)
    moreover have "disk s' f = disk s f" if "\<forall>j. f \<noteq> calc_filename (base_filename s) j" for f
      using that [THEN spec, of 0] r(5) that w(1,5) r(1) by simp
    ultimately show thesis using True w(1) r(1) by (intro that [of s']) (simp_all add: rot_push_def)
  next
    case False
    obtain p where p: "fd s = Some p" using h by (auto simp: holds_def)
    have "log_text s 0 = Some (concat (hd segs))" using h by (auto simp: holds_def hd_conv_nth)
    then obtain c where c: "numbered s 0 = Some c" "c @ p = concat (hd segs)" using p by (auto simp: log_text_def)
    let ?r = "s\<lparr>current_size := ?z\<rparr>"
    have pre: "fd ?r = Some p" "numbered ?r 0 = Some c" "fh_filename ?r = base_filename ?r" using p c(1) h by (simp_all add: holds_def)
    obtain d n q s' where w: "s' = ?r\<lparr>disk := d, os_calls := n, fd := Some q\<rparr>" "fh_write env m ?r = (s', None)"
      "log_text s' 0 = Some (c @ p @ m)" "\<forall>j. 0 < j \<longrightarrow> numbered s' j = numbered ?r j"
      "\<forall>f. f \<noteq> base_filename ?r \<longrightarrow> d f = disk ?r f"
      by (rule fh_write_spec [OF rel pre])
    have "sink_it env m s = (s', None)" using False w(2) z by (simp add: sink_it_def word_less_nat_alt)
    moreover have "c @ p @ m = concat (hd segs @ [m])" using c(2) by (metis append.assoc concat.simps concat_append append_Nil2)
    then have first: "log_text s' 0 = Some (concat (hd segs @ [m]))" using w(3) by simp
    have "log_text s' j = (if j < length segs then Some (concat (((hd segs @ [m]) # tl segs) ! j)) else None)"
      if j: "j \<le> max_files s" for j
    proof (cases j)
      case 0
      with first h show ?thesis by (simp add: holds_def)
    next
      case (Suc i)
      then have "log_text s' j = log_text s j" using w(4) by (simp add: log_text_def)
      moreover have "log_text s j = (if j < length segs then Some (concat (segs ! j)) else None)" using h j by (simp add: holds_def)
      ultimately show ?thesis using Suc by (cases segs) simp_all
    qed
    then have "holds ((hd segs @ [m]) # tl segs) s'"
      using w(1) h unfolding holds_def by (cases segs) simp_all
    moreover have "disk s' f = disk s f" if "\<forall>j. f \<noteq> calc_filename (base_filename s) j" for f
      using that [THEN spec, of 0] w(1,5) by simp
    ultimately show thesis using False w(1) by (intro that [of s']) (simp_all add: rot_push_def)
  qed
qed

lemma rot_push_log:
  assumes "segs \<noteq> []"
  shows "suffix (concat (rev (rot_push l n m segs))) (concat (rev segs) @ [m])"
    "length (rot_push l n m segs) \<le> n \<Longrightarrow> concat (rev (rot_push l n m segs)) = concat (rev segs) @ [m]"
    "rot_push l n m segs \<noteq> []" "length (rot_push l n m segs) = (if l < length (concat (hd segs)) + length m then min (Suc n) (Suc (length segs)) else length segs)"
proof -
  have kept: "concat (rev ((hd segs @ [m]) # tl segs)) = concat (rev segs) @ [m]" using assms by (cases segs) simp_all
  have "suffix (rev (take (Suc n) ([m] # segs))) (rev ([m] # segs))"
    unfolding suffix_to_prefix by (simp add: take_is_prefix)
  then have "suffix (concat (rev (take (Suc n) ([m] # segs)))) (concat (rev ([m] # segs)))" by (auto simp: suffix_def)
  then show "suffix (concat (rev (rot_push l n m segs))) (concat (rev segs) @ [m])" using kept by (simp add: rot_push_def)
  show "length (rot_push l n m segs) \<le> n \<Longrightarrow> concat (rev (rot_push l n m segs)) = concat (rev segs) @ [m]"
    using kept by (auto simp: rot_push_def min_def split: if_splits)
qed (use assms in \<open>auto simp: rot_push_def min_def\<close>)

definition seg_sizes :: "nat \<Rightarrow> string list list \<Rightarrow> bool" where
  "seg_sizes limit segs \<longleftrightarrow> (\<forall>seg \<in> set segs. length (concat seg) \<le> limit \<or> (\<exists>m. seg = [m]))"

lemma rot_push_sizes: "segs \<noteq> [] \<Longrightarrow> seg_sizes l segs \<Longrightarrow> seg_sizes l (rot_push l n m segs)"
  using set_take_subset [of n segs] by (cases segs) (auto simp: seg_sizes_def rot_push_def simp del: take_Cons')

lemma hd_seg_small:
  assumes "segs \<noteq> []" and "seg_sizes limit segs" and "\<forall>m \<in> set (concat segs). length m < 2 ^ 63" and "limit < 2 ^ 63"
  shows "length (concat (hd segs)) < 2 ^ 63"
proof (cases "length (concat (hd segs)) \<le> limit")
  case True
  with assms(4) show ?thesis by simp
next
  case False
  then obtain k where "hd segs = [k]" using assms(1,2) by (auto simp: seg_sizes_def)
  moreover from this have "k \<in> set (concat segs)" using assms(1) by (cases segs) simp_all
  ultimately show ?thesis using assms(3) by auto
qed

lemma log_all_spec:
  assumes rel: "reliable env" and "holds segs s" and "seg_sizes (unat (max_size s)) segs"
    and "\<forall>m \<in> set (concat segs) \<union> set ms. length m < 2 ^ 63" and "unat (max_size s) < 2 ^ 63"
  shows "\<exists>s' segs'. log_all env ms s = (s', None) \<and> holds segs' s' \<and> seg_sizes (unat (max_size s)) segs' \<and>
    suffix (concat (rev segs')) (concat (rev segs) @ ms) \<and>
    (length segs' \<le> max_files s \<longrightarrow> concat (rev segs') = concat (rev segs) @ ms) \<and> length segs \<le> length segs' \<and>
    base_filename s' = base_filename s \<and> max_files s' = max_files s \<and>
    (\<forall>f. (\<forall>j. f \<noteq> calc_filename (base_filename s) j) \<longrightarrow> disk s' f = disk s f)"
  using assms(2-)
proof (induction ms arbitrary: s segs)
  case Nil
  then show ?case by auto
next
  case (Cons m ms)
  have ne: "segs \<noteq> []" using Cons.prems(1) by (simp add: holds_def)
  let ?segs = "rot_push (unat (max_size s)) (max_files s) m segs"
  have "length (concat (hd segs)) < 2 ^ 63"
    using hd_seg_small [OF ne Cons.prems(2)] Cons.prems(3,4) by blast
  then have "length (concat (hd segs)) + length m < 2 ^ 64" using Cons.prems(3) by simp
  then obtain r where r: "sink_it env m s = (r, None)" "holds ?segs r" "base_filename r = base_filename s" "max_size r = max_size s"
    "max_files r = max_files s" "\<And>f. \<forall>j. f \<noteq> calc_filename (base_filename s) j \<Longrightarrow> disk r f = disk s f"
    using sink_it_spec [OF rel Cons.prems(1)] by metis
  note push = rot_push_log [OF ne, of "unat (max_size s)" "max_files s" m]
  have "set (concat ?segs) \<subseteq> set (concat segs) \<union> {m}" using set_mono_suffix [OF push(1)] by auto
  then have "\<forall>k \<in> set (concat ?segs) \<union> set ms. length k < 2 ^ 63" using Cons.prems(3) by auto
  then obtain s' segs' where s': "log_all env ms r = (s', None)" "holds segs' s'" "seg_sizes (unat (max_size s)) segs'"
    "suffix (concat (rev segs')) (concat (rev ?segs) @ ms)"
    "length segs' \<le> max_files s \<longrightarrow> concat (rev segs') = concat (rev ?segs) @ ms" "length ?segs \<le> length segs'"
    "base_filename s' = base_filename s" "max_files s' = max_files s"
    "\<forall>f. (\<forall>j. f \<noteq> calc_filename (base_filename s) j) \<longrightarrow> disk s' f = disk r f"
    using Cons.IH [OF r(2)] rot_push_sizes [OF ne Cons.prems(2)] Cons.prems(4) r(3-5) by auto
  have "length segs \<le> length ?segs" using Cons.prems(1) push(4) by (auto simp: holds_def)
  then have len: "length segs \<le> length segs'" using s'(6) by simp
  have "suffix (concat (rev ?segs) @ ms) (concat (rev segs) @ m # ms)"
    using push(1) by (metis append.assoc append_Cons append_Nil suffix_def)
  with s'(4) have "suffix (concat (rev segs')) (concat (rev segs) @ m # ms)" by (rule suffix_order.trans)
  moreover have "length segs' \<le> max_files s \<longrightarrow> concat (rev segs') = concat (rev segs) @ m # ms"
    using s'(5,6) push(2) by auto
  ultimately show ?case using r s' len by (intro exI [of _ s'] exI [of _ segs']) auto
qed

lemma ctor_spec:
  assumes rel: "reliable env" and base: "base \<noteq> []" and len: "length old \<le> Suc n"
    and files: "\<forall>j \<le> n. d (calc_filename base j) = (if j < length old then Some (old ! j) else None)"
  obtains s where "rotating_file_sink_ctor env d k base limit n False = (s, None)"
    "holds (if old = [] then [[]] else map (\<lambda>c. [c]) old) s" "base_filename s = base" "max_size s = limit" "max_files s = n"
    "\<forall>f. f \<noteq> base \<longrightarrow> disk s f = d f"
proof -
  let ?s0 = "\<lparr>disk = d, os_calls = k, fh_filename = [], fd = None, base_filename = base, max_size = limit, max_files = n, current_size = 0\<rparr>"
  obtain c where c: "fh_open env base False ?s0 = (?s0\<lparr>disk := append_file base [] d, os_calls := c, fh_filename := base, fd := Some []\<rparr>, None)"
    using open_reliable [of env ?s0 base False] reliableD(1) [OF rel] by auto
  let ?d = "append_file base [] d"
  let ?first = "case d base of None \<Rightarrow> [] | Some c \<Rightarrow> c"
  let ?s = "\<lparr>disk = ?d, os_calls = c, fh_filename = base, fd = Some [], base_filename = base, max_size = limit, max_files = n,
     current_size = word_of_nat (length ?first)\<rparr>"
  have "rotating_file_sink_ctor env d k base limit n False = (?s, None)"
    using c by (simp add: rotating_file_sink_ctor_def fh_size_def)
  moreover have "log_text ?s j = (if j = 0 then Some ?first else d (calc_filename base j))" for j
    using calc_filename_inj [of base j 0] by (simp add: log_text_def numbered_def)
  moreover have "?first = (if old = [] then [] else hd old)" using files by (auto simp: hd_conv_nth dest: spec [of _ 0])
  ultimately show thesis
    using base len files by (intro that [of ?s]) (auto simp: holds_def hd_map append_file_def)
qed

lemma rotate_skip:
  "k \<le> i \<Longrightarrow> \<forall>j. k \<le> j \<and> j < i \<longrightarrow> numbered s j = None \<Longrightarrow> rotate_loop env i s = rotate_loop env k s"
proof (induction i)
  case (Suc i)
  show ?case
  proof (cases "k = Suc i")
    case False
    then have "numbered s i = None" using Suc.prems by auto
    with False Suc show ?thesis by (simp add: numbered_def path_exists_def)
  qed simp
qed simp

text \<open>No renaming succeeds, while files can be opened and removed.\<close>

definition renaming_fails :: "os_env \<Rightarrow> bool" where
  "renaming_fails env \<longleftrightarrow> (\<forall>n. fopen_ok env n \<and> remove_ok env n \<and> \<not> rename_ok env n)"

lemma rotate_loop_fails:
  assumes env: "renaming_fails env" and "numbered s k \<noteq> None" and "fd s = None" and "fh_filename s = base_filename s"
    and "base_filename s \<noteq> []"
  obtains n where "rotate_loop env (Suc k) s =
    (s\<lparr>disk := (disk s)(calc_filename (base_filename s) (Suc k) := None, base_filename s := Some []), os_calls := n, fd := Some [],
       current_size := 0\<rparr>, Some (FailedRenaming (calc_filename (base_filename s) k) (calc_filename (base_filename s) (Suc k))))"
proof -
  let ?src = "calc_filename (base_filename s) k" and ?target = "calc_filename (base_filename s) (Suc k)"
  let ?d = "(disk s)(?target := None)"
  have ne: "?src \<noteq> ?target" by (simp add: calc_filename_inj)
  have no: "rename_file env ?src ?target t = (False, t\<lparr>disk := (disk t)(?target := None), os_calls := Suc (Suc (os_calls t))\<rparr>)"
    for t :: rotating_sink
    using env by (cases t) (simp add: rename_file_def os_rename_def os_remove_def renaming_fails_def tick_def)
  let ?t = "s\<lparr>disk := ?d, os_calls := Suc (Suc (Suc (Suc (os_calls s))))\<rparr>"
  obtain n where "fh_open env (base_filename s) True ?t =
      (?t\<lparr>disk := ?d(base_filename s \<mapsto> []), os_calls := n, fh_filename := base_filename s, fd := Some []\<rparr>, None)"
    using open_reliable [of env ?t "base_filename s" True] env assms(3) by (auto simp: renaming_fails_def)
  then have "rotate_loop env (Suc k) s = (?t\<lparr>disk := ?d(base_filename s \<mapsto> []), os_calls := n, fh_filename := base_filename s,
      fd := Some [], current_size := 0\<rparr>, Some (FailedRenaming ?src ?target))"
    using assms(2,4,5) by (auto simp: no path_exists_def numbered_def fh_reopen_def Let_def)
  moreover have "?t\<lparr>disk := ?d(base_filename s \<mapsto> []), os_calls := n, fh_filename := base_filename s, fd := Some [], current_size := 0\<rparr> =
      s\<lparr>disk := ?d(base_filename s \<mapsto> []), os_calls := n, fd := Some [], current_size := 0\<rparr>"
    using assms(4) by (cases s) simp
  ultimately show thesis using that by simp
qed

section \<open>Properties\<close>

text \<open>
  C29.  The log across its files.  On a system that renames a file at the latest when asked twice, the sink never throws.  Whatever
  it finds on disk and whatever is logged, the current file and its numbered predecessors together hold,
  from the oldest to the newest, an unbroken end of the whole log: no message is lost, cut or
  reordered except that the oldest files are dropped, and nothing is dropped before all files are in use.
  A file is not larger than the limit unless it holds a single message, and no other file is touched.\<close>
theorem rotating_log_kept:
  assumes "reliable env" and "base \<noteq> []" and "length old \<le> Suc n"
    and "\<forall>j \<le> n. d (calc_filename base j) = (if j < length old then Some (old ! j) else None)"
    and "\<forall>m \<in> set old \<union> set ms. length m < 2 ^ 63" and "unat limit < 2 ^ 63"
  shows "\<exists>s segs. andThen (rotating_file_sink_ctor env d k base limit n False) (log_all env ms) = (s, None) \<and>
    (\<forall>j \<le> n. log_text s j = (if j < length segs then Some (concat (segs ! j)) else None)) \<and> length segs \<le> Suc n \<and>
    suffix (concat (rev segs)) (rev old @ ms) \<and> (length segs \<le> n \<longrightarrow> concat (rev segs) = rev old @ ms) \<and>
    (\<forall>seg \<in> set segs. length (concat seg) \<le> unat limit \<or> (\<exists>m. seg = [m])) \<and>
    (\<forall>f. (\<forall>j. f \<noteq> calc_filename base j) \<longrightarrow> disk s f = d f)"
proof -
  let ?segs = "if old = [] then [[]] else map (\<lambda>c. [c]) old"
  obtain r where r: "rotating_file_sink_ctor env d k base limit n False = (r, None)" "holds ?segs r" "base_filename r = base"
    "max_size r = limit" "max_files r = n" "\<forall>f. f \<noteq> base \<longrightarrow> disk r f = d f"
    using ctor_spec [OF assms(1-4), of k limit] by blast
  have log: "concat (rev ?segs) = rev old" "seg_sizes (unat limit) ?segs" "set (concat ?segs) = set old"
    by (auto simp: seg_sizes_def rev_map concat_map_singleton)
  obtain s segs where s: "log_all env ms r = (s, None)" "holds segs s" "seg_sizes (unat limit) segs"
    "suffix (concat (rev segs)) (rev old @ ms)" "length segs \<le> n \<longrightarrow> concat (rev segs) = rev old @ ms"
    "base_filename s = base" "max_files s = n" "\<forall>f. (\<forall>j. f \<noteq> calc_filename base j) \<longrightarrow> disk s f = disk r f"
    using log_all_spec [OF assms(1) r(2), of ms] log assms(5,6) r(3-5) by auto
  have "disk s f = d f" if "\<forall>j. f \<noteq> calc_filename base j" for f
    using that [THEN spec, of 0] s(8) that r(6) by simp
  then show ?thesis using r(1) s by (intro exI [of _ s] exI [of _ segs]) (auto simp: holds_def seg_sizes_def)
qed

definition plain_os :: os_env where
  "plain_os = \<lparr>fopen_ok = \<lambda>n. True, rename_ok = \<lambda>n. n mod 4 < 2, remove_ok = \<lambda>n. True, fwrite_count = \<lambda>n len. len, spill = \<lambda>p. 0\<rparr>"

lemma plain_os_reliable: "reliable plain_os"
proof -
  have "n mod 4 < 2 \<or> (n + 2) mod 4 < 2" for n :: nat by presburger
  then show ?thesis by (simp add: reliable_def plain_os_def)
qed

theorem rotating_log_kept_witness:
  "\<exists>s segs. andThen (rotating_file_sink_ctor plain_os (\<lambda>f. if f = ''a/log.txt'' then Some ''old'' else None) 0 ''a/log.txt'' 8 1 False)
      (log_all plain_os [''first'', ''second'', ''third'']) = (s, None) \<and> suffix (concat (rev segs)) [''old'', ''first'', ''second'', ''third''] \<and>
    log_text s 0 = Some (concat (segs ! 0))"
proof -
  let ?d = "\<lambda>f. if f = ''a/log.txt'' then Some ''old'' else None"
  have "?d (calc_filename ''a/log.txt'' j) = (if j < length [''old''] then Some ([''old''] ! j) else None)" for j
    using calc_filename_inj [of "''a/log.txt''" j 0] by auto
  then have "\<exists>s segs. andThen (rotating_file_sink_ctor plain_os ?d 0 ''a/log.txt'' 8 1 False)
      (log_all plain_os [''first'', ''second'', ''third'']) = (s, None) \<and>
    (\<forall>j \<le> 1. log_text s j = (if j < length segs then Some (concat (segs ! j)) else None)) \<and> length segs \<le> Suc 1 \<and>
    suffix (concat (rev segs)) (rev [''old''] @ [''first'', ''second'', ''third'']) \<and>
    (length segs \<le> 1 \<longrightarrow> concat (rev segs) = rev [''old''] @ [''first'', ''second'', ''third'']) \<and>
    (\<forall>seg \<in> set segs. length (concat seg) \<le> unat (8 :: size_t) \<or> (\<exists>m. seg = [m])) \<and>
    (\<forall>f. (\<forall>j. f \<noteq> calc_filename ''a/log.txt'' j) \<longrightarrow> disk s f = ?d f)"
    by (intro rotating_log_kept plain_os_reliable) simp_all
  then obtain s segs where s: "andThen (rotating_file_sink_ctor plain_os ?d 0 ''a/log.txt'' 8 1 False)
      (log_all plain_os [''first'', ''second'', ''third'']) = (s, None)"
    "\<forall>j \<le> 1. log_text s j = (if j < length segs then Some (concat (segs ! j)) else None)"
    "suffix (concat (rev segs)) (rev [''old''] @ [''first'', ''second'', ''third''])"
    "length segs \<le> 1 \<longrightarrow> concat (rev segs) = rev [''old''] @ [''first'', ''second'', ''third'']" by blast
  then have "segs \<noteq> []" by auto
  with s(2) have "log_text s 0 = Some (concat (segs ! 0))" by simp
  with s(1,3) show ?thesis by auto
qed

text \<open>
  C30.  A rotation that cannot rename.  When the system refuses to rename even at the second attempt, the sink throws, is ready
  for further messages, and stays within its limit at the price of three losses: the message, the whole current
  file, and the file that was to be replaced.  The other files keep their text.\<close>
theorem rotation_failure:
  assumes "renaming_fails env" and "holds segs s" and "0 < max_files s"
    and "length (concat (hd segs)) + length m < 2 ^ 64" and "unat (max_size s) < length (concat (hd segs)) + length m"
  shows "let k = min (length segs) (max_files s) in
    \<exists>s'. sink_it env m s = (s', Some (FailedRenaming (calc_filename (base_filename s) (k - 1)) (calc_filename (base_filename s) k))) \<and>
      log_text s' 0 = Some [] \<and> fd s' \<noteq> None \<and> current_size s' = 0 \<and> log_text s' k = None \<and>
      (\<forall>j. 0 < j \<and> j \<noteq> k \<longrightarrow> log_text s' j = log_text s j)"
proof -
  obtain p where p: "fd s = Some p" using assms(2) by (auto simp: holds_def)
  define k where "k = min (length segs) (max_files s) - 1"
  have k: "min (length segs) (max_files s) = Suc k" using assms(2,3) by (simp add: k_def holds_def)
  let ?z = "current_size s + word_of_nat (length m)" and ?c = "calc_filename (base_filename s)"
  have z: "unat ?z = length (concat (hd segs)) + length m"
    using assms(2,4) unat_of_nat_size [of "length (concat (hd segs)) + length m"] by (simp add: holds_def)
  let ?s = "s\<lparr>disk := append_file (base_filename s) p (disk s), fd := None, current_size := ?z\<rparr>"
  have closed: "fh_close (s\<lparr>current_size := ?z\<rparr>) = ?s" using p assms(2) by (cases s) (simp add: fh_close_def holds_def)
  have num: "numbered ?s j = log_text s j" for j
    using p assms(2) numbered_append [of s p j] by (auto simp: log_text_def numbered_def holds_def dest: spec [of _ 0] split: option.splits)
  have seg: "log_text s j = (if j < length segs then Some (concat (segs ! j)) else None)" if "j \<le> max_files s" for j
    using that assms(2) by (simp add: holds_def)
  have "numbered ?s j = None" if "Suc k \<le> j" "j < max_files s" for j
    using that k seg [of j] unfolding num by simp
  moreover have "numbered ?s k \<noteq> None" using k seg [of k] unfolding num by simp
  ultimately obtain n where "rotate_loop env (max_files s) ?s = (?s\<lparr>disk := (disk ?s)(?c (Suc k) := None, base_filename s := Some []),
      os_calls := n, fd := Some [], current_size := 0\<rparr>, Some (FailedRenaming (?c k) (?c (Suc k))))"
    using rotate_skip [of "Suc k" "max_files s" ?s env] rotate_loop_fails [OF assms(1), of ?s k] k assms(2) by (auto simp: holds_def)
  moreover define s' where "s' = ?s\<lparr>disk := (disk ?s)(?c (Suc k) := None, base_filename s := Some []),
      os_calls := n, fd := Some [], current_size := 0\<rparr>"
  ultimately have "sink_it env m s = (s', Some (FailedRenaming (?c k) (?c (Suc k))))"
    using assms(5) z closed by (simp add: sink_it_def word_less_nat_alt rotate_def)
  moreover have "log_text s' j = (if j = 0 then Some [] else if j = Suc k then None else log_text s j)" for j
    using calc_filename_inj [of "base_filename s" j 0] calc_filename_inj [of "base_filename s" j "Suc k"]
    by (simp add: s'_def log_text_def numbered_def)
  ultimately show ?thesis unfolding k Let_def by (intro exI [of _ s']) (simp add: s'_def)
qed

definition stuck_os :: os_env where
  "stuck_os = plain_os\<lparr>rename_ok := \<lambda>n. False\<rparr>"

definition sample_sink :: rotating_sink where
  "sample_sink = \<lparr>disk = (\<lambda>f. None)(''log.txt'' \<mapsto> ''ab''), os_calls = 0, fh_filename = ''log.txt'', fd = Some ''c'', base_filename = ''log.txt'',
     max_size = 4, max_files = 2, current_size = 3\<rparr>"

lemma sample_sink_holds: "holds [[''abc'']] sample_sink"
proof -
  have "log_text sample_sink j = (if j < 1 then Some ''abc'' else None)" for j
    using calc_filename_inj [of "''log.txt''" j 0] by (auto simp: sample_sink_def log_text_def numbered_def)
  then show ?thesis by (simp add: holds_def) (simp add: sample_sink_def)
qed

theorem rotation_failure_witness:
  "\<exists>s'. sink_it stuck_os ''def'' sample_sink = (s', Some (FailedRenaming ''log.txt'' ''log.1.txt'')) \<and>
     log_text s' 0 = Some [] \<and> fd s' \<noteq> None \<and> current_size s' = 0"
proof -
  have "renaming_fails stuck_os" by (simp add: renaming_fails_def stuck_os_def plain_os_def)
  moreover have "0 < max_files sample_sink" "length (concat (hd [[''abc'']])) + length ''def'' < 2 ^ 64"
    "unat (max_size sample_sink) < length (concat (hd [[''abc'']])) + length ''def''" by (simp_all add: sample_sink_def)
  moreover have "char_of (49 :: nat) = CHR ''1''" by code_simp
  then have "calc_filename (base_filename sample_sink) 1 = ''log.1.txt''" "base_filename sample_sink = ''log.txt''"
    by (simp_all add: sample_sink_def calc_filename_def split_by_extension_def to_string_nat.simps)
  moreover have "min (length [[''abc'']]) (max_files sample_sink) = 1" by (simp add: sample_sink_def)
  ultimately show ?thesis
    using rotation_failure [OF _ sample_sink_holds, of stuck_os "''def''"] by (auto simp: Let_def)
qed

text \<open>
  Extensions of file names.  A name of the form \<open>b.x\<close> with \<open>b\<close> not empty and not ending in a separator, and \<open>x\<close> not
  empty and without dots and separators, is split into \<open>b\<close> and \<open>.x\<close>; every other name has no
  extension.  The names of the numbered files differ from each other.\<close>
theorem extension_split:
  "(has_extension b x \<longrightarrow> split_by_extension (b @ CHR ''.'' # x) = (b, CHR ''.'' # x)) \<and>
   ((\<nexists>b x. f = b @ CHR ''.'' # x \<and> has_extension b x) \<longrightarrow> split_by_extension f = (f, [])) \<and>
   inj (calc_filename f)"
  using split_extension split_no_extension by (auto simp: inj_on_def calc_filename_inj)

theorem extension_split_witness:
  "split_by_extension ''my_folder/.mylog.txt'' = (''my_folder/.mylog'', ''.txt'') \<and> split_by_extension ''my_folder/.mylog'' = (''my_folder/.mylog'', [])"
proof -
  have "has_extension ''my_folder/.mylog'' ''txt''" by (simp add: has_extension_def)
  then have "split_by_extension (''my_folder/.mylog'' @ CHR ''.'' # ''txt'') = (''my_folder/.mylog'', CHR ''.'' # ''txt'')"
    using extension_split [of "''my_folder/.mylog''" "''txt''"] by blast
  moreover have "split_by_extension ''my_folder/.mylog'' = (''my_folder/.mylog'', [])" by (simp add: split_by_extension_def)
  ultimately show ?thesis by simp
qed

end
