(* ===== verification/Pattern_Formatter.thy ===== *)
theory Pattern_Formatter
  imports Fmt_Helper Rotating_Sink
begin

text \<open>
  Model of \<^verbatim>\<open>spdlog/pattern_formatter-inl.h\<close>: the compiler from a pattern to a list of flag formatters, and the
  formatters.  The calendar (\<^verbatim>\<open>localtime\<close>, \<^verbatim>\<open>gmtime\<close>, offset from UTC), the clock and the process id are parameters, as
  are the formatters a user adds.  The ranges to be coloured, mutable members of the message in the code, are part of
  the line that is being built.
\<close>

record tm =
  tm_sec :: int
  tm_min :: int
  tm_hour :: int
  tm_mday :: int
  tm_mon :: int
  tm_year :: int
  tm_wday :: int

record line_buf =
  dest :: string
  color_range_start :: nat
  color_range_end :: nat

type_synonym custom_format = "padding_info \<Rightarrow> log_msg \<Rightarrow> tm \<Rightarrow> string \<Rightarrow> string result"

record pattern_env =
  os_localtime :: "int \<Rightarrow> tm"
  os_gmtime :: "int \<Rightarrow> tm"
  utc_minutes_offset :: "tm \<Rightarrow> int"
  os_pid :: nat
  clock_now :: int

definition on_dest :: "(string \<Rightarrow> string result) \<Rightarrow> line_buf \<Rightarrow> line_buf result" where
  "on_dest f b = rbind (f (dest b)) (\<lambda>d. Inr (b\<lparr>dest := d\<rparr>))"

section \<open>Name, level and date\<close>

definition name_formatter_format :: "padding_info \<Rightarrow> log_msg \<Rightarrow> string \<Rightarrow> string result" where
  "name_formatter_format p msg = with_padder (length (logger_name msg)) p (append_string_view (logger_name msg))"

definition level_formatter_format :: "padding_info \<Rightarrow> log_msg \<Rightarrow> string \<Rightarrow> string result" where
  "level_formatter_format p msg d =
     rbind (to_string_view (level msg)) (\<lambda>level_name. with_padder (length level_name) p (append_string_view level_name) d)"

definition short_level_formatter_format :: "padding_info \<Rightarrow> log_msg \<Rightarrow> string \<Rightarrow> string result" where
  "short_level_formatter_format p msg d =
     rbind (to_short_c_str (level msg)) (\<lambda>level_name. with_padder (length level_name) p (append_string_view level_name) d)"

definition ampm :: "tm \<Rightarrow> string" where
  "ampm t = (if 12 \<le> tm_hour t then ''PM'' else ''AM'')"

definition to12h :: "tm \<Rightarrow> int" where
  "to12h t = (if 12 < tm_hour t then tm_hour t - 12 else tm_hour t)"

definition days :: "string list" where
  "days = [''Sun'', ''Mon'', ''Tue'', ''Wed'', ''Thu'', ''Fri'', ''Sat'']"

definition full_days :: "string list" where
  "full_days = [''Sunday'', ''Monday'', ''Tuesday'', ''Wednesday'', ''Thursday'', ''Friday'', ''Saturday'']"

definition months :: "string list" where
  "months = [''Jan'', ''Feb'', ''Mar'', ''Apr'', ''May'', ''Jun'', ''Jul'', ''Aug'', ''Sept'', ''Oct'', ''Nov'', ''Dec'']"

definition full_months :: "string list" where
  "full_months = [''January'', ''February'', ''March'', ''April'', ''May'', ''June'', ''July'', ''August'', ''September'',
     ''October'', ''November'', ''December'']"

definition a_formatter_format :: "padding_info \<Rightarrow> tm \<Rightarrow> string \<Rightarrow> string result" where
  "a_formatter_format p t d =
     rbind (array_at days (tm_wday t)) (\<lambda>field_value. with_padder (length field_value) p (append_string_view field_value) d)"

definition A_formatter_format :: "padding_info \<Rightarrow> tm \<Rightarrow> string \<Rightarrow> string result" where
  "A_formatter_format p t d =
     rbind (array_at full_days (tm_wday t)) (\<lambda>field_value. with_padder (length field_value) p (append_string_view field_value) d)"

definition b_formatter_format :: "padding_info \<Rightarrow> tm \<Rightarrow> string \<Rightarrow> string result" where
  "b_formatter_format p t d =
     rbind (array_at months (tm_mon t)) (\<lambda>field_value. with_padder (length field_value) p (append_string_view field_value) d)"

definition B_formatter_format :: "padding_info \<Rightarrow> tm \<Rightarrow> string \<Rightarrow> string result" where
  "B_formatter_format p t d =
     rbind (array_at full_months (tm_mon t)) (\<lambda>field_value. with_padder (length field_value) p (append_string_view field_value) d)"

definition push :: "char \<Rightarrow> string \<Rightarrow> string" where
  "push c d = d @ [c]"

text \<open>\<open>HH:MM:SS\<close> of a time, and of the 12 hour clock.\<close>

definition append_hms :: "int \<Rightarrow> tm \<Rightarrow> string \<Rightarrow> string" where
  "append_hms hour t d = pad2 (tm_sec t) (push CHR '':'' (pad2 (tm_min t) (push CHR '':'' (pad2 hour d))))"

definition c_formatter_format :: "padding_info \<Rightarrow> tm \<Rightarrow> string \<Rightarrow> string result" where
  "c_formatter_format p t d =
     rbind (array_at days (tm_wday t)) (\<lambda>wday. rbind (array_at months (tm_mon t)) (\<lambda>mon.
       with_padder 24 p (\<lambda>d.
         append_int (tm_year t + 1900) (push CHR '' '' (append_hms (tm_hour t) t (push CHR '' ''
           (append_int (tm_mday t) (push CHR '' '' (append_string_view mon (push CHR '' '' (append_string_view wday d))))))))) d))"

text \<open>\<^verbatim>\<open>tm_year % 100\<close> has the sign of \<^verbatim>\<open>tm_year\<close>.\<close>

definition rem100 :: "int \<Rightarrow> int" where
  "rem100 y = y - trunc_div y 100 * 100"

definition C_formatter_format :: "padding_info \<Rightarrow> tm \<Rightarrow> string \<Rightarrow> string result" where
  "C_formatter_format p t = with_padder 2 p (pad2 (rem100 (tm_year t)))"

definition D_formatter_format :: "padding_info \<Rightarrow> tm \<Rightarrow> string \<Rightarrow> string result" where
  "D_formatter_format p t = with_padder 10 p (\<lambda>d.
     pad2 (rem100 (tm_year t)) (push CHR ''/'' (pad2 (tm_mday t) (push CHR ''/'' (pad2 (tm_mon t + 1) d)))))"

definition Y_formatter_format :: "padding_info \<Rightarrow> tm \<Rightarrow> string \<Rightarrow> string result" where
  "Y_formatter_format p t = with_padder 4 p (append_int (tm_year t + 1900))"

definition m_formatter_format :: "padding_info \<Rightarrow> tm \<Rightarrow> string \<Rightarrow> string result" where
  "m_formatter_format p t = with_padder 2 p (pad2 (tm_mon t + 1))"

definition d_formatter_format :: "padding_info \<Rightarrow> tm \<Rightarrow> string \<Rightarrow> string result" where
  "d_formatter_format p t = with_padder 2 p (pad2 (tm_mday t))"

definition H_formatter_format :: "padding_info \<Rightarrow> tm \<Rightarrow> string \<Rightarrow> string result" where
  "H_formatter_format p t = with_padder 2 p (pad2 (tm_hour t))"

definition I_formatter_format :: "padding_info \<Rightarrow> tm \<Rightarrow> string \<Rightarrow> string result" where
  "I_formatter_format p t = with_padder 2 p (pad2 (to12h t))"

definition M_formatter_format :: "padding_info \<Rightarrow> tm \<Rightarrow> string \<Rightarrow> string result" where
  "M_formatter_format p t = with_padder 2 p (pad2 (tm_min t))"

definition S_formatter_format :: "padding_info \<Rightarrow> tm \<Rightarrow> string \<Rightarrow> string result" where
  "S_formatter_format p t = with_padder 2 p (pad2 (tm_sec t))"

text \<open>The conversions to unsigned types of a fraction, which is negative before the epoch.\<close>

definition e_formatter_format :: "padding_info \<Rightarrow> log_msg \<Rightarrow> string \<Rightarrow> string result" where
  "e_formatter_format p msg = with_padder 3 p (pad3 (nat (time_fraction (10 ^ 6) (time msg) mod 2 ^ 32)))"

definition f_formatter_format :: "padding_info \<Rightarrow> log_msg \<Rightarrow> string \<Rightarrow> string result" where
  "f_formatter_format p msg = with_padder 6 p (pad6 (nat (time_fraction (10 ^ 3) (time msg) mod 2 ^ 64)))"

definition F_formatter_format :: "padding_info \<Rightarrow> log_msg \<Rightarrow> string \<Rightarrow> string result" where
  "F_formatter_format p msg = with_padder 9 p (pad9 (nat (time_fraction 1 (time msg) mod 2 ^ 64)))"

definition E_formatter_format :: "padding_info \<Rightarrow> log_msg \<Rightarrow> string \<Rightarrow> string result" where
  "E_formatter_format p msg = with_padder 10 p (append_int (seconds_of (time msg)))"

definition p_formatter_format :: "padding_info \<Rightarrow> tm \<Rightarrow> string \<Rightarrow> string result" where
  "p_formatter_format p t = with_padder 2 p (append_string_view (ampm t))"

definition r_formatter_format :: "padding_info \<Rightarrow> tm \<Rightarrow> string \<Rightarrow> string result" where
  "r_formatter_format p t = with_padder 11 p (\<lambda>d. append_string_view (ampm t) (push CHR '' '' (append_hms (to12h t) t d)))"

definition R_formatter_format :: "padding_info \<Rightarrow> tm \<Rightarrow> string \<Rightarrow> string result" where
  "R_formatter_format p t = with_padder 5 p (\<lambda>d. pad2 (tm_min t) (push CHR '':'' (pad2 (tm_hour t) d)))"

definition T_formatter_format :: "padding_info \<Rightarrow> tm \<Rightarrow> string \<Rightarrow> string result" where
  "T_formatter_format p t = with_padder 8 p (append_hms (tm_hour t) t)"

text \<open>The offset from UTC and when it was last updated.\<close>

definition get_cached_offset :: "pattern_env \<Rightarrow> log_msg \<Rightarrow> tm \<Rightarrow> int \<times> int \<Rightarrow> int \<times> int" where
  "get_cached_offset env msg t st =
     (let (last_update, offset_minutes) = st in
      if 10 * 10 ^ 9 \<le> time msg - last_update then (time msg, utc_minutes_offset env t) else st)"

definition z_formatter_format :: "pattern_env \<Rightarrow> padding_info \<Rightarrow> log_msg \<Rightarrow> tm \<Rightarrow> int \<times> int \<Rightarrow> string \<Rightarrow> (string \<times> int \<times> int) result" where
  "z_formatter_format env p msg t st d =
     (let st' = get_cached_offset env msg t st; total_minutes = snd st'; n = \<bar>total_minutes\<bar> in
      rbind (with_padder 6 p (\<lambda>d. pad2 (n mod 60) (push CHR '':'' (pad2 (n div 60)
               (push (if total_minutes < 0 then CHR ''-'' else CHR ''+'') d)))) d) (\<lambda>d. Inr (d, st')))"

section \<open>Threads, text and source\<close>

definition t_formatter_format :: "padding_info \<Rightarrow> log_msg \<Rightarrow> string \<Rightarrow> string result" where
  "t_formatter_format p msg = with_padder (count_digits 64 (int (thread_id msg))) p (append_int (int (thread_id msg)))"

definition pid_formatter_format :: "pattern_env \<Rightarrow> padding_info \<Rightarrow> string \<Rightarrow> string result" where
  "pid_formatter_format env p = (let pid = int (os_pid env) mod 2 ^ 32 in with_padder (count_digits 32 pid) p (append_int pid))"

definition v_formatter_format :: "padding_info \<Rightarrow> log_msg \<Rightarrow> string \<Rightarrow> string result" where
  "v_formatter_format p msg = with_padder (length (payload msg)) p (append_string_view (payload msg))"

definition source_location_format :: "padding_info \<Rightarrow> log_msg \<Rightarrow> string \<Rightarrow> string result" where
  "source_location_format p msg d =
     (if source_empty (source msg) then Inr d
      else with_padder (if enabled p then length (filename (source msg)) + count_digits 32 (line (source msg)) + 1 else 0) p
             (\<lambda>d. append_int (line (source msg)) (push CHR '':'' (append_string_view (filename (source msg)) d))) d)"

definition source_filename_format :: "padding_info \<Rightarrow> log_msg \<Rightarrow> string \<Rightarrow> string result" where
  "source_filename_format p msg d =
     (if source_empty (source msg) then Inr d
      else with_padder (if enabled p then length (filename (source msg)) else 0) p (append_string_view (filename (source msg))) d)"

definition basename :: "string \<Rightarrow> string" where
  "basename f = (case rfind CHR ''/'' f of Some i \<Rightarrow> drop (Suc i) f | None \<Rightarrow> f)"

definition short_filename_format :: "padding_info \<Rightarrow> log_msg \<Rightarrow> string \<Rightarrow> string result" where
  "short_filename_format p msg d =
     (if source_empty (source msg) then Inr d
      else let f = basename (filename (source msg)) in with_padder (if enabled p then length f else 0) p (append_string_view f) d)"

definition source_linenum_format :: "padding_info \<Rightarrow> log_msg \<Rightarrow> string \<Rightarrow> string result" where
  "source_linenum_format p msg d =
     (if source_empty (source msg) then Inr d
      else with_padder (count_digits 32 (line (source msg))) p (append_int (line (source msg))) d)"

definition source_funcname_format :: "padding_info \<Rightarrow> log_msg \<Rightarrow> string \<Rightarrow> string result" where
  "source_funcname_format p msg d =
     (if source_empty (source msg) then Inr d
      else with_padder (if enabled p then length (funcname (source msg)) else 0) p (append_string_view (funcname (source msg))) d)"

text \<open>The time since the previous message in units of \<open>unit_ns\<close> nanoseconds; the time of this one is kept.\<close>

definition elapsed_format :: "int \<Rightarrow> padding_info \<Rightarrow> log_msg \<Rightarrow> int \<Rightarrow> string \<Rightarrow> (string \<times> int) result" where
  "elapsed_format unit_ns p msg last_message_time d =
     (let delta = max (time msg - last_message_time) 0; delta_count = trunc_div delta unit_ns in
      rbind (with_padder (count_digits 64 delta_count) p (append_int delta_count) d) (\<lambda>d. Inr (d, time msg)))"

section \<open>Flag formatters\<close>

datatype flag_formatter =
    name_formatter padding_info
  | level_formatter padding_info
  | short_level_formatter padding_info
  | a_formatter padding_info
  | A_formatter padding_info
  | b_formatter padding_info
  | B_formatter padding_info
  | c_formatter padding_info
  | C_formatter padding_info
  | D_formatter padding_info
  | Y_formatter padding_info
  | m_formatter padding_info
  | d_formatter padding_info
  | H_formatter padding_info
  | I_formatter padding_info
  | M_formatter padding_info
  | S_formatter padding_info
  | e_formatter padding_info
  | f_formatter padding_info
  | F_formatter padding_info
  | E_formatter padding_info
  | p_formatter padding_info
  | r_formatter padding_info
  | R_formatter padding_info
  | T_formatter padding_info
  | z_formatter padding_info "int \<times> int"
  | t_formatter padding_info
  | pid_formatter padding_info
  | v_formatter padding_info
  | ch_formatter char
  | aggregate_formatter string
  | color_start_formatter padding_info
  | color_stop_formatter padding_info
  | source_location_formatter padding_info
  | source_filename_formatter padding_info
  | short_filename_formatter padding_info
  | source_linenum_formatter padding_info
  | source_funcname_formatter padding_info
  | elapsed_formatter padding_info int int
  | full_formatter padding_info int string
  | custom_formatter custom_format padding_info

definition color_start_format :: "line_buf \<Rightarrow> line_buf" where
  "color_start_format b = b\<lparr>color_range_start := length (dest b)\<rparr>"

definition color_stop_format :: "line_buf \<Rightarrow> line_buf" where
  "color_stop_format b = b\<lparr>color_range_end := length (dest b)\<rparr>"

text \<open>The date and time part of the full format, and the whole of it with its cache.\<close>

definition full_datetime :: "tm \<Rightarrow> string" where
  "full_datetime t =
     push CHR ''.'' (append_hms (tm_hour t) t (push CHR '' '' (pad2 (tm_mday t) (push CHR ''-'' (pad2 (tm_mon t + 1) (push CHR ''-''
       (append_int (tm_year t + 1900) (push CHR ''['' []))))))))"

definition full_formatter_format :: "log_msg \<Rightarrow> tm \<Rightarrow> int \<times> string \<Rightarrow> line_buf \<Rightarrow> (line_buf \<times> int \<times> string) result" where
  "full_formatter_format msg t cache b =
     (let (cache_timestamp, cached_datetime) = cache;
          secs = seconds_of (time msg);
          cached = (if cache_timestamp \<noteq> secs \<or> cached_datetime = [] then (secs, full_datetime t) else cache);
          d1 = pad3 (nat (time_fraction (10 ^ 6) (time msg) mod 2 ^ 32)) (dest b @ snd cached);
          d2 = push CHR '' '' (push CHR '']'' d1);
          d3 = (if 0 < length (logger_name msg)
                then push CHR '' '' (push CHR '']'' (append_string_view (logger_name msg) (push CHR ''['' d2))) else d2);
          d4 = push CHR ''['' d3
      in rbind (to_string_view (level msg)) (\<lambda>level_name.
         let d5 = append_string_view level_name d4;
             d6 = push CHR '' '' (push CHR '']'' d5);
             d7 = (if \<not> source_empty (source msg)
                   then push CHR '' '' (push CHR '']'' (append_int (line (source msg)) (push CHR '':''
                          (append_string_view (basename (filename (source msg))) (push CHR ''['' d6))))) else d6)
         in Inr (b\<lparr>dest := append_string_view (payload msg) d7, color_range_start := length d4, color_range_end := length d5\<rparr>, cached)))"

definition plain_flag :: "flag_formatter \<Rightarrow> line_buf result \<Rightarrow> (flag_formatter \<times> line_buf) result" where
  "plain_flag f r = rbind r (\<lambda>b. Inr (f, b))"

text \<open>The virtual call \<^verbatim>\<open>format\<close>: the formatter as it is afterwards, and the line.\<close>

fun flag_format :: "pattern_env \<Rightarrow> log_msg \<Rightarrow> tm \<Rightarrow> flag_formatter \<Rightarrow> line_buf \<Rightarrow> (flag_formatter \<times> line_buf) result" where
  "flag_format env msg t (name_formatter p) b = plain_flag (name_formatter p) (on_dest (name_formatter_format p msg) b)"
| "flag_format env msg t (level_formatter p) b = plain_flag (level_formatter p) (on_dest (level_formatter_format p msg) b)"
| "flag_format env msg t (short_level_formatter p) b = plain_flag (short_level_formatter p) (on_dest (short_level_formatter_format p msg) b)"
| "flag_format env msg t (a_formatter p) b = plain_flag (a_formatter p) (on_dest (a_formatter_format p t) b)"
| "flag_format env msg t (A_formatter p) b = plain_flag (A_formatter p) (on_dest (A_formatter_format p t) b)"
| "flag_format env msg t (b_formatter p) b = plain_flag (b_formatter p) (on_dest (b_formatter_format p t) b)"
| "flag_format env msg t (B_formatter p) b = plain_flag (B_formatter p) (on_dest (B_formatter_format p t) b)"
| "flag_format env msg t (c_formatter p) b = plain_flag (c_formatter p) (on_dest (c_formatter_format p t) b)"
| "flag_format env msg t (C_formatter p) b = plain_flag (C_formatter p) (on_dest (C_formatter_format p t) b)"
| "flag_format env msg t (D_formatter p) b = plain_flag (D_formatter p) (on_dest (D_formatter_format p t) b)"
| "flag_format env msg t (Y_formatter p) b = plain_flag (Y_formatter p) (on_dest (Y_formatter_format p t) b)"
| "flag_format env msg t (m_formatter p) b = plain_flag (m_formatter p) (on_dest (m_formatter_format p t) b)"
| "flag_format env msg t (d_formatter p) b = plain_flag (d_formatter p) (on_dest (d_formatter_format p t) b)"
| "flag_format env msg t (H_formatter p) b = plain_flag (H_formatter p) (on_dest (H_formatter_format p t) b)"
| "flag_format env msg t (I_formatter p) b = plain_flag (I_formatter p) (on_dest (I_formatter_format p t) b)"
| "flag_format env msg t (M_formatter p) b = plain_flag (M_formatter p) (on_dest (M_formatter_format p t) b)"
| "flag_format env msg t (S_formatter p) b = plain_flag (S_formatter p) (on_dest (S_formatter_format p t) b)"
| "flag_format env msg t (e_formatter p) b = plain_flag (e_formatter p) (on_dest (e_formatter_format p msg) b)"
| "flag_format env msg t (f_formatter p) b = plain_flag (f_formatter p) (on_dest (f_formatter_format p msg) b)"
| "flag_format env msg t (F_formatter p) b = plain_flag (F_formatter p) (on_dest (F_formatter_format p msg) b)"
| "flag_format env msg t (E_formatter p) b = plain_flag (E_formatter p) (on_dest (E_formatter_format p msg) b)"
| "flag_format env msg t (p_formatter p) b = plain_flag (p_formatter p) (on_dest (p_formatter_format p t) b)"
| "flag_format env msg t (r_formatter p) b = plain_flag (r_formatter p) (on_dest (r_formatter_format p t) b)"
| "flag_format env msg t (R_formatter p) b = plain_flag (R_formatter p) (on_dest (R_formatter_format p t) b)"
| "flag_format env msg t (T_formatter p) b = plain_flag (T_formatter p) (on_dest (T_formatter_format p t) b)"
| "flag_format env msg t (z_formatter p st) b =
     rbind (z_formatter_format env p msg t st (dest b)) (\<lambda>(d, st'). Inr (z_formatter p st', b\<lparr>dest := d\<rparr>))"
| "flag_format env msg t (t_formatter p) b = plain_flag (t_formatter p) (on_dest (t_formatter_format p msg) b)"
| "flag_format env msg t (pid_formatter p) b = plain_flag (pid_formatter p) (on_dest (pid_formatter_format env p) b)"
| "flag_format env msg t (v_formatter p) b = plain_flag (v_formatter p) (on_dest (v_formatter_format p msg) b)"
| "flag_format env msg t (ch_formatter c) b = plain_flag (ch_formatter c) (Inr (b\<lparr>dest := push c (dest b)\<rparr>))"
| "flag_format env msg t (aggregate_formatter str) b = plain_flag (aggregate_formatter str) (Inr (b\<lparr>dest := append_string_view str (dest b)\<rparr>))"
| "flag_format env msg t (color_start_formatter p) b = plain_flag (color_start_formatter p) (Inr (color_start_format b))"
| "flag_format env msg t (color_stop_formatter p) b = plain_flag (color_stop_formatter p) (Inr (color_stop_format b))"
| "flag_format env msg t (source_location_formatter p) b = plain_flag (source_location_formatter p) (on_dest (source_location_format p msg) b)"
| "flag_format env msg t (source_filename_formatter p) b = plain_flag (source_filename_formatter p) (on_dest (source_filename_format p msg) b)"
| "flag_format env msg t (short_filename_formatter p) b = plain_flag (short_filename_formatter p) (on_dest (short_filename_format p msg) b)"
| "flag_format env msg t (source_linenum_formatter p) b = plain_flag (source_linenum_formatter p) (on_dest (source_linenum_format p msg) b)"
| "flag_format env msg t (source_funcname_formatter p) b = plain_flag (source_funcname_formatter p) (on_dest (source_funcname_format p msg) b)"
| "flag_format env msg t (elapsed_formatter p unit_ns lst) b =
     rbind (elapsed_format unit_ns p msg lst (dest b)) (\<lambda>(d, lst'). Inr (elapsed_formatter p unit_ns lst', b\<lparr>dest := d\<rparr>))"
| "flag_format env msg t (full_formatter p ts cached) b =
     rbind (full_formatter_format msg t (ts, cached) b) (\<lambda>(b, ts, cached). Inr (full_formatter p ts cached, b))"
| "flag_format env msg t (custom_formatter h p) b = plain_flag (custom_formatter h p) (on_dest (h p msg t) b)"

section \<open>Compiling a pattern\<close>

type_synonym custom_flags = "char \<Rightarrow> custom_format option"

text \<open>The built-in flags: the cases of the \<^verbatim>\<open>switch\<close>.\<close>

definition builtin_flags :: "int \<Rightarrow> padding_info \<Rightarrow> (char \<times> flag_formatter) list" where
  "builtin_flags now p =
     [(CHR ''+'', full_formatter p 0 []),
      (CHR ''n'', name_formatter p),
      (CHR ''l'', level_formatter p),
      (CHR ''L'', short_level_formatter p),
      (CHR ''t'', t_formatter p),
      (CHR ''v'', v_formatter p),
      (CHR ''a'', a_formatter p),
      (CHR ''A'', A_formatter p),
      (CHR ''b'', b_formatter p),
      (CHR ''h'', b_formatter p),
      (CHR ''B'', B_formatter p),
      (CHR ''c'', c_formatter p),
      (CHR ''C'', C_formatter p),
      (CHR ''Y'', Y_formatter p),
      (CHR ''D'', D_formatter p),
      (CHR ''x'', D_formatter p),
      (CHR ''m'', m_formatter p),
      (CHR ''d'', d_formatter p),
      (CHR ''H'', H_formatter p),
      (CHR ''I'', I_formatter p),
      (CHR ''M'', M_formatter p),
      (CHR ''S'', S_formatter p),
      (CHR ''e'', e_formatter p),
      (CHR ''f'', f_formatter p),
      (CHR ''F'', F_formatter p),
      (CHR ''E'', E_formatter p),
      (CHR ''p'', p_formatter p),
      (CHR ''r'', r_formatter p),
      (CHR ''R'', R_formatter p),
      (CHR ''T'', T_formatter p),
      (CHR ''X'', T_formatter p),
      (CHR ''z'', z_formatter p (0, 0)),
      (CHR ''P'', pid_formatter p),
      (CHR ''^'', color_start_formatter p),
      (CHR ''$'', color_stop_formatter p),
      (CHR ''@'', source_location_formatter p),
      (CHR ''s'', short_filename_formatter p),
      (CHR ''g'', source_filename_formatter p),
      (CHR ''#'', source_linenum_formatter p),
      (CHR ''!'', source_funcname_formatter p),
      (CHR ''%'', ch_formatter CHR ''%''),
      (CHR ''u'', elapsed_formatter p 1 now),
      (CHR ''i'', elapsed_formatter p (10 ^ 3) now),
      (CHR ''o'', elapsed_formatter p (10 ^ 6) now),
      (CHR ''O'', elapsed_formatter p (10 ^ 9) now)]"

text \<open>A user's flags come first; an unknown flag is shown as it is, or ends the name of a function that was cut.\<close>

definition handle_flag :: "custom_flags \<Rightarrow> int \<Rightarrow> char \<Rightarrow> padding_info \<Rightarrow> flag_formatter list" where
  "handle_flag custom now flag p =
     (case custom flag of
        Some h \<Rightarrow> [custom_formatter h p]
      | None \<Rightarrow>
          (case map_of (builtin_flags now p) flag of
             Some f \<Rightarrow> [f]
           | None \<Rightarrow>
               if \<not> trunc_field p then [aggregate_formatter [CHR ''%'', flag]]
               else [source_funcname_formatter (p\<lparr>trunc_field := False\<rparr>), aggregate_formatter [flag]]))"

definition isdigit :: "char \<Rightarrow> bool" where
  "isdigit c \<longleftrightarrow> of_char c \<in> {48..57 :: nat}"

definition max_width :: nat where "max_width = 64"

text \<open>The digits of a width, in \<^verbatim>\<open>size_t\<close>, and what follows them.\<close>

fun read_width :: "nat \<Rightarrow> string \<Rightarrow> nat \<times> string" where
  "read_width width [] = (width, [])"
| "read_width width (c # rest) =
     (if isdigit c then read_width ((width * 10 + (of_char c - 48)) mod 2 ^ 64) rest else (width, c # rest))"

text \<open>The part after the side: the width and the mark for cutting.\<close>

definition pad_number :: "pad_side \<Rightarrow> string \<Rightarrow> padding_info \<times> string" where
  "pad_number sd it =
     (if it = [] \<or> \<not> isdigit (hd it) then (no_padding, it)
      else let (width, it2) = read_width (of_char (hd it) - 48) (tl it)
           in if it2 \<noteq> [] \<and> hd it2 = CHR ''!'' then (padding_info_ctor (min width max_width) sd True, tl it2)
              else (padding_info_ctor (min width max_width) sd False, it2))"

definition handle_padspec :: "string \<Rightarrow> padding_info \<times> string" where
  "handle_padspec it =
     (if it = [] then (no_padding, [])
      else if hd it = CHR ''-'' then pad_number right_side (tl it)
      else if hd it = CHR ''='' then pad_number center_side (tl it)
      else pad_number left_side it)"

lemma read_width_length: "length (snd (read_width w cs)) \<le> length cs"
  by (induction w cs rule: read_width.induct) auto

lemma pad_number_length: "length (snd (pad_number sd it)) \<le> length it"
  using read_width_length [of "of_char (hd it) - 48" "tl it"]
  by (auto simp: pad_number_def Let_def split: prod.splits)

lemma handle_padspec_length: "length (snd (handle_padspec cs)) \<le> length cs"
  using pad_number_length [of right_side "tl cs"] pad_number_length [of center_side "tl cs"] pad_number_length [of left_side cs]
  by (auto simp: handle_padspec_def)

definition user_chars :: "string option \<Rightarrow> flag_formatter list" where
  "user_chars u = (case u of None \<Rightarrow> [] | Some s \<Rightarrow> [aggregate_formatter s])"

function compile_loop :: "custom_flags \<Rightarrow> int \<Rightarrow> string option \<Rightarrow> string \<Rightarrow> flag_formatter list" where
  "compile_loop custom now u [] = user_chars u"
| "compile_loop custom now u (c # cs) =
     (if c = CHR ''%'' then
        user_chars u @
        (let (p, it) = handle_padspec cs in
         case it of [] \<Rightarrow> [] | flag # rest \<Rightarrow> handle_flag custom now flag p @ compile_loop custom now None rest)
      else compile_loop custom now (Some ((case u of None \<Rightarrow> [] | Some s \<Rightarrow> s) @ [c])) cs)"
  by pat_completeness auto
termination
proof (relation "measure (\<lambda>(custom, now, u, cs). length cs)"; clarsimp)
  fix c :: char and cs p flag rest
  assume "(p, flag # rest) = handle_padspec cs"
  then have "length (flag # rest) \<le> length cs" using handle_padspec_length [of cs] by (metis snd_conv)
  then show "length rest < Suc (length cs)" by simp
qed

definition compile_pattern :: "custom_flags \<Rightarrow> int \<Rightarrow> string \<Rightarrow> flag_formatter list" where
  "compile_pattern custom now pattern = compile_loop custom now None pattern"

section \<open>The formatter\<close>

datatype pattern_time_type = local_time | utc_time

record pattern_formatter =
  pattern :: string
  eol :: string
  time_type :: pattern_time_type
  cached_tm :: tm
  last_log_secs :: int
  formatters :: "flag_formatter list"
  custom_handlers :: custom_flags

definition zero_tm :: tm where
  "zero_tm = \<lparr>tm_sec = 0, tm_min = 0, tm_hour = 0, tm_mday = 0, tm_mon = 0, tm_year = 0, tm_wday = 0\<rparr>"

definition pattern_formatter_ctor :: "pattern_env \<Rightarrow> string \<Rightarrow> pattern_time_type \<Rightarrow> string \<Rightarrow> custom_flags \<Rightarrow> pattern_formatter" where
  "pattern_formatter_ctor env pat tt eol_str custom =
     \<lparr>pattern = pat, eol = eol_str, time_type = tt, cached_tm = zero_tm, last_log_secs = 0,
      formatters = compile_pattern custom (clock_now env) pat, custom_handlers = custom\<rparr>"

text \<open>Without a pattern.\<close>

definition default_formatter :: "pattern_time_type \<Rightarrow> string \<Rightarrow> pattern_formatter" where
  "default_formatter tt eol_str =
     \<lparr>pattern = ''%+'', eol = eol_str, time_type = tt, cached_tm = zero_tm, last_log_secs = 0,
      formatters = [full_formatter no_padding 0 []], custom_handlers = \<lambda>c. None\<rparr>"

definition formatter_clone :: "pattern_env \<Rightarrow> pattern_formatter \<Rightarrow> pattern_formatter" where
  "formatter_clone env f = pattern_formatter_ctor env (pattern f) (time_type f) (eol f) (custom_handlers f)"

definition add_flag :: "char \<Rightarrow> custom_format \<Rightarrow> pattern_formatter \<Rightarrow> pattern_formatter" where
  "add_flag flag h f = f\<lparr>custom_handlers := (custom_handlers f)(flag \<mapsto> h)\<rparr>"

definition set_pattern :: "pattern_env \<Rightarrow> string \<Rightarrow> pattern_formatter \<Rightarrow> pattern_formatter" where
  "set_pattern env pat f = f\<lparr>pattern := pat, formatters := compile_pattern (custom_handlers f) (clock_now env) pat\<rparr>"

definition get_time :: "pattern_env \<Rightarrow> log_msg \<Rightarrow> pattern_formatter \<Rightarrow> tm" where
  "get_time env msg f =
     (case time_type f of local_time \<Rightarrow> os_localtime env (seconds_of (time msg)) | utc_time \<Rightarrow> os_gmtime env (seconds_of (time msg)))"

text \<open>The loop over the formatters, which may change.\<close>

fun format_all :: "pattern_env \<Rightarrow> log_msg \<Rightarrow> tm \<Rightarrow> flag_formatter list \<Rightarrow> line_buf \<Rightarrow> (flag_formatter list \<times> line_buf) result" where
  "format_all env msg t [] b = Inr ([], b)"
| "format_all env msg t (f # fs) b =
     rbind (flag_format env msg t f b) (\<lambda>(f', b1). rbind (format_all env msg t fs b1) (\<lambda>(fs', b2). Inr (f' # fs', b2)))"

definition refresh_tm :: "pattern_env \<Rightarrow> log_msg \<Rightarrow> pattern_formatter \<Rightarrow> pattern_formatter" where
  "refresh_tm env msg f =
     (let secs = seconds_of (time msg) in
      if secs \<noteq> last_log_secs f then f\<lparr>cached_tm := get_time env msg f, last_log_secs := secs\<rparr> else f)"

definition pattern_format :: "pattern_env \<Rightarrow> log_msg \<Rightarrow> pattern_formatter \<Rightarrow> line_buf \<Rightarrow> (pattern_formatter \<times> line_buf) result" where
  "pattern_format env msg f b =
     (let f1 = refresh_tm env msg f in
      rbind (format_all env msg (cached_tm f1) (formatters f1) b) (\<lambda>(fs, b1).
        Inr (f1\<lparr>formatters := fs\<rparr>, b1\<lparr>dest := append_string_view (eol f) (dest b1)\<rparr>)))"

section \<open>Printing a pattern\<close>

datatype pattern_item = Chars string | Field padding_info char

definition pad_spec :: "padding_info \<Rightarrow> string" where
  "pad_spec p =
     (if \<not> enabled p then []
      else (case side p of left_side \<Rightarrow> [] | right_side \<Rightarrow> ''-'' | center_side \<Rightarrow> ''='') @ to_string_nat (pad_width p) @
           (if trunc_field p then ''!'' else []))"

fun print_item :: "pattern_item \<Rightarrow> string" where
  "print_item (Chars s) = s"
| "print_item (Field p c) = CHR ''%'' # pad_spec p @ [c]"

fun item_ok :: "pattern_item \<Rightarrow> bool" where
  "item_ok (Chars s) \<longleftrightarrow> s \<noteq> [] \<and> CHR ''%'' \<notin> set s"
| "item_ok (Field p c) \<longleftrightarrow>
     (if enabled p then padding_ok p \<and> (trunc_field p \<or> \<not> isdigit c \<and> c \<noteq> CHR ''!'')
      else p = no_padding \<and> \<not> isdigit c \<and> c \<noteq> CHR ''-'' \<and> c \<noteq> CHR ''='')"

definition starts_chars :: "pattern_item list \<Rightarrow> bool" where
  "starts_chars items \<longleftrightarrow> (case items of Chars s # r \<Rightarrow> True | _ \<Rightarrow> False)"

fun items_ok :: "pattern_item list \<Rightarrow> bool" where
  "items_ok [] \<longleftrightarrow> True"
| "items_ok (item # items) \<longleftrightarrow> item_ok item \<and> \<not> (starts_chars [item] \<and> starts_chars items) \<and> items_ok items"

fun item_formatters :: "custom_flags \<Rightarrow> int \<Rightarrow> pattern_item \<Rightarrow> flag_formatter list" where
  "item_formatters custom now (Chars s) = [aggregate_formatter s]"
| "item_formatters custom now (Field p c) = handle_flag custom now c p"

definition ends_number :: "string \<Rightarrow> bool" where
  "ends_number rest \<longleftrightarrow> rest = [] \<or> \<not> isdigit (hd rest)"

lemma isdigit_char_of: "(d :: nat) < 10 \<Longrightarrow> isdigit (char_of (48 + d)) \<and> of_char (char_of (48 + d) :: char) = 48 + d"
  by (simp add: isdigit_def)

lemma read_width_stop: "ends_number rest \<Longrightarrow> read_width w rest = (w, rest)"
  by (cases rest) (auto simp: ends_number_def)

lemma pad_number_printed:
  assumes "padding_ok p" and "enabled p" and "trunc_field p \<or> ends_number rest \<and> (rest = [] \<or> hd rest \<noteq> CHR ''!'')"
  shows "pad_number (side p) (to_string_nat (pad_width p) @ (if trunc_field p then ''!'' else []) @ rest) = (p, rest)"
proof -
  let ?stop = "(if trunc_field p then ''!'' else []) @ rest"
  have e: "ends_number ?stop" using assms(3) by (auto simp: ends_number_def isdigit_def)
  have w: "pad_width p < 100" using assms(1) by (simp add: padding_ok_def)
  have "\<exists>c cs. to_string_nat (pad_width p) = c # cs \<and> isdigit c \<and> read_width (of_char c - 48) (cs @ ?stop) = (pad_width p, ?stop)"
  proof (cases "pad_width p < 10")
    case True
    then have "to_string_nat (pad_width p) = [char_of (48 + pad_width p)]" by (simp add: to_string_nat.simps)
    with True show ?thesis using isdigit_char_of [OF True] read_width_stop [OF e, of "pad_width p"] by simp
  next
    case False
    let ?a = "pad_width p div 10" and ?b = "pad_width p mod 10"
    have a: "?a < 10" "?b < 10" using w by auto
    then have "to_string_nat (pad_width p) = [char_of (48 + ?a), char_of (48 + ?b)]"
      using False by (simp add: to_string_nat.simps [of "pad_width p"] to_string_nat.simps [of ?a])
    moreover have "(?a * 10 + ?b) mod 2 ^ 64 = pad_width p" using w by simp
    ultimately show ?thesis
      using isdigit_char_of [OF a(1)] isdigit_char_of [OF a(2)] read_width_stop [OF e, of "pad_width p"] by simp
  qed
  then obtain c cs where c: "to_string_nat (pad_width p) = c # cs" "isdigit c" "read_width (of_char c - 48) (cs @ ?stop) = (pad_width p, ?stop)"
    by blast
  have m: "min (pad_width p) max_width = pad_width p" using assms(1) by (simp add: padding_ok_def max_width_def)
  have p: "p = padding_info_ctor (pad_width p) (side p) (trunc_field p)" using assms(2) by (cases p) (simp add: padding_info_ctor_def)
  have "pad_number (side p) (c # cs @ ?stop) = (padding_info_ctor (pad_width p) (side p) (trunc_field p), rest)"
    using c(2,3) m assms(3) by (auto simp: pad_number_def)
  then show ?thesis using c(1) p by simp
qed

lemma digit_not_side: "isdigit c \<Longrightarrow> c \<noteq> CHR ''-'' \<and> c \<noteq> CHR ''=''"
  by (auto simp: isdigit_def)

lemma to_string_nat_head: "\<exists>c cs. to_string_nat n = c # cs \<and> isdigit c"
proof -
  have "to_string_nat n \<noteq> []" by (subst to_string_nat.simps) simp
  then obtain c cs where c: "to_string_nat n = c # cs" by (cases "to_string_nat n") auto
  then have "isdigit c" using to_string_nat_digits [of c n] by (simp add: isdigit_def)
  with c show ?thesis by blast
qed

lemma handle_padspec_printed:
  assumes "item_ok (Field p c)"
  shows "handle_padspec (pad_spec p @ c # rest) = (p, c # rest)"
proof (cases "enabled p")
  case True
  have "pad_number (side p) (to_string_nat (pad_width p) @ (if trunc_field p then ''!'' else []) @ c # rest) = (p, c # rest)"
    using assms True by (intro pad_number_printed) (auto simp: ends_number_def)
  moreover obtain k ks where "to_string_nat (pad_width p) = k # ks" "isdigit k" using to_string_nat_head by blast
  ultimately show ?thesis using True digit_not_side by (cases "side p") (auto simp: handle_padspec_def pad_spec_def)
next
  case False
  with assms show ?thesis by (simp add: handle_padspec_def pad_spec_def pad_number_def)
qed

lemma compile_chars:
  "CHR ''%'' \<notin> set s \<Longrightarrow> s \<noteq> [] \<Longrightarrow>
   compile_loop custom now u (s @ rest) = compile_loop custom now (Some ((case u of None \<Rightarrow> [] | Some r \<Rightarrow> r) @ s)) rest"
proof (induction s arbitrary: u)
  case (Cons c s)
  then show ?case by (cases "s = []") auto
qed simp

lemma compile_printed:
  assumes "items_ok items"
  shows "compile_loop custom now None (concat (map print_item items)) = concat (map (item_formatters custom now) items) \<and>
    (\<not> starts_chars items \<longrightarrow> (\<forall>s.
      compile_loop custom now (Some s) (concat (map print_item items)) = aggregate_formatter s # concat (map (item_formatters custom now) items)))"
  using assms
proof (induction items)
  case Nil
  then show ?case by (simp add: user_chars_def)
next
  case (Cons item items)
  then have ih: "compile_loop custom now None (concat (map print_item items)) = concat (map (item_formatters custom now) items)"
    "\<not> starts_chars items \<Longrightarrow>
      compile_loop custom now (Some s) (concat (map print_item items)) = aggregate_formatter s # concat (map (item_formatters custom now) items)" for s
    by auto
  show ?case
  proof (cases item)
    case (Chars s)
    with Cons.prems ih(2) [of s] show ?thesis by (simp add: compile_chars starts_chars_def)
  next
    case (Field p c)
    then show ?thesis using ih(1) handle_padspec_printed [of p c] Cons.prems by (simp add: user_chars_def)
  qed
qed

end
