(* ===== verification/Pattern_Fields.thy ===== *)
theory Pattern_Fields
  imports Pattern_Formatter
begin

text \<open>
  What a line of the log shows: the text of every field of fixed size, the padding around it, the line of a whole pattern,
  the equivalence of the default formatter with its pattern, and the memory safety of formatting.
\<close>

section \<open>The text of a field\<close>

fun flag_padding :: "flag_formatter \<Rightarrow> padding_info" where
  "flag_padding (name_formatter p) = p"
| "flag_padding (level_formatter p) = p"
| "flag_padding (short_level_formatter p) = p"
| "flag_padding (a_formatter p) = p"
| "flag_padding (A_formatter p) = p"
| "flag_padding (b_formatter p) = p"
| "flag_padding (B_formatter p) = p"
| "flag_padding (c_formatter p) = p"
| "flag_padding (C_formatter p) = p"
| "flag_padding (D_formatter p) = p"
| "flag_padding (Y_formatter p) = p"
| "flag_padding (m_formatter p) = p"
| "flag_padding (d_formatter p) = p"
| "flag_padding (H_formatter p) = p"
| "flag_padding (I_formatter p) = p"
| "flag_padding (M_formatter p) = p"
| "flag_padding (S_formatter p) = p"
| "flag_padding (e_formatter p) = p"
| "flag_padding (f_formatter p) = p"
| "flag_padding (F_formatter p) = p"
| "flag_padding (E_formatter p) = p"
| "flag_padding (p_formatter p) = p"
| "flag_padding (r_formatter p) = p"
| "flag_padding (R_formatter p) = p"
| "flag_padding (T_formatter p) = p"
| "flag_padding (z_formatter p st) = p"
| "flag_padding (t_formatter p) = p"
| "flag_padding (pid_formatter p) = p"
| "flag_padding (v_formatter p) = p"
| "flag_padding (ch_formatter c) = no_padding"
| "flag_padding (aggregate_formatter s) = no_padding"
| "flag_padding (color_start_formatter p) = p"
| "flag_padding (color_stop_formatter p) = p"
| "flag_padding (source_location_formatter p) = p"
| "flag_padding (source_filename_formatter p) = p"
| "flag_padding (short_filename_formatter p) = p"
| "flag_padding (source_linenum_formatter p) = p"
| "flag_padding (source_funcname_formatter p) = p"
| "flag_padding (elapsed_formatter p u l) = p"
| "flag_padding (full_formatter p ts c) = p"
| "flag_padding (custom_formatter h p) = p"

definition valid_tm :: "tm \<Rightarrow> bool" where
  "valid_tm t \<longleftrightarrow> 0 \<le> tm_sec t \<and> tm_sec t \<le> 60 \<and> 0 \<le> tm_min t \<and> tm_min t < 60 \<and> 0 \<le> tm_hour t \<and> tm_hour t < 24 \<and>
     1 \<le> tm_mday t \<and> tm_mday t \<le> 31 \<and> 0 \<le> tm_mon t \<and> tm_mon t < 12 \<and> 0 \<le> tm_wday t \<and> tm_wday t < 7 \<and>
     - 900 \<le> tm_year t \<and> tm_year t \<le> 8099"

definition valid_msg :: "log_msg \<Rightarrow> bool" where
  "valid_msg msg \<longleftrightarrow> level msg \<noteq> level_n_levels \<and> 0 \<le> time msg \<and> thread_id msg < 2 ^ 64 \<and> 0 \<le> line (source msg) \<and> line (source msg) < 2 ^ 31"

definition two :: "int \<Rightarrow> string" where
  "two n = [digit_char (n div 10), digit_char (n mod 10)]"

definition zeros :: "nat \<Rightarrow> nat \<Rightarrow> string" where
  "zeros w n = replicate (w - length (to_string_nat n)) (CHR ''0'') @ to_string_nat n"

definition hms :: "int \<Rightarrow> tm \<Rightarrow> string" where
  "hms hour t = two hour @ '':'' @ two (tm_min t) @ '':'' @ two (tm_sec t)"

text \<open>What a field shows of a message and its time, for the fields that announce their size correctly.\<close>

fun field_text :: "log_msg \<Rightarrow> tm \<Rightarrow> flag_formatter \<Rightarrow> string option" where
  "field_text msg t (name_formatter p) = Some (logger_name msg)"
| "field_text msg t (level_formatter p) = Some (level_string_views ! level_num (level msg))"
| "field_text msg t (short_level_formatter p) = Some (short_level_names ! level_num (level msg))"
| "field_text msg t (a_formatter p) = Some (days ! nat (tm_wday t))"
| "field_text msg t (A_formatter p) = Some (full_days ! nat (tm_wday t))"
| "field_text msg t (b_formatter p) = Some (months ! nat (tm_mon t))"
| "field_text msg t (B_formatter p) = Some (full_months ! nat (tm_mon t))"
| "field_text msg t (Y_formatter p) = Some (to_string_nat (nat (tm_year t + 1900)))"
| "field_text msg t (m_formatter p) = Some (two (tm_mon t + 1))"
| "field_text msg t (d_formatter p) = Some (two (tm_mday t))"
| "field_text msg t (H_formatter p) = Some (two (tm_hour t))"
| "field_text msg t (I_formatter p) = Some (two (to12h t))"
| "field_text msg t (M_formatter p) = Some (two (tm_min t))"
| "field_text msg t (S_formatter p) = Some (two (tm_sec t))"
| "field_text msg t (e_formatter p) = Some (zeros 3 (nat (time msg div 10 ^ 6 mod 1000)))"
| "field_text msg t (f_formatter p) = Some (zeros 6 (nat (time msg div 10 ^ 3 mod 10 ^ 6)))"
| "field_text msg t (F_formatter p) = Some (zeros 9 (nat (time msg mod 10 ^ 9)))"
| "field_text msg t (p_formatter p) = Some (ampm t)"
| "field_text msg t (r_formatter p) = Some (hms (to12h t) t @ '' '' @ ampm t)"
| "field_text msg t (R_formatter p) = Some (two (tm_hour t) @ '':'' @ two (tm_min t))"
| "field_text msg t (T_formatter p) = Some (hms (tm_hour t) t)"
| "field_text msg t (t_formatter p) = Some (to_string_nat (thread_id msg))"
| "field_text msg t (v_formatter p) = Some (payload msg)"
| "field_text msg t (ch_formatter c) = Some [c]"
| "field_text msg t (aggregate_formatter s) = Some s"
| "field_text msg t (source_location_formatter p) =
     (if source_empty (source msg) then None else Some (filename (source msg) @ '':'' @ to_string_nat (nat (line (source msg)))))"
| "field_text msg t (source_filename_formatter p) = (if source_empty (source msg) then None else Some (filename (source msg)))"
| "field_text msg t (short_filename_formatter p) = (if source_empty (source msg) then None else Some (basename (filename (source msg))))"
| "field_text msg t (source_linenum_formatter p) =
     (if source_empty (source msg) then None else Some (to_string_nat (nat (line (source msg)))))"
| "field_text msg t (source_funcname_formatter p) = (if source_empty (source msg) then None else Some (funcname (source msg)))"
| "field_text msg t f = None"

lemma pad_text_none [simp]: "pad_text no_padding txt = txt"
  by (simp add: pad_text_def no_padding_def)

lemma with_padder_fixed:
  assumes "padding_ok p" and "\<And>d. body d = d @ txt" and "length txt = n \<or> \<not> enabled p"
  shows "with_padder n p body d = Inr (d @ pad_text p txt)"
proof (cases "enabled p")
  case True
  have "body = append_string_view txt" using assms(2) by (simp add: fun_eq_iff append_string_view_def)
  then show ?thesis using with_padder_text [OF assms(1), of "txt" d] assms(3) True by auto
next
  case False
  then show ?thesis using assms(2) by (simp add: with_padder_def pad_text_def)
qed

lemma pad2_two: "0 \<le> n \<Longrightarrow> n < 100 \<Longrightarrow> pad2 n d = d @ two n"
  by (simp add: pad2_def two_def)

lemma length_two [simp]: "length (two n) = 2"
  by (simp add: two_def)

lemma to_string_nat_step: "n < 10 \<Longrightarrow> to_string_nat n = [char_of (48 + n)]"
  "10 \<le> n \<Longrightarrow> to_string_nat n = to_string_nat (n div 10) @ [char_of (48 + n mod 10)]"
  by (simp_all add: to_string_nat.simps [of n])

lemma to_string_nat_four:
  assumes "1000 \<le> n" and "n < 10000"
  shows "length (to_string_nat n) = 4"
proof -
  have "10 \<le> n" "10 \<le> n div 10" "10 \<le> n div 10 div 10" "n div 10 div 10 div 10 < 10" using assms by auto
  then show ?thesis by (simp add: to_string_nat_step)
qed

lemma to_string_int_nat: "0 \<le> i \<Longrightarrow> to_string_int i = to_string_nat (nat i)"
  by (simp add: to_string_int_def)

lemma zeros3:
  assumes "n < 1000"
  shows "pad3 n d = d @ zeros 3 n"
proof -
  have z: "char_of (48 :: nat) = CHR ''0''" by code_simp
  have two: "replicate 2 c = [c, c]" for c :: char by (simp add: numeral_2_eq_2)
  have p: "pad3 n d = d @ [char_of (48 + n div 100), char_of (48 + n mod 100 div 10), char_of (48 + n mod 10)]"
    using assms by (simp add: pad3_def digit_char_def mod_mod_cancel nat_div_distrib nat_mod_distrib)
  consider "n < 10" | "10 \<le> n" "n < 100" | "100 \<le> n" by linarith
  then show ?thesis
  proof cases
    case 1
    then show ?thesis unfolding p using z two by (simp add: zeros_def to_string_nat_step)
  next
    case 2
    then have "n div 10 < 10" "n mod 100 = n" "n div 100 = 0" by auto
    with 2 show ?thesis unfolding p using z by (simp add: zeros_def to_string_nat_step)
  next
    case 3
    have "n mod (10 * 10) div 10 = n div 10 mod 10" by (simp only: mod_mult2_eq)
    then have "n mod 100 div 10 = n div 10 mod 10" by simp
    moreover have "n div 10 div 10 = n div 100" by (simp add: div_mult2_eq [symmetric])
    moreover have "n div 100 < 10" "10 \<le> n div 10" using assms 3 by auto
    ultimately show ?thesis unfolding p using 3 by (simp add: zeros_def to_string_nat_step)
  qed
qed

lemma length_zeros: "n < 10 ^ w \<Longrightarrow> 0 < w \<Longrightarrow> length (zeros w n) = w"
  using to_string_nat_length [of n "w - 1"] by (simp add: zeros_def)

lemma pad_uint_zeros: "n < 2 ^ 64 \<Longrightarrow> pad_uint n w d = d @ zeros w n"
  by (simp add: pad_uint_def zeros_def append_int_def count_digits_def to_string_int_nat nat_mod_distrib flip: of_nat_mod)

lemma fraction_nonneg:
  assumes "0 \<le> tp" and "unit_ns * k = 10 ^ 9" and "0 < unit_ns"
  shows "time_fraction unit_ns tp = tp div unit_ns mod k"
proof -
  have k: "10 ^ 9 div unit_ns = k" unfolding assms(2) [symmetric] using assms(3) by simp
  have "0 < unit_ns * k" unfolding assms(2) by simp
  then have "0 < k" using assms(3) zero_less_mult_pos by blast
  then have "tp div (unit_ns * k) = tp div unit_ns div k" by (intro zdiv_zmult2_eq) simp
  then have "tp div 10 ^ 9 = tp div unit_ns div k" unfolding assms(2) .
  then show ?thesis using assms(1) k by (simp add: time_fraction_def seconds_of_def trunc_div_def minus_div_mult_eq_mod)
qed

lemma append_hms_hms:
  "valid_tm t \<Longrightarrow> 0 \<le> h \<Longrightarrow> h < 24 \<Longrightarrow> append_hms h t d = d @ hms h t" "length (hms h t) = 8"
  by (simp_all add: append_hms_def hms_def pad2_two push_def valid_tm_def)

lemma name_lookups:
  "valid_tm t \<Longrightarrow> array_at days (tm_wday t) = Inr (days ! nat (tm_wday t))"
  "valid_tm t \<Longrightarrow> array_at full_days (tm_wday t) = Inr (full_days ! nat (tm_wday t))"
  "valid_tm t \<Longrightarrow> array_at months (tm_mon t) = Inr (months ! nat (tm_mon t))"
  "valid_tm t \<Longrightarrow> array_at full_months (tm_mon t) = Inr (full_months ! nat (tm_mon t))"
  "l \<noteq> level_n_levels \<Longrightarrow> to_short_c_str l = Inr (short_level_names ! level_num l)"
  by (auto simp: array_at_def valid_tm_def days_def full_days_def months_def full_months_def to_short_c_str_def short_level_names_def)
    (cases l; simp)

lemma fraction_bounds: "nat (x mod 1000) < 1000" "nat (x mod 10 ^ 6) < 10 ^ 6" "nat (x mod 10 ^ 9) < 10 ^ 9"
  "x mod 1000 mod 2 ^ 32 = x mod 1000" "x mod 10 ^ 6 mod 2 ^ 64 = x mod 10 ^ 6" "x mod 10 ^ 9 mod 2 ^ 64 = x mod 10 ^ 9" for x :: int
  by (auto simp: nat_less_iff intro!: mod_pos_pos_trivial order.strict_trans [OF pos_mod_bound])

lemma fractions: "valid_msg msg \<Longrightarrow> time_fraction (10 ^ 6) (time msg) = time msg div 10 ^ 6 mod 1000"
  "valid_msg msg \<Longrightarrow> time_fraction (10 ^ 3) (time msg) = time msg div 10 ^ 3 mod 10 ^ 6"
  "valid_msg msg \<Longrightarrow> time_fraction 1 (time msg) = time msg mod 10 ^ 9"
  using fraction_nonneg [of "time msg" "10 ^ 6" 1000] fraction_nonneg [of "time msg" "10 ^ 3" "10 ^ 6"]
    fraction_nonneg [of "time msg" 1 "10 ^ 9"] by (simp_all add: valid_msg_def)


lemma name_fields:
  assumes "padding_ok p"
  shows "name_formatter_format p msg d = Inr (d @ pad_text p (logger_name msg))"
    and "valid_msg msg \<Longrightarrow> level_formatter_format p msg d = Inr (d @ pad_text p (level_string_views ! level_num (level msg)))"
    and "valid_msg msg \<Longrightarrow> short_level_formatter_format p msg d = Inr (d @ pad_text p (short_level_names ! level_num (level msg)))"
    and "v_formatter_format p msg d = Inr (d @ pad_text p (payload msg))"
    and "p_formatter_format p t d = Inr (d @ pad_text p (ampm t))"
  using with_padder_text [OF assms]  with_padder_fixed [OF assms, of "append_string_view (ampm t)" "ampm t" 2]
  by (simp_all add: name_formatter_format_def level_formatter_format_def short_level_formatter_format_def v_formatter_format_def
      p_formatter_format_def valid_msg_def to_string_view_valid name_lookups append_string_view_def ampm_def)

lemma calendar_fields:
  assumes "padding_ok p" and "valid_tm t"
  shows "a_formatter_format p t d = Inr (d @ pad_text p (days ! nat (tm_wday t)))"
    and "A_formatter_format p t d = Inr (d @ pad_text p (full_days ! nat (tm_wday t)))"
    and "b_formatter_format p t d = Inr (d @ pad_text p (months ! nat (tm_mon t)))"
    and "B_formatter_format p t d = Inr (d @ pad_text p (full_months ! nat (tm_mon t)))"
  using with_padder_text [OF assms(1)] assms(2)
  by (simp_all add: a_formatter_format_def A_formatter_format_def b_formatter_format_def B_formatter_format_def name_lookups)

lemma two_digit_field:
  "padding_ok p \<Longrightarrow> 0 \<le> n \<Longrightarrow> n < 100 \<Longrightarrow> with_padder 2 p (pad2 n) d = Inr (d @ pad_text p (two n))"
  by (rule with_padder_fixed) (simp_all add: pad2_two)

lemma two_digit_fields:
  assumes "padding_ok p" and "valid_tm t"
  shows "m_formatter_format p t d = Inr (d @ pad_text p (two (tm_mon t + 1)))"
    and "d_formatter_format p t d = Inr (d @ pad_text p (two (tm_mday t)))"
    and "H_formatter_format p t d = Inr (d @ pad_text p (two (tm_hour t)))"
    and "I_formatter_format p t d = Inr (d @ pad_text p (two (to12h t)))"
    and "M_formatter_format p t d = Inr (d @ pad_text p (two (tm_min t)))"
    and "S_formatter_format p t d = Inr (d @ pad_text p (two (tm_sec t)))"
  using assms two_digit_field [OF assms(1)]
  by (simp_all add: m_formatter_format_def d_formatter_format_def H_formatter_format_def I_formatter_format_def
      M_formatter_format_def S_formatter_format_def valid_tm_def to12h_def)

lemma to12h_range: "valid_tm t \<Longrightarrow> 0 \<le> to12h t \<and> to12h t < 24"
  by (auto simp: valid_tm_def to12h_def)

lemma clock_fields:
  assumes "padding_ok p" and "valid_tm t"
  shows "Y_formatter_format p t d = Inr (d @ pad_text p (to_string_nat (nat (tm_year t + 1900))))"
    and "r_formatter_format p t d = Inr (d @ pad_text p (hms (to12h t) t @ '' '' @ ampm t))"
    and "R_formatter_format p t d = Inr (d @ pad_text p (two (tm_hour t) @ '':'' @ two (tm_min t)))"
    and "T_formatter_format p t d = Inr (d @ pad_text p (hms (tm_hour t) t))"
proof -
  have "1000 \<le> nat (tm_year t + 1900)" "nat (tm_year t + 1900) < 10000" "0 \<le> tm_year t + 1900"
    using assms(2) by (auto simp: valid_tm_def)
  then show "Y_formatter_format p t d = Inr (d @ pad_text p (to_string_nat (nat (tm_year t + 1900))))"
    unfolding Y_formatter_format_def
    by (intro with_padder_fixed assms(1)) (simp_all add: append_int_def to_string_int_nat to_string_nat_four)
  show "r_formatter_format p t d = Inr (d @ pad_text p (hms (to12h t) t @ '' '' @ ampm t))"
    unfolding r_formatter_format_def
    by (intro with_padder_fixed assms(1))
      (use to12h_range [OF assms(2)] assms(2) in \<open>simp_all add: append_hms_hms append_string_view_def push_def ampm_def\<close>)
  have h: "0 \<le> tm_hour t" "tm_hour t < 24" "0 \<le> tm_min t" "tm_min t < 60" using assms(2) by (simp_all add: valid_tm_def)
  then show "R_formatter_format p t d = Inr (d @ pad_text p (two (tm_hour t) @ '':'' @ two (tm_min t)))"
    unfolding R_formatter_format_def by (intro with_padder_fixed assms(1)) (simp_all add: pad2_two push_def)
  show "T_formatter_format p t d = Inr (d @ pad_text p (hms (tm_hour t) t))"
    unfolding T_formatter_format_def by (intro with_padder_fixed assms(1)) (use h assms(2) in \<open>simp_all add: append_hms_hms\<close>)
qed

lemma small_number: "nat (x mod 10 ^ 6) < 2 ^ 64" "nat (x mod 10 ^ 9) < 2 ^ 64" for x :: int
  using fraction_bounds(2,3) [of x] by simp_all

lemma fraction_fields:
  assumes "padding_ok p" and "valid_msg msg"
  shows "e_formatter_format p msg d = Inr (d @ pad_text p (zeros 3 (nat (time msg div 10 ^ 6 mod 1000))))"
    and "f_formatter_format p msg d = Inr (d @ pad_text p (zeros 6 (nat (time msg div 10 ^ 3 mod 10 ^ 6))))"
    and "F_formatter_format p msg d = Inr (d @ pad_text p (zeros 9 (nat (time msg mod 10 ^ 9))))"
proof -
  show "e_formatter_format p msg d = Inr (d @ pad_text p (zeros 3 (nat (time msg div 10 ^ 6 mod 1000))))"
    unfolding e_formatter_format_def fractions(1) [OF assms(2)] fraction_bounds
    by (intro with_padder_fixed assms(1) zeros3 fraction_bounds disjI1 length_zeros) simp_all
  show "f_formatter_format p msg d = Inr (d @ pad_text p (zeros 6 (nat (time msg div 10 ^ 3 mod 10 ^ 6))))"
    unfolding f_formatter_format_def fractions(2) [OF assms(2)] fraction_bounds pad6_def
    by (intro with_padder_fixed assms(1) pad_uint_zeros small_number fraction_bounds disjI1 length_zeros) simp_all
  show "F_formatter_format p msg d = Inr (d @ pad_text p (zeros 9 (nat (time msg mod 10 ^ 9))))"
    unfolding F_formatter_format_def fractions(3) [OF assms(2)] fraction_bounds pad9_def
    by (intro with_padder_fixed assms(1) pad_uint_zeros small_number fraction_bounds disjI1 length_zeros) simp_all
qed

lemma number_field:
  "padding_ok p \<Longrightarrow> 0 \<le> n \<Longrightarrow> n < 2 ^ bits \<Longrightarrow>
   with_padder (count_digits bits n) p (append_int n) d = Inr (d @ pad_text p (to_string_nat (nat n)))"
  by (rule with_padder_fixed) (simp_all add: append_int_def to_string_int_nat count_digits_def)

lemma source_fields:
  assumes "padding_ok p" and "valid_msg msg" and "\<not> source_empty (source msg)"
  shows "source_location_format p msg d =
      Inr (d @ pad_text p (filename (source msg) @ '':'' @ to_string_nat (nat (line (source msg)))))"
    and "source_filename_format p msg d = Inr (d @ pad_text p (filename (source msg)))"
    and "short_filename_format p msg d = Inr (d @ pad_text p (basename (filename (source msg))))"
    and "source_linenum_format p msg d = Inr (d @ pad_text p (to_string_nat (nat (line (source msg)))))"
    and "source_funcname_format p msg d = Inr (d @ pad_text p (funcname (source msg)))"
proof -
  have l: "0 \<le> line (source msg)" "line (source msg) < 2 ^ 32" using assms(2) by (simp_all add: valid_msg_def)
  have "with_padder (if enabled p then length x else 0) p (append_string_view x) d = Inr (d @ pad_text p x)" for x
    by (intro with_padder_fixed assms(1)) (simp_all add: append_string_view_def)
  then show "source_filename_format p msg d = Inr (d @ pad_text p (filename (source msg)))"
    "short_filename_format p msg d = Inr (d @ pad_text p (basename (filename (source msg))))"
    "source_funcname_format p msg d = Inr (d @ pad_text p (funcname (source msg)))"
    using assms(3) by (simp_all add: source_filename_format_def short_filename_format_def source_funcname_format_def Let_def)
  show "source_linenum_format p msg d = Inr (d @ pad_text p (to_string_nat (nat (line (source msg)))))"
    using number_field [OF assms(1) l] assms(3) by (simp add: source_linenum_format_def)
  have "with_padder (if enabled p then length (filename (source msg)) + count_digits 32 (line (source msg)) + 1 else 0) p
      (\<lambda>d. append_int (line (source msg)) (push CHR '':'' (append_string_view (filename (source msg)) d))) d =
      Inr (d @ pad_text p (filename (source msg) @ '':'' @ to_string_nat (nat (line (source msg)))))"
    by (intro with_padder_fixed assms(1))
      (use l in \<open>simp_all add: append_int_def push_def append_string_view_def to_string_int_nat count_digits_def\<close>)
  then show "source_location_format p msg d =
      Inr (d @ pad_text p (filename (source msg) @ '':'' @ to_string_nat (nat (line (source msg)))))"
    using assms(3) by (simp add: source_location_format_def)
qed

lemma thread_field: "padding_ok p \<Longrightarrow> valid_msg msg \<Longrightarrow> t_formatter_format p msg d = Inr (d @ pad_text p (to_string_nat (thread_id msg)))"
  using number_field [of p "int (thread_id msg)" 64 d] by (simp add: t_formatter_format_def valid_msg_def)

lemma field_spec:
  assumes "padding_ok (flag_padding f)" and "valid_tm t" and "valid_msg msg" and "field_text msg t f = Some x"
  shows "flag_format env msg t f b = Inr (f, b\<lparr>dest := dest b @ pad_text (flag_padding f) x\<rparr>)"
  using assms
  by (cases f)
    (auto simp: on_dest_def plain_flag_def name_fields calendar_fields two_digit_fields clock_fields fraction_fields source_fields
      thread_field push_def append_string_view_def split: if_splits)

section \<open>The line of a pattern\<close>

fun source_flag :: "flag_formatter \<Rightarrow> bool" where
  "source_flag (source_location_formatter p) = True"
| "source_flag (source_filename_formatter p) = True"
| "source_flag (short_filename_formatter p) = True"
| "source_flag (source_linenum_formatter p) = True"
| "source_flag (source_funcname_formatter p) = True"
| "source_flag f = False"

text \<open>What a field adds to the line; the fields of the source are left out, without padding, when there is none.\<close>

definition field_out :: "log_msg \<Rightarrow> tm \<Rightarrow> flag_formatter \<Rightarrow> string option" where
  "field_out msg t f =
     (if source_flag f \<and> source_empty (source msg) then Some [] else map_option (pad_text (flag_padding f)) (field_text msg t f))"

fun fields_out :: "log_msg \<Rightarrow> tm \<Rightarrow> flag_formatter list \<Rightarrow> string option" where
  "fields_out msg t [] = Some []"
| "fields_out msg t (f # fs) =
     (case field_out msg t f of None \<Rightarrow> None | Some x \<Rightarrow> map_option (\<lambda>rest. x @ rest) (fields_out msg t fs))"

lemma flag_format_out:
  assumes "padding_ok (flag_padding f)" and "valid_tm t" and "valid_msg msg" and "field_out msg t f = Some x"
  shows "flag_format env msg t f b = Inr (f, b\<lparr>dest := dest b @ x\<rparr>)"
proof (cases "source_flag f \<and> source_empty (source msg)")
  case True
  with assms(4) show ?thesis
    by (cases f) (simp_all add: field_out_def on_dest_def plain_flag_def source_location_format_def source_filename_format_def
        short_filename_format_def source_linenum_format_def source_funcname_format_def)
next
  case False
  then obtain y where "field_text msg t f = Some y" "x = pad_text (flag_padding f) y" using assms(4) by (auto simp: field_out_def)
  then show ?thesis using field_spec [OF assms(1-3)] by simp
qed

lemma format_all_out:
  assumes "\<forall>f\<in>set fs. padding_ok (flag_padding f)" and "valid_tm t" and "valid_msg msg" and "fields_out msg t fs = Some x"
  shows "format_all env msg t fs b = Inr (fs, b\<lparr>dest := dest b @ x\<rparr>)"
  using assms(1,4)
proof (induction fs arbitrary: b x)
  case (Cons f fs)
  then obtain y z where yz: "field_out msg t f = Some y" "fields_out msg t fs = Some z" "x = y @ z" by (auto split: option.splits)
  have "flag_format env msg t f b = Inr (f, b\<lparr>dest := dest b @ y\<rparr>)"
    using Cons.prems(1) yz(1) by (intro flag_format_out assms(2,3)) auto
  then show ?case using Cons.IH [of z "b\<lparr>dest := dest b @ y\<rparr>"] Cons.prems(1) yz by simp
qed simp

section \<open>Padding widths of a compiled pattern\<close>

lemma pad_number_ok: "padding_ok (fst (pad_number sd it))"
  by (auto simp: pad_number_def padding_ok_def padding_info_ctor_def no_padding_def max_width_def Let_def split: prod.splits)

lemma handle_padspec_ok: "handle_padspec cs = (p, it) \<Longrightarrow> padding_ok p"
  using pad_number_ok by (auto simp: handle_padspec_def padding_ok_def no_padding_def split: if_splits) (metis fst_conv)+

lemma builtin_flags_padding: "(c, f) \<in> set (builtin_flags now p) \<Longrightarrow> flag_padding f = p \<or> flag_padding f = no_padding"
  unfolding builtin_flags_def by auto

lemma padding_ok_none [simp]: "padding_ok no_padding"
  by (simp add: padding_ok_def no_padding_def)

lemma handle_flag_ok: "padding_ok p \<Longrightarrow> f \<in> set (handle_flag custom now flag p) \<Longrightarrow> padding_ok (flag_padding f)"
  by (auto simp: handle_flag_def padding_ok_def no_padding_def split: option.splits if_splits dest!: map_of_SomeD builtin_flags_padding)

lemma compile_loop_all:
  assumes "\<And>flag p f. padding_ok p \<Longrightarrow> f \<in> set (handle_flag custom now flag p) \<Longrightarrow> P f" and "\<And>s. P (aggregate_formatter s)"
  shows "f \<in> set (compile_loop custom now u cs) \<Longrightarrow> P f"
  using assms
proof (induction custom now u cs rule: compile_loop.induct)
  case (1 custom now u)
  then show ?case by (auto simp: user_chars_def split: option.splits)
next
  case (2 custom now u c cs)
  show ?case
  proof (cases "c = CHR ''%''")
    case True
    obtain p it where h: "handle_padspec cs = (p, it)" by force
    have "f \<in> set (user_chars u) \<or> (\<exists>flag rest. it = flag # rest \<and>
        (f \<in> set (handle_flag custom now flag p) \<or> f \<in> set (compile_loop custom now None rest)))"
      using 2(3) True h by (auto split: list.splits)
    then show ?thesis using 2(1) [OF True h [symmetric]] 2(4,5) handle_padspec_ok [OF h]
      by (auto simp: user_chars_def split: option.splits)
  next
    case False
    then show ?thesis using 2(2-5) by simp
  qed
qed

lemma compile_loop_ok: "f \<in> set (compile_loop custom now u cs) \<Longrightarrow> padding_ok (flag_padding f)"
  by (rule compile_loop_all [of custom now "\<lambda>f. padding_ok (flag_padding f)"]) (auto intro: handle_flag_ok)

section \<open>Formatting stays within its buffers\<close>

lemma with_padder_safe: "padding_ok p \<Longrightarrow> with_padder n p body d \<noteq> Inl OutOfBounds"
  by (cases "side p") (auto simp: with_padder_def padder_open_def padder_close_def pad_it_def padding_ok_def Let_def)

definition names_ok :: "tm \<Rightarrow> bool" where
  "names_ok t \<longleftrightarrow> 0 \<le> tm_wday t \<and> tm_wday t < 7 \<and> 0 \<le> tm_mon t \<and> tm_mon t < 12"

definition custom_safe :: "custom_format \<Rightarrow> bool" where
  "custom_safe h \<longleftrightarrow> (\<forall>p msg t d. h p msg t d \<noteq> Inl OutOfBounds)"

fun flag_safe :: "flag_formatter \<Rightarrow> bool" where
  "flag_safe (custom_formatter h p) \<longleftrightarrow> custom_safe h"
| "flag_safe f \<longleftrightarrow> padding_ok (flag_padding f)"

lemma array_at_safe: "names_ok t \<Longrightarrow> array_at days (tm_wday t) \<noteq> Inl OutOfBounds"
  "names_ok t \<Longrightarrow> array_at full_days (tm_wday t) \<noteq> Inl OutOfBounds"
  "names_ok t \<Longrightarrow> array_at months (tm_mon t) \<noteq> Inl OutOfBounds"
  "names_ok t \<Longrightarrow> array_at full_months (tm_mon t) \<noteq> Inl OutOfBounds"
  by (auto simp: array_at_def names_ok_def days_def full_days_def months_def full_months_def)

lemma level_safe: "l \<noteq> level_n_levels \<Longrightarrow> to_string_view l \<noteq> Inl OutOfBounds" "l \<noteq> level_n_levels \<Longrightarrow> to_short_c_str l \<noteq> Inl OutOfBounds"
  by (simp_all add: to_string_view_valid name_lookups)

lemmas format_defs = name_formatter_format_def level_formatter_format_def short_level_formatter_format_def a_formatter_format_def
  A_formatter_format_def b_formatter_format_def B_formatter_format_def c_formatter_format_def C_formatter_format_def D_formatter_format_def
  Y_formatter_format_def m_formatter_format_def d_formatter_format_def H_formatter_format_def I_formatter_format_def
  M_formatter_format_def S_formatter_format_def e_formatter_format_def f_formatter_format_def F_formatter_format_def
  E_formatter_format_def p_formatter_format_def r_formatter_format_def R_formatter_format_def T_formatter_format_def
  t_formatter_format_def pid_formatter_format_def v_formatter_format_def source_location_format_def source_filename_format_def
  short_filename_format_def source_linenum_format_def source_funcname_format_def

lemma flag_format_safe:
  assumes "flag_safe f" and "names_ok t" and "level msg \<noteq> level_n_levels"
  shows "flag_format env msg t f b \<noteq> Inl OutOfBounds"
  using assms(1)
  by (cases f)
    (auto simp: plain_flag_def on_dest_def format_defs z_formatter_format_def elapsed_format_def full_formatter_format_def Let_def
      custom_safe_def with_padder_safe array_at_safe [OF assms(2)] level_safe [OF assms(3)] rbind_eq_Inl split: prod.splits if_splits)

lemma flag_format_kept: "flag_format env msg t f b = Inr (f', b') \<Longrightarrow> flag_safe f' = flag_safe f"
  by (cases f) (auto simp: plain_flag_def on_dest_def rbind_eq_Inr)

lemma format_all_safe:
  assumes "\<forall>f\<in>set fs. flag_safe f" and "names_ok t" and "level msg \<noteq> level_n_levels"
  shows "format_all env msg t fs b \<noteq> Inl OutOfBounds \<and> (\<forall>fs' b'. format_all env msg t fs b = Inr (fs', b') \<longrightarrow> (\<forall>f\<in>set fs'. flag_safe f))"
  using assms(1)
proof (induction fs arbitrary: b)
  case (Cons f fs)
  have "flag_format env msg t f b \<noteq> Inl OutOfBounds" using Cons.prems by (intro flag_format_safe assms(2,3)) auto
  then show ?case using Cons.IH Cons.prems by (fastforce simp: rbind_eq_Inl rbind_eq_Inr dest: flag_format_kept)
qed simp

section \<open>Lines of several messages\<close>

definition fresh_line :: line_buf where
  "fresh_line = \<lparr>dest = [], color_range_start = 0, color_range_end = 0\<rparr>"

text \<open>A formatter that gets messages one after the other, each in a new buffer.\<close>

fun format_lines :: "pattern_env \<Rightarrow> log_msg list \<Rightarrow> pattern_formatter \<Rightarrow> (pattern_formatter \<times> line_buf list) result" where
  "format_lines env [] f = Inr (f, [])"
| "format_lines env (msg # msgs) f =
     rbind (pattern_format env msg f fresh_line) (\<lambda>(f1, b). rbind (format_lines env msgs f1) (\<lambda>(f2, bs). Inr (f2, b # bs)))"

definition env_names_ok :: "pattern_env \<Rightarrow> bool" where
  "env_names_ok env \<longleftrightarrow> (\<forall>s. names_ok (os_localtime env s) \<and> names_ok (os_gmtime env s))"

definition formatter_safe :: "pattern_formatter \<Rightarrow> bool" where
  "formatter_safe f \<longleftrightarrow> (\<forall>x\<in>set (formatters f). flag_safe x) \<and> names_ok (cached_tm f)"

lemma pattern_format_safe:
  assumes "formatter_safe f" and "env_names_ok env" and "level msg \<noteq> level_n_levels"
  shows "pattern_format env msg f b \<noteq> Inl OutOfBounds \<and> (\<forall>f' b'. pattern_format env msg f b = Inr (f', b') \<longrightarrow> formatter_safe f')"
proof -
  have "formatter_safe (refresh_tm env msg f)"
    using assms(1,2) by (auto simp: formatter_safe_def refresh_tm_def Let_def get_time_def env_names_ok_def split: pattern_time_type.splits)
  then show ?thesis using format_all_safe [OF _ _ assms(3)]
    by (fastforce simp: pattern_format_def Let_def formatter_safe_def rbind_eq_Inr rbind_eq_Inl)
qed

lemma format_lines_safe:
  assumes "env_names_ok env" and "\<forall>msg\<in>set msgs. level msg \<noteq> level_n_levels" and "formatter_safe f"
  shows "format_lines env msgs f \<noteq> Inl OutOfBounds \<and> (\<forall>f' bs. format_lines env msgs f = Inr (f', bs) \<longrightarrow> formatter_safe f')"
  using assms(2,3)
proof (induction msgs arbitrary: f)
  case (Cons msg msgs)
  then show ?case using pattern_format_safe [OF Cons.prems(2) assms(1), of msg fresh_line]
    by (fastforce simp: rbind_eq_Inr rbind_eq_Inl)
qed simp

lemma handle_flag_safe:
  assumes "padding_ok p" and "\<forall>h\<in>ran custom. custom_safe h" and "f \<in> set (handle_flag custom now flag p)"
  shows "flag_safe f"
proof -
  have "padding_ok (flag_padding f)" using assms(1,3) by (rule handle_flag_ok)
  moreover have "f = custom_formatter h q \<Longrightarrow> custom_safe h" for h q
    using assms(2,3) by (auto simp: handle_flag_def ran_def builtin_flags_def split: option.splits if_splits)
  ultimately show ?thesis by (cases f) auto
qed

lemma ctor_safe:
  "\<forall>h\<in>ran custom. custom_safe h \<Longrightarrow> formatter_safe (pattern_formatter_ctor env pat tt eol_str custom)"
proof -
  assume custom: "\<forall>h\<in>ran custom. custom_safe h"
  have "flag_safe f" if "f \<in> set (compile_pattern custom (clock_now env) pat)" for f
    by (rule compile_loop_all [OF _ _ that [unfolded compile_pattern_def]]) (auto intro: handle_flag_safe [OF _ custom])
  then show ?thesis by (auto simp: formatter_safe_def pattern_formatter_ctor_def names_ok_def zero_tm_def)
qed

section \<open>The default formatter\<close>

text \<open>The pattern that shows what the default formatter shows of a message: with or without its name and its place in the source.\<close>

definition full_pattern :: "bool \<Rightarrow> bool \<Rightarrow> string" where
  "full_pattern with_name with_source =
     ''[%Y-%m-%d %H:%M:%S.%e] '' @ (if with_name then ''[%n] '' else []) @ ''[%^%l%$] '' @ (if with_source then ''[%s:%#] '' else []) @ ''%v''"

definition full_flags :: "bool \<Rightarrow> bool \<Rightarrow> flag_formatter list" where
  "full_flags with_name with_source =
     [aggregate_formatter ''['', Y_formatter no_padding, aggregate_formatter ''-'', m_formatter no_padding, aggregate_formatter ''-'',
      d_formatter no_padding, aggregate_formatter '' '', H_formatter no_padding, aggregate_formatter '':'', M_formatter no_padding,
      aggregate_formatter '':'', S_formatter no_padding, aggregate_formatter ''.'', e_formatter no_padding] @
     (if with_name then [aggregate_formatter ''] ['', name_formatter no_padding] else []) @
     [aggregate_formatter ''] ['', color_start_formatter no_padding, level_formatter no_padding, color_stop_formatter no_padding] @
     (if with_source then [aggregate_formatter ''] ['', short_filename_formatter no_padding, aggregate_formatter '':'',
        source_linenum_formatter no_padding] else []) @ [aggregate_formatter ''] '', v_formatter no_padding]"

lemma compile_full_pattern: "compile_pattern (\<lambda>c. None) now (full_pattern with_name with_source) = full_flags with_name with_source"
  by (cases with_name; cases with_source)
    (simp_all add: compile_pattern_def full_pattern_def full_flags_def handle_padspec_def pad_number_def isdigit_def handle_flag_def
      builtin_flags_def user_chars_def)

text \<open>The formatters of the pattern that fits a message.\<close>

definition fitting_flags :: "log_msg \<Rightarrow> flag_formatter list" where
  "fitting_flags msg = full_flags (logger_name msg \<noteq> []) (\<not> source_empty (source msg))"

lemma with_padder_none [simp]: "with_padder n no_padding body d = Inr (body d)"
  by (simp add: with_padder_def no_padding_def)

definition pad2_text :: "int \<Rightarrow> string" where
  "pad2_text n = pad2 n []"

definition pad3_text :: "nat \<Rightarrow> string" where
  "pad3_text n = pad3 n []"

lemma pad_texts: "pad2 n d = d @ pad2_text n" "pad3 k d = d @ pad3_text k"
  by (simp_all add: pad2_text_def pad3_text_def pad2_def pad3_def append_int_def)

lemmas append_simps = on_dest_def plain_flag_def append_string_view_def push_def append_hms_def append_int_def

lemma full_line:
  assumes "cached = [] \<or> ts \<noteq> seconds_of (time msg) \<or> cached = full_datetime t"
  shows "format_all env msg t (fitting_flags msg) b =
    rbind (full_formatter_format msg t (ts, cached) b) (\<lambda>(b', c). Inr (fitting_flags msg, b'))"
  using assms
  by (cases "logger_name msg = []"; cases "source_empty (source msg)"; cases "to_string_view (level msg)")
    (auto simp: fitting_flags_def full_flags_def full_formatter_format_def full_datetime_def format_defs append_simps pad_texts Let_def
      color_start_format_def color_stop_format_def)

lemma full_cache_kept:
  assumes "full_formatter_format msg t (ts, cached) b = Inr (b', ts', cached')"
    and "cached = [] \<or> ts \<noteq> seconds_of (time msg) \<or> cached = full_datetime t"
  shows "ts' = seconds_of (time msg) \<and> cached' = full_datetime t"
  using assms by (auto simp: full_formatter_format_def Let_def rbind_eq_Inr split: if_splits)

text \<open>The default formatter beside one that is given the fitting pattern for each message: both have read the same messages.\<close>

definition default_tracks :: "pattern_formatter \<Rightarrow> pattern_formatter \<Rightarrow> bool" where
  "default_tracks fm fp \<longleftrightarrow>
     eol fm = eol fp \<and> time_type fm = time_type fp \<and> cached_tm fm = cached_tm fp \<and> last_log_secs fm = last_log_secs fp \<and>
     (\<exists>p ts cached. formatters fm = [full_formatter p ts cached] \<and>
        (cached = [] \<or> ts = last_log_secs fm \<and> cached = full_datetime (cached_tm fm)))"

lemma refresh_tm_fields [simp]:
  "last_log_secs (refresh_tm env msg f) = seconds_of (time msg)" "formatters (refresh_tm env msg f) = formatters f"
  "time_type (refresh_tm env msg f) = time_type f" "eol (refresh_tm env msg f) = eol f"
  by (simp_all add: refresh_tm_def Let_def)

lemma default_tracks_refresh:
  assumes "default_tracks fm fp"
  shows "\<exists>p ts cached. formatters fm = [full_formatter p ts cached] \<and>
      (cached = [] \<or> ts \<noteq> seconds_of (time msg) \<or> cached = full_datetime (cached_tm (refresh_tm env msg fm)))"
    and "cached_tm (refresh_tm env msg (fp\<lparr>formatters := fs\<rparr>)) = cached_tm (refresh_tm env msg fm)"
    and "time_type fp = time_type fm" and "eol fm = eol fp"
  using assms unfolding default_tracks_def
  by (cases "seconds_of (time msg) = last_log_secs fm"; auto simp: refresh_tm_def get_time_def Let_def)+

lemma default_tracks_step:
  assumes "default_tracks fm fp"
  shows "(\<exists>e. pattern_format env msg fm b = Inl e \<and> pattern_format env msg (fp\<lparr>formatters := fitting_flags msg\<rparr>) b = Inl e) \<or>
    (\<exists>fm' fp' b'. pattern_format env msg fm b = Inr (fm', b') \<and>
       pattern_format env msg (fp\<lparr>formatters := fitting_flags msg\<rparr>) b = Inr (fp', b') \<and> default_tracks fm' fp')"
proof -
  note r = default_tracks_refresh [OF assms]
  obtain p ts cached where c: "formatters fm = [full_formatter p ts cached]"
    "cached = [] \<or> ts \<noteq> seconds_of (time msg) \<or> cached = full_datetime (cached_tm (refresh_tm env msg fm))"
    using r(1) by metis
  let ?t = "cached_tm (refresh_tm env msg fm)"
  have line: "format_all env msg ?t (fitting_flags msg) b =
      rbind (full_formatter_format msg ?t (ts, cached) b) (\<lambda>(b', c). Inr (fitting_flags msg, b'))"
    by (rule full_line [OF c(2)])
  show ?thesis
  proof (cases "full_formatter_format msg ?t (ts, cached) b")
    case (Inl e)
    then show ?thesis using r(2-) c(1) line by (simp add: pattern_format_def Let_def)
  next
    case (Inr x)
    obtain b' ts' c' where x: "x = (b', ts', c')" by (cases x)
    have "ts' = seconds_of (time msg) \<and> c' = full_datetime ?t" using full_cache_kept [OF _ c(2)] Inr x by blast
    then show ?thesis using Inr x r(2-) c(1) line by (auto simp: pattern_format_def Let_def default_tracks_def)
  qed
qed

definition lines_of :: "pattern_env \<Rightarrow> log_msg list \<Rightarrow> pattern_formatter \<Rightarrow> line_buf list result" where
  "lines_of env msgs f = rbind (format_lines env msgs f) (\<lambda>(f', bs). Inr bs)"

text \<open>The lines of a formatter that is given, before each message, the formatters compiled from the pattern that fits it.\<close>

fun fitting_lines :: "pattern_env \<Rightarrow> log_msg list \<Rightarrow> pattern_formatter \<Rightarrow> line_buf list result" where
  "fitting_lines env [] f = Inr []"
| "fitting_lines env (msg # msgs) f =
     rbind (pattern_format env msg (f\<lparr>formatters := compile_pattern (\<lambda>c. None) (clock_now env)
              (full_pattern (logger_name msg \<noteq> []) (\<not> source_empty (source msg)))\<rparr>) fresh_line) (\<lambda>(f1, b).
     rbind (fitting_lines env msgs f1) (\<lambda>bs. Inr (b # bs)))"

lemma default_tracks_lines:
  assumes "default_tracks fm fp"
  shows "lines_of env msgs fm = fitting_lines env msgs fp"
  using assms
proof (induction msgs arbitrary: fm fp)
  case (Cons msg msgs)
  have ih: "rbind (format_lines env msgs fm') (\<lambda>(f', bs). Inr bs) = fitting_lines env msgs fp'"
    if "default_tracks fm' fp'" for fm' fp'
    using Cons.IH [of fm' fp'] that by (simp add: lines_of_def)
  have push: "rbind (rbind r (\<lambda>(f2, bs). Inr (f2, c # bs))) (\<lambda>(f', bs). Inr bs) =
      rbind (rbind r (\<lambda>(f', bs). Inr bs)) (\<lambda>bs. Inr (c # bs))" for r :: "(pattern_formatter \<times> line_buf list) result" and c
    by (cases r) auto
  show ?case
    using default_tracks_step [OF Cons.prems, of env msg fresh_line] ih
    by (auto simp: lines_of_def push compile_full_pattern fitting_flags_def)
qed (simp add: lines_of_def)

section \<open>The cached calendar time\<close>

definition tm_at :: "pattern_env \<Rightarrow> pattern_time_type \<Rightarrow> int \<Rightarrow> tm" where
  "tm_at env tt s = (case tt of local_time \<Rightarrow> os_localtime env s | utc_time \<Rightarrow> os_gmtime env s)"

lemma get_time_tm_at: "get_time env msg f = tm_at env (time_type f) (seconds_of (time msg))"
  by (simp add: get_time_def tm_at_def)

definition tm_cache_ok :: "pattern_env \<Rightarrow> pattern_formatter \<Rightarrow> bool" where
  "tm_cache_ok env f \<longleftrightarrow> last_log_secs f = 0 \<or> cached_tm f = tm_at env (time_type f) (last_log_secs f)"

lemma refresh_tm_shows:
  assumes "tm_cache_ok env f" and "seconds_of (time msg) \<noteq> 0"
  shows "cached_tm (refresh_tm env msg f) = get_time env msg f"
  using assms by (auto simp: tm_cache_ok_def refresh_tm_def get_time_tm_at Let_def)

lemma refresh_tm_cache: "tm_cache_ok env f \<Longrightarrow> tm_cache_ok env (refresh_tm env msg f)"
  by (auto simp: tm_cache_ok_def refresh_tm_def get_time_tm_at Let_def)

definition stateless :: "flag_formatter \<Rightarrow> bool" where
  "stateless f \<longleftrightarrow> (\<forall>env msg t b f' b'. flag_format env msg t f b = Inr (f', b') \<longrightarrow> f' = f)"

lemma field_out_stateless: "field_out msg t f = Some x \<Longrightarrow> stateless f"
  by (cases f) (auto simp: field_out_def stateless_def plain_flag_def rbind_eq_Inr)

lemma fields_out_stateless: "fields_out msg t fs = Some x \<Longrightarrow> \<forall>f\<in>set fs. stateless f"
  by (induction fs arbitrary: x) (auto dest: field_out_stateless split: option.splits)

lemma format_all_stateless: "\<forall>f\<in>set fs. stateless f \<Longrightarrow> format_all env msg t fs b = Inr (fs', b') \<Longrightarrow> fs' = fs"
  by (induction fs arbitrary: b fs' b') (fastforce simp: rbind_eq_Inr stateless_def)+

lemma pattern_format_keeps:
  assumes "pattern_format env msg f b = Inr (f', b')"
  shows "eol f' = eol f" "time_type f' = time_type f" "tm_cache_ok env f \<Longrightarrow> tm_cache_ok env f'"
    "\<forall>x\<in>set (formatters f). stateless x \<Longrightarrow> formatters f' = formatters f"
proof -
  from assms obtain fs b1 where a: "format_all env msg (cached_tm (refresh_tm env msg f)) (formatters (refresh_tm env msg f)) b = Inr (fs, b1)"
    "f' = (refresh_tm env msg f)\<lparr>formatters := fs\<rparr>"
    by (auto simp: pattern_format_def Let_def rbind_eq_Inr)
  show "eol f' = eol f" "time_type f' = time_type f" using a by simp_all
  show "tm_cache_ok env f'" if "tm_cache_ok env f" using refresh_tm_cache [OF that, of msg] a(2) by (simp add: tm_cache_ok_def)
  show "formatters f' = formatters f" if "\<forall>x\<in>set (formatters f). stateless x"
    using format_all_stateless [OF _ a(1)] that a(2) by simp
qed

lemma format_lines_keeps:
  assumes "format_lines env msgs f = Inr (f', bs)" and "tm_cache_ok env f" and "\<forall>x\<in>set (formatters f). stateless x"
  shows "eol f' = eol f \<and> time_type f' = time_type f \<and> tm_cache_ok env f' \<and> formatters f' = formatters f"
  using assms
proof (induction msgs arbitrary: f bs)
  case (Cons msg msgs)
  then obtain f1 b bs1 where s: "pattern_format env msg f fresh_line = Inr (f1, b)" "format_lines env msgs f1 = Inr (f', bs1)"
    by (auto simp: rbind_eq_Inr)
  then show ?case using Cons.IH [OF s(2)] Cons.prems(2,3) pattern_format_keeps [OF s(1)] by simp
qed simp

definition printed :: "pattern_item list \<Rightarrow> string" where
  "printed items = concat (map print_item items)"

lemma items_line:
  assumes "items_ok items" and "f = pattern_formatter_ctor env (printed items) tt eol_str custom"
    and "format_lines env msgs f = Inr (f1, bs)" and "valid_msg msg" and "seconds_of (time msg) \<noteq> 0" and "valid_tm (get_time env msg f)"
    and "fields_out msg (get_time env msg f) (concat (map (item_formatters custom (clock_now env)) items)) = Some x"
  shows "\<exists>f2. pattern_format env msg f1 b = Inr (f2, b\<lparr>dest := dest b @ x @ eol_str\<rparr>) \<and> formatters f2 = formatters f1"
proof -
  let ?t = "get_time env msg f"
  have fs: "formatters f = concat (map (item_formatters custom (clock_now env)) items)"
    using compile_printed [OF assms(1)] assms(2) by (simp add: pattern_formatter_ctor_def compile_pattern_def printed_def)
  have "\<forall>g\<in>set (formatters f). stateless g" using fields_out_stateless [OF assms(7)] fs by simp
  moreover have "tm_cache_ok env f" using assms(2) by (simp add: tm_cache_ok_def pattern_formatter_ctor_def)
  ultimately have k: "eol f1 = eol f" "time_type f1 = time_type f" "tm_cache_ok env f1" "formatters f1 = formatters f"
    using format_lines_keeps [OF assms(3)] by auto
  have t: "cached_tm (refresh_tm env msg f1) = ?t" using refresh_tm_shows [OF k(3) assms(5)] k(2) by (simp add: get_time_tm_at)
  have "\<forall>g\<in>set (formatters f). padding_ok (flag_padding g)"
    using assms(2) compile_loop_ok by (auto simp: pattern_formatter_ctor_def compile_pattern_def)
  then have "format_all env msg ?t (formatters f) b = Inr (formatters f, b\<lparr>dest := dest b @ x\<rparr>)"
    using format_all_out assms(4,6,7) fs by simp
  then show ?thesis using k t assms(2) by (simp add: pattern_format_def Let_def append_string_view_def pattern_formatter_ctor_def)
qed

section \<open>Properties\<close>

definition sample_tm :: tm where
  "sample_tm = \<lparr>tm_sec = 9, tm_min = 5, tm_hour = 16, tm_mday = 7, tm_mon = 8, tm_year = 121, tm_wday = 2\<rparr>"

definition sample_env :: pattern_env where
  "sample_env = \<lparr>os_localtime = \<lambda>s. sample_tm, os_gmtime = \<lambda>s. sample_tm, utc_minutes_offset = \<lambda>t. 480, os_pid = 42, clock_now = 0\<rparr>"

definition sample_msg :: log_msg where
  "sample_msg = \<lparr>logger_name = ''ham'', level = level_warn, time = 5000000000, thread_id = 77,
     source = \<lparr>filename = ''a/b.cc'', line = 12, funcname = ''main''\<rparr>, payload = ''hello''\<rparr>"

definition no_custom :: custom_flags where
  "no_custom = (\<lambda>c. None)"

definition short_date :: "tm \<Rightarrow> string" where
  "short_date t = two (tm_mon t + 1) @ ''/'' @ two (tm_mday t) @ ''/'' @ two (tm_year t mod 100)"

text \<open>
  C33.  A pattern is compiled to the formatters of its items: for texts without percent signs, no two in a row, and fields with
  any padding of at most 64 columns, sides and the mark for cutting included, what \<open>compile_pattern\<close> reads from the printed pattern is
  what was printed.
\<close>

theorem pattern_roundtrip:
  assumes "items_ok items"
  shows "compile_pattern custom now (printed items) = concat (map (item_formatters custom now) items)"
  using compile_printed [OF assms] by (simp add: compile_pattern_def printed_def)

theorem pattern_roundtrip_witness:
  "compile_pattern no_custom 0 (printed [Chars ''<'', Field (padding_info_ctor 12 center_side True) CHR ''l'', Chars ''> '', Field no_padding CHR ''v'']) =
   [aggregate_formatter ''<'', level_formatter (padding_info_ctor 12 center_side True), aggregate_formatter ''> '', v_formatter no_padding]"
proof -
  let ?items = "[Chars ''<'', Field (padding_info_ctor 12 center_side True) CHR ''l'', Chars ''> '', Field no_padding CHR ''v'']"
  have ok: "items_ok ?items" by (simp add: starts_chars_def padding_info_ctor_def padding_ok_def no_padding_def isdigit_def)
  show ?thesis unfolding pattern_roundtrip [OF ok] by (simp add: handle_flag_def builtin_flags_def no_custom_def)
qed

text \<open>
  The flags whose fields announce the size they have, show only the message and its calendar time and keep no state.  Not among them
  are \<^verbatim>\<open>%c\<close>, \<^verbatim>\<open>%D\<close>, \<^verbatim>\<open>%x\<close> and \<^verbatim>\<open>%E\<close>, which announce a fixed size that their text need not have, \<^verbatim>\<open>%C\<close>, \<^verbatim>\<open>%z\<close>, \<^verbatim>\<open>%P\<close>, the elapsed
  times \<^verbatim>\<open>%u\<close>, \<^verbatim>\<open>%i\<close>, \<^verbatim>\<open>%o\<close>, \<^verbatim>\<open>%O\<close>, the marks \<^verbatim>\<open>%^\<close> and \<^verbatim>\<open>%$\<close>, and \<^verbatim>\<open>%+\<close>.
\<close>

definition plain_flags :: string where
  "plain_flags = ''nlLtvaAbhBYmdHIMSefFprRTX%@sg#!''"

lemma plain_flags_builtin:
  "\<forall>c\<in>set plain_flags. \<exists>f. map_of (builtin_flags now p) c = Some f \<and> (\<exists>x. field_out msg t f = Some x)"
  by (simp add: plain_flags_def builtin_flags_def field_out_def)

lemma plain_flags_out:
  assumes "c \<in> set plain_flags" and "custom c = None"
  shows "\<exists>x. fields_out msg t (handle_flag custom now c p) = Some x"
proof -
  obtain f x where "map_of (builtin_flags now p) c = Some f" "field_out msg t f = Some x"
    using plain_flags_builtin assms(1) by blast
  with assms(2) show ?thesis by (simp add: handle_flag_def)
qed

lemma fields_out_append:
  "fields_out msg t fs = Some x \<Longrightarrow> fields_out msg t gs = Some y \<Longrightarrow> fields_out msg t (fs @ gs) = Some (x @ y)"
  by (induction fs arbitrary: x) (auto split: option.splits)

lemma plain_items_out:
  assumes "\<forall>p c. Field p c \<in> set items \<longrightarrow> c \<in> set plain_flags \<and> custom c = None"
  shows "\<exists>x. fields_out msg t (concat (map (item_formatters custom now) items)) = Some x"
  using assms
proof (induction items)
  case (Cons item items)
  have "\<exists>x. fields_out msg t (item_formatters custom now item) = Some x"
    using Cons.prems plain_flags_out by (cases item) (fastforce simp: field_out_def)+
  moreover have "\<exists>y. fields_out msg t (concat (map (item_formatters custom now) items)) = Some y"
    by (rule Cons.IH) (use Cons.prems in simp)
  ultimately show ?case using fields_out_append by fastforce
qed simp

text \<open>
  C31.  The line of a message under a pattern of texts and fields with the flags \<open>plain_flags\<close> (none of them redefined by the user).  Whatever
  messages the formatter had before, the line of a message whose time is not in the first second of 1970 is the texts and fields of the
  pattern one after the other and then the end of line: each field shows the message or its own calendar time, never a stale one, padded
  or cut to its width (a field of the source location shows nothing, without padding, when the message has none).  \<^verbatim>\<open>%I\<close> and \<^verbatim>\<open>%r\<close> show the hour
  as \<open>to12h\<close> gives it, which is 0 at midnight.
\<close>

theorem pattern_line:
  assumes "items_ok items" and "\<forall>p c. Field p c \<in> set items \<longrightarrow> c \<in> set plain_flags \<and> custom c = None"
    and "f = pattern_formatter_ctor env (printed items) tt eol_str custom"
    and "format_lines env msgs f = Inr (f1, bs)" and "valid_msg msg" and "seconds_of (time msg) \<noteq> 0" and "valid_tm (get_time env msg f)"
  shows "\<exists>x f2. fields_out msg (get_time env msg f) (concat (map (item_formatters custom (clock_now env)) items)) = Some x \<and>
    pattern_format env msg f1 b = Inr (f2, b\<lparr>dest := dest b @ x @ eol_str\<rparr>) \<and> formatters f2 = formatters f1"
proof -
  obtain x where x: "fields_out msg (get_time env msg f) (concat (map (item_formatters custom (clock_now env)) items)) = Some x"
    using plain_items_out [OF assms(2)] by blast
  with items_line [OF assms(1,3-7) x] show ?thesis by blast
qed

theorem pattern_line_witness:
  "\<exists>f2. pattern_format sample_env sample_msg
      (pattern_formatter_ctor sample_env (printed [Field no_padding CHR ''T'', Chars '' '', Field (padding_info_ctor 9 right_side False) CHR ''l'',
         Field no_padding CHR ''v'']) local_time ''.'' no_custom) fresh_line =
    Inr (f2, fresh_line\<lparr>dest := ''16:05:09 warning  hello.''\<rparr>)"
proof -
  let ?items = "[Field no_padding CHR ''T'', Chars '' '', Field (padding_info_ctor 9 right_side False) CHR ''l'', Field no_padding CHR ''v'']"
  let ?f = "pattern_formatter_ctor sample_env (printed ?items) local_time ''.'' no_custom"
  have ok: "items_ok ?items" by (simp add: starts_chars_def padding_info_ctor_def padding_ok_def no_padding_def isdigit_def)
  have m: "valid_msg sample_msg" "seconds_of (time sample_msg) \<noteq> 0" by (simp_all add: valid_msg_def sample_msg_def seconds_of_def trunc_div_def)
  have t: "get_time sample_env sample_msg ?f = sample_tm" by (simp add: get_time_def pattern_formatter_ctor_def sample_env_def)
  have h: "format_lines sample_env [] ?f = Inr (?f, [])" by simp
  have v: "valid_tm (get_time sample_env sample_msg ?f)" unfolding t by (simp add: valid_tm_def sample_tm_def)
  have x: "fields_out sample_msg (get_time sample_env sample_msg ?f) (concat (map (item_formatters no_custom (clock_now sample_env)) ?items)) = Some ''16:05:09 warning  hello''"
    unfolding t by code_simp
  have "\<forall>p c. Field p c \<in> set ?items \<longrightarrow> c \<in> set plain_flags \<and> no_custom c = None" by (auto simp: plain_flags_def no_custom_def)
  from pattern_line [OF ok this refl h m v, of fresh_line] x show ?thesis by (auto simp: fresh_line_def)
qed

text \<open>
  C32.  The default formatter, which caches the date, against the patterns it stands for.  For any sequence of messages it gives the
  same lines, the same coloured ranges and the same error, if there is one, as a formatter that is given for each message the pattern
  \<open>[%Y-%m-%d %H:%M:%S.%e] [%n] [%^%l%$] [%s:%#] %v\<close>, without \<open>[%n]\<close> if the logger has no name and without \<open>[%s:%#]\<close> if the
  message has no place in the source.  (The comment in the source names the pattern without the place in the source and the colours.)
\<close>

theorem default_pattern:
  "lines_of env msgs (default_formatter tt eol_str) =
   fitting_lines env msgs (pattern_formatter_ctor env pat tt eol_str custom)"
  by (rule default_tracks_lines)
    (simp add: default_tracks_def default_formatter_def pattern_formatter_ctor_def)

text \<open>
  C34.  Formatting keeps within its tables and its spaces: whatever the pattern and the widths written in it, a compiled formatter is
  well-formed (every width is at most 64), any sequence of messages is formatted without reading past the 64 spaces or past the
  tables of names, and leaves it well-formed; if the formatters of the user do the same, the calendar
  gives a day of the week and a month, and the messages have a level below \<^verbatim>\<open>n_levels\<close>.
\<close>

theorem formatters_well_formed:
  assumes "\<forall>h\<in>ran custom. custom_safe h" and "env_names_ok env" and "\<forall>msg\<in>set msgs. level msg \<noteq> level_n_levels"
  shows "formatter_safe (pattern_formatter_ctor env pat tt eol_str custom) \<and>
    format_lines env msgs (pattern_formatter_ctor env pat tt eol_str custom) \<noteq> Inl OutOfBounds \<and>
    (\<forall>f bs. format_lines env msgs (pattern_formatter_ctor env pat tt eol_str custom) = Inr (f, bs) \<longrightarrow> formatter_safe f)"
  using format_lines_safe [OF assms(2,3) ctor_safe [OF assms(1)]] ctor_safe [OF assms(1)] by blast

theorem formatters_well_formed_witness:
  "format_lines sample_env [sample_msg] (pattern_formatter_ctor sample_env ''%-999!D%A%=70z%!'' utc_time [] no_custom) \<noteq> Inl OutOfBounds"
  using formatters_well_formed [of no_custom sample_env "[sample_msg]" "''%-999!D%A%=70z%!''" utc_time "[]"]
  by (simp add: no_custom_def env_names_ok_def names_ok_def sample_env_def sample_tm_def sample_msg_def)

text \<open>
  The short date announces ten columns and writes eight: a field of width \<open>w\<close> with the mark for cutting takes
  \<open>w - 2\<close> columns, and with a width below two it removes what was on the line before it or, with fewer than two columns in all,
  asks in the destructor of the padder for a buffer of nearly \<open>2 ^ 64\<close> bytes, which ends the program in \<^verbatim>\<open>std::terminate\<close>.
\<close>
theorem short_date_padding:
  assumes "padding_ok p" and "enabled p" and "trunc_field p" and "valid_tm t" and "0 \<le> tm_year t"
  shows "D_formatter_format p t d =
    (if length d + pad_width p < 2 then Inl (Terminated ''~scoped_padder'')
     else if pad_width p \<le> 10 then Inr (take (length d + pad_width p - 2) (d @ short_date t))
     else Inr (d @ pad_text (p\<lparr>pad_width := pad_width p - 2\<rparr>) (short_date t)))"
proof -
  have body: "D_formatter_format p t d = with_padder 10 p (append_string_view (short_date t)) d"
  proof -
    have "pad2 (rem100 (tm_year t)) (push CHR ''/'' (pad2 (tm_mday t) (push CHR ''/'' (pad2 (tm_mon t + 1) e)))) = append_string_view (short_date t) e" for e
      using assms(4,5) by (simp add: pad2_two valid_tm_def rem100_def trunc_div_def push_def append_string_view_def short_date_def minus_div_mult_eq_mod)
    then show ?thesis by (simp add: D_formatter_format_def)
  qed
  show ?thesis
  proof (cases "pad_width p \<le> 10")
    case True
    then have "int (pad_width p) - 10 \<le> 0" by simp
    moreover have "nat (int (length d + length (short_date t)) + (int (pad_width p) - 10)) = length d + pad_width p - 2" by (simp add: short_date_def)
    ultimately show ?thesis using assms(2,3) True unfolding body
      by (auto simp: with_padder_def padder_open_def padder_close_def append_string_view_def pad_it_def short_date_def Let_def)
  next
    case False
    let ?p = "p\<lparr>pad_width := pad_width p - 2\<rparr>"
    have "with_padder 10 p (append_string_view (short_date t)) d = with_padder (length (short_date t)) ?p (append_string_view (short_date t)) d"
    proof -
      have "padder_open (length (short_date t)) ?p d = padder_open 10 p d"
        using False by (cases "side p") (simp_all add: padder_open_def short_date_def of_nat_diff)
      moreover have "padder_close ?p = padder_close p" by (simp add: fun_eq_iff padder_close_def)
      ultimately show ?thesis by (simp add: with_padder_def)
    qed
    also have "\<dots> = Inr (d @ pad_text ?p (short_date t))"
      using assms(1) by (intro with_padder_text) (simp add: padding_ok_def)
    finally show ?thesis using False unfolding body by simp
  qed
qed

theorem short_date_padding_witness:
  "D_formatter_format (padding_info_ctor 8 left_side True) sample_tm ''on '' = Inr ''on 09/07/'' \<and>
   D_formatter_format (padding_info_ctor 1 left_side True) sample_tm ''on '' = Inr ''on'' \<and>
   D_formatter_format (padding_info_ctor 1 left_side True) sample_tm [] = Inl (Terminated ''~scoped_padder'')"
proof -
  have t: "valid_tm sample_tm" "0 \<le> tm_year sample_tm" by (simp_all add: valid_tm_def sample_tm_def)
  have p: "padding_ok (padding_info_ctor w left_side True)" "enabled (padding_info_ctor w left_side True)"
    "trunc_field (padding_info_ctor w left_side True)" "pad_width (padding_info_ctor w left_side True) = w" if "w \<le> 64" for w
    using that by (simp_all add: padding_ok_def padding_info_ctor_def)
  have x: "short_date sample_tm = ''09/07/21''" by code_simp
  show ?thesis
    using short_date_padding [OF p(1-3) t, of 8 "''on ''"] short_date_padding [OF p(1-3) t, of 1 "''on ''"] short_date_padding [OF p(1-3) t, of 1 "[]"]
    by (simp add: p(4) x)
qed

end
