(* ===== verification/Spd_Sinks.thy ===== *)
theory Spd_Sinks
  imports Spd_Logger Pattern_Fields
begin

text \<open>
  The two sinks behind the logger of the library: the rotating file with its formatter (\<^verbatim>\<open>base_sink-inl.h\<close>,
  \<^verbatim>\<open>rotating_file_sink-inl.h\<close>) and the coloured console (\<^verbatim>\<open>ansicolor_sink-inl.h\<close>), and what they promise to a logger.  Whether the
  console is a colour terminal is a parameter; its output is the bytes written so far.  A formatter that throws keeps its state.
\<close>

record sink_env =
  files_env :: os_env
  fmt_env :: pattern_env
  ex_what :: "spdlog_ex \<Rightarrow> string"
  color_terminal :: bool

text \<open>An error of the formatter as the caller sees it: only an exception can be caught.\<close>

fun fmt_thrown :: "ham_error \<Rightarrow> thrown" where
  "fmt_thrown (Thrown what) = StdException what"
| "fmt_thrown e = Undefined"

definition file_thrown :: "sink_env \<Rightarrow> spdlog_ex \<Rightarrow> thrown" where
  "file_thrown env e = (if e = WriteToNull then Undefined else StdException (ex_what env e))"

section \<open>The file sink\<close>

record file_sink =
  file_formatter :: pattern_formatter
  rotating :: rotating_sink

definition default_pattern_formatter :: pattern_formatter where
  "default_pattern_formatter = default_formatter local_time [CHR 0x0A]"

definition file_sink_log :: "sink_env \<Rightarrow> log_msg \<Rightarrow> file_sink \<Rightarrow> file_sink call" where
  "file_sink_log env msg s =
     (case pattern_format (fmt_env env) msg (file_formatter s) fresh_line of
        Inl e \<Rightarrow> (s, Some (fmt_thrown e))
      | Inr (f, b) \<Rightarrow>
          let (r, ex) = sink_it (files_env env) (dest b) (rotating s)
          in (s\<lparr>file_formatter := f, rotating := r\<rparr>, map_option (file_thrown env) ex))"

definition file_sink_flush :: "file_sink \<Rightarrow> file_sink call" where
  "file_sink_flush s = (s\<lparr>rotating := sink_flush (rotating s)\<rparr>, None)"

definition file_sink_set_formatter :: "pattern_formatter \<Rightarrow> file_sink \<Rightarrow> file_sink" where
  "file_sink_set_formatter f s = s\<lparr>file_formatter := f\<rparr>"

definition file_sink_set_pattern :: "sink_env \<Rightarrow> string \<Rightarrow> file_sink \<Rightarrow> file_sink" where
  "file_sink_set_pattern env pat s =
     file_sink_set_formatter (pattern_formatter_ctor (fmt_env env) pat local_time [CHR 0x0A] (\<lambda>c. None)) s"

section \<open>The console sink\<close>

datatype color_mode = color_always | color_automatic | color_never

record console_sink =
  console_out :: string
  should_do_colors :: bool
  console_formatter :: pattern_formatter
  colors :: "string list"

definition esc :: "string \<Rightarrow> string" where
  "esc s = CHR 0x1B # s"

definition color_reset :: string where "color_reset = esc ''[m''"
definition color_white :: string where "color_white = esc ''[37m''"
definition color_cyan :: string where "color_cyan = esc ''[36m''"
definition color_green :: string where "color_green = esc ''[32m''"
definition yellow_bold :: string where "yellow_bold = esc ''[33m'' @ esc ''[1m''"
definition red_bold :: string where "red_bold = esc ''[31m'' @ esc ''[1m''"
definition bold_on_red :: string where "bold_on_red = esc ''[1m'' @ esc ''[41m''"

definition set_color_mode :: "sink_env \<Rightarrow> color_mode \<Rightarrow> console_sink \<Rightarrow> console_sink" where
  "set_color_mode env mode s =
     (case mode of
        color_always \<Rightarrow> s\<lparr>should_do_colors := True\<rparr>
      | color_automatic \<Rightarrow> s\<lparr>should_do_colors := color_terminal env\<rparr>
      | color_never \<Rightarrow> s\<lparr>should_do_colors := False\<rparr>)"

text \<open>\<open>out\<close> is what was written to the console before.\<close>

definition console_sink_ctor :: "sink_env \<Rightarrow> color_mode \<Rightarrow> string \<Rightarrow> console_sink" where
  "console_sink_ctor env mode out =
     set_color_mode env mode
       \<lparr>console_out = out, should_do_colors = False, console_formatter = default_pattern_formatter,
        colors = [color_white, color_cyan, color_green, yellow_bold, red_bold, bold_on_red, color_reset]\<rparr>"

definition set_color :: "level_enum \<Rightarrow> string \<Rightarrow> console_sink \<Rightarrow> console_sink result" where
  "set_color color_level color s =
     (if level_num color_level < length (colors s) then Inr (s\<lparr>colors := (colors s)[level_num color_level := color]\<rparr>) else Inl OutOfBounds)"

text \<open>The bytes from \<open>start\<close> to \<open>stop\<close>; a range outside the buffer is not readable.\<close>

definition print_range :: "string \<Rightarrow> nat \<Rightarrow> nat \<Rightarrow> string result" where
  "print_range formatted start stop =
     (if start \<le> stop \<and> stop \<le> length formatted then Inr (take (stop - start) (drop start formatted)) else Inl OutOfBounds)"

definition console_text :: "console_sink \<Rightarrow> log_msg \<Rightarrow> line_buf \<Rightarrow> string result" where
  "console_text s msg b =
     (if should_do_colors s \<and> color_range_start b < color_range_end b then
        rbind (print_range (dest b) 0 (color_range_start b)) (\<lambda>before.
        rbind (array_at (colors s) (int (level_num (level msg)))) (\<lambda>code.
        rbind (print_range (dest b) (color_range_start b) (color_range_end b)) (\<lambda>colored.
        rbind (print_range (dest b) (color_range_end b) (length (dest b))) (\<lambda>after.
          Inr (before @ code @ colored @ color_reset @ after)))))
      else print_range (dest b) 0 (length (dest b)))"

definition console_log :: "sink_env \<Rightarrow> log_msg \<Rightarrow> console_sink \<Rightarrow> console_sink call" where
  "console_log env msg s =
     (case pattern_format (fmt_env env) msg (console_formatter s) fresh_line of
        Inl e \<Rightarrow> (s, Some (fmt_thrown e))
      | Inr (f, b) \<Rightarrow>
          (case console_text s msg b of
             Inl e \<Rightarrow> (s\<lparr>console_formatter := f\<rparr>, Some Undefined)
           | Inr shown \<Rightarrow> (s\<lparr>console_formatter := f, console_out := console_out s @ shown\<rparr>, None)))"

definition console_set_formatter :: "pattern_formatter \<Rightarrow> console_sink \<Rightarrow> console_sink" where
  "console_set_formatter f s = s\<lparr>console_formatter := f\<rparr>"

definition console_set_pattern :: "sink_env \<Rightarrow> string \<Rightarrow> console_sink \<Rightarrow> console_sink" where
  "console_set_pattern env pat s =
     console_set_formatter (pattern_formatter_ctor (fmt_env env) pat local_time [CHR 0x0A] (\<lambda>c. None)) s"

section \<open>Dispatch\<close>

text \<open>The virtual functions of the two classes.  Flushing the console moves no byte of the model.\<close>

datatype ham_sink = Console console_sink | RotatingFile file_sink

definition ham_sinks :: "sink_env \<Rightarrow> (pattern_formatter, ham_sink) sink_ops" where
  "ham_sinks env =
     \<lparr>op_log = \<lambda>msg s. (case s of Console c \<Rightarrow> map_prod Console id (console_log env msg c)
                         | RotatingFile f \<Rightarrow> map_prod RotatingFile id (file_sink_log env msg f)),
      op_flush = \<lambda>s. (case s of Console c \<Rightarrow> (s, None) | RotatingFile f \<Rightarrow> map_prod RotatingFile id (file_sink_flush f)),
      op_set_formatter = \<lambda>g s. (case s of Console c \<Rightarrow> Console (console_set_formatter g c)
                         | RotatingFile f \<Rightarrow> RotatingFile (file_sink_set_formatter g f))\<rparr>"

definition logger_set_pattern :: "sink_env \<Rightarrow> string \<Rightarrow> pattern_time_type \<Rightarrow> spd_logger \<Rightarrow> (ham_sink, 'z) log_world_scheme \<Rightarrow>
    (ham_sink, 'z) log_world_scheme" where
  "logger_set_pattern env pat tt lg w =
     logger_set_formatter (ham_sinks env) (formatter_clone (fmt_env env))
       (pattern_formatter_ctor (fmt_env env) pat tt [CHR 0x0A] (\<lambda>c. None)) lg w"

section \<open>The contract of a sink\<close>

text \<open>Nothing but the states of the sinks changes.\<close>

definition same_rest :: "('s, 'z) log_world_scheme \<Rightarrow> ('s, 'z) log_world_scheme \<Rightarrow> bool" where
  "same_rest w w' \<longleftrightarrow> w' = w\<lparr>sinks := sinks w'\<rparr>"

lemma same_rest_refl [simp]: "same_rest w w"
  by (simp add: same_rest_def)

lemma same_rest_trans: "same_rest a b \<Longrightarrow> same_rest b c \<Longrightarrow> same_rest a c"
  unfolding same_rest_def by (metis log_world.update_convs(1) log_world.select_convs(1) log_world.surjective)

lemma same_rest_sinks [simp]: "same_rest w (w\<lparr>sinks := ss\<rparr>)"
  by (simp add: same_rest_def)

lemma call_quiet: "f (sink_state (sinks w i)) = (s, None) \<Longrightarrow> call_sink env lg f i w = w\<lparr>sinks := (sinks w)(i := (sinks w i)\<lparr>sink_state := s\<rparr>)\<rparr>"
  by (simp add: call_sink_def logger_catch_def)

text \<open>
  A sink that takes messages line by line: \<open>took ls s\<close> says that the sink in state \<open>s\<close> has taken the lines \<open>ls\<close>.  A logger whose
  sinks fulfil the contract loses no message and reports no error.
\<close>

locale line_sink =
  fixes ops :: "('f, 's) sink_ops"
    and took :: "string list \<Rightarrow> 's \<Rightarrow> bool"
    and line_of :: "log_msg \<Rightarrow> string"
    and good :: "log_msg \<Rightarrow> bool"
  assumes log_law: "took ls s \<Longrightarrow> good msg \<Longrightarrow> \<exists>s'. op_log ops msg s = (s', None) \<and> took (ls @ [line_of msg]) s'"
    and flush_law: "took ls s \<Longrightarrow> \<exists>s'. op_flush ops s = (s', None) \<and> took ls s'"
begin

definition all_took :: "nat list \<Rightarrow> string list \<Rightarrow> ('s, 'z) log_world_scheme \<Rightarrow> bool" where
  "all_took is ls w \<longleftrightarrow> (\<forall>i\<in>set is. sink_level (sinks w i) = level_trace \<and> took ls (sink_state (sinks w i)))"

lemma took_log: "took ls s \<Longrightarrow> good msg \<Longrightarrow> snd (op_log ops msg s) = None \<and> took (ls @ [line_of msg]) (fst (op_log ops msg s))"
  using log_law [of ls s msg] by auto

lemma took_flush: "took ls s \<Longrightarrow> snd (op_flush ops s) = None \<and> took ls (fst (op_flush ops s))"
  using flush_law [of ls s] by auto

lemma log_rest:
  assumes "good msg"
  shows "distinct is \<Longrightarrow> all_took is ls w \<Longrightarrow> same_rest w (log_sinks ops env lg msg is w)"
proof (induction "is" arbitrary: w)
  case (Cons j js)
  let ?w = "w\<lparr>sinks := (sinks w)(j := (sinks w j)\<lparr>sink_state := fst (op_log ops msg (sink_state (sinks w j)))\<rparr>)\<rparr>"
  have "took ls (sink_state (sinks w j))" "sink_should_log (level msg) (sinks w j)"
    using Cons.prems(2) by (simp_all add: all_took_def sink_should_log_def less_eq_level_enum_def)
  then have "log_sinks ops env lg msg (j # js) w = log_sinks ops env lg msg js ?w"
    using took_log [OF _ assms] by (simp add: call_quiet [of _ _ _ "fst (op_log ops msg (sink_state (sinks w j)))"] prod_eq_iff)
  moreover have "same_rest ?w (log_sinks ops env lg msg js ?w)" using Cons by (intro Cons.IH) (auto simp: all_took_def)
  ultimately show ?case using same_rest_trans [OF same_rest_sinks] by simp
qed simp

lemma flush_rest: "distinct is \<Longrightarrow> all_took is ls w \<Longrightarrow> same_rest w (flush_sinks ops env lg is w)"
proof (induction "is" arbitrary: w)
  case (Cons j js)
  let ?w = "w\<lparr>sinks := (sinks w)(j := (sinks w j)\<lparr>sink_state := fst (op_flush ops (sink_state (sinks w j)))\<rparr>)\<rparr>"
  have "took ls (sink_state (sinks w j))" using Cons.prems(2) by (simp add: all_took_def)
  then have "flush_sinks ops env lg (j # js) w = flush_sinks ops env lg js ?w"
    using took_flush by (simp add: call_quiet [of _ _ _ "fst (op_flush ops (sink_state (sinks w j)))"] prod_eq_iff)
  moreover have "same_rest ?w (flush_sinks ops env lg js ?w)" using Cons by (intro Cons.IH) (auto simp: all_took_def)
  ultimately show ?case using same_rest_trans [OF same_rest_sinks] by simp
qed simp

lemma log_took:
  "good msg \<Longrightarrow> distinct is \<Longrightarrow> all_took is ls w \<Longrightarrow> all_took is (ls @ [line_of msg]) (log_sinks ops env lg msg is w)"
  using took_log by (auto simp: all_took_def log_sinks_state logged_state_def sink_should_log_def less_eq_level_enum_def)

lemma flush_took: "distinct is \<Longrightarrow> all_took is ls w \<Longrightarrow> all_took is ls (flush_sinks ops env lg is w)"
  using took_flush by (auto simp: all_took_def flush_sinks_state)

lemma sink_it_quiet:
  assumes "good msg" and "distinct (lg_sinks lg)" and "all_took (lg_sinks lg) ls w"
  shows "same_rest w (logger_sink_it ops env lg msg w) \<and> all_took (lg_sinks lg) (ls @ [line_of msg]) (logger_sink_it ops env lg msg w)"
  using log_rest [OF assms, of env lg] log_took [OF assms, of env lg] flush_took [OF assms(2) log_took [OF assms, of env lg], of env lg]
    same_rest_trans [OF log_rest [OF assms, of env lg] flush_rest [OF assms(2) log_took [OF assms, of env lg], of env lg]]
  by (simp add: logger_sink_it_def logger_flush_def Let_def)

end

section \<open>The lines of the library's pattern\<close>

definition ham_pattern :: string where
  "ham_pattern = ''%Y-%m-%d %H:%M:%S [%l] [tid : %t] [%s : %# <%!>] %v''"

definition ham_flags :: "flag_formatter list" where
  "ham_flags =
     [Y_formatter no_padding, aggregate_formatter ''-'', m_formatter no_padding, aggregate_formatter ''-'', d_formatter no_padding,
      aggregate_formatter '' '', H_formatter no_padding, aggregate_formatter '':'', M_formatter no_padding, aggregate_formatter '':'',
      S_formatter no_padding, aggregate_formatter '' ['', level_formatter no_padding, aggregate_formatter ''] [tid : '',
      t_formatter no_padding, aggregate_formatter ''] ['', short_filename_formatter no_padding, aggregate_formatter '' : '',
      source_linenum_formatter no_padding, aggregate_formatter '' <'', source_funcname_formatter no_padding, aggregate_formatter ''>] '',
      v_formatter no_padding]"

lemma compile_ham_pattern: "compile_pattern (\<lambda>c. None) now ham_pattern = ham_flags"
  by (simp add: compile_pattern_def ham_pattern_def ham_flags_def handle_padspec_def pad_number_def isdigit_def handle_flag_def
      builtin_flags_def user_chars_def)

text \<open>The line of a message at a calendar time.\<close>

definition ham_line :: "tm \<Rightarrow> log_msg \<Rightarrow> string" where
  "ham_line t msg =
     to_string_nat (nat (tm_year t + 1900)) @ ''-'' @ two (tm_mon t + 1) @ ''-'' @ two (tm_mday t) @ '' '' @ hms (tm_hour t) t @
     '' ['' @ level_string_views ! level_num (level msg) @ ''] [tid : '' @ to_string_nat (thread_id msg) @ ''] ['' @
     basename (filename (source msg)) @ '' : '' @ to_string_nat (nat (line (source msg))) @ '' <'' @ funcname (source msg) @ ''>] '' @
     payload msg @ [CHR 0x0A]"

definition ham_formatter :: "pattern_env \<Rightarrow> pattern_formatter \<Rightarrow> bool" where
  "ham_formatter penv f \<longleftrightarrow> formatters f = ham_flags \<and> eol f = [CHR 0x0A] \<and> time_type f = local_time \<and> tm_cache_ok penv f"

definition calendar_ok :: "pattern_env \<Rightarrow> bool" where
  "calendar_ok penv \<longleftrightarrow> (\<forall>s. valid_tm (os_localtime penv s))"

definition msg_line :: "pattern_env \<Rightarrow> log_msg \<Rightarrow> string" where
  "msg_line penv msg = ham_line (os_localtime penv (seconds_of (time msg))) msg"

definition good_msg :: "pattern_env \<Rightarrow> log_msg \<Rightarrow> bool" where
  "good_msg penv msg \<longleftrightarrow> valid_msg msg \<and> seconds_of (time msg) \<noteq> 0 \<and> \<not> source_empty (source msg) \<and> length (msg_line penv msg) < 2 ^ 63"

lemma fields_out_ham:
  assumes "\<not> source_empty (source msg)"
  shows "\<exists>x. fields_out msg t ham_flags = Some x \<and> x @ [CHR 0x0A] = ham_line t msg"
  using assms by (simp add: ham_flags_def field_out_def ham_line_def hms_def)

lemma ham_format:
  assumes "ham_formatter penv f" and "good_msg penv msg" and "calendar_ok penv"
  shows "\<exists>f'. pattern_format penv msg f b = Inr (f', b\<lparr>dest := dest b @ msg_line penv msg\<rparr>) \<and> ham_formatter penv f'"
proof -
  let ?t = "os_localtime penv (seconds_of (time msg))"
  have t: "cached_tm (refresh_tm penv msg f) = ?t"
    using refresh_tm_shows [of penv f msg] assms(1,2) by (simp add: ham_formatter_def good_msg_def get_time_tm_at tm_at_def)
  obtain x where x: "fields_out msg ?t ham_flags = Some x" "x @ [CHR 0x0A] = ham_line ?t msg"
    using fields_out_ham assms(2) unfolding good_msg_def by blast
  have "\<forall>g\<in>set ham_flags. padding_ok (flag_padding g)" by (simp add: ham_flags_def)
  then have fa: "format_all penv msg ?t ham_flags b = Inr (ham_flags, b\<lparr>dest := dest b @ x\<rparr>)"
    using assms(2,3) x(1) by (intro format_all_out) (simp_all add: calendar_ok_def good_msg_def)
  have "pattern_format penv msg f b = Inr ((refresh_tm penv msg f)\<lparr>formatters := ham_flags\<rparr>, b\<lparr>dest := dest b @ msg_line penv msg\<rparr>)"
    using assms(1) t fa x(2) by (simp add: pattern_format_def ham_formatter_def append_string_view_def msg_line_def Let_def)
  moreover have "ham_formatter penv ((refresh_tm penv msg f)\<lparr>formatters := ham_flags\<rparr>)"
    using assms(1) refresh_tm_cache [of penv f msg] by (auto simp: ham_formatter_def tm_cache_ok_def)
  ultimately show ?thesis by blast
qed

section \<open>The log files\<close>

text \<open>The files hold an unbroken end of the log, all of it as long as there is room for another file.\<close>

definition file_log :: "string \<Rightarrow> size_t \<Rightarrow> nat \<Rightarrow> string list \<Rightarrow> rotating_sink \<Rightarrow> bool" where
  "file_log base limit n lns s \<longleftrightarrow> (\<exists>segs. holds segs s \<and> seg_sizes (unat limit) segs \<and> suffix (concat (rev segs)) lns \<and>
     (length segs \<le> n \<longrightarrow> concat (rev segs) = lns) \<and> (\<forall>m\<in>set (concat segs). length m < 2 ^ 63)) \<and>
     base_filename s = base \<and> max_size s = limit \<and> max_files s = n \<and> unat limit < 2 ^ 63"

lemma file_log_step:
  assumes "reliable env" and "file_log base limit n lns s" and "length m < 2 ^ 63"
  shows "\<exists>s'. sink_it env m s = (s', None) \<and> file_log base limit n (lns @ [m]) s'"
proof -
  obtain segs where segs: "holds segs s" "seg_sizes (unat limit) segs" "suffix (concat (rev segs)) lns"
    "length segs \<le> n \<longrightarrow> concat (rev segs) = lns" "\<forall>m\<in>set (concat segs). length m < 2 ^ 63"
    and s: "base_filename s = base" "max_size s = limit" "max_files s = n" "unat limit < 2 ^ 63"
    using assms(2) by (auto simp: file_log_def)
  have ne: "segs \<noteq> []" using segs(1) by (simp add: holds_def)
  let ?segs = "rot_push (unat limit) n m segs"
  have "length (concat (hd segs)) + length m < 2 ^ 64" using hd_seg_small [OF ne segs(2,5) s(4)] assms(3) by simp
  then obtain r where r: "sink_it env m s = (r, None)" "holds ?segs r" "base_filename r = base" "max_size r = limit" "max_files r = n"
    using sink_it_spec [OF assms(1) segs(1)] s(1-3) by metis
  note push = rot_push_log [OF ne, of "unat limit" n m]
  have len: "length segs \<le> length ?segs" using segs(1) push(4) s(3) by (auto simp: holds_def)
  have "suffix (concat (rev segs) @ [m]) (lns @ [m])" using segs(3) by (auto simp: suffix_def)
  then have "suffix (concat (rev ?segs)) (lns @ [m])" by (rule suffix_order.trans [OF push(1)])
  moreover have "concat (rev ?segs) = lns @ [m]" if short: "length ?segs \<le> n" using push(2) [OF short] segs(4) len short by simp
  moreover have "set (concat ?segs) \<subseteq> set (concat segs) \<union> {m}" using set_mono_suffix [OF push(1)] by auto
  then have "\<forall>k\<in>set (concat ?segs). length k < 2 ^ 63" using segs(5) assms(3) by auto
  ultimately have "file_log base limit n (lns @ [m]) r"
    using r(2-5) rot_push_sizes [OF ne segs(2)] s(4) unfolding file_log_def by blast
  with r(1) show ?thesis by blast
qed

lemma fh_flush_holds: "holds segs s \<Longrightarrow> holds segs (fh_flush s) \<and> fd (fh_flush s) = Some []"
proof -
  assume h: "holds segs s"
  then obtain p where p: "fd s = Some p" by (auto simp: holds_def)
  let ?s = "s\<lparr>disk := append_file (fh_filename s) p (disk s), fd := Some []\<rparr>"
  have f: "fh_flush s = ?s" using p by (simp add: fh_flush_def write_out_def)
  have "log_text s 0 = Some (concat (segs ! 0))" using h by (auto simp: holds_def)
  then have "numbered s 0 \<noteq> None" by (auto simp: log_text_def)
  then have "log_text ?s j = log_text s j" for j
    using numbered_append [of s p] p h by (auto simp: log_text_def holds_def numbered_def)
  then show ?thesis using h f by (simp add: holds_def)
qed

lemma file_log_flush:
  assumes "file_log base limit n lns s"
  shows "file_log base limit n lns (sink_flush s)" "fd (sink_flush s) = Some []"
proof -
  have k: "base_filename (fh_flush s) = base_filename s" "max_size (fh_flush s) = max_size s" "max_files (fh_flush s) = max_files s"
    by (auto simp: fh_flush_def write_out_def split: option.splits)
  obtain segs where "holds segs s" using assms by (auto simp: file_log_def)
  then show "fd (sink_flush s) = Some []" using fh_flush_holds by (simp add: sink_flush_def)
  show "file_log base limit n lns (sink_flush s)"
    using assms fh_flush_holds k unfolding file_log_def sink_flush_def by metis
qed

section \<open>The sinks of the library fulfil the contract\<close>

definition sink_env_ok :: "sink_env \<Rightarrow> bool" where
  "sink_env_ok env \<longleftrightarrow> reliable (files_env env) \<and> calendar_ok (fmt_env env)"

text \<open>The console shows, after what was there before, the lines one after the other; the files hold the lines after the old ones.\<close>

definition ham_took :: "sink_env \<Rightarrow> string \<Rightarrow> (string \<times> size_t \<times> nat) \<Rightarrow> string list \<Rightarrow> string list \<Rightarrow> ham_sink \<Rightarrow> bool" where
  "ham_took env before conf old lns s \<longleftrightarrow> sink_env_ok env \<and>
     (case s of
        Console c \<Rightarrow> ham_formatter (fmt_env env) (console_formatter c) \<and> console_out c = before @ concat lns
      | RotatingFile f \<Rightarrow> ham_formatter (fmt_env env) (file_formatter f) \<and>
          (case conf of (base, limit, n) \<Rightarrow> file_log base limit n (old @ lns) (rotating f)))"

lemma console_took:
  assumes "ham_took env before conf old lns (Console c)" and "good_msg (fmt_env env) msg"
  shows "\<exists>c'. console_log env msg c = (c', None) \<and> ham_took env before conf old (lns @ [msg_line (fmt_env env) msg]) (Console c')"
proof -
  have c: "ham_formatter (fmt_env env) (console_formatter c)" "sink_env_ok env" "console_out c = before @ concat lns"
    using assms(1) by (simp_all add: ham_took_def)
  obtain f where f: "pattern_format (fmt_env env) msg (console_formatter c) fresh_line =
      Inr (f, fresh_line\<lparr>dest := dest fresh_line @ msg_line (fmt_env env) msg\<rparr>)" "ham_formatter (fmt_env env) f"
    using ham_format [OF c(1) assms(2)] c(2) by (auto simp: sink_env_ok_def)
  then show ?thesis using c by (auto simp: console_log_def console_text_def print_range_def fresh_line_def ham_took_def)
qed

lemma file_sink_line:
  assumes "ham_took env before (base, limit, n) old lns (RotatingFile s)" and "good_msg (fmt_env env) msg"
  shows "\<exists>f r. file_sink_log env msg s = (s\<lparr>file_formatter := f, rotating := r\<rparr>, None) \<and> ham_formatter (fmt_env env) f \<and>
    sink_it (files_env env) (msg_line (fmt_env env) msg) (rotating s) = (r, None) \<and>
    file_log base limit n (old @ lns @ [msg_line (fmt_env env) msg]) r"
proof -
  have s: "ham_formatter (fmt_env env) (file_formatter s)" "sink_env_ok env" "file_log base limit n (old @ lns) (rotating s)"
    using assms(1) by (simp_all add: ham_took_def)
  obtain f where f: "pattern_format (fmt_env env) msg (file_formatter s) fresh_line =
      Inr (f, fresh_line\<lparr>dest := dest fresh_line @ msg_line (fmt_env env) msg\<rparr>)" "ham_formatter (fmt_env env) f"
    using ham_format [OF s(1) assms(2)] s(2) by (auto simp: sink_env_ok_def)
  obtain r where r: "sink_it (files_env env) (msg_line (fmt_env env) msg) (rotating s) = (r, None)"
      "file_log base limit n ((old @ lns) @ [msg_line (fmt_env env) msg]) r"
    using file_log_step [OF _ s(3)] s(2) assms(2) by (auto simp: sink_env_ok_def good_msg_def)
  show ?thesis using f r by (auto simp: file_sink_log_def fresh_line_def)
qed

lemma file_took:
  assumes "ham_took env before conf old lns (RotatingFile s)" and "good_msg (fmt_env env) msg"
  shows "\<exists>s'. file_sink_log env msg s = (s', None) \<and> ham_took env before conf old (lns @ [msg_line (fmt_env env) msg]) (RotatingFile s')"
proof -
  obtain base limit n where conf: "conf = (base, limit, n)" by (cases conf)
  have "sink_env_ok env" using assms(1) by (simp add: ham_took_def)
  then show ?thesis using file_sink_line [OF assms(1) [unfolded conf] assms(2)] by (auto simp: ham_took_def conf)
qed

lemma ham_sinks_ops [simp]:
  "op_log (ham_sinks env) msg (Console c) = map_prod Console id (console_log env msg c)"
  "op_log (ham_sinks env) msg (RotatingFile f) = map_prod RotatingFile id (file_sink_log env msg f)"
  "op_flush (ham_sinks env) (Console c) = (Console c, None)"
  "op_flush (ham_sinks env) (RotatingFile f) = map_prod RotatingFile id (file_sink_flush f)"
  "op_set_formatter (ham_sinks env) g (Console c) = Console (console_set_formatter g c)"
  "op_set_formatter (ham_sinks env) g (RotatingFile f) = RotatingFile (file_sink_set_formatter g f)"
  by (simp_all add: ham_sinks_def)

interpretation ham: line_sink "ham_sinks env" "ham_took env before conf old" "msg_line (fmt_env env)" "good_msg (fmt_env env)"
proof unfold_locales
  fix lns s msg
  assume t: "ham_took env before conf old lns s"
  show "\<exists>s'. op_flush (ham_sinks env) s = (s', None) \<and> ham_took env before conf old lns s'"
    using t file_log_flush(1) by (cases s) (auto simp: file_sink_flush_def ham_took_def split: prod.splits)
  assume good: "good_msg (fmt_env env) msg"
  show "\<exists>s'. op_log (ham_sinks env) msg s = (s', None) \<and> ham_took env before conf old (lns @ [msg_line (fmt_env env) msg]) s'"
  proof (cases s)
    case (Console c)
    then show ?thesis using console_took [of env before conf old lns c, OF _ good] t by auto
  next
    case (RotatingFile f)
    then show ?thesis using file_took [of env before conf old lns f, OF _ good] t by auto
  qed
qed

end
