(* ===== verification/Spd_Registry.thy ===== *)
theory Spd_Registry
  imports Spd_Logger Std_Containers
begin

text \<open>
  Model of \<^verbatim>\<open>spdlog/details/registry-inl.h\<close>.  Loggers are objects behind shared pointers: they live in a store, and the map of
  loggers and the default logger hold their addresses, so that a change through one is seen through the other.  The loops over the
  map go in the order of the names; the code leaves the order open.  The thread pool, the
  periodic flusher and the error handlers of the user are known by numbers.  Locking is left out.
\<close>

record ('s, 'f) registry = "'s log_world" +
  objects :: "nat \<Rightarrow> spd_logger"
  loggers :: "(string, nat) std_map"
  log_levels :: "(string, level_enum) std_map"
  reg_formatter :: 'f
  global_log_level :: level_enum
  reg_flush_level :: level_enum
  reg_err_handler :: "nat option"
  tp :: "nat option"
  periodic_flusher :: "int option"
  default_logger :: "nat option"
  automatic_registration :: bool
  backtrace_n_messages :: nat

text \<open>A call of a member function of the logger at an address.\<close>

definition on_logger :: "nat \<Rightarrow> (spd_logger \<Rightarrow> spd_logger) \<Rightarrow> ('s, 'f) registry \<Rightarrow> ('s, 'f) registry" where
  "on_logger a g r = r\<lparr>objects := (objects r)(a := g (objects r a))\<rparr>"

text \<open>The loops over \<^verbatim>\<open>loggers_\<close>.\<close>

definition apply_all :: "(nat \<Rightarrow> ('s, 'f) registry \<Rightarrow> ('s, 'f) registry) \<Rightarrow> ('s, 'f) registry \<Rightarrow> ('s, 'f) registry" where
  "apply_all fun r = fold (\<lambda>(name, l). fun l) (loggers r) r"

text \<open>The constructor, with the world before it, the default formatter, and the addresses of the default logger and its sink.\<close>

definition registry_ctor :: "'s log_world \<Rightarrow> (nat \<Rightarrow> spd_logger) \<Rightarrow> 'f \<Rightarrow> nat \<Rightarrow> nat \<Rightarrow> ('s, 'f) registry" where
  "registry_ctor w objs f a color_sink =
     log_world.extend w \<lparr>objects = objs(a := spd_logger_ctor [] [color_sink]), loggers = map_set [] a [], log_levels = [], reg_formatter = f,
        global_log_level = level_info, reg_flush_level = level_off, reg_err_handler = None, tp = None, periodic_flusher = None,
        default_logger = Some a, automatic_registration = True, backtrace_n_messages = 0\<rparr>"

definition throw_if_exists :: "string \<Rightarrow> ('s, 'f) registry \<Rightarrow> string option" where
  "throw_if_exists name r =
     (if map_of (loggers r) name \<noteq> None then Some (''logger with name '' @ [CHR 0x27] @ name @ [CHR 0x27] @ '' already exists'') else None)"

text \<open>The registry afterwards, and what was thrown.\<close>

definition register_logger :: "nat \<Rightarrow> ('s, 'f) registry \<Rightarrow> ('s, 'f) registry \<times> string option" where
  "register_logger a r =
     (let name = lg_name (objects r a) in
      case throw_if_exists name r of
        Some ex \<Rightarrow> (r, Some ex)
      | None \<Rightarrow> (r\<lparr>loggers := map_set name a (loggers r)\<rparr>, None))"

text \<open>The settings a new logger gets.\<close>

definition configure_logger :: "('f, 's) sink_ops \<Rightarrow> ('f \<Rightarrow> 'f) \<Rightarrow> nat \<Rightarrow> ('s, 'f) registry \<Rightarrow> ('s, 'f) registry" where
  "configure_logger ops clone a r =
     (let r1 = logger_set_formatter ops clone (clone (reg_formatter r)) (objects r a) r;
          r2 = (if reg_err_handler r1 \<noteq> None then on_logger a (logger_set_error_handler (reg_err_handler r1)) r1 else r1);
          new_level = (case map_of (log_levels r2) (lg_name (objects r2 a)) of Some l \<Rightarrow> l | None \<Rightarrow> global_log_level r2);
          r3 = on_logger a (logger_set_level new_level) r2;
          r4 = on_logger a (logger_flush_on (reg_flush_level r3)) r3
      in if 0 < backtrace_n_messages r4 then on_logger a (logger_enable_backtrace (backtrace_n_messages r4)) r4 else r4)"

definition initialize_logger :: "('f, 's) sink_ops \<Rightarrow> ('f \<Rightarrow> 'f) \<Rightarrow> nat \<Rightarrow> ('s, 'f) registry \<Rightarrow> ('s, 'f) registry \<times> string option" where
  "initialize_logger ops clone a r =
     (let r1 = configure_logger ops clone a r
      in if automatic_registration r1 then register_logger a r1 else (r1, None))"

definition get_logger :: "string \<Rightarrow> ('s, 'f) registry \<Rightarrow> nat option" where
  "get_logger name r = map_of (loggers r) name"

definition get_default_raw :: "('s, 'f) registry \<Rightarrow> nat option" where
  "get_default_raw r = default_logger r"

definition set_default_logger :: "nat option \<Rightarrow> ('s, 'f) registry \<Rightarrow> ('s, 'f) registry" where
  "set_default_logger new_default r =
     (let r1 = (case default_logger r of None \<Rightarrow> r | Some d \<Rightarrow> r\<lparr>loggers := map_erase (lg_name (objects r d)) (loggers r)\<rparr>);
          r2 = (case new_default of None \<Rightarrow> r1 | Some a \<Rightarrow> r1\<lparr>loggers := map_set (lg_name (objects r1 a)) a (loggers r1)\<rparr>)
      in r2\<lparr>default_logger := new_default\<rparr>)"

definition set_tp :: "nat option \<Rightarrow> ('s, 'f) registry \<Rightarrow> ('s, 'f) registry" where
  "set_tp t r = r\<lparr>tp := t\<rparr>"

definition reg_set_formatter :: "('f, 's) sink_ops \<Rightarrow> ('f \<Rightarrow> 'f) \<Rightarrow> 'f \<Rightarrow> ('s, 'f) registry \<Rightarrow> ('s, 'f) registry" where
  "reg_set_formatter ops clone f r =
     apply_all (\<lambda>l r. logger_set_formatter ops clone (clone (reg_formatter r)) (objects r l) r) (r\<lparr>reg_formatter := f\<rparr>)"

definition reg_enable_backtrace :: "nat \<Rightarrow> ('s, 'f) registry \<Rightarrow> ('s, 'f) registry" where
  "reg_enable_backtrace n_messages r =
     apply_all (\<lambda>l. on_logger l (logger_enable_backtrace n_messages)) (r\<lparr>backtrace_n_messages := n_messages\<rparr>)"

definition reg_disable_backtrace :: "('s, 'f) registry \<Rightarrow> ('s, 'f) registry" where
  "reg_disable_backtrace r = apply_all (\<lambda>l. on_logger l logger_disable_backtrace) (r\<lparr>backtrace_n_messages := 0\<rparr>)"

definition reg_set_level :: "level_enum \<Rightarrow> ('s, 'f) registry \<Rightarrow> ('s, 'f) registry" where
  "reg_set_level log_level r = (apply_all (\<lambda>l. on_logger l (logger_set_level log_level)) r)\<lparr>global_log_level := log_level\<rparr>"

definition reg_flush_on :: "level_enum \<Rightarrow> ('s, 'f) registry \<Rightarrow> ('s, 'f) registry" where
  "reg_flush_on log_level r = (apply_all (\<lambda>l. on_logger l (logger_flush_on log_level)) r)\<lparr>reg_flush_level := log_level\<rparr>"

definition flush_every :: "int \<Rightarrow> ('s, 'f) registry \<Rightarrow> ('s, 'f) registry" where
  "flush_every interval r = r\<lparr>periodic_flusher := Some interval\<rparr>"

definition reg_set_error_handler :: "nat option \<Rightarrow> ('s, 'f) registry \<Rightarrow> ('s, 'f) registry" where
  "reg_set_error_handler handler r =
     (apply_all (\<lambda>l. on_logger l (logger_set_error_handler handler)) r)\<lparr>reg_err_handler := handler\<rparr>"

definition flush_all :: "('f, 's) sink_ops \<Rightarrow> log_env \<Rightarrow> ('s, 'f) registry \<Rightarrow> ('s, 'f) registry" where
  "flush_all ops env r = apply_all (\<lambda>l r. logger_flush ops env (objects r l) r) r"

definition drop_logger :: "string \<Rightarrow> ('s, 'f) registry \<Rightarrow> ('s, 'f) registry" where
  "drop_logger name r =
     (let r1 = r\<lparr>loggers := map_erase name (loggers r)\<rparr> in
      case default_logger r1 of
        Some d \<Rightarrow> if lg_name (objects r1 d) = name then r1\<lparr>default_logger := None\<rparr> else r1
      | None \<Rightarrow> r1)"

definition drop_all :: "('s, 'f) registry \<Rightarrow> ('s, 'f) registry" where
  "drop_all r = r\<lparr>loggers := [], default_logger := None\<rparr>"

definition reg_shutdown :: "('s, 'f) registry \<Rightarrow> ('s, 'f) registry" where
  "reg_shutdown r = (drop_all (r\<lparr>periodic_flusher := None\<rparr>))\<lparr>tp := None\<rparr>"

definition set_automatic_registration :: "bool \<Rightarrow> ('s, 'f) registry \<Rightarrow> ('s, 'f) registry" where
  "set_automatic_registration auto_reg r = r\<lparr>automatic_registration := auto_reg\<rparr>"

definition set_levels :: "(string, level_enum) std_map \<Rightarrow> level_enum option \<Rightarrow> ('s, 'f) registry \<Rightarrow> ('s, 'f) registry" where
  "set_levels levels global_level r =
     (let r1 = r\<lparr>log_levels := levels, global_log_level := (case global_level of Some l \<Rightarrow> l | None \<Rightarrow> global_log_level r)\<rparr> in
      fold (\<lambda>(name, l) r.
        case map_of (log_levels r) name of
          Some lvl \<Rightarrow> on_logger l (logger_set_level lvl) r
        | None \<Rightarrow> (case global_level of Some lvl \<Rightarrow> on_logger l (logger_set_level lvl) r | None \<Rightarrow> r)) (loggers r1) r1)"

section \<open>The books\<close>

text \<open>Every logger is registered under its name, and the default logger is registered.\<close>

definition registry_ok :: "('s, 'f) registry \<Rightarrow> bool" where
  "registry_ok r \<longleftrightarrow> map_ok (loggers r) \<and> (\<forall>name a. map_of (loggers r) name = Some a \<longrightarrow> lg_name (objects r a) = name) \<and>
     (\<forall>d. default_logger r = Some d \<longrightarrow> map_of (loggers r) (lg_name (objects r d)) = Some d)"

text \<open>What the books are about.\<close>

definition books :: "('s, 'f) registry \<Rightarrow> (string, nat) std_map \<times> nat option \<times> (nat \<Rightarrow> string)" where
  "books r = (loggers r, default_logger r, \<lambda>a. lg_name (objects r a))"

lemma registry_ok_books: "books r' = books r \<Longrightarrow> registry_ok r' = registry_ok r"
  by (simp add: books_def registry_ok_def fun_eq_iff)

lemma books_fold: "(\<And>x r. books (f x r) = books r) \<Longrightarrow> books (fold f xs r) = books r"
  by (induction xs arbitrary: r) simp_all

lemma books_apply_all: "(\<And>l r. books (f l r) = books r) \<Longrightarrow> books (apply_all f r) = books r"
  unfolding apply_all_def by (rule books_fold) auto

lemma books_on_logger [simp]: "(\<And>lg. lg_name (g lg) = lg_name lg) \<Longrightarrow> books (on_logger a g r) = books r"
  by (simp add: books_def on_logger_def fun_eq_iff)

lemma books_updates [simp]: "books (r\<lparr>log_levels := x1\<rparr>) = books r" "books (r\<lparr>reg_formatter := x2\<rparr>) = books r"
  "books (r\<lparr>global_log_level := x3\<rparr>) = books r" "books (r\<lparr>reg_flush_level := x4\<rparr>) = books r" "books (r\<lparr>reg_err_handler := x5\<rparr>) = books r"
  "books (r\<lparr>tp := x6\<rparr>) = books r" "books (r\<lparr>periodic_flusher := x7\<rparr>) = books r" "books (r\<lparr>automatic_registration := x8\<rparr>) = books r"
  "books (r\<lparr>backtrace_n_messages := x9\<rparr>) = books r"
  by (simp_all add: books_def)

lemma setters_name [simp]: "lg_name (logger_set_level l lg) = lg_name lg" "lg_name (logger_flush_on l lg) = lg_name lg"
  "lg_name (logger_set_error_handler h lg) = lg_name lg" "lg_name (logger_enable_backtrace n lg) = lg_name lg"
  "lg_name (logger_disable_backtrace lg) = lg_name lg"
  by (simp_all add: logger_set_level_def logger_flush_on_def logger_set_error_handler_def logger_enable_backtrace_def
      logger_disable_backtrace_def)

text \<open>Calls of sinks leave the books alone.\<close>

lemma more_err_handler: "log_world.more (err_handler env lg m w) = log_world.more w"
  by (auto simp: err_handler_def read_clock_def Let_def split: option.split)

lemma more_call_sink: "log_world.more (call_sink env lg f i w) = log_world.more w"
  by (auto simp: call_sink_def logger_catch_def more_err_handler split: prod.split option.split thrown.split)

lemma more_log_sinks: "log_world.more (log_sinks ops env lg msg is w) = log_world.more w"
  by (induction "is" arbitrary: w) (simp_all add: more_call_sink)

lemma more_flush_sinks: "log_world.more (flush_sinks ops env lg is w) = log_world.more w"
  by (induction "is" arbitrary: w) (simp_all add: more_call_sink)

lemma more_sink_it: "log_world.more (logger_sink_it ops env lg msg w) = log_world.more w"
  by (simp add: logger_sink_it_def logger_flush_def more_log_sinks more_flush_sinks Let_def)

lemma more_set_formatters: "log_world.more (set_formatters ops clone f is w) = log_world.more w"
  by (induction "is" arbitrary: w) (simp_all add: Let_def)

lemma books_more:
  fixes r r' :: "('s, 'f) registry"
  shows "log_world.more r' = log_world.more r \<Longrightarrow> books r' = books r"
  by (cases r; cases r') (simp add: books_def)

lemma books_sinks [simp]: "books (logger_set_formatter ops clone f lg r) = books r" "books (logger_flush ops env lg r) = books r"
  by (rule books_more; simp add: logger_set_formatter_def logger_flush_def more_set_formatters more_flush_sinks)+

lemma registry_ok_ctor: "registry_ok (registry_ctor w objs f a color_sink)"
  by (simp add: registry_ok_def registry_ctor_def log_world.defs spd_logger_ctor_def map_ok_def)

lemma register_logger_ok:
  assumes "registry_ok r"
  shows "registry_ok (fst (register_logger a r))"
  using assms
  by (auto simp: register_logger_def registry_ok_def throw_if_exists_def map_of_map_set map_ok_set Let_def split: if_splits)

lemma set_default_logger_ok:
  assumes "registry_ok r"
  shows "registry_ok (set_default_logger d r)"
  using assms
  by (cases "default_logger r"; cases d)
    (auto simp: set_default_logger_def registry_ok_def map_of_map_set map_of_map_erase map_ok_set map_ok_erase Let_def split: if_splits)

lemma drop_logger_ok:
  assumes "registry_ok r"
  shows "registry_ok (drop_logger name r)"
  using assms
  by (cases "default_logger r")
    (auto simp: drop_logger_def registry_ok_def map_of_map_erase map_ok_erase Let_def split: if_splits)

lemma books_configure: "books (configure_logger ops clone a r) = books r"
  by (simp add: configure_logger_def Let_def)

lemma initialize_logger_ok:
  assumes "registry_ok r"
  shows "registry_ok (fst (initialize_logger ops clone a r))"
  using assms by (simp add: initialize_logger_def Let_def register_logger_ok registry_ok_books [OF books_configure])

section \<open>Any use of the registry\<close>

datatype 'f reg_op =
    NewLogger nat string "nat list"
  | Register nat
  | Initialize nat
  | SetDefault "nat option"
  | SetFormatter 'f
  | EnableBacktrace nat
  | DisableBacktrace
  | SetLevel level_enum
  | FlushOn level_enum
  | SetErrorHandler "nat option"
  | FlushAll
  | Drop string
  | DropAll
  | Shutdown
  | SetAutomaticRegistration bool
  | SetLevels "(string, level_enum) std_map" "level_enum option"
  | Log nat source_loc level_enum string

text \<open>Addresses that the registry holds are in use; a new logger gets another one.\<close>

definition in_use :: "nat \<Rightarrow> ('s, 'f) registry \<Rightarrow> bool" where
  "in_use a r \<longleftrightarrow> a \<in> snd ` set (loggers r) \<or> default_logger r = Some a"

fun run_reg_op :: "('f, 's) sink_ops \<Rightarrow> log_env \<Rightarrow> ('f \<Rightarrow> 'f) \<Rightarrow> 'f reg_op \<Rightarrow> ('s, 'f) registry \<Rightarrow> ('s, 'f) registry" where
  "run_reg_op ops env clone (NewLogger a name ss) r = (if in_use a r then r else on_logger a (\<lambda>old. spd_logger_ctor name ss) r)"
| "run_reg_op ops env clone (Register a) r = fst (register_logger a r)"
| "run_reg_op ops env clone (Initialize a) r = fst (initialize_logger ops clone a r)"
| "run_reg_op ops env clone (SetDefault d) r = set_default_logger d r"
| "run_reg_op ops env clone (SetFormatter f) r = reg_set_formatter ops clone f r"
| "run_reg_op ops env clone (EnableBacktrace n) r = reg_enable_backtrace n r"
| "run_reg_op ops env clone DisableBacktrace r = reg_disable_backtrace r"
| "run_reg_op ops env clone (SetLevel l) r = reg_set_level l r"
| "run_reg_op ops env clone (FlushOn l) r = reg_flush_on l r"
| "run_reg_op ops env clone (SetErrorHandler h) r = reg_set_error_handler h r"
| "run_reg_op ops env clone FlushAll r = flush_all ops env r"
| "run_reg_op ops env clone (Drop name) r = drop_logger name r"
| "run_reg_op ops env clone DropAll r = drop_all r"
| "run_reg_op ops env clone Shutdown r = reg_shutdown r"
| "run_reg_op ops env clone (SetAutomaticRegistration b) r = set_automatic_registration b r"
| "run_reg_op ops env clone (SetLevels levels global) r = set_levels levels global r"
| "run_reg_op ops env clone (Log a loc lvl msg) r =
     (let (lg, r') = log_string ops env loc lvl msg (objects r a) r in on_logger a (\<lambda>old. lg) r')"

lemma log_string_books:
  assumes "log_string ops env loc lvl msg lg r = (lg1, r1)"
  shows "books r1 = books r" "lg_name lg1 = lg_name lg"
proof -
  show "books r1 = books r"
    by (rule books_more) (use assms in \<open>auto simp: log_string_def log_it_def read_clock_def more_sink_it Let_def split: if_splits\<close>)
  show "lg_name lg1 = lg_name lg"
    using assms by (auto simp: log_string_def log_it_def Let_def split: if_splits prod.splits)
qed

lemma books_loops [simp]:
  "books (reg_enable_backtrace n r) = books r" "books (reg_disable_backtrace r) = books r" "books (reg_set_level l r) = books r"
  "books (reg_flush_on l r) = books r" "books (reg_set_error_handler h r) = books r" "books (flush_all ops env r) = books r"
  "books (reg_set_formatter ops clone f r) = books r" "books (set_automatic_registration b r) = books r"
  by (simp_all add: reg_enable_backtrace_def reg_disable_backtrace_def reg_set_level_def reg_flush_on_def reg_set_error_handler_def
      flush_all_def reg_set_formatter_def set_automatic_registration_def books_apply_all)

lemma books_set_levels [simp]: "books (set_levels levels global r) = books r"
  unfolding set_levels_def Let_def by (subst books_fold) (auto split: option.split)

lemma registered: "map_of (loggers r) name = Some b \<Longrightarrow> b \<in> snd ` set (loggers r)"
  by (force dest: map_of_SomeD)

lemma new_logger_ok:
  assumes "registry_ok r" and "\<not> in_use a r"
  shows "registry_ok (on_logger a (\<lambda>old. lg) r)"
proof -
  have "b \<noteq> a" if "map_of (loggers r) name = Some b" for name b using registered [OF that] assms(2) by (auto simp: in_use_def)
  moreover have "default_logger r \<noteq> Some a" using assms(2) by (simp add: in_use_def)
  ultimately show ?thesis using assms(1) by (simp add: registry_ok_def on_logger_def)
qed

lemma run_reg_op_ok:
  assumes "registry_ok r"
  shows "registry_ok (run_reg_op ops env clone p r)"
proof -
  have kept: "registry_ok r'" if "books r' = books r" for r' using registry_ok_books [OF that] assms by simp
  show ?thesis
  proof (cases p)
    case (NewLogger a name ss)
    then show ?thesis using new_logger_ok [OF assms] assms by simp
  next
    case (Log a loc lvl msg)
    obtain lg r' where l: "log_string ops env loc lvl msg (objects r a) r = (lg, r')" by force
    have "books (on_logger a (\<lambda>old. lg) r') = books r" using log_string_books [OF l] by (auto simp: books_def on_logger_def fun_eq_iff)
    from registry_ok_books [OF this] show ?thesis using Log l assms by simp
  next
    case DropAll
    then show ?thesis by (simp add: drop_all_def registry_ok_def)
  next
    case Shutdown
    then show ?thesis by (simp add: drop_all_def reg_shutdown_def registry_ok_def)
  qed (simp_all add: register_logger_ok initialize_logger_ok set_default_logger_ok drop_logger_ok assms kept)
qed

section \<open>Properties\<close>

lemma fold_set_level:
  "a \<in> snd ` set xs \<or> lg_level (objects r a) = l \<Longrightarrow>
   lg_level (objects (fold (\<lambda>(name, b). on_logger b (logger_set_level l)) xs r) a) = l"
proof (induction xs arbitrary: r)
  case (Cons x xs)
  have "a \<in> snd ` set xs \<or> lg_level (objects (on_logger (snd x) (logger_set_level l) r) a) = l"
    using Cons.prems by (auto simp: on_logger_def logger_set_level_def)
  from Cons.IH [OF this] show ?case by (simp add: case_prod_beta)
qed simp

lemma set_level_all: "a \<in> snd ` set (loggers r) \<Longrightarrow> lg_level (objects (reg_set_level l r) a) = l"
  by (simp add: reg_set_level_def apply_all_def fold_set_level)

text \<open>
  C40.  The books of the registry.  After any use of the registry (new loggers, registrations, settings, removals, logging) every
  logger is found under its own name, and the default logger, if there is one, is a registered one: so setting
  the level of all loggers also reaches it.  Registering a logger adds exactly this one, or throws and changes nothing if the name is taken.
\<close>

theorem registry_consistent:
  "let r = fold (run_reg_op ops env clone) ps (registry_ctor w objs f a color_sink) in
    registry_ok r \<and>
    (\<forall>d l. default_logger r = Some d \<longrightarrow> get_logger (lg_name (objects r d)) r = Some d \<and> lg_level (objects (reg_set_level l r) d) = l) \<and>
    (\<forall>b. let (r', ex) = register_logger b r in
       if get_logger (lg_name (objects r b)) r = None then ex = None \<and> map_of (loggers r') = (map_of (loggers r))(lg_name (objects r b) \<mapsto> b)
       else ex \<noteq> None \<and> r' = r)"
proof -
  have ok: "registry_ok (fold (run_reg_op ops env clone) ps r)" if "registry_ok r" for r
    using that by (induction ps arbitrary: r) (simp_all add: run_reg_op_ok)
  define r where "r = fold (run_reg_op ops env clone) ps (registry_ctor w objs f a color_sink)"
  have r: "registry_ok r" unfolding r_def by (rule ok [OF registry_ok_ctor])
  have d: "d \<in> snd ` set (loggers r)" if "default_logger r = Some d" for d
    using r that registered [of r] unfolding registry_ok_def by blast
  show ?thesis using r d unfolding r_def [symmetric] Let_def
    by (auto simp: registry_ok_def get_logger_def set_level_all register_logger_def throw_if_exists_def map_of_map_set Let_def)
qed


theorem registry_consistent_witness:
  "get_logger ''net'' (fold (run_reg_op note_ops note_env id) [NewLogger 1 ''net'' [0], SetDefault (Some 1)]
     (registry_ctor note_world (\<lambda>a. spd_logger_ctor [] []) () 0 0)) = Some 1 \<and>
   lg_level (objects (reg_set_level level_err (fold (run_reg_op note_ops note_env id) [NewLogger 1 ''net'' [0], SetDefault (Some 1)]
     (registry_ctor note_world (\<lambda>a. spd_logger_ctor [] []) () 0 0))) 1) = level_err"
proof -
  let ?r = "fold (run_reg_op note_ops note_env id) [NewLogger 1 ''net'' [0], SetDefault (Some 1)]
    (registry_ctor note_world (\<lambda>a. spd_logger_ctor [] []) () 0 0)"
  define r where "r = ?r"
  have "\<forall>d l. default_logger r = Some d \<longrightarrow> get_logger (lg_name (objects r d)) r = Some d \<and> lg_level (objects (reg_set_level l r) d) = l"
    using registry_consistent [of note_ops note_env id "[NewLogger 1 ''net'' [0], SetDefault (Some 1)]" note_world
        "\<lambda>a. spd_logger_ctor [] []" "()" 0 0] unfolding Let_def r_def [symmetric] by (elim conjE)
  moreover have "default_logger r = Some 1" "lg_name (objects r 1) = ''net''"
    by (simp_all add: r_def registry_ctor_def note_world_def log_world.defs in_use_def on_logger_def set_default_logger_def spd_logger_ctor_def)
  ultimately show ?thesis unfolding r_def [symmetric] by simp
qed

end
