(* ===== verification/Ham_Log.thy ===== *)
theory Ham_Log
  imports Spd_Sinks Spd_Registry
begin

text \<open>
  Model of \<^verbatim>\<open>ham/base/Log.h\<close> and \<^verbatim>\<open>Log.cc\<close>: the logger of the library on top of the registry, the logger and the two sinks of
  spdlog.  The addresses of the objects that \<^verbatim>\<open>init\<close> creates are arguments.  A log macro calls the default logger through a raw
  pointer, which may be null.
\<close>

datatype logLevel = Trace | Debug | Info | Warn | Err | Critical | Off | N_levels

fun level_of :: "logLevel \<Rightarrow> level_enum" where
  "level_of Trace = level_trace"
| "level_of Debug = level_debug"
| "level_of Info = level_info"
| "level_of Warn = level_warn"
| "level_of Err = level_err"
| "level_of Critical = level_critical"
| "level_of Off = level_off"
| "level_of N_levels = level_n_levels"

text \<open>The singleton, with the registry of spdlog, the files and the number of system calls so far.\<close>

record ham_logger =
  isInitialized :: bool
  log_registry :: "(ham_sink, pattern_formatter) registry"
  os_disk :: "string \<Rightarrow> string option"
  os_count :: nat

text \<open>The addresses of the console sink, the file sink and the logger.\<close>

type_synonym addresses = "nat \<times> nat \<times> nat"

definition newline :: string where "newline = [CHR 0x0A]"

text \<open>The logger that \<^verbatim>\<open>init\<close> builds and makes the default one, once its sinks exist.\<close>

definition install_logger :: "sink_env \<Rightarrow> addresses \<Rightarrow> string \<Rightarrow> logLevel \<Rightarrow> console_sink \<Rightarrow> rotating_sink \<Rightarrow>
    (ham_sink, pattern_formatter) registry \<Rightarrow> (ham_sink, pattern_formatter) registry" where
  "install_logger env addrs loggerName lv console rot r =
     (let (ci, fi, la) = addrs;
          r1 = r\<lparr>sinks := (sinks r)(ci := new_sink (Console console),
                                    fi := new_sink (RotatingFile \<lparr>file_formatter = default_pattern_formatter, rotating = rot\<rparr>))\<rparr>;
          lg1 = logger_set_level (level_of lv) (spd_logger_ctor loggerName [ci, fi]);
          r2 = logger_set_pattern env ham_pattern local_time lg1 r1;
          lg2 = logger_flush_on level_warn lg1
      in set_default_logger (Some la) (on_logger la (\<lambda>old. lg2) r2))"

definition max_log_size :: size_t where "max_log_size = 1024 * 1024 * 5"

definition max_log_files :: nat where "max_log_files = 5"

text \<open>\<open>out\<close> is what the console shows already.\<close>

definition logger_init :: "sink_env \<Rightarrow> string \<Rightarrow> addresses \<Rightarrow> string \<Rightarrow> string \<Rightarrow> logLevel \<Rightarrow> ham_logger \<Rightarrow> bool \<times> ham_logger" where
  "logger_init env out addrs loggerName filePath lv s =
     (if isInitialized s then (True, s)
      else
        let console = console_sink_ctor env color_automatic out;
            (rot, ex) = rotating_file_sink_ctor (files_env env) (os_disk s) (os_count s) filePath max_log_size max_log_files False
        in case ex of
             Some e \<Rightarrow> (False, s\<lparr>os_disk := disk rot, os_count := os_calls rot\<rparr>)
           | None \<Rightarrow> (True, s\<lparr>log_registry := install_logger env addrs loggerName lv console rot (log_registry s), isInitialized := True\<rparr>))"

definition setLevel :: "logLevel \<Rightarrow> ham_logger \<Rightarrow> ham_logger" where
  "setLevel lv s = s\<lparr>log_registry := reg_set_level (level_of lv) (log_registry s)\<rparr>"

definition log_shutdown :: "ham_logger \<Rightarrow> ham_logger" where
  "log_shutdown s = s\<lparr>log_registry := reg_shutdown (log_registry s)\<rparr>"

text \<open>The macros \<^verbatim>\<open>TRACE\<close> to \<^verbatim>\<open>ERROR\<close>; \<open>formatted\<close> is the text of the message, or what fmt throws.  \<^verbatim>\<open>CRITICAL\<close> aborts after this.\<close>

definition log_macro :: "sink_env \<Rightarrow> log_env \<Rightarrow> source_loc \<Rightarrow> logLevel \<Rightarrow> thrown + string \<Rightarrow> ham_logger \<Rightarrow> ham_logger result" where
  "log_macro env lenv loc lvl formatted s =
     (case get_default_raw (log_registry s) of
        None \<Rightarrow> Inl NullDereference
      | Some a \<Rightarrow>
          let (lg, r) = log_args (ham_sinks env) lenv loc (level_of lvl) formatted (objects (log_registry s) a) (log_registry s)
          in Inr (s\<lparr>log_registry := on_logger a (\<lambda>old. lg) r\<rparr>))"

fun log_macros :: "sink_env \<Rightarrow> log_env \<Rightarrow> (source_loc \<times> logLevel \<times> string) list \<Rightarrow> ham_logger \<Rightarrow> ham_logger result" where
  "log_macros env lenv [] s = Inr s"
| "log_macros env lenv ((loc, lvl, msg) # calls) s = rbind (log_macro env lenv loc lvl (Inr msg) s) (log_macros env lenv calls)"

section \<open>The logger after init\<close>

text \<open>The lines that are due, when the clock has been read \<open>k\<close> times.\<close>

fun due_lines :: "sink_env \<Rightarrow> log_env \<Rightarrow> string \<Rightarrow> logLevel \<Rightarrow> nat \<Rightarrow> (source_loc \<times> logLevel \<times> string) list \<Rightarrow> string list" where
  "due_lines env lenv name lv k [] = []"
| "due_lines env lenv name lv k ((loc, lvl, msg) # calls) =
     (if level_of lv \<le> level_of lvl
      then msg_line (fmt_env env) (log_msg_ctor (log_clock lenv k) (os_thread_id lenv) loc name (level_of lvl) msg) #
           due_lines env lenv name lv (Suc k) calls
      else due_lines env lenv name lv k calls)"

fun is_console :: "ham_sink \<Rightarrow> bool" where
  "is_console (Console c) = True"
| "is_console (RotatingFile f) = False"

lemma is_console_ops [simp]: "is_console (fst (op_log (ham_sinks env) msg s)) = is_console s"
  "is_console (fst (op_flush (ham_sinks env) s)) = is_console s"
  by (cases s; simp)+

definition ready :: "sink_env \<Rightarrow> string \<Rightarrow> addresses \<Rightarrow> string \<Rightarrow> logLevel \<Rightarrow> (string \<times> size_t \<times> nat) \<Rightarrow> string list \<Rightarrow> string list \<Rightarrow>
    (ham_sink, pattern_formatter) registry \<Rightarrow> bool" where
  "ready env out addrs name lv conf old lns r \<longleftrightarrow> (case addrs of (ci, fi, la) \<Rightarrow>
     ci \<noteq> fi \<and> default_logger r = Some la \<and> lg_sinks (objects r la) = [ci, fi] \<and> lg_name (objects r la) = name \<and>
     lg_level (objects r la) = level_of lv \<and> flush_level (objects r la) = level_warn \<and> \<not> should_backtrace (objects r la) \<and>
     is_console (sink_state (sinks r ci)) \<and> \<not> is_console (sink_state (sinks r fi)) \<and>
     line_sink.all_took (ham_took env out conf old) [ci, fi] lns r)"

definition env_ok :: "sink_env \<Rightarrow> log_env \<Rightarrow> bool" where
  "env_ok env lenv \<longleftrightarrow> sink_env_ok env \<and> os_thread_id lenv < 2 ^ 64 \<and> (\<forall>n. 10 ^ 9 \<le> log_clock lenv n)"

definition call_ok :: "source_loc \<times> logLevel \<times> string \<Rightarrow> bool" where
  "call_ok c \<longleftrightarrow> (case c of (loc, lvl, msg) \<Rightarrow> lvl \<noteq> N_levels \<and> 0 < line loc \<and> line loc < 2 ^ 31 \<and>
     length (filename loc) + length (funcname loc) + length msg < 2 ^ 62)"

lemma length_basename: "length (basename f) \<le> length f"
  by (auto simp: basename_def split: option.split)

lemma length_level_name: "l \<noteq> level_n_levels \<Longrightarrow> length (level_string_views ! level_num l) \<le> 8"
  by (cases l) (simp_all add: level_string_views_def)

lemma level_of_n_levels [simp]: "level_of l = level_n_levels \<longleftrightarrow> l = N_levels"
  by (cases l) simp_all

lemma good_call:
  assumes "env_ok env lenv" and "call_ok (loc, lvl, msg)"
  shows "good_msg (fmt_env env) (log_msg_ctor (log_clock lenv k) (os_thread_id lenv) loc name (level_of lvl) msg)"
proof -
  let ?m = "log_msg_ctor (log_clock lenv k) (os_thread_id lenv) loc name (level_of lvl) msg"
  let ?t = "os_localtime (fmt_env env) (seconds_of (time ?m))"
  have now: "10 ^ 9 \<le> log_clock lenv k" and tid: "os_thread_id lenv < 2 ^ 64" and "valid_tm ?t"
    using assms(1) by (auto simp: env_ok_def sink_env_ok_def calendar_ok_def)
  then have year: "nat (tm_year ?t + 1900) < 10 ^ Suc 3" by (auto simp: valid_tm_def)
  have "os_thread_id lenv < 10 ^ Suc 19" using tid by simp
  moreover have "nat (line loc) < 10 ^ Suc 9" using assms(2) by (auto simp: call_ok_def)
  ultimately have digits: "length (to_string_nat (nat (tm_year ?t + 1900))) \<le> 4" "length (to_string_nat (os_thread_id lenv)) \<le> 20"
    "length (to_string_nat (nat (line loc))) \<le> 10"
    using to_string_nat_length [OF year] to_string_nat_length [of "os_thread_id lenv" 19] to_string_nat_length [of "nat (line loc)" 9] by auto
  have "level_of lvl \<noteq> level_n_levels" using assms(2) by (simp add: call_ok_def)
  then have name: "length (level_string_views ! level_num (level_of lvl)) \<le> 8" by (rule length_level_name)
  have "length (filename loc) + length (funcname loc) + length msg < 2 ^ 62" using assms(2) by (simp add: call_ok_def)
  then have "length (ham_line ?t ?m) < 2 ^ 62 + 100"
    using digits name length_basename [of "filename loc"] by (simp add: ham_line_def hms_def log_msg_ctor_def)
  then have len: "length (msg_line (fmt_env env) ?m) < 2 ^ 63" by (simp add: msg_line_def)
  have "0 < log_clock lenv k div 10 ^ 9" using now by (simp add: pos_imp_zdiv_pos_iff)
  then have "seconds_of (log_clock lenv k) \<noteq> 0" using now by (simp add: seconds_of_def trunc_div_def)
  then show ?thesis using assms(2) now tid len
    by (simp add: good_msg_def valid_msg_def call_ok_def log_msg_ctor_def source_empty_def)
qed

definition quiet :: "(ham_sink, pattern_formatter) registry \<Rightarrow> (ham_sink, pattern_formatter) registry \<Rightarrow> bool" where
  "quiet r r' \<longleftrightarrow> stderr_lines r' = stderr_lines r \<and> handler_calls r' = handler_calls r \<and> err_counter r' = err_counter r \<and>
     undefined_behaviour r' = undefined_behaviour r"

lemma all_took_cong:
  "sinks w' = sinks w \<Longrightarrow> line_sink.all_took (ham_took env out conf old) is lns w' = line_sink.all_took (ham_took env out conf old) is lns w"
  by (simp add: ham.all_took_def)

lemma sink_it_kinds:
  assumes "lg_sinks lg = [ci, fi]" and "ci \<noteq> fi"
  shows "is_console (sink_state (sinks (logger_sink_it (ham_sinks env) lenv lg m w) i)) = is_console (sink_state (sinks w i))"
  using sink_it_state [of lg "ham_sinks env" lenv m w i] assms by (simp add: flushed_state_def logged_state_def)

lemma log_macro_enabled:
  assumes "env_ok env lenv" and "call_ok (loc, lvl, msg)" and "ready env out (ci, fi, la) name lv conf old lns (log_registry s)"
    and "level_of lv \<le> level_of lvl"
  defines "m \<equiv> log_msg_ctor (log_clock lenv (clock_reads (log_registry s))) (os_thread_id lenv) loc name (level_of lvl) msg"
    and "w \<equiv> (log_registry s)\<lparr>clock_reads := Suc (clock_reads (log_registry s))\<rparr>"
  defines "w' \<equiv> logger_sink_it (ham_sinks env) lenv (objects (log_registry s) la) m w"
  shows "log_macro env lenv loc lvl (Inr msg) s = Inr (s\<lparr>log_registry := w'\<rparr>)" and "same_rest w w'"
    and "line_sink.all_took (ham_took env out conf old) [ci, fi] (lns @ [msg_line (fmt_env env) m]) w'" and "good_msg (fmt_env env) m"
proof -
  let ?r = "log_registry s"
  let ?lg = "objects ?r la"
  note ready = assms(3) [unfolded ready_def, simplified]
  show good: "good_msg (fmt_env env) m" unfolding m_def by (rule good_call [OF assms(1,2)])
  have "line_sink.all_took (ham_took env out conf old) (lg_sinks ?lg) lns w"
    using ready all_took_cong [of w ?r env out conf old "[ci, fi]" lns] by (simp add: w_def)
  from ham.sink_it_quiet [OF good _ this, of lenv] show q: "same_rest w w'"
    "line_sink.all_took (ham_took env out conf old) [ci, fi] (lns @ [msg_line (fmt_env env) m]) w'"
    using ready by (simp_all add: w'_def)
  obtain ss where ss: "w' = w\<lparr>sinks := ss\<rparr>" using q(1) by (auto simp: same_rest_def)
  have keep: "on_logger la (\<lambda>old. ?lg) w' = w'" unfolding ss by (simp add: on_logger_def w_def)
  have "log_args (ham_sinks env) lenv loc (level_of lvl) (Inr msg) ?lg ?r = (?lg, w')"
    using ready assms(4) by (simp add: log_args_def should_log_def log_it_def read_clock_def w'_def w_def m_def)
  then show "log_macro env lenv loc lvl (Inr msg) s = Inr (s\<lparr>log_registry := w'\<rparr>)"
    using ready keep by (simp add: log_macro_def get_default_raw_def)
qed

lemma log_macro_step:
  assumes "env_ok env lenv" and "call_ok (loc, lvl, msg)" and "ready env out addrs name lv conf old lns (log_registry s)"
  shows "\<exists>s'. log_macro env lenv loc lvl (Inr msg) s = Inr s' \<and> quiet (log_registry s) (log_registry s') \<and>
    ready env out addrs name lv conf old (lns @ due_lines env lenv name lv (clock_reads (log_registry s)) [(loc, lvl, msg)]) (log_registry s') \<and>
    clock_reads (log_registry s') = clock_reads (log_registry s) + (if level_of lv \<le> level_of lvl then 1 else 0)"
proof -
  obtain ci fi la where addrs: "addrs = (ci, fi, la)" by (cases addrs)
  let ?r = "log_registry s"
  let ?lg = "objects ?r la"
  note ready = assms(3) [unfolded ready_def addrs, simplified]
  show ?thesis
  proof (cases "level_of lv \<le> level_of lvl")
    case False
    have "on_logger la (\<lambda>old. ?lg) ?r = ?r" by (simp add: on_logger_def)
    then have "log_macro env lenv loc lvl (Inr msg) s = Inr s"
      using ready False by (simp add: log_macro_def log_args_def should_log_def get_default_raw_def)
    then show ?thesis using False assms(3) by (simp add: quiet_def)
  next
    case True
    note m = log_macro_enabled [OF assms(1,2) assms(3) [unfolded addrs] True]
    let ?m = "log_msg_ctor (log_clock lenv (clock_reads ?r)) (os_thread_id lenv) loc name (level_of lvl) msg"
    let ?w = "?r\<lparr>clock_reads := Suc (clock_reads ?r)\<rparr>"
    let ?w' = "logger_sink_it (ham_sinks env) lenv ?lg ?m ?w"
    obtain ss where w': "?w' = ?w\<lparr>sinks := ss\<rparr>" using m(2) by (auto simp: same_rest_def)
    have kinds: "is_console (sink_state (sinks ?w' i)) = is_console (sink_state (sinks ?r i))" for i
      using sink_it_kinds [of ?lg ci fi env lenv ?m ?w i] ready by simp
    have "ready env out addrs name lv conf old (lns @ [msg_line (fmt_env env) ?m]) ?w'"
      using ready m(3) kinds unfolding ready_def addrs by (simp add: w')
    moreover have "quiet ?r ?w'" "clock_reads ?w' = Suc (clock_reads ?r)" unfolding w' by (simp_all add: quiet_def)
    ultimately show ?thesis using m(1) True by simp
  qed
qed

lemma log_macros_run:
  assumes "env_ok env lenv" and "\<forall>c\<in>set calls. call_ok c" and "ready env out addrs name lv conf old lns (log_registry s)"
  shows "\<exists>s'. log_macros env lenv calls s = Inr s' \<and> quiet (log_registry s) (log_registry s') \<and>
    ready env out addrs name lv conf old (lns @ due_lines env lenv name lv (clock_reads (log_registry s)) calls) (log_registry s')"
  using assms(2,3)
proof (induction calls arbitrary: s lns)
  case Nil
  then show ?case by (simp add: quiet_def)
next
  case (Cons c calls)
  obtain loc lvl msg where c: "c = (loc, lvl, msg)" by (cases c)
  let ?k = "clock_reads (log_registry s)"
  obtain s1 where s1: "log_macro env lenv loc lvl (Inr msg) s = Inr s1" "quiet (log_registry s) (log_registry s1)"
    "ready env out addrs name lv conf old (lns @ due_lines env lenv name lv ?k [(loc, lvl, msg)]) (log_registry s1)"
    "clock_reads (log_registry s1) = ?k + (if level_of lv \<le> level_of lvl then 1 else 0)"
    using log_macro_step [OF assms(1) _ Cons.prems(2), of loc lvl msg] Cons.prems(1) c by auto
  obtain s2 where "log_macros env lenv calls s1 = Inr s2" "quiet (log_registry s1) (log_registry s2)"
    "ready env out addrs name lv conf old ((lns @ due_lines env lenv name lv ?k [(loc, lvl, msg)]) @
       due_lines env lenv name lv (clock_reads (log_registry s1)) calls) (log_registry s2)"
    using Cons.IH [OF _ s1(3)] Cons.prems(1) by auto
  with s1 show ?case by (auto simp: c quiet_def)
qed

section \<open>Initialisation\<close>

lemma fresh_ham_formatter:
  "ham_formatter penv (pattern_formatter_ctor penv ham_pattern local_time newline (\<lambda>c. None))"
  "ham_formatter penv (formatter_clone penv (pattern_formatter_ctor penv ham_pattern local_time newline (\<lambda>c. None)))"
  by (simp_all add: ham_formatter_def formatter_clone_def pattern_formatter_ctor_def compile_ham_pattern newline_def tm_cache_ok_def)

lemma install_ready:
  assumes "sink_env_ok env" and "addrs = (ci, fi, la)" and "ci \<noteq> fi" and "file_log base limit n old rot" and "console_out console = out"
  shows "ready env out addrs name lv (base, limit, n) old [] (install_logger env addrs name lv console rot r) \<and>
    quiet r (install_logger env addrs name lv console rot r) \<and> clock_reads (install_logger env addrs name lv console rot r) = clock_reads r"
  using assms fresh_ham_formatter
  by (cases "default_logger r") (auto simp: ready_def install_logger_def set_default_logger_def on_logger_def logger_set_pattern_def logger_set_formatter_def
      newline_def logger_set_level_def
      logger_flush_on_def spd_logger_ctor_def should_backtrace_def backtracer_ctor_def new_sink_def console_set_formatter_def
      file_sink_set_formatter_def ham.all_took_def ham_took_def quiet_def Let_def)

lemma logger_init_ready:
  assumes "sink_env_ok env" and "\<not> isInitialized s" and "ci \<noteq> fi" and "path \<noteq> []" and "length old \<le> Suc max_log_files"
    and "\<forall>j \<le> max_log_files. os_disk s (calc_filename path j) = (if j < length old then Some (old ! j) else None)"
    and "\<forall>c\<in>set old. length c < 2 ^ 63"
  shows "\<exists>s1. logger_init env out (ci, fi, la) name path lv s = (True, s1) \<and> isInitialized s1 \<and>
    ready env out (ci, fi, la) name lv (path, max_log_size, max_log_files) (rev old) [] (log_registry s1) \<and>
    quiet (log_registry s) (log_registry s1) \<and> clock_reads (log_registry s1) = clock_reads (log_registry s)"
proof -
  let ?segs = "if old = [] then [[]] else map (\<lambda>c. [c]) old"
  have rel: "reliable (files_env env)" using assms(1) by (simp add: sink_env_ok_def)
  obtain rot where rot: "rotating_file_sink_ctor (files_env env) (os_disk s) (os_count s) path max_log_size max_log_files False = (rot, None)"
    "holds ?segs rot" "base_filename rot = path" "max_size rot = max_log_size" "max_files rot = max_log_files"
    using ctor_spec [OF rel assms(4-6)] by metis
  have "concat (rev ?segs) = rev old" "seg_sizes (unat max_log_size) ?segs" "set (concat ?segs) = set old"
    by (auto simp: seg_sizes_def rev_map concat_map_singleton)
  then have fl: "file_log path max_log_size max_log_files (rev old) rot"
    using rot(2-5) assms(7) unfolding file_log_def by (auto simp: max_log_size_def intro!: exI [of _ ?segs])
  have "console_out (console_sink_ctor env color_automatic out) = out" by (simp add: console_sink_ctor_def set_color_mode_def)
  from install_ready [OF assms(1) refl assms(3) fl this] show ?thesis
    using assms(2) rot(1) by (simp add: logger_init_def)
qed

section \<open>The last line\<close>

lemma file_log_current:
  assumes "reliable env" and "file_log base limit n lns s" and "length m < 2 ^ 63" and "sink_it env m s = (s', None)"
  shows "\<exists>c. log_text s' 0 = Some (c @ m)"
proof -
  obtain segs where segs: "holds segs s" "seg_sizes (unat limit) segs" "\<forall>m\<in>set (concat segs). length m < 2 ^ 63"
    and s: "unat limit < 2 ^ 63" "max_size s = limit" using assms(2) by (auto simp: file_log_def)
  have ne: "segs \<noteq> []" using segs(1) by (simp add: holds_def)
  have "length (concat (hd segs)) + length m < 2 ^ 64" using hd_seg_small [OF ne segs(2,3) s(1)] assms(3) by simp
  then have "holds (rot_push (unat (max_size s)) (max_files s) m segs) s'"
    using sink_it_spec [OF assms(1) segs(1)] assms(4) by (metis prod.inject)
  then have "log_text s' 0 = Some (concat (hd (rot_push (unat (max_size s)) (max_files s) m segs)))"
    by (auto simp: holds_def hd_conv_nth)
  then show ?thesis by (auto simp: rot_push_def)
qed

lemma flushed_numbered:
  assumes "file_log base limit n lns s" and "log_text s 0 = Some c"
  shows "numbered (sink_flush s) 0 = Some c"
proof -
  obtain segs where h: "holds segs s" using assms(1) by (auto simp: file_log_def)
  then have "log_text s 0 = Some (concat (segs ! 0))" "log_text (fh_flush s) 0 = Some (concat (segs ! 0))"
    using fh_flush_holds [OF h] by (auto simp: holds_def)
  then have "log_text (fh_flush s) 0 = Some c" using assms(2) by simp
  then show ?thesis using fh_flush_holds [OF h] by (simp add: log_text_def sink_flush_def option.map_ident)
qed

section \<open>Properties\<close>

definition demo_env :: sink_env where
  "demo_env = \<lparr>files_env = plain_os, fmt_env = sample_env, ex_what = \<lambda>e. [], color_terminal = True\<rparr>"

definition demo_lenv :: log_env where
  "demo_lenv = \<lparr>log_clock = \<lambda>n. 5000000000 + int n, os_thread_id = 77, format_date = \<lambda>t. []\<rparr>"

definition demo_world :: "ham_sink log_world" where
  "demo_world = \<lparr>sinks = (\<lambda>i. new_sink (Console (console_sink_ctor demo_env color_automatic []))), clock_reads = 0, err_counter = 0,
     last_report_time = 0, stderr_lines = [], handler_calls = [], undefined_behaviour = False\<rparr>"

definition demo_start :: ham_logger where
  "demo_start = \<lparr>isInitialized = False,
     log_registry = registry_ctor demo_world (\<lambda>a. spd_logger_ctor [] []) default_pattern_formatter 0 0, os_disk = \<lambda>f. None, os_count = 0\<rparr>"

definition demo_loc :: source_loc where
  "demo_loc = \<lparr>filename = ''net/a.cc'', line = 12, funcname = ''run''\<rparr>"

lemma demo_ok: "env_ok demo_env demo_lenv" "sink_env_ok demo_env" "\<not> isInitialized demo_start" "call_ok (demo_loc, Err, ''disk full'')"
  "call_ok (demo_loc, Trace, ''x'')"
  using plain_os_reliable
  by (simp_all add: env_ok_def sink_env_ok_def calendar_ok_def demo_env_def demo_lenv_def sample_env_def valid_tm_def sample_tm_def
      demo_start_def call_ok_def demo_loc_def)

lemma demo_line:
  "msg_line (fmt_env demo_env) (log_msg_ctor (log_clock demo_lenv 0) (os_thread_id demo_lenv) demo_loc ''ham'' (level_of Err) ''disk full'') =
   ''2021-09-07 16:05:09 [error] [tid : 77] [a.cc : 12 <run>] disk full'' @ newline"
  by code_simp

text \<open>
  C10.  The log is delivered.  On a system that opens and writes files, \<^verbatim>\<open>Logger::init\<close> succeeds, and afterwards, whatever is
  logged, the console shows exactly the lines of the messages of at least the chosen level, in order, each in the layout of the library with
  its own time; the log files hold an unbroken end of the same lines after what they held before; and no error is reported.
\<close>

theorem ham_log_delivered:
  assumes "env_ok env lenv" and "\<not> isInitialized s" and "ci \<noteq> fi" and "path \<noteq> []" and "length old \<le> Suc max_log_files"
    and "\<forall>j \<le> max_log_files. os_disk s (calc_filename path j) = (if j < length old then Some (old ! j) else None)"
    and "\<forall>c\<in>set old. length c < 2 ^ 63" and "\<forall>c\<in>set calls. call_ok c"
  shows "\<exists>s1 s2 c f. logger_init env out (ci, fi, la) name path lv s = (True, s1) \<and> log_macros env lenv calls s1 = Inr s2 \<and>
    (let lns = due_lines env lenv name lv (clock_reads (log_registry s)) calls in
     sink_state (sinks (log_registry s2) ci) = Console c \<and> console_out c = out @ concat lns \<and>
     sink_state (sinks (log_registry s2) fi) = RotatingFile f \<and> file_log path max_log_size max_log_files (rev old @ lns) (rotating f) \<and>
     quiet (log_registry s) (log_registry s2))"
proof -
  have se: "sink_env_ok env" using assms(1) by (simp add: env_ok_def)
  obtain s1 where s1: "logger_init env out (ci, fi, la) name path lv s = (True, s1)"
    "ready env out (ci, fi, la) name lv (path, max_log_size, max_log_files) (rev old) [] (log_registry s1)"
    "quiet (log_registry s) (log_registry s1)" "clock_reads (log_registry s1) = clock_reads (log_registry s)"
    using logger_init_ready [OF se assms(2-7)] by metis
  let ?lns = "due_lines env lenv name lv (clock_reads (log_registry s)) calls"
  obtain s2 where s2: "log_macros env lenv calls s1 = Inr s2" "quiet (log_registry s1) (log_registry s2)"
    "ready env out (ci, fi, la) name lv (path, max_log_size, max_log_files) (rev old) ?lns (log_registry s2)"
    using log_macros_run [OF assms(1,8) s1(2)] s1(4) by auto
  let ?c = "sink_state (sinks (log_registry s2) ci)" and ?f = "sink_state (sinks (log_registry s2) fi)"
  have r: "is_console ?c" "\<not> is_console ?f" "ham_took env out (path, max_log_size, max_log_files) (rev old) ?lns ?c"
    "ham_took env out (path, max_log_size, max_log_files) (rev old) ?lns ?f"
    using s2(3) by (simp_all add: ready_def ham.all_took_def)
  obtain c f where "?c = Console c" "?f = RotatingFile f" using r(1,2) by (cases ?c; cases ?f) auto
  then show ?thesis using s1(1,3) s2(1,2) r(3,4) by (auto simp: ham_took_def quiet_def Let_def)
qed

theorem ham_log_delivered_witness:
  "\<exists>s1 s2 c. logger_init demo_env ''> '' (1, 2, 1) ''ham'' ''log.txt'' Debug demo_start = (True, s1) \<and>
    log_macros demo_env demo_lenv [(demo_loc, Trace, ''x''), (demo_loc, Err, ''disk full'')] s1 = Inr s2 \<and>
    sink_state (sinks (log_registry s2) 1) = Console c \<and>
    console_out c = ''> '' @ ''2021-09-07 16:05:09 [error] [tid : 77] [a.cc : 12 <run>] disk full'' @ newline"
proof -
  let ?calls = "[(demo_loc, Trace, ''x''), (demo_loc, Err, ''disk full'')]"
  have "clock_reads (log_registry demo_start) = 0" by (simp add: demo_start_def registry_ctor_def demo_world_def log_world.defs)
  then have l: "due_lines demo_env demo_lenv ''ham'' Debug (clock_reads (log_registry demo_start)) ?calls =
      [''2021-09-07 16:05:09 [error] [tid : 77] [a.cc : 12 <run>] disk full'' @ newline]"
    using demo_line by (simp add: less_eq_level_enum_def)
  have d: "\<forall>j \<le> max_log_files. os_disk demo_start (calc_filename ''log.txt'' j) = (if j < length [] then Some ([] ! j) else None)"
    by (simp add: demo_start_def)
  have c: "\<forall>c\<in>set ?calls. call_ok c" using demo_ok by simp
  have n: "(1 :: nat) \<noteq> 2" "''log.txt'' \<noteq> []" "length ([] :: string list) \<le> Suc max_log_files" "\<forall>c\<in>set []. length (c :: string) < 2 ^ 63" by simp_all
  show ?thesis
    using ham_log_delivered [OF demo_ok(1,3) n(1-3) d n(4) c, of "''> ''" 1 "''ham''" Debug] unfolding Let_def l by auto
qed

text \<open>
  C36.  A warning, an error or a critical message is on the disk when the macro returns, so before \<^verbatim>\<open>CRITICAL\<close> aborts: nothing is
  left in the buffer of the stream and the current log file ends with the line.
\<close>

theorem severe_line_on_disk:
  assumes "env_ok env lenv" and "call_ok (loc, lvl, msg)" and "lvl \<in> {Warn, Err, Critical}" and "level_of lv \<le> level_of lvl"
    and "ready env out (ci, fi, la) name lv (path, limit, n) old lns (log_registry s)"
  shows "\<exists>s' f c. log_macro env lenv loc lvl (Inr msg) s = Inr s' \<and> sink_state (sinks (log_registry s') fi) = RotatingFile f \<and>
    fd (rotating f) = Some [] \<and> disk (rotating f) path = Some (c @
      msg_line (fmt_env env) (log_msg_ctor (log_clock lenv (clock_reads (log_registry s))) (os_thread_id lenv) loc name (level_of lvl) msg))"
proof -
  let ?r = "log_registry s"
  let ?m = "log_msg_ctor (log_clock lenv (clock_reads ?r)) (os_thread_id lenv) loc name (level_of lvl) msg"
  let ?w = "?r\<lparr>clock_reads := Suc (clock_reads ?r)\<rparr>"
  let ?w' = "logger_sink_it (ham_sinks env) lenv (objects ?r la) ?m ?w"
  note m = log_macro_enabled [OF assms(1,2,5,4)]
  note ready = assms(5) [unfolded ready_def, simplified]
  obtain f0 where f0: "sink_state (sinks ?r fi) = RotatingFile f0" using ready by (cases "sink_state (sinks ?r fi)") auto
  have took: "ham_took env out (path, limit, n) old lns (RotatingFile f0)" using ready f0 by (auto simp: ham.all_took_def)
  obtain f r where fr: "file_sink_log env ?m f0 = (f0\<lparr>file_formatter := f, rotating := r\<rparr>, None)"
    "sink_it (files_env env) (msg_line (fmt_env env) ?m) (rotating f0) = (r, None)" "file_log path limit n (old @ lns @ [msg_line (fmt_env env) ?m]) r"
    using file_sink_line [OF took m(4)] by auto
  have rel: "reliable (files_env env)" "file_log path limit n (old @ lns) (rotating f0)" "length (msg_line (fmt_env env) ?m) < 2 ^ 63"
    using assms(1) took m(4) by (auto simp: env_ok_def sink_env_ok_def ham_took_def good_msg_def)
  obtain c where c: "log_text r 0 = Some (c @ msg_line (fmt_env env) ?m)" using file_log_current [OF rel fr(2)] by blast
  have flush: "should_flush (objects ?r la) ?m" using ready assms(3) by (auto simp: should_flush_def log_msg_ctor_def less_eq_level_enum_def)
  have "sink_state (sinks ?w' fi) = RotatingFile (f0\<lparr>file_formatter := f, rotating := sink_flush r\<rparr>)"
    using sink_it_state [of "objects ?r la" "ham_sinks env" lenv ?m ?w fi] ready f0 fr(1) flush
    by (auto simp: flushed_state_def logged_state_def file_sink_flush_def sink_should_log_def ham.all_took_def less_eq_level_enum_def)
  moreover have "disk (sink_flush r) path = Some (c @ msg_line (fmt_env env) ?m)"
    using flushed_numbered [OF fr(3) c] file_log_flush(1) [OF fr(3)] by (simp add: numbered_def file_log_def)
  ultimately show ?thesis using m(1) file_log_flush(2) [OF fr(3)] by auto
qed

theorem severe_line_on_disk_witness:
  "\<exists>s' f c. log_macro demo_env demo_lenv demo_loc Err (Inr ''disk full'') (snd (logger_init demo_env [] (1, 2, 1) ''ham'' ''log.txt'' Debug demo_start)) = Inr s' \<and>
    sink_state (sinks (log_registry s') 2) = RotatingFile f \<and> fd (rotating f) = Some [] \<and>
    disk (rotating f) ''log.txt'' = Some (c @ ''2021-09-07 16:05:09 [error] [tid : 77] [a.cc : 12 <run>] disk full'' @ newline)"
proof -
  have k: "clock_reads (log_registry demo_start) = 0" by (simp add: demo_start_def registry_ctor_def demo_world_def log_world.defs)
  have d: "\<forall>j \<le> max_log_files. os_disk demo_start (calc_filename ''log.txt'' j) = (if j < length [] then Some ([] ! j) else None)"
    by (simp add: demo_start_def)
  obtain s1 where s1: "logger_init demo_env [] (1, 2, 1) ''ham'' ''log.txt'' Debug demo_start = (True, s1)"
    "ready demo_env [] (1, 2, 1) ''ham'' Debug (''log.txt'', max_log_size, max_log_files) (rev []) [] (log_registry s1)"
    "clock_reads (log_registry s1) = 0"
    using logger_init_ready [OF demo_ok(2,3) _ _ _ d, of 1 2 "[]" 1 "''ham''" Debug] k by auto
  have lv: "Err \<in> {Warn, Err, Critical}" "level_of Debug \<le> level_of Err" by (simp_all add: less_eq_level_enum_def)
  show ?thesis using severe_line_on_disk [OF demo_ok(1,4) lv s1(2)] s1(1,3) demo_line by simp
qed

text \<open>
  \<^verbatim>\<open>shutdown\<close> removes the default logger but leaves the flag: a later \<^verbatim>\<open>init\<close> says that it succeeded and builds nothing, and
  the next log macro calls a member function on a null pointer.
\<close>

theorem init_after_shutdown:
  assumes "isInitialized s"
  shows "logger_init env out addrs name path lv (log_shutdown s) = (True, log_shutdown s) \<and>
    log_macro env lenv loc lvl formatted (log_shutdown s) = Inl NullDereference"
  using assms by (simp add: logger_init_def log_shutdown_def log_macro_def reg_shutdown_def drop_all_def get_default_raw_def)

end
