(* ===== verification/Async_Logger.thy ===== *)
theory Async_Logger
  imports Spd_Logger Mpmc_Queue "HOL-Library.Multiset"
begin

text \<open>
  Model of the asynchronous logger of spdlog: \<^verbatim>\<open>async_logger-inl.h\<close>, \<^verbatim>\<open>details/thread_pool.h\<close>, \<^verbatim>\<open>details/thread_pool-inl.h\<close>.
  A logger posts its messages to the queue of a thread pool (\<^verbatim>\<open>mpmc_blocking_q.h\<close>), the workers of the pool take them and call the
  sinks.  A run is a sequence of actions; the calls of the sinks, each of which holds the mutex of its sink, are the smallest
  actions of a worker, so that the calls of several workers interleave.  Loggers live in a store and messages know their
  addresses (\<^verbatim>\<open>worker_ptr\<close>); they are not reconfigured while the pool runs.
\<close>

section \<open>Messages of the queue\<close>

datatype async_overflow_policy = Block | Overrun_oldest

datatype async_msg_type = Async_log | Async_flush | Async_terminate

record async_msg = log_msg_buffer +
  msg_type :: async_msg_type
  worker_ptr :: "nat option"

definition async_msg_log :: "nat \<Rightarrow> async_msg_type \<Rightarrow> log_msg \<Rightarrow> async_msg" where
  "async_msg_log worker the_type m = log_msg_buffer.extend (log_msg_buffer_ctor m) \<lparr>msg_type = the_type, worker_ptr = Some worker\<rparr>"

definition async_msg_request :: "nat option \<Rightarrow> async_msg_type \<Rightarrow> async_msg" where
  "async_msg_request worker the_type = log_msg_buffer.extend empty_msg_buffer \<lparr>msg_type = the_type, worker_ptr = worker\<rparr>"

definition async_msg_default :: async_msg where
  "async_msg_default = async_msg_request None Async_log"

text \<open>The base class, which is what the sinks are given.\<close>

definition async_payload :: "async_msg \<Rightarrow> log_msg" where
  "async_payload m = log_msg.truncate m"

section \<open>Posting\<close>

definition post_async_msg :: "async_msg \<Rightarrow> async_overflow_policy \<Rightarrow> async_msg mpmc_queue \<Rightarrow> async_msg mpmc_queue" where
  "post_async_msg new_msg policy q = (if policy = Block then enqueue new_msg q else enqueue_nowait new_msg q)"

definition post_log :: "nat \<Rightarrow> log_msg \<Rightarrow> async_overflow_policy \<Rightarrow> async_msg mpmc_queue \<Rightarrow> async_msg mpmc_queue" where
  "post_log worker msg policy q = post_async_msg (async_msg_log worker Async_log msg) policy q"

definition post_flush :: "nat \<Rightarrow> async_overflow_policy \<Rightarrow> async_msg mpmc_queue \<Rightarrow> async_msg mpmc_queue" where
  "post_flush worker policy q = post_async_msg (async_msg_request (Some worker) Async_flush) policy q"

text \<open>The logger of the caller; \<open>pool\<close> is what \<^verbatim>\<open>thread_pool_.lock()\<close> gives.\<close>

record async_logger =
  base :: spd_logger
  this_ptr :: nat
  overflow_policy :: async_overflow_policy

definition async_logger_ctor :: "nat \<Rightarrow> string \<Rightarrow> nat list \<Rightarrow> async_overflow_policy \<Rightarrow> async_logger" where
  "async_logger_ctor addr new_name ss policy = \<lparr>base = spd_logger_ctor new_name ss, this_ptr = addr, overflow_policy = policy\<rparr>"

definition no_pool :: "string \<Rightarrow> thrown" where
  "no_pool what = StdException (what @ '': thread pool doesn'' @ [CHR 0x27] @ ''t exist anymore'')"

definition async_sink_it :: "async_logger \<Rightarrow> log_msg \<Rightarrow> async_msg mpmc_queue option \<Rightarrow> async_msg mpmc_queue option \<times> thrown option" where
  "async_sink_it al msg pool =
     (case pool of
        Some q \<Rightarrow> (Some (post_log (this_ptr al) msg (overflow_policy al) q), None)
      | None \<Rightarrow> (None, Some (no_pool ''async log'')))"

definition async_flush_it :: "async_logger \<Rightarrow> async_msg mpmc_queue option \<Rightarrow> async_msg mpmc_queue option \<times> thrown option" where
  "async_flush_it al pool =
     (case pool of
        Some q \<Rightarrow> (Some (post_flush (this_ptr al) (overflow_policy al) q), None)
      | None \<Rightarrow> (None, Some (no_pool ''async flush'')))"

definition async_clone :: "nat \<Rightarrow> string \<Rightarrow> async_logger \<Rightarrow> async_logger" where
  "async_clone addr new_name al = al\<lparr>base := (base al)\<lparr>lg_name := new_name\<rparr>, this_ptr := addr\<rparr>"

text \<open>\<^verbatim>\<open>log_it_\<close> of the base class, with the virtual \<^verbatim>\<open>sink_it_\<close> of this one; the exception leaves before the backtrace is written.\<close>

definition async_log_it :: "log_msg \<Rightarrow> bool \<Rightarrow> bool \<Rightarrow> async_logger \<Rightarrow> async_msg mpmc_queue option \<Rightarrow>
    async_logger \<times> async_msg mpmc_queue option \<times> thrown option" where
  "async_log_it msg log_enabled traceback_enabled al pool =
     (let (pool1, ex) = (if log_enabled then async_sink_it al msg pool else (pool, None)) in
      if ex \<noteq> None then (al, pool1, ex)
      else (if traceback_enabled then al\<lparr>base := (base al)\<lparr>tracer := backtracer_push_back msg (tracer (base al))\<rparr>\<rparr> else al, pool1, None))"

text \<open>A plain text: nothing is caught.\<close>

definition async_log_string :: "log_env \<Rightarrow> int \<Rightarrow> source_loc \<Rightarrow> level_enum \<Rightarrow> string \<Rightarrow> async_logger \<Rightarrow> async_msg mpmc_queue option \<Rightarrow>
    async_logger \<times> async_msg mpmc_queue option \<times> thrown option" where
  "async_log_string env now loc lvl msg al pool =
     (let log_enabled = should_log lvl (base al); traceback_enabled = should_backtrace (base al) in
      if \<not> log_enabled \<and> \<not> traceback_enabled then (al, pool, None)
      else async_log_it (log_msg_ctor now (os_thread_id env) loc (lg_name (base al)) lvl msg) log_enabled traceback_enabled al pool)"

text \<open>A format string with arguments: every exception goes to the error handler.\<close>

definition async_log_args :: "log_env \<Rightarrow> int \<Rightarrow> source_loc \<Rightarrow> level_enum \<Rightarrow> thrown + string \<Rightarrow> async_logger \<Rightarrow> async_msg mpmc_queue option \<Rightarrow>
    's log_world \<Rightarrow> async_logger \<times> async_msg mpmc_queue option \<times> 's log_world" where
  "async_log_args env now loc lvl formatted al pool w =
     (let log_enabled = should_log lvl (base al); traceback_enabled = should_backtrace (base al) in
      if \<not> log_enabled \<and> \<not> traceback_enabled then (al, pool, w)
      else case formatted of
             Inl ex \<Rightarrow> (al, pool, logger_catch env (base al) (Some ex) w)
           | Inr buf \<Rightarrow>
               let (al1, pool1, ex) = async_log_it (log_msg_ctor now (os_thread_id env) loc (lg_name (base al)) lvl buf)
                     log_enabled traceback_enabled al pool
               in (al1, pool1, logger_catch env (base al) ex w))"

section \<open>The work of a worker\<close>

definition backend_flush :: "('f, 's) sink_ops \<Rightarrow> log_env \<Rightarrow> spd_logger \<Rightarrow> 's log_world \<Rightarrow> 's log_world" where
  "backend_flush ops env lg w = flush_sinks ops env lg (lg_sinks lg) w"

definition backend_sink_it :: "('f, 's) sink_ops \<Rightarrow> log_env \<Rightarrow> spd_logger \<Rightarrow> log_msg \<Rightarrow> 's log_world \<Rightarrow> 's log_world" where
  "backend_sink_it ops env lg msg w =
     (let w1 = log_sinks ops env lg msg (lg_sinks lg) w in if should_flush lg msg then backend_flush ops env lg w1 else w1)"

text \<open>The message of a worker, as \<^verbatim>\<open>process_next_msg_\<close> treats it when nothing comes between: a null \<^verbatim>\<open>worker_ptr\<close> must not be followed.\<close>

definition null_deref :: "'s log_world \<Rightarrow> 's log_world" where
  "null_deref w = w\<lparr>undefined_behaviour := True\<rparr>"

definition process_msg :: "('f, 's) sink_ops \<Rightarrow> log_env \<Rightarrow> (nat \<Rightarrow> spd_logger) \<Rightarrow> async_msg \<Rightarrow> 's log_world \<Rightarrow> 's log_world" where
  "process_msg ops env lgs m w =
     (case msg_type m of
        Async_log \<Rightarrow> (case worker_ptr m of Some p \<Rightarrow> backend_sink_it ops env (lgs p) (async_payload m) w | None \<Rightarrow> null_deref w)
      | Async_flush \<Rightarrow> (case worker_ptr m of Some p \<Rightarrow> backend_flush ops env (lgs p) w | None \<Rightarrow> null_deref w)
      | Async_terminate \<Rightarrow> w)"

text \<open>The same work, call by call.\<close>

datatype backend_call = Sink_log nat | Maybe_flush | Sink_flush nat | Null_deref

definition backend_calls :: "(nat \<Rightarrow> spd_logger) \<Rightarrow> async_msg \<Rightarrow> backend_call list" where
  "backend_calls lgs m =
     (case msg_type m of
        Async_log \<Rightarrow> (case worker_ptr m of Some p \<Rightarrow> map Sink_log (lg_sinks (lgs p)) @ [Maybe_flush] | None \<Rightarrow> [Null_deref])
      | Async_flush \<Rightarrow> (case worker_ptr m of Some p \<Rightarrow> map Sink_flush (lg_sinks (lgs p)) | None \<Rightarrow> [Null_deref])
      | Async_terminate \<Rightarrow> [])"

definition msg_logger :: "(nat \<Rightarrow> spd_logger) \<Rightarrow> async_msg \<Rightarrow> spd_logger" where
  "msg_logger lgs m = lgs (case worker_ptr m of Some p \<Rightarrow> p | None \<Rightarrow> 0)"

text \<open>One call, and the calls that it adds.\<close>

fun run_call :: "('f, 's) sink_ops \<Rightarrow> log_env \<Rightarrow> spd_logger \<Rightarrow> log_msg \<Rightarrow> backend_call \<Rightarrow> 's log_world \<Rightarrow> 's log_world \<times> backend_call list" where
  "run_call ops env lg msg (Sink_log i) w =
     (if sink_should_log (level msg) (sinks w i) then call_sink env lg (op_log ops msg) i w else w, [])"
| "run_call ops env lg msg Maybe_flush w = (w, if should_flush lg msg then map Sink_flush (lg_sinks lg) else [])"
| "run_call ops env lg msg (Sink_flush i) w = (call_sink env lg (op_flush ops) i w, [])"
| "run_call ops env lg msg Null_deref w = (null_deref w, [])"

section \<open>The pool\<close>

text \<open>
  Workers are counted by where they are: \<open>tp_top\<close> at the head of \<^verbatim>\<open>worker_loop_\<close>, inside \<^verbatim>\<open>dequeue_for\<close> as the queue counts them
  (\<open>takers_blocked\<close>, \<open>takers_woken\<close>, \<open>timed_out\<close>), \<open>tp_popped\<close> with a message in hand and \<^verbatim>\<open>pop_cv_\<close> still to notify,
  \<open>tp_jobs\<close> with the calls that are left to do, and \<open>tp_finished\<close>.  \<open>tp_processed\<close> is the history of what they are done with,
  and \<open>tp_closing\<close> the number of terminate messages that the destructor still has to post.
\<close>

type_synonym job = "async_msg \<times> backend_call list"

record 's thread_pool =
  tp_q :: "async_msg mpmc_queue"
  tp_threads :: nat
  tp_top :: nat
  tp_popped :: "async_msg list"
  tp_jobs :: "job list"
  tp_finished :: nat
  tp_processed :: "async_msg list"
  tp_closing :: "nat option"
  tp_world :: "'s log_world"

definition thread_pool_ctor :: "nat \<Rightarrow> nat \<Rightarrow> 's log_world \<Rightarrow> string + 's thread_pool" where
  "thread_pool_ctor q_max_items threads_n w =
     (if threads_n = 0 \<or> 1000 < threads_n then Inl ''spdlog::thread_pool(): invalid threads_n param (valid range is 1-1000)''
      else Inr \<lparr>tp_q = mpmc_ctor async_msg_default q_max_items, tp_threads = threads_n, tp_top = threads_n, tp_popped = [], tp_jobs = [],
                tp_finished = 0, tp_processed = [], tp_closing = None, tp_world = w\<rparr>)"

definition tp_overrun_counter :: "'s thread_pool \<Rightarrow> nat" where
  "tp_overrun_counter s = mpmc_overrun_counter (tp_q s)"

definition tp_queue_size :: "'s thread_pool \<Rightarrow> nat" where
  "tp_queue_size s = mpmc_size (tp_q s)"

text \<open>
  A worker in \<^verbatim>\<open>process_next_msg_\<close> comes out of the critical section of \<^verbatim>\<open>dequeue_for\<close>: it waits, it has a message, or it was too
  late and starts over.
\<close>

definition after_dequeue :: "async_msg mpmc_queue \<Rightarrow> async_msg mpmc_queue \<Rightarrow> 's thread_pool \<Rightarrow> 's thread_pool" where
  "after_dequeue q q' s =
     s\<lparr>tp_q := q', tp_popped := tp_popped s @ drop (length (taken_log q)) (taken_log q'), tp_top := tp_top s + (gave_up q' - gave_up q)\<rparr>"

definition worker_dequeue :: "bool \<Rightarrow> async_msg mpmc_queue \<Rightarrow> 's thread_pool \<Rightarrow> 's thread_pool option" where
  "worker_dequeue late q s = (case dequeue_for late q of Inl e \<Rightarrow> None | Inr q' \<Rightarrow> Some (after_dequeue q q' s))"

text \<open>\<^verbatim>\<open>pop_cv_.notify_one()\<close> wakes one of the producers that wait, if there are any.\<close>

definition pop_notify :: "nat \<Rightarrow> async_msg mpmc_queue \<Rightarrow> async_msg mpmc_queue option" where
  "pop_notify i q =
     (if pop_notifying q = 0 then None
      else if putters_blocked q = [] then Some (q\<lparr>pop_notifying := pop_notifying q - 1\<rparr>)
      else if i < length (putters_blocked q)
      then Some (q\<lparr>pop_notifying := pop_notifying q - 1, putters_blocked := remove_nth i (putters_blocked q),
                   putters_woken := putters_woken q @ [putters_blocked q ! i]\<rparr>)
      else None)"

definition no_producer :: "async_msg mpmc_queue \<Rightarrow> bool" where
  "no_producer q \<longleftrightarrow> putters_blocked q = [] \<and> putters_woken q = [] \<and> notifying q = 0"

text \<open>
  The actions.  A producer holds the pool alive while it is inside \<^verbatim>\<open>post_log\<close>, so the destructor starts when no producer is
  inside, and none comes after it; it posts one terminate message per thread, each after the one before was accepted and notified.
\<close>

datatype tp_action =
    Post_log nat log_msg async_overflow_policy
  | Post_flush nat async_overflow_policy
  | Producer_resumes nat
  | Producer_notifies
  | Worker_dequeues
  | Worker_resumes
  | Worker_times_out
  | Worker_is_late
  | Worker_notifies nat nat
  | Worker_calls nat
  | Worker_completes nat
  | Destructor
  | Post_terminate

definition run_job :: "('f, 's) sink_ops \<Rightarrow> log_env \<Rightarrow> (nat \<Rightarrow> spd_logger) \<Rightarrow> nat \<Rightarrow> 's thread_pool \<Rightarrow> 's thread_pool option" where
  "run_job ops env lgs k s =
     (if k < length (tp_jobs s) then
        (case tp_jobs s ! k of
           (m, []) \<Rightarrow> None
         | (m, c # cs) \<Rightarrow>
             let (w, added) = run_call ops env (msg_logger lgs m) (async_payload m) c (tp_world s)
             in Some (s\<lparr>tp_world := w, tp_jobs := (tp_jobs s)[k := (m, added @ cs)]\<rparr>))
      else None)"

text \<open>The end of \<^verbatim>\<open>process_next_msg_\<close>: true and the loop goes on, or false after a terminate message.\<close>

definition complete_job :: "nat \<Rightarrow> 's thread_pool \<Rightarrow> 's thread_pool option" where
  "complete_job k s =
     (if k < length (tp_jobs s) \<and> snd (tp_jobs s ! k) = [] then
        let m = fst (tp_jobs s ! k);
            s1 = s\<lparr>tp_jobs := remove_nth k (tp_jobs s), tp_processed := tp_processed s @ [m]\<rparr>
        in Some (if msg_type m = Async_terminate then s1\<lparr>tp_finished := tp_finished s1 + 1\<rparr> else s1\<lparr>tp_top := tp_top s1 + 1\<rparr>)
      else None)"

fun tp_exec :: "('f, 's) sink_ops \<Rightarrow> log_env \<Rightarrow> (nat \<Rightarrow> spd_logger) \<Rightarrow> tp_action \<Rightarrow> 's thread_pool \<Rightarrow> 's thread_pool option" where
  "tp_exec ops env lgs (Post_log p msg policy) s =
     (if tp_closing s = None then Some (s\<lparr>tp_q := post_log p msg policy (tp_q s)\<rparr>) else None)"
| "tp_exec ops env lgs (Post_flush p policy) s =
     (if tp_closing s = None then Some (s\<lparr>tp_q := post_flush p policy (tp_q s)\<rparr>) else None)"
| "tp_exec ops env lgs (Producer_resumes k) s =
     (let q = tp_q s in
      if k < length (putters_woken q)
      then Some (s\<lparr>tp_q := enqueue (putters_woken q ! k) (q\<lparr>putters_woken := remove_nth k (putters_woken q)\<rparr>)\<rparr>) else None)"
| "tp_exec ops env lgs Producer_notifies s =
     (let q = tp_q s in if 0 < notifying q then Some (s\<lparr>tp_q := notify_taker (q\<lparr>notifying := notifying q - 1\<rparr>)\<rparr>) else None)"
| "tp_exec ops env lgs Worker_dequeues s =
     (if 0 < tp_top s then worker_dequeue False (tp_q s) (s\<lparr>tp_top := tp_top s - 1\<rparr>) else None)"
| "tp_exec ops env lgs Worker_resumes s =
     (let q = tp_q s in
      if 0 < takers_woken q then worker_dequeue False (q\<lparr>takers_woken := takers_woken q - 1\<rparr>) s else None)"
| "tp_exec ops env lgs Worker_times_out s =
     (let q = tp_q s in
      if 0 < takers_blocked q
      then Some (s\<lparr>tp_q := q\<lparr>takers_blocked := takers_blocked q - 1, timed_out := timed_out q + 1\<rparr>\<rparr>) else None)"
| "tp_exec ops env lgs Worker_is_late s =
     (let q = tp_q s in if 0 < timed_out q then worker_dequeue True (q\<lparr>timed_out := timed_out q - 1\<rparr>) s else None)"
| "tp_exec ops env lgs (Worker_notifies i k) s =
     (if k < length (tp_popped s) then
        map_option (\<lambda>q. s\<lparr>tp_q := q, tp_popped := remove_nth k (tp_popped s),
            tp_jobs := tp_jobs s @ [(tp_popped s ! k, backend_calls lgs (tp_popped s ! k))]\<rparr>) (pop_notify i (tp_q s))
      else None)"
| "tp_exec ops env lgs (Worker_calls k) s = run_job ops env lgs k s"
| "tp_exec ops env lgs (Worker_completes k) s = complete_job k s"
| "tp_exec ops env lgs Destructor s =
     (if tp_closing s = None \<and> no_producer (tp_q s) then Some (s\<lparr>tp_closing := Some (tp_threads s)\<rparr>) else None)"
| "tp_exec ops env lgs Post_terminate s =
     (case tp_closing s of
        Some (Suc n) \<Rightarrow>
          if no_producer (tp_q s)
          then Some (s\<lparr>tp_q := post_async_msg (async_msg_request None Async_terminate) Block (tp_q s), tp_closing := Some n\<rparr>) else None
      | _ \<Rightarrow> None)"

fun tp_run :: "('f, 's) sink_ops \<Rightarrow> log_env \<Rightarrow> (nat \<Rightarrow> spd_logger) \<Rightarrow> tp_action list \<Rightarrow> 's thread_pool \<Rightarrow> 's thread_pool option" where
  "tp_run ops env lgs [] s = Some s"
| "tp_run ops env lgs (a # acts) s = Option.bind (tp_exec ops env lgs a s) (tp_run ops env lgs acts)"

text \<open>The destructor returns when it has joined every thread.\<close>

definition joined :: "'s thread_pool \<Rightarrow> bool" where
  "joined s \<longleftrightarrow> tp_closing s = Some 0 \<and> tp_finished s = tp_threads s"

section \<open>The work, call by call\<close>

lemma async_payload_log [simp]: "async_payload (async_msg_log p t m) = m"
  by (cases m) (simp add: async_payload_def async_msg_log_def log_msg_buffer_ctor_def update_string_views_def log_msg.defs log_msg_buffer.defs)

lemma msg_type_simps [simp]:
  "msg_type (async_msg_log p t m) = t" "msg_type (async_msg_request o' t) = t"
  "worker_ptr (async_msg_log p t m) = Some p" "worker_ptr (async_msg_request o' t) = o'"
  by (simp_all add: async_msg_log_def async_msg_request_def log_msg_buffer.defs)

lemma backend_sink_it_eq: "backend_sink_it ops env lg msg w = logger_sink_it ops env lg msg w"
  by (simp add: backend_sink_it_def logger_sink_it_def backend_flush_def logger_flush_def Let_def)

text \<open>All calls that are left, without interruption.\<close>

fun finish_calls :: "('f, 's) sink_ops \<Rightarrow> log_env \<Rightarrow> spd_logger \<Rightarrow> log_msg \<Rightarrow> backend_call list \<Rightarrow> 's log_world \<Rightarrow> 's log_world" where
  "finish_calls ops env lg msg [] w = w"
| "finish_calls ops env lg msg (c # cs) w =
     (let (w1, added) = run_call ops env lg msg c w
      in finish_calls ops env lg msg cs (fold (\<lambda>c w. fst (run_call ops env lg msg c w)) added w1))"

lemma finish_append [simp]: "finish_calls ops env lg msg (cs @ ds) w = finish_calls ops env lg msg ds (finish_calls ops env lg msg cs w)"
  by (induction cs arbitrary: w) (simp_all split: prod.split)

lemma finish_flushes: "finish_calls ops env lg msg (map Sink_flush is) w = flush_sinks ops env lg is w"
  by (induction "is" arbitrary: w) simp_all

lemma fold_flushes: "fold (\<lambda>c w. fst (run_call ops env lg msg c w)) (map Sink_flush is) w = flush_sinks ops env lg is w"
  by (induction "is" arbitrary: w) simp_all

lemma finish_logs: "finish_calls ops env lg msg (map Sink_log is) w = log_sinks ops env lg msg is w"
  by (induction "is" arbitrary: w) simp_all

text \<open>A call, and then what it adds and what was left, come to the same as all that was left before.\<close>

lemma run_call_finish:
  "run_call ops env lg msg c w = (w1, added) \<Longrightarrow> finish_calls ops env lg msg (added @ cs) w1 = finish_calls ops env lg msg (c # cs) w"
  by (cases c) (auto simp: finish_flushes fold_flushes)

lemma finish_backend_calls:
  "finish_calls ops env (msg_logger lgs m) (async_payload m) (backend_calls lgs m) w = process_msg ops env lgs m w"
  by (auto simp: backend_calls_def process_msg_def msg_logger_def finish_logs finish_flushes fold_flushes backend_sink_it_def backend_flush_def
      Let_def split: async_msg_type.split option.split)

section \<open>The queue of the pool\<close>

lemma mset_remove_nth: "k < length xs \<Longrightarrow> mset xs = add_mset (xs ! k) (mset (remove_nth k xs))"
  by (subst id_take_nth_drop [of k xs]) (simp_all add: remove_nth_def)

lemma dequeue_for_cases:
  assumes "dequeue_for late q = Inr q'"
  obtains "late" "q' = q\<lparr>gave_up := gave_up q + 1\<rparr>"
  | "q' = q\<lparr>takers_blocked := takers_blocked q + 1\<rparr>"
  | x r where "q' = q\<lparr>ring := r, taken_log := taken_log q @ [x], pop_notifying := pop_notifying q + 1\<rparr>"
  using assms by (auto simp: dequeue_for_def rbind_eq_Inr split: if_splits)

lemma worker_dequeue_cases:
  assumes "worker_dequeue late q s = Some s'"
  obtains "late" "s' = s\<lparr>tp_q := q\<lparr>gave_up := gave_up q + 1\<rparr>, tp_top := tp_top s + 1\<rparr>"
  | "s' = s\<lparr>tp_q := q\<lparr>takers_blocked := takers_blocked q + 1\<rparr>\<rparr>"
  | x r where "s' = s\<lparr>tp_q := q\<lparr>ring := r, taken_log := taken_log q @ [x], pop_notifying := pop_notifying q + 1\<rparr>, tp_popped := tp_popped s @ [x]\<rparr>"
proof -
  obtain q' where q': "dequeue_for late q = Inr q'" "s' = after_dequeue q q' s"
    using assms by (auto simp: worker_dequeue_def split: sum.splits)
  show ?thesis
    by (rule dequeue_for_cases [OF q'(1)]) (auto simp: q'(2) after_dequeue_def intro: that)
qed

lemma enqueue_fields [simp]:
  "takers_blocked (enqueue m q) = takers_blocked q" "takers_woken (enqueue m q) = takers_woken q" "timed_out (enqueue m q) = timed_out q"
  "taken_log (enqueue m q) = taken_log q" "pop_notifying (enqueue m q) = pop_notifying q" "putters_woken (enqueue m q) = putters_woken q"
  by (simp_all add: enqueue_def mpmc_push_def)

lemma post_fields [simp]:
  "takers_blocked (post_async_msg m p q) = takers_blocked q" "takers_woken (post_async_msg m p q) = takers_woken q"
  "timed_out (post_async_msg m p q) = timed_out q" "taken_log (post_async_msg m p q) = taken_log q"
  "pop_notifying (post_async_msg m p q) = pop_notifying q" "putters_woken (post_async_msg m p q) = putters_woken q"
  by (simp_all add: post_async_msg_def) (simp_all add: enqueue_nowait_def mpmc_push_def)

lemma worker_dequeue_step:
  assumes "worker_dequeue late q s = Some s'"
  obtains q' where "dequeue_for late q = Inr q'" "tp_q s' = q'"
  using assms by (auto simp: worker_dequeue_def after_dequeue_def split: sum.splits)

lemma pop_notify_step: "pop_notify i q = Some q' \<Longrightarrow> mpmc_step q q'"
  unfolding pop_notify_def
  by (auto simp del: One_nat_def split: if_splits intro: mpmc_pop_notify mpmc_pop_notify_none)

lemma post_async_msg_step: "mpmc_step q (post_async_msg m policy q)"
  by (simp add: post_async_msg_def mpmc_enqueue mpmc_enqueue_nowait)

lemma tp_exec_queue:
  assumes "tp_exec ops env lgs a s = Some s'"
  shows "tp_q s' = tp_q s \<or> mpmc_step (tp_q s) (tp_q s')"
proof (cases a)
  case (Worker_notifies i k)
  then show ?thesis using assms by (auto split: if_splits dest: pop_notify_step)
next
  case (Worker_calls k)
  then show ?thesis using assms by (auto simp: run_job_def Let_def split: if_splits prod.splits list.splits)
next
  case (Worker_completes k)
  then show ?thesis using assms by (auto simp: complete_job_def Let_def split: if_splits)
next
  case (Producer_resumes k)
  then show ?thesis using assms mpmc_enqueue_resume [of k "tp_q s"] by (auto simp: Let_def split: if_splits)
next
  case Producer_notifies
  then show ?thesis using assms mpmc_notify [of "tp_q s"] by (auto simp: Let_def split: if_splits)
next
  case Worker_dequeues
  then show ?thesis using assms by (auto split: if_splits elim!: worker_dequeue_step intro: mpmc_dequeue)
next
  case Worker_resumes
  then show ?thesis using assms mpmc_dequeue_resume [of "tp_q s"] by (auto simp: Let_def split: if_splits elim!: worker_dequeue_step)
next
  case Worker_times_out
  then show ?thesis using assms mpmc_timeout [of "tp_q s"] by (auto simp: Let_def split: if_splits)
next
  case Worker_is_late
  then show ?thesis using assms mpmc_dequeue_late [of "tp_q s"] by (auto simp: Let_def split: if_splits elim!: worker_dequeue_step)
qed (use assms in \<open>auto simp: post_log_def post_flush_def post_async_msg_step split: if_splits option.splits nat.splits\<close>)

lemma tp_run_append: "tp_run ops env lgs (as @ bs) s = Option.bind (tp_run ops env lgs as s) (tp_run ops env lgs bs)"
  by (induction as arbitrary: s) (simp_all split: bind_splits)

text \<open>What every action keeps, every run keeps.\<close>

lemma tp_run_keeps:
  assumes "\<And>a s s'. tp_exec ops env lgs a s = Some s' \<Longrightarrow> P s \<Longrightarrow> P s'"
  shows "tp_run ops env lgs acts s = Some s' \<Longrightarrow> P s \<Longrightarrow> P s'"
  by (induction acts arbitrary: s) (auto simp: bind_eq_Some_conv intro: assms)

lemma tp_exec_mpmc_inv: "tp_exec ops env lgs a s = Some s' \<Longrightarrow> mpmc_inv n (tp_q s) \<Longrightarrow> mpmc_inv n (tp_q s')"
  using tp_exec_queue [of ops env lgs a s s'] by (auto intro: mpmc_inv_step)

section \<open>Where the workers and the messages are\<close>

definition tp_inv :: "'s thread_pool \<Rightarrow> bool" where
  "tp_inv s \<longleftrightarrow>
     tp_top s + takers_blocked (tp_q s) + takers_woken (tp_q s) + timed_out (tp_q s) + length (tp_popped s) + length (tp_jobs s) + tp_finished s =
       tp_threads s \<and>
     pop_notifying (tp_q s) = length (tp_popped s) \<and>
     mset (taken_log (tp_q s)) = mset (tp_popped s) + mset (map fst (tp_jobs s)) + mset (tp_processed s) \<and>
     tp_finished s = length (filter (\<lambda>m. msg_type m = Async_terminate) (tp_processed s))"

lemma tp_inv_dequeue:
  assumes "worker_dequeue late q s = Some s'" and "tp_inv (s\<lparr>tp_q := q, tp_top := tp_top s + 1\<rparr>)"
  shows "tp_inv s'"
  using assms(1) by (rule worker_dequeue_cases) (use assms(2) in \<open>auto simp: tp_inv_def\<close>)

lemma tp_inv_exec:
  assumes "tp_exec ops env lgs a s = Some s'" and "tp_inv s"
  shows "tp_inv s'"
proof (cases a)
  case Worker_dequeues
  with assms(1) have "worker_dequeue False (tp_q s) (s\<lparr>tp_top := tp_top s - 1\<rparr>) = Some s'" "0 < tp_top s" by (auto split: if_splits)
  from tp_inv_dequeue [OF this(1)] this(2) assms(2) show ?thesis by (auto simp: tp_inv_def)
next
  case Worker_resumes
  with assms(1) have "worker_dequeue False ((tp_q s)\<lparr>takers_woken := takers_woken (tp_q s) - 1\<rparr>) s = Some s'" "0 < takers_woken (tp_q s)"
    by (auto simp: Let_def split: if_splits)
  from tp_inv_dequeue [OF this(1)] this(2) assms(2) show ?thesis by (auto simp: tp_inv_def)
next
  case Worker_is_late
  with assms(1) have "worker_dequeue True ((tp_q s)\<lparr>timed_out := timed_out (tp_q s) - 1\<rparr>) s = Some s'" "0 < timed_out (tp_q s)"
    by (auto simp: Let_def split: if_splits)
  from tp_inv_dequeue [OF this(1)] this(2) assms(2) show ?thesis by (auto simp: tp_inv_def)
next
  case (Worker_notifies i k)
  then obtain q where q: "pop_notify i (tp_q s) = Some q" "k < length (tp_popped s)"
    "s' = s\<lparr>tp_q := q, tp_popped := remove_nth k (tp_popped s), tp_jobs := tp_jobs s @ [(tp_popped s ! k, backend_calls lgs (tp_popped s ! k))]\<rparr>"
    using assms(1) by (auto split: if_splits)
  have "takers_blocked q = takers_blocked (tp_q s)" "takers_woken q = takers_woken (tp_q s)" "timed_out q = timed_out (tp_q s)"
    "taken_log q = taken_log (tp_q s)" "pop_notifying q = pop_notifying (tp_q s) - 1"
    using q(1) by (auto simp: pop_notify_def split: if_splits)
  then show ?thesis using assms(2) q(2) mset_remove_nth [OF q(2)] by (auto simp: q(3) tp_inv_def length_remove_nth)
next
  case (Worker_calls k)
  then obtain m c cs w added where "k < length (tp_jobs s)" "tp_jobs s ! k = (m, c # cs)"
    "s' = s\<lparr>tp_world := w, tp_jobs := (tp_jobs s)[k := (m, added @ cs)]\<rparr>"
    using assms(1) by (auto simp: run_job_def Let_def split: if_splits prod.splits list.splits)
  moreover from this have "map fst ((tp_jobs s)[k := (m, added @ cs)]) = map fst (tp_jobs s)"
    by (metis list_update_id map_update fst_conv nth_map)
  ultimately show ?thesis using assms(2) by (simp add: tp_inv_def)
next
  case (Worker_completes k)
  then have k: "k < length (tp_jobs s)" and s': "s' = the (complete_job k s)"
    using assms(1) by (auto simp: complete_job_def split: if_splits)
  have "mset (map fst (tp_jobs s)) = add_mset (fst (tp_jobs s ! k)) (mset (map fst (remove_nth k (tp_jobs s))))"
    using arg_cong [OF mset_remove_nth [OF k], of "image_mset fst"] by simp
  then show ?thesis
    using assms Worker_completes k by (auto simp: complete_job_def tp_inv_def length_remove_nth Let_def split: if_splits)
qed (use assms in \<open>auto simp: tp_inv_def post_log_def post_flush_def notify_taker_def Let_def split: if_splits option.splits nat.splits\<close>)

section \<open>What was posted\<close>

text \<open>The terminate messages come last: the destructor posts them one after the other when nobody else posts.\<close>

abbreviation terminate_msg :: async_msg where
  "terminate_msg \<equiv> async_msg_request None Async_terminate"

definition waiting_producers :: "async_msg mpmc_queue \<Rightarrow> async_msg list" where
  "waiting_producers q = putters_blocked q @ putters_woken q"

definition ordinary :: "async_msg list \<Rightarrow> bool" where
  "ordinary ms \<longleftrightarrow> (\<forall>m\<in>set ms. msg_type m \<noteq> Async_terminate \<and> worker_ptr m \<noteq> None)"

definition posts_ok :: "'s thread_pool \<Rightarrow> bool" where
  "posts_ok s \<longleftrightarrow>
     (case tp_closing s of
        None \<Rightarrow> ordinary (put_log (tp_q s)) \<and> ordinary (waiting_producers (tp_q s))
      | Some k \<Rightarrow> k \<le> tp_threads s \<and> length (waiting_producers (tp_q s)) \<le> 1 \<and>
          (\<exists>msgs. ordinary msgs \<and> put_log (tp_q s) @ waiting_producers (tp_q s) = msgs @ replicate (tp_threads s - k) terminate_msg))"

lemma posts_ok_cong:
  "put_log (tp_q s') = put_log (tp_q s) \<Longrightarrow> putters_blocked (tp_q s') = putters_blocked (tp_q s) \<Longrightarrow>
   putters_woken (tp_q s') = putters_woken (tp_q s) \<Longrightarrow> tp_closing s' = tp_closing s \<Longrightarrow> tp_threads s' = tp_threads s \<Longrightarrow>
   posts_ok s \<Longrightarrow> posts_ok s'"
  by (cases "tp_closing s") (simp_all add: posts_ok_def waiting_producers_def)

lemma worker_dequeue_posts:
  assumes "worker_dequeue late q s = Some s'" and "posts_ok (s\<lparr>tp_q := q\<rparr>)"
  shows "posts_ok s'"
  using assms(1) by (rule worker_dequeue_cases) (auto intro: posts_ok_cong [OF _ _ _ _ _ assms(2)])

lemma set_remove_nth: "set (remove_nth k xs) \<subseteq> set xs"
  by (auto simp: remove_nth_def dest: in_set_takeD in_set_dropD)

lemma ordinary_enqueue:
  assumes "ordinary (put_log q)" "ordinary (waiting_producers q)" "msg_type m \<noteq> Async_terminate" "worker_ptr m \<noteq> None"
  shows "ordinary (put_log (post_async_msg m p q))" "ordinary (waiting_producers (post_async_msg m p q))"
  using assms by (auto simp: ordinary_def waiting_producers_def post_async_msg_def enqueue_def enqueue_nowait_def mpmc_push_def)

lemma posts_ok_resume:
  assumes "k < length (putters_woken (tp_q s))" and "posts_ok s"
  shows "posts_ok (s\<lparr>tp_q := enqueue (putters_woken (tp_q s) ! k) ((tp_q s)\<lparr>putters_woken := remove_nth k (putters_woken (tp_q s))\<rparr>)\<rparr>)"
proof (cases "tp_closing s")
  case None
  let ?q = "(tp_q s)\<lparr>putters_woken := remove_nth k (putters_woken (tp_q s))\<rparr>"
  have "ordinary (put_log ?q)" "ordinary (waiting_producers ?q)" "msg_type (putters_woken (tp_q s) ! k) \<noteq> Async_terminate"
    "worker_ptr (putters_woken (tp_q s) ! k) \<noteq> None"
    using assms None set_remove_nth [of k "putters_woken (tp_q s)"]
    by (auto simp: posts_ok_def ordinary_def waiting_producers_def)
  from ordinary_enqueue [OF this, of Block] show ?thesis using None by (simp add: posts_ok_def post_async_msg_def)
next
  case (Some n)
  have "length (putters_blocked (tp_q s)) + length (putters_woken (tp_q s)) \<le> 1" using Some assms(2) by (simp add: posts_ok_def waiting_producers_def)
  with assms(1) obtain m where m: "putters_blocked (tp_q s) = []" "putters_woken (tp_q s) = [m]" "k = 0"
    by (cases "putters_woken (tp_q s)") auto
  then show ?thesis
    using assms(2) Some by (auto simp: posts_ok_def waiting_producers_def enqueue_def mpmc_push_def remove_nth_def)
qed

lemma posts_ok_terminate:
  assumes "tp_closing s = Some (Suc n)" and "no_producer (tp_q s)" and "posts_ok s"
  shows "posts_ok (s\<lparr>tp_q := post_async_msg terminate_msg Block (tp_q s), tp_closing := Some n\<rparr>)"
proof -
  let ?q = "post_async_msg terminate_msg Block (tp_q s)"
  have "put_log ?q @ waiting_producers ?q = put_log (tp_q s) @ [terminate_msg]" "length (waiting_producers ?q) \<le> 1"
    using assms(2) by (simp_all add: no_producer_def waiting_producers_def post_async_msg_def enqueue_def mpmc_push_def)
  moreover have w: "waiting_producers (tp_q s) = []" using assms(2) by (simp add: no_producer_def waiting_producers_def)
  moreover obtain msgs where "ordinary msgs" "put_log (tp_q s) = msgs @ replicate (tp_threads s - Suc n) terminate_msg" "Suc n \<le> tp_threads s"
    using assms(1,3) w by (auto simp: posts_ok_def)
  moreover from this(3) have "tp_threads s - n = Suc (tp_threads s - Suc n)" by simp
  ultimately show ?thesis by (auto simp: posts_ok_def replicate_append_same)
qed

lemma pop_notify_posts:
  assumes "pop_notify i (tp_q s) = Some q" and "posts_ok s"
  shows "posts_ok (s\<lparr>tp_q := q, tp_popped := p, tp_jobs := j\<rparr>)"
proof (cases "putters_blocked (tp_q s) = []")
  case True
  then show ?thesis using assms(1) by (intro posts_ok_cong [OF _ _ _ _ _ assms(2)]) (auto simp: pop_notify_def split: if_splits)
next
  case False
  then have i: "i < length (putters_blocked (tp_q s))" using assms(1) by (auto simp: pop_notify_def split: if_splits)
  have q: "q = (tp_q s)\<lparr>pop_notifying := pop_notifying (tp_q s) - 1, putters_blocked := remove_nth i (putters_blocked (tp_q s)),
      putters_woken := putters_woken (tp_q s) @ [putters_blocked (tp_q s) ! i]\<rparr>"
    using False i assms(1) by (auto simp: pop_notify_def split: if_splits)
  show ?thesis
  proof (cases "tp_closing s")
    case None
    then show ?thesis using assms(2) i set_remove_nth [of i "putters_blocked (tp_q s)"]
      by (auto simp: q posts_ok_def ordinary_def waiting_producers_def)
  next
    case (Some n)
    then have "length (putters_blocked (tp_q s)) + length (putters_woken (tp_q s)) \<le> 1" using assms(2) by (simp add: posts_ok_def waiting_producers_def)
    with False obtain m where "putters_blocked (tp_q s) = [m]" "putters_woken (tp_q s) = []" by (cases "putters_blocked (tp_q s)") auto
    then show ?thesis using assms(2) Some i by (auto simp: q posts_ok_def waiting_producers_def remove_nth_def)
  qed
qed

lemma posts_ok_exec:
  assumes "tp_exec ops env lgs a s = Some s'" and "posts_ok s"
  shows "posts_ok s'"
proof (cases a)
  case (Post_log p msg policy)
  then show ?thesis
    using assms ordinary_enqueue [of "tp_q s" "async_msg_log p Async_log msg" policy] by (auto simp: posts_ok_def post_log_def split: if_splits)
next
  case (Post_flush p policy)
  then show ?thesis
    using assms ordinary_enqueue [of "tp_q s" "async_msg_request (Some p) Async_flush" policy]
    by (auto simp: posts_ok_def post_flush_def split: if_splits)
next
  case (Producer_resumes k)
  then show ?thesis using assms posts_ok_resume by (auto simp: Let_def split: if_splits)
next
  case (Worker_notifies i k)
  then show ?thesis using assms pop_notify_posts by (auto split: if_splits)
next
  case (Worker_calls k)
  with assms(1) show ?thesis
    by (auto simp: run_job_def Let_def split: if_splits prod.splits list.splits intro: posts_ok_cong [OF _ _ _ _ _ assms(2)])
next
  case (Worker_completes k)
  with assms(1) show ?thesis by (auto simp: complete_job_def Let_def split: if_splits intro: posts_ok_cong [OF _ _ _ _ _ assms(2)])
next
  case Destructor
  then show ?thesis using assms by (auto simp: posts_ok_def no_producer_def waiting_producers_def split: if_splits)
next
  case Post_terminate
  then show ?thesis using assms posts_ok_terminate by (auto split: if_splits option.splits nat.splits)
next
  case Worker_dequeues
  with assms(1) show ?thesis by (auto split: if_splits elim!: worker_dequeue_posts intro: posts_ok_cong [OF _ _ _ _ _ assms(2)])
next
  case Worker_resumes
  with assms(1) show ?thesis by (auto simp: Let_def split: if_splits elim!: worker_dequeue_posts intro: posts_ok_cong [OF _ _ _ _ _ assms(2)])
next
  case Worker_is_late
  with assms(1) show ?thesis by (auto simp: Let_def split: if_splits elim!: worker_dequeue_posts intro: posts_ok_cong [OF _ _ _ _ _ assms(2)])
qed (use assms(1) in \<open>auto simp: notify_taker_def Let_def split: if_splits intro: posts_ok_cong [OF _ _ _ _ _ assms(2)]\<close>)

section \<open>One worker\<close>

text \<open>With a single worker, what is done and what is left of the message in hand add up to the messages taken, in their order.\<close>

definition finish_job :: "('f, 's) sink_ops \<Rightarrow> log_env \<Rightarrow> (nat \<Rightarrow> spd_logger) \<Rightarrow> job \<Rightarrow> 's log_world \<Rightarrow> 's log_world" where
  "finish_job ops env lgs j w = finish_calls ops env (msg_logger lgs (fst j)) (async_payload (fst j)) (snd j) w"

definition in_order :: "('f, 's) sink_ops \<Rightarrow> log_env \<Rightarrow> (nat \<Rightarrow> spd_logger) \<Rightarrow> 's log_world \<Rightarrow> 's thread_pool \<Rightarrow> bool" where
  "in_order ops env lgs w0 s \<longleftrightarrow>
     taken_log (tp_q s) = tp_processed s @ map fst (tp_jobs s) @ tp_popped s \<and>
     fold (finish_job ops env lgs) (tp_jobs s) (tp_world s) = fold (process_msg ops env lgs) (tp_processed s @ map fst (tp_jobs s)) w0"

lemma in_order_cong:
  "taken_log (tp_q s') = taken_log (tp_q s) \<Longrightarrow> tp_processed s' = tp_processed s \<Longrightarrow> tp_jobs s' = tp_jobs s \<Longrightarrow> tp_popped s' = tp_popped s \<Longrightarrow>
   tp_world s' = tp_world s \<Longrightarrow> in_order ops env lgs w0 s \<Longrightarrow> in_order ops env lgs w0 s'"
  by (simp add: in_order_def)

lemma in_order_dequeue:
  assumes "worker_dequeue late q s = Some s'" and "in_order ops env lgs w0 (s\<lparr>tp_q := q\<rparr>)"
  shows "in_order ops env lgs w0 s'"
  using assms(1) by (rule worker_dequeue_cases) (use assms(2) in \<open>auto simp: in_order_def\<close>)

lemma in_order_exec:
  assumes "tp_exec ops env lgs a s = Some s'" and "tp_threads s = 1" and "tp_inv s" and "in_order ops env lgs w0 s"
  shows "in_order ops env lgs w0 s'"
proof (cases a)
  case (Worker_notifies i k)
  then obtain q where q: "pop_notify i (tp_q s) = Some q" "k < length (tp_popped s)"
    "s' = s\<lparr>tp_q := q, tp_popped := remove_nth k (tp_popped s), tp_jobs := tp_jobs s @ [(tp_popped s ! k, backend_calls lgs (tp_popped s ! k))]\<rparr>"
    using assms(1) by (auto split: if_splits)
  have "length (tp_popped s) + length (tp_jobs s) \<le> 1" using assms(2,3) by (simp add: tp_inv_def)
  with q(2) obtain m where m: "tp_popped s = [m]" "tp_jobs s = []" "k = 0" by (cases "tp_popped s") auto
  have "taken_log q = taken_log (tp_q s)" using q(1) by (auto simp: pop_notify_def split: if_splits)
  then show ?thesis using assms(4) by (simp add: q(3) m in_order_def remove_nth_def finish_job_def finish_backend_calls)
next
  case (Worker_calls k)
  then obtain m c cs w added where c: "k < length (tp_jobs s)" "tp_jobs s ! k = (m, c # cs)"
    "run_call ops env (msg_logger lgs m) (async_payload m) c (tp_world s) = (w, added)"
    "s' = s\<lparr>tp_world := w, tp_jobs := (tp_jobs s)[k := (m, added @ cs)]\<rparr>"
    using assms(1) by (auto simp: run_job_def Let_def split: if_splits prod.splits list.splits)
  have "length (tp_jobs s) \<le> 1" using assms(2,3) by (simp add: tp_inv_def)
  with c(1,2) have "tp_jobs s = [(m, c # cs)]" "k = 0" by (cases "tp_jobs s"; auto)+
  then show ?thesis using assms(4) run_call_finish [OF c(3), of cs] by (simp add: c(4) in_order_def finish_job_def)
next
  case (Worker_completes k)
  then have k: "k < length (tp_jobs s)" "snd (tp_jobs s ! k) = []" using assms(1) by (auto simp: complete_job_def split: if_splits)
  have "length (tp_popped s) + length (tp_jobs s) \<le> 1" using assms(2,3) by (simp add: tp_inv_def)
  with k obtain m where "tp_jobs s = [(m, [])]" "k = 0" by (cases "tp_jobs s") auto
  then show ?thesis
    using assms(1,4) Worker_completes by (auto simp: complete_job_def in_order_def finish_job_def remove_nth_def Let_def split: if_splits)
next
  case Worker_dequeues
  with assms(1) show ?thesis by (auto split: if_splits elim!: in_order_dequeue intro: in_order_cong [OF _ _ _ _ _ assms(4)])
next
  case Worker_resumes
  with assms(1) show ?thesis by (auto simp: Let_def split: if_splits elim!: in_order_dequeue intro: in_order_cong [OF _ _ _ _ _ assms(4)])
next
  case Worker_is_late
  with assms(1) show ?thesis by (auto simp: Let_def split: if_splits elim!: in_order_dequeue intro: in_order_cong [OF _ _ _ _ _ assms(4)])
qed (use assms(1) in \<open>auto simp: post_log_def post_flush_def Let_def split: if_splits option.splits nat.splits
      intro: in_order_cong [OF _ _ _ _ _ assms(4)]\<close>)

section \<open>The terminate messages\<close>

definition terminates :: "async_msg list \<Rightarrow> nat" where
  "terminates ms = length (filter (\<lambda>m. msg_type m = Async_terminate) ms)"

lemma terminates_simps [simp]:
  "terminates [] = 0" "terminates (m # ms) = (if msg_type m = Async_terminate then 1 else 0) + terminates ms"
  "terminates (ms @ ns) = terminates ms + terminates ns" "terminates (replicate n terminate_msg) = n"
  by (simp_all add: terminates_def)

lemma terminates_ordinary: "set ms \<subseteq> set ns \<Longrightarrow> ordinary ns \<Longrightarrow> terminates ms = 0"
  by (auto simp: terminates_def ordinary_def filter_empty_conv)

lemma terminates_mset: "mset ms = mset ns \<Longrightarrow> terminates ms = terminates ns"
  unfolding terminates_def by (metis mset_filter size_mset)

lemma terminates_remove_nth: "k < length ms \<Longrightarrow> terminates ms = terminates (ms ! k # remove_nth k ms)"
  by (rule terminates_mset) (simp add: mset_remove_nth)

text \<open>None of them is overrun: what the destructor has posted is taken, in the queue, or waits to be accepted.\<close>

definition kept :: "'s thread_pool \<Rightarrow> bool" where
  "kept s \<longleftrightarrow> (\<forall>k. tp_closing s = Some k \<longrightarrow>
     terminates (taken_log (tp_q s) @ q_contents (ring (tp_q s)) @ waiting_producers (tp_q s)) = tp_threads s - k)"

lemma kept_cong:
  assumes "taken_log (tp_q s') @ q_contents (ring (tp_q s')) = taken_log (tp_q s) @ q_contents (ring (tp_q s))"
    and "putters_blocked (tp_q s') = putters_blocked (tp_q s)" and "putters_woken (tp_q s') = putters_woken (tp_q s)"
    and "tp_closing s' = tp_closing s" and "tp_threads s' = tp_threads s" and "kept s"
  shows "kept s'"
proof -
  have "terminates (taken_log (tp_q s')) + terminates (q_contents (ring (tp_q s'))) =
      terminates (taken_log (tp_q s)) + terminates (q_contents (ring (tp_q s)))"
    using arg_cong [OF assms(1), of terminates] by simp
  then show ?thesis using assms(2-6) by (cases "tp_closing s") (simp_all add: kept_def waiting_producers_def)
qed

lemma kept_dequeue:
  assumes "worker_dequeue late q s = Some s'" and "mpmc_inv n q" and "kept (s\<lparr>tp_q := q\<rparr>)"
  shows "kept s'"
proof -
  obtain q' where q': "dequeue_for late q = Inr q'" "s' = after_dequeue q q' s"
    using assms(1) by (auto simp: worker_dequeue_def split: sum.splits)
  have "putters_blocked q' = putters_blocked q" "putters_woken q' = putters_woken q" by (rule dequeue_for_cases [OF q'(1)]; simp)+
  then show ?thesis
    using dequeue_contents [OF assms(2) q'(1)] by (intro kept_cong [OF _ _ _ _ _ assms(3)]) (simp_all add: q'(2) after_dequeue_def)
qed

lemma terminates_enqueue:
  "mpmc_inv n q \<Longrightarrow> terminates (q_contents (ring (enqueue m q)) @ waiting_producers (enqueue m q)) =
     terminates (q_contents (ring q) @ waiting_producers q) + terminates [m]"
  by (simp add: enqueue_contents) (simp add: enqueue_def mpmc_push_def waiting_producers_def)

lemma kept_exec:
  assumes e: "tp_exec ops env lgs a s = Some s'" and inv: "mpmc_inv n (tp_q s)" and posts: "posts_ok s" and kept: "kept s"
  shows "kept s'"
proof (cases a)
  case (Producer_resumes k)
  let ?q = "(tp_q s)\<lparr>putters_woken := remove_nth k (putters_woken (tp_q s))\<rparr>"
  have k: "k < length (putters_woken (tp_q s))" and s': "s' = s\<lparr>tp_q := enqueue (putters_woken (tp_q s) ! k) ?q\<rparr>"
    using e Producer_resumes by (auto simp: Let_def split: if_splits)
  have "mpmc_inv n ?q" by (rule mpmc_inv_cong [OF _ _ _ inv]) simp_all
  from terminates_enqueue [OF this, of "putters_woken (tp_q s) ! k"] terminates_remove_nth [OF k] kept
  show ?thesis by (auto simp: s' kept_def waiting_producers_def)
next
  case (Worker_notifies i k)
  then obtain q where q: "pop_notify i (tp_q s) = Some q" "tp_q s' = q" "tp_closing s' = tp_closing s" "tp_threads s' = tp_threads s"
    using e by (auto split: if_splits)
  have "terminates (waiting_producers q) = terminates (waiting_producers (tp_q s))"
    using q(1) terminates_remove_nth [of i "putters_blocked (tp_q s)"] by (auto simp: pop_notify_def waiting_producers_def split: if_splits)
  moreover have "taken_log q = taken_log (tp_q s)" "ring q = ring (tp_q s)" using q(1) by (auto simp: pop_notify_def split: if_splits)
  ultimately show ?thesis using kept q by (simp add: kept_def)
next
  case Destructor
  then have "terminates (taken_log (tp_q s) @ q_contents (ring (tp_q s))) = 0"
    using e posts inv by (intro terminates_ordinary [of _ "put_log (tp_q s)"])
      (auto simp: posts_ok_def mpmc_inv_def elim: list_emb_set split: if_splits)
  then show ?thesis using e Destructor by (auto simp: kept_def no_producer_def waiting_producers_def split: if_splits)
next
  case Post_terminate
  then obtain k where k: "tp_closing s = Some (Suc k)" "s' = s\<lparr>tp_q := enqueue terminate_msg (tp_q s), tp_closing := Some k\<rparr>"
    using e by (auto simp: post_async_msg_def split: option.splits nat.splits if_splits)
  have "Suc k \<le> tp_threads s" using posts k(1) by (simp add: posts_ok_def)
  then show ?thesis using kept k terminates_enqueue [OF inv, of terminate_msg] by (simp add: kept_def)
next
  case (Worker_calls k)
  with e show ?thesis by (auto simp: run_job_def Let_def split: if_splits prod.splits list.splits intro: kept_cong [OF _ _ _ _ _ kept])
next
  case (Worker_completes k)
  with e show ?thesis by (auto simp: complete_job_def Let_def split: if_splits intro: kept_cong [OF _ _ _ _ _ kept])
next
  case Worker_dequeues
  with e show ?thesis using inv by (auto split: if_splits elim!: kept_dequeue intro: kept_cong [OF _ _ _ _ _ kept])
next
  case Worker_resumes
  with e inv show ?thesis
    by (auto simp: Let_def split: if_splits elim!: kept_dequeue intro: kept_cong [OF _ _ _ _ _ kept] mpmc_inv_cong [OF _ _ _ inv])
next
  case Worker_is_late
  with e inv show ?thesis
    by (auto simp: Let_def split: if_splits elim!: kept_dequeue intro: kept_cong [OF _ _ _ _ _ kept] mpmc_inv_cong [OF _ _ _ inv])
next
  case (Post_log p msg policy)
  with e show ?thesis by (auto simp: kept_def split: if_splits)
next
  case (Post_flush p policy)
  with e show ?thesis by (auto simp: kept_def split: if_splits)
qed (use e in \<open>auto simp: notify_taker_def Let_def split: if_splits intro: kept_cong [OF _ _ _ _ _ kept]\<close>)

section \<open>Runs\<close>

definition pool_ok :: "nat \<Rightarrow> 's thread_pool \<Rightarrow> bool" where
  "pool_ok cap s \<longleftrightarrow> mpmc_inv cap (tp_q s) \<and> putters_ok 0 (tp_q s) \<and> tp_inv s \<and> posts_ok s \<and> kept s"

lemma pool_ok_exec:
  assumes "tp_exec ops env lgs a s = Some s'" and "pool_ok cap s"
  shows "pool_ok cap s'"
proof -
  have "putters_ok 0 (tp_q s')" using tp_exec_queue [OF assms(1)] assms(2) putters_ok_step by (auto simp: pool_ok_def)
  then show ?thesis
    using assms tp_exec_mpmc_inv tp_inv_exec posts_ok_exec kept_exec by (auto simp: pool_ok_def)
qed

lemma pool_ok_tp_inv: "pool_ok cap s \<Longrightarrow> tp_inv s"
  by (simp add: pool_ok_def)

lemma tp_exec_threads: "tp_exec ops env lgs a s = Some s' \<Longrightarrow> tp_threads s' = tp_threads s"
  by (cases a) (auto simp: worker_dequeue_def after_dequeue_def run_job_def complete_job_def Let_def
      split: if_splits option.splits nat.splits sum.splits prod.splits list.splits)

lemma pool_ok_ctor:
  assumes "thread_pool_ctor cap n w = Inr s" and "cap + 1 < 2 ^ 64"
  shows "pool_ok cap s" "in_order ops env lgs w s" "tp_threads s = n" "0 < n"
proof -
  have s: "tp_q s = mpmc_ctor async_msg_default cap" "tp_threads s = n" "tp_top s = n" "tp_popped s = []" "tp_jobs s = []" "tp_finished s = 0"
    "tp_processed s = []" "tp_closing s = None" "tp_world s = w" "0 < n"
    using assms(1) by (auto simp: thread_pool_ctor_def split: if_splits)
  have q: "takers_blocked (tp_q s) = 0" "takers_woken (tp_q s) = 0" "timed_out (tp_q s) = 0" "pop_notifying (tp_q s) = 0" "taken_log (tp_q s) = []"
    "put_log (tp_q s) = []" "waiting_producers (tp_q s) = []"
    by (simp_all add: s mpmc_ctor_def bounded_queue.extend_def BoundedBlockingQueue_ctor_def blocking_queue.extend_def new_blocking_queue_def
        waiting_producers_def)
  have "mpmc_inv cap (tp_q s)" "putters_ok 0 (tp_q s)"
    unfolding s by (rule mpmc_inv_reachable [OF rtranclp.rtrancl_refl assms(2)], rule putters_ok_reachable [OF rtranclp.rtrancl_refl assms(2)])
  then show "pool_ok cap s" by (simp add: pool_ok_def tp_inv_def posts_ok_def kept_def s q ordinary_def del: s(1))
  show "in_order ops env lgs w s" using q by (simp add: in_order_def s(2-))
qed (use assms(1) in \<open>auto simp: thread_pool_ctor_def split: if_splits\<close>)

lemma pool_ok_run:
  assumes "thread_pool_ctor cap n w = Inr s0" and "cap + 1 < 2 ^ 64" and "tp_run ops env lgs acts s0 = Some s"
  shows "pool_ok cap s \<and> tp_threads s = n \<and> 0 < n"
  by (rule tp_run_keeps [OF _ assms(3), where P = "\<lambda>s. pool_ok cap s \<and> tp_threads s = n \<and> 0 < n"])
    (use pool_ok_ctor [OF assms(1,2)] in \<open>auto simp: pool_ok_exec tp_exec_threads\<close>)

lemma in_order_run:
  assumes "thread_pool_ctor cap 1 w = Inr s0" and "cap + 1 < 2 ^ 64" and "tp_run ops env lgs acts s0 = Some s"
  shows "in_order ops env lgs w s"
proof -
  have "(pool_ok cap s \<and> tp_threads s = 1) \<and> in_order ops env lgs w s"
    by (rule tp_run_keeps [OF _ assms(3), where P = "\<lambda>s. (pool_ok cap s \<and> tp_threads s = 1) \<and> in_order ops env lgs w s"])
      (use pool_ok_ctor [OF assms(1,2)] in \<open>auto simp: pool_ok_exec tp_exec_threads intro: in_order_exec pool_ok_tp_inv\<close>)
  then show ?thesis by simp
qed

text \<open>Behind a terminate message come only others.\<close>

lemma nothing_after_terminate:
  assumes "subseq (xs @ ys) (ms @ replicate n terminate_msg)" and "ordinary ms" and "0 < terminates xs" and "terminates ys = 0"
  shows "ys = []"
proof (rule ccontr)
  assume "ys \<noteq> []"
  obtain t where "t \<in> set xs" "msg_type t = Async_terminate"
    using assms(3) by (auto simp: terminates_def filter_empty_conv)
  then obtain u v where xs: "xs = u @ t # v" by (auto dest: split_list)
  have "subseq (t # v @ ys) (ms @ replicate n terminate_msg)"
    using assms(1) by (rule subseq_order.trans [rotated]) (simp add: xs list_emb_append_mono [of _ "[]", simplified] subseq_append')
  then have "subseq (t # v @ ys) (replicate n terminate_msg)"
    using assms(2) \<open>msg_type t = _\<close> by (induction ms) (auto simp: ordinary_def split: if_splits)
  then have "set ys \<subseteq> {terminate_msg}" by (auto elim: list_emb_set)
  moreover obtain y zs where "ys = y # zs" using \<open>ys \<noteq> []\<close> by (cases ys) auto
  ultimately show False using assms(4) by simp
qed

text \<open>After the destructor has joined the workers, no message is left anywhere.\<close>

lemma joined_done:
  assumes "pool_ok cap s" and "joined s" and "0 < tp_threads s"
  obtains msgs where "ordinary msgs" "put_log (tp_q s) = msgs @ replicate (tp_threads s) terminate_msg" "tp_popped s = []" "tp_jobs s = []"
    "q_contents (ring (tp_q s)) = []" "waiting_producers (tp_q s) = []"
proof -
  let ?q = "tp_q s"
  have e: "tp_popped s = []" "tp_jobs s = []" "mset (taken_log ?q) = mset (tp_processed s)" "terminates (tp_processed s) = tp_threads s"
    using assms(1,2) by (auto simp: pool_ok_def tp_inv_def joined_def terminates_def)
  have t: "terminates (taken_log ?q) = tp_threads s" using terminates_mset [OF e(3)] e(4) by simp
  then have z: "terminates (q_contents (ring ?q)) = 0" "terminates (waiting_producers ?q) = 0"
    using assms(1,2) by (auto simp: pool_ok_def kept_def joined_def)
  obtain msgs where m: "ordinary msgs" "put_log ?q @ waiting_producers ?q = msgs @ replicate (tp_threads s) terminate_msg"
    using assms(1,2) by (auto simp: pool_ok_def posts_ok_def joined_def)
  have w: "waiting_producers ?q = []"
  proof (cases "waiting_producers ?q" rule: rev_exhaust)
    case (snoc ws x)
    obtain k where "tp_threads s = Suc k" using assms(3) by (cases "tp_threads s") auto
    then have "x = terminate_msg" using m(2) snoc by (simp flip: replicate_append_same)
    then show ?thesis using z(2) snoc by simp
  qed
  have "subseq (taken_log ?q @ q_contents (ring ?q)) (msgs @ replicate (tp_threads s) terminate_msg)"
    using assms(1) m(2) w by (simp add: pool_ok_def mpmc_inv_def)
  from nothing_after_terminate [OF this m(1)] have "q_contents (ring ?q) = []" using t z assms(3) by simp
  with that m w e show ?thesis by simp
qed

lemma subseq_mset_subset: "subseq xs ys \<Longrightarrow> mset xs \<subseteq># mset ys"
proof (induction rule: list_emb.induct)
  case (list_emb_Cons xs ys y)
  then show ?case by (metis add_mset_add_single mset.simps(2) mset_subset_eq_add_left subset_mset.order_trans)
qed simp_all

section \<open>Progress\<close>

text \<open>A measure that some action decreases until the destructor has returned.\<close>

fun call_weight :: "spd_logger \<Rightarrow> backend_call \<Rightarrow> nat" where
  "call_weight lg Maybe_flush = Suc (length (lg_sinks lg))"
| "call_weight lg _ = 1"

definition job_weight :: "(nat \<Rightarrow> spd_logger) \<Rightarrow> job \<Rightarrow> nat" where
  "job_weight lgs j = 1 + sum_list (map (call_weight (msg_logger lgs (fst j))) (snd j))"

definition msg_weight :: "(nat \<Rightarrow> spd_logger) \<Rightarrow> nat \<Rightarrow> async_msg \<Rightarrow> nat" where
  "msg_weight lgs k m = job_weight lgs (m, backend_calls lgs m) + k"

definition queue_measure :: "(nat \<Rightarrow> spd_logger) \<Rightarrow> async_msg mpmc_queue \<Rightarrow> nat" where
  "queue_measure lgs q =
     sum_list (map (msg_weight lgs 3) (q_contents (ring q))) + sum_list (map (msg_weight lgs 6) (putters_blocked q)) +
     sum_list (map (msg_weight lgs 5) (putters_woken q)) + notifying q + 2 * takers_blocked q + takers_woken q + timed_out q"

fun closing_measure :: "nat \<Rightarrow> nat \<Rightarrow> nat option \<Rightarrow> nat" where
  "closing_measure t n None = Suc (n * t)"
| "closing_measure t n (Some k) = k * t"

definition tp_measure :: "(nat \<Rightarrow> spd_logger) \<Rightarrow> 's thread_pool \<Rightarrow> nat" where
  "tp_measure lgs s =
     sum_list (map (job_weight lgs) (tp_jobs s)) + sum_list (map (msg_weight lgs 1) (tp_popped s)) + queue_measure lgs (tp_q s) +
     closing_measure (msg_weight lgs 7 terminate_msg) (tp_threads s) (tp_closing s)"

definition can_advance :: "('f, 's) sink_ops \<Rightarrow> log_env \<Rightarrow> (nat \<Rightarrow> spd_logger) \<Rightarrow> 's thread_pool \<Rightarrow> bool" where
  "can_advance ops env lgs s \<longleftrightarrow> (\<exists>a s'. tp_exec ops env lgs a s = Some s' \<and> tp_measure lgs s' < tp_measure lgs s)"

lemma can_advanceI: "tp_exec ops env lgs a s = Some s' \<Longrightarrow> tp_measure lgs s' < tp_measure lgs s \<Longrightarrow> can_advance ops env lgs s"
  by (auto simp: can_advance_def)

lemma remove_first [simp]: "remove_nth 0 (x # xs) = xs"
  by (simp add: remove_nth_def)

lemma advance_notify: "0 < notifying (tp_q s) \<Longrightarrow> can_advance ops env lgs s"
  by (rule can_advanceI [of _ _ _ Producer_notifies]) (auto simp: Let_def tp_measure_def queue_measure_def notify_taker_def)

lemma run_call_weight:
  "run_call ops env lg msg c w = (w1, added) \<Longrightarrow> sum_list (map (call_weight lg) added) < call_weight lg c"
  by (cases c) (auto simp: o_def sum_list_triv)

lemma advance_job:
  assumes "tp_jobs s \<noteq> []"
  shows "can_advance ops env lgs s"
proof -
  obtain m cs rest where j: "tp_jobs s = (m, cs) # rest" using assms by (cases "tp_jobs s") auto
  show ?thesis
  proof (cases cs)
    case Nil
    then show ?thesis
      by (intro can_advanceI [of _ _ _ "Worker_completes 0", OF _]) (auto simp: complete_job_def j Let_def tp_measure_def job_weight_def)
  next
    case (Cons c ds)
    obtain w added where r: "run_call ops env (msg_logger lgs m) (async_payload m) c (tp_world s) = (w, added)" by force
    show ?thesis
      by (rule can_advanceI [of _ _ _ "Worker_calls 0"], simp add: run_job_def j Cons r)
        (use run_call_weight [OF r] in \<open>simp add: tp_measure_def job_weight_def j Cons\<close>)
  qed
qed

lemma advance_popped:
  assumes "tp_inv s" and "tp_popped s \<noteq> []"
  shows "can_advance ops env lgs s"
proof -
  obtain m rest where p: "tp_popped s = m # rest" using assms(2) by (cases "tp_popped s") auto
  have n: "0 < pop_notifying (tp_q s)" using assms by (simp add: tp_inv_def)
  obtain q where q: "pop_notify 0 (tp_q s) = Some q" using n by (cases "putters_blocked (tp_q s)") (auto simp: pop_notify_def)
  have "queue_measure lgs q \<le> queue_measure lgs (tp_q s)"
    using q n by (cases "putters_blocked (tp_q s)") (auto simp: pop_notify_def queue_measure_def msg_weight_def)
  then show ?thesis
    by (intro can_advanceI [of _ _ _ "Worker_notifies 0 0", OF _]) (auto simp: p q tp_measure_def msg_weight_def)
qed

lemma dequeue_measure:
  assumes "mpmc_inv n q" and "q_contents (ring q) \<noteq> []"
  obtains s' where "worker_dequeue late q s = Some s'"
    "tp_measure lgs s' < tp_measure lgs (s\<lparr>tp_q := q\<rparr>)"
proof -
  obtain q' where d: "dequeue_for late q = Inr q'" by (rule dequeue_succeeds [OF assms(1)])
  have ne: "\<not> q_empty (ring q)" using assms by (simp add: q_empty_iff mpmc_inv_def ring_ok_def)
  obtain x r where q': "q' = q\<lparr>ring := r, taken_log := taken_log q @ [x], pop_notifying := pop_notifying q + 1\<rparr>"
    using d ne by (auto simp: dequeue_for_def rbind_eq_Inr)
  have "q_contents (ring q) = x # q_contents r" using dequeue_contents [OF assms(1) d] by (simp add: q')
  then have "tp_measure lgs (after_dequeue q q' s) < tp_measure lgs (s\<lparr>tp_q := q\<rparr>)"
    by (simp add: after_dequeue_def q' tp_measure_def queue_measure_def msg_weight_def)
  with that show ?thesis by (simp add: worker_dequeue_def d)
qed

lemma advance_queue:
  assumes ok: "pool_ok cap s" and ne: "q_contents (ring (tp_q s)) \<noteq> []" and "tp_popped s = []" "tp_jobs s = []" "tp_finished s < tp_threads s"
  shows "can_advance ops env lgs s"
proof -
  let ?q = "tp_q s"
  have inv: "mpmc_inv cap ?q" using ok by (simp add: pool_ok_def)
  have "0 < tp_top s + takers_woken ?q + timed_out ?q + takers_blocked ?q"
    using ok assms(3-5) by (auto simp: pool_ok_def tp_inv_def)
  then consider "0 < tp_top s" | "0 < takers_woken ?q" | "0 < timed_out ?q" | "0 < takers_blocked ?q" by auto
  then show ?thesis
  proof cases
    case 1
    obtain s' where "worker_dequeue False ?q (s\<lparr>tp_top := tp_top s - 1\<rparr>) = Some s'" "tp_measure lgs s' < tp_measure lgs (s\<lparr>tp_top := tp_top s - 1, tp_q := ?q\<rparr>)"
      by (rule dequeue_measure [OF inv ne])
    with 1 show ?thesis by (intro can_advanceI [of _ _ _ Worker_dequeues]) (auto simp: tp_measure_def)
  next
    case 2
    let ?q' = "?q\<lparr>takers_woken := takers_woken ?q - 1\<rparr>"
    have "mpmc_inv cap ?q'" by (rule mpmc_inv_cong [OF _ _ _ inv]) simp_all
    then obtain s' where "worker_dequeue False ?q' s = Some s'" "tp_measure lgs s' < tp_measure lgs (s\<lparr>tp_q := ?q'\<rparr>)"
      by (rule dequeue_measure) (simp add: ne)
    moreover have "tp_measure lgs (s\<lparr>tp_q := ?q'\<rparr>) \<le> tp_measure lgs s" by (simp add: tp_measure_def queue_measure_def)
    ultimately show ?thesis using 2 by (intro can_advanceI [of _ _ _ Worker_resumes]) (auto simp: Let_def)
  next
    case 3
    let ?q' = "?q\<lparr>timed_out := timed_out ?q - 1\<rparr>"
    have "mpmc_inv cap ?q'" by (rule mpmc_inv_cong [OF _ _ _ inv]) simp_all
    then obtain s' where "worker_dequeue True ?q' s = Some s'" "tp_measure lgs s' < tp_measure lgs (s\<lparr>tp_q := ?q'\<rparr>)"
      by (rule dequeue_measure) (simp add: ne)
    moreover have "tp_measure lgs (s\<lparr>tp_q := ?q'\<rparr>) \<le> tp_measure lgs s" by (simp add: tp_measure_def queue_measure_def)
    ultimately show ?thesis using 3 by (intro can_advanceI [of _ _ _ Worker_is_late]) (auto simp: Let_def)
  next
    case 4
    then show ?thesis
      by (intro can_advanceI [of _ _ _ Worker_times_out, OF _]) (auto simp: Let_def tp_measure_def queue_measure_def)
  qed
qed

lemma enqueue_room:
  assumes "mpmc_inv cap q" and "0 < cap" and "q_contents (ring q) = []"
  shows "enqueue m q = mpmc_push m q" "q_contents (ring (enqueue m q)) = [m]"
proof -
  have r: "q_ok (ring q)" "0 < max_items (ring q)" using assms(1) by (simp_all add: mpmc_inv_def ring_ok_def)
  have "q_size (ring q) = 0" using assms(3) by (simp flip: length_q_contents)
  then have "\<not> q_full (ring q)" using q_full_iff [OF r] q_capacity_mpmc [OF assms(1)] assms(2) by simp
  then show "enqueue m q = mpmc_push m q" "q_contents (ring (enqueue m q)) = [m]"
    using enqueue_contents [OF assms(1), of m] assms(3) by (simp_all add: enqueue_def)
qed

lemma advance_woken:
  assumes "mpmc_inv cap (tp_q s)" and "0 < cap" and "q_contents (ring (tp_q s)) = []" and "putters_woken (tp_q s) = m # rest"
  shows "can_advance ops env lgs s"
proof -
  let ?q = "(tp_q s)\<lparr>putters_woken := rest\<rparr>"
  have "mpmc_inv cap ?q" by (rule mpmc_inv_cong [OF _ _ _ assms(1)]) simp_all
  note e = enqueue_room [OF this assms(2), of m]
  have "queue_measure lgs (enqueue m ?q) < queue_measure lgs (tp_q s)"
    using e assms(3,4) by (simp add: queue_measure_def mpmc_push_def msg_weight_def)
  then show ?thesis
    by (intro can_advanceI [of _ _ _ "Producer_resumes 0", OF _]) (auto simp: Let_def assms(4) tp_measure_def)
qed

lemma taken_all:
  assumes "pool_ok cap s" and "tp_popped s = []" and "tp_jobs s = []"
  shows "terminates (taken_log (tp_q s)) = tp_finished s"
proof -
  have "mset (taken_log (tp_q s)) = mset (tp_processed s)" "tp_finished s = terminates (tp_processed s)"
    using assms by (simp_all add: pool_ok_def tp_inv_def terminates_def)
  then show ?thesis using terminates_mset by metis
qed

lemma finished_joined:
  assumes ok: "pool_ok cap s" and "tp_popped s = []" "tp_jobs s = []" and "0 < tp_threads s" and "tp_finished s = tp_threads s"
  shows "joined s"
proof (cases "tp_closing s")
  case None
  then have "terminates (taken_log (tp_q s)) = 0"
    using ok by (intro terminates_ordinary [of _ "put_log (tp_q s)"])
      (auto simp: pool_ok_def posts_ok_def mpmc_inv_def elim: list_emb_set dest: list_emb_appendD [of _ "taken_log (tp_q s)"])
  then show ?thesis using taken_all [OF ok assms(2,3)] assms(4,5) by simp
next
  case (Some k)
  then have "tp_finished s \<le> tp_threads s - k" "k \<le> tp_threads s"
    using ok taken_all [OF ok assms(2,3)] by (auto simp: pool_ok_def kept_def posts_ok_def)
  then show ?thesis using Some assms(4,5) by (simp add: joined_def)
qed

lemma advance_destructor:
  assumes ok: "pool_ok cap s" and "0 < cap" and e: "q_contents (ring (tp_q s)) = []" and np: "no_producer (tp_q s)"
    and "tp_popped s = []" "tp_jobs s = []" and nj: "\<not> joined s"
  shows "can_advance ops env lgs s"
proof (cases "tp_closing s")
  case None
  then show ?thesis using np by (intro can_advanceI [of _ _ _ Destructor, OF _]) (auto simp: tp_measure_def)
next
  case (Some k)
  show ?thesis
  proof (cases k)
    case 0
    have "terminates (waiting_producers (tp_q s)) = 0" using np by (simp add: no_producer_def waiting_producers_def)
    then have "tp_finished s = tp_threads s" using ok taken_all [OF ok assms(5,6)] Some 0 e by (simp add: pool_ok_def kept_def)
    then show ?thesis using nj Some 0 by (simp add: joined_def)
  next
    case (Suc j)
    have "mpmc_inv cap (tp_q s)" using ok by (simp add: pool_ok_def)
    note r = enqueue_room [OF this assms(2) e, of terminate_msg]
    show ?thesis
      by (rule can_advanceI [of _ _ _ Post_terminate], simp add: Some Suc np)
        (use r e in \<open>simp add: tp_measure_def queue_measure_def Some Suc post_async_msg_def mpmc_push_def msg_weight_def\<close>)
  qed
qed

lemma pool_advances:
  assumes ok: "pool_ok cap s" and "0 < cap" and "0 < tp_threads s" and "\<not> joined s"
  shows "can_advance ops env lgs s"
proof -
  let ?q = "tp_q s"
  have p: "mpmc_inv cap ?q" "putters_ok 0 ?q" "tp_inv s" using ok by (simp_all add: pool_ok_def)
  show ?thesis
  proof (cases "notifying ?q = 0 \<and> tp_jobs s = [] \<and> tp_popped s = []")
    case False
    then show ?thesis using advance_notify advance_job advance_popped [OF p(3)] by blast
  next
    case True
    then have fin: "tp_finished s < tp_threads s" using finished_joined [OF ok] assms(3,4) p(3) by (fastforce simp: tp_inv_def)
    show ?thesis
    proof (cases "q_contents (ring ?q) = [] \<and> putters_woken ?q = []")
      case False
      then show ?thesis using True advance_queue [OF ok _ _ _ fin] advance_woken [OF p(1) assms(2)] by (metis list.exhaust)
    next
      case e: True
      have "q_size (ring ?q) = 0" using e by (simp flip: length_q_contents)
      moreover have "pop_notifying ?q = 0" using p(3) True by (simp add: tp_inv_def)
      ultimately have "putters_blocked ?q = []" using p(1,2) e assms(2) by (auto simp: putters_ok_def q_capacity_mpmc)
      then show ?thesis using advance_destructor [OF ok assms(2) _ _ _ _ assms(4)] e True by (simp add: no_producer_def)
    qed
  qed
qed

lemma pool_finishes:
  assumes "pool_ok cap s" and "0 < cap" and "0 < tp_threads s"
  shows "\<exists>acts s'. tp_run ops env lgs acts s = Some s' \<and> joined s'"
  using assms(1,3)
proof (induction "tp_measure lgs s" arbitrary: s rule: less_induct)
  case less
  show ?case
  proof (cases "joined s")
    case True
    then show ?thesis by (intro exI [of _ "[]"]) simp
  next
    case False
    then obtain a s1 where a: "tp_exec ops env lgs a s = Some s1" "tp_measure lgs s1 < tp_measure lgs s"
      using pool_advances [OF less(2) assms(2) less(3) False, of ops env lgs] by (auto simp: can_advance_def)
    then obtain acts s' where "tp_run ops env lgs acts s1 = Some s'" "joined s'"
      using less(1) [of s1] pool_ok_exec [OF a(1) less(2)] tp_exec_threads [OF a(1)] less(3) by auto
    then show ?thesis using a(1) by (intro exI [of _ "a # acts"]) simp
  qed
qed

section \<open>Properties\<close>

definition sync_msg :: "('f, 's) sink_ops \<Rightarrow> log_env \<Rightarrow> (nat \<Rightarrow> spd_logger) \<Rightarrow> async_msg \<Rightarrow> 's log_world \<Rightarrow> 's log_world" where
  "sync_msg ops env lgs m w =
     (if msg_type m = Async_log then logger_sink_it ops env (lgs (the (worker_ptr m))) (async_payload m) w
      else logger_flush ops env (lgs (the (worker_ptr m))) w)"

lemma process_ordinary: "ordinary ms \<Longrightarrow> fold (process_msg ops env lgs) ms w = fold (sync_msg ops env lgs) ms w"
proof (induction ms arbitrary: w)
  case (Cons m ms)
  then have "process_msg ops env lgs m w = sync_msg ops env lgs m w"
    by (auto simp: ordinary_def process_msg_def sync_msg_def backend_sink_it_eq backend_flush_def logger_flush_def split: async_msg_type.split)
  then show ?case using Cons by (simp add: ordinary_def)
qed simp

text \<open>
  C38.  Asynchronous logging refines synchronous logging.  A pool of one thread (what \<^verbatim>\<open>async_factory\<close> makes), under any interleaving
  of producers, worker and destructor: when the destructor returns and no message was overrun, the sinks and the error handler are in the state that the
  synchronous logger would have left them in, had it been called with the accepted messages and flushes in the order in which they were accepted.
\<close>

theorem async_refines_sync:
  assumes "thread_pool_ctor cap 1 w = Inr s0" and "cap + 1 < 2 ^ 64" and "tp_run ops env lgs acts s0 = Some s" and "joined s"
    and "tp_overrun_counter s = 0"
  shows "\<exists>msgs. put_log (tp_q s) = msgs @ [terminate_msg] \<and> tp_world s = fold (sync_msg ops env lgs) msgs w"
proof -
  have ok: "pool_ok cap s" "tp_threads s = 1" using pool_ok_run [OF assms(1-3)] by simp_all
  obtain msgs where m: "ordinary msgs" "put_log (tp_q s) = msgs @ [terminate_msg]" "tp_popped s = []" "tp_jobs s = []" "q_contents (ring (tp_q s)) = []"
    using joined_done [OF ok(1) assms(4)] ok(2) by auto
  have "subseq (taken_log (tp_q s)) (put_log (tp_q s))" "length (put_log (tp_q s)) = length (taken_log (tp_q s))"
    using ok(1) m(5) assms(5) by (auto simp: pool_ok_def mpmc_inv_def tp_overrun_counter_def mpmc_overrun_counter_def simp flip: length_q_contents)
  then have "taken_log (tp_q s) = msgs @ [terminate_msg]" using subseq_same_length m(2) by metis
  then have "tp_world s = fold (process_msg ops env lgs) (msgs @ [terminate_msg]) w"
    using in_order_run [OF assms(1-3)] m(3,4) by (simp add: in_order_def)
  then show ?thesis using m(1,2) by (simp add: process_ordinary) (simp add: process_msg_def)
qed

text \<open>
  Shutdown of a pool of any number of threads: when the destructor returns, the queue is empty, no producer waits, no worker holds a
  message, and every message that was accepted was processed exactly once, except those that \<^verbatim>\<open>overrun_counter()\<close> counts.
\<close>

theorem async_shutdown_complete:
  assumes "thread_pool_ctor cap n w = Inr s0" and "cap + 1 < 2 ^ 64" and "tp_run ops env lgs acts s0 = Some s" and "joined s"
  shows "tp_queue_size s = 0 \<and> waiting_producers (tp_q s) = [] \<and> tp_popped s = [] \<and> tp_jobs s = [] \<and>
    mset (tp_processed s) \<subseteq># mset (put_log (tp_q s)) \<and>
    length (put_log (tp_q s)) = length (tp_processed s) + tp_overrun_counter s \<and>
    (\<exists>msgs. put_log (tp_q s) = msgs @ replicate n terminate_msg \<and> ordinary msgs)"
proof -
  have ok: "pool_ok cap s" "tp_threads s = n" "0 < n" using pool_ok_run [OF assms(1-3)] by simp_all
  obtain msgs where m: "ordinary msgs" "put_log (tp_q s) = msgs @ replicate n terminate_msg" "tp_popped s = []" "tp_jobs s = []"
    "q_contents (ring (tp_q s)) = []" "waiting_producers (tp_q s) = []"
    using joined_done [OF ok(1) assms(4)] ok(2,3) by auto
  have p: "mset (taken_log (tp_q s)) = mset (tp_processed s)" using ok(1) m(3,4) by (simp add: pool_ok_def tp_inv_def)
  have z: "q_size (ring (tp_q s)) = 0" using m(5) by (simp flip: length_q_contents)
  have "subseq (taken_log (tp_q s)) (put_log (tp_q s))" "length (put_log (tp_q s)) = length (taken_log (tp_q s)) + tp_overrun_counter s"
    using ok(1) m(5) z by (simp_all add: pool_ok_def mpmc_inv_def tp_overrun_counter_def mpmc_overrun_counter_def)
  moreover have "length (taken_log (tp_q s)) = length (tp_processed s)" using p by (metis size_mset)
  moreover have "mset (tp_processed s) \<subseteq># mset (put_log (tp_q s))" using subseq_mset_subset [OF calculation(1)] p by simp
  ultimately show ?thesis using m z by (auto simp: tp_queue_size_def mpmc_size_def)
qed

text \<open>
  C39.  The destructor of the pool never deadlocks.  Whatever a pool with room for at least one message has been through, with any number of threads, and
  wherever its producers and workers are, there is a way on for them after which the destructor returns.
\<close>

theorem async_no_deadlock:
  assumes "thread_pool_ctor cap n w = Inr s0" and "cap + 1 < 2 ^ 64" and "0 < cap" and "tp_run ops env lgs acts s0 = Some s"
  shows "\<exists>more_acts s'. tp_run ops env lgs (acts @ more_acts) s0 = Some s' \<and> joined s'"
proof -
  have "pool_ok cap s" "0 < tp_threads s" using pool_ok_run [OF assms(1,2,4)] by simp_all
  from pool_finishes [OF this(1) assms(3) this(2), of ops env lgs] assms(4) show ?thesis by (auto simp: tp_run_append)
qed

text \<open>A pool of one thread and one message, run to the end.\<close>

definition note_pool :: "(string list + unit) thread_pool" where
  "note_pool = \<lparr>tp_q = mpmc_ctor async_msg_default 1, tp_threads = 1, tp_top = 1, tp_popped = [], tp_jobs = [],
     tp_finished = 0, tp_processed = [], tp_closing = None, tp_world = note_world\<rparr>"

definition note_loggers :: "nat \<Rightarrow> spd_logger" where
  "note_loggers p = note_logger"

definition note_run :: "tp_action list" where
  "note_run = [Post_log 3 note_msg Block, Producer_notifies, Worker_dequeues, Worker_notifies 0 0, Worker_calls 0, Worker_calls 0, Worker_calls 0,
     Worker_completes 0, Destructor, Post_terminate, Producer_notifies, Worker_dequeues, Worker_notifies 0 0, Worker_completes 0]"

lemma note_pool_ctor: "thread_pool_ctor 1 1 note_world = Inr note_pool"
  by (simp add: thread_pool_ctor_def note_pool_def)

lemmas pool_evaluation = note_pool_def note_loggers_def note_run_def mpmc_ctor_def bounded_queue.defs BoundedBlockingQueue_ctor_def blocking_queue.defs
  new_blocking_queue_def circular_q_ctor_def post_log_def post_async_msg_def enqueue_def mpmc_push_def q_full_def push_back_def worker_dequeue_def
  dequeue_for_def q_empty_def front_def pop_front_def after_dequeue_def pop_notify_def run_job_def complete_job_def notify_taker_def remove_nth_def
  no_producer_def backend_calls_def msg_logger_def joined_def tp_overrun_counter_def mpmc_overrun_counter_def Let_def

lemma note_logger_facts: "lg_sinks note_logger = [0, 1]" "\<not> should_flush note_logger note_msg"
  by (simp_all add: note_logger_def logger_set_error_handler_def spd_logger_ctor_def should_flush_def note_msg_def log_msg_ctor_def less_eq_level_enum_def)

lemma note_run_ends:
  "\<exists>s. tp_run note_ops note_env note_loggers note_run note_pool = Some s \<and> joined s \<and> tp_overrun_counter s = 0 \<and>
     put_log (tp_q s) = [async_msg_log 3 Async_log note_msg, terminate_msg] \<and> tp_processed s = put_log (tp_q s)"
  by (simp add: pool_evaluation note_logger_facts)

theorem async_refines_sync_witness:
  "\<exists>s. tp_run note_ops note_env note_loggers note_run note_pool = Some s \<and>
     tp_world s = logger_sink_it note_ops note_env note_logger note_msg note_world"
proof -
  obtain s where s: "tp_run note_ops note_env note_loggers note_run note_pool = Some s" "joined s" "tp_overrun_counter s = 0"
    "put_log (tp_q s) = [async_msg_log 3 Async_log note_msg, terminate_msg]"
    using note_run_ends by blast
  obtain msgs where m: "put_log (tp_q s) = msgs @ [terminate_msg]" "tp_world s = fold (sync_msg note_ops note_env note_loggers) msgs note_world"
    using async_refines_sync [OF note_pool_ctor _ s(1-3)] by auto
  have "msgs = [async_msg_log 3 Async_log note_msg]" using m(1) s(4) by simp
  then show ?thesis using m(2) s(1) by (simp add: sync_msg_def note_loggers_def)
qed

theorem async_shutdown_complete_witness:
  "\<exists>s. tp_run note_ops note_env note_loggers note_run note_pool = Some s \<and> tp_queue_size s = 0 \<and> length (tp_processed s) = 2"
proof -
  obtain s where s: "tp_run note_ops note_env note_loggers note_run note_pool = Some s" "joined s" "tp_overrun_counter s = 0"
    "put_log (tp_q s) = [async_msg_log 3 Async_log note_msg, terminate_msg]"
    using note_run_ends by blast
  show ?thesis using async_shutdown_complete [OF note_pool_ctor _ s(1,2)] s by simp
qed

theorem async_no_deadlock_witness:
  "\<exists>more_acts s'. tp_run note_ops note_env note_loggers ([Post_log 3 note_msg Overrun_oldest] @ more_acts) note_pool = Some s' \<and> joined s'"
  using async_no_deadlock [OF note_pool_ctor, of note_ops note_env note_loggers "[Post_log 3 note_msg Overrun_oldest]"]
  by (simp add: note_pool_def)

text \<open>
  Logging on a logger whose pool is gone: with a format string and arguments the error handler gets the error and nothing else happens, but
  with a plain text the exception reaches the caller; in neither case is the message written to the backtrace.
\<close>

theorem async_without_pool:
  assumes "should_log lvl (base al)" and "custom_err_handler (base al) = Some h"
  shows "async_log_args env now loc lvl (Inr msg) al None w =
      (al, None, w\<lparr>handler_calls := handler_calls w @ [(h, ''async log: thread pool doesn'' @ [CHR 0x27] @ ''t exist anymore'')]\<rparr>) \<and>
    async_log_string env now loc lvl msg al None =
      (al, None, Some (StdException (''async log: thread pool doesn'' @ [CHR 0x27] @ ''t exist anymore'')))"
  using assms by (simp add: async_log_args_def async_log_string_def async_log_it_def async_sink_it_def no_pool_def logger_catch_def err_handler_def Let_def)

end
