(* ===== verification/Fmt_Digits.thy ===== *)
theory Fmt_Digits
  imports Fmt_Helper "HOL-Library.Log_Nat"
begin

text \<open>
  Model of how fmt prints integers (\<^verbatim>\<open>spdlog/fmt/bundled/format.h\<close>, \<^verbatim>\<open>format-inl.h\<close>): the number of digits by a table over the
  position of the highest bit, the loop it replaces, the conversion of two digits at a time from the end of a buffer, other bases, and
  \<^verbatim>\<open>format_int\<close>.  A buffer is the list of its characters and a pointer into it an index.  The reference is \<open>to_string_nat\<close>.
\<close>

unbundle bit_operations_syntax

section \<open>Counting digits\<close>

text \<open>\<^verbatim>\<open>__builtin_clzll\<close> and \<^verbatim>\<open>__builtin_clz\<close>: the number of leading zeros of a number that is not 0.\<close>

definition clz :: "'a::len word \<Rightarrow> nat" where
  "clz n = LENGTH('a) - floorlog 2 (unat n)"

definition bsr2log10 :: "nat \<Rightarrow> nat" where
  "bsr2log10 bsr =
     [1, 1, 1, 2, 2, 2, 3, 3, 3, 4, 4, 4, 4, 5, 5, 5,
      6, 6, 6, 7, 7, 7, 7, 8, 8, 8, 9, 9, 9, 10, 10, 10,
      10, 11, 11, 11, 12, 12, 12, 13, 13, 13, 13, 14, 14, 14, 15, 15,
      15, 16, 16, 16, 16, 17, 17, 17, 18, 18, 18, 19, 19, 19, 19, 20] ! bsr"

definition zero_or_powers_of_10_64_new :: "64 word list" where
  "zero_or_powers_of_10_64_new =
     [0, 0, 10, 100, 1000, 10000, 100000, 1000000, 10000000, 100000000, 1000000000,
      10000000000, 100000000000, 1000000000000, 10000000000000, 100000000000000, 1000000000000000, 10000000000000000,
      100000000000000000, 1000000000000000000, 10000000000000000000]"

definition zero_or_powers_of_10_32_new :: "32 word list" where
  "zero_or_powers_of_10_32_new =
     [0, 0, 10, 100, 1000, 10000, 100000, 1000000, 10000000, 100000000, 1000000000]"

definition count_digits64 :: "64 word \<Rightarrow> nat" where
  "count_digits64 n =
     (let t = bsr2log10 (clz (n OR 1) XOR 63) in t - (if n < zero_or_powers_of_10_64_new ! t then 1 else 0))"

definition count_digits32 :: "32 word \<Rightarrow> nat" where
  "count_digits32 n =
     (let t = bsr2log10 (clz (n OR 1) XOR 31) in t - (if n < zero_or_powers_of_10_32_new ! t then 1 else 0))"

text \<open>The version for compilers without the builtin function, four digits at a time.\<close>

lemma unat_div_less: "\<not> n < (10000 :: 64 word) \<Longrightarrow> unat (n div 10000) < unat n"
  by (simp add: unat_div word_less_nat_alt)

function count_digits_loop :: "64 word \<Rightarrow> nat \<Rightarrow> nat" where
  "count_digits_loop n count =
     (if n < 10 then count
      else if n < 100 then count + 1
      else if n < 1000 then count + 2
      else if n < 10000 then count + 3
      else count_digits_loop (n div 10000) (count + 4))"
  by auto
termination
  by (relation "measure (\<lambda>(n, count). unat n)") (auto intro: unat_div_less)

declare count_digits_loop.simps [simp del]

definition count_digits_portable :: "64 word \<Rightarrow> nat" where
  "count_digits_portable n = count_digits_loop n 1"

text \<open>\<^verbatim>\<open>count_digits<BITS>\<close>: the base is a power of two, with \<^verbatim>\<open>BITS\<close> one of 1, 3 and 4.\<close>

lemma div_pow_less: "0 < bits \<Longrightarrow> n div 2 ^ bits \<noteq> (0 :: nat) \<Longrightarrow> n div 2 ^ bits < n"
  using div_less_dividend [of "2 ^ bits" n] one_less_power [of "2 :: nat" bits] by (cases "n = 0") auto

function count_digits_base :: "nat \<Rightarrow> nat \<Rightarrow> nat" where
  "count_digits_base bits n = (if bits = 0 \<or> n div 2 ^ bits = 0 then 1 else Suc (count_digits_base bits (n div 2 ^ bits)))"
  by auto
termination
  by (relation "measure (\<lambda>(bits, n). n)") (auto intro: div_pow_less)

declare count_digits_base.simps [simp del]

section \<open>Writing digits\<close>

definition digit_pair :: "nat \<Rightarrow> char \<times> char" where
  "digit_pair n = (char_of (48 + n div 10), char_of (48 + n mod 10))"

definition digits :: "(char \<times> char) list" where
  "digits = map digit_pair [0..<100]"

definition copy2 :: "nat \<Rightarrow> char \<times> char \<Rightarrow> string \<Rightarrow> string" where
  "copy2 dst src buf = buf[dst := fst src, dst + 1 := snd src]"

lemma unat_div_100: "100 \<le> n \<Longrightarrow> unat (n div (100 :: 64 word)) < unat n"
  by (simp add: unat_div word_le_nat_alt)

function decimal_loop :: "string \<Rightarrow> nat \<Rightarrow> 64 word \<Rightarrow> string \<times> nat \<times> 64 word" where
  "decimal_loop buf out n =
     (if 100 \<le> n then decimal_loop (copy2 (out - 2) (digits ! unat (n mod 100)) buf) (out - 2) (n div 100) else (buf, out, n))"
  by auto
termination
  by (relation "measure (\<lambda>(buf, out, n). unat n)") (auto intro: unat_div_100)

declare decimal_loop.simps [simp del]

text \<open>The buffer, the beginning and the end of what was written.\<close>

definition format_decimal :: "string \<Rightarrow> nat \<Rightarrow> 64 word \<Rightarrow> nat \<Rightarrow> (string \<times> nat \<times> nat) result" where
  "format_decimal buf start n size_arg =
     assert_that (count_digits64 n \<le> size_arg) ''invalid digit count''
       (let (buf1, out, m) = decimal_loop buf (start + size_arg) n in
        if m < 10 then Inr (buf1[out - 1 := char_of (48 + unat m)], out - 1, start + size_arg)
        else Inr (copy2 (out - 2) (digits ! unat m) buf1, out - 2, start + size_arg))"

definition hex_digits :: string where
  "hex_digits = ''0123456789abcdef''"

text \<open>\<^verbatim>\<open>format_uint<BASE_BITS>\<close>, from the last digit to the first.\<close>

function uint_loop :: "nat \<Rightarrow> bool \<Rightarrow> nat \<Rightarrow> nat \<Rightarrow> string \<Rightarrow> string" where
  "uint_loop bits upper pos n buf =
     (let d = n mod 2 ^ bits;
          c = (if bits < 4 then char_of (48 + d) else (if upper then ''0123456789ABCDEF'' else hex_digits) ! d);
          buf1 = buf[pos - 1 := c]
      in if bits = 0 \<or> n div 2 ^ bits = 0 then buf1 else uint_loop bits upper (pos - 1) (n div 2 ^ bits) buf1)"
  by auto
termination
  by (relation "measure (\<lambda>(bits, upper, pos, n, buf). n)") (auto intro: div_pow_less)

declare uint_loop.simps [simp del]

definition format_uint :: "nat \<Rightarrow> bool \<Rightarrow> nat \<Rightarrow> nat \<Rightarrow> string \<Rightarrow> string" where
  "format_uint bits upper num_digits n buf = uint_loop bits upper num_digits n buf"

section \<open>format_int\<close>

definition format_int_buffer_size :: nat where
  "format_int_buffer_size = 19 + 3"

definition format_unsigned :: "string \<Rightarrow> 64 word \<Rightarrow> (string \<times> nat) result" where
  "format_unsigned buf n = rbind (format_decimal buf 0 n (format_int_buffer_size - 1)) (\<lambda>(buf1, str, stop). Inr (buf1, str))"

definition format_signed :: "string \<Rightarrow> 64 word \<Rightarrow> (string \<times> nat) result" where
  "format_signed buf n =
     (let negative = n <s 0; abs_value = (if negative then 0 - n else n) in
      rbind (format_unsigned buf abs_value) (\<lambda>(buf1, str).
        Inr (if negative then (buf1[str - 1 := CHR ''-''], str - 1) else (buf1, str))))"

text \<open>\<^verbatim>\<open>data()\<close> and \<^verbatim>\<open>size()\<close>, on a buffer of whatever contents.\<close>

definition int_text :: "string \<times> nat \<Rightarrow> string" where
  "int_text r = take (format_int_buffer_size - 1 - snd r) (drop (snd r) (fst r))"

section \<open>The number of digits\<close>

lemma to_string_nat_ne [simp]: "to_string_nat n \<noteq> []"
  by (subst to_string_nat.simps) simp

lemma to_string_nat_rec: "10 \<le> n \<Longrightarrow> to_string_nat n = to_string_nat (n div 10) @ [char_of (48 + n mod 10)]"
  by (subst to_string_nat.simps) simp

lemma to_string_nat_digit: "n < 10 \<Longrightarrow> to_string_nat n = [char_of (48 + n)]"
  by (subst to_string_nat.simps) simp

lemma digits_le_iff: "length (to_string_nat n) \<le> Suc d \<longleftrightarrow> n < 10 ^ Suc d"
proof
  show "length (to_string_nat n) \<le> Suc d \<Longrightarrow> n < 10 ^ Suc d"
  proof (induction d arbitrary: n)
    case 0
    then show ?case by (cases "n < 10") (simp_all add: to_string_nat_rec)
  next
    case (Suc d)
    show ?case
    proof (cases "n < 10")
      case True
      have "(10 :: nat) \<le> 10 ^ Suc (Suc d)" by (rule self_le_power) simp_all
      with True show ?thesis by linarith
    next
      case False
      then have "n div 10 < 10 ^ Suc d" using Suc by (auto simp: to_string_nat_rec)
      then show ?thesis by (simp add: div_less_iff_less_mult)
    qed
  qed
qed (rule to_string_nat_length)

text \<open>The table: between \<open>2 ^ b\<close> and \<open>2 ^ (b + 1)\<close> only two numbers of digits occur.\<close>

lemma All_less_numeral: "(\<forall>b<numeral k. P b) \<longleftrightarrow> P (pred_numeral k) \<and> (\<forall>b<pred_numeral k. P b)"
  by (auto simp: numeral_eq_Suc less_Suc_eq)

lemma bsr_table:
  "\<forall>b<64. 2 ^ Suc b \<le> (10 :: nat) ^ bsr2log10 b \<and> (b = 0 \<or> (10 :: nat) ^ (bsr2log10 b - 2) \<le> 2 ^ b) \<and> 1 \<le> bsr2log10 b \<and> bsr2log10 b \<le> 20"
  by (simp add: All_less_numeral bsr2log10_def)

lemma powers_table: "\<forall>t<21. unat (zero_or_powers_of_10_64_new ! t) = (if t < 2 then 0 else 10 ^ (t - 1))"
  by (simp add: All_less_numeral zero_or_powers_of_10_64_new_def)

lemma bsr_table32: "\<forall>b<32. bsr2log10 b \<le> 10"
  by (simp add: All_less_numeral bsr2log10_def)

lemma powers_table32: "\<forall>t<11. unat (zero_or_powers_of_10_32_new ! t) = (if t < 2 then 0 else 10 ^ (t - 1))"
  by (simp add: All_less_numeral zero_or_powers_of_10_32_new_def)

lemma xor_63: "k < 64 \<Longrightarrow> k XOR 63 = (63 :: nat) - k"
proof -
  have "\<forall>k<64. k XOR 63 = (63 :: nat) - k" by (simp add: All_less_numeral)
  then show "k < 64 \<Longrightarrow> k XOR 63 = (63 :: nat) - k" by blast
qed

lemma xor_31: "k < 32 \<Longrightarrow> k XOR 31 = (31 :: nat) - k"
proof -
  have "\<forall>k<32. k XOR 31 = (31 :: nat) - k" by (simp add: All_less_numeral)
  then show "k < 32 \<Longrightarrow> k XOR 31 = (31 :: nat) - k" by blast
qed

text \<open>Whatever the width: with the position of the highest bit of \<open>n OR 1\<close>, the table and one comparison give the number of digits.\<close>

lemma table_digits:
  assumes b: "b < 64" "n = 0 \<and> b = 0 \<or> 2 ^ b \<le> n" "n < 2 ^ Suc b" and p: "p = (if bsr2log10 b < 2 then 0 else 10 ^ (bsr2log10 b - 1))"
  shows "bsr2log10 b - (if n < p then 1 else 0) = length (to_string_nat n)"
proof -
  let ?t = "bsr2log10 b" and ?l = "length (to_string_nat n)"
  have t: "2 ^ Suc b \<le> (10 :: nat) ^ ?t" "b = 0 \<or> (10 :: nat) ^ (?t - 2) \<le> 2 ^ b" "1 \<le> ?t" using bsr_table b(1) by auto
  have l: "1 \<le> ?l" by (simp add: Suc_le_eq)
  obtain d where d: "?t = Suc d" using t(3) by (cases ?t) auto
  have u: "?l \<le> ?t" using t(1) b(3) digits_le_iff [of n d] d by simp
  show ?thesis
  proof (cases d)
    case 0
    then show ?thesis using u l p d by simp
  next
    case (Suc e)
    have "b \<noteq> 0" using Suc d by (cases b) (auto simp: bsr2log10_def)
    then have "10 ^ e \<le> n" using t(2) b(2) d Suc by auto
    then have "e < ?l" using digits_le_iff [of n "e - 1"] l by (cases e) auto
    moreover have "n < p \<longleftrightarrow> ?l \<le> Suc e" using digits_le_iff [of n e] p d Suc by simp
    ultimately show ?thesis using u d Suc by auto
  qed
qed

lemma highest_bit:
  fixes n :: "'a::len word"
  defines "b \<equiv> floorlog 2 (unat (n OR 1)) - 1"
  shows "unat n = 0 \<and> b = 0 \<or> 2 ^ b \<le> unat n" "unat n < 2 ^ Suc b" "clz (n OR 1) = LENGTH('a) - 1 - b" "b < LENGTH('a)"
proof -
  let ?m = "unat (n OR 1)"
  have m: "?m = unat n + of_bool (even (unat n))" using or_one_eq [of "unat n"] by (metis unsigned_or_eq unsigned_1)
  have f: "2 ^ (floorlog 2 ?m - 1) \<le> ?m" "?m < 2 ^ floorlog 2 ?m" using floorlog_bounds [of ?m 2] m by (auto simp: odd_pos)
  have f1: "1 \<le> floorlog 2 ?m" using m by (cases "floorlog 2 ?m") (auto simp: odd_pos floorlog_eq_zero_iff)
  have "?m < 2 ^ LENGTH('a)" by (rule unsigned_less)
  then have l: "floorlog 2 ?m \<le> LENGTH('a)" by (intro floorlog_leI) simp_all
  show "unat n = 0 \<and> b = 0 \<or> 2 ^ b \<le> unat n"
  proof (cases b)
    case 0
    then show ?thesis by (cases "unat n") auto
  next
    case (Suc c)
    have "2 ^ b \<le> ?m" using f(1) by (simp add: b_def)
    moreover have "even ((2 :: nat) ^ b)" "odd ?m" using Suc m by simp_all
    then have "2 ^ b \<noteq> ?m" by metis
    ultimately show ?thesis using m by (cases "even (unat n)") auto
  qed
  show "unat n < 2 ^ Suc b" using f(2) f1 m by (simp add: b_def)
  show "clz (n OR 1) = LENGTH('a) - 1 - b" "b < LENGTH('a)" using f1 l by (auto simp: clz_def b_def)
qed

lemma count_digits64_correct: "count_digits64 n = length (to_string_nat (unat n))"
proof -
  define b where "b = floorlog 2 (unat (n OR 1)) - 1"
  note h = highest_bit [of n, folded b_def]
  have e: "clz (n OR 1) XOR 63 = b" using h(3,4) xor_63 [of "63 - b"] by simp
  have t: "bsr2log10 b < 21" using bsr_table h(4) by (auto simp: less_Suc_eq_le)
  have "n < zero_or_powers_of_10_64_new ! bsr2log10 b \<longleftrightarrow> unat n < (if bsr2log10 b < 2 then 0 else 10 ^ (bsr2log10 b - 1))"
    using powers_table t by (simp add: word_less_nat_alt)
  then show ?thesis using table_digits [OF _ h(1,2) refl] h(4) by (simp add: count_digits64_def e Let_def)
qed

lemma count_digits32_correct: "count_digits32 n = length (to_string_nat (unat n))"
proof -
  define b where "b = floorlog 2 (unat (n OR 1)) - 1"
  note h = highest_bit [of n, folded b_def]
  have e: "clz (n OR 1) XOR 31 = b" using h(3,4) xor_31 [of "31 - b"] by simp
  have t: "bsr2log10 b < 11" using bsr_table32 h(4) by (auto simp: less_Suc_eq_le)
  have "n < zero_or_powers_of_10_32_new ! bsr2log10 b \<longleftrightarrow> unat n < (if bsr2log10 b < 2 then 0 else 10 ^ (bsr2log10 b - 1))"
    using powers_table32 t by (simp add: word_less_nat_alt)
  then show ?thesis using table_digits [OF _ h(1,2) refl] h(4) by (simp add: count_digits32_def e Let_def)
qed

lemma small_digits:
  "length (to_string_nat n) \<le> Suc 0 \<longleftrightarrow> n < 10" "length (to_string_nat n) \<le> Suc 1 \<longleftrightarrow> n < 100"
  "length (to_string_nat n) \<le> Suc 2 \<longleftrightarrow> n < 1000" "length (to_string_nat n) \<le> Suc 3 \<longleftrightarrow> n < 10000"
  by (simp_all only: digits_le_iff) simp_all

lemma digits_step: "10 \<le> n \<Longrightarrow> length (to_string_nat n) = Suc (length (to_string_nat (n div 10)))"
  by (simp add: to_string_nat_rec)

lemma digits_div_10000:
  assumes "10000 \<le> n"
  shows "length (to_string_nat n) = length (to_string_nat (n div 10000)) + 4"
proof -
  have "10 \<le> n" "10 \<le> n div 10" "10 \<le> n div 100" "10 \<le> n div 1000" using assms by (simp_all add: less_eq_div_iff_mult_less_eq)
  moreover have "n div 10 div 10 = n div 100" "n div 100 div 10 = n div 1000" "n div 1000 div 10 = n div 10000"
    by (simp_all add: div_mult2_eq [symmetric])
  ultimately show ?thesis using digits_step [of n] digits_step [of "n div 10"] digits_step [of "n div 100"] digits_step [of "n div 1000"] by simp
qed

lemma count_digits_loop_correct: "count_digits_loop n count = length (to_string_nat (unat n)) + count - 1"
proof (induction n count rule: count_digits_loop.induct)
  case (1 n count)
  show ?case
  proof (cases "n < 10000")
    case True
    have l: "1 \<le> length (to_string_nat (unat n))" by (simp add: Suc_le_eq)
    from True show ?thesis
      using small_digits [of "unat n"] l by (subst count_digits_loop.simps) (auto simp: word_less_nat_alt)
  next
    case False
    then have b: "\<not> n < 10" "\<not> n < 100" "\<not> n < 1000" by (auto simp: word_less_nat_alt)
    have "length (to_string_nat (unat n)) = length (to_string_nat (unat (n div 10000))) + 4"
      using digits_div_10000 [of "unat n"] False by (simp add: word_less_nat_alt unat_div)
    then show ?thesis using 1 b False by (subst count_digits_loop.simps) simp
  qed
qed

section \<open>The digits themselves\<close>

lemma digits_nth [simp]: "r < 100 \<Longrightarrow> digits ! r = digit_pair r"
  by (simp add: digits_def)

lemma to_string_nat_pair:
  "100 \<le> n \<Longrightarrow> to_string_nat n = to_string_nat (n div 100) @ [fst (digit_pair (n mod 100)), snd (digit_pair (n mod 100))]"
proof -
  assume n: "100 \<le> n"
  have d: "n div 10 mod 10 = n mod 100 div 10" "n mod 10 = n mod 100 mod 10" "n div 10 div 10 = n div 100" "10 \<le> n div 10"
    using mod_mult2_eq [of n 10 10] n by (simp_all add: mod_mod_cancel div_mult2_eq [symmetric] less_eq_div_iff_mult_less_eq)
  have "to_string_nat n = to_string_nat (n div 10) @ [char_of (48 + n mod 10)]" using n by (intro to_string_nat_rec) simp
  also have "to_string_nat (n div 10) = to_string_nat (n div 100) @ [char_of (48 + n mod 100 div 10)]"
    using to_string_nat_rec [OF d(4)] by (simp only: d)
  finally show ?thesis by (simp add: digit_pair_def d(2))
qed

lemma to_string_nat_two: "10 \<le> n \<Longrightarrow> n < 100 \<Longrightarrow> to_string_nat n = [fst (digit_pair n), snd (digit_pair n)]"
  by (simp add: to_string_nat_rec [of n] to_string_nat_digit digit_pair_def div_less_iff_less_mult)

lemma take_prefix_cong: "take k xs = take k ys \<Longrightarrow> j \<le> k \<Longrightarrow> take j xs = take j ys"
  by (metis min_absorb1 take_take)

lemma copy2_window:
  assumes "dst + 2 \<le> length buf"
  shows "take dst (copy2 dst src buf) = take dst buf" "drop dst (copy2 dst src buf) = [fst src, snd src] @ drop (dst + 2) buf"
    "length (copy2 dst src buf) = length buf"
proof -
  show "length (copy2 dst src buf) = length buf" "take dst (copy2 dst src buf) = take dst buf" by (simp_all add: copy2_def)
  show "drop dst (copy2 dst src buf) = [fst src, snd src] @ drop (dst + 2) buf"
    by (rule nth_equalityI) (use assms in \<open>auto simp: copy2_def nth_append nth_list_update nth_Cons split: nat.split\<close>)
qed

text \<open>Room for the digits is enough: the loop moves from the end to the front and leaves everything else alone.\<close>

lemma decimal_loop_window:
  assumes "decimal_loop buf out n = (buf1, out1, m)" and "length (to_string_nat (unat n)) \<le> out" and "out \<le> length buf"
  shows "m < 100 \<and> to_string_nat (unat n) @ drop out buf = to_string_nat (unat m) @ drop out1 buf1 \<and> take out1 buf1 = take out1 buf \<and>
    length buf1 = length buf \<and> length (to_string_nat (unat m)) \<le> out1 \<and> out1 \<le> out \<and>
    out - out1 + length (to_string_nat (unat m)) = length (to_string_nat (unat n))"
  using assms
proof (induction buf out n arbitrary: buf1 out1 m rule: decimal_loop.induct)
  case (1 buf out n)
  show ?case
  proof (cases "100 \<le> n")
    case False
    then show ?thesis using "1.prems" by (auto simp: decimal_loop.simps [of buf out n])
  next
    case True
    let ?r = "unat (n mod 100)" and ?buf = "copy2 (out - 2) (digits ! unat (n mod 100)) buf"
    have r: "?r = unat n mod 100" "?r < 100" by (simp_all add: unat_mod)
    have s: "to_string_nat (unat n) = to_string_nat (unat (n div 100)) @ [fst (digit_pair ?r), snd (digit_pair ?r)]"
      using True to_string_nat_pair [of "unat n"] by (simp add: r word_le_nat_alt unat_div)
    have o: "2 \<le> out" "out - 2 + 2 \<le> length buf" using s "1.prems" by auto
    note c = copy2_window [OF o(2), of "digits ! ?r"]
    have loop: "decimal_loop ?buf (out - 2) (n div 100) = (buf1, out1, m)" using "1.prems"(1) True by (simp add: decimal_loop.simps [of buf out n])
    have "length (to_string_nat (unat (n div 100))) \<le> out - 2" "out - 2 \<le> length ?buf" using s "1.prems" c(3) by auto
    note ih = "1.IH" [OF True loop this]
    have w: "drop (out - 2) ?buf = [fst (digit_pair ?r), snd (digit_pair ?r)] @ drop out buf"
      using c(2) r(2) le_add_diff_inverse2 [OF o(1)] by simp
    have "to_string_nat (unat n) @ drop out buf = to_string_nat (unat m) @ drop out1 buf1" using ih by (simp add: s w)
    moreover have "take out1 buf1 = take out1 buf"
      using ih take_prefix_cong [OF c(1), of out1] by simp
    moreover have "out - out1 + length (to_string_nat (unat m)) = length (to_string_nat (unat n))"
    proof -
      have "out - 2 - out1 + length (to_string_nat (unat m)) = length (to_string_nat (unat (n div 100)))" "out1 \<le> out - 2" using ih by auto
      moreover have "length (to_string_nat (unat n)) = length (to_string_nat (unat (n div 100))) + 2" by (simp add: s)
      ultimately show ?thesis using o(1) by linarith
    qed
    moreover have "out1 \<le> out" using ih by auto
    ultimately show ?thesis using ih c(3) by simp
  qed
qed

lemma format_decimal_window:
  assumes "length (to_string_nat (unat n)) \<le> k" and "start + k \<le> length buf"
  obtains buf1 where "format_decimal buf start n k = Inr (buf1, start + k - length (to_string_nat (unat n)), start + k)"
    "drop (start + k - length (to_string_nat (unat n))) buf1 = to_string_nat (unat n) @ drop (start + k) buf"
    "take (start + k - length (to_string_nat (unat n))) buf1 = take (start + k - length (to_string_nat (unat n))) buf" "length buf1 = length buf"
proof -
  obtain buf1 out1 m where l: "decimal_loop buf (start + k) n = (buf1, out1, m)" by (metis prod_cases3)
  note w = decimal_loop_window [OF l _ assms(2)]
  let ?l = "length (to_string_nat (unat n))"
  show ?thesis
  proof (cases "m < 10")
    case True
    then have t: "to_string_nat (unat m) = [char_of (48 + unat m)]" by (simp add: to_string_nat_digit word_less_nat_alt)
    have o: "out1 - 1 = start + k - ?l" "0 < out1" "out1 \<le> length buf1" using w assms t by auto
    obtain p where p: "out1 = Suc p" using o(2) by (cases out1) auto
    have "drop (out1 - 1) (buf1[out1 - 1 := char_of (48 + unat m)]) = char_of (48 + unat m) # drop out1 buf1"
      using Cons_nth_drop_Suc [of p "buf1[p := char_of (48 + unat m)]"] o(3) by (simp add: p)
    moreover have "take (out1 - 1) (buf1[out1 - 1 := char_of (48 + unat m)]) = take (out1 - 1) buf"
      using w assms take_prefix_cong [of out1 buf1 buf "out1 - 1"] by simp
    ultimately show ?thesis
      using that [of "buf1[out1 - 1 := char_of (48 + unat m)]"] w assms t True l o(1)
      by (simp add: format_decimal_def count_digits64_correct)
  next
    case False
    have m: "unat m < 100" using w assms by (auto simp: word_less_nat_alt)
    then have t: "to_string_nat (unat m) = [fst (digit_pair (unat m)), snd (digit_pair (unat m))]"
      using False by (intro to_string_nat_two) (simp_all add: word_less_nat_alt)
    have o: "out1 - 2 = start + k - ?l" "2 \<le> out1" "out1 - 2 + 2 \<le> length buf1" using w assms t by auto
    note c = copy2_window [OF o(3), of "digits ! unat m"]
    have "take (out1 - 2) (copy2 (out1 - 2) (digits ! unat m) buf1) = take (out1 - 2) buf"
      using c(1) w assms take_prefix_cong [of out1 buf1 buf "out1 - 2"] by simp
    then show ?thesis
      using that [of "copy2 (out1 - 2) (digits ! unat m) buf1"] w assms t False l o(1) c(2,3) m le_add_diff_inverse2 [OF o(2)]
      by (simp add: format_decimal_def count_digits64_correct)
  qed
qed

lemma digits_of_64: "length (to_string_nat (unat (n :: 64 word))) \<le> 20"
proof -
  have "unat n < 2 ^ 64" using unsigned_less [of n] by simp
  then show ?thesis using digits_le_iff [of "unat n" 19] by simp
qed

lemma format_unsigned_text:
  assumes "length buf = format_int_buffer_size"
  obtains buf1 where "format_unsigned buf n = Inr (buf1, 21 - length (to_string_nat (unat n)))" "length buf1 = length buf"
    "int_text (buf1, 21 - length (to_string_nat (unat n))) = to_string_nat (unat n)"
proof -
  have l: "length (to_string_nat (unat n)) \<le> 21" "0 + 21 \<le> length buf" using digits_of_64 [of n] assms by (simp_all add: format_int_buffer_size_def)
  obtain buf1 where "format_decimal buf 0 n 21 = Inr (buf1, 21 - length (to_string_nat (unat n)), 21)"
    "drop (21 - length (to_string_nat (unat n))) buf1 = to_string_nat (unat n) @ drop 21 buf" "length buf1 = length buf"
    by (rule format_decimal_window [OF l]) auto
  with that [of buf1] l show ?thesis by (simp add: format_unsigned_def format_int_buffer_size_def int_text_def)
qed

lemma sint_range: "- (2 ^ 63) \<le> sint (n :: 64 word)" "sint (n :: 64 word) < 2 ^ 63"
  using sint_greater_eq [of n] sint_less [of n] by simp_all

lemma unat_minus_signed:
  fixes n :: "64 word"
  assumes "n <s 0"
  shows "int (unat (0 - n)) = - sint n"
proof -
  have "0 - n = word_of_int (- sint n)" by simp
  then have "uint (0 - n) = (- sint n) mod 2 ^ 64" using uint_word_of_int [where 'a = 64, of "- sint n"] by simp
  moreover have "sint n < 0" using assms by (simp add: word_sless_alt)
  ultimately show ?thesis using sint_range [of n] by (simp add: mod_pos_pos_trivial)
qed

lemma unat_signed:
  fixes n :: "64 word"
  assumes "\<not> n <s 0"
  shows "int (unat n) = sint n"
proof -
  have "uint n = sint n mod 2 ^ 64" using uint_word_of_int [where 'a = 64, of "sint n"] by simp
  then show ?thesis using assms sint_range [of n] by (simp add: word_sless_alt mod_pos_pos_trivial)
qed

lemma format_signed_text:
  assumes "length buf = format_int_buffer_size"
  obtains r where "format_signed buf n = Inr r" "int_text r = to_string_int (sint n)"
proof (cases "n <s 0")
  case False
  have "unat n = nat (sint n)" "0 \<le> sint n"
    using unat_signed [OF False] by (metis nat_int, metis of_nat_0_le_iff)
  moreover obtain buf1 k where "format_unsigned buf n = Inr (buf1, k)" "int_text (buf1, k) = to_string_nat (unat n)"
    using format_unsigned_text [OF assms, of n] by metis
  ultimately show ?thesis using False that [of "(buf1, k)"] by (simp add: format_signed_def to_string_int_def)
next
  case True
  let ?m = "0 - n"
  let ?l = "length (to_string_nat (unat ?m))"
  obtain buf1 where b: "format_unsigned buf ?m = Inr (buf1, 21 - ?l)" "length buf1 = length buf" "int_text (buf1, 21 - ?l) = to_string_nat (unat ?m)"
    by (rule format_unsigned_text [OF assms])
  have l: "?l \<le> 20" "length buf1 = 22" using digits_of_64 b(2) assms by (simp_all add: format_int_buffer_size_def)
  obtain p where p: "21 - ?l = Suc p" using l(1) by (cases "21 - ?l") auto
  have "int_text (buf1[p := CHR ''-''], p) = CHR ''-'' # int_text (buf1, Suc p)"
  proof -
    have "drop p (buf1[p := CHR ''-'']) = CHR ''-'' # drop (Suc p) buf1" using Cons_nth_drop_Suc [of p "buf1[p := CHR ''-'']"] l p by simp
    moreover have "21 - p = Suc (20 - p)" using p by simp
    ultimately show ?thesis by (simp add: int_text_def format_int_buffer_size_def)
  qed
  moreover have "nat (- sint n) = unat ?m" using unat_minus_signed [OF True] by (metis nat_int)
  moreover have "sint n < 0" using True by (simp add: word_sless_alt)
  ultimately show ?thesis
    using that [of "(buf1[p := CHR ''-''], p)"] b True p by (simp add: format_signed_def Let_def to_string_int_def)
qed

section \<open>Other bases\<close>

definition radix_digit :: "nat \<Rightarrow> bool \<Rightarrow> nat \<Rightarrow> char" where
  "radix_digit bits upper d = (if bits < 4 then char_of (48 + d) else (if upper then ''0123456789ABCDEF'' else hex_digits) ! d)"

function radix_text :: "nat \<Rightarrow> bool \<Rightarrow> nat \<Rightarrow> string" where
  "radix_text bits upper n =
     (if bits = 0 \<or> n div 2 ^ bits = 0 then [radix_digit bits upper (n mod 2 ^ bits)]
      else radix_text bits upper (n div 2 ^ bits) @ [radix_digit bits upper (n mod 2 ^ bits)])"
  by auto
termination
  by (relation "measure (\<lambda>(bits, upper, n). n)") (auto intro: div_pow_less)

declare radix_text.simps [simp del]

lemma count_digits_base_correct: "count_digits_base bits n = length (radix_text bits upper n)"
  by (induction bits upper n rule: radix_text.induct) (simp add: radix_text.simps count_digits_base.simps)

lemma uint_loop_window:
  "length (radix_text bits upper n) \<le> pos \<Longrightarrow> pos \<le> length buf \<Longrightarrow>
   uint_loop bits upper pos n buf = take (pos - length (radix_text bits upper n)) buf @ radix_text bits upper n @ drop pos buf"
proof (induction bits upper pos n buf rule: uint_loop.induct)
  case (1 bits upper pos n buf)
  let ?c = "radix_digit bits upper (n mod 2 ^ bits)" and ?n = "n div 2 ^ bits"
  obtain p where p: "pos = Suc p" using "1.prems"(1) by (cases pos) (auto simp: radix_text.simps [of bits upper n] split: if_splits)
  have u: "buf[p := ?c] = take p buf @ [?c] @ drop (Suc p) buf" using "1.prems"(2) p by (simp add: upd_conv_take_nth_drop)
  show ?case
  proof (cases "bits = 0 \<or> ?n = 0")
    case True
    then show ?thesis using u p by (subst uint_loop.simps) (simp add: radix_text.simps [of bits upper n] radix_digit_def Let_def)
  next
    case False
    then have r: "radix_text bits upper n = radix_text bits upper ?n @ [?c]" by (simp add: radix_text.simps [of bits upper n])
    have ih: "uint_loop bits upper p ?n (buf[p := ?c]) =
        take (p - length (radix_text bits upper ?n)) (buf[p := ?c]) @ radix_text bits upper ?n @ drop p (buf[p := ?c])"
      using "1.IH" [OF refl refl refl False] "1.prems" r p by (simp add: radix_digit_def Let_def)
    have "uint_loop bits upper pos n buf = uint_loop bits upper p ?n (buf[p := ?c])"
      using False p by (subst uint_loop.simps) (simp add: radix_digit_def Let_def)
    moreover have "drop p (buf[p := ?c]) = ?c # drop (Suc p) buf" using u "1.prems"(2) p by simp
    ultimately show ?thesis using ih r p by simp
  qed
qed

section \<open>Properties\<close>

text \<open>
  C35.  The fast integer printing of fmt is right for every value.  The table with its one comparison, for 64 and for 32 bits, and the portable loop give the number of
  decimal digits; \<^verbatim>\<open>format_int\<close> gives the decimal text of every signed and unsigned 64-bit number, the least one included,
  whatever its buffer held before; and the digits of a base that is a power of two fill exactly the number of places counted for them.
\<close>

theorem integer_printing:
  assumes "length buf = format_int_buffer_size"
  shows "count_digits64 n = length (to_string_nat (unat n)) \<and> count_digits_portable n = count_digits64 n \<and>
    count_digits32 m = length (to_string_nat (unat m)) \<and>
    (\<exists>r. format_unsigned buf n = Inr r \<and> int_text r = to_string_nat (unat n)) \<and>
    (\<exists>r. format_signed buf n = Inr r \<and> int_text r = to_string_int (sint n)) \<and>
    (length digits_buf = count_digits_base bits k \<longrightarrow> format_uint bits upper (count_digits_base bits k) k digits_buf = radix_text bits upper k)"
proof -
  have "count_digits_portable n = count_digits64 n"
    by (simp add: count_digits_portable_def count_digits_loop_correct count_digits64_correct)
  moreover have "format_uint bits upper (count_digits_base bits k) k digits_buf = radix_text bits upper k" if "length digits_buf = count_digits_base bits k"
    using that uint_loop_window [of bits upper k "count_digits_base bits k" digits_buf]
    by (simp add: format_uint_def count_digits_base_correct [of bits k upper])
  ultimately show ?thesis
    using count_digits64_correct [of n] count_digits32_correct [of m] format_unsigned_text [OF assms, of n] format_signed_text [OF assms, of n] by metis
qed

theorem integer_printing_witness:
  "(\<exists>r. format_signed (replicate 22 CHR ''?'') (- 123) = Inr r \<and> int_text r = ''-123'') \<and>
   count_digits64 (10 ^ 19) = 20 \<and> format_uint 4 False 2 255 ''??'' = ''ff''"
proof -
  have l: "length (replicate 22 CHR ''?'') = format_int_buffer_size" by (simp add: format_int_buffer_size_def)
  have c: "char_of (49 :: nat) = CHR ''1''" "char_of (50 :: nat) = CHR ''2''" "char_of (51 :: nat) = CHR ''3''" by code_simp+
  have "to_string_int (sint (- 123 :: 64 word)) = ''-123''" by (simp add: to_string_int_def to_string_nat.simps c)
  moreover have "length (to_string_nat (unat (10 ^ 19 :: 64 word))) = 20" by (simp add: to_string_nat.simps)
  moreover have "count_digits_base 4 255 = 2" by (simp add: count_digits_base.simps)
  moreover have "radix_text 4 False 255 = ''ff''" by code_simp
  ultimately show ?thesis
    using integer_printing [OF l, of "- 123" 0 "''??''" 4 255 False] integer_printing [OF l, of "10 ^ 19" 0 "''??''" 4 255 False] by simp
qed

end
