(* ===== verification/Fmt_Specs.thy ===== *)
theory Fmt_Specs
  imports Fmt_Digits "HOL-Library.Sublist"
begin

text \<open>
  Model of the arguments and format specifiers of fmt (\<^verbatim>\<open>spdlog/fmt/bundled/format.h\<close>, \<^verbatim>\<open>core.h\<close>): the arguments of a call with
  their names, the parsers of argument ids and of format specifiers, and the checks of specifiers against the type of the argument.
  A range of characters is a string, and a parser returns what is left of it.  A \<^verbatim>\<open>format_error\<close> is the error \<open>Thrown\<close>, and
  \<^verbatim>\<open>FMT_ASSERT\<close> an assertion.  The printing of floating-point numbers, the formatters of user-defined types and the digit grouping of the locale
  are parameters; 128-bit integers and wide characters are left out.
\<close>

section \<open>Specifiers and arguments\<close>

datatype align_t = align_none | align_left | align_right | align_center | align_numeric

datatype sign_t = sign_none | sign_minus | sign_plus | sign_space

record format_specs =
  spec_width :: nat
  precision :: int
  spec_type :: char
  align :: align_t
  sign :: sign_t
  alt :: bool
  fill :: string

definition no_type :: char where
  "no_type = CHR 0x00"

definition default_specs :: format_specs where
  "default_specs = \<lparr>spec_width = 0, precision = - 1, spec_type = no_type, align = align_none, sign = sign_none, alt = False, fill = '' ''\<rparr>"

datatype ('d, 'c) fmt_arg =
    Arg_int "32 word"
  | Arg_uint "32 word"
  | Arg_long_long "64 word"
  | Arg_ulong_long "64 word"
  | Arg_bool bool
  | Arg_char char
  | Arg_double 'd
  | Arg_cstring "64 word" "string option"
  | Arg_string string
  | Arg_pointer "64 word"
  | Arg_custom 'c

definition is_integral_type :: "('d, 'c) fmt_arg \<Rightarrow> bool" where
  "is_integral_type a \<longleftrightarrow> (case a of Arg_int n \<Rightarrow> True | Arg_uint n \<Rightarrow> True | Arg_long_long n \<Rightarrow> True | Arg_ulong_long n \<Rightarrow> True
     | Arg_bool b \<Rightarrow> True | Arg_char c \<Rightarrow> True | _ \<Rightarrow> False)"

definition is_arithmetic_type :: "('d, 'c) fmt_arg \<Rightarrow> bool" where
  "is_arithmetic_type a \<longleftrightarrow> is_integral_type a \<or> (case a of Arg_double d \<Rightarrow> True | _ \<Rightarrow> False)"

definition is_signed_type :: "('d, 'c) fmt_arg \<Rightarrow> bool" where
  "is_signed_type a \<longleftrightarrow> (case a of Arg_int n \<Rightarrow> True | Arg_long_long n \<Rightarrow> True | Arg_char c \<Rightarrow> True | _ \<Rightarrow> False)"

definition is_pointer_type :: "('d, 'c) fmt_arg \<Rightarrow> bool" where
  "is_pointer_type a \<longleftrightarrow> (case a of Arg_pointer p \<Rightarrow> True | _ \<Rightarrow> False)"

text \<open>
  The arguments with the names that some of them have, and what is not code of this library: a formatter of a user-defined type gets the rest of the
  format string and the argument counter, and returns its text, how many characters it has read, and the counter.
\<close>

record ('d, 'c) fmt_args =
  arg_values :: "('d, 'c) fmt_arg list"
  arg_names :: "(string \<times> nat) list"

record ('d, 'c) format_env =
  float_text :: "'d \<Rightarrow> format_specs option \<Rightarrow> string result"
  custom_format :: "'c \<Rightarrow> string \<Rightarrow> int \<Rightarrow> (string \<times> nat \<times> int) result"
  grouping :: "int list"
  thousands_sep :: char

definition throw_fmt :: "string \<Rightarrow> 'a result" where
  "throw_fmt what = Inl (Thrown what)"

definition args_get :: "('d, 'c) fmt_args \<Rightarrow> nat \<Rightarrow> ('d, 'c) fmt_arg option" where
  "args_get args i = (if i < length (arg_values args) then Some (arg_values args ! i) else None)"

definition args_get_id :: "('d, 'c) fmt_args \<Rightarrow> string \<Rightarrow> nat option" where
  "args_get_id args name = map_of (arg_names args) name"

definition get_arg :: "('d, 'c) fmt_args \<Rightarrow> nat \<Rightarrow> ('d, 'c) fmt_arg result" where
  "get_arg args i = (case args_get args i of None \<Rightarrow> throw_fmt ''argument not found'' | Some a \<Rightarrow> Inr a)"

section \<open>Argument ids\<close>

definition char_between :: "nat \<Rightarrow> nat \<Rightarrow> char \<Rightarrow> bool" where
  "char_between lo hi c \<longleftrightarrow> lo \<le> of_char c \<and> of_char c \<le> hi"

abbreviation is_digit :: "char \<Rightarrow> bool" where
  "is_digit c \<equiv> char_between 48 57 c"

definition is_ascii_letter :: "char \<Rightarrow> bool" where
  "is_ascii_letter c \<longleftrightarrow> char_between 97 122 c \<or> char_between 65 90 c"

definition is_name_start :: "char \<Rightarrow> bool" where
  "is_name_start c \<longleftrightarrow> char_between 97 122 c \<or> char_between 65 90 c \<or> c = CHR ''_''"

definition max_int :: "32 word" where
  "max_int = 2147483647"

text \<open>The loop starts at a digit.  A value above a tenth of the greatest number ends it: the number is too big.\<close>

fun int_loop :: "32 word \<Rightarrow> string \<Rightarrow> 32 word \<times> string" where
  "int_loop val [] = (val, [])"
| "int_loop val (c # s) =
     (if max_int div 10 < val then (max_int + 1, c # s)
      else let v = val * 10 + (of_char c - 48) in if s \<noteq> [] \<and> is_digit (hd s) then int_loop v s else (v, s))"

definition parse_nonnegative_int :: "string \<Rightarrow> (nat \<times> string) result" where
  "parse_nonnegative_int s =
     assert_that (s \<noteq> [] \<and> is_digit (hd s)) ''FMT_ASSERT''
       (let (v, rest) = int_loop 0 s in if max_int < v then throw_fmt ''number is too big'' else Inr (unat v, rest))"

datatype arg_ref = Auto_id | Index_id nat | Name_id string

definition name_char :: "char \<Rightarrow> bool" where
  "name_char c \<longleftrightarrow> is_name_start c \<or> is_digit c"

definition parse_arg_id :: "string \<Rightarrow> (arg_ref \<times> string) result" where
  "parse_arg_id s =
     (case s of
        [] \<Rightarrow> Inl (AssertFailed ''FMT_ASSERT'')
      | c # cs \<Rightarrow>
          if c = CHR ''}'' \<or> c = CHR '':'' then Inr (Auto_id, s)
          else if is_digit c then
            rbind (if c \<noteq> CHR ''0'' then parse_nonnegative_int s else Inr (0, cs)) (\<lambda>(index, rest).
              if rest = [] \<or> hd rest \<noteq> CHR ''}'' \<and> hd rest \<noteq> CHR '':'' then throw_fmt ''invalid format string''
              else Inr (Index_id index, rest))
          else if \<not> is_name_start c then throw_fmt ''invalid format string''
          else Inr (Name_id (c # takeWhile name_char cs), dropWhile name_char cs))"

text \<open>The argument counter of \<^verbatim>\<open>basic_format_parse_context\<close>: the next automatic index, or -1 after a manual one.\<close>

definition next_arg_id :: "int \<Rightarrow> (nat \<times> int) result" where
  "next_arg_id next =
     (if 0 \<le> next then Inr (nat next, next + 1) else throw_fmt ''cannot switch from manual to automatic argument indexing'')"

definition check_arg_id :: "int \<Rightarrow> int result" where
  "check_arg_id next = (if 0 < next then throw_fmt ''cannot switch from automatic to manual argument indexing'' else Inr (- 1))"

definition on_arg_id :: "('d, 'c) fmt_args \<Rightarrow> arg_ref \<Rightarrow> int \<Rightarrow> (nat \<times> int) result" where
  "on_arg_id args ref next =
     (case ref of
        Auto_id \<Rightarrow> next_arg_id next
      | Index_id i \<Rightarrow> rbind (check_arg_id next) (\<lambda>next1. Inr (i, next1))
      | Name_id name \<Rightarrow> (case args_get_id args name of None \<Rightarrow> throw_fmt ''argument not found'' | Some i \<Rightarrow> Inr (i, next)))"

section \<open>Format specifiers\<close>

text \<open>\<^verbatim>\<open>width_checker\<close> and \<^verbatim>\<open>precision_checker\<close>, which differ in the name they report, and \<^verbatim>\<open>get_dynamic_spec\<close>.\<close>

definition check_number :: "string \<Rightarrow> ('d, 'c) fmt_arg \<Rightarrow> nat result" where
  "check_number what a =
     (case a of
        Arg_int n \<Rightarrow> if n <s 0 then throw_fmt (''negative '' @ what) else Inr (unat n)
      | Arg_uint n \<Rightarrow> Inr (unat n)
      | Arg_long_long n \<Rightarrow> if n <s 0 then throw_fmt (''negative '' @ what) else Inr (unat n)
      | Arg_ulong_long n \<Rightarrow> Inr (unat n)
      | _ \<Rightarrow> throw_fmt (what @ '' is not integer''))"

definition get_dynamic_spec :: "string \<Rightarrow> ('d, 'c) fmt_arg \<Rightarrow> nat result" where
  "get_dynamic_spec what a =
     rbind (check_number what a) (\<lambda>n. if unat max_int < n then throw_fmt ''number is too big'' else Inr n)"

text \<open>A dynamic width or precision takes an argument; the counter goes on.\<close>

definition dynamic_spec :: "('d, 'c) fmt_args \<Rightarrow> string \<Rightarrow> arg_ref \<Rightarrow> int \<Rightarrow> (nat \<times> int) result" where
  "dynamic_spec args what ref next =
     rbind (on_arg_id args ref next) (\<lambda>(i, next1). rbind (get_arg args i) (\<lambda>a. rbind (get_dynamic_spec what a) (\<lambda>n. Inr (n, next1))))"

definition code_point_length :: "char \<Rightarrow> nat" where
  "code_point_length c =
     (let len = [1, 1, 1, 1, 1, 1, 1, 1, 1, 1, 1, 1, 1, 1, 1, 1,
                 0, 0, 0, 0, 0, 0, 0, 0, 2, 2, 2, 2, 3, 3, 4, 0] ! (of_char c div 8)
      in if len = 0 then 1 else len)"

definition align_of :: "char \<Rightarrow> align_t option" where
  "align_of c =
     (if c = CHR ''<'' then Some align_left else if c = CHR ''>'' then Some align_right else if c = CHR ''^'' then Some align_center else None)"

definition parse_align :: "string \<Rightarrow> format_specs \<Rightarrow> (format_specs \<times> string) result" where
  "parse_align s specs =
     assert_that (s \<noteq> []) ''FMT_ASSERT''
       (let k = code_point_length (hd s); p = (if length s \<le> k then 0 else k) in
        case align_of (s ! p) of
          Some al \<Rightarrow>
            if p = 0 then Inr (specs\<lparr>align := al\<rparr>, tl s)
            else if hd s = CHR ''{'' then throw_fmt (''invalid fill character '' @ [CHR 0x27, CHR ''{'', CHR 0x27])
            else Inr (specs\<lparr>fill := take p s, align := al\<rparr>, drop (p + 1) s)
        | None \<Rightarrow>
            (case align_of (hd s) of
               Some al \<Rightarrow> Inr (specs\<lparr>align := al\<rparr>, tl s)
             | None \<Rightarrow> Inr (specs, s)))"

text \<open>The checks of \<^verbatim>\<open>numeric_specs_checker\<close>.\<close>

definition require_numeric_argument :: "('d, 'c) fmt_arg \<Rightarrow> unit result" where
  "require_numeric_argument a = (if is_arithmetic_type a then Inr () else throw_fmt ''format specifier requires numeric argument'')"

definition check_sign :: "('d, 'c) fmt_arg \<Rightarrow> unit result" where
  "check_sign a =
     rbind (require_numeric_argument a) (\<lambda>_.
       if is_integral_type a \<and> \<not> is_signed_type a then throw_fmt ''format specifier requires signed argument'' else Inr ())"

definition check_precision :: "('d, 'c) fmt_arg \<Rightarrow> unit result" where
  "check_precision a =
     (if is_integral_type a \<or> is_pointer_type a then throw_fmt ''precision not allowed for this argument type'' else Inr ())"

definition on_zero :: "format_specs \<Rightarrow> format_specs" where
  "on_zero specs = specs\<lparr>align := align_numeric, fill := (fill specs)[0 := CHR ''0'']\<rparr>"

definition parse_sign :: "('d, 'c) fmt_arg \<Rightarrow> string \<Rightarrow> format_specs \<Rightarrow> (format_specs \<times> string) result" where
  "parse_sign a s specs =
     (if hd s = CHR ''+'' then rbind (check_sign a) (\<lambda>_. Inr (specs\<lparr>sign := sign_plus\<rparr>, tl s))
      else if hd s = CHR ''-'' then rbind (check_sign a) (\<lambda>_. Inr (specs\<lparr>sign := sign_minus\<rparr>, tl s))
      else if hd s = CHR '' '' then rbind (check_sign a) (\<lambda>_. Inr (specs\<lparr>sign := sign_space\<rparr>, tl s))
      else Inr (specs, s))"

text \<open>A dynamic width or precision in braces, after the opening one: the number if there is one, the counter and the rest.\<close>

definition parse_braced :: "('d, 'c) fmt_args \<Rightarrow> string \<Rightarrow> string \<Rightarrow> int \<Rightarrow> (nat option \<times> int \<times> string) result" where
  "parse_braced args what s next =
     rbind (if s = [] then Inr (None, next, [])
            else rbind (parse_arg_id s) (\<lambda>(ref, rest). rbind (dynamic_spec args what ref next) (\<lambda>(w, next1). Inr (Some w, next1, rest)))) (\<lambda>(w, next1, rest).
       if rest = [] \<or> hd rest \<noteq> CHR ''}'' then throw_fmt ''invalid format string'' else Inr (w, next1, tl rest))"

text \<open>The parsers of a width and of a precision: the specifiers, the counter and the rest.\<close>

definition parse_width :: "('d, 'c) fmt_args \<Rightarrow> string \<Rightarrow> format_specs \<Rightarrow> int \<Rightarrow> (format_specs \<times> int \<times> string) result" where
  "parse_width args s specs next =
     assert_that (s \<noteq> []) ''FMT_ASSERT''
       (if is_digit (hd s) then rbind (parse_nonnegative_int s) (\<lambda>(w, rest). Inr (specs\<lparr>spec_width := w\<rparr>, next, rest))
        else if hd s = CHR ''{'' then
          rbind (parse_braced args ''width'' (tl s) next) (\<lambda>(w, next1, rest).
            Inr (case w of None \<Rightarrow> specs | Some n \<Rightarrow> specs\<lparr>spec_width := n\<rparr>, next1, rest))
        else Inr (specs, next, s))"

definition parse_precision :: "('d, 'c) fmt_args \<Rightarrow> ('d, 'c) fmt_arg \<Rightarrow> string \<Rightarrow> format_specs \<Rightarrow> int \<Rightarrow> (format_specs \<times> int \<times> string) result" where
  "parse_precision args a s0 specs next =
     (let s = tl s0; c = (if s \<noteq> [] then hd s else no_type) in
      rbind (if is_digit c then rbind (parse_nonnegative_int s) (\<lambda>(n, rest). Inr (specs\<lparr>precision := int n\<rparr>, next, rest))
             else if c = CHR ''{'' then
               rbind (parse_braced args ''precision'' (tl s) next) (\<lambda>(w, next1, rest).
                 Inr (case w of None \<Rightarrow> specs | Some n \<Rightarrow> specs\<lparr>precision := int n\<rparr>, next1, rest))
             else throw_fmt ''missing precision specifier'') (\<lambda>r.
        rbind (check_precision a) (\<lambda>_. Inr r)))"

text \<open>The parser proper in three steps; each is skipped at the end of the range.\<close>

definition parse_tail :: "('d, 'c) fmt_args \<Rightarrow> ('d, 'c) fmt_arg \<Rightarrow> string \<Rightarrow> format_specs \<Rightarrow> int \<Rightarrow> (format_specs \<times> int \<times> string) result" where
  "parse_tail args a s specs next =
     rbind (parse_width args s specs next) (\<lambda>(specs1, next1, s1).
       if s1 = [] then Inr (specs1, next1, s1)
       else rbind (if hd s1 = CHR ''.'' then parse_precision args a s1 specs1 next1 else Inr (specs1, next1, s1)) (\<lambda>(specs2, next2, s2).
         if s2 \<noteq> [] \<and> hd s2 \<noteq> CHR ''}'' then Inr (specs2\<lparr>spec_type := hd s2\<rparr>, next2, tl s2) else Inr (specs2, next2, s2)))"

definition parse_flags :: "('d, 'c) fmt_args \<Rightarrow> ('d, 'c) fmt_arg \<Rightarrow> string \<Rightarrow> format_specs \<Rightarrow> int \<Rightarrow> (format_specs \<times> int \<times> string) result" where
  "parse_flags args a s specs next =
     rbind (if hd s = CHR ''#'' then rbind (require_numeric_argument a) (\<lambda>_. Inr (specs\<lparr>alt := True\<rparr>, tl s)) else Inr (specs, s)) (\<lambda>(specs1, s1).
       if s1 = [] then Inr (specs1, next, s1)
       else rbind (if hd s1 = CHR ''0'' then rbind (require_numeric_argument a) (\<lambda>_. Inr (on_zero specs1, tl s1)) else Inr (specs1, s1)) (\<lambda>(specs2, s2).
         if s2 = [] then Inr (specs2, next, s2) else parse_tail args a s2 specs2 next))"

definition parse_format_specs :: "('d, 'c) fmt_args \<Rightarrow> ('d, 'c) fmt_arg \<Rightarrow> string \<Rightarrow> format_specs \<Rightarrow> int \<Rightarrow> (format_specs \<times> int \<times> string) result" where
  "parse_format_specs args a s specs next =
     (if s = [] then Inr (specs, next, s)
      else rbind (parse_align s specs) (\<lambda>(specs1, s1).
        if s1 = [] then Inr (specs1, next, s1)
        else rbind (parse_sign a s1 specs1) (\<lambda>(specs2, s2).
          if s2 = [] then Inr (specs2, next, s2) else parse_flags args a s2 specs2 next)))"

section \<open>Parsers stay in their range\<close>

text \<open>
  The only error of a parser is a \<^verbatim>\<open>format_error\<close>: no assertion fails and nothing is read outside of the range.  \<open>fmt_ok m Q\<close> says so,
  and that a result has the property \<open>Q\<close>; the rules below compute it along the code.
\<close>

definition fmt_ok :: "'a result \<Rightarrow> ('a \<Rightarrow> bool) \<Rightarrow> bool" where
  "fmt_ok m Q \<longleftrightarrow> (case m of Inl e \<Rightarrow> (\<exists>what. e = Thrown what) | Inr x \<Rightarrow> Q x)"

lemma fmt_ok_Inr [simp]: "fmt_ok (Inr x) Q \<longleftrightarrow> Q x"
  by (simp add: fmt_ok_def)

lemma fmt_ok_throw [simp]: "fmt_ok (throw_fmt what) Q"
  by (simp add: fmt_ok_def throw_fmt_def)

lemma fmt_ok_rbind [simp]: "fmt_ok (rbind m f) Q \<longleftrightarrow> fmt_ok m (\<lambda>x. fmt_ok (f x) Q)"
  by (cases m) (simp_all add: fmt_ok_def)

lemma fmt_ok_assert [simp]: "fmt_ok (assert_that b msg m) Q \<longleftrightarrow> b \<and> fmt_ok m Q"
  by (simp add: fmt_ok_def assert_that_def)

lemma fmt_ok_if [simp]: "fmt_ok (if b then m else k) Q \<longleftrightarrow> (if b then fmt_ok m Q else fmt_ok k Q)"
  by simp

lemma fmt_ok_mono: "fmt_ok m P \<Longrightarrow> (\<And>x. P x \<Longrightarrow> Q x) \<Longrightarrow> fmt_ok m Q"
  by (simp add: fmt_ok_def split: sum.splits)

lemma suffix_tl: "suffix r (tl s) \<Longrightarrow> suffix r s"
  by (cases s) (auto simp: suffix_Cons)

lemma suffix_tl_self [simp]: "suffix (tl s) s"
  by (cases s) (auto simp: suffix_Cons)

lemma suffix_dropWhile_Cons [simp]: "suffix (dropWhile P s) (c # s)"
  by (simp add: suffix_Cons suffix_dropWhile)

lemma int_loop_suffix: "suffix (snd (int_loop v s)) s"
  by (induction v s rule: int_loop.induct) (auto simp: Let_def suffix_Cons)

lemma parse_nonnegative_int_ok:
  assumes "s \<noteq> []" and "is_digit (hd s)"
  shows "fmt_ok (parse_nonnegative_int s) (\<lambda>(n, r). suffix r s \<and> n < 2 ^ 31)"
proof -
  obtain v r where "int_loop 0 s = (v, r)" by (cases "int_loop 0 s")
  then show ?thesis using assms int_loop_suffix [of 0 s] by (simp add: parse_nonnegative_int_def max_int_def word_less_nat_alt not_less)
qed

lemma parse_arg_id_ok: "s \<noteq> [] \<Longrightarrow> fmt_ok (parse_arg_id s) (\<lambda>(ref, r). suffix r s)"
proof (cases s)
  case (Cons c cs)
  have "fmt_ok (parse_nonnegative_int s) (\<lambda>(n, r). suffix r s)" if "is_digit c"
    by (rule fmt_ok_mono [OF parse_nonnegative_int_ok]) (use that Cons in auto)
  then show ?thesis
    unfolding parse_arg_id_def Cons by (auto elim!: fmt_ok_mono simp: suffix_Cons suffix_dropWhile)
qed simp

lemma on_arg_id_ok: "fmt_ok (on_arg_id args ref next) (\<lambda>r. True)"
  by (simp add: on_arg_id_def next_arg_id_def check_arg_id_def split: arg_ref.split option.split)

lemma get_arg_ok: "fmt_ok (get_arg args i) (\<lambda>r. True)"
  by (simp add: get_arg_def split: option.split)

lemma get_dynamic_spec_ok: "fmt_ok (get_dynamic_spec what a) (\<lambda>n. n < 2 ^ 31)"
  by (cases a) (simp_all add: get_dynamic_spec_def check_number_def max_int_def)

lemma dynamic_spec_ok: "fmt_ok (dynamic_spec args what ref next) (\<lambda>(n, k). n < 2 ^ 31)"
  unfolding dynamic_spec_def
  by (auto intro!: fmt_ok_mono [OF on_arg_id_ok] fmt_ok_mono [OF get_arg_ok] fmt_ok_mono [OF get_dynamic_spec_ok])

lemma suffix_tl_left [simp]: "suffix r s \<Longrightarrow> suffix (tl r) s"
  by (meson suffix_order.trans suffix_tl_self)

lemma parse_braced_ok: "fmt_ok (parse_braced args what s next) (\<lambda>(w, k, r). suffix r s \<and> (\<forall>n. w = Some n \<longrightarrow> n < 2 ^ 31))"
proof (cases "s = []")
  case False
  show ?thesis
    unfolding parse_braced_def using False
    by (auto intro!: fmt_ok_mono [OF parse_arg_id_ok] fmt_ok_mono [OF dynamic_spec_ok])
qed (simp add: parse_braced_def)

text \<open>What the steps keep: the rest is in the range, and the width is a non-negative \<^verbatim>\<open>int\<close>.\<close>

definition specs_in :: "string \<Rightarrow> format_specs \<times> 'a \<times> string \<Rightarrow> bool" where
  "specs_in s x \<longleftrightarrow> suffix (snd (snd x)) s \<and> spec_width (fst x) < 2 ^ 31"

lemma specs_in_simp [simp]: "specs_in s (specs, k, r) \<longleftrightarrow> suffix r s \<and> spec_width specs < 2 ^ 31"
  by (simp add: specs_in_def)

lemma parse_align_ok:
  assumes "s \<noteq> []"
  shows "fmt_ok (parse_align s specs) (\<lambda>(specs1, r). suffix r s \<and> spec_width specs1 = spec_width specs)"
  using assms by (simp add: parse_align_def Let_def suffix_drop split: option.split)

lemma parse_sign_ok: "fmt_ok (parse_sign a s specs) (\<lambda>(specs1, r). suffix r s \<and> spec_width specs1 = spec_width specs)"
  by (simp add: parse_sign_def check_sign_def require_numeric_argument_def)

lemma parse_width_ok:
  assumes "s \<noteq> []" and "spec_width specs < 2 ^ 31"
  shows "fmt_ok (parse_width args s specs next) (specs_in s)"
  unfolding parse_width_def using assms
  by (auto intro!: fmt_ok_mono [OF parse_nonnegative_int_ok] fmt_ok_mono [OF parse_braced_ok] split: option.split elim: suffix_tl)

lemma parse_precision_ok:
  assumes "spec_width specs < 2 ^ 31"
  shows "fmt_ok (parse_precision args a s specs next) (specs_in s)"
proof -
  have "\<not> is_digit no_type" "no_type \<noteq> CHR ''{''" by (simp_all add: no_type_def char_between_def)
  then show ?thesis
    unfolding parse_precision_def Let_def check_precision_def using assms
    by (auto intro!: fmt_ok_mono [OF parse_nonnegative_int_ok] fmt_ok_mono [OF parse_braced_ok] split: option.split dest!: suffix_tl)
qed

lemma fmt_ok_specs_in: "fmt_ok m (specs_in t) \<Longrightarrow> suffix t s \<Longrightarrow> (\<And>x. specs_in s x \<Longrightarrow> Q x) \<Longrightarrow> fmt_ok m Q"
  by (erule fmt_ok_mono) (auto simp: specs_in_def intro: suffix_order.trans)

lemma parse_tail_ok:
  assumes "s \<noteq> []" and "spec_width specs < 2 ^ 31"
  shows "fmt_ok (parse_tail args a s specs next) (specs_in s)"
  unfolding parse_tail_def using assms
  by (auto intro!: fmt_ok_specs_in [OF parse_width_ok, where s = s] fmt_ok_specs_in [OF parse_precision_ok, where s = s])

lemma parse_flags_ok:
  assumes "s \<noteq> []" and "spec_width specs < 2 ^ 31"
  shows "fmt_ok (parse_flags args a s specs next) (specs_in s)"
  unfolding parse_flags_def require_numeric_argument_def on_zero_def using assms
  by (auto intro!: fmt_ok_specs_in [OF parse_tail_ok, where s = s])

lemma parse_format_specs_ok:
  assumes "spec_width specs < 2 ^ 31"
  shows "fmt_ok (parse_format_specs args a s specs next) (specs_in s)"
proof (cases "s = []")
  case False
  show ?thesis
    unfolding parse_format_specs_def using False assms
    by (auto intro!: fmt_ok_mono [OF parse_align_ok] fmt_ok_mono [OF parse_sign_ok] fmt_ok_specs_in [OF parse_flags_ok, where s = s])
      (meson suffix_order.trans)
qed (use assms in \<open>simp add: parse_format_specs_def\<close>)

end
