(* ===== verification/Fmt_Write.thy ===== *)
theory Fmt_Write
  imports Fmt_Specs
begin

text \<open>
  Model of the output of fmt (\<^verbatim>\<open>spdlog/fmt/bundled/format.h\<close>): padding, integers in their bases with sign, prefix, zeros and
  digit grouping, characters, booleans, strings and pointers, with the type specifiers each of them takes.  An operation that writes
  to an output iterator is the function that gives the text.  The lemmas give the layout of a padded field and the
  text of an integer in it.
\<close>

section \<open>Padding\<close>

primrec align_index :: "align_t \<Rightarrow> nat" where
  "align_index align_none = 0"
| "align_index align_left = 1"
| "align_index align_right = 2"
| "align_index align_center = 3"
| "align_index align_numeric = 4"

definition left_padding_shifts :: "nat list" where
  "left_padding_shifts = [31, 31, 0, 1, 0]"

definition right_padding_shifts :: "nat list" where
  "right_padding_shifts = [0, 31, 0, 1, 0]"

definition fill_n :: "nat \<Rightarrow> string \<Rightarrow> string" where
  "fill_n n f = concat (replicate n f)"

text \<open>The flag is the template argument: alignment to the right by default.\<close>

definition write_padded :: "bool \<Rightarrow> format_specs \<Rightarrow> nat \<Rightarrow> string \<Rightarrow> string" where
  "write_padded right specs width txt =
     (let padding = spec_width specs - width;
          shifts = (if right then right_padding_shifts else left_padding_shifts);
          left_padding = drop_bit (shifts ! align_index (align specs)) padding
      in fill_n left_padding (fill specs) @ txt @ fill_n (padding - left_padding) (fill specs))"

section \<open>Strings\<close>

definition count_code_points :: "string \<Rightarrow> nat" where
  "count_code_points s = length (filter (\<lambda>c. (of_char c :: nat) AND 0xC0 \<noteq> 0x80) s)"

definition code_point_index :: "string \<Rightarrow> nat \<Rightarrow> nat" where
  "code_point_index s n = (if n < length s then n else length s)"

definition write_str :: "string \<Rightarrow> format_specs \<Rightarrow> string" where
  "write_str s specs =
     (let size1 = (if 0 \<le> precision specs \<and> nat (precision specs) < length s then code_point_index s (nat (precision specs)) else length s);
          width = (if spec_width specs \<noteq> 0 then count_code_points (take size1 s) else 0)
      in write_padded False specs width (take size1 s))"

definition write_char :: "char \<Rightarrow> format_specs \<Rightarrow> string" where
  "write_char c specs = write_padded False specs 1 [c]"

text \<open>\<^verbatim>\<open>format_uint\<close> to an output iterator.\<close>

definition uint_text :: "nat \<Rightarrow> bool \<Rightarrow> nat \<Rightarrow> nat \<Rightarrow> string" where
  "uint_text bits upper num_digits n = format_uint bits upper num_digits n (replicate num_digits CHR 0x00)"

definition write_ptr :: "64 word \<Rightarrow> format_specs option \<Rightarrow> string" where
  "write_ptr p specs =
     (let num_digits = count_digits_base 4 (unat p);
          txt = ''0x'' @ uint_text 4 False num_digits (unat p)
      in case specs of None \<Rightarrow> txt | Some sp \<Rightarrow> write_padded True sp (num_digits + 2) txt)"

section \<open>Integers\<close>

definition write_int_data :: "nat \<Rightarrow> string \<Rightarrow> format_specs \<Rightarrow> nat \<times> nat" where
  "write_int_data num_digits pfx specs =
     (let size1 = length pfx + num_digits in
      if align specs = align_numeric then
        (if size1 < spec_width specs then (spec_width specs, spec_width specs - size1) else (size1, 0))
      else if int num_digits < precision specs then
        (length pfx + nat (precision specs), nat (precision specs) - num_digits)
      else (size1, 0))"

definition write_int :: "nat \<Rightarrow> string \<Rightarrow> format_specs \<Rightarrow> string \<Rightarrow> string" where
  "write_int num_digits pfx specs digit_text =
     (let (size1, padding) = write_int_data num_digits pfx specs in
      write_padded True specs size1 (pfx @ replicate padding CHR ''0'' @ digit_text))"

text \<open>\<^verbatim>\<open>int_writer\<close>: the flag says whether the number has 64 bits or 32.\<close>

record int_writer =
  wide :: bool
  abs_value :: "64 word"
  int_prefix :: string

definition sign_prefix :: "bool \<Rightarrow> format_specs \<Rightarrow> string" where
  "sign_prefix negative specs =
     (if negative then ''-''
      else if sign specs \<noteq> sign_none \<and> sign specs \<noteq> sign_minus then (if sign specs = sign_plus then ''+'' else '' '')
      else [])"

definition int_writer_signed32 :: "32 word \<Rightarrow> format_specs \<Rightarrow> int_writer" where
  "int_writer_signed32 n specs = \<lparr>wide = False, abs_value = ucast (if n <s 0 then 0 - n else n), int_prefix = sign_prefix (n <s 0) specs\<rparr>"

definition int_writer_unsigned32 :: "32 word \<Rightarrow> format_specs \<Rightarrow> int_writer" where
  "int_writer_unsigned32 n specs = \<lparr>wide = False, abs_value = ucast n, int_prefix = sign_prefix False specs\<rparr>"

definition int_writer_signed64 :: "64 word \<Rightarrow> format_specs \<Rightarrow> int_writer" where
  "int_writer_signed64 n specs = \<lparr>wide = True, abs_value = (if n <s 0 then 0 - n else n), int_prefix = sign_prefix (n <s 0) specs\<rparr>"

definition int_writer_unsigned64 :: "64 word \<Rightarrow> format_specs \<Rightarrow> int_writer" where
  "int_writer_unsigned64 n specs = \<lparr>wide = True, abs_value = n, int_prefix = sign_prefix False specs\<rparr>"

definition int_num_digits :: "bool \<Rightarrow> 64 word \<Rightarrow> nat" where
  "int_num_digits wide_int n = (if wide_int then count_digits64 n else count_digits32 (ucast n))"

text \<open>\<^verbatim>\<open>format_decimal\<close> to an output iterator, through a buffer of the greatest number of digits.\<close>

definition decimal_text :: "bool \<Rightarrow> 64 word \<Rightarrow> nat \<Rightarrow> string result" where
  "decimal_text wide_int n num_digits =
     rbind (format_decimal (replicate (if wide_int then 20 else 10) CHR 0x00) 0 n num_digits) (\<lambda>(buf, start, stop). Inr (take stop buf))"

definition on_dec :: "format_specs \<Rightarrow> int_writer \<Rightarrow> string result" where
  "on_dec specs w =
     (let num_digits = int_num_digits (wide w) (abs_value w) in
      rbind (decimal_text (wide w) (abs_value w) num_digits) (\<lambda>txt. Inr (write_int num_digits (int_prefix w) specs txt)))"

definition on_hex :: "format_specs \<Rightarrow> int_writer \<Rightarrow> string" where
  "on_hex specs w =
     (let pfx = int_prefix w @ (if alt specs then [CHR ''0'', spec_type specs] else []);
          n = unat (abs_value w); num_digits = count_digits_base 4 n
      in write_int num_digits pfx specs (uint_text 4 (spec_type specs \<noteq> CHR ''x'') num_digits n))"

definition on_bin :: "format_specs \<Rightarrow> int_writer \<Rightarrow> string" where
  "on_bin specs w =
     (let pfx = int_prefix w @ (if alt specs then [CHR ''0'', spec_type specs] else []);
          n = unat (abs_value w); num_digits = count_digits_base 1 n
      in write_int num_digits pfx specs (uint_text 1 False num_digits n))"

definition on_oct :: "format_specs \<Rightarrow> int_writer \<Rightarrow> string" where
  "on_oct specs w =
     (let n = unat (abs_value w); num_digits = count_digits_base 3 n;
          pfx = int_prefix w @ (if alt specs \<and> precision specs \<le> int num_digits \<and> abs_value w \<noteq> 0 then [CHR ''0''] else [])
      in write_int num_digits pfx specs (uint_text 3 False num_digits n))"

subsection \<open>Digit grouping\<close>

text \<open>The first loop of \<^verbatim>\<open>on_num\<close> counts the separators: their number, the digits left and the groups left.\<close>

fun group_count :: "int \<Rightarrow> int \<Rightarrow> int list \<Rightarrow> int \<times> int \<times> int list" where
  "group_count seps n [] = (seps, n, [])"
| "group_count seps n (g # gs) =
     (if g < n \<and> 0 < g \<and> g \<noteq> 127 then group_count (seps + 1) (n - g) gs else (seps, n, g # gs))"

definition grouped_size :: "int list \<Rightarrow> nat \<Rightarrow> int" where
  "grouped_size groups num_digits =
     (let (seps, n, left) = group_count 0 (int num_digits) groups in
      int num_digits + seps + (if left = [] then (n - 1) div last groups else 0))"

text \<open>The second loop writes all digits but the first one, from the last; the result is in the order of writing.\<close>

fun group_loop :: "char \<Rightarrow> int list \<Rightarrow> int \<Rightarrow> string \<Rightarrow> string" where
  "group_loop sep groups digit_index [] = []"
| "group_loop sep [] digit_index (d # ds) = d # ds"
| "group_loop sep (g # gs) digit_index (d # ds) =
     d # (if g \<le> 0 then group_loop sep (g # gs) digit_index ds
          else if (digit_index + 1) mod g \<noteq> 0 \<or> g = 127 then group_loop sep (g # gs) (digit_index + 1) ds
          else sep # (if gs \<noteq> [] then group_loop sep gs 0 ds else group_loop sep (g # gs) (digit_index + 1) ds))"

text \<open>
  The text is written from the end of a buffer of the size that was counted.  A text of another size would not fit it or would leave its beginning
  undefined.
\<close>

definition on_num :: "('d, 'c) format_env \<Rightarrow> format_specs \<Rightarrow> int_writer \<Rightarrow> string result" where
  "on_num env specs w =
     (if grouping env = [] \<or> thousands_sep env = CHR 0x00 then on_dec specs w
      else let num_digits = int_num_digits (wide w) (abs_value w);
               size1 = grouped_size (grouping env) num_digits + int (length (int_prefix w))
           in rbind (decimal_text (wide w) (abs_value w) num_digits) (\<lambda>txt.
             let s = (if int_prefix w \<noteq> [] then ''-'' else []) @ hd txt # rev (group_loop (thousands_sep env) (grouping env) 0 (rev (tl txt))) in
             if int (length s) \<noteq> size1 then Inl OutOfBounds else Inr (write_padded True specs (length s) s)))"

definition on_chr :: "int_writer \<Rightarrow> string" where
  "on_chr w = [char_of (unat (abs_value w))]"

definition handle_int_type_spec :: "('d, 'c) format_env \<Rightarrow> format_specs \<Rightarrow> int_writer \<Rightarrow> string result" where
  "handle_int_type_spec env specs w =
     (let c = spec_type specs in
      if c = no_type \<or> c = CHR ''d'' then on_dec specs w
      else if c = CHR ''x'' \<or> c = CHR ''X'' then Inr (on_hex specs w)
      else if c = CHR ''b'' \<or> c = CHR ''B'' then Inr (on_bin specs w)
      else if c = CHR ''o'' then Inr (on_oct specs w)
      else if c = CHR ''L'' then on_num env specs w
      else if c = CHR ''c'' then Inr (on_chr w)
      else throw_fmt ''invalid type specifier'')"

section \<open>Arguments\<close>

text \<open>\<^verbatim>\<open>write(out, value)\<close> of an integer, without specifiers.\<close>

definition write_integral32 :: "bool \<Rightarrow> 32 word \<Rightarrow> string result" where
  "write_integral32 negative n =
     (let abs_n = ucast (if negative then NOT n + 1 else n) in
      rbind (decimal_text False abs_n (int_num_digits False abs_n)) (\<lambda>txt. Inr ((if negative then ''-'' else []) @ txt)))"

definition write_integral64 :: "bool \<Rightarrow> 64 word \<Rightarrow> string result" where
  "write_integral64 negative n =
     (let abs_n = (if negative then NOT n + 1 else n) in
      rbind (decimal_text True abs_n (int_num_digits True abs_n)) (\<lambda>txt. Inr ((if negative then ''-'' else []) @ txt)))"

definition bool_text :: "bool \<Rightarrow> string" where
  "bool_text b = (if b then ''true'' else ''false'')"

text \<open>\<^verbatim>\<open>default_arg_formatter\<close>, for a replacement field without specifiers.\<close>

definition default_arg_formatter :: "('d, 'c) format_env \<Rightarrow> ('d, 'c) fmt_arg \<Rightarrow> string result" where
  "default_arg_formatter env a =
     (case a of
        Arg_int n \<Rightarrow> write_integral32 (n <s 0) n
      | Arg_uint n \<Rightarrow> write_integral32 False n
      | Arg_long_long n \<Rightarrow> write_integral64 (n <s 0) n
      | Arg_ulong_long n \<Rightarrow> write_integral64 False n
      | Arg_bool b \<Rightarrow> Inr (bool_text b)
      | Arg_char c \<Rightarrow> Inr [c]
      | Arg_double d \<Rightarrow> float_text env d None
      | Arg_cstring p s \<Rightarrow> (case s of None \<Rightarrow> throw_fmt ''string pointer is null'' | Some txt \<Rightarrow> Inr txt)
      | Arg_string s \<Rightarrow> Inr s
      | Arg_pointer p \<Rightarrow> Inr (write_ptr p None)
      | Arg_custom c \<Rightarrow> rbind (custom_format env c [] 0) (\<lambda>(txt, k, next). Inr txt))"

text \<open>\<^verbatim>\<open>handle_char_specs\<close> with \<^verbatim>\<open>char_spec_handler\<close>: a \<^verbatim>\<open>char\<close> is signed when it is printed as a number.\<close>

definition handle_char_specs :: "('d, 'c) format_env \<Rightarrow> format_specs \<Rightarrow> char \<Rightarrow> string result" where
  "handle_char_specs env specs c =
     (if spec_type specs \<noteq> no_type \<and> spec_type specs \<noteq> CHR ''c'' then
        handle_int_type_spec env specs (int_writer_signed32 (scast (of_char c :: 8 word)) specs)
      else if align specs = align_numeric \<or> sign specs \<noteq> sign_none \<or> alt specs then throw_fmt ''invalid format specifier for char''
      else Inr (write_char c specs))"

definition handle_cstring_type_spec :: "format_specs \<Rightarrow> 64 word \<Rightarrow> string option \<Rightarrow> string result" where
  "handle_cstring_type_spec specs p s =
     (if spec_type specs = no_type \<or> spec_type specs = CHR ''s'' then
        (case s of None \<Rightarrow> throw_fmt ''string pointer is null'' | Some txt \<Rightarrow> Inr (write_str txt specs))
      else if spec_type specs = CHR ''p'' then Inr (write_ptr p (Some specs))
      else throw_fmt ''invalid type specifier'')"

text \<open>\<^verbatim>\<open>arg_formatter_base\<close>, for a replacement field with specifiers.  An argument of a user-defined type goes to its own
  formatter before (\<^verbatim>\<open>on_format_specs\<close>); the theorems on whole format strings show that the failure here never happens.\<close>

definition arg_formatter :: "('d, 'c) format_env \<Rightarrow> format_specs \<Rightarrow> ('d, 'c) fmt_arg \<Rightarrow> string result" where
  "arg_formatter env specs a =
     (case a of
        Arg_int n \<Rightarrow> handle_int_type_spec env specs (int_writer_signed32 n specs)
      | Arg_uint n \<Rightarrow> handle_int_type_spec env specs (int_writer_unsigned32 n specs)
      | Arg_long_long n \<Rightarrow> handle_int_type_spec env specs (int_writer_signed64 n specs)
      | Arg_ulong_long n \<Rightarrow> handle_int_type_spec env specs (int_writer_unsigned64 n specs)
      | Arg_bool b \<Rightarrow>
          if spec_type specs \<noteq> no_type then handle_int_type_spec env specs (int_writer_signed32 (if b then 1 else 0) specs)
          else Inr (write_str (bool_text b) specs)
      | Arg_char c \<Rightarrow> handle_char_specs env specs c
      | Arg_double d \<Rightarrow> float_text env d (Some specs)
      | Arg_cstring p s \<Rightarrow> handle_cstring_type_spec specs p s
      | Arg_string s \<Rightarrow>
          if spec_type specs \<noteq> no_type \<and> spec_type specs \<noteq> CHR ''s'' then throw_fmt ''invalid type specifier'' else Inr (write_str s specs)
      | Arg_pointer p \<Rightarrow>
          if spec_type specs \<noteq> no_type \<and> spec_type specs \<noteq> CHR ''p'' then throw_fmt ''invalid type specifier''
          else Inr (write_ptr p (Some specs))
      | Arg_custom c \<Rightarrow> Inl (AssertFailed ''unreachable''))"

section \<open>Integers and their text\<close>

definition writer_ok :: "int_writer \<Rightarrow> bool" where
  "writer_ok w \<longleftrightarrow> (wide w \<or> unat (abs_value w) < 2 ^ 32) \<and> length (int_prefix w) \<le> 1"

lemma int_num_digits_correct: "wide_int \<or> unat n < 2 ^ 32 \<Longrightarrow> int_num_digits wide_int n = length (to_string_nat (unat n))"
  by (auto simp: int_num_digits_def count_digits64_correct count_digits32_correct unsigned_ucast_eq take_bit_nat_eq_self)

lemma digits_of_32: "n < 2 ^ 32 \<Longrightarrow> length (to_string_nat n) \<le> 10"
  using digits_le_iff [of n 9] by simp

lemma decimal_text_correct:
  assumes "wide_int \<or> unat n < 2 ^ 32"
  shows "decimal_text wide_int n (int_num_digits wide_int n) = Inr (to_string_nat (unat n))"
proof -
  let ?l = "length (to_string_nat (unat n))" and ?buf = "replicate (if wide_int then 20 else 10) CHR 0x00"
  have c: "int_num_digits wide_int n = ?l" using assms by (rule int_num_digits_correct)
  have l: "0 + ?l \<le> length ?buf" using assms digits_of_64 [of n] digits_of_32 [of "unat n"] by auto
  obtain buf1 where "format_decimal ?buf 0 n ?l = Inr (buf1, 0 + ?l - ?l, 0 + ?l)"
    "drop (0 + ?l - ?l) buf1 = to_string_nat (unat n) @ drop (0 + ?l) ?buf"
    by (rule format_decimal_window [OF order_refl l])
  then show ?thesis by (simp add: decimal_text_def c)
qed

lemma uint_text_correct: "uint_text bits upper (count_digits_base bits n) n = radix_text bits upper n"
  using uint_loop_window [of bits upper n "count_digits_base bits n" "replicate (count_digits_base bits n) CHR 0x00"]
  by (simp add: uint_text_def format_uint_def count_digits_base_correct [of bits n upper])

lemma unat_ucast_64 [simp]: "unat (ucast (m :: 32 word) :: 64 word) = unat m"
proof -
  have "unat m < 2 ^ 32" using unsigned_less [of m] by simp
  then show ?thesis by (simp add: unsigned_ucast_eq take_bit_nat_eq_self)
qed

lemma signed32:
  fixes n :: "32 word"
  shows "unat (ucast (if n <s 0 then 0 - n else n) :: 64 word) = nat \<bar>sint n\<bar>" and "n <s 0 \<longleftrightarrow> sint n < 0"
proof -
  have r: "- (2 ^ 31) \<le> sint n" "sint n < 2 ^ 31" using sint_greater_eq [of n] sint_less [of n] by simp_all
  show s: "n <s 0 \<longleftrightarrow> sint n < 0" by (simp add: word_sless_alt)
  have u: "uint n = sint n mod 2 ^ 32" using uint_word_of_int [where 'a = 32, of "sint n"] by simp
  have "0 - n = word_of_int (- sint n)" by simp
  then have v: "uint (0 - n) = (- sint n) mod 2 ^ 32" using uint_word_of_int [where 'a = 32, of "- sint n"] by simp
  have "uint (if n <s 0 then 0 - n else n) = \<bar>sint n\<bar>" using u v r by (simp add: s mod_pos_pos_trivial)
  moreover have "unat (ucast (if n <s 0 then 0 - n else n) :: 64 word) = unat (if n <s 0 then 0 - n else n)" by (rule unat_ucast_64)
  ultimately show "unat (ucast (if n <s 0 then 0 - n else n) :: 64 word) = nat \<bar>sint n\<bar>" by (metis nat_uint_eq)
qed

lemma signed64:
  fixes n :: "64 word"
  shows "unat (if n <s 0 then 0 - n else n) = nat \<bar>sint n\<bar>" and "n <s 0 \<longleftrightarrow> sint n < 0"
proof -
  show s: "n <s 0 \<longleftrightarrow> sint n < 0" by (simp add: word_sless_alt)
  show "unat (if n <s 0 then 0 - n else n) = nat \<bar>sint n\<bar>"
  proof (cases "n <s 0")
    case True
    then have "int (unat (0 - n)) = \<bar>sint n\<bar>" using unat_minus_signed [of n] s by simp
    with True show ?thesis by (metis nat_int)
  next
    case False
    then have "int (unat n) = \<bar>sint n\<bar>" using unat_signed [of n] s by simp
    with False show ?thesis by (metis nat_int)
  qed
qed

lemma NOT_plus_1: "NOT n + 1 = 0 - (n :: 'a::len word)"
  by (simp add: minus_eq_not_plus_1)

lemma write_integral_text:
  "write_integral32 (n <s 0) n = Inr (to_string_int (sint n))" "write_integral32 False n = Inr (to_string_nat (unat n))"
  "write_integral64 (m <s 0) m = Inr (to_string_int (sint m))" "write_integral64 False m = Inr (to_string_nat (unat m))"
proof -
  have l: "unat (ucast k :: 64 word) < 2 ^ 32" for k :: "32 word" using unsigned_less [of k] by simp
  show "write_integral32 False n = Inr (to_string_nat (unat n))" using l [of n] by (simp add: write_integral32_def decimal_text_correct)
  show "write_integral64 False m = Inr (to_string_nat (unat m))" by (simp add: write_integral64_def decimal_text_correct)
  show "write_integral32 (n <s 0) n = Inr (to_string_int (sint n))"
    using decimal_text_correct [of False "ucast (if n <s 0 then 0 - n else n)"] l [of "if n <s 0 then 0 - n else n"] signed32 [of n]
    by (cases "n <s 0") (simp_all add: write_integral32_def NOT_plus_1 to_string_int_def del: diff_0 unat_ucast_64)
  show "write_integral64 (m <s 0) m = Inr (to_string_int (sint m))"
    using decimal_text_correct [of True "if m <s 0 then 0 - m else m"] signed64 [of m]
    by (cases "m <s 0") (simp_all add: write_integral64_def NOT_plus_1 to_string_int_def del: diff_0)
qed

section \<open>The layout of a field\<close>

lemma fill_n_simps [simp]: "fill_n 0 f = []" "fill_n n [c] = replicate n c" "length (fill_n n f) = n * length f"
  by (induction n) (simp_all add: fill_n_def)

lemma write_padded_layout:
  assumes "spec_width specs < 2 ^ 31"
  obtains l r where "write_padded right specs width txt = fill_n l (fill specs) @ txt @ fill_n r (fill specs)"
    "l + r = spec_width specs - width"
    "align specs = align_left \<or> align specs = align_none \<and> \<not> right \<longrightarrow> l = 0"
    "align specs = align_right \<or> align specs = align_numeric \<or> align specs = align_none \<and> right \<longrightarrow> r = 0"
    "align specs = align_center \<longrightarrow> l = (spec_width specs - width) div 2"
proof -
  let ?p = "spec_width specs - width"
  let ?l = "drop_bit ((if right then right_padding_shifts else left_padding_shifts) ! align_index (align specs)) ?p"
  have z: "drop_bit 31 ?p = 0" using assms by (simp add: drop_bit_eq_div)
  have "?l \<le> ?p" by (simp add: drop_bit_eq_div)
  then have "?l + (?p - ?l) = ?p" by simp
  moreover have "align specs = align_left \<or> align specs = align_none \<and> \<not> right \<longrightarrow> ?l = 0"
    using z by (auto simp: left_padding_shifts_def right_padding_shifts_def)
  moreover have "align specs = align_right \<or> align specs = align_numeric \<or> align specs = align_none \<and> right \<longrightarrow> ?p - ?l = 0"
    by (auto simp: left_padding_shifts_def right_padding_shifts_def)
  moreover have "align specs = align_center \<longrightarrow> ?l = ?p div 2"
    by (auto simp: left_padding_shifts_def right_padding_shifts_def drop_bit_eq_div)
  moreover have "write_padded right specs width txt = fill_n ?l (fill specs) @ txt @ fill_n (?p - ?l) (fill specs)"
    by (simp only: write_padded_def Let_def)
  ultimately show ?thesis using that [of ?l "?p - ?l"] by blast
qed

section \<open>Digit grouping\<close>

lemma group_loop_off: "g \<le> 0 \<or> g = 127 \<Longrightarrow> length (group_loop sep (g # gs) i ds) = length ds"
  by (induction ds arbitrary: i) auto

lemma group_loop_short:
  "0 < g \<Longrightarrow> 0 \<le> i \<Longrightarrow> i + int (length ds) < g \<Longrightarrow> length (group_loop sep (g # gs) i ds) = length ds"
  by (induction ds arbitrary: i) auto

lemma group_loop_next:
  assumes "gs \<noteq> []" and "0 < g" "g \<noteq> 127" and "0 \<le> i" "i < g" and "g - i \<le> int (length ds)"
  shows "length (group_loop sep (g # gs) i ds) = nat (g - i) + 1 + length (group_loop sep gs 0 (drop (nat (g - i)) ds))"
  using assms
proof (induction ds arbitrary: i)
  case Nil
  then show ?case by simp
next
  case (Cons d ds)
  show ?case
  proof (cases "g = i + 1")
    case True
    then show ?thesis using Cons.prems by simp
  next
    case False
    then have m: "(i + 1) mod g = i + 1" using Cons.prems by simp
    have "length (group_loop sep (g # gs) (i + 1) ds) = nat (g - (i + 1)) + 1 + length (group_loop sep gs 0 (drop (nat (g - (i + 1))) ds))"
      using Cons.IH [of "i + 1"] Cons.prems False by simp
    moreover have "nat (g - i) = Suc (nat (g - (i + 1)))" using Cons.prems by simp
    ultimately show ?thesis using m Cons.prems by simp
  qed
qed

lemma div_step:
  assumes "0 < g"
  shows "(i + 1) div g = i div g + (if (i + 1) mod g = 0 then 1 else (0 :: int))"
proof (cases "i mod g + 1 = g")
  case True
  have "i + 1 = g * (i div g) + (i mod g + 1)" by simp
  then have "i + 1 = g * (i div g + 1) + 0" unfolding True by (simp add: algebra_simps)
  then show ?thesis using int_div_pos_eq [of "i + 1" g "i div g + 1" 0] int_mod_pos_eq [of "i + 1" g "i div g + 1" 0] assms by simp
next
  case False
  have "i + 1 = g * (i div g) + (i mod g + 1)" by simp
  moreover have "0 \<le> i mod g + 1" "i mod g + 1 < g" "0 \<le> i mod g" using assms False pos_mod_bound [of g i] pos_mod_sign [of g i] by linarith+
  ultimately show ?thesis using int_div_pos_eq [of "i + 1" g "i div g" "i mod g + 1"] int_mod_pos_eq [of "i + 1" g "i div g" "i mod g + 1"] by simp
qed

lemma group_loop_last:
  assumes "0 < g" "g \<noteq> 127" and "0 \<le> i"
  shows "int (length (group_loop sep [g] i ds)) = int (length ds) + (i + int (length ds)) div g - i div g"
  using assms(3)
proof (induction ds arbitrary: i)
  case Nil
  then show ?case by simp
next
  case (Cons d ds)
  have "(i + 1) div g = i div g + (if (i + 1) mod g = 0 then 1 else 0)" using div_step [OF assms(1)] .
  then show ?case using Cons.IH [of "i + 1"] Cons.prems assms by (auto simp: algebra_simps)
qed

text \<open>What the first loop counts is what the second loop writes.\<close>

lemma group_count_loop:
  assumes "groups \<noteq> []" and "group_count seps (int (length ds) + 1) groups = (seps1, n, left)"
  shows "int (length (group_loop sep groups 0 ds)) = int (length ds) + (seps1 - seps) + (if left = [] then (n - 1) div last groups else 0)"
  using assms
proof (induction groups arbitrary: ds seps)
  case Nil
  then show ?case by simp
next
  case (Cons g gs)
  show ?case
  proof (cases "g < int (length ds) + 1 \<and> 0 < g \<and> g \<noteq> 127")
    case False
    then have "int (length (group_loop sep (g # gs) 0 ds)) = int (length ds)"
      using group_loop_off [of g sep gs 0 ds] group_loop_short [of g 0 ds sep gs] by fastforce
    then show ?thesis using False Cons.prems by auto
  next
    case True
    then have c: "group_count (seps + 1) (int (length ds) + 1 - g) gs = (seps1, n, left)" using Cons.prems by simp
    have d: "int (length (drop (nat g) ds)) = int (length ds) - g" using True by (simp add: of_nat_diff nat_le_iff)
    show ?thesis
    proof (cases "gs = []")
      case True
      have "(int (length ds) - g) div g = int (length ds) div g - 1" using \<open>g < int (length ds) + 1 \<and> 0 < g \<and> g \<noteq> 127\<close>
        by (metis div_add_self2 add_diff_cancel_right' diff_add_cancel less_irrefl)
      then show ?thesis using True c \<open>g < int (length ds) + 1 \<and> 0 < g \<and> g \<noteq> 127\<close> group_loop_last [of g 0 sep ds] by auto
    next
      case False
      have "int (length (drop (nat g) ds)) + 1 = int (length ds) + 1 - g" using d by linarith
      note ih = Cons.IH [OF False, of "seps + 1" "drop (nat g) ds", unfolded this, OF c]
      have "length (group_loop sep (g # gs) 0 ds) = nat g + 1 + length (group_loop sep gs 0 (drop (nat g) ds))"
        using group_loop_next [OF False, of g 0 ds sep] True by simp
      then show ?thesis using ih d True False by simp
    qed
  qed
qed

lemma grouped_size_correct: "groups \<noteq> [] \<Longrightarrow> int (length (group_loop sep groups 0 ds)) + 1 = grouped_size groups (Suc (length ds))"
  using group_count_loop [of groups 0 ds] by (auto simp: grouped_size_def algebra_simps split: prod.split)

section \<open>Integer fields\<close>

text \<open>The layout that the comment of \<^verbatim>\<open>write_int\<close> promises: left padding, prefix, zeros, digits, right padding.\<close>

definition int_field :: "format_specs \<Rightarrow> string \<Rightarrow> string \<Rightarrow> string \<Rightarrow> bool" where
  "int_field specs pfx ds field \<longleftrightarrow>
     (\<exists>l z r. field = fill_n l (fill specs) @ (pfx @ replicate z CHR ''0'' @ ds) @ fill_n r (fill specs) \<and>
        z = (if align specs = align_numeric then spec_width specs - (length pfx + length ds) else nat (precision specs) - length ds) \<and>
        l + r = spec_width specs - (length pfx + z + length ds) \<and>
        (align specs = align_left \<longrightarrow> l = 0) \<and> (align specs = align_none \<or> align specs = align_right \<longrightarrow> r = 0) \<and>
        (align specs = align_center \<longrightarrow> l = (l + r) div 2))"

lemma write_int_field:
  assumes "spec_width specs < 2 ^ 31" and "k = length ds"
  shows "int_field specs pfx ds (write_int k pfx specs ds)"
proof -
  obtain size1 z where d: "write_int_data k pfx specs = (size1, z)" by (cases "write_int_data k pfx specs")
  then have z: "size1 = length pfx + z + length ds"
    "z = (if align specs = align_numeric then spec_width specs - (length pfx + length ds) else nat (precision specs) - length ds)"
    using assms(2) by (auto simp: write_int_data_def Let_def split: if_splits)
  obtain l r where p: "write_padded True specs size1 (pfx @ replicate z CHR ''0'' @ ds) =
      fill_n l (fill specs) @ (pfx @ replicate z CHR ''0'' @ ds) @ fill_n r (fill specs)" "l + r = spec_width specs - size1"
    "align specs = align_left \<or> align specs = align_none \<and> \<not> True \<longrightarrow> l = 0"
    "align specs = align_right \<or> align specs = align_numeric \<or> align specs = align_none \<and> True \<longrightarrow> r = 0"
    "align specs = align_center \<longrightarrow> l = (spec_width specs - size1) div 2"
    by (rule write_padded_layout [OF assms(1)])
  have "write_int k pfx specs ds = fill_n l (fill specs) @ (pfx @ replicate z CHR ''0'' @ ds) @ fill_n r (fill specs)"
    unfolding p(1) [symmetric] by (simp add: write_int_def d)
  moreover have "align specs = align_center \<longrightarrow> l = (l + r) div 2" using p(2,5) by auto
  moreover have "l + r = spec_width specs - (length pfx + z + length ds)" using p(2) unfolding z(1) .
  ultimately show ?thesis
    unfolding int_field_def by - (rule exI [of _ l], rule exI [of _ z], rule exI [of _ r], use p(3,4) z(2) in blast)
qed

text \<open>The digits of a type specifier, and the prefix of its base.\<close>

definition spec_digits :: "char \<Rightarrow> nat \<Rightarrow> string option" where
  "spec_digits c n =
     (if c = no_type \<or> c = CHR ''d'' then Some (to_string_nat n)
      else if c = CHR ''x'' then Some (radix_text 4 False n)
      else if c = CHR ''X'' then Some (radix_text 4 True n)
      else if c = CHR ''b'' \<or> c = CHR ''B'' then Some (radix_text 1 False n)
      else if c = CHR ''o'' then Some (radix_text 3 False n)
      else None)"

definition base_prefix :: "format_specs \<Rightarrow> nat \<Rightarrow> string \<Rightarrow> string" where
  "base_prefix specs n ds =
     (if \<not> alt specs then []
      else if spec_type specs \<in> {CHR ''x'', CHR ''X'', CHR ''b'', CHR ''B''} then [CHR ''0'', spec_type specs]
      else if spec_type specs = CHR ''o'' \<and> precision specs \<le> int (length ds) \<and> n \<noteq> 0 then ''0''
      else [])"

lemma handle_int_type_spec_simps:
  "spec_type specs \<in> {no_type, CHR ''d''} \<Longrightarrow> handle_int_type_spec env specs w = on_dec specs w"
  "spec_type specs \<in> {CHR ''x'', CHR ''X''} \<Longrightarrow> handle_int_type_spec env specs w = Inr (on_hex specs w)"
  "spec_type specs \<in> {CHR ''b'', CHR ''B''} \<Longrightarrow> handle_int_type_spec env specs w = Inr (on_bin specs w)"
  "spec_type specs = CHR ''o'' \<Longrightarrow> handle_int_type_spec env specs w = Inr (on_oct specs w)"
  by (auto simp: handle_int_type_spec_def no_type_def)

lemma spec_digits_cases:
  assumes "spec_digits c n = Some ds"
  obtains "c \<in> {no_type, CHR ''d''}" "ds = to_string_nat n" | "c \<in> {CHR ''x'', CHR ''X''}" "ds = radix_text 4 (c \<noteq> CHR ''x'') n"
    | "c \<in> {CHR ''b'', CHR ''B''}" "ds = radix_text 1 False n" | "c = CHR ''o''" "ds = radix_text 3 False n"
  using assms unfolding spec_digits_def by (auto split: if_splits)

lemma base_prefix_simps:
  "spec_type specs \<in> {no_type, CHR ''d''} \<Longrightarrow> base_prefix specs n ds = []"
  "spec_type specs \<in> {CHR ''x'', CHR ''X'', CHR ''b'', CHR ''B''} \<Longrightarrow> base_prefix specs n ds = (if alt specs then [CHR ''0'', spec_type specs] else [])"
  "spec_type specs = CHR ''o'' \<Longrightarrow>
     base_prefix specs n ds = (if alt specs \<and> precision specs \<le> int (length ds) \<and> n \<noteq> 0 then [CHR ''0''] else [])"
  by (auto simp: base_prefix_def no_type_def)

lemma int_writer_field:
  assumes "spec_width specs < 2 ^ 31" and "writer_ok w" and "spec_digits (spec_type specs) (unat (abs_value w)) = Some ds"
  shows "\<exists>field. handle_int_type_spec env specs w = Inr field \<and>
    int_field specs (int_prefix w @ base_prefix specs (unat (abs_value w)) ds) ds field"
proof -
  let ?n = "unat (abs_value w)"
  note wif = write_int_field [OF assms(1)]
  have w: "wide w \<or> ?n < 2 ^ 32" using assms(2) by (simp add: writer_ok_def)
  from assms(3) show ?thesis
  proof (cases rule: spec_digits_cases)
    case 1
    then show ?thesis
      using wif [of "length ds" ds "int_prefix w"] decimal_text_correct [OF w] int_num_digits_correct [OF w]
      by (simp add: handle_int_type_spec_simps(1) base_prefix_simps(1) on_dec_def)
  next
    case 2
    let ?u = "spec_type specs \<noteq> CHR ''x''"
    have "base_prefix specs ?n ds = (if alt specs then [CHR ''0'', spec_type specs] else [])" using 2(1) by (intro base_prefix_simps(2)) blast
    then show ?thesis
      using wif [OF count_digits_base_correct [of 4 ?n ?u], of "int_prefix w @ base_prefix specs ?n ds"] handle_int_type_spec_simps(2) [OF 2(1)] 2(2)
      by (simp only: on_hex_def Let_def uint_text_correct) blast
  next
    case 3
    have "base_prefix specs ?n ds = (if alt specs then [CHR ''0'', spec_type specs] else [])" using 3(1) by (intro base_prefix_simps(2)) blast
    then show ?thesis
      using wif [OF count_digits_base_correct [of 1 ?n False], of "int_prefix w @ base_prefix specs ?n ds"] handle_int_type_spec_simps(3) [OF 3(1)] 3(2)
      by (simp only: on_bin_def Let_def uint_text_correct) blast
  next
    case 4
    have "base_prefix specs ?n ds = (if alt specs \<and> precision specs \<le> int (count_digits_base 3 ?n) \<and> abs_value w \<noteq> 0 then [CHR ''0''] else [])"
      using base_prefix_simps(3) [OF 4(1), of ?n ds] by (simp add: 4(2) count_digits_base_correct [of 3 _ False] unat_eq_zero)
    then show ?thesis
      using wif [OF count_digits_base_correct [of 3 ?n False], of "int_prefix w @ base_prefix specs ?n ds"] handle_int_type_spec_simps(4) [OF 4(1)] 4(2)
      by (simp only: on_oct_def Let_def uint_text_correct) blast
  qed
qed

definition arg_integer :: "('d, 'c) fmt_arg \<Rightarrow> int option" where
  "arg_integer a =
     (case a of Arg_int n \<Rightarrow> Some (sint n) | Arg_uint n \<Rightarrow> Some (uint n) | Arg_long_long n \<Rightarrow> Some (sint n) | Arg_ulong_long n \<Rightarrow> Some (uint n)
      | _ \<Rightarrow> None)"

lemma sign_prefix_length: "length (sign_prefix b specs) \<le> 1"
  by (simp add: sign_prefix_def)

lemma int_writers_ok:
  "writer_ok (int_writer_signed32 n specs)" "writer_ok (int_writer_unsigned32 n specs)"
  "writer_ok (int_writer_signed64 m specs)" "writer_ok (int_writer_unsigned64 m specs)"
proof -
  have "unat (ucast k :: 64 word) < 2 ^ 32" for k :: "32 word" using unsigned_less [of k] by simp
  then show "writer_ok (int_writer_signed32 n specs)" "writer_ok (int_writer_unsigned32 n specs)"
    "writer_ok (int_writer_signed64 m specs)" "writer_ok (int_writer_unsigned64 m specs)"
    using sign_prefix_length by (simp_all add: writer_ok_def int_writer_signed32_def int_writer_unsigned32_def int_writer_signed64_def int_writer_unsigned64_def)
qed

text \<open>An integer argument goes to a writer of its absolute value and its sign.\<close>

lemma arg_formatter_integer:
  assumes "arg_integer a = Some v"
  obtains w where "\<And>env. arg_formatter env specs a = handle_int_type_spec env specs w" "writer_ok w" "unat (abs_value w) = nat \<bar>v\<bar>"
    "int_prefix w = sign_prefix (v < 0) specs"
proof (cases a)
  case (Arg_int n)
  then show ?thesis
    using that [of "int_writer_signed32 n specs"] assms int_writers_ok(1) [of n specs] signed32 [of n]
    by (simp add: arg_formatter_def arg_integer_def int_writer_signed32_def)
next
  case (Arg_uint n)
  then have v: "v = int (unat n)" using assms by (simp add: arg_integer_def)
  show ?thesis
    by (rule that [of "int_writer_unsigned32 n specs"])
      (use Arg_uint v int_writers_ok(2) [of n specs] in \<open>simp_all add: arg_formatter_def int_writer_unsigned32_def del: of_nat_unat\<close>)
next
  case (Arg_long_long n)
  then show ?thesis
    using that [of "int_writer_signed64 n specs"] assms int_writers_ok(3) [of n specs] signed64 [of n]
    by (simp add: arg_formatter_def arg_integer_def int_writer_signed64_def)
next
  case (Arg_ulong_long n)
  then have v: "v = int (unat n)" using assms by (simp add: arg_integer_def)
  show ?thesis
    by (rule that [of "int_writer_unsigned64 n specs"])
      (use Arg_ulong_long v int_writers_ok(4) [of n specs] in \<open>simp_all add: arg_formatter_def int_writer_unsigned64_def del: of_nat_unat\<close>)
qed (use assms in \<open>simp_all add: arg_integer_def\<close>)

text \<open>The grouped text: as long as counted, and without the separators it is the number.\<close>

lemma group_loop_filter: "sep \<notin> set ds \<Longrightarrow> filter (\<lambda>c. c \<noteq> sep) (group_loop sep groups i ds) = ds"
  by (induction sep groups i ds rule: group_loop.induct) (auto simp: filter_id_conv)

definition grouped_text :: "('d, 'c) format_env \<Rightarrow> int_writer \<Rightarrow> string" where
  "grouped_text env w =
     (let t = to_string_nat (unat (abs_value w)) in
      (if int_prefix w \<noteq> [] then ''-'' else []) @ hd t # rev (group_loop (thousands_sep env) (grouping env) 0 (rev (tl t))))"

lemma on_num_text:
  assumes "writer_ok w" and "grouping env \<noteq> []" "thousands_sep env \<noteq> CHR 0x00"
  shows "on_num env specs w = Inr (write_padded True specs (length (grouped_text env w)) (grouped_text env w))"
proof -
  let ?t = "to_string_nat (unat (abs_value w))" and ?sep = "thousands_sep env"
  let ?s = "(if int_prefix w \<noteq> [] then ''-'' else []) @ hd ?t # rev (group_loop ?sep (grouping env) 0 (rev (tl ?t)))"
  have w: "wide w \<or> unat (abs_value w) < 2 ^ 32" "length (int_prefix w) \<le> 1" using assms(1) by (simp_all add: writer_ok_def)
  have "hd ?t # tl ?t = ?t" by simp
  then have "length ?t = Suc (length (rev (tl ?t)))" by (metis length_Cons length_rev)
  then have "int (length ?s) = grouped_size (grouping env) (length ?t) + int (length (int_prefix w))"
    using grouped_size_correct [OF assms(2), of ?sep "rev (tl ?t)"] w(2) by (cases "int_prefix w") simp_all
  then show ?thesis
    using assms(2,3) decimal_text_correct [OF w(1)] int_num_digits_correct [OF w(1)] by (simp add: on_num_def grouped_text_def Let_def)
qed

lemma grouped_text_digits:
  assumes "thousands_sep env \<notin> set (CHR ''-'' # to_string_nat (unat (abs_value w)))"
  shows "filter (\<lambda>c. c \<noteq> thousands_sep env) (grouped_text env w) = (if int_prefix w \<noteq> [] then ''-'' else []) @ to_string_nat (unat (abs_value w))"
proof -
  let ?t = "to_string_nat (unat (abs_value w))" and ?sep = "thousands_sep env"
  have t: "hd ?t # tl ?t = ?t" by simp
  then have "?sep \<notin> set (rev (tl ?t))" using assms by (metis set_rev list.set_intros(2))
  from group_loop_filter [OF this] have "filter (\<lambda>c. c \<noteq> ?sep) (rev (group_loop ?sep (grouping env) 0 (rev (tl ?t)))) = tl ?t"
    by (simp add: rev_filter [symmetric])
  moreover have "hd ?t \<noteq> ?sep" using assms hd_in_set [of ?t] to_string_nat_ne by (metis list.set_intros(2))
  ultimately show ?thesis using t assms by (auto simp: grouped_text_def Let_def)
qed

text \<open>Nothing but a \<^verbatim>\<open>format_error\<close> comes out of the output functions.\<close>

lemma handle_int_type_spec_ok:
  assumes "writer_ok w"
  shows "fmt_ok (handle_int_type_spec env specs w) (\<lambda>r. True)"
proof -
  have w: "wide w \<or> unat (abs_value w) < 2 ^ 32" using assms by (simp add: writer_ok_def)
  have d: "fmt_ok (on_dec specs w) (\<lambda>r. True)" using decimal_text_correct [OF w] by (simp add: on_dec_def Let_def)
  have "fmt_ok (on_num env specs w) (\<lambda>r. True)"
  proof (cases "grouping env = [] \<or> thousands_sep env = CHR 0x00")
    case True
    then show ?thesis using d by (simp add: on_num_def)
  next
    case False
    then show ?thesis using on_num_text [OF assms, of env specs] by simp
  qed
  with d show ?thesis by (simp add: handle_int_type_spec_def Let_def)
qed

definition format_env_ok :: "('d, 'c) format_env \<Rightarrow> bool" where
  "format_env_ok env \<longleftrightarrow> (\<forall>d specs. fmt_ok (float_text env d specs) (\<lambda>r. True)) \<and> (\<forall>c s k. fmt_ok (custom_format env c s k) (\<lambda>r. True))"

lemma default_arg_formatter_ok: "format_env_ok env \<Longrightarrow> fmt_ok (default_arg_formatter env a) (\<lambda>r. True)"
  by (cases a) (simp_all add: default_arg_formatter_def write_integral_text format_env_ok_def case_prod_unfold split: option.split)

lemma arg_formatter_ok: "format_env_ok env \<Longrightarrow> (\<forall>c. a \<noteq> Arg_custom c) \<Longrightarrow> fmt_ok (arg_formatter env specs a) (\<lambda>r. True)"
  by (cases a) (simp_all add: arg_formatter_def handle_int_type_spec_ok int_writers_ok handle_char_specs_def handle_cstring_type_spec_def format_env_ok_def
      split: option.split)

section \<open>Properties\<close>

text \<open>
  The field of an integer, of 32 or 64 bits and signed or not, in any of the bases: the sign, the prefix of the base, the zeros that the zero flag or a precision asks for,
  and exactly the digits of its absolute value, the least negative number included, with padding up to the width on the side or the sides that the alignment says.
\<close>

theorem integer_field:
  assumes "spec_width specs < 2 ^ 31" and "arg_integer a = Some v" and "spec_digits (spec_type specs) (nat \<bar>v\<bar>) = Some ds"
  shows "\<exists>field. arg_formatter env specs a = Inr field \<and> int_field specs (sign_prefix (v < 0) specs @ base_prefix specs (nat \<bar>v\<bar>) ds) ds field"
proof -
  obtain w where w: "\<And>env. arg_formatter env specs a = handle_int_type_spec env specs w" "writer_ok w" "unat (abs_value w) = nat \<bar>v\<bar>"
    "int_prefix w = sign_prefix (v < 0) specs"
    by (rule arg_formatter_integer [OF assms(2)]) blast
  show ?thesis using int_writer_field [OF assms(1) w(2), of ds env] assms(3) w by simp
qed

theorem integer_field_witness:
  "\<forall>env :: (unit, unit) format_env. \<exists>field. arg_formatter env (default_specs\<lparr>spec_width := 8, spec_type := CHR ''x'', align := align_center, alt := True\<rparr>) (Arg_int (- 255)) =
     Inr field \<and> int_field (default_specs\<lparr>spec_width := 8, spec_type := CHR ''x'', align := align_center, alt := True\<rparr>) ''-0x'' ''ff'' field"
proof -
  let ?specs = "default_specs\<lparr>spec_width := 8, spec_type := CHR ''x'', align := align_center, alt := True\<rparr>"
  have "radix_text 4 False 255 = ''ff''" by code_simp
  then have "spec_digits (spec_type ?specs) (nat \<bar>- 255\<bar>) = Some ''ff''" by (simp add: spec_digits_def no_type_def)
  moreover have "arg_integer (Arg_int (- 255) :: (unit, unit) fmt_arg) = Some (- 255)" by (simp add: arg_integer_def)
  ultimately show ?thesis
    using integer_field [of ?specs "Arg_int (- 255) :: (unit, unit) fmt_arg" "- 255" "''ff''"] by (simp add: default_specs_def sign_prefix_def base_prefix_def)
qed

text \<open>With the digit grouping of a locale the sign \<^verbatim>\<open>+\<close> is printed as \<^verbatim>\<open>-\<close>.\<close>

theorem grouping_turns_plus_into_minus:
  "arg_formatter (env\<lparr>grouping := [3], thousands_sep := CHR '',''\<rparr> :: (unit, unit) format_env) (default_specs\<lparr>sign := sign_plus, spec_type := CHR ''L''\<rparr>) (Arg_int 1234) =
     Inr ''-1,234''"
proof -
  let ?w = "int_writer_signed32 1234 (default_specs\<lparr>sign := sign_plus, spec_type := CHR ''L''\<rparr>)"
  have c: "char_of (49 :: nat) = CHR ''1''" "char_of (50 :: nat) = CHR ''2''" "char_of (51 :: nat) = CHR ''3''" "char_of (52 :: nat) = CHR ''4''" by code_simp+
  have w: "?w = \<lparr>wide = False, abs_value = 1234, int_prefix = ''+''\<rparr>"
    by (simp add: int_writer_signed32_def sign_prefix_def default_specs_def word_sless_alt)
  have t: "to_string_nat 1234 = ''1234''" by (simp add: to_string_nat.simps c)
  have "decimal_text False 1234 (int_num_digits False 1234) = Inr ''1234''" "int_num_digits False 1234 = 4"
    using decimal_text_correct [of False 1234] int_num_digits_correct [of False 1234] t by simp_all
  moreover have "arg_formatter env1 (default_specs\<lparr>sign := sign_plus, spec_type := CHR ''L''\<rparr>) (Arg_int 1234) =
      handle_int_type_spec env1 (default_specs\<lparr>sign := sign_plus, spec_type := CHR ''L''\<rparr>) ?w" for env1 :: "(unit, unit) format_env"
    by (simp add: arg_formatter_def)
  ultimately show ?thesis
    unfolding w by (simp add: handle_int_type_spec_def no_type_def on_num_def grouped_size_def write_padded_def default_specs_def Let_def)
qed

end
