(* ===== verification/Fmt_Format.thy ===== *)
theory Fmt_Format
  imports Fmt_Write
begin

text \<open>
  Model of the formatting of a whole format string by fmt (\<^verbatim>\<open>spdlog/fmt/bundled/format.h\<close>): replacement fields, the loop for short
  format strings, the one with \<^verbatim>\<open>memchr\<close> for long ones, and the shortcut for a single field.  The state is the output so
  far and the argument counter.  The lemmas show that the three ways agree, what a format string without specifiers gives, and that nothing
  but a \<^verbatim>\<open>format_error\<close> comes out of a bad format string.
\<close>

section \<open>Replacement fields\<close>

definition on_replacement_field :: "('d, 'c) format_env \<Rightarrow> ('d, 'c) fmt_args \<Rightarrow> nat \<Rightarrow> string result" where
  "on_replacement_field env args i = rbind (get_arg args i) (default_arg_formatter env)"

text \<open>
  The text of the field, the counter and the rest of the format string, which is to start with the closing brace.  A letter alone is taken as the type
  without the checks of the parser.
\<close>

definition field_specs :: "('d, 'c) fmt_args \<Rightarrow> ('d, 'c) fmt_arg \<Rightarrow> string \<Rightarrow> int \<Rightarrow> (format_specs \<times> int \<times> string) result" where
  "field_specs args a s next =
     (if 1 < length s \<and> s ! 1 = CHR ''}'' \<and> is_ascii_letter (hd s) then Inr (default_specs\<lparr>spec_type := hd s\<rparr>, next, tl s)
      else rbind (parse_format_specs args a s default_specs next) (\<lambda>(specs, next1, r).
        if r = [] \<or> hd r \<noteq> CHR ''}'' then throw_fmt (''missing '' @ [CHR 0x27, CHR ''}'', CHR 0x27] @ '' in format string'')
        else Inr (specs, next1, r)))"

definition format_field :: "('d, 'c) format_env \<Rightarrow> ('d, 'c) fmt_args \<Rightarrow> ('d, 'c) fmt_arg \<Rightarrow> string \<Rightarrow> int \<Rightarrow> (string \<times> int \<times> string) result" where
  "format_field env args a s next =
     rbind (field_specs args a s next) (\<lambda>(specs, next1, r). rbind (arg_formatter env specs a) (\<lambda>txt. Inr (txt, next1, r)))"

definition on_format_specs :: "('d, 'c) format_env \<Rightarrow> ('d, 'c) fmt_args \<Rightarrow> nat \<Rightarrow> string \<Rightarrow> int \<Rightarrow> (string \<times> int \<times> string) result" where
  "on_format_specs env args i s next =
     rbind (get_arg args i) (\<lambda>a.
       case a of
         Arg_custom c \<Rightarrow> rbind (custom_format env c s next) (\<lambda>(txt, k, next1). Inr (txt, next1, drop k s))
       | _ \<Rightarrow> format_field env args a s next)"

text \<open>The rest of a field after its argument id.\<close>

definition after_arg_id :: "('d, 'c) format_env \<Rightarrow> ('d, 'c) fmt_args \<Rightarrow> nat \<Rightarrow> string \<Rightarrow> int \<Rightarrow> (string \<times> int \<times> string) result" where
  "after_arg_id env args i s next =
     (let c = (if s \<noteq> [] then hd s else no_type) in
      if c = CHR ''}'' then rbind (on_replacement_field env args i) (\<lambda>txt. Inr (txt, next, tl s))
      else if c = CHR '':'' then
        rbind (on_format_specs env args i (tl s) next) (\<lambda>(txt, next1, r).
          if r = [] \<or> hd r \<noteq> CHR ''}'' then throw_fmt ''unknown format specifier'' else Inr (txt, next1, tl r))
      else throw_fmt (''missing '' @ [CHR 0x27, CHR ''}'', CHR 0x27] @ '' in format string''))"

text \<open>The range starts at the opening brace; the rest is what follows the closing one.\<close>

definition parse_replacement_field :: "('d, 'c) format_env \<Rightarrow> ('d, 'c) fmt_args \<Rightarrow> string \<Rightarrow> int \<Rightarrow> (string \<times> int \<times> string) result" where
  "parse_replacement_field env args s0 next =
     (let s = tl s0 in
      if s = [] then throw_fmt ''invalid format string''
      else if hd s = CHR ''}'' then
        rbind (next_arg_id next) (\<lambda>(i, next1). rbind (on_replacement_field env args i) (\<lambda>txt. Inr (txt, next1, tl s)))
      else if hd s = CHR ''{'' then Inr (''{'', next, tl s)
      else
        rbind (parse_arg_id s) (\<lambda>(ref, r). rbind (on_arg_id args ref next) (\<lambda>(i, next1).
          after_arg_id env args i r next1)))"

text \<open>A field takes characters: the loops end.\<close>

lemma suffix_length: "suffix r s \<Longrightarrow> length r \<le> length s"
  by (auto simp: suffix_def)

text \<open>\<open>returns m Q\<close> says less than \<open>fmt_ok\<close>: if there is a result, it has the property.\<close>

definition returns :: "'a result \<Rightarrow> ('a \<Rightarrow> bool) \<Rightarrow> bool" where
  "returns m Q \<longleftrightarrow> (\<forall>x. m = Inr x \<longrightarrow> Q x)"

lemma returns_Inr [simp]: "returns (Inr x) Q \<longleftrightarrow> Q x"
  by (simp add: returns_def)

lemma returns_throw [simp]: "returns (throw_fmt what) Q"
  by (simp add: returns_def throw_fmt_def)

lemma returns_rbind [simp]: "returns (rbind m f) Q \<longleftrightarrow> returns m (\<lambda>x. returns (f x) Q)"
  by (cases m) (simp_all add: returns_def)

lemma returns_True [simp]: "returns m (\<lambda>x. True)"
  by (simp add: returns_def)

lemma returns_trivial: "(\<And>x. Q x) \<Longrightarrow> returns m Q"
  by (simp add: returns_def)

lemma fmt_ok_returns: "fmt_ok m P \<Longrightarrow> (\<And>x. P x \<Longrightarrow> Q x) \<Longrightarrow> returns m Q"
  by (simp add: fmt_ok_def returns_def split: sum.splits)

lemma field_specs_ok: "fmt_ok (field_specs args a s next) (specs_in s)"
  unfolding field_specs_def by (auto intro!: fmt_ok_mono [OF parse_format_specs_ok] simp: default_specs_def)

lemma format_field_rest: "returns (format_field env args a s next) (\<lambda>(txt, k, r). suffix r s)"
  unfolding format_field_def returns_rbind by (rule fmt_ok_returns [OF field_specs_ok]) auto

lemma on_format_specs_rest: "returns (on_format_specs env args i s next) (\<lambda>(txt, k, r). suffix r s)"
proof -
  have "returns (case a of Arg_custom c \<Rightarrow> rbind (custom_format env c s next) (\<lambda>(txt, k, next1). Inr (txt, next1, drop k s))
      | _ \<Rightarrow> format_field env args a s next) (\<lambda>(txt, k, r). suffix r s)" for a
    using format_field_rest [of env args _ s "next"] by (cases a) (auto simp: suffix_drop case_prod_unfold)
  then show ?thesis unfolding on_format_specs_def returns_rbind by (rule returns_trivial)
qed

lemma suffix_tl_mono: "suffix t s \<Longrightarrow> suffix (tl t) (tl s)"
proof (cases "t = s \<or> s = []")
  case False
  then show "suffix t s \<Longrightarrow> suffix (tl t) (tl s)" by (cases s) (auto simp: suffix_Cons)
qed auto

lemma parse_replacement_field_returns:
  assumes "s \<noteq> []"
  shows "returns (parse_replacement_field env args (c # s) next) (\<lambda>(txt, k, r). suffix r (tl s))"
proof -
  have "returns (on_format_specs env args i (tl t) k) (\<lambda>(txt, k, r). suffix (tl r) (tl s))" if "suffix t s" for i k t
  proof -
    from suffix_tl_mono [OF that] show ?thesis using on_format_specs_rest [of env args i "tl t" k] by (auto simp: returns_def intro: suffix_order.trans)
  qed
  then have f: "returns (after_arg_id env args i t k) (\<lambda>(txt, k, r). suffix r (tl s))" if "suffix t s" for i k t
    using that suffix_tl_mono [OF that] by (auto simp: after_arg_id_def Let_def no_type_def returns_def rbind_eq_Inr throw_fmt_def split: if_splits)
  have "returns (on_arg_id args ref next) (\<lambda>x. returns (case x of (i, k) \<Rightarrow> after_arg_id env args i t k) (\<lambda>(txt, k, r). suffix r (tl s)))"
    if "suffix t s" for ref t by (rule returns_trivial) (use f [OF that] in \<open>auto split: prod.split\<close>)
  then show ?thesis
    unfolding parse_replacement_field_def Let_def using assms
    by (auto intro!: fmt_ok_returns [OF parse_arg_id_ok] simp: case_prod_unfold)
qed

lemma parse_replacement_field_rest:
  assumes "parse_replacement_field env args (c # s) next = Inr (txt, k, r)"
  shows "length r < length s"
proof -
  have "s \<noteq> []" using assms by (auto simp: parse_replacement_field_def throw_fmt_def)
  then show ?thesis
    using parse_replacement_field_returns [of s env args c "next"] assms suffix_length [of r "tl s"] by (cases s) (auto simp: returns_def)
qed

section \<open>Format strings\<close>

text \<open>The simple loop: the output, the text since the last field or double brace, the rest and the argument counter.\<close>

function simple_loop :: "('d, 'c) format_env \<Rightarrow> ('d, 'c) fmt_args \<Rightarrow> string \<Rightarrow> string \<Rightarrow> string \<Rightarrow> int \<Rightarrow> string result" where
  "simple_loop env args out txt [] next = Inr (out @ txt)"
| "simple_loop env args out txt (c # s) next =
     (if c = CHR ''{'' then
        (case parse_replacement_field env args (c # s) next of
           Inl e \<Rightarrow> Inl e
         | Inr (field, next1, r) \<Rightarrow> simple_loop env args (out @ txt @ field) [] r next1)
      else if c = CHR ''}'' then
        (if s = [] \<or> hd s \<noteq> CHR ''}'' then throw_fmt (''unmatched '' @ [CHR 0x27, CHR ''}'', CHR 0x27] @ '' in format string'')
         else simple_loop env args (out @ txt @ [c]) [] (tl s) next)
      else simple_loop env args out (txt @ [c]) s next)"
  by pat_completeness auto
termination
  by (relation "measure (\<lambda>(env, args, out, txt, s, next). length s)")
    (auto dest!: parse_replacement_field_rest)

text \<open>The \<^verbatim>\<open>writer\<close> of literal text for long format strings: \<^verbatim>\<open>find\<close> looks for a closing brace.\<close>

function writer_loop :: "string \<Rightarrow> string \<Rightarrow> string result" where
  "writer_loop out s =
     (case dropWhile (\<lambda>c. c \<noteq> CHR ''}'') s of
        [] \<Rightarrow> Inr (out @ s)
      | c # r \<Rightarrow>
          if r = [] \<or> hd r \<noteq> CHR ''}'' then throw_fmt (''unmatched '' @ [CHR 0x27, CHR ''}'', CHR 0x27] @ '' in format string'')
          else writer_loop (out @ takeWhile (\<lambda>c. c \<noteq> CHR ''}'') s @ ''}'') (tl r))"
  by auto
termination
proof (relation "measure (\<lambda>(out, s). length s)")
  fix s r :: string and c
  assume "dropWhile (\<lambda>c. c \<noteq> CHR ''}'') s = c # r"
  then have "length (c # r) \<le> length s" by (metis length_dropWhile_le)
  then show "((out @ takeWhile (\<lambda>c. c \<noteq> CHR ''}'') s @ ''}'', tl r), out, s) \<in> measure (\<lambda>(out, s). length s)" for out by simp
qed simp

declare writer_loop.simps [simp del]

definition write_text :: "string \<Rightarrow> string \<Rightarrow> string result" where
  "write_text out s = (if s = [] then Inr out else writer_loop out s)"

text \<open>The loop for long format strings: literal text up to the next opening brace, then the field.\<close>

definition literal_end :: "string \<Rightarrow> nat" where
  "literal_end s = (if hd s = CHR ''{'' then 0 else Suc (length (takeWhile (\<lambda>c. c \<noteq> CHR ''{'') (tl s))))"

function long_loop :: "('d, 'c) format_env \<Rightarrow> ('d, 'c) fmt_args \<Rightarrow> string \<Rightarrow> string \<Rightarrow> int \<Rightarrow> string result" where
  "long_loop env args out s next =
     (if s = [] then Inr out
      else if length s \<le> literal_end s then write_text out s
      else
        (case write_text out (take (literal_end s) s) of
           Inl e \<Rightarrow> Inl e
         | Inr out1 \<Rightarrow>
             (case parse_replacement_field env args (drop (literal_end s) s) next of
                Inl e \<Rightarrow> Inl e
              | Inr (field, next1, r) \<Rightarrow> long_loop env args (out1 @ field) r next1)))"
  by pat_completeness auto
termination
proof (relation "measure (\<lambda>(env, args, out, s, next). length s)")
  fix env :: "('d, 'c) format_env" and args s k out out1 x y field k1 r
  assume "\<not> length s \<le> literal_end s" and p: "parse_replacement_field env args (drop (literal_end s) s) k = Inr x" "(field, y) = x" "(k1, r) = y"
  then obtain c t where "drop (literal_end s) s = c # t" by (cases "drop (literal_end s) s") auto
  moreover from this have "length t < length s" by (metis Suc_le_eq length_Cons length_drop diff_le_self)
  moreover have "length r < length t" using parse_replacement_field_rest [of env args c t k field k1 r] p calculation(1) by auto
  ultimately show "((env, args, out1 @ field, r, k1), env, args, out, s, k) \<in> measure (\<lambda>(env, args, out, s, next). length s)" by simp
qed simp

declare long_loop.simps [simp del]

definition parse_format_string :: "('d, 'c) format_env \<Rightarrow> ('d, 'c) fmt_args \<Rightarrow> string \<Rightarrow> string result" where
  "parse_format_string env args s = (if length s < 32 then simple_loop env args [] [] s 0 else long_loop env args [] s 0)"

definition vformat_to :: "('d, 'c) format_env \<Rightarrow> ('d, 'c) fmt_args \<Rightarrow> string \<Rightarrow> string result" where
  "vformat_to env args s =
     (if s = ''{}'' then (case args_get args 0 of None \<Rightarrow> throw_fmt ''argument not found'' | Some a \<Rightarrow> default_arg_formatter env a)
      else parse_format_string env args s)"

section \<open>The loops agree\<close>

lemma simple_loop_pending:
  "out @ pend = out1 @ pend1 \<Longrightarrow> simple_loop env args out pend s k = simple_loop env args out1 pend1 s k"
proof (induction env args out pend s k arbitrary: out1 pend1 rule: simple_loop.induct)
  case (2 env args out pend c s k)
  have e: "out @ pend @ t = out1 @ pend1 @ t" for t using 2(4) by (metis append.assoc)
  show ?case
  proof (cases "c = CHR ''{'' \<or> c = CHR ''}''")
    case True
    then show ?thesis unfolding simple_loop.simps e by auto
  next
    case False
    then show ?thesis using 2(3) [of out1 "pend1 @ [c]"] e by simp
  qed
qed simp

lemma simple_loop_plain:
  "set u \<inter> {CHR ''{'', CHR ''}''} = {} \<Longrightarrow> simple_loop env args out [] (u @ s) k = simple_loop env args (out @ u) [] s k"
proof -
  have "simple_loop env args out pend (u @ s) k = simple_loop env args out (pend @ u) s k" if "set u \<inter> {CHR ''{'', CHR ''}''} = {}" for pend
    using that by (induction u arbitrary: pend) auto
  from this [of "[]"] show "set u \<inter> {CHR ''{'', CHR ''}''} = {} \<Longrightarrow> ?thesis"
    using simple_loop_pending [of out u "out @ u" "[]" env args s k] by simp
qed

lemma writer_loop_simple:
  assumes "CHR ''{'' \<notin> set s" and "t = [] \<or> hd t = CHR ''{''"
  shows "simple_loop env args out [] (s @ t) k = rbind (writer_loop out s) (\<lambda>out1. simple_loop env args out1 [] t k)"
  using assms(1)
proof (induction out s rule: writer_loop.induct)
  case (1 out s)
  let ?u = "takeWhile (\<lambda>c. c \<noteq> CHR ''}'') s"
  have s: "s = ?u @ dropWhile (\<lambda>c. c \<noteq> CHR ''}'') s" by simp
  have u: "set ?u \<inter> {CHR ''{'', CHR ''}''} = {}" using 1(2) by (auto dest: set_takeWhileD)
  show ?case
  proof (cases "dropWhile (\<lambda>c. c \<noteq> CHR ''}'') s")
    case Nil
    then have "?u = s" using s by (metis append_Nil2)
    moreover have "writer_loop out s = Inr (out @ s)" by (simp only: writer_loop.simps [of out s] Nil list.case)
    ultimately show ?thesis using simple_loop_plain [OF u, of env args out t k] by (simp only: rbind_Inr)
  next
    case (Cons c r)
    then have c: "c = CHR ''}''" using hd_dropWhile [of "\<lambda>c. c \<noteq> CHR ''}''" s] by (simp del: dropWhile_eq_Cons_conv)
    have "s = ?u @ c # r" using s unfolding Cons .
    then have st: "s @ t = ?u @ c # r @ t" using append_assoc [of ?u "c # r" t] by simp
    have l: "simple_loop env args out [] (s @ t) k = simple_loop env args (out @ ?u) [] (c # r @ t) k"
      unfolding st by (rule simple_loop_plain [OF u])
    show ?thesis
    proof (cases "r = [] \<or> hd r \<noteq> CHR ''}''")
      case True
      then have "r @ t = [] \<or> hd (r @ t) \<noteq> CHR ''}''" using assms(2) by (cases r) auto
      then show ?thesis using True Cons l c by (simp add: writer_loop.simps [of out s] throw_fmt_def)
    next
      case False
      then have "r @ t \<noteq> []" "hd (r @ t) = CHR ''}''" "tl (r @ t) = tl r @ t" by (cases r; simp)+
      moreover have "CHR ''{'' \<notin> set (tl r)" using 1(2) Cons False by (metis list.set_sel(2) set_dropWhileD set_ConsD list.set_intros(2))
      ultimately show ?thesis using 1(1) [OF Cons] False l c Cons by (simp add: writer_loop.simps [of out s])
    qed
  qed
qed

lemma write_text_writer: "write_text out s = writer_loop out s"
  by (simp add: write_text_def writer_loop.simps)

lemma long_loop_simple: "long_loop env args out s k = simple_loop env args out [] s k"
proof (induction env args out s k rule: long_loop.induct)
  case (1 env args out s k)
  let ?e = "literal_end s"
  show ?case
  proof (cases "s = []")
    case False
    then obtain c s1 where s: "s = c # s1" by (cases s) auto
    have lit: "CHR ''{'' \<notin> set (take ?e s)"
      using s by (auto simp: literal_end_def takeWhile_eq_take [symmetric] dest: set_takeWhileD)
    have t: "drop ?e s = [] \<or> hd (drop ?e s) = CHR ''{''"
      using s hd_dropWhile [of "\<lambda>c. c \<noteq> CHR ''{''" s1] by (auto simp: literal_end_def dropWhile_eq_drop)
    note w = writer_loop_simple [OF lit t, of env args out k, unfolded append_take_drop_id]
    show ?thesis
    proof (cases "length s \<le> ?e")
      case True
      then show ?thesis using w False by (simp add: long_loop.simps [of env args out s] write_text_writer)
    next
      case l: False
      then obtain d where d: "drop ?e s = CHR ''{'' # d" using t by (cases "drop ?e s") auto
      show ?thesis
        using 1 [OF False l] w d l False by (auto simp: long_loop.simps [of env args out s] write_text_writer rbind_def split: sum.split prod.split)
    qed
  qed (simp add: long_loop.simps)
qed

section \<open>Errors\<close>

lemma format_field_ok: "format_env_ok env \<Longrightarrow> (\<forall>c. a \<noteq> Arg_custom c) \<Longrightarrow> fmt_ok (format_field env args a s k) (\<lambda>r. True)"
  unfolding format_field_def fmt_ok_rbind by (rule fmt_ok_mono [OF field_specs_ok]) (auto simp: arg_formatter_ok)

lemma on_format_specs_ok: "format_env_ok env \<Longrightarrow> fmt_ok (on_format_specs env args i s k) (\<lambda>r. True)"
proof -
  assume env: "format_env_ok env"
  have "fmt_ok (case a of Arg_custom c \<Rightarrow> rbind (custom_format env c s k) (\<lambda>(t, n, k1). Inr (t, k1, drop n s)) | _ \<Rightarrow> format_field env args a s k)
      (\<lambda>r. True)" for a
    using env by (cases a) (simp_all add: format_field_ok case_prod_unfold, simp add: format_env_ok_def)
  then show "fmt_ok (on_format_specs env args i s k) (\<lambda>r. True)"
    unfolding on_format_specs_def fmt_ok_rbind by (intro fmt_ok_mono [OF get_arg_ok])
qed

lemma on_replacement_field_ok: "format_env_ok env \<Longrightarrow> fmt_ok (on_replacement_field env args i) (\<lambda>r. True)"
  unfolding on_replacement_field_def fmt_ok_rbind by (intro fmt_ok_mono [OF get_arg_ok] default_arg_formatter_ok)

lemma after_arg_id_ok: "format_env_ok env \<Longrightarrow> fmt_ok (after_arg_id env args i s k) (\<lambda>r. True)"
  using on_format_specs_ok [of env args i "tl s" k] on_replacement_field_ok [of env args i] by (auto simp: after_arg_id_def Let_def case_prod_unfold)

lemma parse_replacement_field_ok:
  assumes "format_env_ok env"
  shows "fmt_ok (parse_replacement_field env args s k) (\<lambda>r. True)"
proof -
  have a: "fmt_ok (on_arg_id args ref k) (\<lambda>x. fmt_ok (case x of (i, k1) \<Rightarrow> after_arg_id env args i t k1) (\<lambda>r. True))" for ref t
    by (rule fmt_ok_mono [OF on_arg_id_ok]) (simp add: after_arg_id_ok assms split: prod.split)
  have "fmt_ok (parse_arg_id (tl s)) (\<lambda>x. fmt_ok (case x of (ref, t) \<Rightarrow> rbind (on_arg_id args ref k) (\<lambda>(i, k1). after_arg_id env args i t k1)) (\<lambda>r. True))"
    if "tl s \<noteq> []" by (rule fmt_ok_mono [OF parse_arg_id_ok [OF that]]) (simp add: a split: prod.split)
  then show ?thesis
    using on_replacement_field_ok [OF assms] by (auto simp: parse_replacement_field_def Let_def next_arg_id_def)
qed

lemma simple_loop_ok: "format_env_ok env \<Longrightarrow> fmt_ok (simple_loop env args out pend s k) (\<lambda>r. True)"
proof (induction env args out pend s k rule: simple_loop.induct)
  case (2 env args out pend c s k)
  have f: "fmt_ok (parse_replacement_field env args (c # s) k) (\<lambda>r. True)" using 2(4) by (rule parse_replacement_field_ok)
  show ?case
  proof (cases "c = CHR ''{''")
    case True
    show ?thesis
    proof (cases "parse_replacement_field env args (c # s) k")
      case (Inl e)
      then show ?thesis using f True by (simp add: fmt_ok_def)
    next
      case (Inr x)
      then show ?thesis using 2(1) [OF True Inr] 2(4) True by (cases x) simp
    qed
  next
    case False
    then show ?thesis using 2 by simp
  qed
qed simp

section \<open>Format strings without specifiers\<close>

datatype piece = Lit string | Field

definition escape_brace :: "char \<Rightarrow> string" where
  "escape_brace c = (if c = CHR ''{'' \<or> c = CHR ''}'' then [c, c] else [c])"

fun format_string_of :: "piece list \<Rightarrow> string" where
  "format_string_of [] = []"
| "format_string_of (Lit s # ps) = concat (map escape_brace s) @ format_string_of ps"
| "format_string_of (Field # ps) = ''{}'' @ format_string_of ps"

fun render :: "piece list \<Rightarrow> string list \<Rightarrow> string" where
  "render [] ts = []"
| "render (Lit s # ps) ts = s @ render ps ts"
| "render (Field # ps) [] = []"
| "render (Field # ps) (t # ts) = t @ render ps ts"

definition field_count :: "piece list \<Rightarrow> nat" where
  "field_count ps = length (filter (\<lambda>p. p = Field) ps)"

lemma field_count_simps [simp]: "field_count [] = 0" "field_count (Lit s # ps) = field_count ps" "field_count (Field # ps) = Suc (field_count ps)"
  by (simp_all add: field_count_def)

lemma simple_loop_escaped: "simple_loop env args out [] (concat (map escape_brace s) @ t) k = simple_loop env args (out @ s) [] t k"
proof (induction s arbitrary: out)
  case (Cons c s)
  show ?case
  proof (cases "c = CHR ''{'' \<or> c = CHR ''}''")
    case True
    then show ?thesis using Cons [of "out @ [c]"] by (auto simp: escape_brace_def parse_replacement_field_def)
  next
    case False
    then have "escape_brace c = [c]" by (simp add: escape_brace_def)
    then show ?thesis
      using False Cons [of "out @ [c]"] simple_loop_plain [of "[c]" env args out "concat (map escape_brace s) @ t" k] by simp
  qed
qed simp

lemma simple_loop_field:
  assumes "k < length (arg_values args)" and "default_arg_formatter env (arg_values args ! k) = Inr t"
  shows "simple_loop env args out [] (''{}'' @ s) (int k) = simple_loop env args (out @ t) [] s (int (Suc k))"
  using assms by (simp add: parse_replacement_field_def next_arg_id_def on_replacement_field_def get_arg_def args_get_def add.commute)

lemma simple_loop_template:
  assumes "list_all2 (\<lambda>a t. default_arg_formatter env a = Inr t) (arg_values args) texts"
  shows "k + field_count ps \<le> length texts \<Longrightarrow>
    simple_loop env args out [] (format_string_of ps) (int k) = Inr (out @ render ps (drop k texts))"
proof (induction ps arbitrary: out k)
  case (Cons p ps)
  show ?case
  proof (cases p)
    case (Lit s)
    then show ?thesis using Cons.IH [of k "out @ s"] Cons.prems by (simp add: simple_loop_escaped)
  next
    case Field
    then have k: "k < length texts" using Cons.prems by simp
    then have "default_arg_formatter env (arg_values args ! k) = Inr (texts ! k)" "k < length (arg_values args)"
      using assms by (auto simp: list_all2_conv_all_nth)
    note f = simple_loop_field [OF this(2,1), of out "format_string_of ps"]
    have "drop k texts = texts ! k # drop (Suc k) texts" using k by (simp add: Cons_nth_drop_Suc)
    then show ?thesis using f Cons.IH [of "Suc k" "out @ texts ! k"] Cons.prems Field by (simp del: simple_loop.simps)
  qed
qed simp

lemma vformat_to_simple: "vformat_to env args s = simple_loop env args [] [] s 0"
proof (cases "s = ''{}''")
  case True
  note defs = vformat_to_def parse_replacement_field_def next_arg_id_def on_replacement_field_def get_arg_def throw_fmt_def
  show ?thesis
  proof (cases "args_get args 0")
    case None
    then show ?thesis using True by (simp add: defs)
  next
    case (Some a)
    then show ?thesis using True by (cases "default_arg_formatter env a") (simp_all add: defs)
  qed
next
  case False
  then show ?thesis by (simp add: vformat_to_def parse_format_string_def long_loop_simple)
qed

section \<open>Properties\<close>

text \<open>
  The three ways to format agree.  The shortcut for a single field, the loop for short format strings and the loop with two passes of \<^verbatim>\<open>memchr\<close> for long
  ones give the same text and the same error for every format string: each gives what the simple loop gives.
\<close>

theorem format_paths_agree:
  "vformat_to env args s = simple_loop env args [] [] s 0 \<and> long_loop env args [] s 0 = simple_loop env args [] [] s 0 \<and>
   vformat_to env args s = parse_format_string env args s"
  by (simp add: vformat_to_simple long_loop_simple parse_format_string_def)

text \<open>
  A bad format string is a \<^verbatim>\<open>format_error\<close> and nothing worse.  For every format string and every list of arguments, with or without digit grouping,
  the result is a text or a \<^verbatim>\<open>format_error\<close>: no assertion of the parsers fails, nothing is read outside of the format string, and the buffer for grouped
  digits has the right size.  This asks of the formatters of floating-point numbers and of user-defined types no more than the same.
\<close>

theorem format_errors_only:
  assumes "format_env_ok env"
  shows "(\<exists>t. vformat_to env args s = Inr t) \<or> (\<exists>what. vformat_to env args s = Inl (Thrown what))"
  using simple_loop_ok [OF assms, of args "[]" "[]" s 0] by (cases "vformat_to env args s") (auto simp: vformat_to_simple fmt_ok_def)

definition plain_format_env :: "(unit, unit) format_env" where
  "plain_format_env = \<lparr>float_text = \<lambda>d specs. throw_fmt ''no number'', custom_format = \<lambda>c s k. Inr (''c'', 0, k), grouping = [], thousands_sep = CHR '',''\<rparr>"

theorem format_errors_only_witness:
  "(\<exists>t. vformat_to plain_format_env \<lparr>arg_values = [Arg_bool True], arg_names = []\<rparr> ''{:>999999999999}'' = Inr t) \<or>
   (\<exists>what. vformat_to plain_format_env \<lparr>arg_values = [Arg_bool True], arg_names = []\<rparr> ''{:>999999999999}'' = Inl (Thrown what))"
  by (rule format_errors_only) (simp add: format_env_ok_def plain_format_env_def)

text \<open>
  A format string without specifiers gives the texts of its arguments in order.  Any text with its braces doubled stands for itself, every \<^verbatim>\<open>{}\<close> for the
  next argument; an integer gives its decimal number, a string itself.
\<close>

theorem format_template:
  assumes "list_all2 (\<lambda>a t. default_arg_formatter env a = Inr t) (arg_values args) texts" and "field_count ps \<le> length texts"
  shows "vformat_to env args (format_string_of ps) = Inr (render ps texts) \<and>
    default_arg_formatter env (Arg_int i) = Inr (to_string_int (sint i)) \<and> default_arg_formatter env (Arg_ulong_long n) = Inr (to_string_nat (unat n)) \<and>
    default_arg_formatter env (Arg_string str) = Inr str"
  using simple_loop_template [OF assms(1), of 0 ps "[]"] assms(2) by (simp add: vformat_to_simple default_arg_formatter_def write_integral_text)

theorem format_template_witness:
  "vformat_to plain_format_env \<lparr>arg_values = [Arg_string ''ab'', Arg_bool True], arg_names = []\<rparr> ''{{x}}={}, {} and a long tail to pass 32'' =
   Inr ''{x}=ab, true and a long tail to pass 32''"
proof -
  let ?ps = "[Lit ''{x}='', Field, Lit '', '', Field, Lit '' and a long tail to pass 32'']"
  let ?args = "\<lparr>arg_values = [Arg_string ''ab'', Arg_bool True], arg_names = []\<rparr> :: (unit, unit) fmt_args"
  have "list_all2 (\<lambda>a t. default_arg_formatter plain_format_env a = Inr t) (arg_values ?args) [''ab'', ''true'']"
    by (simp add: default_arg_formatter_def bool_text_def)
  from format_template [OF this, of ?ps] show ?thesis by (simp add: escape_brace_def)
qed

end
