(* ===== verification/Log_Format.thy ===== *)
theory Log_Format
  imports Ham_Log Fmt_Format
begin









end
