(* ===== verification/Spec2Isabelle.thy ===== *)
theory Spec2Isabelle
  imports HttpServer TcpServer EventLoopThread TcpClient Mpmc_Queue CountDownLatch ThreadPool Base Examples Ham_Log Async_Logger Log_Format
begin

text \<open>
  A verification library for ham, a multi-threaded network library in C++ in the style of one event loop per thread.

  \<^bold>\<open>The program and how its parts interact.\<close>  An \<^verbatim>\<open>EventLoop\<close> runs in one thread.  It waits in an \<^verbatim>\<open>Epoller\<close> for
  events on file descriptors; each descriptor is represented by a \<^verbatim>\<open>Channel\<close> with its event mask and callbacks.
  Other threads hand work to a loop by queueing functors and writing to its wakeup descriptor; timers
  are kept in a \<^verbatim>\<open>TimerQueue\<close> behind one timer descriptor.  An \<^verbatim>\<open>Acceptor\<close> accepts connections on a listening socket and
  a \<^verbatim>\<open>Connector\<close> makes them; a \<^verbatim>\<open>TcpConnection\<close> owns a connected socket with its input and output \<^verbatim>\<open>Buffer\<close> and its state
  machine.  \<^verbatim>\<open>TcpServer\<close> distributes accepted connections over an \<^verbatim>\<open>EventLoopThreadPool\<close> of \<^verbatim>\<open>EventLoopThread\<close>s,
  \<^verbatim>\<open>TcpClient\<close> keeps one connection and reconnects.  \<^verbatim>\<open>HttpServer\<close> is a \<^verbatim>\<open>TcpServer\<close> whose callbacks parse
  requests (\<^verbatim>\<open>HttpContext\<close>, \<^verbatim>\<open>HttpRequest\<close>) and write responses (\<^verbatim>\<open>HttpResponse\<close>).  \<^verbatim>\<open>ham/base\<close> has the blocking
  queues, the latch, the thread pool, the exception with its stack trace and the logger, which is spdlog under
  \<^verbatim>\<open>thirdParty\<close>, with its copy of the fmt library that makes a message from a format string and arguments.

  \<^bold>\<open>Theories and sources.\<close>  State is a record with the members of the class, each member function is a definition of nearly its
  name on that record; a record of one class extends that of the class it lives in (a connection, an acceptor and a connector
  extend their loop).  Errors are values: a failed \<^verbatim>\<open>assert\<close> (the default build is the debug
  build), an abort by \<^verbatim>\<open>CRITICAL\<close>, an access out of bounds, an exception that escapes, a call of \<^verbatim>\<open>std::terminate\<close>.

  \<^item> \<open>Ham_Prelude\<close>: results and errors, the standard algorithms in use, 64-bit words as naturals.
  \<^item> \<open>Endian\<close>, \<open>Buffer\<close>: \<^verbatim>\<open>ham/net/Endian.h\<close>, \<^verbatim>\<open>ham/net/Buffer.{h,cc}\<close>; \<open>Byte_Queue\<close> is the interface (a locale) of a
    byte queue with its laws, of which the buffer is an instance.
  \<^item> \<open>Std_Containers\<close>: the interface of ordered maps and its instance on sorted association lists, for
    \<^verbatim>\<open>std::map\<close> and \<^verbatim>\<open>std::unordered_map\<close>.
  \<^item> \<open>Timestamp\<close>, \<open>TimerQueue\<close>: \<^verbatim>\<open>ham/base/Timestamp\<close>, \<^verbatim>\<open>ham/net/Timer\<close>, \<^verbatim>\<open>TimerId\<close>, \<^verbatim>\<open>TimerQueue\<close>.
  \<^item> \<open>Channel\<close>, \<open>Epoller\<close>, \<open>EventLoop\<close>: the loop; the interest list of the kernel is a parameter with the laws of
    \<^verbatim>\<open>epoll_ctl\<close>, and the locale \<open>descriptor_watch\<close> is what its clients rely on.
  \<^item> \<open>TcpConnection\<close>: the connection; user callbacks are programs of calls on the connection.
  \<^item> \<open>SocketOps\<close>, \<open>InetAddress\<close> (with \<^verbatim>\<open>Socket\<close>), \<open>Acceptor\<close>, \<open>EventLoopThread\<close>, \<open>EventLoopThreadPool\<close>, \<open>TcpServer\<close>: the server side;
    the system calls are a record of functions on an abstract state, with the laws of descriptors.
  \<^item> \<open>Connector\<close>, \<open>TcpClient\<close>: the client side.
  \<^item> \<open>HttpRequest\<close>, \<open>HttpContext\<close>, \<open>HttpResponse\<close>, \<open>HttpServer\<close>: \<^verbatim>\<open>ham/net/http\<close>.
  \<^item> \<open>BlockingQueue\<close> (with \<^verbatim>\<open>BoundedBlockingQueue\<close>), \<open>CountDownLatch\<close>, \<open>ThreadPool\<close>, \<open>Base\<close> (exception, singletons, thread id):
    \<^verbatim>\<open>ham/base\<close>.
  \<^item> \<open>Circular_Q\<close>, \<open>Mpmc_Queue\<close>: \<^verbatim>\<open>spdlog/details/circular_q.h\<close> and \<^verbatim>\<open>mpmc_blocking_q.h\<close>; the locale
    \<open>bounded_ring\<close> is the contract of a bounded ring, which \<^verbatim>\<open>boost::circular_buffer\<close> fills in \<^verbatim>\<open>BoundedBlockingQueue\<close> and
    \<^verbatim>\<open>circular_q\<close> in the queue of the log.
  \<^item> \<open>Rotating_Sink\<close>: \<^verbatim>\<open>spdlog/details/file_helper-inl.h\<close> and \<^verbatim>\<open>spdlog/sinks/rotating_file_sink-inl.h\<close>.
  \<^item> \<open>Log_Msg\<close>, \<open>Fmt_Helper\<close>, \<open>Pattern_Formatter\<close>: levels and messages of the log (\<^verbatim>\<open>spdlog/common.h\<close>, \<^verbatim>\<open>log_msg.h\<close>), \<^verbatim>\<open>fmt_helper.h\<close>, and
    the compiler of log patterns with all flag formatters (\<^verbatim>\<open>pattern_formatter-inl.h\<close>); \<open>Pattern_Fields\<close> has the lemmas on what
    a line shows.
  \<^item> \<open>Spd_Logger\<close>: the logger of spdlog with its backtrace (\<^verbatim>\<open>logger.h\<close>, \<^verbatim>\<open>logger-inl.h\<close>, \<^verbatim>\<open>backtracer-inl.h\<close>, \<^verbatim>\<open>log_msg_buffer-inl.h\<close>) over any
    sinks, which are a record of functions; \<open>Spd_Sinks\<close>: the file and the console sink (\<^verbatim>\<open>base_sink-inl.h\<close>, \<^verbatim>\<open>ansicolor_sink-inl.h\<close>), where the
    locale \<open>line_sink\<close> is the contract of a sink that takes lines and the two sinks are its instance; \<open>Spd_Registry\<close>: \<^verbatim>\<open>registry-inl.h\<close>.
  \<^item> \<open>Ham_Log\<close>: \<^verbatim>\<open>ham/base/Log.{h,cc}\<close>, the logger of the library on top of these.
  \<^item> \<open>Fmt_Digits\<close>, \<open>Fmt_Specs\<close>, \<open>Fmt_Write\<close>, \<open>Fmt_Format\<close>: the fmt library (\<^verbatim>\<open>spdlog/fmt/bundled/{core,format,format-inl}.h\<close>), that is, the counting and
    printing of digits, arguments and the parser of format specifications, the writing of a field, and format strings; \<open>Log_Format\<close> puts them
    under the logging call with arguments (\<^verbatim>\<open>logger.h\<close>).
  \<^item> \<open>Async_Logger\<close>: the asynchronous logger of spdlog with its thread pool (\<^verbatim>\<open>async_logger-inl.h\<close>, \<^verbatim>\<open>thread_pool-inl.h\<close>).
  \<^item> \<open>Examples\<close>: the echo and the character generator servers.

  \<^bold>\<open>What the lemmas show.\<close>  Buffers refine byte queues, with integers and reads from descriptors, and never overrun.  The timer queue fires,
  reschedules and cancels as it should, unless two timers expire at the very microsecond of the alarm.  A loop runs functors of all threads once and in
  order and loses no wakeup, except for functors that its own thread queued before it ran.  A connection, driven by its own loop and by other threads,
  fails an assertion only where it is removed after a shutdown; it hands accepted bytes to the socket in order and is shut down after the last
  one.  A server's books are consistent and its names unique, however often the close of a connection is reported.  A connector neither leaks nor loses a
  descriptor, and what it does for each error of \<^verbatim>\<open>connect\<close> is stated; where it is held by a shared pointer, it waits longer after
  each failure.  The HTTP parser inverts printing, terminates exactly where it should, and a server answers a request by
  the text of the response.  Queues, latch and pool are correct under any interleaving, with progress where the code has
  it.  The log files keep an unbroken end of the log, a line of the log is the fields of its
  pattern, every sink gets every message that it admits, and what the library logs reaches console and files in order, severe messages
  before the macro returns.  fmt prints integers digit for digit and lays them out in their field, its two scanners of a format string agree, and nothing
  but a format error leaves it; so a message is its format string with the arguments in place.  The asynchronous logger leaves its sinks as
  the synchronous one would, and its destructor never deadlocks.  Where the code does not do what it means to, a theorem states what it does.

  \<^bold>\<open>Threads.\<close>  Critical sections and atomic accesses are the steps of an inductive relation; theorems quantify over all interleavings
  of such steps.  Condition variables wake one or all blocked threads, and a woken thread checks its condition again; spurious wakeups are steps of
  their own, except for producers of the log queue.  A call from another thread on a connection is one step of the connection, since all it does there is to test the state
  and to queue a functor.

  \<^bold>\<open>Loops.\<close>  Loops over lists are structural.  The loop that empties a backtrace has as much fuel as its ring has slots, which is shown to be
  enough.  The loops of fmt shorten a number or the rest of a format string, and their termination is proved.  The loop of the request parser may run for ever and is an optional result, with
  termination characterised exactly.

  \<^bold>\<open>Not modelled.\<close>  Of fmt, the printing of floating-point numbers, the formatters of user types and the separators of the locale are parameters of the model, and
  128-bit integers, wide characters, printf and the compiled formats are left out.  So are the sinks of spdlog
  that the library does not use, the time zone in
  \<^verbatim>\<open>toFormatTime\<close>, signal handling, type definitions and casts, benchmarks and tests.  The counter of overrun messages is an unbounded number, the
  macros of the log are modelled by the overload with arguments, which does the same for a plain text and the two sinks of the library, an
  empty task of the thread pool counts as started, and logging leaves \<^verbatim>\<open>errno\<close> alone.
\<close>

end
